(* ===== verification/Prelude.thy ===== *)
theory Prelude
  imports Main "HOL-Library.Word"
begin

text \<open>
  The prelude shared by all components.  It fixes how C is read in HOL:
  \<^item> failures are values: an operation that can return \<open>NULL\<close>, read or write outside an
    object, or fail an \<open>assert\<close> has a result of type \<open>cfail + 'a\<close>;
  \<^item> integer conversions are written out: \<open>int32\<close>, \<open>int64\<close> wrap to two's complement,
    \<open>size_t\<close> wraps modulo \<open>2 ^ 64\<close> (an LP64 target, as the sources assume);
  \<^item> the C library functions the sources call (\<open>malloc\<close>, \<open>memcpy\<close>, \<open>strlen\<close>,
    \<open>isspace\<close>, ...) with the behaviour the C standard gives them in the C locale.
  The rest are the generic lemmas the components share.
\<close>

section \<open>Failures as values\<close>

datatype cfail =
    NoMem          \<comment> \<open>the function returned NULL because an allocation failed\<close>
  | OutOfBounds    \<comment> \<open>a read or write outside the object (undefined behaviour)\<close>
  | AssertFailed   \<comment> \<open>an \<open>assert\<close> of the source does not hold\<close>

type_synonym 'a res = "cfail + 'a"

definition bindr :: "'a res \<Rightarrow> ('a \<Rightarrow> 'b res) \<Rightarrow> 'b res" where
  "bindr m f = (case m of Inl e \<Rightarrow> Inl e | Inr x \<Rightarrow> f x)"

lemma bindr_simps [simp]:
  "bindr (Inl e) f = Inl e"
  "bindr (Inr x) f = f x"
  by (simp_all add: bindr_def)

lemma bindr_cong [fundef_cong]:
  "m = m' \<Longrightarrow> (\<And>x. m' = Inr x \<Longrightarrow> f x = f' x) \<Longrightarrow> bindr m f = bindr m' f'"
  by (cases m') auto

named_theorems res_iff \<open>when a computation of the error monad returns a value\<close>

lemma bindr_Inr_iff [res_iff]: "bindr m f = Inr y \<longleftrightarrow> (\<exists>x. m = Inr x \<and> f x = Inr y)"
  by (cases m) auto

lemma bindr_Inl_iff [res_iff]:
  "bindr m f = Inl e \<longleftrightarrow> m = Inl e \<or> (\<exists>x. m = Inr x \<and> f x = Inl e)"
  by (cases m) auto

definition check :: "cfail \<Rightarrow> bool \<Rightarrow> unit res" where
  "check e b = (if b then Inr () else Inl e)"

lemma check_simps [simp]: "check e True = Inr ()" "check e False = Inl e"
  by (simp_all add: check_def)

lemma check_Inr_iff [res_iff]: "check e b = Inr u \<longleftrightarrow> b"
  by (simp add: check_def)

lemma check_Inl_iff [res_iff]: "check e b = Inl e' \<longleftrightarrow> \<not> b \<and> e' = e"
  by (auto simp: check_def)

text \<open>Sequencing of operations that may fail or not return.\<close>

definition bindio :: "('a option) res \<Rightarrow> ('a \<Rightarrow> ('b option) res) \<Rightarrow> ('b option) res" where
  "bindio m f = bindr m (\<lambda>x. case x of None \<Rightarrow> Inr None | Some y \<Rightarrow> f y)"

lemma bindio_simps [simp]:
  "bindio (Inl e) f = Inl e" "bindio (Inr None) f = Inr None" "bindio (Inr (Some x)) f = f x"
  by (simp_all add: bindio_def)

lemma bindio_cong [fundef_cong]:
  "m = m' \<Longrightarrow> (\<And>x. m' = Inr (Some x) \<Longrightarrow> f x = f' x) \<Longrightarrow> bindio m f = bindio m' f'"
  by (auto simp: bindio_def split: option.splits intro: bindr_cong)

lemma bindio_Some_iff [res_iff]: "bindio m f = Inr (Some y) \<longleftrightarrow> (\<exists>x. m = Inr (Some x) \<and> f x = Inr (Some y))"
  by (auto simp: bindio_def res_iff split: option.splits)

text \<open>
  \<open>returns f m Q\<close>: the computation \<open>m\<close> returns a value satisfying \<open>Q\<close>, or it
  returned NULL for lack of memory and \<open>f\<close> says that this may happen.  In particular it
  makes no access out of bounds and fails no assertion.
\<close>

definition returns :: "bool \<Rightarrow> 'a res \<Rightarrow> ('a \<Rightarrow> bool) \<Rightarrow> bool" where
  "returns f m Q \<longleftrightarrow> (case m of Inl e \<Rightarrow> e = NoMem \<and> f | Inr x \<Rightarrow> Q x)"

lemma returns_simps [simp]:
  "returns f (Inr x) Q \<longleftrightarrow> Q x"
  "returns f (Inl e) Q \<longleftrightarrow> e = NoMem \<and> f"
  by (simp_all add: returns_def)

lemma returns_bind:
  "returns f m Q \<Longrightarrow> (\<And>x. m = Inr x \<Longrightarrow> Q x \<Longrightarrow> returns f (g x) R) \<Longrightarrow> returns f (bindr m g) R"
  by (cases m) auto

lemma returns_mono: "returns f m Q \<Longrightarrow> (\<And>x. Q x \<Longrightarrow> R x) \<Longrightarrow> returns f m R"
  by (cases m) auto

lemma returns_total: "returns False m Q \<Longrightarrow> \<exists>x. m = Inr x \<and> Q x"
  by (cases m) auto

lemma returnsD: "returns f m Q \<Longrightarrow> m = Inr x \<Longrightarrow> Q x"
  by simp

section \<open>Integer conversions\<close>

definition INT_MAX :: int where "INT_MAX = 2147483647"
definition LONG_MAX :: int where "LONG_MAX = 9223372036854775807"

definition int32 :: "int \<Rightarrow> int" where
  "int32 x = (x + 2147483648) mod 4294967296 - 2147483648"

definition int64 :: "int \<Rightarrow> int" where
  "int64 x = (x + 9223372036854775808) mod 18446744073709551616 - 9223372036854775808"

definition size_t :: "int \<Rightarrow> nat" where
  "size_t x = nat (x mod 18446744073709551616)"

lemma int32_id [simp]: "- 2147483648 \<le> x \<Longrightarrow> x \<le> 2147483647 \<Longrightarrow> int32 x = x"
  by (simp add: int32_def)

lemma int32_range: "- 2147483648 \<le> int32 x" "int32 x \<le> 2147483647"
  by (simp_all add: int32_def)

lemma int64_id [simp]:
  "- 9223372036854775808 \<le> x \<Longrightarrow> x \<le> 9223372036854775807 \<Longrightarrow> int64 x = x"
  by (simp add: int64_def)

lemma int64_range: "- 9223372036854775808 \<le> int64 x" "int64 x \<le> 9223372036854775807"
  by (simp_all add: int64_def)

lemma size_t_id [simp]: "0 \<le> x \<Longrightarrow> x < 18446744073709551616 \<Longrightarrow> size_t x = nat x"
  by (simp add: size_t_def)

lemma size_t_eq: "x = int n \<Longrightarrow> n < 18446744073709551616 \<Longrightarrow> size_t x = n"
  by simp

lemma size_t_range: "size_t x < 18446744073709551616"
proof -
  have "x mod 18446744073709551616 < 18446744073709551616" by simp
  then have "nat (x mod 18446744073709551616) < nat 18446744073709551616"
    by (subst nat_less_eq_zless) auto
  then show ?thesis by (simp add: size_t_def)
qed

section \<open>Memory blocks\<close>

text \<open>
  A memory block is the list of its bytes.  The result of \<open>malloc(n)\<close> is given by a
  parameter \<open>al\<close>: \<open>None\<close> when the allocation fails, otherwise a block of \<open>n\<close> bytes whose
  contents are unspecified (\<open>alloc_ok\<close> is what the C standard says about it).  The parameter is a function of the size: within a run, requests of the
  same size succeed or fail alike.
\<close>

type_synonym allocator = "nat \<Rightarrow> string option"

definition alloc_ok :: "allocator \<Rightarrow> bool" where
  "alloc_ok al \<longleftrightarrow> (\<forall>n b. al n = Some b \<longrightarrow> length b = n)"

lemma alloc_okD: "alloc_ok al \<Longrightarrow> al n = Some b \<Longrightarrow> length b = n"
  by (simp add: alloc_ok_def)

definition may_fail :: "allocator \<Rightarrow> bool" where
  "may_fail al \<longleftrightarrow> (\<exists>n. al n = None)"

lemma may_failI [simp, intro]: "al n = None \<Longrightarrow> may_fail al"
  by (auto simp: may_fail_def)

text \<open>An allocator that never fails and fills new memory with a fixed byte, for witnesses.\<close>

definition fill_alloc :: "char \<Rightarrow> allocator" where
  "fill_alloc c n = Some (replicate n c)"

lemma fill_alloc_ok [simp]: "alloc_ok (fill_alloc c)"
  by (auto simp: alloc_ok_def fill_alloc_def)

lemma fill_alloc_never_fails [simp]: "\<not> may_fail (fill_alloc c)"
  by (simp add: may_fail_def fill_alloc_def)

text \<open>Writing and reading with the bounds of the block checked.\<close>

definition mem_write :: "'a list \<Rightarrow> nat \<Rightarrow> 'a list \<Rightarrow> ('a list) res" where
  "mem_write b i xs =
     (if i + length xs \<le> length b then Inr (take i b @ xs @ drop (i + length xs) b)
      else Inl OutOfBounds)"

definition mem_read :: "'a list \<Rightarrow> nat \<Rightarrow> nat \<Rightarrow> ('a list) res" where
  "mem_read b i n = (if i + n \<le> length b then Inr (take n (drop i b)) else Inl OutOfBounds)"

definition mem_get :: "'a list \<Rightarrow> nat \<Rightarrow> 'a res" where
  "mem_get b i = (if i < length b then Inr (b ! i) else Inl OutOfBounds)"

lemma mem_write_in [simp]:
  "i + length xs \<le> length b \<Longrightarrow> mem_write b i xs = Inr (take i b @ xs @ drop (i + length xs) b)"
  by (simp add: mem_write_def)

lemma mem_get_in [simp]: "i < length b \<Longrightarrow> mem_get b i = Inr (b ! i)"
  by (simp add: mem_get_def)

lemma mem_get_Inr_iff [res_iff]: "mem_get b i = Inr x \<longleftrightarrow> i < length b \<and> x = b ! i"
  by (auto simp: mem_get_def)

lemma mem_read_in [simp]: "i + n \<le> length b \<Longrightarrow> mem_read b i n = Inr (take n (drop i b))"
  by (simp add: mem_read_def)

lemma mem_read_Inr_iff [res_iff]:
  "mem_read b i n = Inr xs \<longleftrightarrow> i + n \<le> length b \<and> xs = take n (drop i b)"
  by (auto simp: mem_read_def)

lemma mem_write_Inr_iff [res_iff]:
  "mem_write b i xs = Inr b' \<longleftrightarrow>
     i + length xs \<le> length b \<and> b' = take i b @ xs @ drop (i + length xs) b"
  by (auto simp: mem_write_def)

text \<open>\<open>realloc\<close>: a new block with the old contents, as far as they fit.\<close>

definition realloc :: "allocator \<Rightarrow> string \<Rightarrow> nat \<Rightarrow> string option" where
  "realloc al b n = map_option (\<lambda>fresh. take n b @ drop (min n (length b)) fresh) (al n)"

lemma realloc_length: "alloc_ok al \<Longrightarrow> realloc al b n = Some b' \<Longrightarrow> length b' = n"
  by (auto simp: realloc_def dest: alloc_okD)

lemma realloc_take:
  "alloc_ok al \<Longrightarrow> realloc al b n = Some b' \<Longrightarrow> m \<le> n \<Longrightarrow> m \<le> length b \<Longrightarrow> take m b' = take m b"
  by (auto simp: realloc_def min_def dest: alloc_okD)

section \<open>Characters and C strings\<close>

abbreviation NUL :: char where "NUL \<equiv> CHR 0x00"
abbreviation CR :: char where "CR \<equiv> CHR 0x0D"
abbreviation LF :: char where "LF \<equiv> CHR 0x0A"
abbreviation TAB :: char where "TAB \<equiv> CHR 0x09"
abbreviation DQUOTE :: char where "DQUOTE \<equiv> CHR 0x22"
abbreviation SQUOTE :: char where "SQUOTE \<equiv> CHR 0x27"
abbreviation BSLASH :: char where "BSLASH \<equiv> CHR 0x5C"
abbreviation byte_of :: "char \<Rightarrow> nat" where "byte_of c \<equiv> of_char c"

text \<open>The bytes of a C string, up to its terminating NUL.\<close>

definition cstr :: "string \<Rightarrow> string" where
  "cstr s = takeWhile (\<lambda>c. c \<noteq> NUL) s"

lemma cstr_id: "NUL \<notin> set s \<Longrightarrow> cstr s = s"
  unfolding cstr_def by (induction s) auto

definition isdigit :: "char \<Rightarrow> bool" where
  "isdigit c \<longleftrightarrow> 48 \<le> byte_of c \<and> byte_of c \<le> 57"

definition isspace :: "char \<Rightarrow> bool" where
  "isspace c \<longleftrightarrow> byte_of c = 32 \<or> (9 \<le> byte_of c \<and> byte_of c \<le> 13)"

definition isprint :: "char \<Rightarrow> bool" where
  "isprint c \<longleftrightarrow> 32 \<le> byte_of c \<and> byte_of c \<le> 126"

definition tolower :: "char \<Rightarrow> char" where
  "tolower c = (if 65 \<le> byte_of c \<and> byte_of c \<le> 90 then char_of (byte_of c + 32) else c)"

definition toupper :: "char \<Rightarrow> char" where
  "toupper c = (if 97 \<le> byte_of c \<and> byte_of c \<le> 122 then char_of (byte_of c - 32) else c)"

text \<open>\<open>strchr(cset, c)\<close> also finds the terminating NUL.\<close>

definition strchr_mem :: "string \<Rightarrow> char \<Rightarrow> bool" where
  "strchr_mem cset c \<longleftrightarrow> c \<in> set (cstr cset) \<or> c = NUL"

definition memcmp :: "string \<Rightarrow> string \<Rightarrow> int" where
  "memcmp xs ys =
     (case filter (\<lambda>(x, y). x \<noteq> y) (zip xs ys) of
        [] \<Rightarrow> 0
      | (x, y) # _ \<Rightarrow> int (byte_of x) - int (byte_of y))"

lemma byte_of_inject [simp]: "(byte_of c = byte_of d) = (c = d)"
  by simp

lemma char_eq_byte: "c = d \<longleftrightarrow> byte_of c = byte_of d"
  by simp

lemma byte_of_bound [simp]: "byte_of c < 256"
  by (metis char_of_nat of_char_of of_char_mod_256 mod_less_divisor zero_less_numeral)

lemma memcmp_self [simp]: "memcmp xs xs = 0"
proof -
  have "filter (\<lambda>(x, y). x \<noteq> y) (zip xs xs) = []"
    by (auto simp: filter_empty_conv set_zip)
  then show ?thesis by (simp add: memcmp_def)
qed

section \<open>Lists\<close>

lemma take_append_exact: "length xs = n \<Longrightarrow> take n (xs @ ys) = xs"
  by simp

lemma nth_append_exact: "length xs = n \<Longrightarrow> (xs @ y # ys) ! n = y"
  by auto

lemma list_update_take_drop:
  "i < length xs \<Longrightarrow> xs[i := x] = take i xs @ x # drop (Suc i) xs"
  by (rule upd_conv_take_nth_drop)

section \<open>Decimal notation\<close>

text \<open>The decimal notation of a number, most significant digit first (the conversions
  \<open>%d\<close>, \<open>%zu\<close>, \<open>%lld\<close> of \<open>printf\<close>).\<close>

definition digit_char :: "nat \<Rightarrow> char" where
  "digit_char d = char_of (48 + d)"

fun show_nat :: "nat \<Rightarrow> string" where
  "show_nat n = (if n < 10 then [digit_char n] else show_nat (n div 10) @ [digit_char (n mod 10)])"

declare show_nat.simps [simp del]

definition show_int :: "int \<Rightarrow> string" where
  "show_int i = (if i < 0 then CHR ''-'' # show_nat (nat (- i)) else show_nat (nat i))"

lemma byte_of_digit_char [simp]: "d < 10 \<Longrightarrow> byte_of (digit_char d) = 48 + d"
  by (simp add: digit_char_def of_char_of)

lemma isdigit_digit_char [simp]: "d < 10 \<Longrightarrow> isdigit (digit_char d)"
  by (simp add: isdigit_def)

lemma show_nat_nonempty [simp]: "show_nat n \<noteq> []"
  by (subst show_nat.simps) simp

lemma show_nat_digits: "c \<in> set (show_nat n) \<Longrightarrow> isdigit c"
proof (induction n rule: show_nat.induct)
  case (1 n)
  then show ?case by (cases "n < 10") (auto simp: show_nat.simps [of n])
qed

lemma length_show_nat: "n < 10 ^ k \<Longrightarrow> 0 < k \<Longrightarrow> length (show_nat n) \<le> k"
proof (induction n arbitrary: k rule: show_nat.induct)
  case (1 n)
  show ?case
  proof (cases "n < 10")
    case True
    with 1 show ?thesis by (simp add: show_nat.simps [of n])
  next
    case False
    with 1 obtain j where j: "k = Suc j" "0 < j"
      by (metis One_nat_def Suc_pred gr0I power_one_right)
    with 1(2) have "n div 10 < 10 ^ j" by (simp add: less_mult_imp_div_less)
    with False j "1.IH" show ?thesis by (simp add: show_nat.simps [of n])
  qed
qed

end
