(* ===== verification/Sds.thy ===== *)
theory Sds
  imports Prelude
begin

text \<open>
  The simple dynamic strings of \<open>hiredis-0.11.0/sds.h\<close> and the header operations of
  \<open>sds.c\<close>.  An sds value is a heap block: a header with two C \<open>int\<close>s (\<open>len\<close>,
  \<open>free\<close>) followed by \<open>len + free + 1\<close> bytes.  The model keeps the header fields as
  C ints (every store is converted by \<open>int32\<close>), the byte block as a list, and every copy
  into the block with its bounds checked.  The abstraction \<open>sds_val\<close> is the string the
  block stands for; the lemmas show that each operation implements the list operation it is
  meant to be, keeps the representation invariant \<open>sds_ok\<close> (which includes the implicit
  terminating NUL), and never touches memory outside its block.
\<close>

section \<open>Representation\<close>

record sdshdr =
  sh_len :: int
  sh_free :: int
  sh_buf :: string

definition sdshdr_size :: nat where "sdshdr_size = 8"

definition SDS_MAX_PREALLOC :: nat where "SDS_MAX_PREALLOC = 1048576"

definition sdslen :: "sdshdr \<Rightarrow> nat" where
  "sdslen s = size_t (sh_len s)"

definition sdsavail :: "sdshdr \<Rightarrow> nat" where
  "sdsavail s = size_t (sh_free s)"

definition sds_val :: "sdshdr \<Rightarrow> string" where
  "sds_val s = take (nat (sh_len s)) (sh_buf s)"

text \<open>
  The layout of the block, and the invariant of a finished string, which is also
  terminated (\<open>sdscatfmt\<close> writes the terminator last).
\<close>

definition sds_layout :: "sdshdr \<Rightarrow> bool" where
  "sds_layout s \<longleftrightarrow>
     0 \<le> sh_len s \<and> 0 \<le> sh_free s \<and> sh_len s + sh_free s \<le> INT_MAX \<and>
     int (length (sh_buf s)) = sh_len s + sh_free s + 1"

definition sds_ok :: "sdshdr \<Rightarrow> bool" where
  "sds_ok s \<longleftrightarrow> sds_layout s \<and> sh_buf s ! nat (sh_len s) = NUL"

section \<open>Operations\<close>

text \<open>
  \<open>malloc\<close> / \<open>calloc\<close> of a header with \<open>n\<close> bytes and a terminator; only the byte
  block after the header is kept.
\<close>

definition sds_block :: "allocator \<Rightarrow> nat \<Rightarrow> string option" where
  "sds_block al n = map_option (drop sdshdr_size) (al (size_t (int sdshdr_size + int n + 1)))"

definition sdsnewlen :: "allocator \<Rightarrow> string option \<Rightarrow> nat \<Rightarrow> sdshdr res" where
  "sdsnewlen al init initlen =
     (case sds_block al initlen of
        None \<Rightarrow> Inl NoMem
      | Some b0 \<Rightarrow>
          let b = (case init of None \<Rightarrow> replicate (length b0) NUL | Some _ \<Rightarrow> b0) in
          bindr (case init of
                   None \<Rightarrow> Inr b
                 | Some src \<Rightarrow>
                     if initlen = 0 then Inr b
                     else bindr (mem_read src 0 initlen) (\<lambda>d. mem_write b 0 d)) (\<lambda>b1.
          bindr (mem_write b1 initlen [NUL]) (\<lambda>b2.
          Inr \<lparr>sh_len = int32 (int initlen), sh_free = 0, sh_buf = b2\<rparr>)))"

definition sdsempty :: "allocator \<Rightarrow> sdshdr res" where
  "sdsempty al = sdsnewlen al (Some []) 0"

text \<open>\<open>init\<close> is the C string without its terminator.\<close>

definition sdsnew :: "allocator \<Rightarrow> string option \<Rightarrow> sdshdr res" where
  "sdsnew al init = sdsnewlen al init (case init of None \<Rightarrow> 0 | Some s \<Rightarrow> length (cstr s))"

definition sdsdup :: "allocator \<Rightarrow> sdshdr \<Rightarrow> sdshdr res" where
  "sdsdup al s = sdsnewlen al (Some (sh_buf s)) (sdslen s)"

definition sdsupdatelen :: "sdshdr \<Rightarrow> sdshdr" where
  "sdsupdatelen s =
     (let reallen = int32 (int (length (cstr (sh_buf s)))) in
      s\<lparr>sh_free := int32 (sh_free s + (sh_len s - reallen)), sh_len := reallen\<rparr>)"

definition sdsclear :: "sdshdr \<Rightarrow> sdshdr res" where
  "sdsclear s =
     bindr (mem_write (sh_buf s) 0 [NUL]) (\<lambda>b.
     Inr \<lparr>sh_len = 0, sh_free = int32 (sh_free s + sh_len s), sh_buf = b\<rparr>)"

definition sdsMakeRoomFor :: "allocator \<Rightarrow> sdshdr \<Rightarrow> nat \<Rightarrow> sdshdr res" where
  "sdsMakeRoomFor al s addlen =
     (if addlen \<le> sdsavail s then Inr s
      else
        let len = sdslen s;
            newlen = size_t (int len + int addlen);
            newlen = (if newlen < SDS_MAX_PREALLOC then size_t (int newlen * 2)
                      else size_t (int newlen + int SDS_MAX_PREALLOC)) in
        (case realloc al (replicate sdshdr_size NUL @ sh_buf s)
                (size_t (int sdshdr_size + int newlen + 1)) of
           None \<Rightarrow> Inl NoMem
         | Some b \<Rightarrow>
             Inr (s\<lparr>sh_free := int32 (int newlen - int len), sh_buf := drop sdshdr_size b\<rparr>)))"

definition sdsRemoveFreeSpace :: "allocator \<Rightarrow> sdshdr \<Rightarrow> sdshdr res" where
  "sdsRemoveFreeSpace al s =
     (case realloc al (replicate sdshdr_size NUL @ sh_buf s)
             (size_t (int sdshdr_size + sh_len s + 1)) of
        None \<Rightarrow> Inl OutOfBounds
      | Some b \<Rightarrow> Inr (s\<lparr>sh_free := 0, sh_buf := drop sdshdr_size b\<rparr>))"

definition sdsAllocSize :: "sdshdr \<Rightarrow> nat" where
  "sdsAllocSize s = size_t (int sdshdr_size + sh_len s + sh_free s + 1)"

definition sdsIncrLen :: "sdshdr \<Rightarrow> int \<Rightarrow> sdshdr res" where
  "sdsIncrLen s incr =
     bindr (check AssertFailed (incr \<le> sh_free s)) (\<lambda>_.
     let len' = int32 (sh_len s + incr); free' = int32 (sh_free s - incr) in
     bindr (check AssertFailed (0 \<le> free')) (\<lambda>_.
     bindr (check OutOfBounds (0 \<le> len')) (\<lambda>_.
     bindr (mem_write (sh_buf s) (nat len') [NUL]) (\<lambda>b.
     Inr \<lparr>sh_len = len', sh_free = free', sh_buf = b\<rparr>))))"

definition sdsgrowzero :: "allocator \<Rightarrow> sdshdr \<Rightarrow> nat \<Rightarrow> sdshdr res" where
  "sdsgrowzero al s len =
     (let curlen = size_t (sh_len s) in
      if len \<le> curlen then Inr s
      else
        bindr (sdsMakeRoomFor al s (len - curlen)) (\<lambda>s1.
        bindr (mem_write (sh_buf s1) curlen (replicate (len - curlen + 1) NUL)) (\<lambda>b.
        let totlen = size_t (sh_len s1 + sh_free s1) in
        Inr \<lparr>sh_len = int32 (int len),
             sh_free = int32 (int totlen - int32 (int len)), sh_buf = b\<rparr>)))"

text \<open>\<open>t\<close> is the source block, of which the first \<open>len\<close> bytes are appended.\<close>

definition sdscatlen :: "allocator \<Rightarrow> sdshdr \<Rightarrow> string \<Rightarrow> nat \<Rightarrow> sdshdr res" where
  "sdscatlen al s t len =
     (let curlen = sdslen s in
      bindr (sdsMakeRoomFor al s len) (\<lambda>s1.
      bindr (mem_read t 0 len) (\<lambda>d.
      bindr (mem_write (sh_buf s1) curlen d) (\<lambda>b.
      bindr (mem_write b (size_t (int curlen + int len)) [NUL]) (\<lambda>b'.
      Inr \<lparr>sh_len = int32 (int curlen + int len),
           sh_free = int32 (sh_free s1 - int len), sh_buf = b'\<rparr>)))))"

definition sdscat :: "allocator \<Rightarrow> sdshdr \<Rightarrow> string \<Rightarrow> sdshdr res" where
  "sdscat al s t = sdscatlen al s t (length (cstr t))"

definition sdscatsds :: "allocator \<Rightarrow> sdshdr \<Rightarrow> sdshdr \<Rightarrow> sdshdr res" where
  "sdscatsds al s t = sdscatlen al s (sh_buf t) (sdslen t)"

definition sdscpylen :: "allocator \<Rightarrow> sdshdr \<Rightarrow> string \<Rightarrow> nat \<Rightarrow> sdshdr res" where
  "sdscpylen al s t len =
     (let totlen = size_t (sh_free s + sh_len s) in
      bindr (if totlen < len then sdsMakeRoomFor al s (size_t (int len - sh_len s)) else Inr s) (\<lambda>s1.
      let totlen = (if totlen < len then size_t (sh_free s1 + sh_len s1) else totlen) in
      bindr (mem_read t 0 len) (\<lambda>d.
      bindr (mem_write (sh_buf s1) 0 d) (\<lambda>b.
      bindr (mem_write b len [NUL]) (\<lambda>b'.
      Inr \<lparr>sh_len = int32 (int len), sh_free = int32 (int totlen - int len), sh_buf = b'\<rparr>)))))"

definition sdscpy :: "allocator \<Rightarrow> sdshdr \<Rightarrow> string \<Rightarrow> sdshdr res" where
  "sdscpy al s t = sdscpylen al s t (length (cstr t))"

definition sdsrange :: "sdshdr \<Rightarrow> int \<Rightarrow> int \<Rightarrow> sdshdr res" where
  "sdsrange s start0 end0 =
     (let len = sdslen s in
      if len = 0 then Inr s
      else
        let start1 = (if start0 < 0 then max 0 (int32 (int len + start0)) else start0);
            end1 = (if end0 < 0 then max 0 (int32 (int len + end0)) else end0);
            newlen1 = (if start1 > end1 then 0 else end1 - start1 + 1);
            start2 = (if newlen1 \<noteq> 0 then start1 else 0);
            newlen2 =
              (if newlen1 \<noteq> 0 then
                 if start1 \<ge> int32 (int len) then 0
                 else if end1 \<ge> int32 (int len) then
                   let end2 = int32 (int len - 1) in
                   (if start1 > end2 then 0 else end2 - start1 + 1)
                 else newlen1
               else 0) in
        bindr (if start2 \<noteq> 0 \<and> newlen2 \<noteq> 0
               then bindr (mem_read (sh_buf s) (nat start2) (nat newlen2)) (mem_write (sh_buf s) 0)
               else Inr (sh_buf s)) (\<lambda>b.
        bindr (mem_write b (nat newlen2) [NUL]) (\<lambda>b'.
        Inr \<lparr>sh_len = int32 newlen2, sh_free = int32 (sh_free s + (sh_len s - newlen2)),
             sh_buf = b'\<rparr>)))"

section \<open>Correctness of the header operations\<close>

text \<open>Sizes for which the doubled allocation of \<open>sdsMakeRoomFor\<close> still fits a C \<open>int\<close>.\<close>

definition sds_fits :: "nat \<Rightarrow> bool" where
  "sds_fits n \<longleftrightarrow> n \<le> 2146435071"

lemma sds_fits_mono: "sds_fits n \<Longrightarrow> m \<le> n \<Longrightarrow> sds_fits m"
  by (simp add: sds_fits_def)

lemma sds_layoutE:
  assumes "sds_layout s"
  obtains l f where "sh_len s = int l" "sh_free s = int f" "sdslen s = l" "sdsavail s = f"
    "length (sh_buf s) = l + f + 1" "l + f \<le> 2147483647"
    "sds_val s = take l (sh_buf s)" "length (sds_val s) = l"
proof
  let ?l = "nat (sh_len s)" and ?f = "nat (sh_free s)"
  from assms have h: "0 \<le> sh_len s" "0 \<le> sh_free s" "sh_len s + sh_free s \<le> 2147483647"
    "int (length (sh_buf s)) = sh_len s + sh_free s + 1"
    by (simp_all add: sds_layout_def INT_MAX_def)
  then show "sh_len s = int ?l" "sh_free s = int ?f"
    and "length (sh_buf s) = ?l + ?f + 1" and "?l + ?f \<le> 2147483647"
    by auto
  from h show "sdslen s = ?l" "sdsavail s = ?f" by (simp_all add: sdslen_def sdsavail_def)
  from h show "sds_val s = take ?l (sh_buf s)" "length (sds_val s) = ?l"
    by (auto simp: sds_val_def)
qed

lemma sds_okE:
  assumes "sds_ok s"
  obtains l f where "sh_len s = int l" "sh_free s = int f" "sdslen s = l" "sdsavail s = f"
    "length (sh_buf s) = l + f + 1" "sh_buf s ! l = NUL" "l + f \<le> 2147483647"
    "sds_val s = take l (sh_buf s)" "length (sds_val s) = l"
  using assms unfolding sds_ok_def by (auto elim: sds_layoutE)

lemma sds_layoutI:
  assumes "sh_len s = int l" "sh_free s = int f" "length (sh_buf s) = l + f + 1" "l + f \<le> 2147483647"
  shows "sds_layout s" "sds_val s = take l (sh_buf s)" "sdslen s = l" "sdsavail s = f"
  using assms by (auto simp: sds_layout_def INT_MAX_def sds_val_def sdslen_def sdsavail_def)

lemma sds_okI:
  assumes "sh_len s = int l" "sh_free s = int f" "length (sh_buf s) = l + f + 1"
    and "sh_buf s ! l = NUL" "l + f \<le> 2147483647"
  shows "sds_ok s" "sds_val s = take l (sh_buf s)" "sdslen s = l" "sdsavail s = f"
  using assms sds_layoutI [of s l f] by (auto simp: sds_ok_def)

lemma sds_ok_layout: "sds_ok s \<Longrightarrow> sds_layout s"
  by (simp add: sds_ok_def)

lemma sdslen_val: "sds_ok s \<Longrightarrow> sdslen s = length (sds_val s)"
  by (auto elim: sds_okE)

lemma sds_block_length:
  "alloc_ok al \<Longrightarrow> sds_block al n = Some b \<Longrightarrow> sds_fits n \<Longrightarrow> length b = n + 1"
  by (auto simp: sds_block_def sds_fits_def sdshdr_size_def dest!: alloc_okD)

lemma sds_block_None: "sds_block al n = None \<Longrightarrow> may_fail al"
  by (auto simp: sds_block_def)

lemma sdsnewlen_spec:
  assumes "alloc_ok al" "sds_fits n" "n \<le> length t"
  shows "returns (may_fail al) (sdsnewlen al (Some t) n)
    (\<lambda>s. sds_ok s \<and> sds_val s = take n t \<and> sh_free s = 0)"
proof (cases "sds_block al n")
  case None
  then show ?thesis by (simp add: sdsnewlen_def sds_block_None)
next
  case (Some b)
  with assms have "length b = n + 1" by (simp add: sds_block_length)
  with assms Some show ?thesis
    by (auto simp: sdsnewlen_def sds_fits_def sds_ok_def sds_layout_def sds_val_def INT_MAX_def nth_append min_def)
qed

lemma sdsnewlen_NULL_spec:
  assumes "alloc_ok al" "sds_fits n"
  shows "returns (may_fail al) (sdsnewlen al None n)
    (\<lambda>s. sds_ok s \<and> sds_val s = replicate n NUL \<and> sh_free s = 0)"
proof (cases "sds_block al n")
  case None
  then show ?thesis by (simp add: sdsnewlen_def sds_block_None)
next
  case (Some b)
  with assms have "length b = n + 1" by (simp add: sds_block_length)
  with assms Some show ?thesis
    by (auto simp: sdsnewlen_def sds_fits_def sds_ok_def sds_layout_def sds_val_def INT_MAX_def nth_append min_def
        take_replicate simp flip: replicate_Suc)
qed

lemma sdsempty_spec:
  "alloc_ok al \<Longrightarrow> returns (may_fail al) (sdsempty al) (\<lambda>s. sds_ok s \<and> sds_val s = [])"
  using sdsnewlen_spec [of al 0 "[]"]
  by (auto simp: sdsempty_def sds_fits_def elim: returns_mono)

lemma length_cstr_le [simp]: "length (cstr s) \<le> length s"
  by (simp add: cstr_def length_takeWhile_le)

lemma take_length_cstr [simp]: "take (length (cstr s)) s = cstr s"
  unfolding cstr_def by (metis takeWhile_eq_take)

lemma sdsnew_spec:
  "alloc_ok al \<Longrightarrow> sds_fits (length t) \<Longrightarrow>
     returns (may_fail al) (sdsnew al (Some t)) (\<lambda>s. sds_ok s \<and> sds_val s = cstr t)"
  using sdsnewlen_spec [of al "length (cstr t)" t] sds_fits_mono [of "length t" "length (cstr t)"]
  by (auto simp: sdsnew_def elim: returns_mono)

lemma sdsdup_spec:
  assumes "alloc_ok al" "sds_ok s" "sds_fits (sdslen s)"
  shows "returns (may_fail al) (sdsdup al s) (\<lambda>s'. sds_ok s' \<and> sds_val s' = sds_val s)"
proof -
  from assms(2) have "sdslen s \<le> length (sh_buf s)" "sds_val s = take (sdslen s) (sh_buf s)"
    by (auto elim: sds_okE)
  then show ?thesis
    using sdsnewlen_spec [OF assms(1,3), of "sh_buf s"]
    by (auto simp: sdsdup_def elim: returns_mono)
qed

lemma sdsMakeRoomFor_layout:
  assumes al: "alloc_ok al" and ok: "sds_layout s" and fits: "sds_fits (sdslen s + n)"
  shows "returns (may_fail al) (sdsMakeRoomFor al s n)
    (\<lambda>s'. sds_layout s' \<and> sds_val s' = sds_val s \<and> sh_len s' = sh_len s \<and> n \<le> sdsavail s' \<and>
          sh_buf s' ! nat (sh_len s) = sh_buf s ! nat (sh_len s))"
proof -
  from ok obtain l f where s: "sh_len s = int l" "sh_free s = int f" "sdslen s = l" "sdsavail s = f"
    "length (sh_buf s) = l + f + 1" "l + f \<le> 2147483647" "sds_val s = take l (sh_buf s)"
    by (rule sds_layoutE)
  show ?thesis
  proof (cases "n \<le> f")
    case True
    with ok s show ?thesis by (simp add: sdsMakeRoomFor_def)
  next
    case False
    define k where "k = (if l + n < SDS_MAX_PREALLOC then (l + n) * 2 else l + n + SDS_MAX_PREALLOC)"
    let ?r = "realloc al (replicate sdshdr_size NUL @ sh_buf s) (size_t (int sdshdr_size + int k + 1))"
    have k: "l + n \<le> k" "k \<le> 2147483647"
      using fits s by (auto simp: k_def sds_fits_def SDS_MAX_PREALLOC_def)
    have "size_t (int l + int n) = l + n" "(if l + n < SDS_MAX_PREALLOC then size_t (int (l + n) * 2)
        else size_t (int (l + n) + int SDS_MAX_PREALLOC)) = k"
      using fits s by (auto simp: sds_fits_def SDS_MAX_PREALLOC_def k_def intro!: size_t_eq)
    then have m: "sdsMakeRoomFor al s n = (case ?r of None \<Rightarrow> Inl NoMem
        | Some b \<Rightarrow> Inr (s\<lparr>sh_free := int32 (int k - int l), sh_buf := drop sdshdr_size b\<rparr>))"
      unfolding sdsMakeRoomFor_def Let_def s(3,4) using False by (simp only: if_False)
    show ?thesis
    proof (cases ?r)
      case None
      then show ?thesis by (auto simp: m realloc_def)
    next
      case (Some b)
      let ?s = "s\<lparr>sh_free := int (k - l), sh_buf := drop sdshdr_size b\<rparr>"
      have len: "length b = sdshdr_size + k + 1"
        using realloc_length [OF al Some] k by (simp add: sdshdr_size_def)
      have "take (sdshdr_size + (l + 1)) b
          = take (sdshdr_size + (l + 1)) (replicate sdshdr_size NUL @ sh_buf s)"
        using k False s by (intro realloc_take [OF al Some]) (auto simp: sdshdr_size_def)
      then have t: "take (l + 1) (drop sdshdr_size b) = take (l + 1) (sh_buf s)"
        by (simp add: take_drop add.commute)
      have "drop sdshdr_size b ! l = take (l + 1) (drop sdshdr_size b) ! l" by simp
      also have "\<dots> = sh_buf s ! l" using s by (simp only: t) simp
      finally have last: "drop sdshdr_size b ! l = sh_buf s ! l" .
      have v: "take l (drop sdshdr_size b) = take l (sh_buf s)"
        using arg_cong [OF t, of "take l"] by (simp add: min_def)
      have "sds_layout ?s" "sds_val ?s = take l (drop sdshdr_size b)" "sdsavail ?s = k - l"
        using sds_layoutI [of ?s l "k - l"] s k len by auto
      with s k v last False show ?thesis by (simp add: m Some of_nat_diff)
    qed
  qed
qed

lemma sdsMakeRoomFor_spec:
  assumes "alloc_ok al" and "sds_ok s" and "sds_fits (sdslen s + n)"
  shows "returns (may_fail al) (sdsMakeRoomFor al s n)
    (\<lambda>s'. sds_ok s' \<and> sds_val s' = sds_val s \<and> sh_len s' = sh_len s \<and> n \<le> sdsavail s')"
  using sdsMakeRoomFor_layout [OF assms(1) _ assms(3)] assms(2)
  by (auto simp: sds_ok_def elim!: returns_mono)

lemma sdscatlen_spec:
  assumes al: "alloc_ok al" and ok: "sds_ok s" and fits: "sds_fits (sdslen s + n)" and n: "n \<le> length t"
  shows "returns (may_fail al) (sdscatlen al s t n) (\<lambda>s'. sds_ok s' \<and> sds_val s' = sds_val s @ take n t)"
  unfolding sdscatlen_def Let_def
proof (rule returns_bind [OF sdsMakeRoomFor_spec [OF al ok fits]])
  fix s1
  assume s1: "sds_ok s1 \<and> sds_val s1 = sds_val s \<and> sh_len s1 = sh_len s \<and> n \<le> sdsavail s1"
  then obtain l f where s: "sh_len s1 = int l" "sh_free s1 = int f" "sdslen s1 = l" "sdsavail s1 = f"
    "length (sh_buf s1) = l + f + 1" "l + f \<le> 2147483647" "sds_val s1 = take l (sh_buf s1)"
    by (auto elim: sds_okE)
  then have l: "sdslen s = l" using s1 by (simp add: sdslen_def)
  have z: "size_t (int l + int n) = l + n" using s s1 by (auto intro!: size_t_eq)
  let ?b = "take l (sh_buf s1) @ take n t @ NUL # drop (l + n + 1) (sh_buf s1)"
  have w: "mem_write (take l (sh_buf s1) @ take n t @ drop (l + n) (sh_buf s1)) (l + n) [NUL] = Inr ?b"
    using s s1 n by (simp add: min_def)
  have "sds_ok \<lparr>sh_len = int (l + n), sh_free = int (f - n), sh_buf = ?b\<rparr>"
    "sds_val \<lparr>sh_len = int (l + n), sh_free = int (f - n), sh_buf = ?b\<rparr> = take l (sh_buf s1) @ take n t"
    using sds_okI [of "\<lparr>sh_len = int (l + n), sh_free = int (f - n), sh_buf = ?b\<rparr>" "l + n" "f - n"]
      s s1 n by (auto simp: nth_append)
  then show "returns (may_fail al)
      (bindr (mem_read t 0 n) (\<lambda>d. bindr (mem_write (sh_buf s1) (sdslen s) d) (\<lambda>b.
        bindr (mem_write b (size_t (int (sdslen s) + int n)) [NUL]) (\<lambda>b'.
          Inr \<lparr>sh_len = int32 (int (sdslen s) + int n), sh_free = int32 (sh_free s1 - int n),
               sh_buf = b'\<rparr>))))
      (\<lambda>s'. sds_ok s' \<and> sds_val s' = sds_val s @ take n t)"
    using s s1 n l z w by (auto simp: of_nat_diff)
qed

lemma sdscat_spec:
  assumes "alloc_ok al" "sds_ok s" "sds_fits (sdslen s + length (cstr t))"
  shows "returns (may_fail al) (sdscat al s t) (\<lambda>s'. sds_ok s' \<and> sds_val s' = sds_val s @ cstr t)"
  using sdscatlen_spec [OF assms, of t] by (simp add: sdscat_def)

lemma sdscatsds_spec:
  assumes "alloc_ok al" "sds_ok s" "sds_ok t" "sds_fits (sdslen s + sdslen t)"
  shows "returns (may_fail al) (sdscatsds al s t) (\<lambda>s'. sds_ok s' \<and> sds_val s' = sds_val s @ sds_val t)"
proof -
  from assms(3) have "sdslen t \<le> length (sh_buf t)" "take (sdslen t) (sh_buf t) = sds_val t"
    by (auto elim: sds_okE)
  then show ?thesis
    using sdscatlen_spec [OF assms(1,2,4), of "sh_buf t"] by (simp add: sdscatsds_def)
qed


lemma sdscpylen_spec:
  assumes al: "alloc_ok al" and ok: "sds_ok s" and fits: "sds_fits n" and n: "n \<le> length t"
  shows "returns (may_fail al) (sdscpylen al s t n) (\<lambda>s'. sds_ok s' \<and> sds_val s' = take n t)"
proof -
  from ok obtain l f where s: "sh_len s = int l" "sh_free s = int f" "sdslen s = l" "sdsavail s = f"
    "length (sh_buf s) = l + f + 1" "l + f \<le> 2147483647"
    by (rule sds_okE)
  have tot: "size_t (sh_free s + sh_len s) = f + l" using s by (auto intro!: size_t_eq)
  define m where "m = (if f + l < n then sdsMakeRoomFor al s (size_t (int n - sh_len s)) else Inr s)"
  have m: "returns (may_fail al) m (\<lambda>s1. sds_ok s1 \<and> sh_len s1 = int l \<and>
      (f + l < n \<or> sh_free s1 = int f) \<and> n \<le> l + sdsavail s1)"
  proof (cases "f + l < n")
    case True
    then have "size_t (int n - sh_len s) = n - l" "sdslen s + (n - l) = n"
      using s fits by (auto simp: sds_fits_def intro!: size_t_eq)
    with True show ?thesis
      using sdsMakeRoomFor_spec [OF al ok, of "n - l"] fits s
      by (auto simp: m_def elim!: returns_mono)
  next
    case False
    with s ok show ?thesis by (auto simp: m_def)
  qed
  have "returns (may_fail al) (bindr m (\<lambda>s1.
      let totlen = (if f + l < n then size_t (sh_free s1 + sh_len s1) else f + l) in
      bindr (mem_read t 0 n) (\<lambda>d. bindr (mem_write (sh_buf s1) 0 d) (\<lambda>b. bindr (mem_write b n [NUL]) (\<lambda>b'.
      Inr \<lparr>sh_len = int32 (int n), sh_free = int32 (int totlen - int n), sh_buf = b'\<rparr>)))))
     (\<lambda>s'. sds_ok s' \<and> sds_val s' = take n t)"
  proof (rule returns_bind [OF m])
    fix s1 assume a: "sds_ok s1 \<and> sh_len s1 = int l \<and> (f + l < n \<or> sh_free s1 = int f) \<and> n \<le> l + sdsavail s1"
    then obtain g where g: "sh_free s1 = int g" "sdsavail s1 = g" "length (sh_buf s1) = l + g + 1"
      "l + g \<le> 2147483647" by (auto elim!: sds_okE)
    have t: "(if f + l < n then size_t (sh_free s1 + sh_len s1) else f + l) = l + g"
      using a g by (auto intro!: size_t_eq)
    let ?b = "take n t @ NUL # drop (n + 1) (sh_buf s1)"
    have "mem_write (take n t @ drop n (sh_buf s1)) n [NUL] = Inr ?b"
      using a g n by (simp add: min_def)
    then show "returns (may_fail al)
      (let totlen = (if f + l < n then size_t (sh_free s1 + sh_len s1) else f + l) in
      bindr (mem_read t 0 n) (\<lambda>d. bindr (mem_write (sh_buf s1) 0 d) (\<lambda>b. bindr (mem_write b n [NUL]) (\<lambda>b'.
      Inr \<lparr>sh_len = int32 (int n), sh_free = int32 (int totlen - int n), sh_buf = b'\<rparr>))))
      (\<lambda>s'. sds_ok s' \<and> sds_val s' = take n t)"
      unfolding t using a g n sds_okI [of "\<lparr>sh_len = int n, sh_free = int (l + g - n), sh_buf = ?b\<rparr>" n "l + g - n"]
      by (auto simp: nth_append of_nat_diff)
  qed
  then show ?thesis unfolding sdscpylen_def Let_def tot m_def .
qed

section \<open>Substrings\<close>

text \<open>What \<open>sdsrange(s,start,end)\<close> selects: an inclusive interval, negative indices counting
  from the end, clipped to the string.\<close>

definition range_of :: "int \<Rightarrow> int \<Rightarrow> 'a list \<Rightarrow> 'a list" where
  "range_of start end xs =
     (let n = int (length xs);
          a = (if start < 0 then max 0 (n + start) else start);
          b = (if end < 0 then max 0 (n + end) else end)
      in take (nat (b - a + 1)) (drop (nat a) xs))"

lemma range_of_suffix: "range_of (int k) (- 1) xs = drop k xs"
  by (auto simp: range_of_def Let_def nat_diff_distrib')

lemma sdsrange_spec:
  assumes ok: "sds_ok s" and r: "- 2147483648 \<le> start" "start \<le> 2147483647" "- 2147483648 \<le> end" "end \<le> 2147483647"
  shows "\<exists>s'. sdsrange s start end = Inr s' \<and> sds_ok s' \<and> sds_val s' = range_of start end (sds_val s)"
proof -
  from ok obtain l f where s: "sh_len s = int l" "sh_free s = int f" "sdslen s = l" "sdsavail s = f"
    "length (sh_buf s) = l + f + 1" "l + f \<le> 2147483647" "sds_val s = take l (sh_buf s)" "length (sds_val s) = l"
    by (rule sds_okE)
  show ?thesis
  proof (cases "l = 0")
    case True
    with s ok show ?thesis by (simp add: sdsrange_def range_of_def Let_def)
  next
    case False
    define a where "a = (if start < 0 then max 0 (int l + start) else start)"
    define b where "b = (if end < 0 then max 0 (int l + end) else end)"
    define e where "e = min b (int l - 1)"
    define n where "n = nat (e - a + 1)"
    define st where "st = (if a > b then 0 else a)"
    have ab: "0 \<le> a" "0 \<le> b" "a \<le> 2147483647" using r s by (auto simp: a_def b_def)
    have A: "(if start < 0 then max 0 (int32 (int l + start)) else start) = a"
      using r s by (simp add: a_def)
    have B: "(if end < 0 then max 0 (int32 (int l + end)) else end) = b"
      using r s by (simp add: b_def)
    have k: "int32 (int l) = int l" "int32 (int l - 1) = int l - 1" using s False by auto
    have n1: "n = 0 \<or> (nat a + n \<le> l \<and> a \<le> e)" "n \<le> l" using ab False by (auto simp: n_def e_def)
    have nl: "(if (if a > b then 0 else b - a + 1) \<noteq> 0
         then if a \<ge> int32 (int l) then 0
              else if b \<ge> int32 (int l) then (if a > int32 (int l - 1) then 0 else int32 (int l - 1) - a + 1)
              else (if a > b then 0 else b - a + 1)
         else 0) = int n"
      unfolding k using False ab by (auto simp: n_def e_def)
    have st: "(if (if a > b then 0 else b - a + 1) \<noteq> 0 then a else 0) = st"
      by (auto simp: st_def)
    have rd: "(if st \<noteq> 0 \<and> int n \<noteq> 0
         then bindr (mem_read (sh_buf s) (nat st) n) (mem_write (sh_buf s) 0)
         else Inr (sh_buf s)) = Inr (take n (drop (nat a) (sh_buf s)) @ drop n (sh_buf s))"
    proof (cases "n = 0 \<or> st = 0")
      case True
      then have "n = 0 \<or> a = 0" using ab by (auto simp: st_def n_def e_def split: if_splits)
      with True show ?thesis by auto
    next
      case False
      with n1 s have "nat a + n \<le> length (sh_buf s)" "st = a" by (auto simp: st_def split: if_splits)
      with False show ?thesis by (simp add: min_absorb2)
    qed
    let ?b = "take n (drop (nat a) (sh_buf s)) @ NUL # drop (Suc n) (sh_buf s)"
    have len: "length (take n (drop (nat a) (sh_buf s))) = n" using n1 s by (auto simp: min_def)
    have w: "mem_write (take n (drop (nat a) (sh_buf s)) @ drop n (sh_buf s)) n [NUL] = Inr ?b"
      using s n1 len by (auto simp: mem_write_def)
    have v: "take n (drop (nat a) (sh_buf s)) = range_of start end (sds_val s)"
    proof -
      have "range_of start end (sds_val s) = take (nat (b - a + 1)) (drop (nat a) (take l (sh_buf s)))"
        using s by (simp add: range_of_def a_def b_def Let_def)
      also have "\<dots> = take (min (nat (b - a + 1)) (l - nat a)) (drop (nat a) (sh_buf s))"
        by (simp add: drop_take)
      also have "min (nat (b - a + 1)) (l - nat a) = n" using ab by (auto simp: n_def e_def)
      finally show ?thesis by simp
    qed
    let ?s = "\<lparr>sh_len = int n, sh_free = int (f + (l - n)), sh_buf = ?b\<rparr>"
    have "sdsrange s start end = Inr ?s"
      unfolding sdsrange_def Let_def s(3) A B if_not_P [OF False] nl st rd bindr_simps nat_int w
      using s n1 by auto
    moreover have "sds_ok ?s" "sds_val ?s = take n (drop (nat a) (sh_buf s))"
      using sds_okI [of ?s n "f + (l - n)"] s n1 len by (auto simp: nth_append)
    ultimately show ?thesis using v by simp
  qed
qed


section \<open>The remaining header operations\<close>

lemma sdsclear_spec:
  assumes "sds_ok s"
  shows "\<exists>s'. sdsclear s = Inr s' \<and> sds_ok s' \<and> sds_val s' = [] \<and>
    sdsavail s' = sdslen s + sdsavail s"
proof -
  from assms obtain l f where s: "sh_len s = int l" "sh_free s = int f" "sdslen s = l" "sdsavail s = f"
    "length (sh_buf s) = l + f + 1" "l + f \<le> 2147483647" by (rule sds_okE)
  let ?s = "\<lparr>sh_len = 0, sh_free = int (f + l), sh_buf = NUL # drop 1 (sh_buf s)\<rparr>"
  have "sdsclear s = Inr ?s" using s by (simp add: sdsclear_def)
  with s show ?thesis using sds_okI [of ?s 0 "f + l"] by (auto simp: add.commute)
qed

lemma sdsgrowzero_spec:
  assumes al: "alloc_ok al" and ok: "sds_ok s" and fits: "sds_fits n"
  shows "returns (may_fail al) (sdsgrowzero al s n) (\<lambda>s'. sds_ok s' \<and>
    sds_val s' = sds_val s @ replicate (n - sdslen s) NUL)"
proof (cases "n \<le> sdslen s")
  case True
  with ok show ?thesis by (simp add: sdsgrowzero_def sdslen_def)
next
  case False
  have "returns (may_fail al) (bindr (sdsMakeRoomFor al s (n - sdslen s)) (\<lambda>s1.
      bindr (mem_write (sh_buf s1) (sdslen s) (replicate (n - sdslen s + 1) NUL)) (\<lambda>b.
        let totlen = size_t (sh_len s1 + sh_free s1) in
        Inr \<lparr>sh_len = int32 (int n), sh_free = int32 (int totlen - int32 (int n)), sh_buf = b\<rparr>)))
    (\<lambda>s'. sds_ok s' \<and> sds_val s' = sds_val s @ replicate (n - sdslen s) NUL)"
  proof (rule returns_bind [OF sdsMakeRoomFor_spec [OF al ok]])
    show "sds_fits (sdslen s + (n - sdslen s))" using False fits by simp
    fix s1 assume a: "sds_ok s1 \<and> sds_val s1 = sds_val s \<and> sh_len s1 = sh_len s \<and> n - sdslen s \<le> sdsavail s1"
    then obtain l f where s: "sh_len s1 = int l" "sh_free s1 = int f" "sdslen s1 = l" "sdsavail s1 = f"
      "length (sh_buf s1) = l + f + 1" "l + f \<le> 2147483647" "sds_val s1 = take l (sh_buf s1)"
      by (auto elim: sds_okE)
    then have l: "sdslen s = l" using a by (simp add: sdslen_def)
    have t: "size_t (sh_len s1 + sh_free s1) = l + f" using s by (auto intro!: size_t_eq)
    let ?b = "take l (sh_buf s1) @ replicate (n - l + 1) NUL @ drop (n + 1) (sh_buf s1)"
    let ?s = "\<lparr>sh_len = int n, sh_free = int (l + f - n), sh_buf = ?b\<rparr>"
    have nf: "n \<le> l + f" "l \<le> n" using a s l False by auto
    have "sds_ok ?s" "sds_val ?s = take l (sh_buf s1) @ replicate (n - l) NUL"
      using sds_okI [of ?s n "l + f - n"] s nf by (auto simp: nth_append min_def take_replicate simp flip: replicate_Suc)
    then show "returns (may_fail al)
      (bindr (mem_write (sh_buf s1) (sdslen s) (replicate (n - sdslen s + 1) NUL)) (\<lambda>b.
        let totlen = size_t (sh_len s1 + sh_free s1) in
        Inr \<lparr>sh_len = int32 (int n), sh_free = int32 (int totlen - int32 (int n)), sh_buf = b\<rparr>))
      (\<lambda>s'. sds_ok s' \<and> sds_val s' = sds_val s @ replicate (n - sdslen s) NUL)"
      unfolding t l using s nf a l by (auto simp: of_nat_diff simp del: replicate_Suc)
  qed
  with False show ?thesis by (simp add: sdsgrowzero_def sdslen_def Let_def)
qed

lemma sdsRemoveFreeSpace_spec:
  assumes al: "alloc_ok al" "\<not> may_fail al" and ok: "sds_ok s"
  shows "\<exists>s'. sdsRemoveFreeSpace al s = Inr s' \<and> sds_ok s' \<and> sds_val s' = sds_val s \<and> sdsavail s' = 0"
proof -
  from ok obtain l f where s: "sh_len s = int l" "sh_free s = int f" "sdslen s = l" "sdsavail s = f"
    "length (sh_buf s) = l + f + 1" "sh_buf s ! l = NUL" "l + f \<le> 2147483647" "sds_val s = take l (sh_buf s)"
    by (rule sds_okE)
  have z: "size_t (int sdshdr_size + sh_len s + 1) = sdshdr_size + (l + 1)"
    using s by (auto simp: sdshdr_size_def intro!: size_t_eq)
  obtain b where b: "realloc al (replicate sdshdr_size NUL @ sh_buf s) (sdshdr_size + (l + 1)) = Some b"
    using al(2) by (cases "al (Suc (sdshdr_size + l))") (auto simp: realloc_def)
  have "take (sdshdr_size + (l + 1)) b = take (sdshdr_size + (l + 1)) (replicate sdshdr_size NUL @ sh_buf s)"
    using s by (intro realloc_take [OF al(1) b]) auto
  then have t: "drop sdshdr_size b = take (l + 1) (sh_buf s)"
    using realloc_length [OF al(1) b] by simp
  let ?s = "s\<lparr>sh_free := 0, sh_buf := drop sdshdr_size b\<rparr>"
  have "sdsRemoveFreeSpace al s = Inr ?s" by (simp only: sdsRemoveFreeSpace_def z b option.case)
  moreover have "sds_ok ?s" "sds_val ?s = sds_val s" "sdsavail ?s = 0"
    using sds_okI [of ?s l 0] s t by (auto simp: min_def)
  ultimately show ?thesis by blast
qed

text \<open>
  The protocol of \<open>sdsMakeRoomFor\<close> and \<open>sdsIncrLen\<close>: the caller writes \<open>d\<close> after the
  end of the string and then fixes the header.
\<close>

lemma sdsIncrLen_spec:
  assumes ok: "sds_ok s" and d: "length d \<le> sdsavail s"
  shows "\<exists>b s'. mem_write (sh_buf s) (sdslen s) d = Inr b \<and>
    sdsIncrLen (s\<lparr>sh_buf := b\<rparr>) (int (length d)) = Inr s' \<and> sds_ok s' \<and> sds_val s' = sds_val s @ d"
proof -
  from ok obtain l f where s: "sh_len s = int l" "sh_free s = int f" "sdslen s = l" "sdsavail s = f"
    "length (sh_buf s) = l + f + 1" "l + f \<le> 2147483647" "sds_val s = take l (sh_buf s)"
    by (rule sds_okE)
  let ?n = "length d"
  let ?b = "take l (sh_buf s) @ d @ NUL # drop (l + ?n + 1) (sh_buf s)"
  let ?s = "\<lparr>sh_len = int (l + ?n), sh_free = int (f - ?n), sh_buf = ?b\<rparr>"
  have w: "mem_write (sh_buf s) l d = Inr (take l (sh_buf s) @ d @ drop (l + ?n) (sh_buf s))"
    using s d by simp
  moreover have "sdsIncrLen (s\<lparr>sh_buf := take l (sh_buf s) @ d @ drop (l + ?n) (sh_buf s)\<rparr>) (int ?n) = Inr ?s"
    using s d by (simp add: sdsIncrLen_def nat_add_distrib min_def)
  moreover have "sds_ok ?s" "sds_val ?s = take l (sh_buf s) @ d"
    using sds_okI [of ?s "l + ?n" "f - ?n"] s d by (auto simp: nth_append)
  ultimately show ?thesis using s by auto
qed

lemma sdsupdatelen_spec:
  assumes ok: "sds_ok s"
  shows "sds_ok (sdsupdatelen s) \<and> sds_val (sdsupdatelen s) = cstr (sh_buf s)"
proof -
  from ok obtain l f where s: "sh_len s = int l" "sh_free s = int f"
    "length (sh_buf s) = l + f + 1" "sh_buf s ! l = NUL" "l + f \<le> 2147483647"
    by (rule sds_okE)
  let ?n = "length (cstr (sh_buf s))"
  have "NUL \<in> set (sh_buf s)" using s nth_mem [of l "sh_buf s"] by simp
  then have "?n < length (sh_buf s)" "sh_buf s ! ?n = NUL"
    using nth_length_takeWhile [of "\<lambda>c. c \<noteq> NUL" "sh_buf s"] takeWhile_eq_all_conv [of "\<lambda>c. c \<noteq> NUL" "sh_buf s"]
      takeWhile_eq_take [of "\<lambda>c. c \<noteq> NUL" "sh_buf s"] length_cstr_le [of "sh_buf s"]
    by (auto simp: cstr_def le_less)
  with s show ?thesis
    using sds_okI [of "sdsupdatelen s" ?n "l + f - ?n"] by (auto simp: sdsupdatelen_def Let_def of_nat_diff)
qed

section \<open>The interface of a growable buffer\<close>

text \<open>
  What the clients of the module rely on: appending is list append, failing only for lack
  of memory, as long as the size stays within \<open>fits\<close>.  Appending the pieces of a list one
  after the other, as \<open>sdsjoin\<close>, \<open>sdscatrepr\<close>, \<open>sdscatfmt\<close> and the command formatters
  do, then yields their concatenation.
\<close>

fun append_all :: "('s \<Rightarrow> 'a list \<Rightarrow> 's res) \<Rightarrow> 's \<Rightarrow> 'a list list \<Rightarrow> 's res" where
  "append_all app s [] = Inr s"
| "append_all app s (t # ts) = bindr (app s t) (\<lambda>s'. append_all app s' ts)"

locale growable_buffer =
  fixes ok :: "'s \<Rightarrow> bool" and val :: "'s \<Rightarrow> 'a list" and fits :: "nat \<Rightarrow> bool"
    and append :: "'s \<Rightarrow> 'a list \<Rightarrow> 's res" and fails :: bool
  assumes fits_mono: "fits n \<Longrightarrow> m \<le> n \<Longrightarrow> fits m"
    and append_spec: "ok s \<Longrightarrow> fits (length (val s) + length t) \<Longrightarrow>
      returns fails (append s t) (\<lambda>s'. ok s' \<and> val s' = val s @ t)"
begin

lemma append_all_spec:
  "ok s \<Longrightarrow> fits (length (val s) + length (concat ts)) \<Longrightarrow>
     returns fails (append_all append s ts) (\<lambda>s'. ok s' \<and> val s' = val s @ concat ts)"
proof (induction ts arbitrary: s)
  case Nil
  then show ?case by simp
next
  case (Cons t ts)
  have "fits (length (val s) + length t)" using Cons.prems(2) by (rule fits_mono) simp
  from append_spec [OF Cons.prems(1) this] show ?case
    unfolding append_all.simps
  proof (rule returns_bind)
    fix s' assume s': "ok s' \<and> val s' = val s @ t"
    with Cons.prems(2) have "fits (length (val s') + length (concat ts))" by (simp add: add.assoc)
    with s' Cons.IH [of s']
    show "returns fails (append_all append s' ts) (\<lambda>s'. ok s' \<and> val s' = val s @ concat (t # ts))"
      by (auto elim!: returns_mono)
  qed
qed

end

text \<open>Appending a whole list of bytes with \<open>sdscatlen\<close>.\<close>

definition sdscatbytes :: "allocator \<Rightarrow> sdshdr \<Rightarrow> string \<Rightarrow> sdshdr res" where
  "sdscatbytes al s t = sdscatlen al s t (length t)"

lemma sdscatbytes_spec:
  assumes "alloc_ok al" "sds_ok s" "sds_fits (sdslen s + length t)"
  shows "returns (may_fail al) (sdscatbytes al s t) (\<lambda>s'. sds_ok s' \<and> sds_val s' = sds_val s @ t)"
  using sdscatlen_spec [OF assms, of t] by (simp add: sdscatbytes_def)


text \<open>The interface holds for every allocator that \<open>alloc_ok\<close> describes.\<close>

interpretation sdsbuf: growable_buffer "\<lambda>s. alloc_ok al \<and> sds_ok s" sds_val sds_fits
  "sdscatbytes al" "may_fail al" for al
proof unfold_locales
  fix s and t :: string
  assume "alloc_ok al \<and> sds_ok s" "sds_fits (length (sds_val s) + length t)"
  then show "returns (may_fail al) (sdscatbytes al s t)
      (\<lambda>s'. (alloc_ok al \<and> sds_ok s') \<and> sds_val s' = sds_val s @ t)"
    using sdscatbytes_spec [of al s t] by (simp add: sdslen_val)
qed (rule sds_fits_mono)

section \<open>Properties\<close>

text \<open>C11: appending pieces one after the other with \<open>sdscatlen\<close> yields a well-formed string
  holding the old bytes followed by the pieces, whatever reallocations happen on the way; the
  only other outcome is NULL when an allocation failed.\<close>

theorem sdscatlen_sequence:
  assumes "alloc_ok al" "sds_ok s" "sds_fits (sdslen s + length (concat ts))"
  shows "returns (may_fail al) (append_all (\<lambda>s t. sdscatlen al s t (length t)) s ts)
    (\<lambda>s'. sds_ok s' \<and> sds_val s' = sds_val s @ concat ts)"
proof -
  have "sdscatbytes al = (\<lambda>s t. sdscatlen al s t (length t))" by (intro ext) (simp add: sdscatbytes_def)
  then show ?thesis using sdsbuf.append_all_spec [of al s ts] assms by (auto simp: sdslen_val elim: returns_mono)
qed

theorem sdscatlen_sequence_witness:
  "\<exists>s'. append_all (\<lambda>s t. sdscatlen (fill_alloc NUL) s t (length t))
      \<lparr>sh_len = 1, sh_free = 0, sh_buf = ''a'' @ [NUL]\<rparr> [''bc'', [], ''d''] = Inr s' \<and> sds_val s' = ''abcd''"
proof -
  let ?s = "\<lparr>sh_len = 1, sh_free = 0, sh_buf = ''a'' @ [NUL]\<rparr>"
  have "sds_ok ?s" "sds_fits (sdslen ?s + length (concat [''bc'', [], ''d'']))"
    by (simp_all add: sds_ok_def sds_layout_def INT_MAX_def sds_fits_def sdslen_def)
  from sdscatlen_sequence [OF fill_alloc_ok this, of NUL]
  have "returns False (append_all (\<lambda>s t. sdscatlen (fill_alloc NUL) s t (length t)) ?s [''bc'', [], ''d''])
    (\<lambda>s'. sds_ok s' \<and> sds_val s' = ''abcd'')" by (simp add: sds_val_def)
  then show ?thesis by (auto dest!: returns_total)
qed

text \<open>\<open>sdsrange\<close> never fails, keeps the string well formed and keeps exactly the bytes of the
  inclusive interval, with negative indices counted from the end and both ends clipped.\<close>

theorem sdsrange_correct:
  assumes "sds_ok s" "- 2147483648 \<le> start" "start \<le> 2147483647" "- 2147483648 \<le> end" "end \<le> 2147483647"
  shows "\<exists>s'. sdsrange s start end = Inr s' \<and> sds_ok s' \<and> sds_val s' = range_of start end (sds_val s)"
  using sdsrange_spec [OF assms] .

theorem sdsrange_correct_witness:
  "\<exists>s'. sdsrange \<lparr>sh_len = 5, sh_free = 0, sh_buf = ''hello'' @ [NUL]\<rparr> 1 (- 2) = Inr s' \<and> sds_val s' = ''ell''"
proof -
  have "sds_ok \<lparr>sh_len = 5, sh_free = 0, sh_buf = ''hello'' @ [NUL]\<rparr>"
    by (simp add: sds_ok_def sds_layout_def INT_MAX_def)
  from sdsrange_correct [OF this, of 1 "- 2"] show ?thesis
    by (auto simp: range_of_def sds_val_def)
qed

end
