(* ===== verification/SdsText.thy ===== *)
theory SdsText
  imports Sds
begin

text \<open>
  The text operations of \<open>sds.c\<close>: number conversion, formatting, trimming, comparing,
  splitting, joining, quoting and the REPL-style argument splitter.  The lemmas relate each
  loop to a list function and prove the two round trips the comments of the file announce:
  joining what \<open>sdssplitlen\<close> returned gives back the string, and \<open>sdssplitargs\<close> parses
  what \<open>sdscatrepr\<close> prints.
\<close>

text \<open>A NULL result that the code uses without a check.\<close>

definition deref :: "'a res \<Rightarrow> 'a res" where
  "deref m = (case m of Inl NoMem \<Rightarrow> Inl OutOfBounds | _ \<Rightarrow> m)"

lemma deref_Inr [simp]: "deref (Inr x) = Inr x"
  by (simp add: deref_def)

lemma returns_deref: "returns False m Q \<Longrightarrow> returns False (deref m) Q"
  by (cases m) auto

lemma sdscatlen_bytes: "n \<le> length t \<Longrightarrow> sdscatlen al s t n = sdscatbytes al s (take n t)"
  by (simp add: sdscatlen_def sdscatbytes_def)

lemma sdscat_bytes: "sdscat al s t = sdscatbytes al s (cstr t)"
  by (simp add: sdscat_def sdscatlen_bytes)

section \<open>Numbers\<close>

text \<open>The \<open>do { ... } while(v)\<close> loop: the digits, least significant first.\<close>

fun digits_loop :: "nat \<Rightarrow> string" where
  "digits_loop v = digit_char (v mod 10) # (if v div 10 = 0 then [] else digits_loop (v div 10))"

declare digits_loop.simps [simp del]

text \<open>The reversal in place, \<open>while(s < p) swap\<close>.\<close>

function reverse_loop :: "'a list \<Rightarrow> nat \<Rightarrow> nat \<Rightarrow> 'a list" where
  "reverse_loop xs i j =
     (if i < j then reverse_loop (xs[i := xs ! j, j := xs ! i]) (Suc i) (j - 1) else xs)"
  by pat_completeness auto
termination by (relation "measure (\<lambda>(xs, i, j). j - i)") auto

declare reverse_loop.simps [simp del]

definition SDS_LLSTR_SIZE :: nat where "SDS_LLSTR_SIZE = 21"

definition sdsll2str :: "int \<Rightarrow> string" where
  "sdsll2str value =
     (let v = (if value < 0 then size_t (int64 (- value)) else size_t value);
          b = digits_loop v @ (if value < 0 then ''-'' else [])
      in reverse_loop b 0 (length b - 1))"

definition sdsull2str :: "nat \<Rightarrow> string" where
  "sdsull2str v = (let b = digits_loop v in reverse_loop b 0 (length b - 1))"

text \<open>\<open>sdsfromlonglong\<close> fills a buffer of 32 bytes from its end.\<close>

fun digits_back :: "nat \<Rightarrow> string \<Rightarrow> string" where
  "digits_back v p =
     (let p' = digit_char (v mod 10) # p in if v div 10 = 0 then p' else digits_back (v div 10) p')"

declare digits_back.simps [simp del]

definition sdsfromlonglong :: "allocator \<Rightarrow> int \<Rightarrow> sdshdr res" where
  "sdsfromlonglong al value =
     (let v = (if value < 0 then size_t (int64 (- value)) else size_t value);
          p = digits_back v [];
          p' = (if value < 0 then CHR ''-'' # p else p)
      in sdsnewlen al (Some p') (length p'))"

lemma digits_loop_eq: "digits_loop v = rev (show_nat v)"
proof (induction v rule: digits_loop.induct)
  case (1 v)
  then show ?case
    by (cases "v < 10") (simp_all add: digits_loop.simps [of v] show_nat.simps [of v])
qed

lemma digits_back_eq: "digits_back v p = show_nat v @ p"
proof (induction v p rule: digits_back.induct)
  case (1 v p)
  then show ?case
    by (cases "v < 10") (simp_all add: digits_back.simps [of v] show_nat.simps [of v] Let_def div_eq_0_iff)
qed

lemma length_reverse_loop [simp]: "length (reverse_loop xs i j) = length xs"
  by (induction xs i j rule: reverse_loop.induct) (simp add: reverse_loop.simps)

lemma reverse_loop_nth:
  "j < length xs \<Longrightarrow> k < length xs \<Longrightarrow>
     reverse_loop xs i j ! k = (if i \<le> k \<and> k \<le> j then xs ! (i + j - k) else xs ! k)"
proof (induction xs i j arbitrary: k rule: reverse_loop.induct)
  case (1 xs i j)
  show ?case
  proof (cases "i < j")
    case True
    let ?ys = "xs[i := xs ! j, j := xs ! i]"
    have "reverse_loop xs i j ! k = reverse_loop ?ys (Suc i) (j - 1) ! k"
      using True by (simp add: reverse_loop.simps [of xs i j])
    also have "\<dots> = (if Suc i \<le> k \<and> k \<le> j - 1 then ?ys ! (Suc i + (j - 1) - k) else ?ys ! k)"
      using "1.prems" True by (intro "1.IH") auto
    also have "\<dots> = (if i \<le> k \<and> k \<le> j then xs ! (i + j - k) else xs ! k)"
    proof (cases "Suc i \<le> k \<and> k \<le> j - 1")
      case True
      then have "Suc i + (j - 1) - k = i + j - k" "i + j - k \<noteq> i" "i + j - k \<noteq> j"
        using \<open>i < j\<close> by auto
      with True "1.prems" show ?thesis by auto
    next
      case False
      then show ?thesis using "1.prems" \<open>i < j\<close> by (auto simp: nth_list_update)
    qed
    finally show ?thesis .
  next
    case False
    then have "i \<le> k \<and> k \<le> j \<Longrightarrow> i + j - k = k" by auto
    with False show ?thesis by (auto simp: reverse_loop.simps [of xs i j])
  qed
qed

lemma reverse_loop_rev: "reverse_loop xs 0 (length xs - 1) = rev xs"
proof (cases "xs = []")
  case True
  then show ?thesis by (simp add: reverse_loop.simps)
next
  case False
  then show ?thesis
    by (intro nth_equalityI) (auto simp: reverse_loop_nth rev_nth)
qed

lemma abs_as_unsigned:
  "- 9223372036854775808 \<le> v \<Longrightarrow> v < 0 \<Longrightarrow> size_t (int64 (- v)) = nat (- v)"
proof (cases "v = - 9223372036854775808")
  case True
  then show ?thesis by (simp add: int64_def size_t_def)
qed simp

lemma sdsull2str_eq: "sdsull2str v = show_nat v"
  by (simp add: sdsull2str_def digits_loop_eq reverse_loop_rev [of "rev _", simplified])

lemma sdsll2str_eq:
  assumes "- 9223372036854775808 \<le> v" "v \<le> 9223372036854775807"
  shows "sdsll2str v = show_int v"
  using assms reverse_loop_rev [of "digits_loop (nat (- v)) @ ''-''"] reverse_loop_rev [of "digits_loop (nat v)"]
  by (simp add: sdsll2str_def Let_def show_int_def abs_as_unsigned digits_loop_eq)

lemma length_show_int:
  "- 9223372036854775808 \<le> v \<Longrightarrow> v \<le> 9223372036854775807 \<Longrightarrow> length (show_int v) \<le> 20"
  using length_show_nat [of "nat (- v)" 19] length_show_nat [of "nat v" 19]
  by (auto simp: show_int_def nat_less_iff)

lemma sdsfromlonglong_spec:
  assumes "alloc_ok al" "- 9223372036854775808 \<le> v" "v \<le> 9223372036854775807"
  shows "returns (may_fail al) (sdsfromlonglong al v) (\<lambda>s. sds_ok s \<and> sds_val s = show_int v)"
proof -
  have "sds_fits (length (show_int v))"
    using length_show_int [OF assms(2,3)] by (simp add: sds_fits_def)
  moreover have "sdsfromlonglong al v = sdsnewlen al (Some (show_int v)) (length (show_int v))"
    using assms by (simp add: sdsfromlonglong_def Let_def show_int_def abs_as_unsigned digits_back_eq)
  ultimately show ?thesis
    using sdsnewlen_spec [OF assms(1), of "length (show_int v)" "show_int v"]
    by (auto elim: returns_mono)
qed

section \<open>Trimming, case, comparison, character mapping\<close>

function skip_left :: "('a \<Rightarrow> bool) \<Rightarrow> 'a list \<Rightarrow> nat \<Rightarrow> nat" where
  "skip_left P xs sp = (if sp < length xs \<and> P (xs ! sp) then skip_left P xs (Suc sp) else sp)"
  by pat_completeness auto
termination by (relation "measure (\<lambda>(P, xs, sp). length xs - sp)") auto

fun skip_right :: "('a \<Rightarrow> bool) \<Rightarrow> 'a list \<Rightarrow> nat \<Rightarrow> nat" where
  "skip_right P xs 0 = 0"
| "skip_right P xs (Suc ep) = (if P (xs ! Suc ep) then skip_right P xs ep else Suc ep)"

declare skip_left.simps [simp del]

definition sdstrim :: "sdshdr \<Rightarrow> string \<Rightarrow> sdshdr res" where
  "sdstrim s cset =
     (let xs = sds_val s;
          sp = int (skip_left (strchr_mem cset) xs 0);
          ep = (if sdslen s = 0 then - 1 else int (skip_right (strchr_mem cset) xs (sdslen s - 1)));
          len = (if sp > ep then 0 else nat (ep - sp + 1)) in
      bindr (if sp \<noteq> 0 then bindr (mem_read (sh_buf s) (nat sp) len) (mem_write (sh_buf s) 0)
             else Inr (sh_buf s)) (\<lambda>b.
      bindr (mem_write b len [NUL]) (\<lambda>b'.
      Inr \<lparr>sh_len = int32 (int len), sh_free = int32 (sh_free s + (sh_len s - int len)), sh_buf = b'\<rparr>)))"

definition sdstolower :: "sdshdr \<Rightarrow> sdshdr" where
  "sdstolower s = s\<lparr>sh_buf := map tolower (take (sdslen s) (sh_buf s)) @ drop (sdslen s) (sh_buf s)\<rparr>"

definition sdstoupper :: "sdshdr \<Rightarrow> sdshdr" where
  "sdstoupper s = s\<lparr>sh_buf := map toupper (take (sdslen s) (sh_buf s)) @ drop (sdslen s) (sh_buf s)\<rparr>"

definition sdscmp :: "sdshdr \<Rightarrow> sdshdr \<Rightarrow> int" where
  "sdscmp s1 s2 =
     (let l1 = sdslen s1; l2 = sdslen s2; minlen = (if l1 < l2 then l1 else l2);
          cmp = memcmp (take minlen (sh_buf s1)) (take minlen (sh_buf s2))
      in if cmp = 0 then int32 (int l1 - int l2) else cmp)"

text \<open>The inner loop of \<open>sdsmapchars\<close>: the first \<open>from[i]\<close> equal to \<open>c\<close> decides.\<close>

fun mapchar_loop :: "string \<Rightarrow> string \<Rightarrow> nat \<Rightarrow> nat \<Rightarrow> char \<Rightarrow> char res" where
  "mapchar_loop from to 0 i c = Inr c"
| "mapchar_loop from to (Suc n) i c =
     bindr (mem_get from i) (\<lambda>f. if c = f then mem_get to i else mapchar_loop from to n (Suc i) c)"

fun map_res :: "('a \<Rightarrow> 'b res) \<Rightarrow> 'a list \<Rightarrow> ('b list) res" where
  "map_res f [] = Inr []"
| "map_res f (x # xs) = bindr (f x) (\<lambda>y. bindr (map_res f xs) (\<lambda>ys. Inr (y # ys)))"

definition sdsmapchars :: "sdshdr \<Rightarrow> string \<Rightarrow> string \<Rightarrow> nat \<Rightarrow> sdshdr res" where
  "sdsmapchars s from to setlen =
     bindr (map_res (mapchar_loop from to setlen 0) (take (sdslen s) (sh_buf s))) (\<lambda>xs.
     Inr (s\<lparr>sh_buf := xs @ drop (sdslen s) (sh_buf s)\<rparr>))"


lemma skip_left_eq:
  "sp \<le> length xs \<Longrightarrow> skip_left P xs sp = sp + length (takeWhile P (drop sp xs))"
proof (induction P xs sp rule: skip_left.induct)
  case (1 P xs sp)
  show ?case
  proof (cases "sp < length xs \<and> P (xs ! sp)")
    case True
    with 1 show ?thesis by (simp add: skip_left.simps [of P xs sp] Cons_nth_drop_Suc [symmetric])
  next
    case False
    show ?thesis
    proof (cases "sp < length xs")
      case True
      with False show ?thesis
        by (simp add: skip_left.simps [of P xs sp] Cons_nth_drop_Suc [symmetric])
    qed (use 1(2) in \<open>simp add: skip_left.simps\<close>)
  qed
qed

lemma skip_right_last:
  "j < length xs \<Longrightarrow> (\<exists>i \<le> j. \<not> P (xs ! i)) \<Longrightarrow>
     \<not> P (xs ! skip_right P xs j) \<and> skip_right P xs j \<le> j \<and> (\<forall>k. skip_right P xs j < k \<and> k \<le> j \<longrightarrow> P (xs ! k))"
proof (induction j)
  case (Suc j)
  show ?case
  proof (cases "P (xs ! Suc j)")
    case True
    then have "\<exists>i \<le> j. \<not> P (xs ! i)" using Suc.prems(2) le_Suc_eq by metis
    with Suc True show ?thesis by (auto simp: le_Suc_eq)
  qed auto
qed auto

text \<open>What \<open>sdstrim\<close> keeps: the string without the longest prefix and suffix of trimmed bytes.\<close>

definition trim_list :: "('a \<Rightarrow> bool) \<Rightarrow> 'a list \<Rightarrow> 'a list" where
  "trim_list P xs = rev (dropWhile P (rev (dropWhile P xs)))"

lemma trim_list_segment:
  assumes "i \<le> j" "j < length xs" "\<not> P (xs ! i)" "\<not> P (xs ! j)"
    and "\<forall>k < i. P (xs ! k)" "\<forall>k. j < k \<and> k < length xs \<longrightarrow> P (xs ! k)"
  shows "trim_list P xs = take (j - i + 1) (drop i xs)"
proof -
  have "takeWhile P xs = take i xs"
    using assms by (intro takeWhile_eq_take_P_nth) auto
  then have d: "dropWhile P xs = drop i xs"
    using assms by (simp add: dropWhile_eq_drop)
  define ys where "ys = drop i xs"
  have ys: "length ys = length xs - i" "\<And>m. m < length ys \<Longrightarrow> ys ! m = xs ! (i + m)"
    using assms by (auto simp: ys_def)
  have "takeWhile P (rev ys) = take (length xs - 1 - j) (rev ys)"
  proof (rule takeWhile_eq_take_P_nth)
    fix m assume m: "m < length xs - 1 - j" "m < length (rev ys)"
    then have "j < length xs - Suc m" "length xs - Suc m < length xs" by auto
    with assms(6) m ys show "P (rev ys ! m)" by (auto simp: rev_nth)
  qed (use assms ys in \<open>auto simp: rev_nth\<close>)
  moreover have "length (take (length xs - 1 - j) (rev ys)) = length xs - 1 - j"
    using assms ys by auto
  ultimately have "dropWhile P (rev ys) = drop (length xs - 1 - j) (rev ys)"
    by (simp add: dropWhile_eq_drop)
  then have "trim_list P xs = take (length ys - (length xs - 1 - j)) ys"
    by (simp only: trim_list_def d flip: ys_def) (simp add: rev_drop)
  moreover have "length ys - (length xs - 1 - j) = j - i + 1" using assms ys by simp
  ultimately show ?thesis by (simp only: ys_def)
qed

lemma sdstrim_spec:
  assumes ok: "sds_ok s"
  shows "\<exists>s'. sdstrim s cset = Inr s' \<and> sds_ok s' \<and> sds_val s' = trim_list (strchr_mem cset) (sds_val s)"
proof -
  from ok obtain l f where s: "sh_len s = int l" "sh_free s = int f" "sdslen s = l" "sdsavail s = f"
    "length (sh_buf s) = l + f + 1" "l + f \<le> 2147483647" "sds_val s = take l (sh_buf s)" "length (sds_val s) = l"
    by (rule sds_okE)
  let ?P = "strchr_mem cset" and ?xs = "sds_val s"
  define sp where "sp = skip_left ?P ?xs 0"
  define ep where "ep = (if l = 0 then - 1 else int (skip_right ?P ?xs (l - 1)))"
  define n where "n = (if int sp > ep then 0 else nat (ep - int sp + 1))"
  have sp: "sp = length (takeWhile ?P ?xs)" by (simp add: sp_def skip_left_eq)
  have seg: "sp + n \<le> l \<and> take n (drop sp ?xs) = trim_list ?P ?xs"
  proof (cases "\<forall>x \<in> set ?xs. ?P x")
    case True
    then have "sp = l" using s sp by (metis takeWhile_eq_all_conv)
    moreover have "ep < int l"
    proof (cases "l = 0")
      case False
      have "skip_right ?P ?xs j \<le> j" for j by (induction j) auto
      from this [of "l - 1"] False show ?thesis by (simp add: ep_def)
    qed (simp add: ep_def)
    moreover have "trim_list ?P ?xs = []" using True by (metis trim_list_def dropWhile_eq_Nil_conv rev.simps(1) dropWhile.simps(1))
    ultimately show ?thesis by (simp add: n_def)
  next
    case False
    then have lt: "sp < l" and nsp: "\<not> ?P (?xs ! sp)"
      using s sp nth_length_takeWhile [of ?P ?xs] takeWhile_eq_all_conv [of ?P ?xs]
        length_takeWhile_le [of ?P ?xs] takeWhile_eq_take [of ?P ?xs] by (auto simp: le_less)
    let ?e = "skip_right ?P ?xs (l - 1)"
    have ex: "\<exists>i \<le> l - 1. \<not> ?P (?xs ! i)" using nsp lt by (intro exI [of _ sp]) auto
    have e: "\<not> ?P (?xs ! ?e)" "?e \<le> l - 1" "\<forall>k. ?e < k \<and> k \<le> l - 1 \<longrightarrow> ?P (?xs ! k)"
      using skip_right_last [of "l - 1" ?xs ?P] ex lt s by auto
    have "sp \<le> ?e" using e(3) [rule_format, of sp] nsp lt by linarith
    moreover have "\<forall>k < sp. ?P (?xs ! k)" using sp by (metis nth_mem set_takeWhileD takeWhile_nth)
    ultimately have "trim_list ?P ?xs = take (?e - sp + 1) (drop sp ?xs)"
      using e nsp lt s by (intro trim_list_segment) auto
    moreover have "n = ?e - sp + 1" using \<open>sp \<le> ?e\<close> lt by (simp add: n_def ep_def)
    ultimately show ?thesis using e lt \<open>sp \<le> ?e\<close> by auto
  qed
  then have nv: "take n (drop sp (sh_buf s)) = trim_list ?P ?xs" using s by (auto simp: drop_take min_absorb1)
  let ?b = "take n (drop sp (sh_buf s)) @ NUL # drop (Suc n) (sh_buf s)"
  have ln: "length (take n (drop sp (sh_buf s))) = n"
  proof -
    have "n \<le> length (sh_buf s) - sp" using seg s(5) by linarith
    then show ?thesis by simp
  qed
  have rd: "(if int sp \<noteq> 0 then bindr (mem_read (sh_buf s) sp n) (mem_write (sh_buf s) 0)
      else Inr (sh_buf s)) = Inr (take n (drop sp (sh_buf s)) @ drop n (sh_buf s))"
    using seg s ln by auto
  have w: "mem_write (take n (drop sp (sh_buf s)) @ drop n (sh_buf s)) n [NUL] = Inr ?b"
    using seg s ln by (auto simp: mem_write_def)
  let ?s = "\<lparr>sh_len = int n, sh_free = int (f + (l - n)), sh_buf = ?b\<rparr>"
  have "sdstrim s cset = Inr ?s"
    unfolding sdstrim_def Let_def s(3) sp_def [symmetric] ep_def [symmetric] n_def [symmetric] nat_int rd bindr_simps w
    using s(1,2,6) seg by (simp add: of_nat_diff)
  moreover have "sds_ok ?s" "sds_val ?s = take n (drop sp (sh_buf s))"
  proof -
    have "length ?b = n + (f + (l - n)) + 1" "?b ! n = NUL" "take n ?b = take n (drop sp (sh_buf s))"
      using ln s(5) seg by (simp_all add: nth_append del: length_take)
    then show "sds_ok ?s" "sds_val ?s = take n (drop sp (sh_buf s))"
      using sds_okI [of ?s n "f + (l - n)"] s(6) seg by simp_all
  qed
  ultimately show ?thesis using nv by simp
qed


lemma sdstolower_spec: "sds_ok s \<Longrightarrow> sds_ok (sdstolower s) \<and> sds_val (sdstolower s) = map tolower (sds_val s)"
  by (erule sds_okE) (use sds_okI [of "sdstolower s"] in \<open>auto simp: sdstolower_def nth_append\<close>)

lemma sdstoupper_spec: "sds_ok s \<Longrightarrow> sds_ok (sdstoupper s) \<and> sds_val (sdstoupper s) = map toupper (sds_val s)"
  by (erule sds_okE) (use sds_okI [of "sdstoupper s"] in \<open>auto simp: sdstoupper_def nth_append\<close>)

text \<open>\<open>sdscmp\<close> returns zero exactly for equal strings.\<close>

lemma memcmp_eq_0_iff: "length xs = length ys \<Longrightarrow> memcmp xs ys = 0 \<longleftrightarrow> xs = ys"
proof (induction xs ys rule: list_induct2)
  case (Cons x xs y ys)
  then show ?case by (cases "x = y") (simp_all add: memcmp_def)
qed simp

lemma sdscmp_eq_0_iff:
  assumes "sds_ok a" "sds_ok b"
  shows "sdscmp a b = 0 \<longleftrightarrow> sds_val a = sds_val b"
proof -
  from assms(1) obtain l f where a: "sdslen a = l" "length (sh_buf a) = l + f + 1" "l + f \<le> 2147483647"
    "sds_val a = take l (sh_buf a)" by (rule sds_okE)
  from assms(2) obtain m g where b: "sdslen b = m" "length (sh_buf b) = m + g + 1" "m + g \<le> 2147483647"
    "sds_val b = take m (sh_buf b)" by (rule sds_okE)
  let ?k = "if l < m then l else m"
  have c: "memcmp (take ?k (sh_buf a)) (take ?k (sh_buf b)) = 0 \<longleftrightarrow> take ?k (sh_buf a) = take ?k (sh_buf b)"
    using a b by (intro memcmp_eq_0_iff) auto
  have d: "int32 (int l - int m) = int l - int m" using a b by simp
  have e: "sds_val a = sds_val b \<longleftrightarrow> l = m \<and> take ?k (sh_buf a) = take ?k (sh_buf b)"
  proof (cases "l = m")
    case False
    have "length (sds_val a) = l" "length (sds_val b) = m" using a b by auto
    with False show ?thesis by auto
  qed (use a b in simp)
  show ?thesis unfolding sdscmp_def Let_def a(1) b(1) d e using c by auto
qed

lemma mapchar_loop_spec:
  "i + n \<le> length from \<Longrightarrow> i + n \<le> length to \<Longrightarrow>
     mapchar_loop from to n i c =
       Inr (case map_of (zip (take n (drop i from)) (take n (drop i to))) c of None \<Rightarrow> c | Some d \<Rightarrow> d)"
proof (induction n arbitrary: i)
  case (Suc n)
  then have "drop i from = from ! i # drop (Suc i) from" "drop i to = to ! i # drop (Suc i) to"
    by (simp_all add: Cons_nth_drop_Suc)
  with Suc show ?case by auto
qed simp

lemma map_res_Inr: "(\<And>x. x \<in> set xs \<Longrightarrow> f x = Inr (g x)) \<Longrightarrow> map_res f xs = Inr (map g xs)"
  by (induction xs) auto

lemma sdsmapchars_spec:
  assumes "sds_ok s" "n \<le> length from" "n \<le> length to"
  shows "\<exists>s'. sdsmapchars s from to n = Inr s' \<and> sds_ok s' \<and>
    sds_val s' = map (\<lambda>c. case map_of (zip (take n from) (take n to)) c of None \<Rightarrow> c | Some d \<Rightarrow> d) (sds_val s)"
proof -
  from assms(1) obtain l f where s: "sh_len s = int l" "sh_free s = int f" "sdslen s = l"
    "length (sh_buf s) = l + f + 1" "sh_buf s ! l = NUL" "l + f \<le> 2147483647" "sds_val s = take l (sh_buf s)"
    by (rule sds_okE)
  let ?g = "\<lambda>c. case map_of (zip (take n from) (take n to)) c of None \<Rightarrow> c | Some d \<Rightarrow> d"
  let ?s = "s\<lparr>sh_buf := map ?g (take l (sh_buf s)) @ drop l (sh_buf s)\<rparr>"
  have "map_res (mapchar_loop from to n 0) (take l (sh_buf s)) = Inr (map ?g (take l (sh_buf s)))"
    using assms by (intro map_res_Inr) (simp add: mapchar_loop_spec)
  then have "sdsmapchars s from to n = Inr ?s" by (simp add: sdsmapchars_def s)
  then show ?thesis using s sds_okI [of ?s l f] by (auto simp: nth_append)
qed

section \<open>Joining\<close>

text \<open>The loops of \<open>sdsjoin\<close> and \<open>sdsjoinsds\<close> use the string of the previous step without a
  NULL check.\<close>

fun sdsjoin_loop :: "allocator \<Rightarrow> string \<Rightarrow> nat \<Rightarrow> sdshdr res \<Rightarrow> string list \<Rightarrow> sdshdr res" where
  "sdsjoin_loop al sep seplen join [] = join"
| "sdsjoin_loop al sep seplen join [a] = bindr (deref join) (\<lambda>j. sdscat al j a)"
| "sdsjoin_loop al sep seplen join (a # b # as) =
     sdsjoin_loop al sep seplen
       (bindr (deref (bindr (deref join) (\<lambda>j. sdscat al j a))) (\<lambda>j. sdscatlen al j sep seplen)) (b # as)"

definition sdsjoin :: "allocator \<Rightarrow> string list \<Rightarrow> string \<Rightarrow> nat \<Rightarrow> sdshdr res" where
  "sdsjoin al argv sep seplen = sdsjoin_loop al sep seplen (sdsempty al) argv"

fun sdsjoinsds_loop :: "allocator \<Rightarrow> string \<Rightarrow> nat \<Rightarrow> sdshdr res \<Rightarrow> sdshdr list \<Rightarrow> sdshdr res" where
  "sdsjoinsds_loop al sep seplen join [] = join"
| "sdsjoinsds_loop al sep seplen join [a] = bindr (deref join) (\<lambda>j. sdscatsds al j a)"
| "sdsjoinsds_loop al sep seplen join (a # b # as) =
     sdsjoinsds_loop al sep seplen
       (bindr (deref (bindr (deref join) (\<lambda>j. sdscatsds al j a))) (\<lambda>j. sdscatlen al j sep seplen)) (b # as)"

definition sdsjoinsds :: "allocator \<Rightarrow> sdshdr list \<Rightarrow> string \<Rightarrow> nat \<Rightarrow> sdshdr res" where
  "sdsjoinsds al argv sep seplen = sdsjoinsds_loop al sep seplen (sdsempty al) argv"

fun intersperse :: "'a list \<Rightarrow> 'a list list \<Rightarrow> 'a list list" where
  "intersperse sep [] = []"
| "intersperse sep [x] = [x]"
| "intersperse sep (x # y # xs) = x # sep # intersperse sep (y # xs)"

definition join_with :: "'a list \<Rightarrow> 'a list list \<Rightarrow> 'a list" where
  "join_with sep xs = concat (intersperse sep xs)"

text \<open>With an allocator that does not fail, both loops append the interspersed pieces.\<close>

lemma append_all_total:
  assumes "alloc_ok al" "\<not> may_fail al" "sds_ok s" "sds_fits (sdslen s + length (concat ts))"
  shows "\<exists>s'. append_all (sdscatbytes al) s ts = Inr s' \<and> sds_ok s' \<and> sds_val s' = sds_val s @ concat ts"
  using sdsbuf.append_all_spec [of al s ts] assms by (auto simp: sdslen_val dest!: returns_total)

lemma sdsempty_total:
  assumes "alloc_ok al" "\<not> may_fail al"
  obtains s where "sdsempty al = Inr s" "sds_ok s" "sds_val s = []"
  using sdsempty_spec [OF assms(1)] assms(2) by (auto dest!: returns_total)

lemma sdscatbytes_total:
  assumes "alloc_ok al" "\<not> may_fail al" "sds_ok s" "sds_fits (sdslen s + length t)"
  obtains s' where "sdscatbytes al s t = Inr s'" "sds_ok s'" "sds_val s' = sds_val s @ t"
  using sdscatbytes_spec [OF assms(1,3,4)] assms(2) by (auto dest!: returns_total)

lemma join_loop_append_all:
  assumes al: "alloc_ok al" "\<not> may_fail al" and sep: "n \<le> length sep"
  shows "sds_ok s \<Longrightarrow> sds_fits (sdslen s + length (concat (intersperse (take n sep) (map cstr as)))) \<Longrightarrow>
     sdsjoin_loop al sep n (Inr s) as = append_all (sdscatbytes al) s (intersperse (take n sep) (map cstr as))"
proof (induction as arbitrary: s rule: induct_list012)
  case (3 a b as)
  let ?r = "intersperse (take n sep) (map cstr (b # as))"
  have "sds_fits (sdslen s + length (cstr a))"
    using "3.prems"(2) by (rule sds_fits_mono) simp
  with "3.prems"(1) obtain s1 where s1: "sdscatbytes al s (cstr a) = Inr s1" "sds_ok s1"
    "sds_val s1 = sds_val s @ cstr a" by (rule sdscatbytes_total [OF al])
  have "sds_fits (sdslen s1 + length (take n sep))"
    using "3.prems" s1 by (auto simp: sdslen_val elim!: sds_fits_mono)
  with s1(2) obtain s2 where s2: "sdscatbytes al s1 (take n sep) = Inr s2" "sds_ok s2"
    "sds_val s2 = sds_val s1 @ take n sep" by (rule sdscatbytes_total [OF al])
  have "sds_fits (sdslen s2 + length (concat ?r))"
    using "3.prems" s1 s2 by (simp add: sdslen_val add.assoc)
  from "3.IH"(2) [OF s2(2) this] show ?case
    using s1 s2 sep by (simp add: sdscat_bytes sdscatlen_bytes)
qed (simp_all add: sdscat_bytes bindr_def split: sum.splits)

lemma sdsjoin_spec:
  assumes al: "alloc_ok al" "\<not> may_fail al" and sep: "n \<le> length sep"
    and fits: "sds_fits (length (join_with (take n sep) (map cstr as)))"
  shows "\<exists>s. sdsjoin al as sep n = Inr s \<and> sds_ok s \<and> sds_val s = join_with (take n sep) (map cstr as)"
proof -
  obtain e where e: "sdsempty al = Inr e" "sds_ok e" "sds_val e = []" using al by (rule sdsempty_total)
  with fits have f: "sds_fits (sdslen e + length (concat (intersperse (take n sep) (map cstr as))))"
    by (simp add: sdslen_val join_with_def)
  show ?thesis
    using join_loop_append_all [OF al sep e(2) f] append_all_total [OF al e(2) f] e
    by (simp add: sdsjoin_def join_with_def)
qed

text \<open>\<open>sdsjoinsds\<close> runs like \<open>sdsjoin\<close> on the values of its arguments.\<close>

lemma sdscatsds_bytes: "sds_ok t \<Longrightarrow> sdscatsds al s t = sdscatbytes al s (sds_val t)"
  by (erule sds_okE) (simp add: sdscatsds_def sdscatbytes_def sdscatlen_def)

lemma joinsds_loop_append_all:
  assumes al: "alloc_ok al" "\<not> may_fail al" and sep: "n \<le> length sep"
  shows "sds_ok s \<Longrightarrow> \<forall>a \<in> set as. sds_ok a \<Longrightarrow>
     sds_fits (sdslen s + length (concat (intersperse (take n sep) (map sds_val as)))) \<Longrightarrow>
     sdsjoinsds_loop al sep n (Inr s) as = append_all (sdscatbytes al) s (intersperse (take n sep) (map sds_val as))"
proof (induction as arbitrary: s rule: induct_list012)
  case (3 a b as)
  let ?r = "intersperse (take n sep) (map sds_val (b # as))"
  have "sds_fits (sdslen s + length (sds_val a))"
    using "3.prems"(3) by (rule sds_fits_mono) simp
  with "3.prems"(1) obtain s1 where s1: "sdscatbytes al s (sds_val a) = Inr s1" "sds_ok s1"
    "sds_val s1 = sds_val s @ sds_val a" by (rule sdscatbytes_total [OF al])
  have "sds_fits (sdslen s1 + length (take n sep))"
    using "3.prems"(1,3) s1 by (auto simp: sdslen_val elim!: sds_fits_mono)
  with s1(2) obtain s2 where s2: "sdscatbytes al s1 (take n sep) = Inr s2" "sds_ok s2"
    "sds_val s2 = sds_val s1 @ take n sep" by (rule sdscatbytes_total [OF al])
  have "sds_fits (sdslen s2 + length (concat ?r))"
    using "3.prems"(1,3) s1 s2 by (simp add: sdslen_val add.assoc)
  from "3.IH"(2) [OF s2(2) _ this] show ?case
    using s1 s2 sep "3.prems"(2) by (simp add: sdscatsds_bytes sdscatlen_bytes)
qed (simp_all add: sdscatsds_bytes bindr_def split: sum.splits)

lemma sdsjoinsds_spec:
  assumes al: "alloc_ok al" "\<not> may_fail al" and sep: "n \<le> length sep" and as: "\<forall>a \<in> set as. sds_ok a"
    and fits: "sds_fits (length (join_with (take n sep) (map sds_val as)))"
  shows "\<exists>s. sdsjoinsds al as sep n = Inr s \<and> sds_ok s \<and> sds_val s = join_with (take n sep) (map sds_val as)"
proof -
  obtain e where e: "sdsempty al = Inr e" "sds_ok e" "sds_val e = []" using al by (rule sdsempty_total)
  with fits have f: "sds_fits (sdslen e + length (concat (intersperse (take n sep) (map sds_val as))))"
    by (simp add: sdslen_val join_with_def)
  show ?thesis
    using joinsds_loop_append_all [OF al sep e(2) as f] append_all_total [OF al e(2) f] e
    by (simp add: sdsjoinsds_def join_with_def)
qed

section \<open>Splitting\<close>

text \<open>
  The loop of \<open>sdssplitlen\<close>: \<open>j\<close> scans for the separator, \<open>start\<close> is the beginning of
  the current token; \<open>slots\<close> is the size of the token array, doubled by \<open>realloc\<close>.
  \<open>None\<close> in the result is the cleanup path (the function returns NULL).
\<close>

function sdssplit_loop ::
    "allocator \<Rightarrow> string \<Rightarrow> nat \<Rightarrow> string \<Rightarrow> nat \<Rightarrow> nat \<Rightarrow> nat \<Rightarrow> nat \<Rightarrow> sdshdr list \<Rightarrow> (nat \<times> sdshdr list) res" where
  "sdssplit_loop al s len sep seplen slots start j tokens =
     (if j + (seplen - 1) < len \<and> 0 < seplen then
        let slots' = (if slots < length tokens + 2 then slots * 2 else slots) in
        if slots < length tokens + 2 \<and> al (8 * slots') = None then Inl NoMem
        else
          bindr (mem_get s j) (\<lambda>c.
          bindr (mem_get sep 0) (\<lambda>d.
          bindr (mem_read s j seplen) (\<lambda>w.
          bindr (mem_read sep 0 seplen) (\<lambda>sw.
          if seplen = 1 \<and> c = d \<or> w = sw then
            bindr (sdsnewlen al (Some (drop start s)) (j - start)) (\<lambda>tok.
            sdssplit_loop al s len sep seplen slots' (j + seplen) (j + seplen) (tokens @ [tok]))
          else sdssplit_loop al s len sep seplen slots' start (Suc j) tokens))))
      else Inr (start, tokens))"
  by pat_completeness auto
termination
  by (relation "measure (\<lambda>(al, s, len, sep, seplen, slots, start, j, tokens). len - j)") auto

declare sdssplit_loop.simps [simp del]

text \<open>The lengths are those of the given blocks: the test of the code for a negative \<open>len\<close> never holds, and its test
  for a separator length below one is the test for zero.\<close>

definition sdssplitlen :: "allocator \<Rightarrow> string \<Rightarrow> nat \<Rightarrow> string \<Rightarrow> nat \<Rightarrow> (sdshdr list option) res" where
  "sdssplitlen al s len sep seplen =
     (if seplen < 1 then Inr None
      else if al (8 * 5) = None then Inl NoMem
      else if len = 0 then Inr (Some [])
      else
        bindr (sdssplit_loop al s len sep seplen 5 0 0 []) (\<lambda>(start, tokens).
        bindr (sdsnewlen al (Some (drop start s)) (len - start)) (\<lambda>tok.
        Inr (Some (tokens @ [tok])))))"

text \<open>The specification: cut at the leftmost occurrences of the separator.\<close>

function split_at :: "'a list \<Rightarrow> 'a list \<Rightarrow> 'a list \<Rightarrow> 'a list list" where
  "split_at sep acc xs =
     (if sep \<noteq> [] \<and> length sep \<le> length xs then
        if take (length sep) xs = sep then acc # split_at sep [] (drop (length sep) xs)
        else split_at sep (acc @ [hd xs]) (tl xs)
      else [acc @ xs])"
  by pat_completeness auto
termination by (relation "measure (\<lambda>(sep, acc, xs). length xs)") (auto simp flip: length_greater_0_conv)

declare split_at.simps [simp del]

lemma split_at_nonempty [simp]: "split_at sep acc xs \<noteq> []"
  by (induction sep acc xs rule: split_at.induct) (subst split_at.simps, auto)

lemma intersperse_Cons: "xs \<noteq> [] \<Longrightarrow> intersperse sep (x # xs) = x # sep # intersperse sep xs"
  by (cases xs) auto

lemma join_split_at: "join_with sep (split_at sep acc xs) = acc @ xs"
proof (induction sep acc xs rule: split_at.induct)
  case (1 sep acc xs)
  show ?case
  proof (cases "sep \<noteq> [] \<and> length sep \<le> length xs")
    case True
    then have "xs \<noteq> []" by auto
    moreover have "take (length sep) xs = sep \<Longrightarrow> sep @ drop (length sep) xs = xs"
      by (metis append_take_drop_id)
    ultimately show ?thesis
      using True 1 by (subst split_at.simps) (auto simp: join_with_def intersperse_Cons)
  next
    case False
    then show ?thesis by (subst split_at.simps) (auto simp: join_with_def)
  qed
qed


lemma split_at_found:
  "sep \<noteq> [] \<Longrightarrow> take (length sep) xs = sep \<Longrightarrow> split_at sep acc xs = acc # split_at sep [] (drop (length sep) xs)"
  by (subst split_at.simps) (metis length_take min.cobounded1)

lemma split_at_step:
  "take (length sep) (x # xs) \<noteq> sep \<Longrightarrow> sep \<noteq> [] \<Longrightarrow> length sep \<le> length (x # xs) \<Longrightarrow>
     split_at sep acc (x # xs) = split_at sep (acc @ [x]) xs"
  by (subst split_at.simps) auto

lemma sdssplit_loop_spec:
  assumes al: "alloc_ok al" and fits: "sds_fits len" and len: "len \<le> length s" and sep: "length sep = n" "0 < n"
  shows "start \<le> j \<Longrightarrow> j \<le> len \<Longrightarrow> \<forall>t \<in> set tokens. sds_ok t \<Longrightarrow>
    returns (may_fail al) (sdssplit_loop al s len sep n slots start j tokens)
      (\<lambda>(st, ts). st \<le> len \<and> (\<forall>t \<in> set ts. sds_ok t) \<and>
         map sds_val ts @ [drop st (take len s)] =
         map sds_val tokens @ split_at sep (take (j - start) (drop start s)) (drop j (take len s)))"
proof (induction "len - j" arbitrary: slots start j tokens rule: less_induct)
  case less
  let ?S = "take len s" and ?acc = "take (j - start) (drop start s)"
  let ?Q = "\<lambda>ts' acc' j' (st, ts). st \<le> len \<and> (\<forall>t \<in> set ts. sds_ok t) \<and>
      map sds_val ts @ [drop st ?S] = map sds_val ts' @ split_at sep acc' (drop j' ?S)"
  show ?case
  proof (cases "j + (n - 1) < len")
    case False
    then have "split_at sep ?acc (drop j ?S) = [?acc @ drop j ?S]"
    proof -
      have "\<not> length sep \<le> length (drop j ?S)" using False sep len less.prems by auto
      then show ?thesis by (subst split_at.simps) (simp only: if_False simp_thms)
    qed
    moreover have "?acc @ drop j ?S = drop start ?S"
    proof -
      have "?acc = take (j - start) (drop start ?S)" using less.prems by (simp add: drop_take)
      moreover have "drop j ?S = drop (j - start) (drop start ?S)" using less.prems by simp
      ultimately show ?thesis by (simp only: append_take_drop_id)
    qed
    ultimately show ?thesis
      using False less.prems by (simp add: sdssplit_loop.simps [of al s len sep n slots start j])
  next
    case True
    define slots' where "slots' = (if slots < length tokens + 2 then slots * 2 else slots)"
    have w: "take n (drop j s) = take n (drop j ?S)" using True sep len by (simp add: drop_take)
    have m: "mem_get s j = Inr (s ! j)" "mem_get sep 0 = Inr (sep ! 0)" "mem_read s j n = Inr (take n (drop j s))"
      "mem_read sep 0 n = Inr sep" using True sep len by auto
    have one: "n = 1 \<and> s ! j = sep ! 0 \<Longrightarrow> take n (drop j s) = sep"
      using sep True len by (cases sep) (auto simp: take_Suc_conv_app_nth)
    show ?thesis
    proof (cases "slots < length tokens + 2 \<and> al (8 * slots') = None")
      case True
      then show ?thesis
        using \<open>j + (n - 1) < len\<close> sep
        by (subst sdssplit_loop.simps) (auto simp: slots'_def Let_def)
    next
      case no: False
      have unfold: "sdssplit_loop al s len sep n slots start j tokens =
        (if take n (drop j s) = sep
         then bindr (sdsnewlen al (Some (drop start s)) (j - start)) (\<lambda>tok.
                sdssplit_loop al s len sep n slots' (j + n) (j + n) (tokens @ [tok]))
         else sdssplit_loop al s len sep n slots' start (Suc j) tokens)"
      proof -
        have c: "(n = 1 \<and> s ! j = sep ! 0 \<or> take n (drop j s) = sep) = (take n (drop j s) = sep)"
          using one by blast
        have g: "j + (n - 1) < len \<and> 0 < n" using True sep by simp
        show ?thesis
          unfolding sdssplit_loop.simps [of al s len sep n slots start j] if_P [OF g] Let_def
            slots'_def [symmetric] if_not_P [OF no] m bindr_simps c ..
      qed
      show ?thesis
      proof (cases "take n (drop j s) = sep")
        case found: True
        have fit: "sds_fits (j - start)" using less.prems by (intro sds_fits_mono [OF fits]) simp
        have "returns (may_fail al) (bindr (sdsnewlen al (Some (drop start s)) (j - start)) (\<lambda>tok.
            sdssplit_loop al s len sep n slots' (j + n) (j + n) (tokens @ [tok]))) (?Q tokens ?acc j)"
        proof (rule returns_bind [OF sdsnewlen_spec [OF al fit]])
          show "j - start \<le> length (drop start s)" using less.prems len by auto
          fix tok assume tok: "sds_ok tok \<and> sds_val tok = ?acc \<and> sh_free tok = 0"
          have "returns (may_fail al) (sdssplit_loop al s len sep n slots' (j + n) (j + n) (tokens @ [tok]))
              (?Q (tokens @ [tok]) (take (j + n - (j + n)) (drop (j + n) s)) (j + n))"
            using True sep less.prems tok by (intro less.hyps) auto
          then show "returns (may_fail al) (sdssplit_loop al s len sep n slots' (j + n) (j + n) (tokens @ [tok]))
              (?Q tokens ?acc j)"
            using tok found w sep by (auto elim!: returns_mono simp: split_at_found add.commute)
        qed
        then show ?thesis using found unfold by simp
      next
        case miss: False
        have d: "drop j ?S = s ! j # drop (Suc j) ?S" using True len
          by (metis Cons_nth_drop_Suc add_lessD1 length_take min_absorb2 nth_take)
        have acc: "take (Suc j - start) (drop start s) = ?acc @ [s ! j]"
          using less.prems True len by (simp add: Suc_diff_le take_Suc_conv_app_nth)
        have "split_at sep ?acc (drop j ?S) = split_at sep (?acc @ [s ! j]) (drop (Suc j) ?S)"
          unfolding d using miss w sep True len unfolding d by (intro split_at_step) auto
        moreover have "returns (may_fail al) (sdssplit_loop al s len sep n slots' start (Suc j) tokens)
            (?Q tokens (take (Suc j - start) (drop start s)) (Suc j))"
          using True less.prems by (intro less.hyps) auto
        ultimately show ?thesis using miss unfold acc by simp
      qed
    qed
  qed
qed

lemma sdssplitlen_spec:
  assumes al: "alloc_ok al" and fits: "sds_fits len" and len: "0 < len" "len \<le> length s" and sep: "0 < length sep"
  shows "returns (may_fail al) (sdssplitlen al s len sep (length sep))
    (\<lambda>r. \<exists>ts. r = Some ts \<and> (\<forall>t \<in> set ts. sds_ok t) \<and> map sds_val ts = split_at sep [] (take len s))"
proof (cases "al (8 * 5)")
  case None
  then show ?thesis using sep by (simp add: sdssplitlen_def)
next
  case (Some a)
  have "returns (may_fail al) (bindr (sdssplit_loop al s len sep (length sep) 5 0 0 []) (\<lambda>(start, tokens).
        bindr (sdsnewlen al (Some (drop start s)) (len - start)) (\<lambda>tok. Inr (Some (tokens @ [tok])))))
    (\<lambda>r. \<exists>ts. r = Some ts \<and> (\<forall>t \<in> set ts. sds_ok t) \<and> map sds_val ts = split_at sep [] (take len s))"
  proof (rule returns_bind [OF sdssplit_loop_spec [OF al fits len(2) refl sep, of 0 0 "[]" 5]]; clarsimp)
    fix st ts
    assume h: "st \<le> len" "\<forall>t \<in> set ts. sds_ok t"
      "map sds_val ts @ [drop st (take len s)] = split_at sep [] (take len s)"
    have "sds_fits (len - st)" by (rule sds_fits_mono [OF fits]) simp
    then have "returns (may_fail al) (sdsnewlen al (Some (drop st s)) (len - st))
        (\<lambda>tok. sds_ok tok \<and> sds_val tok = drop st (take len s) \<and> sh_free tok = 0)"
      using sdsnewlen_spec [OF al, of "len - st" "drop st s"] h len by (simp add: drop_take)
    then show "returns (may_fail al) (bindr (sdsnewlen al (Some (drop st s)) (len - st)) (\<lambda>tok. Inr (Some (ts @ [tok]))))
      (\<lambda>r. \<exists>ts. r = Some ts \<and> (\<forall>t \<in> set ts. sds_ok t) \<and> map sds_val ts = split_at sep [] (take len s))"
      by (rule returns_bind) (use h in auto)
  qed
  then show ?thesis using sep len Some by (simp add: sdssplitlen_def)
qed

section \<open>Properties\<close>

text \<open>\<open>sdsll2str\<close> writes the decimal notation of every \<open>long long\<close>, the smallest included,
  in at most 20 bytes (so that it fits the buffers of \<open>SDS_LLSTR_SIZE\<close>).\<close>

theorem sdsll2str_decimal:
  assumes "- 9223372036854775808 \<le> v" "v \<le> 9223372036854775807"
  shows "sdsll2str v = show_int v \<and> length (sdsll2str v) + 1 \<le> SDS_LLSTR_SIZE"
  using sdsll2str_eq [OF assms] length_show_int [OF assms] by (simp add: SDS_LLSTR_SIZE_def)

theorem sdsll2str_decimal_witness:
  "length (sdsll2str (- 9223372036854775808)) + 1 \<le> 21"
  using sdsll2str_decimal [of "- 9223372036854775808"] unfolding SDS_LLSTR_SIZE_def by auto

text \<open>\<open>sdstrim\<close> removes the longest prefix and suffix of bytes that \<open>strchr\<close> finds in the
  set; the result is well formed and no access leaves the buffer.\<close>

theorem sdstrim_correct:
  assumes "sds_ok s"
  shows "\<exists>s'. sdstrim s cset = Inr s' \<and> sds_ok s' \<and> sds_val s' = trim_list (strchr_mem cset) (sds_val s)"
  using sdstrim_spec [OF assms] .

theorem sdstrim_correct_witness:
  "\<exists>s'. sdstrim \<lparr>sh_len = 5, sh_free = 0, sh_buf = ''xciao'' @ [NUL]\<rparr> ''xo'' = Inr s' \<and> sds_val s' = ''cia''"
proof -
  have "sds_ok \<lparr>sh_len = 5, sh_free = 0, sh_buf = ''xciao'' @ [NUL]\<rparr>"
    by (simp add: sds_ok_def sds_layout_def INT_MAX_def)
  from sdstrim_correct [OF this, of "''xo''"] show ?thesis
    by (auto simp: trim_list_def sds_val_def strchr_mem_def cstr_def)
qed

text \<open>C12: splitting with \<open>sdssplitlen\<close> and joining the tokens with \<open>sdsjoinsds\<close> and the same separator
  gives the split bytes back; with memory for it both calls return.\<close>

theorem sdssplitlen_sdsjoinsds:
  assumes al: "alloc_ok al" "\<not> may_fail al" and fits: "sds_fits (length s)" and ne: "s \<noteq> []" "sep \<noteq> []"
  shows "\<exists>ts j. sdssplitlen al s (length s) sep (length sep) = Inr (Some ts) \<and>
    sdsjoinsds al ts sep (length sep) = Inr j \<and> sds_ok j \<and> sds_val j = s"
proof -
  from sdssplitlen_spec [OF al(1) fits, of s sep] ne al(2)
  obtain ts where ts: "sdssplitlen al s (length s) sep (length sep) = Inr (Some ts)" "\<forall>t \<in> set ts. sds_ok t"
    "map sds_val ts = split_at sep [] s" by (auto dest!: returns_total)
  then have "join_with (take (length sep) sep) (map sds_val ts) = s" by (simp add: join_split_at)
  with sdsjoinsds_spec [OF al le_refl ts(2), of sep] fits ts(1) show ?thesis by auto
qed

theorem sdssplitlen_sdsjoinsds_witness:
  "\<exists>ts j. sdssplitlen (fill_alloc NUL) ''a__b'' (length ''a__b'') ''_'' 1 = Inr (Some ts) \<and>
    sdsjoinsds (fill_alloc NUL) ts ''_'' 1 = Inr j \<and> sds_ok j \<and> sds_val j = ''a__b''"
  using sdssplitlen_sdsjoinsds [OF fill_alloc_ok fill_alloc_never_fails, of "''a__b''" "''_''" NUL]
  by (simp add: sds_fits_def)

end
