(* ===== verification/Reply.thy ===== *)
theory Reply
  imports SdsText
begin

text \<open>
  The reply objects of \<open>hiredis.c\<close>: the default functions that \<open>read.c\<close> calls to build a reply,
  and \<open>freeReplyObject\<close>.  Reply objects live in a heap, the list of all objects allocated so far
  (\<open>None\<close> once freed); an object is linked into its parent array through the parent task, as in the
  code.  An abstract reply is a tree \<open>reply\<close>, and \<open>flatten\<close> is its image in the heap.
\<close>

section \<open>Data\<close>

definition REDIS_REPLY_STRING :: int where "REDIS_REPLY_STRING = 1"
definition REDIS_REPLY_ARRAY :: int where "REDIS_REPLY_ARRAY = 2"
definition REDIS_REPLY_INTEGER :: int where "REDIS_REPLY_INTEGER = 3"
definition REDIS_REPLY_NIL :: int where "REDIS_REPLY_NIL = 4"
definition REDIS_REPLY_STATUS :: int where "REDIS_REPLY_STATUS = 5"
definition REDIS_REPLY_ERROR :: int where "REDIS_REPLY_ERROR = 6"

lemmas reply_types = REDIS_REPLY_STRING_def REDIS_REPLY_ARRAY_def REDIS_REPLY_INTEGER_def REDIS_REPLY_NIL_def
  REDIS_REPLY_STATUS_def REDIS_REPLY_ERROR_def

type_synonym addr = nat

text \<open>An object pointer: the address of a reply object, or the type number cast to a pointer that the
  reader uses when it has no object functions.\<close>

datatype robj = ObjAddr addr | ObjTag int

record redisReply =
  rp_type :: int
  rp_integer :: int
  rp_len :: int
  rp_str :: "string option"
  rp_elements :: nat
  rp_element :: "addr option list"   \<comment> \<open>\<open>[]\<close> is the NULL pointer\<close>

type_synonym reply_heap = "redisReply option list"

text \<open>A read task; \<open>t_parent\<close> is the index of the parent in the task stack.\<close>

record redisReadTask =
  t_type :: int
  t_elements :: int
  t_idx :: int
  t_obj :: "robj option"
  t_parent :: "nat option"

text \<open>A pointer to a task is the stack it lives in and its index.\<close>

type_synonym task_ptr = "redisReadTask list \<times> nat"

section \<open>Creating and linking objects\<close>

definition sizeof_redisReply :: nat where "sizeof_redisReply = 48"

definition heap_get :: "reply_heap \<Rightarrow> addr \<Rightarrow> redisReply res" where
  "heap_get h a = (if a < length h then (case h ! a of None \<Rightarrow> Inl OutOfBounds | Some r \<Rightarrow> Inr r) else Inl OutOfBounds)"

definition createReplyObject :: "allocator \<Rightarrow> int \<Rightarrow> reply_heap \<Rightarrow> (addr \<times> reply_heap) option" where
  "createReplyObject al type h =
     (if al sizeof_redisReply = None then None
      else Some (length h, h @ [Some \<lparr>rp_type = type, rp_integer = 0, rp_len = 0, rp_str = None, rp_elements = 0, rp_element = []\<rparr>]))"

text \<open>The common end of the create functions: link the object into the parent's array.\<close>

definition link_parent :: "task_ptr \<Rightarrow> addr \<Rightarrow> reply_heap \<Rightarrow> reply_heap res" where
  "link_parent task r h =
     (let (stack, i) = task in
      case t_parent (stack ! i) of
        None \<Rightarrow> Inr h
      | Some pi \<Rightarrow>
          bindr (mem_get stack pi) (\<lambda>ptask.
          case t_obj ptask of
            Some (ObjAddr p) \<Rightarrow>
              bindr (heap_get h p) (\<lambda>parent.
              bindr (check AssertFailed (rp_type parent = REDIS_REPLY_ARRAY)) (\<lambda>_.
              if t_idx (stack ! i) < 0 \<or> length (rp_element parent) \<le> nat (t_idx (stack ! i)) then Inl OutOfBounds
              else Inr (h[p := Some (parent\<lparr>rp_element := (rp_element parent)[nat (t_idx (stack ! i)) := Some r]\<rparr>)])))
          | _ \<Rightarrow> Inl OutOfBounds))"

text \<open>\<open>freeReplyObject\<close>, with fuel for the recursion: a tree of replies is never deeper than the heap is
  long, and running out of fuel means following a cycle of freed objects.  The string and the element array of an
  object are part of its cell, so their own calls of \<open>free\<close> are part of clearing the cell.\<close>

function free_reply :: "nat \<Rightarrow> addr \<Rightarrow> reply_heap \<Rightarrow> reply_heap res"
  and free_replies :: "nat \<Rightarrow> addr option list \<Rightarrow> reply_heap \<Rightarrow> reply_heap res" where
  "free_reply 0 a h = Inl OutOfBounds"
| "free_reply (Suc n) a h =
     bindr (heap_get h a) (\<lambda>r.
     bindr (if rp_type r = REDIS_REPLY_ARRAY \<and> rp_element r \<noteq> []
            then bindr (mem_read (rp_element r) 0 (rp_elements r)) (\<lambda>es. free_replies n es h)
            else Inr h) (\<lambda>h.
     Inr (h[a := None])))"
| "free_replies n [] h = Inr h"
| "free_replies n (None # es) h = free_replies n es h"
| "free_replies n (Some a # es) h = bindr (free_reply n a h) (\<lambda>h. free_replies n es h)"
  by pat_completeness auto
termination
  by (relation "inv_image (less_than <*lex*> less_than)
      (\<lambda>x. case x of Inl (n, a, h) \<Rightarrow> (n, 0) | Inr (n, es, h) \<Rightarrow> (n, Suc (length es)))") auto

definition freeReplyObject :: "robj option \<Rightarrow> reply_heap \<Rightarrow> reply_heap res" where
  "freeReplyObject reply h =
     (case reply of
        None \<Rightarrow> Inr h
      | Some (ObjAddr a) \<Rightarrow> free_reply (Suc (length h)) a h
      | Some (ObjTag _) \<Rightarrow> Inl OutOfBounds)"

text \<open>The create functions: the result NULL (\<open>None\<close>) means out of memory.\<close>

definition createStringObject :: "allocator \<Rightarrow> task_ptr \<Rightarrow> string \<Rightarrow> nat \<Rightarrow> reply_heap \<Rightarrow> (robj option \<times> reply_heap) res" where
  "createStringObject al task str len h =
     (let type = t_type (fst task ! snd task) in
      case createReplyObject al type h of
        None \<Rightarrow> Inr (None, h)
      | Some (r, h) \<Rightarrow>
          if al (size_t (int len + 1)) = None then
            bindr (freeReplyObject (Some (ObjAddr r)) h) (\<lambda>h. Inr (None, h))
          else
            bindr (check AssertFailed (type = REDIS_REPLY_ERROR \<or> type = REDIS_REPLY_STATUS \<or> type = REDIS_REPLY_STRING)) (\<lambda>_.
            bindr (mem_read str 0 len) (\<lambda>s.
            bindr (heap_get h r) (\<lambda>obj.
            let h = h[r := Some (obj\<lparr>rp_str := Some (s @ [NUL]), rp_len := int32 (int len)\<rparr>)] in
            bindr (link_parent task r h) (\<lambda>h. Inr (Some (ObjAddr r), h))))))"

definition createArrayObject :: "allocator \<Rightarrow> task_ptr \<Rightarrow> int \<Rightarrow> reply_heap \<Rightarrow> (robj option \<times> reply_heap) res" where
  "createArrayObject al task elements h =
     (case createReplyObject al REDIS_REPLY_ARRAY h of
        None \<Rightarrow> Inr (None, h)
      | Some (r, h) \<Rightarrow>
          if 0 < elements \<and> al (nat elements * 8) = None then
            bindr (freeReplyObject (Some (ObjAddr r)) h) (\<lambda>h. Inr (None, h))
          else
            bindr (heap_get h r) (\<lambda>obj.
            let h = h[r := Some (obj\<lparr>rp_element := replicate (nat elements) None, rp_elements := size_t elements\<rparr>)] in
            bindr (link_parent task r h) (\<lambda>h. Inr (Some (ObjAddr r), h))))"

definition createIntegerObject :: "allocator \<Rightarrow> task_ptr \<Rightarrow> int \<Rightarrow> reply_heap \<Rightarrow> (robj option \<times> reply_heap) res" where
  "createIntegerObject al task value h =
     (case createReplyObject al REDIS_REPLY_INTEGER h of
        None \<Rightarrow> Inr (None, h)
      | Some (r, h) \<Rightarrow>
          bindr (heap_get h r) (\<lambda>obj.
          let h = h[r := Some (obj\<lparr>rp_integer := value\<rparr>)] in
          bindr (link_parent task r h) (\<lambda>h. Inr (Some (ObjAddr r), h))))"

definition createNilObject :: "allocator \<Rightarrow> task_ptr \<Rightarrow> reply_heap \<Rightarrow> (robj option \<times> reply_heap) res" where
  "createNilObject al task h =
     (case createReplyObject al REDIS_REPLY_NIL h of
        None \<Rightarrow> Inr (None, h)
      | Some (r, h) \<Rightarrow> bindr (link_parent task r h) (\<lambda>h. Inr (Some (ObjAddr r), h)))"

text \<open>The function table a reader is created with; a missing entry is a NULL function pointer.\<close>

record redisReplyObjectFunctions =
  createString :: "(task_ptr \<Rightarrow> string \<Rightarrow> nat \<Rightarrow> reply_heap \<Rightarrow> (robj option \<times> reply_heap) res) option"
  createArray :: "(task_ptr \<Rightarrow> int \<Rightarrow> reply_heap \<Rightarrow> (robj option \<times> reply_heap) res) option"
  createInteger :: "(task_ptr \<Rightarrow> int \<Rightarrow> reply_heap \<Rightarrow> (robj option \<times> reply_heap) res) option"
  createNil :: "(task_ptr \<Rightarrow> reply_heap \<Rightarrow> (robj option \<times> reply_heap) res) option"
  freeObject :: "(robj option \<Rightarrow> reply_heap \<Rightarrow> reply_heap res) option"

definition defaultFunctions :: "allocator \<Rightarrow> redisReplyObjectFunctions" where
  "defaultFunctions al =
     \<lparr>createString = Some (createStringObject al), createArray = Some (createArrayObject al),
      createInteger = Some (createIntegerObject al), createNil = Some (createNilObject al),
      freeObject = Some freeReplyObject\<rparr>"

section \<open>Replies as trees, and their image in the heap\<close>

datatype reply =
    RString string | RStatus string | RError string | RInt int | RNil | RArray "reply list"

fun leaf_cell :: "reply \<Rightarrow> redisReply" where
  "leaf_cell (RString s) = \<lparr>rp_type = REDIS_REPLY_STRING, rp_integer = 0, rp_len = int32 (int (length s)), rp_str = Some (s @ [NUL]), rp_elements = 0, rp_element = []\<rparr>"
| "leaf_cell (RStatus s) = \<lparr>rp_type = REDIS_REPLY_STATUS, rp_integer = 0, rp_len = int32 (int (length s)), rp_str = Some (s @ [NUL]), rp_elements = 0, rp_element = []\<rparr>"
| "leaf_cell (RError s) = \<lparr>rp_type = REDIS_REPLY_ERROR, rp_integer = 0, rp_len = int32 (int (length s)), rp_str = Some (s @ [NUL]), rp_elements = 0, rp_element = []\<rparr>"
| "leaf_cell (RInt v) = \<lparr>rp_type = REDIS_REPLY_INTEGER, rp_integer = v, rp_len = 0, rp_str = None, rp_elements = 0, rp_element = []\<rparr>"
| "leaf_cell RNil = \<lparr>rp_type = REDIS_REPLY_NIL, rp_integer = 0, rp_len = 0, rp_str = None, rp_elements = 0, rp_element = []\<rparr>"
| "leaf_cell (RArray vs) = \<lparr>rp_type = REDIS_REPLY_ARRAY, rp_integer = 0, rp_len = 0, rp_str = None, rp_elements = length vs, rp_element = []\<rparr>"

definition array_cell :: "nat \<Rightarrow> addr option list \<Rightarrow> redisReply" where
  "array_cell n es = \<lparr>rp_type = REDIS_REPLY_ARRAY, rp_integer = 0, rp_len = 0, rp_str = None, rp_elements = n, rp_element = es\<rparr>"

text \<open>The number of objects of a reply, and the objects in the order in which the reader allocates them,
  starting at address \<open>a\<close>.\<close>

fun reply_size :: "reply \<Rightarrow> nat" where
  "reply_size (RArray vs) = Suc (sum_list (map reply_size vs))"
| "reply_size _ = 1"

definition replies_size :: "reply list \<Rightarrow> nat" where
  "replies_size vs = sum_list (map reply_size vs)"

fun child_addrs :: "addr \<Rightarrow> reply list \<Rightarrow> addr list" where
  "child_addrs a [] = []"
| "child_addrs a (v # vs) = a # child_addrs (a + reply_size v) vs"

fun flatten :: "addr \<Rightarrow> reply \<Rightarrow> redisReply list" and flattens :: "addr \<Rightarrow> reply list \<Rightarrow> redisReply list" where
  "flatten a (RArray vs) = array_cell (length vs) (map Some (child_addrs (Suc a) vs)) # flattens (Suc a) vs"
| "flatten a v = [leaf_cell v]"
| "flattens a [] = []"
| "flattens a (v # vs) = flatten a v @ flattens (a + reply_size v) vs"

lemma length_flatten [simp]: "length (flatten a v) = reply_size v" "length (flattens a vs) = replies_size vs"
  by (induction a v and a vs rule: flatten_flattens.induct) (simp_all add: replies_size_def)

lemma replies_size_simps [simp]:
  "replies_size [] = 0" "replies_size (v # vs) = reply_size v + replies_size vs"
  "replies_size (vs @ ws) = replies_size vs + replies_size ws"
  by (simp_all add: replies_size_def)

lemma reply_size_array [simp]: "reply_size (RArray vs) = Suc (replies_size vs)"
  by (simp add: replies_size_def)

declare reply_size.simps(1) [simp del]

lemma reply_size_pos [simp]: "0 < reply_size v"
  by (cases v) (simp_all add: reply_size.simps)

lemma child_addrs_append: "child_addrs a (vs @ ws) = child_addrs a vs @ child_addrs (a + replies_size vs) ws"
  by (induction vs arbitrary: a) (simp_all add: add.assoc)

lemma length_child_addrs [simp]: "length (child_addrs a vs) = length vs"
  by (induction vs arbitrary: a) simp_all

lemma flattens_append: "flattens a (vs @ ws) = flattens a vs @ flattens (a + replies_size vs) ws"
  by (induction vs arbitrary: a) (simp_all add: add.assoc)

lemma heap_get_at [simp]: "heap_get (pre @ Some r # post) (length pre) = Inr r"
  by (simp add: heap_get_def)

section \<open>What a client reads\<close>

text \<open>The reply a client sees by following the pointers of an object, with fuel for the depth.\<close>

function view_reply :: "nat \<Rightarrow> reply_heap \<Rightarrow> addr \<Rightarrow> reply option"
  and view_replies :: "nat \<Rightarrow> reply_heap \<Rightarrow> addr option list \<Rightarrow> (reply list) option" where
  "view_reply 0 h a = None"
| "view_reply (Suc n) h a =
     (case heap_get h a of
        Inl _ \<Rightarrow> None
      | Inr r \<Rightarrow>
          if rp_type r = REDIS_REPLY_INTEGER then Some (RInt (rp_integer r))
          else if rp_type r = REDIS_REPLY_NIL then Some RNil
          else if rp_type r = REDIS_REPLY_ARRAY then
            if length (rp_element r) < rp_elements r then None
            else map_option RArray (view_replies n h (take (rp_elements r) (rp_element r)))
          else (case rp_str r of
              None \<Rightarrow> None
            | Some s \<Rightarrow>
                if rp_len r < 0 \<or> int (length s) < rp_len r then None
                else
                  let t = take (nat (rp_len r)) s in
                  if rp_type r = REDIS_REPLY_STRING then Some (RString t)
                  else if rp_type r = REDIS_REPLY_STATUS then Some (RStatus t)
                  else if rp_type r = REDIS_REPLY_ERROR then Some (RError t)
                  else None))"
| "view_replies n h [] = Some []"
| "view_replies n h (None # es) = None"
| "view_replies n h (Some a # es) =
     (case (view_reply n h a, view_replies n h es) of (Some v, Some vs) \<Rightarrow> Some (v # vs) | _ \<Rightarrow> None)"
  by pat_completeness auto
termination
  by (relation "inv_image (less_than <*lex*> less_than)
      (\<lambda>x. case x of Inl (n, h, a) \<Rightarrow> (n, 0) | Inr (n, h, es) \<Rightarrow> (n, Suc (length es)))") auto

text \<open>Replies whose string lengths fit the \<open>int\<close> that holds them.\<close>

fun reply_fits :: "reply \<Rightarrow> bool" where
  "reply_fits (RString s) \<longleftrightarrow> length s \<le> 2147483647"
| "reply_fits (RStatus s) \<longleftrightarrow> length s \<le> 2147483647"
| "reply_fits (RError s) \<longleftrightarrow> length s \<le> 2147483647"
| "reply_fits (RArray vs) \<longleftrightarrow> (\<forall>v \<in> set vs. reply_fits v)"
| "reply_fits _ \<longleftrightarrow> True"

lemma view_flatten:
  "reply_fits v \<Longrightarrow> length pre = a \<Longrightarrow> reply_size v \<le> n \<Longrightarrow> view_reply n (pre @ map Some (flatten a v) @ post) a = Some v"
  "\<forall>v \<in> set vs. reply_fits v \<Longrightarrow> length pre = a \<Longrightarrow> replies_size vs \<le> n \<Longrightarrow>
     view_replies n (pre @ map Some (flattens a vs) @ post) (map Some (child_addrs a vs)) = Some vs"
proof (induction a v and a vs arbitrary: pre n post and pre n post rule: flatten_flattens.induct)
  case (1 a vs)
  then obtain m where n: "n = Suc m" "replies_size vs \<le> m" by (cases n) auto
  let ?c = "Some (array_cell (length vs) (map Some (child_addrs (Suc a) vs)))"
  have "view_replies m ((pre @ [?c]) @ map Some (flattens (Suc a) vs) @ post) (map Some (child_addrs (Suc a) vs)) = Some vs"
    by (rule "1.IH") (use 1 n in auto)
  with 1 n show ?case by (auto simp: array_cell_def reply_types)
next
  case (4 a v vs)
  have "view_reply n (pre @ map Some (flatten a v) @ (map Some (flattens (a + reply_size v) vs) @ post)) a = Some v"
    by (rule "4.IH"(1)) (use 4 in auto)
  moreover have "view_replies n ((pre @ map Some (flatten a v)) @ map Some (flattens (a + reply_size v) vs) @ post)
      (map Some (child_addrs (a + reply_size v) vs)) = Some vs"
    by (rule "4.IH"(2)) (use 4 in auto)
  ultimately show ?case by simp
qed (auto simp: reply_types Suc_le_eq gr0_conv_Suc)

text \<open>Freeing a reply frees exactly its objects, each once.\<close>

lemma free_flatten:
  "length pre = a \<Longrightarrow> reply_size v \<le> n \<Longrightarrow>
     free_reply n a (pre @ map Some (flatten a v) @ post) = Inr (pre @ replicate (reply_size v) None @ post)"
  "length pre = a \<Longrightarrow> replies_size vs \<le> n \<Longrightarrow>
     free_replies n (map Some (child_addrs a vs)) (pre @ map Some (flattens a vs) @ post) =
       Inr (pre @ replicate (replies_size vs) None @ post)"
proof (induction a v and a vs arbitrary: pre n post and pre n post rule: flatten_flattens.induct)
  case (1 a vs)
  then obtain m where n: "n = Suc m" "replies_size vs \<le> m" by (cases n) auto
  let ?c = "Some (array_cell (length vs) (map Some (child_addrs (Suc a) vs)))"
  have "free_replies m (map Some (child_addrs (Suc a) vs)) ((pre @ [?c]) @ map Some (flattens (Suc a) vs) @ post) =
      Inr ((pre @ [?c]) @ replicate (replies_size vs) None @ post)"
    by (rule "1.IH") (use 1 n in auto)
  with 1 n show ?case by (cases vs) (auto simp: array_cell_def reply_types)
next
  case (4 a v vs)
  have "free_reply n a (pre @ map Some (flatten a v) @ (map Some (flattens (a + reply_size v) vs) @ post)) =
      Inr (pre @ replicate (reply_size v) None @ (map Some (flattens (a + reply_size v) vs) @ post))"
    by (rule "4.IH"(1)) (use 4 in auto)
  moreover have "free_replies n (map Some (child_addrs (a + reply_size v) vs))
      ((pre @ replicate (reply_size v) None) @ map Some (flattens (a + reply_size v) vs) @ post) =
      Inr ((pre @ replicate (reply_size v) None) @ replicate (replies_size vs) None @ post)"
    by (rule "4.IH"(2)) (use 4 in auto)
  ultimately show ?case by (simp add: replicate_add)
qed (auto simp: reply_types Suc_le_eq gr0_conv_Suc)

end
