(* ===== verification/SdsRepr.thy ===== *)
theory SdsRepr
  imports SdsText
begin

text \<open>
  Quoting and parsing of argument lines (\<open>sdscatrepr\<close>, \<open>sdssplitargs\<close>) and the formatted
  append operations (\<open>sdscatvprintf\<close>, \<open>sdscatfmt\<close>) of \<open>sds.c\<close>.
\<close>

section \<open>Formatted append through vsnprintf\<close>

text \<open>
  \<open>sdscatvprintf\<close> formats into a buffer of \<open>buflen\<close> bytes and doubles it until the last
  but one byte stays zero.  The text \<open>out\<close> that the format and its arguments produce is
  that of the C library; \<open>vsnprintf\<close> stores its first \<open>buflen - 1\<close> bytes and a NUL.
\<close>

definition vsnprintf_buf :: "nat \<Rightarrow> string \<Rightarrow> string" where
  "vsnprintf_buf buflen out = take (buflen - 1) out @ [NUL]"

function vprintf_loop :: "allocator \<Rightarrow> string \<Rightarrow> nat \<Rightarrow> string res" where
  "vprintf_loop al out buflen =
     (if al buflen = None then Inl NoMem
      else if 2 \<le> buflen \<and> buflen - 2 < length out \<and> out ! (buflen - 2) \<noteq> NUL
      then vprintf_loop al out (buflen * 2)
      else Inr (vsnprintf_buf buflen out))"
  by pat_completeness auto
termination by (relation "measure (\<lambda>(al, out, buflen). length out + 2 - buflen)") auto

declare vprintf_loop.simps [simp del]

definition sdscatvprintf :: "allocator \<Rightarrow> sdshdr \<Rightarrow> string \<Rightarrow> sdshdr res" where
  "sdscatvprintf al s out = bindr (vprintf_loop al out 16) (\<lambda>buf. sdscat al s buf)"

lemma cstr_no_nul: "NUL \<notin> set s \<Longrightarrow> cstr (s @ NUL # t) = s"
  by (auto simp: cstr_def takeWhile_append)

lemma vprintf_loop_spec:
  "NUL \<notin> set out \<Longrightarrow> 2 \<le> buflen \<Longrightarrow>
     returns (may_fail al) (vprintf_loop al out buflen) (\<lambda>buf. cstr buf = out)"
proof (induction al out buflen rule: vprintf_loop.induct)
  case (1 al out buflen)
  show ?case
  proof (cases "al buflen")
    case None
    then show ?thesis by (simp add: vprintf_loop.simps)
  next
    case (Some b)
    show ?thesis
    proof (cases "buflen - 2 < length out")
      case True
      then have "out ! (buflen - 2) \<in> set out" by (rule nth_mem)
      then have "out ! (buflen - 2) \<noteq> NUL" using "1.prems" by auto
      with Some True "1.prems" have "returns (may_fail al) (vprintf_loop al out (buflen * 2)) (\<lambda>buf. cstr buf = out)"
        and "vprintf_loop al out buflen = vprintf_loop al out (buflen * 2)"
        by (auto intro: "1.IH" simp: vprintf_loop.simps [of al out buflen])
      then show ?thesis by simp
    next
      case False
      with Some "1.prems" have "vprintf_loop al out buflen = Inr (vsnprintf_buf buflen out)"
        by (subst vprintf_loop.simps) simp
      with False "1.prems" show ?thesis by (simp add: vsnprintf_buf_def cstr_no_nul)
    qed
  qed
qed

lemma sdscatvprintf_spec:
  assumes "alloc_ok al" "sds_ok s" "sds_fits (sdslen s + length out)" "NUL \<notin> set out"
  shows "returns (may_fail al) (sdscatvprintf al s out) (\<lambda>s'. sds_ok s' \<and> sds_val s' = sds_val s @ out)"
  unfolding sdscatvprintf_def
proof (rule returns_bind [OF vprintf_loop_spec [OF assms(4)]])
  fix buf assume "cstr buf = out"
  with sdscat_spec [OF assms(1,2), of buf] assms(3)
  show "returns (may_fail al) (sdscat al s buf) (\<lambda>s'. sds_ok s' \<and> sds_val s' = sds_val s @ out)"
    by simp
qed simp

section \<open>Quoted representation\<close>

definition hex_char :: "nat \<Rightarrow> char" where
  "hex_char d = (if d < 10 then char_of (48 + d) else char_of (87 + d))"

text \<open>What one byte contributes, with the printf formats \<open>\\%c\<close>, \<open>%c\<close> and \<open>\x%02x\<close>.\<close>

definition repr_byte :: "allocator \<Rightarrow> sdshdr \<Rightarrow> char \<Rightarrow> sdshdr res" where
  "repr_byte al s p =
     (if p = BSLASH \<or> p = DQUOTE then sdscatvprintf al s [BSLASH, p]
      else if p = LF then sdscatlen al s [BSLASH, CHR ''n''] 2
      else if p = CR then sdscatlen al s [BSLASH, CHR ''r''] 2
      else if p = TAB then sdscatlen al s [BSLASH, CHR ''t''] 2
      else if p = CHR 0x07 then sdscatlen al s [BSLASH, CHR ''a''] 2
      else if p = CHR 0x08 then sdscatlen al s [BSLASH, CHR ''b''] 2
      else if isprint p then sdscatvprintf al s [p]
      else sdscatvprintf al s
             [BSLASH, CHR ''x'', hex_char (byte_of p div 16), hex_char (byte_of p mod 16)])"

fun repr_loop :: "allocator \<Rightarrow> sdshdr res \<Rightarrow> string \<Rightarrow> sdshdr res" where
  "repr_loop al s [] = s"
| "repr_loop al s (p # ps) = repr_loop al (bindr (deref s) (\<lambda>s. repr_byte al s p)) ps"

definition sdscatrepr :: "allocator \<Rightarrow> sdshdr \<Rightarrow> string \<Rightarrow> nat \<Rightarrow> sdshdr res" where
  "sdscatrepr al s p len =
     bindr (deref (repr_loop al (sdscatlen al s [DQUOTE] 1) (take len p))) (\<lambda>s.
     sdscatlen al s [DQUOTE] 1)"

text \<open>The text the loop appends for one byte.\<close>

definition repr_text :: "char \<Rightarrow> string" where
  "repr_text p =
     (if p = BSLASH \<or> p = DQUOTE then [BSLASH, p]
      else if p = LF then [BSLASH, CHR ''n'']
      else if p = CR then [BSLASH, CHR ''r'']
      else if p = TAB then [BSLASH, CHR ''t'']
      else if p = CHR 0x07 then [BSLASH, CHR ''a'']
      else if p = CHR 0x08 then [BSLASH, CHR ''b'']
      else if isprint p then [p]
      else [BSLASH, CHR ''x'', hex_char (byte_of p div 16), hex_char (byte_of p mod 16)])"

definition repr_string :: "string \<Rightarrow> string" where
  "repr_string xs = [DQUOTE] @ concat (map repr_text xs) @ [DQUOTE]"

lemma length_repr_string: "length p \<le> length (repr_string p)"
proof (induction p)
  case (Cons a p)
  have "1 \<le> length (repr_text a)" by (simp add: repr_text_def)
  with Cons show ?case by (simp add: repr_string_def)
qed (simp add: repr_string_def)

lemma byte_of_hex_char: "d < 16 \<Longrightarrow> byte_of (hex_char d) = (if d < 10 then 48 + d else 87 + d)"
  by (simp add: hex_char_def of_char_of)

lemma hex_halves: "byte_of p div 16 < 16" "byte_of p mod 16 < 16"
  by (simp_all add: less_mult_imp_div_less)

lemma repr_text_no_nul: "NUL \<notin> set (repr_text p)"
proof -
  have "hex_char (byte_of p div 16) \<noteq> NUL" "hex_char (byte_of p mod 16) \<noteq> NUL"
    unfolding char_eq_byte byte_of_hex_char [OF hex_halves(1)] byte_of_hex_char [OF hex_halves(2)] by simp_all
  moreover have "isprint NUL = False" by (simp add: isprint_def)
  ultimately show ?thesis unfolding repr_text_def by auto
qed

lemma repr_byte_text:
  "repr_byte al s p =
     (if p = LF \<or> p = CR \<or> p = TAB \<or> p = CHR 0x07 \<or> p = CHR 0x08
      then sdscatlen al s (repr_text p) 2 else sdscatvprintf al s (repr_text p))"
  by (simp add: repr_byte_def repr_text_def)

lemma repr_byte_spec:
  assumes "alloc_ok al" "\<not> may_fail al" "sds_ok s" "sds_fits (sdslen s + length (repr_text p))"
  shows "\<exists>s'. repr_byte al s p = Inr s' \<and> sds_ok s' \<and> sds_val s' = sds_val s @ repr_text p"
proof -
  have v: "NUL \<notin> set t \<Longrightarrow> sds_fits (sdslen s + length t) \<Longrightarrow>
      \<exists>s'. sdscatvprintf al s t = Inr s' \<and> sds_ok s' \<and> sds_val s' = sds_val s @ t" for t
    using sdscatvprintf_spec [OF assms(1,3)] assms(2) by (auto dest!: returns_total)
  have c: "sds_fits (sdslen s + length t) \<Longrightarrow> length t = 2 \<Longrightarrow>
      \<exists>s'. sdscatlen al s t 2 = Inr s' \<and> sds_ok s' \<and> sds_val s' = sds_val s @ t" for t
    using sdscatlen_spec [OF assms(1,3), of 2 t] assms(2) by (auto dest!: returns_total)
  have "p = LF \<or> p = CR \<or> p = TAB \<or> p = CHR 0x07 \<or> p = CHR 0x08 \<Longrightarrow> length (repr_text p) = 2"
    by (auto simp: repr_text_def)
  then show ?thesis
    using v [OF repr_text_no_nul assms(4)] c [OF assms(4)] by (simp add: repr_byte_text)
qed

lemma repr_loop_spec:
  assumes "alloc_ok al" "\<not> may_fail al"
  shows "sds_ok s \<Longrightarrow> sds_fits (sdslen s + length (concat (map repr_text ps))) \<Longrightarrow>
    \<exists>s'. repr_loop al (Inr s) ps = Inr s' \<and> sds_ok s' \<and> sds_val s' = sds_val s @ concat (map repr_text ps)"
proof (induction ps arbitrary: s)
  case (Cons p ps)
  have "sds_fits (sdslen s + length (repr_text p))"
    using Cons.prems(2) by (rule sds_fits_mono) simp
  then obtain s1 where s1: "repr_byte al s p = Inr s1" "sds_ok s1" "sds_val s1 = sds_val s @ repr_text p"
    using repr_byte_spec [OF assms Cons.prems(1)] by blast
  with Cons.prems have "sds_fits (sdslen s1 + length (concat (map repr_text ps)))"
    by (simp add: sdslen_val add.assoc)
  from Cons.IH [OF s1(2) this] s1 show ?case by auto
qed simp

lemma sdscatrepr_spec:
  assumes al: "alloc_ok al" "\<not> may_fail al" and s: "sds_ok s" and n: "n \<le> length p"
    and fits: "sds_fits (sdslen s + length (repr_string (take n p)))"
  shows "\<exists>s'. sdscatrepr al s p n = Inr s' \<and> sds_ok s' \<and> sds_val s' = sds_val s @ repr_string (take n p)"
proof -
  have "sds_fits (sdslen s + length [DQUOTE])" using fits by (rule sds_fits_mono) (simp add: repr_string_def)
  with al s obtain s1 where s1: "sdscatbytes al s [DQUOTE] = Inr s1" "sds_ok s1" "sds_val s1 = sds_val s @ [DQUOTE]"
    by (rule sdscatbytes_total)
  then have "sds_fits (sdslen s1 + length (concat (map repr_text (take n p))))"
    using fits s by (auto simp: repr_string_def sdslen_val elim!: sds_fits_mono)
  from repr_loop_spec [OF al s1(2) this] obtain s2 where s2: "repr_loop al (Inr s1) (take n p) = Inr s2"
    "sds_ok s2" "sds_val s2 = sds_val s1 @ concat (map repr_text (take n p))" by blast
  then have "sds_fits (sdslen s2 + length [DQUOTE])"
    using fits s s1 by (auto simp: repr_string_def sdslen_val elim!: sds_fits_mono)
  with al s2(2) obtain s3 where "sdscatbytes al s2 [DQUOTE] = Inr s3" "sds_ok s3" "sds_val s3 = sds_val s2 @ [DQUOTE]"
    by (rule sdscatbytes_total)
  with s1 s2 show ?thesis
    by (simp add: sdscatrepr_def sdscatlen_bytes repr_string_def)
qed


section \<open>The argument splitter\<close>

definition is_hex_digit :: "char \<Rightarrow> bool" where
  "is_hex_digit c \<longleftrightarrow> (48 \<le> byte_of c \<and> byte_of c \<le> 57) \<or> (97 \<le> byte_of c \<and> byte_of c \<le> 102) \<or>
     (65 \<le> byte_of c \<and> byte_of c \<le> 70)"

definition hex_digit_to_int :: "char \<Rightarrow> nat" where
  "hex_digit_to_int c =
     (if 48 \<le> byte_of c \<and> byte_of c \<le> 57 then byte_of c - 48
      else if 97 \<le> byte_of c \<and> byte_of c \<le> 102 then byte_of c - 87
      else if 65 \<le> byte_of c \<and> byte_of c \<le> 70 then byte_of c - 55
      else 0)"

definition unescape :: "char \<Rightarrow> char" where
  "unescape c =
     (if c = CHR ''n'' then LF else if c = CHR ''r'' then CR else if c = CHR ''t'' then TAB
      else if c = CHR ''b'' then CHR 0x08 else if c = CHR ''a'' then CHR 0x07 else c)"

datatype quote_mode = NoQuote | InQ | InSQ

definition hex_escape :: "string \<Rightarrow> bool" where
  "hex_escape q \<longleftrightarrow> (case q of x # h1 # h2 # _ \<Rightarrow> x = CHR ''x'' \<and> is_hex_digit h1 \<and> is_hex_digit h2 | _ \<Rightarrow> False)"

text \<open>
  The loop \<open>while(!done)\<close> that collects one token from the C string at \<open>p\<close> (its bytes up to
  the NUL).  It returns the token and the rest of the line, or \<open>None\<close> on the \<open>goto err\<close>
  paths: unterminated quotes, or a closing quote followed by a non-space.  A failed append is
  reported where it happens; the code goes on with the NULL pointer it got and dereferences it
  at the next append.
\<close>

function (sequential) args_token ::
    "allocator \<Rightarrow> quote_mode \<Rightarrow> sdshdr \<Rightarrow> string \<Rightarrow> ((sdshdr \<times> string) option) res" where
  "args_token al InQ current [] = Inr None"
| "args_token al InQ current (c # q) =
     (if c = BSLASH \<and> hex_escape q then
        bindr (sdscatlen al current [char_of (hex_digit_to_int (q ! 1) * 16 + hex_digit_to_int (q ! 2))] 1)
          (\<lambda>current. args_token al InQ current (drop 3 q))
      else if c = BSLASH \<and> q \<noteq> [] then
        bindr (sdscatlen al current [unescape (hd q)] 1) (\<lambda>current. args_token al InQ current (drop 1 q))
      else if c = DQUOTE then
        if q \<noteq> [] \<and> \<not> isspace (hd q) then Inr None else Inr (Some (current, q))
      else bindr (sdscatlen al current [c] 1) (\<lambda>current. args_token al InQ current q))"
| "args_token al InSQ current [] = Inr None"
| "args_token al InSQ current (c # q) =
     (if c = BSLASH \<and> q \<noteq> [] \<and> hd q = SQUOTE then
        bindr (sdscatlen al current [SQUOTE] 1) (\<lambda>current. args_token al InSQ current (drop 1 q))
      else if c = SQUOTE then
        if q \<noteq> [] \<and> \<not> isspace (hd q) then Inr None else Inr (Some (current, q))
      else bindr (sdscatlen al current [c] 1) (\<lambda>current. args_token al InSQ current q))"
| "args_token al NoQuote current [] = Inr (Some (current, []))"
| "args_token al NoQuote current (c # q) =
     (if c = CHR '' '' \<or> c = LF \<or> c = CR \<or> c = TAB then Inr (Some (current, q))
      else if c = DQUOTE then args_token al InQ current q
      else if c = SQUOTE then args_token al InSQ current q
      else bindr (sdscatlen al current [c] 1) (\<lambda>current. args_token al NoQuote current q))"
  by pat_completeness auto
termination by (relation "measure (\<lambda>(al, m, current, p). length p)") auto

lemma args_token_shrinks:
  "args_token al m current p = Inr (Some (t, r)) \<Longrightarrow> length r \<le> length p \<and> (p \<noteq> [] \<longrightarrow> length r < length p)"
proof (induction al m current p rule: args_token.induct)
  case (2 al current c q)
  then show ?case by (fastforce simp: bindr_Inr_iff split: if_splits)
next
  case (4 al current c q)
  then show ?case by (fastforce simp: bindr_Inr_iff split: if_splits)
next
  case (6 al current c q)
  then show ?case by (fastforce simp: bindr_Inr_iff split: if_splits)
qed auto

text \<open>The outer loop; \<open>realloc\<close> of the vector is not checked by the code.\<close>

function args_loop :: "allocator \<Rightarrow> sdshdr list \<Rightarrow> string \<Rightarrow> (sdshdr list option) res" where
  "args_loop al vector p =
     (let p1 = dropWhile isspace p in
      if p1 = [] then Inr (Some vector)
      else
        bindr (deref (sdsempty al)) (\<lambda>current.
        bindr (args_token al NoQuote current p1) (\<lambda>r.
        case r of
          None \<Rightarrow> Inr None
        | Some (tok, rest) \<Rightarrow>
            if al (8 * (length vector + 1)) = None then Inl OutOfBounds
            else args_loop al (vector @ [tok]) rest)))"
  by pat_completeness auto
termination
proof (relation "measure (\<lambda>(al, vector, p). length p)", goal_cases)
  case (2 al vector p p1 current r tokrest tok rest)
  then have "length rest < length p1"
    using args_token_shrinks [of al NoQuote current p1 tok rest] by simp
  also have "length p1 \<le> length p" using 2 by (simp add: length_dropWhile_le)
  finally show ?case by simp
qed simp

declare args_loop.simps [simp del]

definition sdssplitargs :: "allocator \<Rightarrow> string \<Rightarrow> (sdshdr list option) res" where
  "sdssplitargs al line = args_loop al [] (cstr line)"

lemma hex_digit_round_trip:
  assumes "d < 16"
  shows "is_hex_digit (hex_char d)" "hex_digit_to_int (hex_char d) = d"
  using assms by (auto simp: is_hex_digit_def hex_digit_to_int_def byte_of_hex_char)

text \<open>Inside quotes, the representation of a byte is read back as that byte.\<close>

lemma isprint_cases:
  "isprint BSLASH" "isprint DQUOTE" "\<not> isprint LF" "\<not> isprint CR" "\<not> isprint TAB"
  "\<not> isprint (CHR 0x07)" "\<not> isprint (CHR 0x08)"
  by (simp_all add: isprint_def)

lemma args_token_hex:
  assumes "d < 16" "e < 16" "c = char_of (d * 16 + e)"
  shows "args_token al InQ current (BSLASH # CHR ''x'' # hex_char d # hex_char e # q) =
     bindr (sdscatlen al current [c] 1) (\<lambda>current. args_token al InQ current q)"
  using assms by (simp add: hex_escape_def hex_digit_round_trip)

lemma not_hex_escape: "e \<noteq> CHR ''x'' \<Longrightarrow> \<not> hex_escape (e # q)"
  by (simp add: hex_escape_def split: list.split)

lemma args_token_escape:
  assumes "e \<noteq> CHR ''x''"
  shows "args_token al InQ current (BSLASH # e # q) =
     bindr (sdscatlen al current [unescape e] 1) (\<lambda>current. args_token al InQ current q)"
  using assms by (simp add: not_hex_escape)

lemma unescape_simps [simp]:
  "unescape BSLASH = BSLASH" "unescape DQUOTE = DQUOTE" "unescape (CHR ''n'') = LF" "unescape (CHR ''r'') = CR"
  "unescape (CHR ''t'') = TAB" "unescape (CHR ''a'') = CHR 0x07" "unescape (CHR ''b'') = CHR 0x08"
  by (simp_all add: unescape_def)

lemma args_token_repr_text:
  "args_token al InQ current (repr_text c @ q) =
     bindr (sdscatlen al current [c] 1) (\<lambda>current. args_token al InQ current q)"
proof -
  consider "c = BSLASH \<or> c = DQUOTE" | "c = LF \<or> c = CR \<or> c = TAB \<or> c = CHR 0x07 \<or> c = CHR 0x08"
    | (print) "isprint c" "c \<noteq> BSLASH" "c \<noteq> DQUOTE"
    | (hex) "\<not> isprint c" "c \<noteq> LF" "c \<noteq> CR" "c \<noteq> TAB" "c \<noteq> CHR 0x07" "c \<noteq> CHR 0x08"
    by blast
  then show ?thesis
  proof cases
    case print
    then have "c \<noteq> LF" "c \<noteq> CR" "c \<noteq> TAB" "c \<noteq> CHR 0x07" "c \<noteq> CHR 0x08" using isprint_cases by auto
    with print show ?thesis by (simp add: repr_text_def)
  next
    case hex
    then have "c \<noteq> BSLASH" "c \<noteq> DQUOTE" using isprint_cases by auto
    with hex have r: "repr_text c = [BSLASH, CHR ''x'', hex_char (byte_of c div 16), hex_char (byte_of c mod 16)]"
      by (simp add: repr_text_def)
    have "c = char_of (byte_of c div 16 * 16 + byte_of c mod 16)" by (simp only: div_mult_mod_eq char_of_char)
    from args_token_hex [OF hex_halves this] show ?thesis unfolding r append_Cons append_Nil .
  next
    case 1
    then show ?thesis by (elim disjE) (simp_all add: repr_text_def args_token_escape not_hex_escape)
  next
    case 2
    then show ?thesis by (elim disjE) (simp_all add: repr_text_def args_token_escape not_hex_escape)
  qed
qed

lemma args_token_repr:
  assumes al: "alloc_ok al" "\<not> may_fail al" and rest: "rest \<noteq> [] \<longrightarrow> isspace (hd rest)"
  shows "sds_ok s \<Longrightarrow> sds_fits (sdslen s + length xs) \<Longrightarrow>
    \<exists>t. args_token al InQ s (concat (map repr_text xs) @ DQUOTE # rest) = Inr (Some (t, rest)) \<and>
        sds_ok t \<and> sds_val t = sds_val s @ xs"
proof (induction xs arbitrary: s)
  case Nil
  with rest show ?case by (auto simp: hex_escape_def)
next
  case (Cons x xs)
  have "sds_fits (sdslen s + length [x])" using Cons.prems(2) by (rule sds_fits_mono) simp
  with al Cons.prems(1) obtain s1 where s1: "sdscatbytes al s [x] = Inr s1" "sds_ok s1" "sds_val s1 = sds_val s @ [x]"
    by (rule sdscatbytes_total)
  with Cons.prems have "sds_fits (sdslen s1 + length xs)" by (simp add: sdslen_val)
  from Cons.IH [OF s1(2) this] s1 show ?case
    by (simp add: args_token_repr_text sdscatlen_bytes)
qed

lemma sdssplitargs_repr:
  assumes al: "alloc_ok al" "\<not> may_fail al" and fits: "sds_fits (length xs)"
  shows "\<exists>t. sdssplitargs al (repr_string xs) = Inr (Some [t]) \<and> sds_ok t \<and> sds_val t = xs"
proof -
  have line: "cstr (repr_string xs) = DQUOTE # concat (map repr_text xs) @ [DQUOTE]"
    using repr_text_no_nul by (subst cstr_id) (auto simp: repr_string_def)
  have sp: "\<not> isspace DQUOTE" by (simp add: isspace_def)
  obtain e where e: "sdsempty al = Inr e" "sds_ok e" "sds_val e = []" using al by (rule sdsempty_total)
  then have "sds_fits (sdslen e + length xs)" using fits by (simp add: sdslen_val)
  from args_token_repr [OF al _ e(2) this, of "[]"] e obtain t where t: "sds_ok t" "sds_val t = xs"
    "args_token al InQ e (concat (map repr_text xs) @ [DQUOTE]) = Inr (Some (t, []))" by auto
  have a: "al n \<noteq> None" for n using al(2) by (auto simp: may_fail_def)
  have "args_loop al [t] [] = Inr (Some [t])" by (subst args_loop.simps) simp
  with t e a [of 8] have "args_loop al [] (DQUOTE # concat (map repr_text xs) @ [DQUOTE]) = Inr (Some [t])"
    by (subst args_loop.simps) (simp add: sp)
  with t show ?thesis by (simp add: sdssplitargs_def line)
qed

section \<open>Properties\<close>

text \<open>C13: \<open>sdssplitargs\<close> reads what \<open>sdscatrepr\<close> writes: the quoted representation of any bytes,
  appended to an empty string, splits into exactly one argument with those bytes.\<close>

theorem sdscatrepr_sdssplitargs:
  assumes al: "alloc_ok al" "\<not> may_fail al" and s: "sds_ok s" "sds_val s = []"
    and fits: "sds_fits (length (repr_string p))"
  shows "\<exists>s' t. sdscatrepr al s p (length p) = Inr s' \<and> sdssplitargs al (sds_val s') = Inr (Some [t]) \<and>
    sds_ok t \<and> sds_val t = p"
proof -
  have f: "sds_fits (length p)" using fits by (rule sds_fits_mono) (rule length_repr_string)
  have "sds_fits (sdslen s + length (repr_string (take (length p) p)))" using s fits by (simp add: sdslen_val)
  from sdscatrepr_spec [OF al s(1) le_refl this] s sdssplitargs_repr [OF al f] show ?thesis by auto
qed

theorem sdscatrepr_sdssplitargs_witness:
  "\<exists>s' t. sdscatrepr (fill_alloc NUL) \<lparr>sh_len = 0, sh_free = 0, sh_buf = [NUL]\<rparr> [NUL, DQUOTE, CHR 0xFF] (Suc 2) = Inr s' \<and>
    sdssplitargs (fill_alloc NUL) (sds_val s') = Inr (Some [t]) \<and> sds_ok t \<and> sds_val t = [NUL, DQUOTE, CHR 0xFF]"
proof -
  have "sds_ok \<lparr>sh_len = 0, sh_free = 0, sh_buf = [NUL]\<rparr>" "sds_val \<lparr>sh_len = 0, sh_free = 0, sh_buf = [NUL]\<rparr> = []"
    by (simp_all add: sds_ok_def sds_layout_def INT_MAX_def sds_val_def)
  moreover have "sds_fits (length (repr_string [NUL, DQUOTE, CHR 0xFF]))"
    by (simp add: sds_fits_def repr_string_def repr_text_def isprint_def)
  ultimately show ?thesis
    using sdscatrepr_sdssplitargs [OF fill_alloc_ok fill_alloc_never_fails,
      of "\<lparr>sh_len = 0, sh_free = 0, sh_buf = [NUL]\<rparr>" "[NUL, DQUOTE, CHR 0xFF]" NUL] by (simp add: numeral_2_eq_2)
qed

end
