(* ===== verification/Reader.thy ===== *)
theory Reader
  imports Reply SdsRepr
begin

text \<open>
  The protocol reader \<open>read.c\<close>: the buffer and its cursor, the stack of read tasks, and the loop that
  processes the items of a reply as far as the buffer holds them.  Pointers into the buffer are offsets
  into the bytes of its sds block, so that every read of the code is a checked read here.
\<close>

section \<open>State\<close>

definition REDIS_ERR_IO :: nat where "REDIS_ERR_IO = 1"
definition REDIS_ERR_OTHER :: nat where "REDIS_ERR_OTHER = 2"
definition REDIS_ERR_EOF :: nat where "REDIS_ERR_EOF = 3"
definition REDIS_ERR_PROTOCOL :: nat where "REDIS_ERR_PROTOCOL = 4"
definition REDIS_ERR_OOM :: nat where "REDIS_ERR_OOM = 5"

lemmas redis_errors = REDIS_ERR_IO_def REDIS_ERR_OTHER_def REDIS_ERR_EOF_def REDIS_ERR_PROTOCOL_def REDIS_ERR_OOM_def

datatype status = REDIS_OK | REDIS_ERR

definition REDIS_READER_MAX_BUF :: nat where "REDIS_READER_MAX_BUF = 16384"

record redisReader =
  r_err :: nat
  r_errstr :: string
  r_buf :: "sdshdr option"
  r_pos :: nat
  r_len :: nat
  r_maxbuf :: nat
  r_rstack :: "redisReadTask list"
  r_ridx :: int
  r_reply :: "robj option"
  r_fn :: redisReplyObjectFunctions

abbreviation cur_task :: "redisReader \<Rightarrow> redisReadTask" where
  "cur_task r \<equiv> r_rstack r ! nat (r_ridx r)"

abbreviation set_task :: "redisReader \<Rightarrow> nat \<Rightarrow> redisReadTask \<Rightarrow> redisReader" where
  "set_task r i t \<equiv> r\<lparr>r_rstack := (r_rstack r)[i := t]\<rparr>"

section \<open>Errors\<close>

definition redisReaderSetError :: "redisReader \<Rightarrow> nat \<Rightarrow> string \<Rightarrow> reply_heap \<Rightarrow> (redisReader \<times> reply_heap) res" where
  "redisReaderSetError r type str h =
     bindr (case (r_reply r, freeObject (r_fn r)) of
              (Some o1, Some f) \<Rightarrow> bindr (f (Some o1) h) (\<lambda>h. Inr (r\<lparr>r_reply := None\<rparr>, h))
            | _ \<Rightarrow> Inr (r, h)) (\<lambda>(r, h).
     let r = (if r_buf r = None then r else r\<lparr>r_buf := None, r_pos := 0, r_len := 0\<rparr>) in
     Inr (r\<lparr>r_ridx := - 1, r_err := type, r_errstr := take 127 (cstr str)\<rparr>, h))"

text \<open>\<open>chrtos\<close> into a buffer of \<open>n\<close> bytes: \<open>snprintf\<close> stores at most \<open>n - 1\<close> of them.\<close>

definition chrtos :: "nat \<Rightarrow> char \<Rightarrow> string" where
  "chrtos n byte =
     take (n - 1)
      (if byte = BSLASH \<or> byte = DQUOTE then [DQUOTE, BSLASH, byte, DQUOTE]
       else if byte = LF then [DQUOTE, BSLASH, CHR ''n'', DQUOTE]
       else if byte = CR then [DQUOTE, BSLASH, CHR ''r'', DQUOTE]
       else if byte = TAB then [DQUOTE, BSLASH, CHR ''t'', DQUOTE]
       else if byte = CHR 0x07 then [DQUOTE, BSLASH, CHR ''a'', DQUOTE]
       else if byte = CHR 0x08 then [DQUOTE, BSLASH, CHR ''b'', DQUOTE]
       else if isprint byte then [DQUOTE, byte, DQUOTE]
       else [DQUOTE, BSLASH, CHR ''x'', hex_char (byte_of byte div 16), hex_char (byte_of byte mod 16), DQUOTE])"

definition redisReaderSetErrorProtocolByte :: "redisReader \<Rightarrow> char \<Rightarrow> reply_heap \<Rightarrow> (redisReader \<times> reply_heap) res" where
  "redisReaderSetErrorProtocolByte r byte h =
     redisReaderSetError r REDIS_ERR_PROTOCOL
       (take 127 (''Protocol error, got '' @ chrtos 8 byte @ '' as reply type byte'')) h"

definition redisReaderSetErrorOOM :: "redisReader \<Rightarrow> reply_heap \<Rightarrow> (redisReader \<times> reply_heap) res" where
  "redisReaderSetErrorOOM r h = redisReaderSetError r REDIS_ERR_OOM ''Out of memory'' h"

section \<open>Reading from the buffer\<close>

definition buf_bytes :: "redisReader \<Rightarrow> string" where
  "buf_bytes r = (case r_buf r of None \<Rightarrow> [] | Some s \<Rightarrow> sh_buf s)"

text \<open>The offset of the bytes read, and the reader with its cursor after them.\<close>

definition readBytes :: "redisReader \<Rightarrow> nat \<Rightarrow> (nat \<times> redisReader) option" where
  "readBytes r bytes =
     (if bytes \<le> size_t (int (r_len r) - int (r_pos r)) then Some (r_pos r, r\<lparr>r_pos := r_pos r + bytes\<rparr>) else None)"

text \<open>The inner loop of \<open>seekNewline\<close>: advance to a CR or to \<open>_len\<close>.\<close>

function skip_to_cr :: "string \<Rightarrow> int \<Rightarrow> int \<Rightarrow> int res" where
  "skip_to_cr s pos len1 =
     (if pos < len1 then bindr (mem_get s (nat pos)) (\<lambda>c. if c \<noteq> CR then skip_to_cr s (pos + 1) len1 else Inr pos)
      else Inr pos)"
  by pat_completeness auto
termination by (relation "measure (\<lambda>(s, pos, len1). nat (len1 - pos))") auto

declare skip_to_cr.simps [simp del]

lemma skip_to_cr_mono: "skip_to_cr s pos len1 = Inr p \<Longrightarrow> pos \<le> p"
proof (induction s pos len1 rule: skip_to_cr.induct)
  case (1 s pos len1)
  show ?case
  proof (cases "pos < len1 \<and> nat pos < length s \<and> s ! nat pos \<noteq> CR")
    case True
    with "1.prems" have "skip_to_cr s (pos + 1) len1 = Inr p" by (subst (asm) skip_to_cr.simps) simp
    with "1.IH" [of "s ! nat pos"] True show ?thesis by simp
  next
    case False
    with "1.prems" show ?thesis
      by (subst (asm) skip_to_cr.simps) (auto simp: mem_get_def split: if_splits)
  qed
qed

text \<open>\<open>s\<close> is the memory from the start of the search on; \<open>_len\<close> is \<open>len-1\<close> converted to \<open>int\<close>.  Note
  that \<open>s[pos+1]\<close> may be the byte after the searched range.\<close>

function seek_loop :: "string \<Rightarrow> int \<Rightarrow> int \<Rightarrow> (nat option) res" where
  "seek_loop s pos len1 =
     (if pos < len1 then
        bindr (skip_to_cr s pos len1) (\<lambda>pos'.
        bindr (mem_get s (nat pos')) (\<lambda>c.
        if c \<noteq> CR then Inr None
        else
          bindr (mem_get s (nat (pos' + 1))) (\<lambda>d.
          if d = LF then Inr (Some (nat pos')) else seek_loop s (pos' + 1) len1)))
      else Inr None)"
  by pat_completeness auto
termination
proof (relation "measure (\<lambda>(s, pos, len1). nat (len1 - pos))", goal_cases)
  case (2 s pos len1 pos' c d)
  then show ?case using skip_to_cr_mono [of s pos len1 pos'] by simp
qed simp

declare seek_loop.simps [simp del]

definition seekNewline :: "string \<Rightarrow> nat \<Rightarrow> (nat option) res" where
  "seekNewline s len = seek_loop s 0 (int32 (int len - 1))"

text \<open>The digits of \<open>readLongLong\<close>; \<open>None\<close> is its early \<open>return -1\<close>.  Arithmetic wraps at 64 bits, as compilers for
  the usual machines do it; the C standard leaves the overflow undefined that reading the digits of \<open>LLONG_MIN\<close> causes.\<close>

fun long_digits :: "string \<Rightarrow> int \<Rightarrow> (int option) res" where
  "long_digits [] v = Inl OutOfBounds"
| "long_digits (c # s) v =
     (if c = CR then Inr (Some v)
      else if isdigit c then long_digits s (int64 (int64 (v * 10) + (int (byte_of c) - 48)))
      else Inr None)"

definition readLongLong :: "string \<Rightarrow> int res" where
  "readLongLong s =
     bindr (mem_get s 0) (\<lambda>c.
     let mult = (if c = CHR ''-'' then - 1 else 1);
         s = (if c = CHR ''-'' \<or> c = CHR ''+'' then drop 1 s else s)
     in bindr (long_digits s 0) (\<lambda>r.
        case r of None \<Rightarrow> Inr (- 1) | Some v \<Rightarrow> Inr (int64 (mult * v))))"

text \<open>\<open>readLine\<close>: the offset and the length of the line, with the cursor after its CR LF.\<close>

definition readLine :: "redisReader \<Rightarrow> ((nat \<times> nat \<times> redisReader) option) res" where
  "readLine r =
     bindr (seekNewline (drop (r_pos r) (buf_bytes r)) (size_t (int (r_len r) - int (r_pos r)))) (\<lambda>s.
     case s of
       None \<Rightarrow> Inr None
     | Some len \<Rightarrow> Inr (Some (r_pos r, len, r\<lparr>r_pos := r_pos r + len + 2\<rparr>)))"

section \<open>Tasks\<close>

function moveToNextTask :: "redisReader \<Rightarrow> redisReader res" where
  "moveToNextTask r =
     (if r_ridx r < 0 then Inr r
      else if r_ridx r = 0 then Inr (r\<lparr>r_ridx := r_ridx r - 1\<rparr>)
      else
        bindr (mem_get (r_rstack r) (nat (r_ridx r))) (\<lambda>cur.
        bindr (mem_get (r_rstack r) (nat (r_ridx r - 1))) (\<lambda>prv.
        bindr (check AssertFailed (t_type prv = REDIS_REPLY_ARRAY)) (\<lambda>_.
        if t_idx cur = t_elements prv - 1 then moveToNextTask (r\<lparr>r_ridx := r_ridx r - 1\<rparr>)
        else
          bindr (check AssertFailed (t_idx cur < t_elements prv)) (\<lambda>_.
          Inr (set_task r (nat (r_ridx r)) (cur\<lparr>t_type := - 1, t_elements := - 1, t_idx := t_idx cur + 1\<rparr>)))))))"
  by pat_completeness auto
termination by (relation "measure (\<lambda>r. nat (r_ridx r + 1))") auto

declare moveToNextTask.simps [simp del]

type_synonym item_result = "(status \<times> redisReader \<times> reply_heap) res"

text \<open>The end of the item functions: a NULL object is out of memory; otherwise the object is the reply when
  it is the root, and the reader moves on.\<close>

definition oom :: "redisReader \<Rightarrow> reply_heap \<Rightarrow> item_result" where
  "oom r h = bindr (redisReaderSetErrorOOM r h) (\<lambda>(r, h). Inr (REDIS_ERR, r, h))"

definition deliver :: "redisReader \<Rightarrow> robj \<Rightarrow> reply_heap \<Rightarrow> item_result" where
  "deliver r obj h =
     (let r = (if r_ridx r = 0 then r\<lparr>r_reply := Some obj\<rparr> else r) in
      bindr (moveToNextTask r) (\<lambda>r. Inr (REDIS_OK, r, h)))"

definition task_at :: "redisReader \<Rightarrow> task_ptr" where
  "task_at r = (r_rstack r, nat (r_ridx r))"

definition make_string :: "redisReader \<Rightarrow> string \<Rightarrow> nat \<Rightarrow> int \<Rightarrow> reply_heap \<Rightarrow> (robj option \<times> reply_heap) res" where
  "make_string r str len tag h =
     (case createString (r_fn r) of Some f \<Rightarrow> f (task_at r) str len h | None \<Rightarrow> Inr (Some (ObjTag tag), h))"

definition make_nil :: "redisReader \<Rightarrow> reply_heap \<Rightarrow> (robj option \<times> reply_heap) res" where
  "make_nil r h = (case createNil (r_fn r) of Some f \<Rightarrow> f (task_at r) h | None \<Rightarrow> Inr (Some (ObjTag REDIS_REPLY_NIL), h))"

definition make_integer :: "redisReader \<Rightarrow> int \<Rightarrow> reply_heap \<Rightarrow> (robj option \<times> reply_heap) res" where
  "make_integer r v h =
     (case createInteger (r_fn r) of Some f \<Rightarrow> f (task_at r) v h | None \<Rightarrow> Inr (Some (ObjTag REDIS_REPLY_INTEGER), h))"

definition make_array :: "redisReader \<Rightarrow> int \<Rightarrow> reply_heap \<Rightarrow> (robj option \<times> reply_heap) res" where
  "make_array r n h =
     (case createArray (r_fn r) of Some f \<Rightarrow> f (task_at r) (int32 n) h | None \<Rightarrow> Inr (Some (ObjTag REDIS_REPLY_ARRAY), h))"

definition processLineItem :: "redisReader \<Rightarrow> reply_heap \<Rightarrow> item_result" where
  "processLineItem r h =
     bindr (mem_get (r_rstack r) (nat (r_ridx r))) (\<lambda>cur.
     bindr (readLine r) (\<lambda>line.
     case line of
       None \<Rightarrow> Inr (REDIS_ERR, r, h)
     | Some (p, len, r) \<Rightarrow>
         bindr (if t_type cur = REDIS_REPLY_INTEGER
                then bindr (readLongLong (drop p (buf_bytes r))) (\<lambda>v. make_integer r v h)
                else make_string r (drop p (buf_bytes r)) len (t_type cur) h) (\<lambda>(obj, h).
         case obj of None \<Rightarrow> oom r h | Some obj \<Rightarrow> deliver r obj h)))"

definition processBulkItem :: "redisReader \<Rightarrow> reply_heap \<Rightarrow> item_result" where
  "processBulkItem r h =
     (let p = drop (r_pos r) (buf_bytes r) in
      bindr (seekNewline p (size_t (int (r_len r) - int (r_pos r)))) (\<lambda>s.
      case s of
        None \<Rightarrow> Inr (REDIS_ERR, r, h)
      | Some s \<Rightarrow>
          bindr (readLongLong p) (\<lambda>len.
          if len < 0 then
            bindr (make_nil r h) (\<lambda>(obj, h).
            case obj of None \<Rightarrow> oom r h | Some obj \<Rightarrow> deliver (r\<lparr>r_pos := r_pos r + s + 2\<rparr>) obj h)
          else
            let bytelen = size_t (int s + 2 + int64 (len + 2)) in
            if size_t (int (r_pos r) + int bytelen) \<le> r_len r then
              bindr (make_string r (drop (s + 2) p) (nat len) REDIS_REPLY_STRING h) (\<lambda>(obj, h).
              case obj of None \<Rightarrow> oom r h | Some obj \<Rightarrow> deliver (r\<lparr>r_pos := size_t (int (r_pos r) + int bytelen)\<rparr>) obj h)
            else Inr (REDIS_ERR, r, h))))"

definition processMultiBulkItem :: "redisReader \<Rightarrow> reply_heap \<Rightarrow> item_result" where
  "processMultiBulkItem r h =
     (if r_ridx r = 8 then
        bindr (redisReaderSetError r REDIS_ERR_PROTOCOL ''No support for nested multi bulk replies with depth > 7'' h)
          (\<lambda>(r, h). Inr (REDIS_ERR, r, h))
      else
        bindr (readLine r) (\<lambda>line.
        case line of
          None \<Rightarrow> Inr (REDIS_ERR, r, h)
        | Some (p, _, r) \<Rightarrow>
            bindr (readLongLong (drop p (buf_bytes r))) (\<lambda>elements.
            let root = (r_ridx r = 0) in
            if elements = - 1 then
              bindr (make_nil r h) (\<lambda>(obj, h).
              case obj of
                None \<Rightarrow> oom r h
              | Some obj \<Rightarrow>
                  bindr (moveToNextTask r) (\<lambda>r. Inr (REDIS_OK, if root then r\<lparr>r_reply := Some obj\<rparr> else r, h)))
            else
              bindr (make_array r elements h) (\<lambda>(obj, h).
              case obj of
                None \<Rightarrow> oom r h
              | Some obj \<Rightarrow>
                  bindr (if 0 < elements then
                           bindr (mem_get (r_rstack r) (nat (r_ridx r))) (\<lambda>cur.
                           bindr (mem_get (r_rstack r) (nat (r_ridx r) + 1)) (\<lambda>_.
                           let r1 = set_task r (nat (r_ridx r)) (cur\<lparr>t_elements := int32 elements, t_obj := Some obj\<rparr>);
                               child = \<lparr>t_type = - 1, t_elements = - 1, t_idx = 0, t_obj = None, t_parent = Some (nat (r_ridx r))\<rparr>
                           in Inr ((set_task r1 (nat (r_ridx r) + 1) child)\<lparr>r_ridx := r_ridx r + 1\<rparr>)))
                         else moveToNextTask r) (\<lambda>r.
                  Inr (REDIS_OK, if root then r\<lparr>r_reply := Some obj\<rparr> else r, h))))))"

text \<open>\<open>processItem\<close>: the type of an item is read once and kept in its task.\<close>

definition item_type :: "char \<Rightarrow> int option" where
  "item_type c =
     (if c = CHR ''-'' then Some REDIS_REPLY_ERROR
      else if c = CHR ''+'' then Some REDIS_REPLY_STATUS
      else if c = CHR '':'' then Some REDIS_REPLY_INTEGER
      else if c = CHR ''$'' then Some REDIS_REPLY_STRING
      else if c = CHR ''*'' then Some REDIS_REPLY_ARRAY
      else None)"

definition processTyped :: "redisReader \<Rightarrow> reply_heap \<Rightarrow> item_result" where
  "processTyped r h =
     bindr (mem_get (r_rstack r) (nat (r_ridx r))) (\<lambda>cur.
     if t_type cur = REDIS_REPLY_ERROR \<or> t_type cur = REDIS_REPLY_STATUS \<or> t_type cur = REDIS_REPLY_INTEGER
     then processLineItem r h
     else if t_type cur = REDIS_REPLY_STRING then processBulkItem r h
     else if t_type cur = REDIS_REPLY_ARRAY then processMultiBulkItem r h
     else Inl AssertFailed)"

definition processItem :: "redisReader \<Rightarrow> reply_heap \<Rightarrow> item_result" where
  "processItem r h =
     bindr (mem_get (r_rstack r) (nat (r_ridx r))) (\<lambda>cur.
     if t_type cur < 0 then
       (case readBytes r 1 of
          None \<Rightarrow> Inr (REDIS_ERR, r, h)
        | Some (p, r) \<Rightarrow>
            bindr (mem_get (buf_bytes r) p) (\<lambda>c.
            case item_type c of
              None \<Rightarrow> bindr (redisReaderSetErrorProtocolByte r c h) (\<lambda>(r, h). Inr (REDIS_ERR, r, h))
            | Some ty \<Rightarrow> processTyped (set_task r (nat (r_ridx r)) (cur\<lparr>t_type := ty\<rparr>)) h))
     else processTyped r h)"

section \<open>The public functions\<close>

definition null_task :: redisReadTask where
  "null_task = \<lparr>t_type = 0, t_elements = 0, t_idx = 0, t_obj = None, t_parent = None\<rparr>"

definition sizeof_redisReader :: nat where "sizeof_redisReader = 560"

definition redisReaderCreateWithFunctions :: "allocator \<Rightarrow> redisReplyObjectFunctions \<Rightarrow> redisReader option" where
  "redisReaderCreateWithFunctions al fn =
     (if al sizeof_redisReader = None then None
      else case sdsempty al of
        Inl _ \<Rightarrow> None
      | Inr buf \<Rightarrow> Some \<lparr>r_err = 0, r_errstr = [], r_buf = Some buf, r_pos = 0, r_len = 0, r_maxbuf = REDIS_READER_MAX_BUF,
          r_rstack = replicate 9 null_task, r_ridx = - 1, r_reply = None, r_fn = fn\<rparr>)"

definition redisReaderFree :: "redisReader \<Rightarrow> reply_heap \<Rightarrow> reply_heap res" where
  "redisReaderFree r h =
     (case (r_reply r, freeObject (r_fn r)) of (Some o1, Some f) \<Rightarrow> f (Some o1) h | _ \<Rightarrow> Inr h)"

definition redisReaderFeed :: "allocator \<Rightarrow> redisReader \<Rightarrow> string option \<Rightarrow> nat \<Rightarrow> reply_heap \<Rightarrow> item_result" where
  "redisReaderFeed al r buf len h =
     (if r_err r \<noteq> 0 then Inr (REDIS_ERR, r, h)
      else case buf of
        Some d \<Rightarrow>
          if len < 1 then Inr (REDIS_OK, r, h)
          else (case r_buf r of
            None \<Rightarrow> Inl OutOfBounds
          | Some b \<Rightarrow>
              bindr (if r_len r = 0 \<and> r_maxbuf r \<noteq> 0 \<and> r_maxbuf r < sdsavail b
                     then (case sdsempty al of
                             Inl NoMem \<Rightarrow> Inl AssertFailed
                           | Inl e \<Rightarrow> Inl e
                           | Inr b \<Rightarrow> Inr (b, r\<lparr>r_buf := Some b, r_pos := 0\<rparr>))
                     else Inr (b, r)) (\<lambda>(b, r).
              case sdscatlen al b d len of
                Inl NoMem \<Rightarrow> oom r h
              | Inl e \<Rightarrow> Inl e
              | Inr newbuf \<Rightarrow> Inr (REDIS_OK, r\<lparr>r_buf := Some newbuf, r_len := sdslen newbuf\<rparr>, h)))
      | None \<Rightarrow> Inr (REDIS_OK, r, h))"

text \<open>
  The loop of \<open>redisReaderGetReply\<close>.  Every processed item consumes a byte, so as many rounds as there are
  unread bytes, and one more, are enough.
\<close>

fun process_items :: "nat \<Rightarrow> redisReader \<Rightarrow> reply_heap \<Rightarrow> ((redisReader \<times> reply_heap) option) res" where
  "process_items 0 r h = Inr None"
| "process_items (Suc n) r h =
     (if r_ridx r < 0 then Inr (Some (r, h))
      else bindr (processItem r h) (\<lambda>(st, r, h).
        if st = REDIS_OK then process_items n r h else Inr (Some (r, h))))"

definition root_task :: redisReadTask where
  "root_task = \<lparr>t_type = - 1, t_elements = - 1, t_idx = - 1, t_obj = None, t_parent = None\<rparr>"

definition redisReaderGetReply :: "redisReader \<Rightarrow> reply_heap \<Rightarrow> (status \<times> robj option \<times> redisReader \<times> reply_heap) option res" where
  "redisReaderGetReply r h =
     (if r_err r \<noteq> 0 then Inr (Some (REDIS_ERR, None, r, h))
      else if r_len r = 0 then Inr (Some (REDIS_OK, None, r, h))
      else
        let r = (if r_ridx r = - 1 then (set_task r 0 root_task)\<lparr>r_ridx := 0\<rparr> else r) in
        bindr (process_items (r_len r - r_pos r + 1) r h) (\<lambda>res.
        case res of
          None \<Rightarrow> Inr None
        | Some (r, h) \<Rightarrow>
            if r_err r \<noteq> 0 then Inr (Some (REDIS_ERR, None, r, h))
            else
              bindr (if 1024 \<le> r_pos r then
                       (case r_buf r of
                          None \<Rightarrow> Inl OutOfBounds
                        | Some b \<Rightarrow> bindr (sdsrange b (int32 (int (r_pos r))) (- 1)) (\<lambda>b.
                            Inr (r\<lparr>r_buf := Some b, r_pos := 0, r_len := sdslen b\<rparr>)))
                     else Inr r) (\<lambda>r.
              if r_ridx r = - 1 then Inr (Some (REDIS_OK, r_reply r, r\<lparr>r_reply := None\<rparr>, h))
              else Inr (Some (REDIS_OK, None, r, h)))))"

end
