(* ===== verification/SdsFmt.thy ===== *)
theory SdsFmt
  imports SdsRepr
begin

text \<open>
  \<open>sdscatfmt\<close> of \<open>sds.c\<close>: the formatter that writes straight into the buffer of the string,
  growing it on the way and terminating it at the end.  The variable arguments are a list of
  tagged values; a missing or mistyped argument and a read past the format are out of bounds.
\<close>

section \<open>The formatter\<close>

datatype fmt_arg =
    FStr string      \<comment> \<open>\<open>char*\<close>, for \<open>%s\<close>\<close>
  | FSds sdshdr      \<comment> \<open>\<open>sds\<close>, for \<open>%S\<close>\<close>
  | FInt int         \<comment> \<open>\<open>int\<close>, for \<open>%i\<close>\<close>
  | FLong int        \<comment> \<open>\<open>long long\<close>, for \<open>%I\<close>\<close>
  | FUint nat        \<comment> \<open>\<open>unsigned int\<close>, for \<open>%u\<close>\<close>
  | FUlong nat       \<comment> \<open>\<open>unsigned long long\<close>, for \<open>%U\<close>\<close>
  | FSize nat        \<comment> \<open>\<open>size_t\<close>, for \<open>%T\<close>\<close>

definition fmt_conversion :: "char \<Rightarrow> bool" where
  "fmt_conversion next \<longleftrightarrow> next \<in> set ''sSiIuUT''"

definition conv_bytes :: "char \<Rightarrow> fmt_arg \<Rightarrow> string res" where
  "conv_bytes next arg =
     (case arg of
        FStr p \<Rightarrow> if next = CHR ''s'' then Inr (cstr p) else Inl OutOfBounds
      | FSds t \<Rightarrow> if next = CHR ''S'' then mem_read (sh_buf t) 0 (sdslen t) else Inl OutOfBounds
      | FInt num \<Rightarrow> if next = CHR ''i'' then Inr (sdsll2str num) else Inl OutOfBounds
      | FLong num \<Rightarrow> if next = CHR ''I'' then Inr (sdsll2str num) else Inl OutOfBounds
      | FUint unum \<Rightarrow> if next = CHR ''u'' then Inr (sdsull2str unum) else Inl OutOfBounds
      | FUlong unum \<Rightarrow> if next = CHR ''U'' then Inr (sdsull2str unum) else Inl OutOfBounds
      | FSize unum \<Rightarrow> if next = CHR ''T'' then Inr (sdsull2str unum) else Inl OutOfBounds)"

text \<open>The two ways bytes are stored: a converted argument (with room made for it) and one
  character.  The results of \<open>sdsMakeRoomFor\<close> are not checked by the code.\<close>

definition fmt_put :: "allocator \<Rightarrow> sdshdr \<Rightarrow> nat \<Rightarrow> string \<Rightarrow> (sdshdr \<times> nat) res" where
  "fmt_put al s i t =
     (let l = int32 (int (length t)) in
      if l < 0 then Inl OutOfBounds
      else
        bindr (if sh_free s < l then deref (sdsMakeRoomFor al s (size_t l)) else Inr s) (\<lambda>s.
        bindr (mem_write (sh_buf s) i (take (nat l) t)) (\<lambda>b.
        Inr (\<lparr>sh_len = int32 (sh_len s + l), sh_free = int32 (sh_free s - l), sh_buf = b\<rparr>, i + nat l))))"

definition fmt_byte :: "sdshdr \<Rightarrow> nat \<Rightarrow> char \<Rightarrow> (sdshdr \<times> nat) res" where
  "fmt_byte s i c =
     bindr (mem_write (sh_buf s) i [c]) (\<lambda>b.
     Inr (\<lparr>sh_len = int32 (sh_len s + 1), sh_free = int32 (sh_free s - 1), sh_buf = b\<rparr>, i + 1))"

text \<open>
  The loop over the format.  After a lone \<open>%\<close> at the end of the format, \<open>f\<close> is moved past
  the terminating NUL and the loop goes on reading there.
\<close>

function (sequential) fmt_loop ::
    "allocator \<Rightarrow> sdshdr \<Rightarrow> nat \<Rightarrow> string \<Rightarrow> fmt_arg list \<Rightarrow> (sdshdr \<times> nat) res" where
  "fmt_loop al s i [] args = Inr (s, i)"
| "fmt_loop al s i (c # f) args =
     bindr (if sh_free s = 0 then deref (sdsMakeRoomFor al s 1) else Inr s) (\<lambda>s.
     if c = CHR ''%'' then
       (case f of
          [] \<Rightarrow> bindr (fmt_byte s i NUL) (\<lambda>_. Inl OutOfBounds)
        | next # f' \<Rightarrow>
            if fmt_conversion next then
              (case args of
                 [] \<Rightarrow> Inl OutOfBounds
               | arg # args' \<Rightarrow>
                   bindr (conv_bytes next arg) (\<lambda>t.
                   bindr (fmt_put al s i t) (\<lambda>(s, i). fmt_loop al s i f' args')))
            else bindr (fmt_byte s i next) (\<lambda>(s, i). fmt_loop al s i f' args))
     else bindr (fmt_byte s i c) (\<lambda>(s, i). fmt_loop al s i f args))"
  by pat_completeness auto
termination by (relation "measure (\<lambda>(al, s, i, f, args). length f)") auto

definition sdscatfmt :: "allocator \<Rightarrow> sdshdr \<Rightarrow> string \<Rightarrow> fmt_arg list \<Rightarrow> sdshdr res" where
  "sdscatfmt al s fmt args =
     bindr (fmt_loop al s (sdslen s) (cstr fmt) args) (\<lambda>(s, i).
     bindr (mem_write (sh_buf s) i [NUL]) (\<lambda>b. Inr (s\<lparr>sh_buf := b\<rparr>)))"

section \<open>What it writes\<close>

definition conv_text :: "char \<Rightarrow> fmt_arg \<Rightarrow> string option" where
  "conv_text next arg =
     (case arg of
        FStr p \<Rightarrow> if next = CHR ''s'' then Some (cstr p) else None
      | FSds t \<Rightarrow> if next = CHR ''S'' \<and> sds_ok t then Some (sds_val t) else None
      | FInt v \<Rightarrow> if next = CHR ''i'' \<and> int32 v = v then Some (show_int v) else None
      | FLong v \<Rightarrow> if next = CHR ''I'' \<and> int64 v = v then Some (show_int v) else None
      | FUint v \<Rightarrow> if next = CHR ''u'' then Some (show_nat v) else None
      | FUlong v \<Rightarrow> if next = CHR ''U'' then Some (show_nat v) else None
      | FSize v \<Rightarrow> if next = CHR ''T'' then Some (show_nat v) else None)"

text \<open>The text a format describes, undefined for formats and arguments that do not match.\<close>

fun fmt_text :: "string \<Rightarrow> fmt_arg list \<Rightarrow> string option" where
  "fmt_text [] args = Some []"
| "fmt_text [c] args = (if c = CHR ''%'' then None else Some [c])"
| "fmt_text (c # next # f) args =
     (if c \<noteq> CHR ''%'' then map_option ((#) c) (fmt_text (next # f) args)
      else if \<not> fmt_conversion next then map_option ((#) next) (fmt_text f args)
      else case args of
        [] \<Rightarrow> None
      | arg # args' \<Rightarrow>
          (case (conv_text next arg, fmt_text f args') of
             (Some t, Some ts) \<Rightarrow> Some (t @ ts)
           | _ \<Rightarrow> None))"

lemma int_range_of_fix:
  "int32 v = v \<Longrightarrow> - 9223372036854775808 \<le> v \<and> v \<le> 9223372036854775807"
  "int64 v = v \<Longrightarrow> - 9223372036854775808 \<le> v \<and> v \<le> 9223372036854775807"
  using int32_range [of v] int64_range [of v] by linarith+

lemma conv_bytes_text: "conv_text next arg = Some t \<Longrightarrow> conv_bytes next arg = Inr t"
proof (cases arg)
  case (FSds s)
  moreover assume "conv_text next arg = Some t"
  ultimately have "sds_ok s" "t = sds_val s" "next = CHR ''S''" by (auto simp: conv_text_def split: if_splits)
  with FSds show ?thesis by (elim sds_okE) (simp add: conv_bytes_def)
qed (auto simp: conv_text_def conv_bytes_def sdsull2str_eq sdsll2str_eq dest: int_range_of_fix split: if_splits)

text \<open>Room and stores, on strings that are not terminated yet.\<close>

lemma fmt_room:
  assumes al: "alloc_ok al" "\<not> may_fail al" and s: "sds_layout s" and fits: "sds_fits (length (sds_val s) + n)"
  obtains s1 where "(if sh_free s < int n then deref (sdsMakeRoomFor al s n) else Inr s) = Inr s1"
    "sds_layout s1" "sds_val s1 = sds_val s" "int n \<le> sh_free s1"
proof (cases "sh_free s < int n")
  case True
  from s fits have "sds_fits (sdslen s + n)" by (auto elim: sds_layoutE)
  from sdsMakeRoomFor_layout [OF al(1) s this] al(2) obtain s1 where s1: "sdsMakeRoomFor al s n = Inr s1"
    "sds_layout s1" "sds_val s1 = sds_val s" "n \<le> sdsavail s1" by (auto dest!: returns_total)
  moreover from s1(2,4) have "int n \<le> sh_free s1" by (auto elim!: sds_layoutE)
  ultimately show ?thesis using that [of s1] True by simp
next
  case False
  then show ?thesis using that [of s] s by simp
qed

lemma store_layout:
  assumes s: "sds_layout s" and room: "int (length t) \<le> sh_free s"
  obtains b where "mem_write (sh_buf s) (length (sds_val s)) t = Inr b"
    "sds_layout \<lparr>sh_len = int32 (sh_len s + int (length t)), sh_free = int32 (sh_free s - int (length t)), sh_buf = b\<rparr>"
    "sds_val \<lparr>sh_len = int32 (sh_len s + int (length t)), sh_free = int32 (sh_free s - int (length t)), sh_buf = b\<rparr> = sds_val s @ t"
proof -
  from s obtain l f where h: "sh_len s = int l" "sh_free s = int f" "length (sh_buf s) = l + f + 1"
    "l + f \<le> 2147483647" "sds_val s = take l (sh_buf s)" "length (sds_val s) = l" by (rule sds_layoutE)
  let ?n = "length t" and ?b = "take l (sh_buf s) @ t @ drop (l + length t) (sh_buf s)"
  let ?s = "\<lparr>sh_len = int32 (sh_len s + int (length t)), sh_free = int32 (sh_free s - int (length t)), sh_buf = ?b\<rparr>"
  have n: "?n \<le> f" using room h by simp
  then have e: "?s = \<lparr>sh_len = int (l + ?n), sh_free = int (f - ?n), sh_buf = ?b\<rparr>" using h by (simp add: of_nat_diff)
  have "sds_layout ?s" "sds_val ?s = sds_val s @ t"
    unfolding e using sds_layoutI [of "\<lparr>sh_len = int (l + ?n), sh_free = int (f - ?n), sh_buf = ?b\<rparr>" "l + ?n" "f - ?n"] n h
    by auto
  moreover have "mem_write (sh_buf s) (length (sds_val s)) t = Inr ?b" unfolding h(6) using h(3) n by simp
  ultimately show ?thesis using that [of ?b] by simp
qed

lemma fmt_put_spec:
  assumes al: "alloc_ok al" "\<not> may_fail al" and s: "sds_layout s" and fits: "sds_fits (length (sds_val s) + length t)"
  obtains s' where "fmt_put al s (length (sds_val s)) t = Inr (s', length (sds_val s'))" "sds_layout s'"
    "sds_val s' = sds_val s @ t"
proof -
  have l: "int32 (int (length t)) = int (length t)" "size_t (int (length t)) = length t"
    using fits by (simp_all add: sds_fits_def)
  from fmt_room [OF al s fits] obtain s1 where s1:
    "(if sh_free s < int (length t) then deref (sdsMakeRoomFor al s (length t)) else Inr s) = Inr s1"
    "sds_layout s1" "sds_val s1 = sds_val s" "int (length t) \<le> sh_free s1" .
  from store_layout [OF s1(2,4)] obtain b where b: "mem_write (sh_buf s1) (length (sds_val s)) t = Inr b"
    "sds_layout \<lparr>sh_len = int32 (sh_len s1 + int (length t)), sh_free = int32 (sh_free s1 - int (length t)), sh_buf = b\<rparr>"
    "sds_val \<lparr>sh_len = int32 (sh_len s1 + int (length t)), sh_free = int32 (sh_free s1 - int (length t)), sh_buf = b\<rparr> = sds_val s @ t"
    unfolding s1(3) .
  show ?thesis
    by (rule that [OF _ b(2,3)])
      (simp only: fmt_put_def Let_def l s1(1) bindr_simps nat_int take_all le_refl b(1,3) of_nat_less_0_iff if_False length_append)
qed

lemma fmt_byte_spec:
  assumes s: "sds_layout s" and room: "1 \<le> sh_free s"
  obtains s' where "fmt_byte s (length (sds_val s)) c = Inr (s', length (sds_val s'))" "sds_layout s'"
    "sds_val s' = sds_val s @ [c]"
proof -
  from store_layout [OF s, of "[c]"] room obtain b where b: "mem_write (sh_buf s) (length (sds_val s)) [c] = Inr b"
    "sds_layout \<lparr>sh_len = int32 (sh_len s + 1), sh_free = int32 (sh_free s - 1), sh_buf = b\<rparr>"
    "sds_val \<lparr>sh_len = int32 (sh_len s + 1), sh_free = int32 (sh_free s - 1), sh_buf = b\<rparr> = sds_val s @ [c]"
    by auto
  show ?thesis by (rule that [OF _ b(2,3)]) (simp add: fmt_byte_def b(1,3))
qed

text \<open>One round of the loop for each kind of format character.\<close>

lemma fmt_room1:
  assumes al: "alloc_ok al" "\<not> may_fail al" and s: "sds_layout s" and fits: "sds_fits (length (sds_val s) + 1)"
  obtains s1 where "(if sh_free s = 0 then deref (sdsMakeRoomFor al s 1) else Inr s) = Inr s1"
    "sds_layout s1" "sds_val s1 = sds_val s" "1 \<le> sh_free s1"
proof -
  have "sh_free s < int 1 \<longleftrightarrow> sh_free s = 0" using s by (auto elim!: sds_layoutE)
  with fmt_room [OF al s fits] that show ?thesis unfolding of_nat_1 by metis
qed

lemma fmt_loop_byte:
  assumes al: "alloc_ok al" "\<not> may_fail al" and s: "sds_layout s" and fits: "sds_fits (length (sds_val s) + 1)"
    and f: "c \<noteq> CHR ''%'' \<and> pre = [] \<or> \<not> fmt_conversion c \<and> pre = ''%''"
  obtains s' where "sds_layout s'" "sds_val s' = sds_val s @ [c]"
    "fmt_loop al s (length (sds_val s)) (pre @ c # f) args = fmt_loop al s' (length (sds_val s')) f args"
proof -
  from fmt_room1 [OF al s fits] obtain s1 where
    s1: "(if sh_free s = 0 then deref (sdsMakeRoomFor al s 1) else Inr s) = Inr s1" "sds_layout s1"
    "sds_val s1 = sds_val s" "1 \<le> sh_free s1" .
  from fmt_byte_spec [OF s1(2,4)] obtain s' where s': "fmt_byte s1 (length (sds_val s)) c = Inr (s', length (sds_val s'))"
    "sds_layout s'" "sds_val s' = sds_val s @ [c]" unfolding s1(3) .
  show ?thesis
    by (rule that [OF s'(2,3)], use f in \<open>elim disjE conjE\<close>)
      (simp_all only: fmt_loop.simps s1(1) bindr_simps s'(1) list.case if_False if_True prod.case append_Nil append_Cons simp_thms)
qed

lemma fmt_loop_conv:
  assumes al: "alloc_ok al" "\<not> may_fail al" and s: "sds_layout s"
    and fits: "sds_fits (length (sds_val s) + length t + 1)"
    and conv: "fmt_conversion next" "conv_text next arg = Some t"
  obtains s' where "sds_layout s'" "sds_val s' = sds_val s @ t"
    "fmt_loop al s (length (sds_val s)) (CHR ''%'' # next # f) (arg # args) = fmt_loop al s' (length (sds_val s')) f args"
proof -
  have f: "sds_fits (length (sds_val s) + 1)" "sds_fits (length (sds_val s) + length t)"
    using fits by (auto elim: sds_fits_mono)
  from fmt_room1 [OF al s f(1)] obtain s1 where
    s1: "(if sh_free s = 0 then deref (sdsMakeRoomFor al s 1) else Inr s) = Inr s1" "sds_layout s1"
    "sds_val s1 = sds_val s" "1 \<le> sh_free s1" .
  from fmt_put_spec [OF al s1(2), of t] f(2) obtain s' where
    s': "fmt_put al s1 (length (sds_val s)) t = Inr (s', length (sds_val s'))" "sds_layout s'" "sds_val s' = sds_val s @ t"
    unfolding s1(3) by blast
  show ?thesis
    by (rule that [OF s'(2,3)])
      (simp only: fmt_loop.simps s1(1) bindr_simps s'(1) conv_bytes_text [OF conv(2)] list.case conv(1) if_True prod.case simp_thms)
qed

lemma fmt_loop_spec:
  assumes al: "alloc_ok al" "\<not> may_fail al"
  shows "fmt_text f args = Some t \<Longrightarrow> sds_layout s \<Longrightarrow> sds_fits (length (sds_val s) + length t + 1) \<Longrightarrow>
    \<exists>s'. fmt_loop al s (length (sds_val s)) f args = Inr (s', length (sds_val s')) \<and> sds_layout s' \<and> sds_val s' = sds_val s @ t"
proof (induction f args arbitrary: s t rule: fmt_text.induct)
  case (1 args)
  then show ?case by auto
next
  case (2 c args)
  then have c: "c \<noteq> CHR ''%''" "t = [c]" by (auto split: if_splits)
  have "sds_fits (length (sds_val s) + 1)" using "2.prems"(3) by (rule sds_fits_mono) simp
  from fmt_loop_byte [OF al "2.prems"(2) this, of c "[]" "[]" args] c obtain s1 where
    "sds_layout s1" "sds_val s1 = sds_val s @ [c]"
    "fmt_loop al s (length (sds_val s)) [c] args = fmt_loop al s1 (length (sds_val s1)) [] args" by auto
  with c show ?case by simp
next
  case (3 c "next" f args)
  have f1: "sds_fits (length (sds_val s) + 1)" using "3.prems"(3) by (rule sds_fits_mono) simp
  consider (plain) t' where "c \<noteq> CHR ''%''" "fmt_text (next # f) args = Some t'" "t = c # t'"
    | (unknown) t' where "c = CHR ''%''" "\<not> fmt_conversion next" "fmt_text f args = Some t'" "t = next # t'"
    | (conv) arg args' u t' where "c = CHR ''%''" "fmt_conversion next" "args = arg # args'" "conv_text next arg = Some u"
        "fmt_text f args' = Some t'" "t = u @ t'"
    using "3.prems"(1) by (auto split: if_splits list.splits option.splits)
  then show ?case
  proof cases
    case plain
    from fmt_loop_byte [OF al "3.prems"(2) f1, of c "[]" "next # f" args] plain(1) obtain s1 where
      s1: "sds_layout s1" "sds_val s1 = sds_val s @ [c]"
      "fmt_loop al s (length (sds_val s)) (c # next # f) args = fmt_loop al s1 (length (sds_val s1)) (next # f) args" unfolding append_Nil by blast
    have "sds_fits (length (sds_val s1) + length t' + 1)" using "3.prems"(3) plain(3) s1(2) by simp
    from "3.IH"(1) [OF plain(1,2) s1(1) this] s1(2) plain(3) show ?thesis unfolding s1(3) by simp
  next
    case unknown
    from fmt_loop_byte [OF al "3.prems"(2) f1, of "next" "''%''" f args] unknown(1,2) obtain s1 where
      s1: "sds_layout s1" "sds_val s1 = sds_val s @ [next]"
      "fmt_loop al s (length (sds_val s)) (c # next # f) args = fmt_loop al s1 (length (sds_val s1)) f args" by auto
    have "sds_fits (length (sds_val s1) + length t' + 1)" using "3.prems"(3) unknown(4) s1(2) by simp
    with "3.IH"(2) [OF _ unknown(2,3) s1(1)] unknown(1,4) s1(2) show ?thesis unfolding s1(3) by simp
  next
    case conv
    have "sds_fits (length (sds_val s) + length u + 1)" using "3.prems"(3) conv(6) by (auto elim: sds_fits_mono)
    from fmt_loop_conv [OF al "3.prems"(2) this conv(2,4), of f args'] obtain s1 where
      s1: "sds_layout s1" "sds_val s1 = sds_val s @ u"
      "fmt_loop al s (length (sds_val s)) (c # next # f) args = fmt_loop al s1 (length (sds_val s1)) f args'"
      unfolding conv(1,3) .
    have "sds_fits (length (sds_val s1) + length t' + 1)" using "3.prems"(3) conv(6) s1(2) by (simp add: add.assoc)
    with "3.IH"(3) [OF _ _ conv(3,5) s1(1)] conv(1,2,6) s1(2) show ?thesis unfolding s1(3) by simp
  qed
qed

lemma sdscatfmt_spec:
  assumes al: "alloc_ok al" "\<not> may_fail al" and s: "sds_ok s" and t: "fmt_text (cstr fmt) args = Some t"
    and fits: "sds_fits (sdslen s + length t + 1)"
  shows "\<exists>s'. sdscatfmt al s fmt args = Inr s' \<and> sds_ok s' \<and> sds_val s' = sds_val s @ t"
proof -
  have "sds_fits (length (sds_val s) + length t + 1)" using fits s by (simp add: sdslen_val)
  from fmt_loop_spec [OF al t sds_ok_layout [OF s] this] s obtain s1 where
    s1: "fmt_loop al s (sdslen s) (cstr fmt) args = Inr (s1, length (sds_val s1))" "sds_layout s1"
    "sds_val s1 = sds_val s @ t" by (auto simp: sdslen_val)
  from s1(2) obtain l f where h: "sh_len s1 = int l" "sh_free s1 = int f" "length (sh_buf s1) = l + f + 1"
    "l + f \<le> 2147483647" "sds_val s1 = take l (sh_buf s1)" "length (sds_val s1) = l" by (rule sds_layoutE)
  let ?s = "s1\<lparr>sh_buf := take l (sh_buf s1) @ [NUL] @ drop (l + 1) (sh_buf s1)\<rparr>"
  have "sdscatfmt al s fmt args = Inr ?s" using s1(1) h(3,6) by (simp add: sdscatfmt_def)
  moreover have "sds_ok ?s" "sds_val ?s = sds_val s1" using sds_okI [of ?s l f] h by (auto simp: nth_append)
  ultimately show ?thesis using s1(3) by auto
qed

section \<open>Properties\<close>

text \<open>with memory for it, \<open>sdscatfmt\<close> appends exactly the text its format and arguments
  describe and leaves a well-formed, terminated string.\<close>

theorem sdscatfmt_correct:
  assumes al: "alloc_ok al" "\<not> may_fail al" and s: "sds_ok s" and t: "fmt_text (cstr fmt) args = Some t"
    and fits: "sds_fits (sdslen s + length t + 1)"
  shows "\<exists>s'. sdscatfmt al s fmt args = Inr s' \<and> sds_ok s' \<and> sds_val s' = sds_val s @ t"
  using sdscatfmt_spec [OF assms] .

theorem sdscatfmt_correct_witness:
  "\<exists>s'. sdscatfmt (fill_alloc NUL) \<lparr>sh_len = 1, sh_free = 0, sh_buf = ''>'' @ [NUL]\<rparr> ''%s=%i%%''
      [FStr ''ab'', FInt (- 7)] = Inr s' \<and> sds_val s' = ''>ab=-7%''"
proof -
  let ?s = "\<lparr>sh_len = 1, sh_free = 0, sh_buf = ''>'' @ [NUL]\<rparr>"
  have "fmt_text (cstr ''%s=%i%%'') [FStr ''ab'', FInt (- 7)] = Some ''ab=-7%''"
    by code_simp
  moreover have "sds_ok ?s" "sds_fits (sdslen ?s + length ''ab=-7%'' + 1)" "sds_val ?s = ''>''"
    by (simp_all add: sds_ok_def sds_layout_def INT_MAX_def sds_fits_def sdslen_def sds_val_def)
  ultimately show ?thesis
    using sdscatfmt_correct [OF fill_alloc_ok fill_alloc_never_fails, of ?s "''%s=%i%%''" "[FStr ''ab'', FInt (- 7)]" "''ab=-7%''" NUL]
    by auto
qed

text \<open>a format that ends in a lone \<open>%\<close> makes \<open>sdscatfmt\<close> read past the end of the
  format, whatever the string and the arguments.\<close>

theorem sdscatfmt_lone_percent:
  assumes "sds_ok s" "alloc_ok al" "\<not> may_fail al" "sds_fits (sdslen s + 1)"
  shows "sdscatfmt al s ''%'' args = Inl OutOfBounds"
proof -
  have f: "sds_fits (length (sds_val s) + 1)" using assms by (simp add: sdslen_val)
  from fmt_room1 [OF assms(2,3) sds_ok_layout [OF assms(1)] f] obtain s1 where
    s1: "(if sh_free s = 0 then deref (sdsMakeRoomFor al s 1) else Inr s) = Inr s1" "sds_layout s1"
    "sds_val s1 = sds_val s" "1 \<le> sh_free s1" .
  from fmt_byte_spec [OF s1(2,4), of NUL] obtain s2 where s2: "fmt_byte s1 (length (sds_val s)) NUL = Inr (s2, length (sds_val s2))"
    unfolding s1(3) .
  have "fmt_loop al s (length (sds_val s)) ''%'' args = Inl OutOfBounds"
    by (simp only: fmt_loop.simps s1(1) bindr_simps s2 list.case if_True simp_thms)
  then show ?thesis using assms(1) by (simp add: sdscatfmt_def cstr_def sdslen_val)
qed

theorem sdscatfmt_lone_percent_witness:
  "sdscatfmt (fill_alloc NUL) \<lparr>sh_len = 0, sh_free = 0, sh_buf = [NUL]\<rparr> ''%'' [] = Inl OutOfBounds"
  by (rule sdscatfmt_lone_percent) (simp_all add: sds_ok_def sds_layout_def INT_MAX_def sds_fits_def sdslen_def)

end
