(* ===== verification/Command.thy ===== *)
theory Command
  imports SdsFmt
begin

text \<open>
  The command formatters of \<open>hiredis.c\<close>: the size computation \<open>countDigits\<close> / \<open>bulklen\<close>, the
  formatters of an argument vector \<open>redisFormatCommandArgv\<close> and \<open>redisFormatSdsCommandArgv\<close>, and the
  \<open>printf\<close>-like \<open>redisvFormatCommand\<close>.  All three are shown to produce the unified request
  \<open>resp_command\<close> of their arguments, with the assertion on the computed size discharged.
\<close>

section \<open>The wire format\<close>

abbreviation CRLF :: string where "CRLF \<equiv> [CR, LF]"

definition resp_bulk :: "string \<Rightarrow> string" where
  "resp_bulk s = CHR ''$'' # show_nat (length s) @ CRLF @ s @ CRLF"

definition resp_command :: "string list \<Rightarrow> string" where
  "resp_command args = CHR ''*'' # show_nat (length args) @ CRLF @ concat (map resp_bulk args)"

section \<open>Sizes\<close>

function count_digits_loop :: "nat \<Rightarrow> nat \<Rightarrow> nat" where
  "count_digits_loop v result =
     (if v < 10 then result
      else if v < 100 then result + 1
      else if v < 1000 then result + 2
      else if v < 10000 then result + 3
      else count_digits_loop (v div 10000) (result + 4))"
  by pat_completeness auto
termination by (relation "measure fst") auto

declare count_digits_loop.simps [simp del]

definition countDigits :: "nat \<Rightarrow> nat" where
  "countDigits v = count_digits_loop v 1"

definition bulklen :: "nat \<Rightarrow> nat" where
  "bulklen len = size_t (1 + int (countDigits len) + 2 + int len + 2)"

lemma count_digits_loop_eq: "count_digits_loop v result + 1 = result + length (show_nat v)"
proof (induction v result rule: count_digits_loop.induct)
  case (1 v result)
  have s: "length (show_nat v) = (if v < 10 then 1 else Suc (length (show_nat (v div 10))))" for v
    by (simp add: show_nat.simps [of v])
  have d: "v div 10 div 10 = v div 100" "v div 100 div 10 = v div 1000" "v div 1000 div 10 = v div 10000"
    by (simp_all add: div_mult2_eq [symmetric])
  show ?case
  proof (cases "v < 10000")
    case True
    have "v div 1000 < 10" using True by (simp add: less_mult_imp_div_less)
    with True show ?thesis
      by (auto simp: count_digits_loop.simps [of v] s [of v] s [of "v div 10"] s [of "v div 100"] s [of "v div 1000"] d)
  next
    case False
    then have "length (show_nat v) = length (show_nat (v div 10000)) + 4"
      by (simp add: s [of v] s [of "v div 10"] s [of "v div 100"] s [of "v div 1000"] d div_less_iff_less_mult)
    with 1 False show ?thesis by (simp add: count_digits_loop.simps [of v])
  qed
qed

lemma countDigits_eq: "countDigits v = length (show_nat v)"
  using count_digits_loop_eq [of v 1] by (simp add: countDigits_def)

lemma bulklen_eq: "length (resp_bulk s) < 18446744073709551616 \<Longrightarrow> bulklen (length s) = length (resp_bulk s)"
  by (auto simp: bulklen_def resp_bulk_def countDigits_eq intro!: size_t_eq)

section \<open>Building the command\<close>

text \<open>\<open>sprintf(cmd+pos, ...)\<close>: the text and its terminator are written.\<close>

definition sprintf_at :: "string \<Rightarrow> nat \<Rightarrow> string \<Rightarrow> (string \<times> nat) res" where
  "sprintf_at cmd pos t = bindr (mem_write cmd pos (t @ [NUL])) (\<lambda>cmd. Inr (cmd, pos + length t))"

text \<open>The loop that appends \<open>$len CRLF data CRLF\<close> for every argument (a pointer and a length), shared by
  \<open>redisFormatCommandArgv\<close> and \<open>redisvFormatCommand\<close>.\<close>

fun build_args :: "string \<Rightarrow> nat \<Rightarrow> (string \<times> nat) list \<Rightarrow> (string \<times> nat) res" where
  "build_args cmd pos [] = Inr (cmd, pos)"
| "build_args cmd pos ((arg, len) # args) =
     bindr (sprintf_at cmd pos (CHR ''$'' # show_nat len @ CRLF)) (\<lambda>(cmd, pos).
     bindr (mem_read arg 0 len) (\<lambda>d.
     bindr (mem_write cmd pos d) (\<lambda>cmd.
     bindr (mem_write cmd (pos + len) [CR]) (\<lambda>cmd.
     bindr (mem_write cmd (pos + len + 1) [LF]) (\<lambda>cmd.
     build_args cmd (pos + len + 2) args)))))"

definition build_command :: "string \<Rightarrow> int \<Rightarrow> (string \<times> nat) list \<Rightarrow> string res" where
  "build_command cmd totlen args =
     bindr (sprintf_at cmd 0 (CHR ''*'' # show_nat (length args) @ CRLF)) (\<lambda>(cmd, pos).
     bindr (build_args cmd pos args) (\<lambda>(cmd, pos).
     bindr (check AssertFailed (int pos = totlen)) (\<lambda>_.
     mem_write cmd pos [NUL])))"

text \<open>The length of argument \<open>j\<close>: from \<open>argvlen\<close> when it is not NULL, otherwise \<open>strlen\<close>.\<close>

definition arg_len :: "string list \<Rightarrow> nat list option \<Rightarrow> nat \<Rightarrow> nat res" where
  "arg_len argv argvlen j =
     (case argvlen of
        Some ls \<Rightarrow> mem_get ls j
      | None \<Rightarrow> bindr (mem_get argv j) (\<lambda>a. Inr (length (cstr a))))"

definition arg_vector :: "nat \<Rightarrow> string list \<Rightarrow> nat list option \<Rightarrow> ((string \<times> nat) list) res" where
  "arg_vector argc argv argvlen =
     map_res (\<lambda>j. bindr (mem_get argv j) (\<lambda>a. bindr (arg_len argv argvlen j) (\<lambda>len. Inr (a, len)))) [0..<argc]"

text \<open>
  \<open>redisFormatCommandArgv(target, argc, argv, argvlen)\<close>: the value returned and the command stored
  in \<open>*target\<close>.  \<open>totlen\<close> is an \<open>int\<close>.
\<close>

definition redisFormatCommandArgv ::
    "allocator \<Rightarrow> bool \<Rightarrow> nat \<Rightarrow> string list \<Rightarrow> nat list option \<Rightarrow> (int \<times> string option) res" where
  "redisFormatCommandArgv al target argc argv argvlen =
     (if \<not> target then Inr (- 1, None)
      else
        bindr (arg_vector argc argv argvlen) (\<lambda>args.
        let totlen = fold (\<lambda>(_, len) totlen. int32 (totlen + int (bulklen len))) args (int32 (1 + int (countDigits argc) + 2)) in
        case al (size_t (int32 (totlen + 1))) of
          None \<Rightarrow> Inr (- 1, None)
        | Some cmd \<Rightarrow> bindr (build_command cmd totlen args) (\<lambda>cmd. Inr (totlen, Some cmd))))"

fun sds_args :: "allocator \<Rightarrow> sdshdr \<Rightarrow> (string \<times> nat) list \<Rightarrow> sdshdr res" where
  "sds_args al cmd [] = Inr cmd"
| "sds_args al cmd ((arg, len) # args) =
     bindr (deref (sdscatfmt al cmd (''$%T'' @ CRLF) [FSize len])) (\<lambda>cmd.
     bindr (deref (sdscatlen al cmd arg len)) (\<lambda>cmd.
     bindr (deref (sdscatlen al cmd (CRLF @ [NUL]) 2)) (\<lambda>cmd.
     sds_args al cmd args)))"

definition redisFormatSdsCommandArgv ::
    "allocator \<Rightarrow> bool \<Rightarrow> nat \<Rightarrow> string list \<Rightarrow> nat list option \<Rightarrow> (int \<times> sdshdr option) res" where
  "redisFormatSdsCommandArgv al target argc argv argvlen =
     (if \<not> target then Inr (- 1, None)
      else
        bindr (arg_vector argc argv argvlen) (\<lambda>args.
        let totlen = fold (\<lambda>(_, len) totlen. size_t (int totlen + int (bulklen len))) args (size_t (1 + int (countDigits argc) + 2)) in
        case bindr (sdsempty al) (\<lambda>cmd. sdsMakeRoomFor al cmd totlen) of
          Inl NoMem \<Rightarrow> Inr (- 1, None)
        | Inl e \<Rightarrow> Inl e
        | Inr cmd \<Rightarrow>
            bindr (deref (sdscatfmt al cmd (''*%i'' @ CRLF) [FInt (int32 (int argc))])) (\<lambda>cmd.
            bindr (sds_args al cmd args) (\<lambda>cmd.
            bindr (check AssertFailed (sdslen cmd = totlen)) (\<lambda>_.
            Inr (int32 (int totlen), Some cmd))))))"

section \<open>The vector formatters produce the request\<close>

text \<open>\<open>filled N w cmd\<close>: the buffer of \<open>N\<close> bytes starts with \<open>w\<close>.\<close>

definition filled :: "nat \<Rightarrow> string \<Rightarrow> string \<Rightarrow> bool" where
  "filled N w cmd \<longleftrightarrow> length cmd = N \<and> take (length w) cmd = w"

lemma filled_write:
  assumes "filled N w cmd" "length w + length t \<le> N"
  obtains cmd' where "mem_write cmd (length w) t = Inr cmd'" "filled N (w @ t) cmd'"
  using assms by (auto simp: filled_def)

lemma filled_sprintf:
  assumes "filled N w cmd" "length w + length t < N"
  obtains cmd' where "sprintf_at cmd (length w) t = Inr (cmd', length (w @ t))" "filled N (w @ t) cmd'"
proof -
  from assms(2) have "length w + length (t @ [NUL]) \<le> N" by simp
  from filled_write [OF assms(1) this] obtain cmd' where "mem_write cmd (length w) (t @ [NUL]) = Inr cmd'"
    "filled N (w @ t @ [NUL]) cmd'" by blast
  moreover have "filled N (w @ t) cmd'"
  proof -
    have "take (length (w @ t)) (take (length (w @ t @ [NUL])) cmd') = w @ t"
      using \<open>filled N (w @ t @ [NUL]) cmd'\<close> by (simp only: filled_def) simp
    then show ?thesis using \<open>filled N (w @ t @ [NUL]) cmd'\<close> by (simp add: filled_def min_def)
  qed
  ultimately show ?thesis using that [of cmd'] by (simp add: sprintf_at_def)
qed

abbreviation arg_bytes :: "string \<times> nat \<Rightarrow> string" where
  "arg_bytes \<equiv> \<lambda>(arg, len). take len arg"

definition bulks :: "(string \<times> nat) list \<Rightarrow> string" where
  "bulks args = concat (map (\<lambda>x. resp_bulk (arg_bytes x)) args)"

lemma build_args_spec:
  assumes "filled N w cmd" "\<forall>(a, l) \<in> set args. l \<le> length a"
    "length w + length (bulks args) < N"
  shows "\<exists>cmd'. build_args cmd (length w) args = Inr (cmd', length w + length (bulks args)) \<and>
    filled N (w @ bulks args) cmd'"
  using assms
proof (induction args arbitrary: w cmd)
  case (Cons al args)
  obtain a l where al: "al = (a, l)" by force
  then have l: "l \<le> length a" using Cons.prems(2) by simp
  let ?h = "CHR ''$'' # show_nat l @ CRLF" and ?d = "take l a"
  have bulk: "bulks (al # args) = (?h @ ?d @ [CR] @ [LF]) @ bulks args" using al l by (simp add: resp_bulk_def min_def bulks_def)
  have n: "length w + length (?h @ ?d @ [CR] @ [LF]) + length (bulks args) < N"
    using Cons.prems(3) unfolding bulk length_append by linarith
  have b: "length w + length ?h < N" "length (w @ ?h) + length ?d \<le> N" "length ((w @ ?h) @ ?d) + length [CR] \<le> N"
    "length (((w @ ?h) @ ?d) @ [CR]) + length [LF] \<le> N" using n by simp_all
  from filled_sprintf [OF Cons.prems(1) b(1)] obtain c1 where
    c1: "sprintf_at cmd (length w) ?h = Inr (c1, length (w @ ?h))" "filled N (w @ ?h) c1" .
  from filled_write [OF c1(2) b(2)] obtain c2 where
    c2: "mem_write c1 (length (w @ ?h)) ?d = Inr c2" "filled N ((w @ ?h) @ ?d) c2" .
  from filled_write [OF c2(2) b(3)] obtain c3 where
    c3: "mem_write c2 (length ((w @ ?h) @ ?d)) [CR] = Inr c3" "filled N (((w @ ?h) @ ?d) @ [CR]) c3" .
  from filled_write [OF c3(2) b(4)] obtain c4 where
    c4: "mem_write c3 (length (((w @ ?h) @ ?d) @ [CR])) [LF] = Inr c4" "filled N ((((w @ ?h) @ ?d) @ [CR]) @ [LF]) c4" .
  have p: "length ((w @ ?h) @ ?d) = length (w @ ?h) + l" "length (((w @ ?h) @ ?d) @ [CR]) = length (w @ ?h) + l + 1"
    "length ((((w @ ?h) @ ?d) @ [CR]) @ [LF]) = length (w @ ?h) + l + 2" using l by simp_all
  have pre: "\<forall>(a, l) \<in> set args. l \<le> length a"
    and n5: "length ((((w @ ?h) @ ?d) @ [CR]) @ [LF]) + length (bulks args) < N"
    using Cons.prems(2) n by simp_all
  from Cons.IH [OF c4(2) pre n5] obtain c5 where c5: "build_args c4 (length ((((w @ ?h) @ ?d) @ [CR]) @ [LF])) args =
      Inr (c5, length ((((w @ ?h) @ ?d) @ [CR]) @ [LF]) + length (bulks args))"
      "filled N (((((w @ ?h) @ ?d) @ [CR]) @ [LF]) @ bulks args) c5" by blast
  have "mem_read a 0 l = Inr ?d" using l by simp
  with c1(1) c2(1) c3(1) c4(1) c5(1) have "build_args cmd (length w) (al # args) =
      Inr (c5, length ((((w @ ?h) @ ?d) @ [CR]) @ [LF]) + length (bulks args))"
    unfolding p al by (simp only: build_args.simps bindr_simps prod.case)
  moreover have eq: "w @ bulks (al # args) = ((((w @ ?h) @ ?d) @ [CR]) @ [LF]) @ bulks args"
    unfolding bulk by (simp only: append_assoc)
  moreover have "length w + length (bulks (al # args)) = length ((((w @ ?h) @ ?d) @ [CR]) @ [LF]) + length (bulks args)"
    using arg_cong [OF eq, of length] unfolding length_append by linarith
  ultimately show ?case using c5(2) by (intro exI [of _ c5]) (simp only: simp_thms)
qed (simp add: bulks_def)

lemma build_command_spec:
  assumes "\<forall>(a, l) \<in> set args. l \<le> length a" "length cmd = length (resp_command (map arg_bytes args)) + 1"
  shows "build_command cmd (int (length (resp_command (map arg_bytes args)))) args =
    Inr (resp_command (map arg_bytes args) @ [NUL])"
proof -
  let ?N = "length (resp_command (map arg_bytes args)) + 1" and ?h = "CHR ''*'' # show_nat (length args) @ CRLF"
  let ?b = "bulks args"
  have cmd: "resp_command (map arg_bytes args) = ?h @ ?b" by (simp add: resp_command_def bulks_def comp_def)
  have "filled ?N [] cmd" using assms(2) by (simp add: filled_def)
  then obtain c1 where c1: "sprintf_at cmd 0 ?h = Inr (c1, length ?h)" "filled ?N ?h c1"
    using filled_sprintf [of ?N "[]" cmd ?h] unfolding cmd by auto
  from build_args_spec [OF c1(2) assms(1)] obtain c2 where
    c2: "build_args c1 (length ?h) args = Inr (c2, length (?h @ ?b))" "filled ?N (?h @ ?b) c2"
    unfolding cmd length_append by auto
  from filled_write [OF c2(2), of "[NUL]"] obtain c3 where
    c3: "mem_write c2 (length (?h @ ?b)) [NUL] = Inr c3" "filled ?N ((?h @ ?b) @ [NUL]) c3" unfolding cmd by auto
  have "c3 = (?h @ ?b) @ [NUL]" using c3(2) unfolding filled_def cmd by (metis length_append list.size(3,4) take_all_iff Suc_eq_plus1 add_0 le_refl)
  with c1(1) c2(1) c3(1) show ?thesis
    unfolding cmd by (simp only: build_command_def bindr_simps prod.case check_simps simp_thms)
qed

lemma map_res_mem_get:
  assumes "\<And>j. j < n \<Longrightarrow> f j = Inr (g j)"
  shows "map_res f [0..<n] = Inr (map g [0..<n])"
  using assms by (intro map_res_Inr) auto

text \<open>The arguments as the vector formatters see them: the first \<open>ls ! j\<close> bytes at \<open>argv ! j\<close>.\<close>

lemma arg_vector_lens:
  assumes "length ls = length argv"
  shows "arg_vector (length argv) argv (Some ls) = Inr (zip argv ls)"
proof -
  have "arg_vector (length argv) argv (Some ls) = Inr (map (\<lambda>j. (argv ! j, ls ! j)) [0..<length argv])"
    unfolding arg_vector_def using assms by (intro map_res_mem_get) (simp add: arg_len_def)
  moreover have "map (\<lambda>j. (argv ! j, ls ! j)) [0..<length argv] = zip argv ls"
    using assms by (intro nth_equalityI) simp_all
  ultimately show ?thesis by simp
qed

lemma arg_vector_strlen: "arg_vector (length argv) argv None = Inr (zip argv (map (\<lambda>a. length (cstr a)) argv))"
proof -
  have "arg_vector (length argv) argv None = Inr (map (\<lambda>j. (argv ! j, length (cstr (argv ! j)))) [0..<length argv])"
    unfolding arg_vector_def by (intro map_res_mem_get) (simp add: arg_len_def)
  moreover have "map (\<lambda>j. (argv ! j, length (cstr (argv ! j)))) [0..<length argv] = zip argv (map (\<lambda>a. length (cstr a)) argv)"
    by (intro nth_equalityI) simp_all
  ultimately show ?thesis by simp
qed

lemma bulks_Cons: "bulks ((a, l) # args) = resp_bulk (take l a) @ bulks args"
  by (simp add: bulks_def)

lemma totlen_int:
  assumes "\<forall>(a, l) \<in> set args. l \<le> length a" "t + length (bulks args) \<le> 2147483647"
  shows "fold (\<lambda>(_, len) totlen. int32 (totlen + int (bulklen len))) args (int t) = int (t + length (bulks args))"
  using assms
proof (induction args arbitrary: t)
  case (Cons x args)
  obtain a l where x: "x = (a, l)" by force
  have "length (take l a) = l" using Cons.prems(1) x by simp
  moreover have b: "t + length (resp_bulk (take l a)) + length (bulks args) \<le> 2147483647"
    using Cons.prems(2) unfolding x bulks_Cons length_append by linarith
  ultimately have "bulklen l = length (resp_bulk (take l a))" using bulklen_eq [of "take l a"] by simp
  then have "int32 (int t + int (bulklen l)) = int (t + length (resp_bulk (take l a)))" using b by simp
  with Cons.IH [OF _ b] Cons.prems(1) show ?case by (simp add: x bulks_Cons)
qed (simp add: bulks_def)

lemma totlen_size_t:
  assumes "\<forall>(a, l) \<in> set args. l \<le> length a" "t + length (bulks args) \<le> 2147483647"
  shows "fold (\<lambda>(_, len) totlen. size_t (int totlen + int (bulklen len))) args t = t + length (bulks args)"
  using assms
proof (induction args arbitrary: t)
  case (Cons x args)
  obtain a l where x: "x = (a, l)" by force
  have "length (take l a) = l" using Cons.prems(1) x by simp
  moreover have b: "t + length (resp_bulk (take l a)) + length (bulks args) \<le> 2147483647"
    using Cons.prems(2) unfolding x bulks_Cons length_append by linarith
  ultimately have "bulklen l = length (resp_bulk (take l a))" using bulklen_eq [of "take l a"] by simp
  then have "size_t (int t + int (bulklen l)) = t + length (resp_bulk (take l a))" using b by (auto intro!: size_t_eq)
  with Cons.IH [OF _ b] Cons.prems(1) show ?case by (simp add: x bulks_Cons)
qed (simp add: bulks_def)

lemma resp_command_args:
  "resp_command (map arg_bytes args) = CHR ''*'' # show_nat (length args) @ CRLF @ bulks args"
  by (simp add: resp_command_def bulks_def comp_def)

lemma redisFormatCommandArgv_spec:
  assumes al: "alloc_ok al" "\<not> may_fail al" and args: "arg_vector argc argv argvlen = Inr args" "length args = argc"
    "\<forall>(a, l) \<in> set args. l \<le> length a" and fits: "length (resp_command (map arg_bytes args)) < 2147483647"
  shows "redisFormatCommandArgv al True argc argv argvlen =
    Inr (int (length (resp_command (map arg_bytes args))), Some (resp_command (map arg_bytes args) @ [NUL]))"
proof -
  let ?c = "resp_command (map arg_bytes args)"
  have c: "length ?c = 1 + length (show_nat argc) + 2 + length (bulks args)" by (simp add: resp_command_args args(2))
  have i: "int32 (1 + int (countDigits argc) + 2) = int (1 + length (show_nat argc) + 2)"
    using fits c by (simp add: countDigits_eq)
  have t: "fold (\<lambda>(_, len) totlen. int32 (totlen + int (bulklen len))) args (int32 (1 + int (countDigits argc) + 2)) = int (length ?c)"
    unfolding i c by (rule totlen_int [OF args(3)]) (use fits c in linarith)
  have "size_t (int32 (int (length ?c) + 1)) = length ?c + 1" using fits by (auto intro!: size_t_eq)
  moreover obtain cmd where cmd: "al (length ?c + 1) = Some cmd" using al(2) by (cases "al (length ?c + 1)") auto
  moreover have "build_command cmd (int (length ?c)) args = Inr (?c @ [NUL])"
    by (rule build_command_spec [OF args(3) alloc_okD [OF al(1) cmd]])
  ultimately show ?thesis
    by (simp only: redisFormatCommandArgv_def args(1) bindr_simps Let_def t option.case simp_thms if_False)
qed

lemma fmt_text_bulk: "fmt_text (cstr (''$%T'' @ CRLF)) [FSize len] = Some (CHR ''$'' # show_nat len @ CRLF)"
  by (simp add: cstr_def fmt_conversion_def conv_text_def)

lemma fmt_text_multi: "int32 v = v \<Longrightarrow> fmt_text (cstr (''*%i'' @ CRLF)) [FInt v] = Some (CHR ''*'' # show_int v @ CRLF)"
  by (simp add: cstr_def fmt_conversion_def conv_text_def)

lemma sds_args_spec:
  assumes al: "alloc_ok al" "\<not> may_fail al"
  shows "sds_ok cmd \<Longrightarrow> \<forall>(a, l) \<in> set args. l \<le> length a \<Longrightarrow> sds_fits (sdslen cmd + length (bulks args) + 1) \<Longrightarrow>
    \<exists>cmd'. sds_args al cmd args = Inr cmd' \<and> sds_ok cmd' \<and> sds_val cmd' = sds_val cmd @ bulks args"
proof (induction args arbitrary: cmd)
  case (Cons x args)
  obtain a l where x: "x = (a, l)" by force
  then have l: "length (take l a) = l" "l \<le> length a" using Cons.prems(2) by auto
  let ?h = "CHR ''$'' # show_nat l @ CRLF"
  have bulk: "resp_bulk (take l a) = (?h @ take l a) @ CRLF" using l by (simp add: resp_bulk_def)
  have fits: "sds_fits (length (sds_val cmd) + length ?h + l + 2 + length (bulks args) + 1)"
    using Cons.prems(1,3) l unfolding x bulks_Cons bulk by (auto simp: sdslen_val elim!: sds_fits_mono)
  have "sds_fits (sdslen cmd + length ?h + 1)" using fits Cons.prems(1) by (auto simp: sdslen_val elim!: sds_fits_mono)
  from sdscatfmt_spec [OF al Cons.prems(1) fmt_text_bulk this] obtain c1 where
    c1: "sdscatfmt al cmd (''$%T'' @ CRLF) [FSize l] = Inr c1" "sds_ok c1" "sds_val c1 = sds_val cmd @ ?h" by blast
  have "sds_fits (sdslen c1 + length (take l a))" using fits c1 l by (auto simp: sdslen_val elim!: sds_fits_mono)
  from sdscatbytes_total [OF al c1(2) this] obtain c2 where
    c2: "sdscatbytes al c1 (take l a) = Inr c2" "sds_ok c2" "sds_val c2 = sds_val c1 @ take l a" .
  have "sds_fits (sdslen c2 + length CRLF)" using fits c1 c2 l by (auto simp: sdslen_val elim!: sds_fits_mono)
  from sdscatbytes_total [OF al c2(2) this] obtain c3 where
    c3: "sdscatbytes al c2 CRLF = Inr c3" "sds_ok c3" "sds_val c3 = sds_val c2 @ CRLF" .
  have v: "sds_val c3 = sds_val cmd @ resp_bulk (take l a)" unfolding bulk c1(3) c2(3) c3(3) by simp
  have "sds_fits (sdslen c3 + length (bulks args) + 1)"
    using fits c3(2) l unfolding sdslen_val [OF c3(2)] v bulk by (auto elim!: sds_fits_mono)
  from Cons.IH [OF c3(2) _ this] Cons.prems(2) obtain c4 where
    c4: "sds_args al c3 args = Inr c4" "sds_ok c4" "sds_val c4 = sds_val c3 @ bulks args" by auto
  have "sdscatlen al c1 a l = Inr c2" using c2(1) l by (simp add: sdscatlen_bytes)
  moreover have "sdscatlen al c2 (CRLF @ [NUL]) 2 = Inr c3" using c3(1) by (simp add: sdscatlen_bytes)
  ultimately have "sds_args al cmd (x # args) = Inr c4"
    using c1(1) c4(1) unfolding x by (simp only: sds_args.simps bindr_simps deref_Inr)
  with c4(2,3) v show ?case by (simp add: x bulks_Cons)
qed (simp add: bulks_def)

lemma redisFormatSdsCommandArgv_spec:
  assumes al: "alloc_ok al" "\<not> may_fail al" and args: "arg_vector argc argv argvlen = Inr args" "length args = argc"
    "\<forall>(a, l) \<in> set args. l \<le> length a" and fits: "sds_fits (length (resp_command (map arg_bytes args)) + 1)"
  shows "\<exists>cmd. redisFormatSdsCommandArgv al True argc argv argvlen =
      Inr (int (length (resp_command (map arg_bytes args))), Some cmd) \<and>
    sds_ok cmd \<and> sds_val cmd = resp_command (map arg_bytes args)"
proof -
  let ?c = "resp_command (map arg_bytes args)" and ?h = "CHR ''*'' # show_nat argc @ CRLF"
  have c: "?c = ?h @ bulks args" "length ?c = 1 + length (show_nat argc) + 2 + length (bulks args)"
    by (simp_all add: resp_command_args args(2))
  have n: "length ?c \<le> 2146435070" using fits by (simp add: sds_fits_def)
  have i: "size_t (1 + int (countDigits argc) + 2) = 1 + length (show_nat argc) + 2"
    using n c by (auto simp: countDigits_eq intro!: size_t_eq)
  have t: "fold (\<lambda>(_, len) totlen. size_t (int totlen + int (bulklen len))) args (size_t (1 + int (countDigits argc) + 2)) = length ?c"
    unfolding i c(2) by (rule totlen_size_t [OF args(3)]) (use n c in linarith)
  have ac: "int32 (int argc) = int argc"
  proof -
    have "argc \<le> length (bulks args)" using args(2) by (induction args arbitrary: argc) (auto simp: bulks_def resp_bulk_def)
    then show ?thesis using n c by simp
  qed
  from al obtain e where e: "sdsempty al = Inr e" "sds_ok e" "sds_val e = []" by (rule sdsempty_total)
  have "sds_fits (sdslen e + length ?c)" using fits e by (auto simp: sdslen_val elim: sds_fits_mono)
  from sdsMakeRoomFor_spec [OF al(1) e(2) this] al(2) e(3) obtain r where
    r: "sdsMakeRoomFor al e (length ?c) = Inr r" "sds_ok r" "sds_val r = []" by (auto dest!: returns_total)
  have m: "fmt_text (cstr (''*%i'' @ CRLF)) [FInt (int argc)] = Some ?h"
    using fmt_text_multi [OF ac] by (simp add: show_int_def)
  have "sds_fits (sdslen r + length ?h + 1)" using fits r c by (auto simp: sdslen_val elim!: sds_fits_mono)
  from sdscatfmt_spec [OF al r(2) m this] r(3) obtain d where
    d: "sdscatfmt al r (''*%i'' @ CRLF) [FInt (int argc)] = Inr d" "sds_ok d" "sds_val d = ?h" by auto
  have "sds_fits (sdslen d + length (bulks args) + 1)" using fits d c by (simp add: sdslen_val)
  from sds_args_spec [OF al d(2) args(3) this] d(3) c(1) obtain f where
    f: "sds_args al d args = Inr f" "sds_ok f" "sds_val f = ?c" by auto
  then have a: "sdslen f = length ?c" by (simp add: sdslen_val)
  have "int32 (int (length ?c)) = int (length ?c)" using n by simp
  then have "redisFormatSdsCommandArgv al True argc argv argvlen = Inr (int (length ?c), Some f)"
    by (simp only: redisFormatSdsCommandArgv_def args(1) bindr_simps Let_def t e(1) r(1) sum.case ac d(1) deref_Inr f(1) a
      check_simps simp_thms if_False)
  with f show ?thesis by simp
qed

section \<open>The formatter with conversions\<close>

text \<open>
  The variable arguments of \<open>redisvFormatCommand\<close>.  What \<open>vsnprintf\<close> prints for a format such as
  \<open>%08.3f\<close> and a number is the parameter \<open>pf\<close>; the type of floating point numbers is \<open>'d\<close>.
\<close>

datatype 'd va_value =
    VStr string          \<comment> \<open>\<open>char*\<close>, for \<open>%s\<close>\<close>
  | VBin string nat      \<comment> \<open>\<open>char*\<close> and \<open>size_t\<close>, for \<open>%b\<close>\<close>
  | VInt int             \<comment> \<open>\<open>int\<close>\<close>
  | VLong int            \<comment> \<open>\<open>long\<close>\<close>
  | VLLong int           \<comment> \<open>\<open>long long\<close>\<close>
  | VDouble 'd           \<comment> \<open>\<open>double\<close>\<close>

datatype va_kind = KInt | KLong | KLLong | KDouble

definition va_matches :: "va_kind \<Rightarrow> 'd va_value \<Rightarrow> bool" where
  "va_matches k v =
     (case (k, v) of
        (KInt, VInt _) \<Rightarrow> True | (KLong, VLong _) \<Rightarrow> True | (KLLong, VLLong _) \<Rightarrow> True
      | (KDouble, VDouble _) \<Rightarrow> True | _ \<Rightarrow> False)"

definition intfmts :: string where "intfmts = ''diouxX''"
definition fmt_flags :: string where "fmt_flags = ''#0-+ ''"
definition doublefmts :: string where "doublefmts = ''eEfFgGaA''"

text \<open>The byte a pointer into the format points to; at the end it is the terminator.\<close>

definition pch :: "string \<Rightarrow> char" where
  "pch p = (if p = [] then NUL else hd p)"

text \<open>Skipping flags, field width and precision.\<close>

definition skip_spec :: "string \<Rightarrow> string" where
  "skip_spec p =
     (let p = dropWhile (strchr_mem fmt_flags) p;
          p = dropWhile isdigit p
      in if pch p = CHR ''.'' then dropWhile isdigit (tl p) else p)"

text \<open>
  Recognising the conversion at \<open>_p\<close>: the kind of the argument and \<open>_p\<close> at \<open>fmt_valid\<close>, or
  \<open>None\<close> for \<open>fmt_invalid\<close>.  The first two tests use \<open>strchr\<close> without excluding the terminator.
\<close>

definition sized_conv :: "va_kind \<Rightarrow> string \<Rightarrow> (va_kind \<times> string) option" where
  "sized_conv k p = (if p \<noteq> [] \<and> strchr_mem intfmts (hd p) then Some (k, p) else None)"

definition conversion_at :: "string \<Rightarrow> (va_kind \<times> string) option" where
  "conversion_at p =
     (if strchr_mem intfmts (pch p) then Some (KInt, p)
      else if strchr_mem doublefmts (pch p) then Some (KDouble, p)
      else if pch p = CHR ''h'' \<and> pch (tl p) = CHR ''h'' then sized_conv KInt (drop 2 p)
      else if pch p = CHR ''h'' then sized_conv KInt (drop 1 p)
      else if pch p = CHR ''l'' \<and> pch (tl p) = CHR ''l'' then sized_conv KLLong (drop 2 p)
      else if pch p = CHR ''l'' then sized_conv KLong (drop 1 p)
      else None)"

lemma conversion_at_length: "conversion_at p = Some (k, q) \<Longrightarrow> length q \<le> length p"
  by (auto simp: conversion_at_def sized_conv_def split: if_splits)

lemma length_skip_spec: "length (skip_spec p) \<le> length p"
  unfolding skip_spec_def Let_def
  using length_dropWhile_le [of isdigit "tl (dropWhile isdigit (dropWhile (strchr_mem fmt_flags) p))"]
    length_dropWhile_le [of isdigit "dropWhile (strchr_mem fmt_flags) p"]
    length_dropWhile_le [of "strchr_mem fmt_flags" p]
  by auto

text \<open>Errors of the formatter: \<open>memory_err\<close> returns -1 and \<open>format_err\<close> returns -2.\<close>

datatype fmt_error = MemoryErr | FormatErr

type_synonym 'a fmt_res = "(fmt_error + 'a) res"

definition try_mem :: "'a res \<Rightarrow> ('a \<Rightarrow> 'b fmt_res) \<Rightarrow> 'b fmt_res" where
  "try_mem m f = (case m of Inl NoMem \<Rightarrow> Inr (Inl MemoryErr) | Inl e \<Rightarrow> Inl e | Inr x \<Rightarrow> f x)"

lemma try_mem_cong [fundef_cong]:
  "m = m' \<Longrightarrow> (\<And>x. m' = Inr x \<Longrightarrow> f x = f' x) \<Longrightarrow> try_mem m f = try_mem m' f'"
  by (auto simp: try_mem_def split: sum.splits cfail.splits)

lemma try_mem_Inr [simp]: "try_mem (Inr x) f = f x"
  by (simp add: try_mem_def)

record fmt_state =
  curarg :: sdshdr
  touched :: bool
  curargv :: "sdshdr list"
  fs_totlen :: int

definition push_arg :: "allocator \<Rightarrow> fmt_state \<Rightarrow> fmt_state res" where
  "push_arg al st =
     (if al (8 * (length (curargv st) + 1)) = None then Inl NoMem
      else Inr (st\<lparr>curargv := curargv st @ [curarg st],
                   fs_totlen := int32 (fs_totlen st + int (bulklen (sdslen (curarg st))))\<rparr>))"

text \<open>
  The loop over the format.  After a valid number conversion of less than 14 bytes the pointer moves
  past it; when the conversion ended at the terminator this leaves the format.  A longer conversion is
  skipped like an unknown two byte sequence, its argument being consumed.
\<close>

function cmd_loop :: "allocator \<Rightarrow> (string \<Rightarrow> 'd va_value \<Rightarrow> string) \<Rightarrow> string \<Rightarrow> 'd va_value list \<Rightarrow> fmt_state \<Rightarrow> fmt_state fmt_res" where
  "cmd_loop al pf c ap st =
     (if c = [] then Inr (Inr st)
      else if hd c \<noteq> CHR ''%'' \<or> tl c = [] then
        if hd c = CHR '' '' then
          if touched st then
            try_mem (push_arg al st) (\<lambda>st.
            try_mem (sdsempty al) (\<lambda>a. cmd_loop al pf (tl c) ap (st\<lparr>curarg := a, touched := False\<rparr>)))
          else cmd_loop al pf (tl c) ap st
        else
          try_mem (sdscatlen al (curarg st) [hd c] 1) (\<lambda>a.
          cmd_loop al pf (tl c) ap (st\<lparr>curarg := a, touched := True\<rparr>))
      else if c ! 1 = CHR ''s'' then
        (case ap of
           VStr arg # ap \<Rightarrow>
             try_mem (if 0 < length (cstr arg) then sdscatlen al (curarg st) arg (length (cstr arg)) else Inr (curarg st)) (\<lambda>a.
             cmd_loop al pf (drop 2 c) ap (st\<lparr>curarg := a, touched := True\<rparr>))
         | _ \<Rightarrow> Inl OutOfBounds)
      else if c ! 1 = CHR ''b'' then
        (case ap of
           VBin arg n # ap \<Rightarrow>
             try_mem (if 0 < n then sdscatlen al (curarg st) arg n else Inr (curarg st)) (\<lambda>a.
             cmd_loop al pf (drop 2 c) ap (st\<lparr>curarg := a, touched := True\<rparr>))
         | _ \<Rightarrow> Inl OutOfBounds)
      else if c ! 1 = CHR ''%'' then
        try_mem (sdscat al (curarg st) ''%'') (\<lambda>a.
        cmd_loop al pf (drop 2 c) ap (st\<lparr>curarg := a, touched := True\<rparr>))
      else
        (case conversion_at (skip_spec (tl c)) of
           None \<Rightarrow> Inr (Inl FormatErr)
         | Some (kind, p) \<Rightarrow>
             (case ap of
                [] \<Rightarrow> Inl OutOfBounds
              | v # ap \<Rightarrow>
                  if \<not> va_matches kind v then Inl OutOfBounds
                  else
                    let l = length c - length p + 1 in
                    if l < 14 then
                      try_mem (sdscatvprintf al (curarg st) (pf (cstr (take l (c @ [NUL]))) v)) (\<lambda>a.
                      if p = [] then Inl OutOfBounds
                      else cmd_loop al pf (tl p) ap (st\<lparr>curarg := a, touched := True\<rparr>))
                    else cmd_loop al pf (drop 2 c) ap (st\<lparr>touched := True\<rparr>))))"
  by pat_completeness auto
termination
proof (relation "measure (\<lambda>(al, pf, c, ap, st). length c)", goal_cases)
  case (8 al pf c ap st x kind p v ap' l)
  then have "length p \<le> length (tl c)"
    using conversion_at_length [of "skip_spec (tl c)" kind p] length_skip_spec [of "tl c"] by auto
  with 8 show ?case by (cases c) (auto simp flip: length_greater_0_conv)
qed (auto simp flip: length_greater_0_conv)

declare cmd_loop.simps [simp del]

definition redisvFormatCommand ::
    "allocator \<Rightarrow> (string \<Rightarrow> 'd va_value \<Rightarrow> string) \<Rightarrow> bool \<Rightarrow> string \<Rightarrow> 'd va_value list \<Rightarrow> (int \<times> string option) res" where
  "redisvFormatCommand al pf target format ap =
     (if \<not> target then Inr (- 1, None)
      else case sdsempty al of
        Inl NoMem \<Rightarrow> Inr (- 1, None)
      | Inl e \<Rightarrow> Inl e
      | Inr a \<Rightarrow>
          bindr (
            bindr (cmd_loop al pf (cstr format) ap \<lparr>curarg = a, touched = False, curargv = [], fs_totlen = 0\<rparr>) (\<lambda>r.
            case r of
              Inl e \<Rightarrow> Inr (Inl e)
            | Inr st \<Rightarrow>
                try_mem (if touched st then push_arg al st else Inr st) (\<lambda>st.
                let args = map (\<lambda>s. (sh_buf s, sdslen s)) (curargv st);
                    totlen = int32 (fs_totlen st + (1 + int (countDigits (length args)) + 2))
                in case al (size_t (int32 (totlen + 1))) of
                     None \<Rightarrow> Inr (Inl MemoryErr)
                   | Some cmd \<Rightarrow> bindr (build_command cmd totlen args) (\<lambda>cmd. Inr (Inr (totlen, cmd)))))) (\<lambda>r.
          case r of
            Inl MemoryErr \<Rightarrow> Inr (- 1, None)
          | Inl FormatErr \<Rightarrow> Inr (- 2, None)
          | Inr (totlen, cmd) \<Rightarrow> Inr (totlen, Some cmd)))"

definition redisFormatCommand ::
    "allocator \<Rightarrow> (string \<Rightarrow> 'd va_value \<Rightarrow> string) \<Rightarrow> bool \<Rightarrow> string \<Rightarrow> 'd va_value list \<Rightarrow> (int \<times> string option) res" where
  "redisFormatCommand al pf target format ap =
     bindr (redisvFormatCommand al pf target format ap) (\<lambda>(len, cmd).
     Inr (if len < 0 then - 1 else len, cmd))"

section \<open>What a format describes\<close>

text \<open>
  A format as its author sees it: words separated by spaces, each a sequence of pieces.  Every word is
  one argument of the command, whatever bytes its interpolated values contain.
\<close>

datatype 'd piece =
    PChar char | PPercent | PStr string | PBin string nat | PInt int | PLLong int

fun piece_ok :: "(string \<Rightarrow> 'd va_value \<Rightarrow> string) \<Rightarrow> 'd piece \<Rightarrow> bool" where
  "piece_ok pf (PChar c) \<longleftrightarrow> c \<noteq> CHR '' '' \<and> c \<noteq> CHR ''%'' \<and> c \<noteq> NUL"
| "piece_ok pf PPercent \<longleftrightarrow> True"
| "piece_ok pf (PStr s) \<longleftrightarrow> True"
| "piece_ok pf (PBin s n) \<longleftrightarrow> n \<le> length s"
| "piece_ok pf (PInt v) \<longleftrightarrow> NUL \<notin> set (pf ''%d'' (VInt v))"
| "piece_ok pf (PLLong v) \<longleftrightarrow> NUL \<notin> set (pf ''%lld'' (VLLong v))"

fun piece_fmt :: "'d piece \<Rightarrow> string" where
  "piece_fmt (PChar c) = [c]"
| "piece_fmt PPercent = ''%%''"
| "piece_fmt (PStr s) = ''%s''"
| "piece_fmt (PBin s n) = ''%b''"
| "piece_fmt (PInt v) = ''%d''"
| "piece_fmt (PLLong v) = ''%lld''"

fun piece_args :: "'d piece \<Rightarrow> 'd va_value list" where
  "piece_args (PStr s) = [VStr s]"
| "piece_args (PBin s n) = [VBin s n]"
| "piece_args (PInt v) = [VInt v]"
| "piece_args (PLLong v) = [VLLong v]"
| "piece_args _ = []"

fun piece_text :: "(string \<Rightarrow> 'd va_value \<Rightarrow> string) \<Rightarrow> 'd piece \<Rightarrow> string" where
  "piece_text pf (PChar c) = [c]"
| "piece_text pf PPercent = ''%''"
| "piece_text pf (PStr s) = cstr s"
| "piece_text pf (PBin s n) = take n s"
| "piece_text pf (PInt v) = pf ''%d'' (VInt v)"
| "piece_text pf (PLLong v) = pf ''%lld'' (VLLong v)"

definition word_text :: "(string \<Rightarrow> 'd va_value \<Rightarrow> string) \<Rightarrow> 'd piece list \<Rightarrow> string" where
  "word_text pf w = concat (map (piece_text pf) w)"

definition words_fmt :: "'d piece list list \<Rightarrow> string" where
  "words_fmt ws = join_with '' '' (map (\<lambda>w. concat (map piece_fmt w)) ws)"

definition words_args :: "'d piece list list \<Rightarrow> 'd va_value list" where
  "words_args ws = concat (map piece_args (concat ws))"

lemma try_cat:
  assumes al: "alloc_ok al" "\<not> may_fail al" and s: "sds_ok s" and fits: "sds_fits (length (sds_val s) + length t)"
  obtains a where "sdscatbytes al s t = Inr a" "sds_ok a" "sds_val a = sds_val s @ t"
  using sdscatbytes_total [OF al s] fits s by (auto simp: sdslen_val)

lemma empty_cat:
  assumes al: "alloc_ok al" "\<not> may_fail al" and s: "sds_ok s" and fits: "sds_fits (length (sds_val s) + length t)"
  obtains a where "(if 0 < length t then sdscatbytes al s t else Inr s) = Inr a" "sds_ok a" "sds_val a = sds_val s @ t"
proof (cases "t = []")
  case True
  with that [of s] s show ?thesis by simp
next
  case False
  with try_cat [OF al s fits] that show ?thesis by auto
qed

lemma conversion_d: "conversion_at (skip_spec (CHR ''d'' # c)) = Some (KInt, CHR ''d'' # c)"
  by (simp add: skip_spec_def conversion_at_def pch_def strchr_mem_def fmt_flags_def intfmts_def cstr_def isdigit_def)

lemma conversion_lld: "conversion_at (skip_spec (CHR ''l'' # CHR ''l'' # CHR ''d'' # c)) = Some (KLLong, CHR ''d'' # c)"
  by (simp add: skip_spec_def conversion_at_def pch_def sized_conv_def strchr_mem_def fmt_flags_def intfmts_def doublefmts_def
    cstr_def isdigit_def)

lemma cmd_loop_piece:
  assumes al: "alloc_ok al" "\<not> may_fail al" and s: "sds_ok (curarg st)"
    and p: "piece_ok pf p" and fits: "sds_fits (length (sds_val (curarg st)) + length (piece_text pf p))"
  shows "\<exists>a. cmd_loop al pf (piece_fmt p @ c) (piece_args p @ ap) st = cmd_loop al pf c ap (st\<lparr>curarg := a, touched := True\<rparr>) \<and>
    sds_ok a \<and> sds_val a = sds_val (curarg st) @ piece_text pf p"
proof (cases p)
  case (PChar x)
  with fits try_cat [OF al s, of "[x]"] obtain a where "sdscatbytes al (curarg st) [x] = Inr a" "sds_ok a"
    "sds_val a = sds_val (curarg st) @ [x]" by auto
  with PChar p show ?thesis
    by (intro exI [of _ a]) (simp add: cmd_loop.simps [of al pf "x # c"] sdscatlen_bytes)
next
  case PPercent
  with fits try_cat [OF al s, of "''%''"] obtain a where "sdscatbytes al (curarg st) ''%'' = Inr a" "sds_ok a"
    "sds_val a = sds_val (curarg st) @ ''%''" by auto
  with PPercent show ?thesis
    by (intro exI [of _ a]) (simp add: cmd_loop.simps [of al pf "CHR ''%'' # _"] sdscat_bytes cstr_def)
next
  case (PStr x)
  with fits empty_cat [OF al s, of "cstr x"] obtain a where
    a: "(if 0 < length (cstr x) then sdscatbytes al (curarg st) (cstr x) else Inr (curarg st)) = Inr a" "sds_ok a"
    "sds_val a = sds_val (curarg st) @ cstr x" by auto
  have "(if 0 < length (cstr x) then sdscatlen al (curarg st) x (length (cstr x)) else Inr (curarg st)) = Inr a"
    using a(1) by (simp add: sdscatlen_bytes split: if_splits)
  with PStr a(2,3) show ?thesis
    by (intro exI [of _ a]) (simp add: cmd_loop.simps [of al pf "CHR ''%'' # _"] del: length_greater_0_conv)
next
  case (PBin x n)
  with p have n: "n \<le> length x" "length (take n x) = n" by auto
  with PBin fits empty_cat [OF al s, of "take n x"] obtain a where
    a: "(if 0 < length (take n x) then sdscatbytes al (curarg st) (take n x) else Inr (curarg st)) = Inr a" "sds_ok a"
    "sds_val a = sds_val (curarg st) @ take n x" by auto
  have "(if 0 < n then sdscatlen al (curarg st) x n else Inr (curarg st)) = Inr a"
    using a(1) n by (simp add: sdscatlen_bytes split: if_splits)
  with PBin a(2,3) show ?thesis
    by (intro exI [of _ a]) (simp add: cmd_loop.simps [of al pf "CHR ''%'' # _"])
next
  case (PInt v)
  let ?t = "pf ''%d'' (VInt v)"
  have "sds_fits (sdslen (curarg st) + length ?t)" using fits s PInt by (simp add: sdslen_val)
  from sdscatvprintf_spec [OF al(1) s this] p PInt al(2) obtain a where
    "sdscatvprintf al (curarg st) ?t = Inr a" "sds_ok a" "sds_val a = sds_val (curarg st) @ ?t" by (auto dest!: returns_total)
  with PInt show ?thesis
    by (intro exI [of _ a]) (simp add: cmd_loop.simps [of al pf "CHR ''%'' # _"] conversion_d va_matches_def cstr_def Let_def)
next
  case (PLLong v)
  let ?t = "pf ''%lld'' (VLLong v)"
  have "sds_fits (sdslen (curarg st) + length ?t)" using fits s PLLong by (simp add: sdslen_val)
  from sdscatvprintf_spec [OF al(1) s this] p PLLong al(2) obtain a where
    "sdscatvprintf al (curarg st) ?t = Inr a" "sds_ok a" "sds_val a = sds_val (curarg st) @ ?t" by (auto dest!: returns_total)
  with PLLong show ?thesis
    by (intro exI [of _ a]) (simp add: cmd_loop.simps [of al pf "CHR ''%'' # _"] conversion_lld va_matches_def cstr_def Let_def)
qed

lemma cmd_loop_word:
  assumes al: "alloc_ok al" "\<not> may_fail al"
  shows "sds_ok (curarg st) \<Longrightarrow> \<forall>p \<in> set w. piece_ok pf p \<Longrightarrow>
    sds_fits (length (sds_val (curarg st)) + length (word_text pf w)) \<Longrightarrow>
    \<exists>a. cmd_loop al pf (concat (map piece_fmt w) @ c) (concat (map piece_args w) @ ap) st =
        cmd_loop al pf c ap (st\<lparr>curarg := a, touched := touched st \<or> w \<noteq> []\<rparr>) \<and>
      sds_ok a \<and> sds_val a = sds_val (curarg st) @ word_text pf w"
proof (induction w arbitrary: st)
  case Nil
  have "st\<lparr>curarg := curarg st, touched := touched st\<rparr> = st" by (cases st) simp
  with Nil show ?case by (intro exI [of _ "curarg st"]) (simp add: word_text_def)
next
  case (Cons p w)
  have f: "sds_fits (length (sds_val (curarg st)) + length (piece_text pf p))"
    using Cons.prems(3) by (rule sds_fits_mono) (simp add: word_text_def)
  from cmd_loop_piece [OF al Cons.prems(1) _ f, of "concat (map piece_fmt w) @ c" "concat (map piece_args w) @ ap"] Cons.prems(2)
  obtain a where a: "cmd_loop al pf (piece_fmt p @ concat (map piece_fmt w) @ c) (piece_args p @ concat (map piece_args w) @ ap) st =
      cmd_loop al pf (concat (map piece_fmt w) @ c) (concat (map piece_args w) @ ap) (st\<lparr>curarg := a, touched := True\<rparr>)"
    "sds_ok a" "sds_val a = sds_val (curarg st) @ piece_text pf p" by auto
  let ?st = "st\<lparr>curarg := a, touched := True\<rparr>"
  have "sds_fits (length (sds_val (curarg ?st)) + length (word_text pf w))"
    using Cons.prems(3) a(3) by (simp add: word_text_def add.assoc)
  from Cons.IH [of ?st, OF _ _ this] a Cons.prems(2) show ?case by (auto simp: word_text_def)
qed

text \<open>The arguments pushed so far, with the size they need.\<close>

definition fmt_inv :: "fmt_state \<Rightarrow> string list \<Rightarrow> bool" where
  "fmt_inv st dn \<longleftrightarrow> sds_ok (curarg st) \<and> (\<forall>s \<in> set (curargv st). sds_ok s) \<and> map sds_val (curargv st) = dn \<and>
     fs_totlen st = int (length (concat (map resp_bulk dn)))"

lemma push_arg_spec:
  assumes "\<not> may_fail al" "fmt_inv st dn"
    and fits: "length (concat (map resp_bulk dn)) + length (resp_bulk (sds_val (curarg st))) \<le> 2147483647"
  obtains st' where "push_arg al st = Inr st'" "fmt_inv st' (dn @ [sds_val (curarg st)])"
proof -
  let ?t = "fs_totlen st + int (bulklen (sdslen (curarg st)))"
  have ok: "sds_ok (curarg st)" using assms(2) by (simp add: fmt_inv_def)
  have "bulklen (sdslen (curarg st)) = length (resp_bulk (sds_val (curarg st)))"
    using fits unfolding sdslen_val [OF ok] by (intro bulklen_eq) simp
  then have "int32 ?t = int (length (concat (map resp_bulk (dn @ [sds_val (curarg st)]))))"
    using assms(2) fits by (simp add: fmt_inv_def)
  moreover have "al (8 * (length (curargv st) + 1)) \<noteq> None" using assms(1) by auto
  ultimately show ?thesis
    using that [of "st\<lparr>curargv := curargv st @ [curarg st], fs_totlen := int32 ?t\<rparr>"] assms(2)
    by (simp add: push_arg_def fmt_inv_def)
qed

lemma length_resp_bulk: "length s \<le> length (resp_bulk s)"
  by (simp add: resp_bulk_def)

lemma cmd_loop_last_word:
  assumes al: "alloc_ok al" "\<not> may_fail al" and st: "fmt_inv st dn" "sds_val (curarg st) = []" "w \<noteq> []"
    and w: "\<forall>p \<in> set w. piece_ok pf p"
    and fits: "length (concat (map resp_bulk (dn @ [word_text pf w]))) \<le> 2146435071"
  obtains st1 st2 where
    "cmd_loop al pf (concat (map piece_fmt w) @ c) (concat (map piece_args w) @ ap) st = cmd_loop al pf c ap st1"
    "touched st1" "push_arg al st1 = Inr st2" "fmt_inv st2 (dn @ [word_text pf w])"
proof -
  have "sds_ok (curarg st)" using st by (simp add: fmt_inv_def)
  moreover have "sds_fits (length (sds_val (curarg st)) + length (word_text pf w))"
    using fits length_resp_bulk [of "word_text pf w"] st(2) by (simp add: sds_fits_def)
  ultimately obtain a where a: "cmd_loop al pf (concat (map piece_fmt w) @ c) (concat (map piece_args w) @ ap) st =
        cmd_loop al pf c ap (st\<lparr>curarg := a, touched := touched st \<or> w \<noteq> []\<rparr>)"
      "sds_ok a" "sds_val a = word_text pf w"
    using cmd_loop_word [OF al _ w, of st] st(2) by auto
  let ?st = "st\<lparr>curarg := a, touched := touched st \<or> w \<noteq> []\<rparr>"
  have "fmt_inv ?st dn" using st(1) a(2) by (simp add: fmt_inv_def)
  moreover have "length (concat (map resp_bulk dn)) + length (resp_bulk (sds_val (curarg ?st))) \<le> 2147483647"
    using fits a(3) by simp
  ultimately obtain st2 where "push_arg al ?st = Inr st2" "fmt_inv st2 (dn @ [sds_val (curarg ?st)])"
    by (rule push_arg_spec [OF al(2)])
  with a(1,3) st(3) that [of ?st st2] show ?thesis by simp
qed

lemma cmd_loop_words:
  assumes al: "alloc_ok al" "\<not> may_fail al"
  shows "fmt_inv st dn \<Longrightarrow> sds_val (curarg st) = [] \<Longrightarrow> \<not> touched st \<Longrightarrow> \<forall>w \<in> set ws. w \<noteq> [] \<and> (\<forall>p \<in> set w. piece_ok pf p) \<Longrightarrow>
    length (concat (map resp_bulk (dn @ map (word_text pf) ws))) \<le> 2146435071 \<Longrightarrow>
    \<exists>st1 st2. cmd_loop al pf (words_fmt ws) (words_args ws) st = Inr (Inr st1) \<and>
      (if touched st1 then push_arg al st1 else Inr st1) = Inr st2 \<and> fmt_inv st2 (dn @ map (word_text pf) ws)"
proof (induction ws arbitrary: st dn rule: induct_list012)
  case 1
  then show ?case by (simp add: words_fmt_def words_args_def join_with_def cmd_loop.simps)
next
  case (2 w)
  from "2.prems"(4) have w: "w \<noteq> []" "\<forall>p \<in> set w. piece_ok pf p" by auto
  have "length (concat (map resp_bulk (dn @ [word_text pf w]))) \<le> 2146435071" using "2.prems"(5) by simp
  from cmd_loop_last_word [OF al "2.prems"(1,2) w this, of "[]" "[]"] obtain st1 st2 where
    "cmd_loop al pf (concat (map piece_fmt w) @ []) (concat (map piece_args w) @ []) st = cmd_loop al pf [] [] st1"
    "touched st1" "push_arg al st1 = Inr st2" "fmt_inv st2 (dn @ [word_text pf w])" .
  then show ?case by (simp add: words_fmt_def words_args_def join_with_def cmd_loop.simps [of al pf "[]"])
next
  case (3 w v ws)
  from "3.prems"(4) have w: "w \<noteq> []" "\<forall>p \<in> set w. piece_ok pf p" by auto
  have f: "words_fmt (w # v # ws) = concat (map piece_fmt w) @ CHR '' '' # words_fmt (v # ws)"
    "words_args (w # v # ws) = concat (map piece_args w) @ words_args (v # ws)"
    by (simp_all add: words_fmt_def words_args_def join_with_def)
  have "length (concat (map resp_bulk (dn @ [word_text pf w]))) \<le> 2146435071" using "3.prems"(5) by simp
  from cmd_loop_last_word [OF al "3.prems"(1,2) w this, of "CHR '' '' # words_fmt (v # ws)" "words_args (v # ws)"]
  obtain st1 st2 where st2: "cmd_loop al pf (words_fmt (w # v # ws)) (words_args (w # v # ws)) st =
      cmd_loop al pf (CHR '' '' # words_fmt (v # ws)) (words_args (v # ws)) st1"
    "touched st1" "push_arg al st1 = Inr st2" "fmt_inv st2 (dn @ [word_text pf w])" unfolding f .
  obtain e where e: "sdsempty al = Inr e" "sds_ok e" "sds_val e = []" using al by (rule sdsempty_total)
  let ?st = "st2\<lparr>curarg := e, touched := False\<rparr>"
  have "cmd_loop al pf (words_fmt (w # v # ws)) (words_args (w # v # ws)) st = cmd_loop al pf (words_fmt (v # ws)) (words_args (v # ws)) ?st"
    unfolding st2(1) by (subst cmd_loop.simps) (simp add: st2 e)
  moreover have "fmt_inv ?st (dn @ [word_text pf w])" using st2(4) e by (simp add: fmt_inv_def)
  then have "\<exists>st1 st2. cmd_loop al pf (words_fmt (v # ws)) (words_args (v # ws)) ?st = Inr (Inr st1) \<and>
      (if touched st1 then push_arg al st1 else Inr st1) = Inr st2 \<and>
      fmt_inv st2 ((dn @ [word_text pf w]) @ map (word_text pf) (v # ws))"
    by (rule "3.IH"(2)) (use e "3.prems"(4,5) in auto)
  ultimately show ?case by simp
qed

lemma redisvFormatCommand_spec:
  assumes al: "alloc_ok al" "\<not> may_fail al" and ws: "\<forall>w \<in> set ws. w \<noteq> [] \<and> (\<forall>p \<in> set w. piece_ok pf p)"
    and fmt: "NUL \<notin> set (words_fmt ws)"
    and fits: "length (resp_command (map (word_text pf) ws)) \<le> 2146435071"
  shows "redisvFormatCommand al pf True (words_fmt ws) (words_args ws) =
    Inr (int (length (resp_command (map (word_text pf) ws))), Some (resp_command (map (word_text pf) ws) @ [NUL]))"
proof -
  let ?args = "map (word_text pf) ws" and ?c = "resp_command (map (word_text pf) ws)"
  obtain e where e: "sdsempty al = Inr e" "sds_ok e" "sds_val e = []" using al by (rule sdsempty_total)
  let ?st = "\<lparr>curarg = e, touched = False, curargv = [], fs_totlen = 0\<rparr>"
  have "fmt_inv ?st []" using e by (simp add: fmt_inv_def)
  from cmd_loop_words [OF al this _ _ ws] e fits obtain st1 st2 where
    st: "cmd_loop al pf (words_fmt ws) (words_args ws) ?st = Inr (Inr st1)"
      "(if touched st1 then push_arg al st1 else Inr st1) = Inr st2" "fmt_inv st2 ?args" by (auto simp: resp_command_def)
  let ?v = "map (\<lambda>s. (sh_buf s, sdslen s)) (curargv st2)"
  from st(3) have inv: "\<forall>s \<in> set (curargv st2). sds_ok s" "map sds_val (curargv st2) = ?args"
    "fs_totlen st2 = int (length (concat (map resp_bulk ?args)))" by (simp_all add: fmt_inv_def)
  have "arg_bytes (sh_buf s, sdslen s) = sds_val s \<and> sdslen s \<le> length (sh_buf s)" if "sds_ok s" for s
    using that by (elim sds_okE) simp
  then have v: "map arg_bytes ?v = ?args" "\<forall>(a, l) \<in> set ?v. l \<le> length a" "length ?v = length ?args"
    using inv(1) arg_cong [OF inv(2), of length] unfolding inv(2) [symmetric] by auto
  have n: "int32 (fs_totlen st2 + (1 + int (countDigits (length ?v)) + 2)) = int (length ?c)"
    "size_t (int32 (int (length ?c) + 1)) = length ?c + 1"
    using fits inv(3) v(3) by (auto simp: countDigits_eq resp_command_def intro!: size_t_eq)
  obtain cmd where cmd: "al (length ?c + 1) = Some cmd" using al(2) by (cases "al (length ?c + 1)") auto
  have "build_command cmd (int (length ?c)) ?v = Inr (?c @ [NUL])"
    using build_command_spec [OF v(2), of cmd] alloc_okD [OF al(1) cmd] unfolding v(1) by blast
  with e(1) st(1,2) n cmd show ?thesis
    by (simp only: redisvFormatCommand_def cstr_id [OF fmt] bindr_simps sum.case try_mem_Inr Let_def option.case prod.case
      simp_thms if_False)
qed

section \<open>Properties\<close>

text \<open>\<open>redisFormatCommandArgv\<close> produces exactly the unified request of its arguments (any bytes,
  with explicit lengths), terminated by a NUL, and returns its length; in particular the size it
  allocates is the size it writes and \<open>assert(pos == totlen)\<close> holds.\<close>

theorem redisFormatCommandArgv_correct:
  assumes "alloc_ok al" "\<not> may_fail al" "length ls = length argv" "\<forall>j < length argv. ls ! j \<le> length (argv ! j)"
    and "length (resp_command (map2 take ls argv)) < 2147483647"
  shows "redisFormatCommandArgv al True (length argv) argv (Some ls) =
    Inr (int (length (resp_command (map2 take ls argv))), Some (resp_command (map2 take ls argv) @ [NUL]))"
proof -
  have m: "map arg_bytes (zip argv ls) = map2 take ls argv" using assms(3) by (intro nth_equalityI) simp_all
  have "\<forall>(a, l) \<in> set (zip argv ls). l \<le> length a" using assms(3,4) by (auto simp: set_zip)
  from redisFormatCommandArgv_spec [OF assms(1,2) arg_vector_lens [OF assms(3)] _ this] assms(3,5) show ?thesis
    unfolding m by simp
qed

theorem redisFormatCommandArgv_correct_witness:
  "redisFormatCommandArgv (fill_alloc NUL) True (length [''GET'', ''k'' @ [NUL] @ ''y'']) [''GET'', ''k'' @ [NUL] @ ''y''] (Some [3, 3]) =
     Inr (22, Some (''*2'' @ CRLF @ ''$3'' @ CRLF @ ''GET'' @ CRLF @ ''$3'' @ CRLF @ ''k'' @ [NUL] @ ''y'' @ CRLF @ [NUL]))"
proof -
  let ?argv = "[''GET'', ''k'' @ [NUL] @ ''y'']"
  have c: "resp_command (map2 take [3, 3] ?argv) = ''*2'' @ CRLF @ ''$3'' @ CRLF @ ''GET'' @ CRLF @ ''$3'' @ CRLF @ ''k'' @ [NUL] @ ''y'' @ CRLF"
    by code_simp
  have "\<forall>j < length ?argv. [3, 3] ! j \<le> length (?argv ! j)" by (simp add: less_Suc_eq)
  from redisFormatCommandArgv_correct [OF fill_alloc_ok fill_alloc_never_fails _ this] show ?thesis unfolding c by simp
qed

text \<open>\<open>redisFormatSdsCommandArgv\<close> builds the same request in a well-formed sds string, and its
  assertion on the length holds.\<close>

theorem redisFormatSdsCommandArgv_correct:
  assumes "alloc_ok al" "\<not> may_fail al" "sds_fits (length (resp_command (map cstr argv)) + 1)"
  shows "\<exists>cmd. redisFormatSdsCommandArgv al True (length argv) argv None =
      Inr (int (length (resp_command (map cstr argv))), Some cmd) \<and> sds_ok cmd \<and> sds_val cmd = resp_command (map cstr argv)"
proof -
  let ?args = "zip argv (map (\<lambda>a. length (cstr a)) argv)"
  have m: "map arg_bytes ?args = map cstr argv" by (intro nth_equalityI) simp_all
  have "\<forall>(a, l) \<in> set ?args. l \<le> length a" by (auto simp: set_zip)
  from redisFormatSdsCommandArgv_spec [OF assms(1,2) arg_vector_strlen _ this] assms(3) show ?thesis unfolding m by simp
qed

theorem redisFormatSdsCommandArgv_correct_witness:
  "\<exists>cmd. redisFormatSdsCommandArgv (fill_alloc NUL) True (length [''PING'']) [''PING''] None = Inr (14, Some cmd) \<and>
     sds_val cmd = ''*1'' @ CRLF @ ''$4'' @ CRLF @ ''PING'' @ CRLF"
proof -
  have c: "resp_command (map cstr [''PING'']) = ''*1'' @ CRLF @ ''$4'' @ CRLF @ ''PING'' @ CRLF" by code_simp
  show ?thesis
    using redisFormatSdsCommandArgv_correct [OF fill_alloc_ok fill_alloc_never_fails, of "[''PING'']" NUL]
    unfolding c by (auto simp: sds_fits_def)
qed

text \<open>C14: \<open>redisvFormatCommand\<close> turns a format of space separated words into the request with one
  argument per word, the interpolated strings, binary strings and integers in place; spaces, CR and LF
  inside an interpolated value never split or end an argument.\<close>

theorem redisvFormatCommand_words:
  assumes "alloc_ok al" "\<not> may_fail al" "\<forall>w \<in> set ws. w \<noteq> [] \<and> (\<forall>p \<in> set w. piece_ok pf p)"
    and "NUL \<notin> set (words_fmt ws)" "length (resp_command (map (word_text pf) ws)) \<le> 2146435071"
  shows "redisvFormatCommand al pf True (words_fmt ws) (words_args ws) =
    Inr (int (length (resp_command (map (word_text pf) ws))), Some (resp_command (map (word_text pf) ws) @ [NUL]))"
  using redisvFormatCommand_spec [OF assms] .

theorem redisvFormatCommand_words_witness:
  "redisvFormatCommand (fill_alloc NUL) (\<lambda>_ _. ''7'') True ''SET k%s %b'' [VStr ''a b'', VBin [CR, LF, NUL] 3 :: nat va_value] =
     Inr (32, Some (''*3'' @ CRLF @ ''$3'' @ CRLF @ ''SET'' @ CRLF @ ''$4'' @ CRLF @ ''ka b'' @ CRLF @
       ''$3'' @ CRLF @ [CR, LF, NUL] @ CRLF @ [NUL]))"
proof -
  let ?ws = "[[PChar CHR ''S'', PChar CHR ''E'', PChar CHR ''T''], [PChar CHR ''k'', PStr ''a b''], [PBin [CR, LF, NUL] 3]] :: nat piece list list"
  have c: "resp_command (map (word_text (\<lambda>_ _. ''7'')) ?ws) = ''*3'' @ CRLF @ ''$3'' @ CRLF @ ''SET'' @ CRLF @ ''$4'' @ CRLF @ ''ka b'' @ CRLF @
       ''$3'' @ CRLF @ [CR, LF, NUL] @ CRLF" by code_simp
  have f: "words_fmt ?ws = ''SET k%s %b''" "words_args ?ws = [VStr ''a b'', VBin ([CR, LF, NUL]) 3]"
    by (simp_all add: words_fmt_def words_args_def join_with_def)
  have "\<forall>w \<in> set ?ws. w \<noteq> [] \<and> (\<forall>p \<in> set w. piece_ok (\<lambda>_ _. ''7'') p)" "NUL \<notin> set (words_fmt ?ws)" unfolding f by simp_all
  from redisvFormatCommand_words [OF fill_alloc_ok fill_alloc_never_fails this] show ?thesis
    unfolding c f by simp
qed

text \<open>A format that ends inside a number conversion (such as \<open>%5\<close>) makes
  \<open>redisvFormatCommand\<close> read past the end of the format, because \<open>strchr\<close> also matches the
  terminator.\<close>

theorem redisvFormatCommand_open_conversion:
  assumes "alloc_ok al" "\<not> may_fail al" "NUL \<notin> set (pf ''%5'' (VInt v))" "sds_fits (length (pf ''%5'' (VInt v)))"
  shows "redisvFormatCommand al pf True ''%5'' [VInt v] = Inl OutOfBounds"
proof -
  obtain e where e: "sdsempty al = Inr e" "sds_ok e" "sds_val e = []" using assms(1,2) by (rule sdsempty_total)
  have "sds_fits (sdslen e + length (pf ''%5'' (VInt v)))" using assms(4) e by (simp add: sdslen_val)
  from sdscatvprintf_spec [OF assms(1) e(2) this assms(3)] assms(2) obtain a where
    a: "sdscatvprintf al e (pf ''%5'' (VInt v)) = Inr a" by (auto dest!: returns_total)
  have "skip_spec ''5'' = []" by (simp add: skip_spec_def pch_def strchr_mem_def fmt_flags_def cstr_def isdigit_def)
  moreover have "conversion_at [] = Some (KInt, [])" by (simp add: conversion_at_def pch_def strchr_mem_def)
  ultimately have "cmd_loop al pf ''%5'' [VInt v] \<lparr>curarg = e, touched = False, curargv = [], fs_totlen = 0\<rparr> = Inl OutOfBounds"
    using a by (subst cmd_loop.simps) (simp add: va_matches_def cstr_def)
  then show ?thesis by (simp add: redisvFormatCommand_def e cstr_def)
qed

theorem redisvFormatCommand_open_conversion_witness:
  "redisvFormatCommand (fill_alloc NUL) (\<lambda>_ _. ''%5'') True ''%5'' [VInt 3] = Inl OutOfBounds"
  by (rule redisvFormatCommand_open_conversion) (simp_all add: sds_fits_def)

end
