(* ===== verification/Protocol.thy ===== *)
theory Protocol
  imports Reader Command
begin

text \<open>
  What \<open>read.c\<close> is meant to compute: an abstract incremental parser of the reply protocol.  Its state is
  the type of the current item, when already read, and the stack of unfinished arrays; its steps consume
  whole items from a list of bytes.  It is shown to be independent of how the input is cut into chunks and to
  invert the encoding of replies; theory \<open>ReaderRefine\<close> shows that the reader implements it.
\<close>

section \<open>The abstract parser\<close>

text \<open>The first line of the input, without its CR LF, and what follows.\<close>

fun first_line :: "string \<Rightarrow> (string \<times> string) option" where
  "first_line [] = None"
| "first_line [c] = None"
| "first_line (c # d # s) =
     (if c = CR \<and> d = LF then Some ([], s) else map_option (\<lambda>(l, r). (c # l, r)) (first_line (d # s)))"

definition line_number :: "string \<Rightarrow> int" where
  "line_number l = (case readLongLong (l @ [CR]) of Inr v \<Rightarrow> v | Inl _ \<Rightarrow> 0)"

datatype item_kind = KError | KStatus | KInteger | KBulk | KMulti

text \<open>The unfinished arrays, innermost first, each with its size and the elements read so far.\<close>

type_synonym frames = "(nat \<times> reply list) list"

type_synonym pstate = "item_kind option \<times> frames"

datatype step =
    Wait pstate string      \<comment> \<open>the input ends inside an item\<close>
  | Next frames string      \<comment> \<open>an item was read, the reply is not complete\<close>
  | Done reply string       \<comment> \<open>the reply is complete\<close>
  | Fail                    \<comment> \<open>protocol error\<close>
  | Unsupported             \<comment> \<open>an array size below -1 or above \<open>INT_MAX\<close>\<close>

fun complete :: "reply \<Rightarrow> frames \<Rightarrow> frames + reply" where
  "complete v [] = Inr v"
| "complete v ((n, vs) # fs) = (if Suc (length vs) = n then complete (RArray (vs @ [v])) fs else Inl ((n, vs @ [v]) # fs))"

definition finish_item :: "reply \<Rightarrow> frames \<Rightarrow> string \<Rightarrow> step" where
  "finish_item v fs b = (case complete v fs of Inr w \<Rightarrow> Done w b | Inl fs' \<Rightarrow> Next fs' b)"

definition line_reply :: "item_kind \<Rightarrow> string \<Rightarrow> reply" where
  "line_reply k l = (if k = KError then RError l else if k = KStatus then RStatus l else RInt (line_number l))"

definition typed_step :: "item_kind \<Rightarrow> frames \<Rightarrow> string \<Rightarrow> step" where
  "typed_step k fs b =
     (if k = KMulti \<and> length fs = 8 then Fail
      else case first_line b of
        None \<Rightarrow> Wait (Some k, fs) b
      | Some (l, rest) \<Rightarrow>
          let n = line_number l in
          if k = KBulk then
            if n < 0 then finish_item RNil fs rest
            else if nat n + 2 \<le> length rest then finish_item (RString (take (nat n) rest)) fs (drop (nat n + 2) rest)
            else Wait (Some k, fs) b
          else if k = KMulti then
            if n = - 1 then finish_item RNil fs rest
            else if n = 0 then finish_item (RArray []) fs rest
            else if 0 < n \<and> n \<le> 2147483647 then Next ((nat n, []) # fs) rest
            else Unsupported
          else finish_item (line_reply k l) fs rest)"

definition kind_of :: "char \<Rightarrow> item_kind option" where
  "kind_of c =
     (if c = CHR ''-'' then Some KError else if c = CHR ''+'' then Some KStatus else if c = CHR '':'' then Some KInteger
      else if c = CHR ''$'' then Some KBulk else if c = CHR ''*'' then Some KMulti else None)"

definition item_step :: "pstate \<Rightarrow> string \<Rightarrow> step" where
  "item_step st b =
     (case st of
        (Some k, fs) \<Rightarrow> typed_step k fs b
      | (None, fs) \<Rightarrow>
          (case b of
             [] \<Rightarrow> Wait (None, fs) []
           | c # b' \<Rightarrow> (case kind_of c of None \<Rightarrow> Fail | Some k \<Rightarrow> typed_step k fs b')))"

lemma first_line_length: "first_line b = Some (l, r) \<Longrightarrow> length b = length l + 2 + length r"
  by (induction b arbitrary: l r rule: first_line.induct) (auto split: if_splits)

lemma finish_item_length: "finish_item v fs b = Next fs' b' \<Longrightarrow> b' = b"
  by (auto simp: finish_item_def split: sum.splits)

lemma typed_step_length: "typed_step k fs b = Next fs' b' \<Longrightarrow> length b' < length b"
  by (auto simp: typed_step_def Let_def split: if_splits option.splits dest!: first_line_length finish_item_length)

lemma item_step_length: "item_step st b = Next fs' b' \<Longrightarrow> length b' < length b"
  by (cases st) (auto simp: item_step_def split: option.splits list.splits dest!: typed_step_length)

function parse :: "pstate \<Rightarrow> string \<Rightarrow> step" where
  "parse st b = (case item_step st b of Next fs b' \<Rightarrow> parse (None, fs) b' | s \<Rightarrow> s)"
  by pat_completeness auto
termination by (relation "measure (\<lambda>(st, b). length b)") (auto dest: item_step_length)

declare parse.simps [simp del]

section \<open>Input in chunks\<close>

fun is_wait :: "step \<Rightarrow> bool" where
  "is_wait (Wait st b) = True"
| "is_wait _ = False"

lemma first_line_append: "first_line b = Some (l, r) \<Longrightarrow> first_line (b @ x) = Some (l, r @ x)"
  by (induction b arbitrary: l r rule: first_line.induct) (auto split: if_splits)

lemma finish_item_append:
  "finish_item v fs (b @ x) =
     (case finish_item v fs b of Next fs' b' \<Rightarrow> Next fs' (b' @ x) | Done w b' \<Rightarrow> Done w (b' @ x) | s \<Rightarrow> s)"
  by (simp add: finish_item_def split: sum.split)

lemma finish_item_not_Wait [simp]: "finish_item v fs b \<noteq> Wait st b'" "finish_item v fs b \<noteq> Fail" "finish_item v fs b \<noteq> Unsupported"
  by (auto simp: finish_item_def split: sum.split)

lemma typed_step_Wait: "typed_step k fs b = Wait st b' \<Longrightarrow> st = (Some k, fs) \<and> b' = b"
  by (auto simp: typed_step_def Let_def split: if_splits option.splits)

lemma typed_step_append:
  assumes "\<not> is_wait (typed_step k fs b)"
  shows "typed_step k fs (b @ x) =
     (case typed_step k fs b of Next fs' b' \<Rightarrow> Next fs' (b' @ x) | Done w b' \<Rightarrow> Done w (b' @ x) | s \<Rightarrow> s)"
proof (cases "k = KMulti \<and> length fs = 8")
  case True
  then show ?thesis by (simp add: typed_step_def)
next
  case f: False
  show ?thesis
  proof (cases "first_line b")
    case None
    with f assms show ?thesis by (auto simp: typed_step_def)
  next
    case (Some lr)
    obtain l r where lr: "lr = (l, r)" by force
    have fl: "first_line b = Some (l, r)" "first_line (b @ x) = Some (l, r @ x)"
      using Some first_line_append [of b l r x] by (simp_all add: lr)
    note fi = finish_item_append [of _ _ r x] finish_item_append [of _ _ "drop (Suc (Suc (nat (line_number l)))) r" x]
    consider "k = KBulk" | "k = KMulti" | "k \<noteq> KBulk" "k \<noteq> KMulti" by blast
    then show ?thesis
      using assms f fl by cases (simp_all add: typed_step_def Let_def fi split: if_splits)
  qed
qed

lemma item_step_append:
  assumes "\<not> is_wait (item_step st0 b)"
  shows "item_step st0 (b @ x) =
     (case item_step st0 b of Next fs' b' \<Rightarrow> Next fs' (b' @ x) | Done w b' \<Rightarrow> Done w (b' @ x) | s \<Rightarrow> s)"
proof (cases st0)
  case (Pair ty fs)
  show ?thesis
  proof (cases ty)
    case (Some k)
    with assms Pair typed_step_append [of k fs b x] show ?thesis by (simp add: item_step_def)
  next
    case None
    with assms Pair obtain c b1 where b: "b = c # b1" by (cases b) (auto simp: item_step_def)
    show ?thesis
    proof (cases "kind_of c")
      case (Some k)
      with assms Pair None b typed_step_append [of k fs b1 x] show ?thesis by (simp add: item_step_def)
    qed (simp add: Pair None b item_step_def)
  qed
qed

lemma item_step_Wait:
  assumes "item_step st b = Wait st' b'"
  shows "item_step st (b @ x) = item_step st' (b' @ x)"
  using assms by (cases st) (auto simp: item_step_def split: option.splits list.splits dest!: typed_step_Wait)

text \<open>Parsing may stop and go on when more input arrives, without any difference to the result.\<close>

lemma parse_Wait: "parse st b = Wait st' b' \<Longrightarrow> parse st (b @ x) = parse st' (b' @ x)"
proof (induction st b rule: parse.induct)
  case (1 st b)
  show ?case
  proof (cases "item_step st b")
    case (Wait st1 b1)
    with "1.prems" have "st1 = st'" "b1 = b'" by (auto simp: parse.simps [of st b])
    with item_step_Wait [OF Wait] show ?thesis by (simp add: parse.simps [of st "b @ x"] parse.simps [of st' "b' @ x"])
  next
    case (Next fs b1)
    with "1.prems" have "parse (None, fs) b1 = Wait st' b'" by (simp add: parse.simps [of st b])
    with "1.IH" [OF Next] have "parse (None, fs) (b1 @ x) = parse st' (b' @ x)" .
    with item_step_append [of st b x] Next show ?thesis by (simp add: parse.simps [of st "b @ x"])
  qed (use "1.prems" in \<open>auto simp: parse.simps [of st b]\<close>)
qed

lemma parse_Wait_length: "parse st b = Wait st' b' \<Longrightarrow> length b' \<le> length b"
proof (induction st b rule: parse.induct)
  case (1 st b)
  show ?case
  proof (cases "item_step st b")
    case (Wait st1 b1)
    with "1.prems" have "item_step st b = Wait st' b'" by (simp add: parse.simps [of st b])
    then show ?thesis by (cases st) (auto simp: item_step_def split: option.splits list.splits dest!: typed_step_Wait)
  next
    case (Next fs b1)
    with "1.prems" "1.IH" [OF Next] item_step_length [OF Next] show ?thesis by (simp add: parse.simps [of st b])
  qed (use "1.prems" in \<open>auto simp: parse.simps [of st b]\<close>)
qed

lemma parse_Done: "parse st b = Done v b' \<Longrightarrow> parse st (b @ x) = Done v (b' @ x)"
proof (induction st b rule: parse.induct)
  case (1 st b)
  show ?case
  proof (cases "item_step st b")
    case (Next fs b1)
    with "1.prems" have "parse (None, fs) b1 = Done v b'" by (simp add: parse.simps [of st b])
    with "1.IH" [OF Next] have "parse (None, fs) (b1 @ x) = Done v (b' @ x)" .
    with item_step_append [of st b x] Next show ?thesis by (simp add: parse.simps [of st "b @ x"])
  next
    case (Done w b1)
    with "1.prems" item_step_append [of st b x] show ?thesis by (simp add: parse.simps)
  qed (use "1.prems" in \<open>auto simp: parse.simps [of st b]\<close>)
qed

lemma parse_Fail:
  "parse st b = Fail \<Longrightarrow> parse st (b @ x) = Fail" "parse st b = Unsupported \<Longrightarrow> parse st (b @ x) = Unsupported"
proof (induction st b rule: parse.induct)
  case (1 st b)
  { case 1
    then show ?case
      using "1.IH"(1) item_step_append [of st b x] by (cases "item_step st b") (simp_all add: parse.simps [of st b] parse.simps [of st "b @ x"])
  next
    case 2
    then show ?case
      using "1.IH"(2) item_step_append [of st b x] by (cases "item_step st b") (simp_all add: parse.simps [of st b] parse.simps [of st "b @ x"])
  }
qed

lemma parse_not_Next: "parse st b \<noteq> Next fs b'"
proof (induction st b rule: parse.induct)
  case (1 st b)
  then show ?case by (cases "item_step st b") (simp_all add: parse.simps [of st b])
qed

text \<open>What was read is all that was needed: no proper prefix of the input of a complete reply is complete.\<close>

lemma parse_prefix:
  assumes "parse st (p @ q) = Done v []" "q \<noteq> []"
  shows "\<exists>st' b'. parse st p = Wait st' b'"
proof (cases "parse st p")
  case (Done w b')
  with parse_Done [OF Done, of q] assms show ?thesis by simp
qed (use assms parse_Fail [of st p q] parse_not_Next [of st p] in auto)

section \<open>Numbers\<close>

lemma int64_cong: "x mod 18446744073709551616 = y mod 18446744073709551616 \<Longrightarrow> int64 x = int64 y"
  by (simp add: int64_def mod_add_cong)

lemma int64_mod: "int64 x mod 18446744073709551616 = x mod 18446744073709551616"
  by (simp add: int64_def mod_diff_left_eq)

lemma int64_mult: "int64 (int64 x * y) = int64 (x * y)" "int64 (y * int64 x) = int64 (y * x)"
  by (intro int64_cong; metis int64_mod mod_mult_left_eq mod_mult_right_eq)+

lemma int64_add: "int64 (int64 x + y) = int64 (x + y)"
  by (intro int64_cong) (metis int64_mod mod_add_left_eq)

lemma int64_idem [simp]: "int64 (int64 x) = int64 x"
  using int64_add [of x 0] by simp

lemma int64_step: "int64 (int64 (int64 x * 10) + d) = int64 (x * 10 + d)"
  by (simp add: int64_add int64_mult)

definition long_step :: "int \<Rightarrow> char \<Rightarrow> int" where
  "long_step v c = int64 (int64 (v * 10) + (int (byte_of c) - 48))"

lemma isdigit_not_CR: "isdigit c \<Longrightarrow> c \<noteq> CR"
  by (auto simp: isdigit_def)

lemma long_digits_all: "\<forall>c \<in> set ds. isdigit c \<Longrightarrow> long_digits (ds @ CR # x) v = Inr (Some (foldl long_step v ds))"
  by (induction ds arbitrary: v) (auto simp: long_step_def isdigit_not_CR)

lemma long_digits_line: "\<exists>r. \<forall>x. long_digits (l @ CR # x) v = Inr r"
  by (induction l arbitrary: v) auto

lemma readLongLong_line: "readLongLong (l @ CR # x) = Inr (line_number l)"
proof -
  have "\<exists>v. \<forall>x. readLongLong (l @ CR # x) = Inr v"
  proof (cases l)
    case Nil
    then show ?thesis by (simp add: readLongLong_def)
  next
    case (Cons c l')
    obtain r r' where "\<forall>x. long_digits (l @ CR # x) 0 = Inr r" "\<forall>x. long_digits (l' @ CR # x) 0 = Inr r'"
      using long_digits_line [of l 0] long_digits_line [of l' 0] by blast
    with Cons show ?thesis
      by (cases "c = CHR ''-''"; cases "c = CHR ''+''"; cases r; cases r') (auto simp: readLongLong_def)
  qed
  then show ?thesis by (metis line_number_def sum.simps(6))
qed

lemma foldl_show_nat: "foldl long_step 0 (show_nat n) = int64 (int n)"
proof (induction n rule: show_nat.induct)
  case (1 n)
  show ?case
  proof (cases "n < 10")
    case True
    then show ?thesis by (simp add: show_nat.simps [of n] long_step_def)
  next
    case False
    have d: "int (byte_of (digit_char (n mod 10))) - 48 = int (n mod 10)" by simp
    have "foldl long_step 0 (show_nat n) = long_step (int64 (int (n div 10))) (digit_char (n mod 10))"
      using False 1 by (simp add: show_nat.simps [of n])
    also have "\<dots> = int64 (int (n div 10) * 10 + int (n mod 10))" unfolding long_step_def d by (rule int64_step)
    also have "int (n div 10) * 10 + int (n mod 10) = int n" by presburger
    finally show ?thesis .
  qed
qed

text \<open>\<open>readLongLong\<close> reads back what \<open>%lld\<close> prints.\<close>

lemma line_number_show_nat: "line_number (show_nat n) = int64 (int n)"
proof -
  have d: "\<forall>c \<in> set (show_nat n). isdigit c" using show_nat_digits by blast
  have ne: "show_nat n \<noteq> []" by simp
  then have h: "isdigit (hd (show_nat n))" using d by (metis hd_in_set)
  then have "hd (show_nat n) \<noteq> CHR ''-''" "hd (show_nat n) \<noteq> CHR ''+''" by (auto simp: isdigit_def)
  moreover have "(show_nat n @ [CR]) ! 0 = hd (show_nat n)" using ne by (cases "show_nat n") auto
  ultimately have "readLongLong (show_nat n @ [CR]) = Inr (int64 (int n))"
    using long_digits_all [OF d, of "[]" 0] by (simp add: readLongLong_def foldl_show_nat)
  then show ?thesis by (simp add: line_number_def)
qed

lemma line_number_neg: "line_number (CHR ''-'' # show_nat n) = int64 (- int n)"
proof -
  have d: "\<forall>c \<in> set (show_nat n). isdigit c" using show_nat_digits by blast
  have "int64 (- int64 (int n)) = int64 (- int n)" using int64_mult(2) [of "- 1" "int n"] by simp
  with long_digits_all [OF d, of "[]" 0] show ?thesis
    by (simp add: line_number_def readLongLong_def foldl_show_nat)
qed

lemma line_number_show_int:
  assumes "- 9223372036854775808 \<le> v" "v \<le> 9223372036854775807"
  shows "line_number (show_int v) = v"
  using assms by (simp add: show_int_def line_number_neg line_number_show_nat)

section \<open>Encoding replies\<close>

fun encode :: "reply \<Rightarrow> string" where
  "encode (RString s) = CHR ''$'' # show_nat (length s) @ CRLF @ s @ CRLF"
| "encode (RStatus s) = CHR ''+'' # s @ CRLF"
| "encode (RError s) = CHR ''-'' # s @ CRLF"
| "encode (RInt v) = CHR '':'' # show_int v @ CRLF"
| "encode RNil = ''$-1'' @ CRLF"
| "encode (RArray vs) = CHR ''*'' # show_nat (length vs) @ CRLF @ concat (map encode vs)"

text \<open>Replies the protocol can carry: lines contain no CR, integers are 64 bits wide.\<close>

fun encodable :: "reply \<Rightarrow> bool" where
  "encodable (RString s) \<longleftrightarrow> length s \<le> 2147483647"
| "encodable (RStatus s) \<longleftrightarrow> CR \<notin> set s \<and> length s \<le> 2147483647"
| "encodable (RError s) \<longleftrightarrow> CR \<notin> set s \<and> length s \<le> 2147483647"
| "encodable (RInt v) \<longleftrightarrow> - 9223372036854775808 \<le> v \<and> v \<le> 9223372036854775807"
| "encodable RNil \<longleftrightarrow> True"
| "encodable (RArray vs) \<longleftrightarrow> length vs \<le> 2147483647 \<and> (\<forall>v \<in> set vs. encodable v)"

fun nesting :: "reply \<Rightarrow> nat" where
  "nesting (RArray vs) = Suc (Max (insert 0 (set (map nesting vs))))"
| "nesting _ = 0"

lemma nesting_child: "v \<in> set vs \<Longrightarrow> nesting v < nesting (RArray vs)"
  by (simp add: less_Suc_eq_le)

declare nesting.simps(1) [simp del]

lemma first_line_no_cr: "CR \<notin> set l \<Longrightarrow> first_line (l @ CRLF @ r) = Some (l, r)"
proof (induction l)
  case (Cons c l)
  then show ?case by (cases l) auto
qed simp

lemma digits_no_cr: "CR \<notin> set (show_nat n)" "CR \<notin> set (show_int v)"
  using show_nat_digits isdigit_not_CR by (auto simp: show_int_def)

lemma parse_finish:
  "item_step st b = finish_item v fs rest \<Longrightarrow>
     parse st b = (case complete v fs of Inr w \<Rightarrow> Done w rest | Inl fs' \<Rightarrow> parse (None, fs') rest)"
  by (simp add: parse.simps [of st b] finish_item_def split: sum.split)

lemma parse_next: "item_step st b = Next fs b' \<Longrightarrow> parse st b = parse (None, fs) b'"
  by (simp add: parse.simps [of st b])

lemma show_nat_1: "show_nat 1 = ''1''"
  by code_simp

lemma parse_item:
  assumes "encodable v" "\<And>vs. v \<noteq> RArray vs"
  shows "parse (None, fs) (encode v @ rest) =
    (case complete v fs of Inr w \<Rightarrow> Done w rest | Inl fs' \<Rightarrow> parse (None, fs') rest)"
proof -
  have "item_step (None, fs) (encode v @ rest) = finish_item v fs rest"
  proof (cases v)
    case (RString s)
    with assms(1) first_line_no_cr [OF digits_no_cr(1), of "length s" "s @ CRLF @ rest"] show ?thesis
      by (simp add: item_step_def kind_of_def typed_step_def line_number_show_nat)
  next
    case (RStatus s)
    with assms(1) first_line_no_cr [of s rest] show ?thesis
      by (simp add: item_step_def kind_of_def typed_step_def line_reply_def)
  next
    case (RError s)
    with assms(1) first_line_no_cr [of s rest] show ?thesis
      by (simp add: item_step_def kind_of_def typed_step_def line_reply_def)
  next
    case (RInt i)
    with assms(1) first_line_no_cr [OF digits_no_cr(2), of i rest] show ?thesis
      by (simp add: item_step_def kind_of_def typed_step_def line_reply_def line_number_show_int)
  next
    case RNil
    have "line_number ''-1'' = - 1" using line_number_neg [of 1] unfolding show_nat_1 by simp
    then show ?thesis using RNil first_line_no_cr [of "''-1''" rest]
      by (simp add: item_step_def kind_of_def typed_step_def)
  qed (use assms(2) in blast)
  then show ?thesis by (rule parse_finish)
qed

text \<open>Parsing an encoded reply in any context delivers that reply, and nothing of the input behind it.\<close>

lemma parse_encode:
  "encodable v \<Longrightarrow> length fs + nesting v \<le> 8 \<Longrightarrow> parse (None, fs) (encode v @ rest) =
     (case complete v fs of Inr w \<Rightarrow> Done w rest | Inl fs' \<Rightarrow> parse (None, fs') rest)"
proof (induction v arbitrary: fs rest)
  case (RArray vs)
  have elems: "parse (None, (n, ws) # fs) (concat (map encode us) @ rest) =
      (case complete (RArray (ws @ us)) fs of Inr w \<Rightarrow> Done w rest | Inl fs' \<Rightarrow> parse (None, fs') rest)"
    if "us \<noteq> []" "set us \<subseteq> set vs" "length ws + length us = n" for us ws n
    using that
  proof (induction us arbitrary: ws)
    case (Cons u us)
    have u: "encodable u" "length ((n, ws) # fs) + nesting u \<le> 8" "u \<in> set vs"
      using Cons.prems(2) RArray.prems nesting_child [of u vs] by auto
    note p = RArray.IH [OF u(3,1,2), of "concat (map encode us) @ rest"]
    show ?case
    proof (cases "us = []")
      case True
      with p [unfolded True list.map concat.simps append_Nil] Cons.prems(3) show ?thesis by simp
    next
      case False
      then have "Suc (length ws) \<noteq> n" using Cons.prems(3) by auto
      with p False Cons.IH [of "ws @ [u]"] Cons.prems show ?thesis by simp
    qed
  qed simp
  have l: "length fs \<noteq> 8" using RArray.prems by (simp add: nesting.simps)
  note fl = first_line_no_cr [OF digits_no_cr(1), of "length vs" "concat (map encode vs) @ rest"]
  show ?case
  proof (cases "vs = []")
    case True
    have "line_number (show_nat 0) = 0" by (simp add: line_number_show_nat)
    with True l fl have "item_step (None, fs) (encode (RArray vs) @ rest) = finish_item (RArray []) fs rest"
      by (simp add: item_step_def kind_of_def typed_step_def)
    from parse_finish [OF this] True show ?thesis by simp
  next
    case False
    have "item_step (None, fs) (encode (RArray vs) @ rest) = Next ((length vs, []) # fs) (concat (map encode vs) @ rest)"
      using False l fl RArray.prems(1) by (simp add: item_step_def kind_of_def typed_step_def line_number_show_nat)
    from parse_next [OF this] elems [of vs "[]" "length vs"] False show ?thesis by simp
  qed
qed (rule parse_item; simp)+

end
