(* ===== verification/ReaderRefine.thy ===== *)
theory ReaderRefine
  imports Protocol
begin

text \<open>
  The reader of \<open>read.c\<close> with the default object functions implements the abstract parser: the task stack
  is the stack of unfinished arrays, the heap holds their objects in the order of allocation, and every call
  of \<open>processItem\<close> is a step of the parser on the unread bytes.
\<close>

section \<open>Searching the line end\<close>

lemma skip_to_cr_spec:
  assumes "p \<le> n" "n \<le> length s"
  shows "skip_to_cr s (int p) (int n) = Inr (int (p + length (takeWhile (\<lambda>c. c \<noteq> CR) (take (n - p) (drop p s)))))"
  using assms
proof (induction "n - p" arbitrary: p)
  case 0
  then show ?case by (simp add: skip_to_cr.simps)
next
  case (Suc k)
  then have p: "p < n" "p < length s" by auto
  have d: "take (n - p) (drop p s) = s ! p # take (n - Suc p) (drop (Suc p) s)"
    using p Cons_nth_drop_Suc [OF p(2)] by (metis Suc_diff_Suc take_Suc_Cons)
  show ?case
  proof (cases "s ! p = CR")
    case True
    with p show ?thesis by (subst skip_to_cr.simps) (simp add: d)
  next
    case False
    have "skip_to_cr s (int (Suc p)) (int n) = Inr (int (Suc p + length (takeWhile (\<lambda>c. c \<noteq> CR) (take (n - Suc p) (drop (Suc p) s)))))"
      by (rule Suc.hyps(1)) (use Suc.hyps(2) p Suc.prems in auto)
    with False p show ?thesis by (subst skip_to_cr.simps) (simp add: d add.commute)
  qed
qed

lemma first_line_skip: "CR \<notin> set a \<Longrightarrow> first_line (a @ b) = map_option (\<lambda>(l, r). (a @ l, r)) (first_line b)"
proof (induction a)
  case (Cons c a)
  then have IH: "first_line (a @ b) = map_option (\<lambda>(l, r). (a @ l, r)) (first_line b)" and c: "c \<noteq> CR" by auto
  show ?case
  proof (cases "a @ b")
    case Nil
    then show ?thesis by simp
  next
    case (Cons d s)
    then have "first_line ((c # a) @ b) = map_option (\<lambda>(l, r). (c # l, r)) (first_line (a @ b))" using c by simp
    then show ?thesis unfolding IH by (simp add: option.map_comp comp_def split_def)
  qed
qed (simp add: option.map_id0 split_def option.map_ident)

lemma first_line_short: "length b \<le> 1 \<Longrightarrow> first_line b = None"
  by (cases b rule: first_line.cases) auto

lemma seek_loop_spec:
  assumes s: "s = u @ NUL # x" and p: "p \<le> length u"
  shows "seek_loop s (int p) (int (length u) - 1) = Inr (map_option (\<lambda>(l, r). p + length l) (first_line (drop p u)))"
  using p
proof (induction "length u - p" arbitrary: p rule: less_induct)
  case less
  show ?case
  proof (cases "int p < int (length u) - 1")
    case False
    then have "length (drop p u) \<le> 1" using less.prems by simp
    with False show ?thesis by (subst seek_loop.simps) (simp add: first_line_short)
  next
    case True
    define n where "n = length u - 1"
    have n: "int (length u) - 1 = int n" "p \<le> n" "n < length u" using True by (auto simp: n_def)
    define a where "a = takeWhile (\<lambda>c. c \<noteq> CR) (take (n - p) (drop p s))"
    define q where "q = p + length a"
    have sk: "skip_to_cr s (int p) (int n) = Inr (int q)"
      unfolding q_def a_def by (rule skip_to_cr_spec) (use n s in auto)
    have t: "take (n - p) (drop p s) = take (n - p) (drop p u)" using n s by simp
    have la: "length a \<le> n - p" unfolding a_def t using length_takeWhile_le [of "\<lambda>c. c \<noteq> CR" "take (n - p) (drop p u)"] n by simp
    then have q: "q \<le> n" using n by (simp add: q_def)
    have au: "a = take (length a) (drop p u)"
    proof -
      have "a = take (length a) (take (n - p) (drop p u))" unfolding a_def t by (rule takeWhile_eq_take)
      then show ?thesis using la by simp
    qed
    have ncr: "CR \<notin> set a" unfolding a_def by (auto dest: set_takeWhileD)
    have du: "drop p u = a @ drop q u" using append_take_drop_id [of "length a" "drop p u"] au by (simp add: q_def add.commute)
    have uq: "drop q u = u ! q # drop (Suc q) u" using Cons_nth_drop_Suc [of q u] q n by simp
    have sq: "mem_get s (nat (int q)) = Inr (u ! q)" using q n s by (simp add: nth_append)
    have step: "seek_loop s (int p) (int (length u) - 1) =
      (if u ! q \<noteq> CR then Inr None
       else bindr (mem_get s (nat (int q + 1))) (\<lambda>d. if d = LF then Inr (Some q) else seek_loop s (int q + 1) (int (length u) - 1)))"
      using True n(1) sk sq by (subst seek_loop.simps) (simp cong: if_cong)
    show ?thesis
    proof (cases "u ! q = CR")
      case False
      have "q = n"
      proof (rule ccontr)
        assume "q \<noteq> n"
        then have "length a < length (take (n - p) (drop p u))" using q n by (simp add: q_def)
        then have "take (n - p) (drop p u) ! length a = CR"
          using nth_length_takeWhile [of "\<lambda>c. c \<noteq> CR" "take (n - p) (drop p u)"] unfolding a_def t by auto
        then show False using False \<open>q \<noteq> n\<close> q n by (simp add: q_def)
      qed
      then have "first_line (drop q u) = None" using n by (intro first_line_short) simp
      with False step show ?thesis unfolding du by (simp add: first_line_skip [OF ncr])
    next
      case cr: True
      show ?thesis
      proof (cases "q = n")
        case True
        have "mem_get s (nat (int q + 1)) = Inr NUL" using s n True by (simp add: nat_add_distrib nth_append n_def)
        moreover have "seek_loop s (int q + 1) (int (length u) - 1) = Inr None" using True n by (subst seek_loop.simps) simp
        moreover have "first_line (drop q u) = None" using n True by (intro first_line_short) simp
        ultimately show ?thesis using cr step unfolding du by (simp add: first_line_skip [OF ncr])
      next
        case False
        then have q1: "Suc q < length u" using q n by simp
        then have uq1: "drop (Suc q) u = u ! Suc q # drop (Suc (Suc q)) u" using Cons_nth_drop_Suc [of "Suc q" u] by simp
        have "mem_get s (nat (int q + 1)) = Inr (u ! Suc q)" using q1 s by (simp add: nat_add_distrib nth_append)
        moreover have "seek_loop s (int q + 1) (int (length u) - 1) =
            Inr (map_option (\<lambda>(l, r). Suc q + length l) (first_line (drop (Suc q) u)))"
          using less.hyps [of "Suc q"] q1 q_def by (simp add: add.commute)
        ultimately show ?thesis
          using cr step unfolding du first_line_skip [OF ncr] uq uq1
          by (auto simp: q_def option.map_comp comp_def split_def intro!: map_option_cong)
      qed
    qed
  qed
qed

lemma seekNewline_spec:
  assumes "length u \<le> 2147483647"
  shows "seekNewline (u @ NUL # x) (length u) = Inr (map_option (\<lambda>(l, r). length l) (first_line u))"
  using seek_loop_spec [of "u @ NUL # x" u x 0] assms by (simp add: seekNewline_def)

section \<open>The objects of unfinished arrays\<close>

text \<open>
  The objects of an unfinished array at address \<open>a\<close>: the array object, whose first slots hold the
  finished elements, followed by the objects of those elements.  For all but the innermost array the next
  slot already holds the array that is being read.
\<close>

definition top_cells :: "addr \<Rightarrow> nat \<Rightarrow> reply list \<Rightarrow> redisReply list" where
  "top_cells a n vs = array_cell n (map Some (child_addrs (Suc a) vs) @ replicate (n - length vs) None) # flattens (Suc a) vs"

definition open_cell :: "addr \<Rightarrow> nat \<times> reply list \<Rightarrow> redisReply list" where
  "open_cell a = (\<lambda>(n, vs). array_cell n (map Some (child_addrs (Suc a) vs) @
     Some (Suc a + replies_size vs) # replicate (n - length vs - 1) None) # flattens (Suc a) vs)"

fun open_cells :: "addr \<Rightarrow> frames \<Rightarrow> redisReply list" where
  "open_cells a [] = []"
| "open_cells a (f # fs) = open_cell a f @ open_cells (a + length (open_cell a f)) fs"

lemma open_cells_append: "open_cells a (fs @ gs) = open_cells a fs @ open_cells (a + length (open_cells a fs)) gs"
  by (induction fs arbitrary: a) (simp_all add: add.assoc)

lemma length_open_cell: "length (open_cell a (n, vs)) = Suc (replies_size vs)"
  by (simp add: open_cell_def)

lemma length_top_cells: "length (top_cells a n vs) = Suc (replies_size vs)"
  by (simp add: top_cells_def)

text \<open>The address of the innermost unfinished array, and all objects.\<close>

definition frame_addr :: "addr \<Rightarrow> frames \<Rightarrow> addr" where
  "frame_addr a outer = a + length (open_cells a (rev outer))"

definition frame_cells :: "addr \<Rightarrow> frames \<Rightarrow> redisReply list" where
  "frame_cells a fs =
     (case fs of [] \<Rightarrow> [] | (n, vs) # outer \<Rightarrow> open_cells a (rev outer) @ top_cells (frame_addr a outer) n vs)"

text \<open>The objects after a new object has been linked into the innermost array, for a single object and for a
  whole reply.\<close>

definition link_cell :: "addr \<Rightarrow> frames \<Rightarrow> redisReply \<Rightarrow> redisReply list" where
  "link_cell a fs cell =
     (case fs of
        [] \<Rightarrow> [cell]
      | (n, vs) # outer \<Rightarrow> open_cells a (rev outer) @ open_cell (frame_addr a outer) (n, vs) @ [cell])"

definition add_cells :: "addr \<Rightarrow> reply \<Rightarrow> frames \<Rightarrow> redisReply list" where
  "add_cells a v fs =
     (case fs of [] \<Rightarrow> flatten a v | (n, vs) # outer \<Rightarrow> open_cells a (rev outer) @ top_cells (frame_addr a outer) n (vs @ [v]))"

lemma open_flatten:
  "length vs < n \<Longrightarrow> open_cell a (n, vs) @ flatten (a + Suc (replies_size vs)) v = top_cells a n (vs @ [v])"
  by (simp add: open_cell_def top_cells_def child_addrs_append flattens_append)

lemma link_leaf:
  assumes "\<And>vs. v \<noteq> RArray vs" "\<forall>(n, vs) \<in> set fs. length vs < n"
  shows "link_cell a fs (leaf_cell v) = add_cells a v fs"
proof -
  have v: "flatten b v = [leaf_cell v]" for b using assms(1) by (cases v) auto
  show ?thesis
  proof (cases fs)
    case Nil
    then show ?thesis by (simp add: link_cell_def add_cells_def v)
  next
    case (Cons f outer)
    obtain n vs where f: "f = (n, vs)" by force
    with assms(2) Cons have "length vs < n" by simp
    from open_flatten [OF this, of "frame_addr a outer" v] Cons f show ?thesis
      by (simp add: link_cell_def add_cells_def v)
  qed
qed

lemma link_array: "link_cell a fs (array_cell m (replicate m None)) = frame_cells a ((m, []) # fs)"
proof (cases fs)
  case (Cons f outer)
  then show ?thesis
    by (cases f) (simp add: link_cell_def frame_cells_def frame_addr_def top_cells_def open_cells_append)
qed (simp add: link_cell_def frame_cells_def frame_addr_def top_cells_def)

lemma link_empty_array: "link_cell a fs (array_cell 0 []) = add_cells a (RArray []) fs" if "\<forall>(n, vs) \<in> set fs. length vs < n"
proof (cases fs)
  case (Cons f outer)
  obtain n vs where f: "f = (n, vs)" by force
  with that Cons have "length vs < n" by simp
  from open_flatten [OF this, of "frame_addr a outer" "RArray []"] Cons f show ?thesis
    by (simp add: link_cell_def add_cells_def)
qed (simp add: link_cell_def add_cells_def)

text \<open>Closing full arrays changes nothing in the heap: \<open>complete\<close> only renames what is there.\<close>

lemma add_cells_complete:
  assumes "\<forall>(n, vs) \<in> set fs. length vs < n"
  shows "add_cells a v fs = (case complete v fs of Inr w \<Rightarrow> flatten a w | Inl fs' \<Rightarrow> frame_cells a fs')"
  using assms
proof (induction fs arbitrary: v)
  case (Cons f outer)
  obtain n vs where f: "f = (n, vs)" by force
  show ?case
  proof (cases "Suc (length vs) = n")
    case False
    with f show ?thesis by (simp add: add_cells_def frame_cells_def)
  next
    case True
    then have t: "top_cells b n (vs @ [v]) = flatten b (RArray (vs @ [v]))" for b by (simp add: top_cells_def)
    have "add_cells a v (f # outer) = add_cells a (RArray (vs @ [v])) outer"
    proof (cases outer)
      case Nil
      with f t show ?thesis by (simp add: add_cells_def frame_addr_def)
    next
      case (Cons g outer')
      obtain m ws where g: "g = (m, ws)" by force
      with Cons.prems Cons have "length ws < m" by simp
      from open_flatten [OF this, of "frame_addr a outer'" "RArray (vs @ [v])"] f g Cons t show ?thesis
        by (simp add: add_cells_def frame_addr_def open_cells_append length_open_cell add.assoc del: flatten.simps)
    qed
    with Cons.IH [of "RArray (vs @ [v])"] Cons.prems f True show ?thesis by simp
  qed
qed (simp add: add_cells_def)

section \<open>The task stack\<close>

text \<open>Task \<open>i\<close> below the current one is the \<open>i\<close>-th unfinished array from the outside; every task knows its
  parent and its slot there.\<close>

fun stack_ok :: "addr \<Rightarrow> frames \<Rightarrow> redisReadTask list \<Rightarrow> bool" where
  "stack_ok a [] st \<longleftrightarrow> t_idx (st ! 0) = - 1 \<and> t_parent (st ! 0) = None"
| "stack_ok a ((n, vs) # outer) st \<longleftrightarrow>
     stack_ok a outer st \<and> t_type (st ! length outer) = REDIS_REPLY_ARRAY \<and> t_elements (st ! length outer) = int n \<and>
     t_obj (st ! length outer) = Some (ObjAddr (frame_addr a outer)) \<and>
     t_idx (st ! Suc (length outer)) = int (length vs) \<and> t_parent (st ! Suc (length outer)) = Some (length outer)"

definition frames_ok :: "frames \<Rightarrow> bool" where
  "frames_ok fs \<longleftrightarrow> length fs \<le> 8 \<and> (\<forall>(n, vs) \<in> set fs. length vs < n \<and> n \<le> 2147483647)"

lemma frames_ok_Cons: "frames_ok ((n, vs) # fs) \<longleftrightarrow> length fs \<le> 7 \<and> length vs < n \<and> n \<le> 2147483647 \<and> frames_ok fs"
  by (auto simp: frames_ok_def)

lemma frames_ok_less: "frames_ok fs \<Longrightarrow> \<forall>(n, vs) \<in> set fs. length vs < n"
  by (auto simp: frames_ok_def)

text \<open>The stack relation looks only at the tasks up to the current one, and of the current one only at its
  slot and its parent.\<close>

lemma stack_ok_cong:
  assumes "stack_ok a fs st" "\<And>i. i < length fs \<Longrightarrow> st' ! i = st ! i"
    "t_idx (st' ! length fs) = t_idx (st ! length fs)" "t_parent (st' ! length fs) = t_parent (st ! length fs)"
  shows "stack_ok a fs st'"
  using assms
proof (induction fs)
  case (Cons f outer)
  obtain n vs where f: "f = (n, vs)" by force
  have "stack_ok a outer st'" by (rule Cons.IH) (use Cons.prems f in auto)
  with Cons.prems f show ?case by auto
qed simp

lemma list_update_slot:
  "k < n \<Longrightarrow> length xs = k \<Longrightarrow> (xs @ replicate (n - k) y)[k := x] = xs @ x # replicate (n - k - 1) y"
  by (cases "n - k") (simp_all add: list_update_append)

lemma link_parent_spec:
  assumes st: "stack_ok a fs st" "length st = 9" and fs: "frames_ok fs" and h0: "length h0 = a"
  shows "link_parent (st, length fs) (a + length (frame_cells a fs)) (h0 @ map Some (frame_cells a fs) @ [Some cell]) =
    Inr (h0 @ map Some (link_cell a fs cell))"
proof (cases fs)
  case Nil
  with st show ?thesis by (simp add: link_parent_def frame_cells_def link_cell_def)
next
  case (Cons f outer)
  obtain n vs where f: "f = (n, vs)" by force
  define pre where "pre = h0 @ map Some (open_cells a (rev outer))"
  let ?p = "frame_addr a outer" and ?es = "map Some (child_addrs (Suc (frame_addr a outer)) vs)"
  let ?post = "map Some (flattens (Suc ?p) vs) @ [Some cell]"
  have n: "length vs < n" "length outer \<le> 7" using fs Cons f by (simp_all add: frames_ok_Cons)
  have pre: "length pre = ?p" by (simp add: pre_def h0 frame_addr_def)
  have h: "h0 @ map Some (frame_cells a fs) @ [Some cell] =
      pre @ Some (array_cell n (?es @ replicate (n - length vs) None)) # ?post"
    by (simp add: pre_def frame_cells_def Cons f top_cells_def)
  have new: "a + length (frame_cells a fs) = Suc ?p + replies_size vs"
    by (simp add: Cons f frame_cells_def frame_addr_def length_top_cells)
  have get: "heap_get (pre @ Some c # ?post) ?p = Inr c" for c using heap_get_at [of pre c ?post] pre by simp
  have upd: "(pre @ Some c # ?post)[?p := Some d] = pre @ Some d # ?post" for c d
    using pre by (simp add: list_update_append)
  have slot: "(?es @ replicate (n - length vs) None)[length vs := Some (Suc ?p + replies_size vs)] =
      ?es @ Some (Suc ?p + replies_size vs) # replicate (n - length vs - 1) None"
    by (rule list_update_slot) (use n in auto)
  have "link_parent (st, length fs) (a + length (frame_cells a fs)) (h0 @ map Some (frame_cells a fs) @ [Some cell]) =
      Inr (pre @ Some (array_cell n (?es @ Some (Suc ?p + replies_size vs) # replicate (n - length vs - 1) None)) # ?post)"
    unfolding h new using st n Cons f
    by (simp add: link_parent_def get upd array_cell_def slot [simplified])
  also have "\<dots> = Inr (h0 @ map Some (link_cell a fs cell))"
    by (simp add: Cons f link_cell_def open_cell_def pre_def)
  finally show ?thesis .
qed

lemma heap_new [simp]:
  "heap_get (h @ [Some c]) (length h) = Inr c" "(h @ [x])[length h := y] = h @ [y]"
  by (simp_all add: heap_get_def)

text \<open>Each create function links one new object.\<close>

lemma create_leaf:
  assumes al: "\<not> may_fail al" and st: "stack_ok a fs st" "length st = 9" and fs: "frames_ok fs" and h0: "length h0 = a"
  defines "h \<equiv> h0 @ map Some (frame_cells a fs)" and "new \<equiv> a + length (frame_cells a fs)"
  shows "createNilObject al (st, length fs) h = Inr (Some (ObjAddr new), h0 @ map Some (add_cells a RNil fs))"
    "createIntegerObject al (st, length fs) v h = Inr (Some (ObjAddr new), h0 @ map Some (add_cells a (RInt v) fs))"
    "n \<le> length s \<Longrightarrow> t_type (st ! length fs) = rp_type (leaf_cell w) \<Longrightarrow> w \<in> {RString (take n s), RStatus (take n s), RError (take n s)} \<Longrightarrow>
       createStringObject al (st, length fs) s n h = Inr (Some (ObjAddr new), h0 @ map Some (add_cells a w fs))"
proof -
  have len: "length h = new" by (simp add: h_def new_def h0)
  have a: "al k \<noteq> None" for k using al by auto
  have link: "link_parent (st, length fs) new (h @ [Some c]) = Inr (h0 @ map Some (link_cell a fs c))" for c
    using link_parent_spec [OF st fs h0, of c] by (simp add: h_def new_def)
  note leaf = link_leaf [OF _ frames_ok_less [OF fs]]
  show "createNilObject al (st, length fs) h = Inr (Some (ObjAddr new), h0 @ map Some (add_cells a RNil fs))"
    using link leaf [of RNil a] by (simp add: createNilObject_def createReplyObject_def a len)
  show "createIntegerObject al (st, length fs) v h = Inr (Some (ObjAddr new), h0 @ map Some (add_cells a (RInt v) fs))"
    using link leaf [of "RInt v" a] heap_new [of h] by (simp add: createIntegerObject_def createReplyObject_def a len)
  assume n: "n \<le> length s" and t: "t_type (st ! length fs) = rp_type (leaf_cell w)"
    and w: "w \<in> {RString (take n s), RStatus (take n s), RError (take n s)}"
  then have "\<And>vs. w \<noteq> RArray vs" by auto
  from leaf [OF this, of a] link [of "leaf_cell w"] heap_new [of h] w n
  show "createStringObject al (st, length fs) s n h = Inr (Some (ObjAddr new), h0 @ map Some (add_cells a w fs))"
    by (auto simp: createStringObject_def createReplyObject_def a len t reply_types min.absorb2)
qed

lemma create_array:
  assumes al: "\<not> may_fail al" and st: "stack_ok a fs st" "length st = 9" and fs: "frames_ok fs" and h0: "length h0 = a"
    and m: "m \<le> 2147483647"
  shows "createArrayObject al (st, length fs) (int m) (h0 @ map Some (frame_cells a fs)) =
    Inr (Some (ObjAddr (a + length (frame_cells a fs))),
         h0 @ map Some (if m = 0 then add_cells a (RArray []) fs else frame_cells a ((m, []) # fs)))"
proof -
  let ?h = "h0 @ map Some (frame_cells a fs)" and ?new = "a + length (frame_cells a fs)"
  have len: "length ?h = ?new" by (simp add: h0)
  have a: "al k \<noteq> None" for k using al by auto
  have link: "link_parent (st, length fs) ?new (?h @ [Some c]) = Inr (h0 @ map Some (link_cell a fs c))" for c
    using link_parent_spec [OF st fs h0, of c] by simp
  have s: "size_t (int m) = m" using m by simp
  have "createArrayObject al (st, length fs) (int m) ?h = Inr (Some (ObjAddr ?new), h0 @ map Some (link_cell a fs (array_cell m (replicate m None))))"
    using link [of "array_cell m (replicate m None)"] heap_new [of ?h] s
    by (simp add: createArrayObject_def createReplyObject_def a h0 array_cell_def Let_def)
  then show ?thesis using link_array [of a fs m] link_empty_array [OF frames_ok_less [OF fs], of a] by (cases "m = 0") simp_all
qed

text \<open>Moving on is \<open>complete\<close>.\<close>

lemma moveToNextTask_spec:
  assumes "stack_ok a fs (r_rstack r)" "length (r_rstack r) = 9" "frames_ok fs" "r_ridx r = int (length fs)"
  shows "case complete v fs of
      Inr w \<Rightarrow> moveToNextTask r = Inr (r\<lparr>r_ridx := - 1\<rparr>)
    | Inl fs' \<Rightarrow> \<exists>st. moveToNextTask r = Inr (r\<lparr>r_rstack := st, r_ridx := int (length fs')\<rparr>) \<and>
        length st = 9 \<and> stack_ok a fs' st \<and> frames_ok fs' \<and> t_type (st ! length fs') = - 1"
  using assms
proof (induction fs arbitrary: r v)
  case Nil
  then show ?case by (simp add: moveToNextTask.simps)
next
  case (Cons f outer)
  obtain n vs where f: "f = (n, vs)" by force
  let ?st = "r_rstack r" and ?k = "length outer"
  have fr: "?k \<le> 7" "length vs < n" "n \<le> 2147483647" "frames_ok outer" using Cons.prems(3) f by (simp_all add: frames_ok_Cons)
  have st: "stack_ok a outer ?st" "t_type (?st ! ?k) = REDIS_REPLY_ARRAY" "t_elements (?st ! ?k) = int n"
    "t_idx (?st ! Suc ?k) = int (length vs)" using Cons.prems(1) f by simp_all
  have i: "nat (r_ridx r) = Suc ?k" "nat (r_ridx r - 1) = ?k" "0 < r_ridx r" using Cons.prems(4) by auto
  have step: "moveToNextTask r =
      (if int (length vs) = int n - 1 then moveToNextTask (r\<lparr>r_ridx := int ?k\<rparr>)
       else Inr (r\<lparr>r_rstack := ?st[Suc ?k := (?st ! Suc ?k)\<lparr>t_type := - 1, t_elements := - 1, t_idx := int (length vs) + 1\<rparr>]\<rparr>))"
    using i st fr Cons.prems(2,4) by (subst moveToNextTask.simps) (simp cong: if_cong)
  show ?case
  proof (cases "Suc (length vs) = n")
    case True
    then have m: "moveToNextTask r = moveToNextTask (r\<lparr>r_ridx := int ?k\<rparr>)" using step by auto
    have "case complete (RArray (vs @ [v])) outer of
        Inr w \<Rightarrow> moveToNextTask (r\<lparr>r_ridx := int ?k\<rparr>) = Inr (r\<lparr>r_ridx := int ?k, r_ridx := - 1\<rparr>)
      | Inl fs' \<Rightarrow> \<exists>st. moveToNextTask (r\<lparr>r_ridx := int ?k\<rparr>) = Inr (r\<lparr>r_ridx := int ?k, r_rstack := st, r_ridx := int (length fs')\<rparr>) \<and>
          length st = 9 \<and> stack_ok a fs' st \<and> frames_ok fs' \<and> t_type (st ! length fs') = - 1"
      by (rule Cons.IH) (use st(1) Cons.prems(2) fr(4) in simp_all)
    with True f m show ?thesis by (simp split: sum.splits)
  next
    case False
    let ?st' = "?st[Suc ?k := (?st ! Suc ?k)\<lparr>t_type := - 1, t_elements := - 1, t_idx := int (length vs) + 1\<rparr>]"
    have "int (length vs) \<noteq> int n - 1" using False by auto
    then have m: "moveToNextTask r = Inr (r\<lparr>r_rstack := ?st'\<rparr>)" using step by simp
    have "stack_ok a outer ?st'" using st(1) by (rule stack_ok_cong) simp_all
    moreover have "Suc ?k < length ?st" using Cons.prems(2) fr(1) by simp
    ultimately have "stack_ok a ((n, vs @ [v]) # outer) ?st'" using Cons.prems(1) f by simp
    moreover have "frames_ok ((n, vs @ [v]) # outer)" using fr False by (simp add: frames_ok_Cons)
    ultimately show ?thesis
      using False f m Cons.prems(2,4) \<open>Suc ?k < length ?st\<close> by (auto intro!: exI [of _ ?st'])
  qed
qed

section \<open>The refinement relation\<close>

text \<open>The unread bytes of the buffer.\<close>

definition buffer_holds :: "redisReader \<Rightarrow> string \<Rightarrow> bool" where
  "buffer_holds r b \<longleftrightarrow> (\<exists>s. r_buf r = Some s \<and> sds_ok s \<and> r_len r = sdslen s \<and> r_pos r \<le> r_len r \<and> b = drop (r_pos r) (sds_val s))"

definition kind_type :: "item_kind option \<Rightarrow> int" where
  "kind_type k =
     (case k of None \<Rightarrow> - 1 | Some KError \<Rightarrow> REDIS_REPLY_ERROR | Some KStatus \<Rightarrow> REDIS_REPLY_STATUS
      | Some KInteger \<Rightarrow> REDIS_REPLY_INTEGER | Some KBulk \<Rightarrow> REDIS_REPLY_STRING | Some KMulti \<Rightarrow> REDIS_REPLY_ARRAY)"

text \<open>A reader in the middle of a reply: \<open>h0\<close> is the heap before the reply was started.\<close>

definition reading :: "allocator \<Rightarrow> reply_heap \<Rightarrow> redisReader \<Rightarrow> reply_heap \<Rightarrow> pstate \<Rightarrow> string \<Rightarrow> bool" where
  "reading al h0 r h st b \<longleftrightarrow>
     r_err r = 0 \<and> buffer_holds r b \<and> r_fn r = defaultFunctions al \<and> length (r_rstack r) = 9 \<and>
     r_ridx r = int (length (snd st)) \<and> frames_ok (snd st) \<and> stack_ok (length h0) (snd st) (r_rstack r) \<and>
     t_type (r_rstack r ! length (snd st)) = kind_type (fst st) \<and>
     h = h0 @ map Some (frame_cells (length h0) (snd st)) \<and>
     r_reply r = (if snd st = [] then None else Some (ObjAddr (length h0)))"

text \<open>A reader whose reply is complete.\<close>

definition complete_reader :: "allocator \<Rightarrow> reply_heap \<Rightarrow> redisReader \<Rightarrow> reply_heap \<Rightarrow> reply \<Rightarrow> string \<Rightarrow> bool" where
  "complete_reader al h0 r h w b \<longleftrightarrow>
     r_err r = 0 \<and> buffer_holds r b \<and> r_fn r = defaultFunctions al \<and> length (r_rstack r) = 9 \<and> r_ridx r = - 1 \<and>
     h = h0 @ map Some (flatten (length h0) w) \<and> r_reply r = Some (ObjAddr (length h0))"

lemma buffer_bytes:
  assumes "buffer_holds r b"
  obtains x where "drop (r_pos r) (buf_bytes r) = b @ NUL # x" "size_t (int (r_len r) - int (r_pos r)) = length b"
    "length b \<le> 2147483647" "r_len r = r_pos r + length b" "r_len r \<le> 2147483647"
proof -
  from assms obtain s where s: "r_buf r = Some s" "sds_ok s" "r_len r = sdslen s" "r_pos r \<le> r_len r"
    "b = drop (r_pos r) (sds_val s)" by (auto simp: buffer_holds_def)
  from s(2) obtain l f where h: "sdslen s = l" "length (sh_buf s) = l + f + 1" "sh_buf s ! l = NUL" "l + f \<le> 2147483647"
    "sds_val s = take l (sh_buf s)" "length (sds_val s) = l" by (rule sds_okE)
  have "sh_buf s = take l (sh_buf s) @ sh_buf s ! l # drop (Suc l) (sh_buf s)" using h by (intro id_take_nth_drop) simp
  then have "drop (r_pos r) (sh_buf s) = b @ NUL # drop (Suc l) (sh_buf s)"
    using s h by (metis drop_append diff_is_0_eq drop_0 length_take min.absorb2 le_add1 Suc_eq_plus1 add.assoc)
  moreover have "length b = r_len r - r_pos r" using s h by simp
  moreover have "size_t (int (r_len r) - int (r_pos r)) = r_len r - r_pos r" using s(3,4) h by (auto intro!: size_t_eq)
  ultimately show ?thesis using that s h by (simp add: buf_bytes_def)
qed

lemma buffer_advance: "buffer_holds r b \<Longrightarrow> n \<le> length b \<Longrightarrow> buffer_holds (r\<lparr>r_pos := r_pos r + n\<rparr>) (drop n b)"
  by (auto simp: buffer_holds_def sdslen_val add.commute)

lemma buffer_holds_cong:
  "buffer_holds r b \<Longrightarrow> r_buf r' = r_buf r \<Longrightarrow> r_pos r' = r_pos r \<Longrightarrow> r_len r' = r_len r \<Longrightarrow> buffer_holds r' b"
  by (simp add: buffer_holds_def)

section \<open>Freeing an unfinished reply\<close>

fun part_cells :: "addr \<Rightarrow> frames \<Rightarrow> redisReply list" where
  "part_cells a [] = []"
| "part_cells a [(n, vs)] = top_cells a n vs"
| "part_cells a (f # g # gs) = open_cell a f @ part_cells (a + length (open_cell a f)) (g # gs)"

lemma part_cells_snoc: "part_cells a (gs @ [(n, vs)]) = open_cells a gs @ top_cells (a + length (open_cells a gs)) n vs"
proof (induction gs arbitrary: a)
  case (Cons g gs)
  then show ?case by (cases gs) (auto simp: add.assoc)
qed simp

lemma frame_cells_part: "frame_cells a fs = part_cells a (rev fs)"
  by (cases fs) (auto simp: frame_cells_def part_cells_snoc frame_addr_def)

lemma free_replies_append:
  "free_replies n (es @ es') h = bindr (free_replies n es h) (\<lambda>h. free_replies n es' h)"
proof (induction es arbitrary: h)
  case (Cons e es)
  then show ?case by (cases e) (auto simp: bindr_def split: sum.split)
qed simp

lemma free_replies_None: "free_replies n (replicate k None) h = Inr h"
  by (induction k) simp_all

lemma free_array_cell:
  assumes pre: "length pre = a" and es: "length es = n" "n \<noteq> 0"
    and fr: "free_replies m es (pre @ Some (array_cell n es) # cs) = Inr (pre @ Some (array_cell n es) # cs')"
  shows "free_reply (Suc m) a (pre @ Some (array_cell n es) # cs) = Inr (pre @ None # cs')"
proof -
  have "heap_get (pre @ Some (array_cell n es) # cs) a = Inr (array_cell n es)" using pre by (metis heap_get_at)
  moreover have "(pre @ Some c # cs')[a := None] = pre @ None # cs'" for c using pre by (simp add: list_update_append)
  moreover have "es \<noteq> []" using es by auto
  ultimately show ?thesis using es fr by (simp add: array_cell_def)
qed

lemma free_part:
  assumes "length pre = a" "gs \<noteq> []" "\<forall>(n, vs) \<in> set gs. length vs < n" "length (part_cells a gs) \<le> m"
  shows "free_reply m a (pre @ map Some (part_cells a gs) @ post) = Inr (pre @ replicate (length (part_cells a gs)) None @ post)"
  using assms
proof (induction a gs arbitrary: pre m post rule: part_cells.induct)
  case (2 a n vs)
  then obtain m' where m: "m = Suc m'" "replies_size vs \<le> m'" by (cases m) (auto simp: length_top_cells)
  let ?es = "map Some (child_addrs (Suc a) vs) @ replicate (n - length vs) None"
  have n: "length ?es = n" "n \<noteq> 0" "length vs < n" using "2.prems"(3) by auto
  let ?p = "pre @ [Some (array_cell n ?es)]"
  have "free_replies m' (map Some (child_addrs (Suc a) vs)) (?p @ map Some (flattens (Suc a) vs) @ post) =
      Inr (?p @ replicate (replies_size vs) None @ post)"
    by (rule free_flatten(2)) (use "2.prems"(1) m in auto)
  then have "free_replies m' ?es (pre @ Some (array_cell n ?es) # map Some (flattens (Suc a) vs) @ post) =
      Inr (pre @ Some (array_cell n ?es) # replicate (replies_size vs) None @ post)"
    by (simp add: free_replies_append free_replies_None)
  from free_array_cell [OF "2.prems"(1) n(1,2) this] show ?case by (simp add: m top_cells_def)
next
  case (3 a f g gs)
  obtain n vs where f: "f = (n, vs)" by force
  let ?c = "part_cells (a + Suc (replies_size vs)) (g # gs)" and ?next = "Suc a + replies_size vs"
  let ?es = "map Some (child_addrs (Suc a) vs) @ Some ?next # replicate (n - length vs - 1) None"
  have len: "length (part_cells a (f # g # gs)) = Suc (replies_size vs + length ?c)" using f by (simp add: length_open_cell)
  then obtain m' where m: "m = Suc m'" "replies_size vs + length ?c \<le> m'" using "3.prems"(4) by (cases m) auto
  have n: "length ?es = n" "n \<noteq> 0" using "3.prems"(3) f by auto
  let ?p = "pre @ [Some (array_cell n ?es)]"
  have "free_replies m' (map Some (child_addrs (Suc a) vs)) (?p @ map Some (flattens (Suc a) vs) @ (map Some ?c @ post)) =
      Inr (?p @ replicate (replies_size vs) None @ (map Some ?c @ post))"
    by (rule free_flatten(2)) (use "3.prems"(1) m in auto)
  moreover have "free_reply m' (a + length (open_cell a f)) ((?p @ replicate (replies_size vs) None) @ map Some (part_cells (a + length (open_cell a f)) (g # gs)) @ post) =
      Inr ((?p @ replicate (replies_size vs) None) @ replicate (length (part_cells (a + length (open_cell a f)) (g # gs))) None @ post)"
    by (rule "3.IH") (use "3.prems" m f in \<open>auto simp: length_open_cell\<close>)
  ultimately have "free_replies m' ?es (pre @ Some (array_cell n ?es) # map Some (flattens (Suc a) vs) @ map Some ?c @ post) =
      Inr (pre @ Some (array_cell n ?es) # replicate (replies_size vs + length ?c) None @ post)"
    using f by (simp add: free_replies_append free_replies_None length_open_cell replicate_add)
  from free_array_cell [OF "3.prems"(1) n this] show ?case
    unfolding len m by (simp add: f open_cell_def)
qed simp

lemma free_frames:
  assumes "fs \<noteq> []" "frames_ok fs"
  shows "freeReplyObject (Some (ObjAddr (length h0))) (h0 @ map Some (frame_cells (length h0) fs)) =
    Inr (h0 @ replicate (length (frame_cells (length h0) fs)) None)"
  using free_part [of h0 "length h0" "rev fs" _ "[]"] assms frames_ok_less [OF assms(2)]
  by (simp add: freeReplyObject_def frame_cells_part del: free_reply.simps)

section \<open>Items\<close>

text \<open>What a call of an item function does, as a step of the parser.\<close>

definition item_sim :: "allocator \<Rightarrow> reply_heap \<Rightarrow> step \<Rightarrow> item_result \<Rightarrow> bool" where
  "item_sim al h0 s res \<longleftrightarrow>
     (case s of
        Wait st b \<Rightarrow> \<exists>r h. res = Inr (REDIS_ERR, r, h) \<and> reading al h0 r h st b
      | Next fs b \<Rightarrow> \<exists>r h. res = Inr (REDIS_OK, r, h) \<and> reading al h0 r h (None, fs) b
      | Done w b \<Rightarrow> \<exists>r h. res = Inr (REDIS_OK, r, h) \<and> complete_reader al h0 r h w b
      | Fail \<Rightarrow> \<exists>r h n. res = Inr (REDIS_ERR, r, h) \<and> r_err r = REDIS_ERR_PROTOCOL \<and> r_reply r = None \<and> h = h0 @ replicate n None
      | Unsupported \<Rightarrow> True)"

lemma deliver_sim:
  assumes rd: "reading al h0 r h (k, fs) b0" and r1: "r1 = r\<lparr>r_pos := p\<rparr>" and b: "buffer_holds r1 b"
    and h': "h' = h0 @ map Some (add_cells (length h0) v fs)"
  shows "item_sim al h0 (finish_item v fs b) (deliver r1 (ObjAddr (length h0 + length (frame_cells (length h0) fs))) h')"
proof -
  let ?o = "ObjAddr (length h0 + length (frame_cells (length h0) fs))"
  let ?r = "if r_ridx r1 = 0 then r1\<lparr>r_reply := Some ?o\<rparr> else r1"
  from rd have inv: "r_err r = 0" "r_fn r = defaultFunctions al" "length (r_rstack r) = 9" "r_ridx r = int (length fs)"
    "frames_ok fs" "stack_ok (length h0) fs (r_rstack r)" "r_reply r = (if fs = [] then None else Some (ObjAddr (length h0)))"
    by (simp_all add: reading_def)
  have rep: "r_reply ?r = Some (ObjAddr (length h0))" using inv r1 by (simp add: frame_cells_def)
  have bh: "buffer_holds ?r b" using b by (auto elim: buffer_holds_cong)
  have "r_rstack ?r = r_rstack r" "r_ridx ?r = r_ridx r" using r1 by simp_all
  then have "stack_ok (length h0) fs (r_rstack ?r)" "length (r_rstack ?r) = 9" "r_ridx ?r = int (length fs)"
    using inv(3,4,6) by metis+
  note m = moveToNextTask_spec [OF this(1,2) inv(5) this(3), of v]
  note c = add_cells_complete [OF frames_ok_less [OF inv(5)], of "length h0" v]
  show ?thesis
  proof (cases "complete v fs")
    case (Inr w)
    with m have "deliver r1 ?o h' = Inr (REDIS_OK, ?r\<lparr>r_ridx := - 1\<rparr>, h')" by (simp add: deliver_def Let_def)
    moreover have "complete_reader al h0 (?r\<lparr>r_ridx := - 1\<rparr>) h' w b"
      using inv r1 rep bh c Inr h' by (auto simp: complete_reader_def elim: buffer_holds_cong)
    ultimately show ?thesis using Inr by (auto simp: item_sim_def finish_item_def)
  next
    case (Inl fs')
    with m obtain st where st: "moveToNextTask ?r = Inr (?r\<lparr>r_rstack := st, r_ridx := int (length fs')\<rparr>)" "length st = 9"
      "stack_ok (length h0) fs' st" "frames_ok fs'" "t_type (st ! length fs') = - 1" by auto
    then have "deliver r1 ?o h' = Inr (REDIS_OK, ?r\<lparr>r_rstack := st, r_ridx := int (length fs')\<rparr>, h')" by (simp add: deliver_def Let_def)
    moreover have "fs' \<noteq> []" using Inl by (induction v fs rule: complete.induct) (auto split: if_splits)
    then have "reading al h0 (?r\<lparr>r_rstack := st, r_ridx := int (length fs')\<rparr>) h' (None, fs') b"
      using inv r1 rep bh c Inl h' st by (auto simp: reading_def kind_type_def elim: buffer_holds_cong)
    ultimately show ?thesis using Inl by (auto simp: item_sim_def finish_item_def)
  qed
qed

text \<open>\<open>readLine\<close> returns the first line of the unread bytes.\<close>

lemma readLine_spec:
  assumes b: "buffer_holds r b"
  shows "readLine r = Inr (case first_line b of None \<Rightarrow> None
    | Some (l, rest) \<Rightarrow> Some (r_pos r, length l, r\<lparr>r_pos := r_pos r + (length l + 2)\<rparr>))"
proof -
  from b obtain x where x: "drop (r_pos r) (buf_bytes r) = b @ NUL # x" "size_t (int (r_len r) - int (r_pos r)) = length b"
    "length b \<le> 2147483647" by (rule buffer_bytes)
  from seekNewline_spec [OF x(3), of x] show ?thesis
    by (simp add: readLine_def x(1,2) split: option.split)
qed

lemma first_line_eq: "first_line b = Some (l, r) \<Longrightarrow> b = l @ CRLF @ r"
  by (induction b arbitrary: l r rule: first_line.induct) (auto split: if_splits)

lemma after_line:
  assumes "buffer_holds r b" "first_line b = Some (l, rest)"
  shows "buffer_holds (r\<lparr>r_pos := r_pos r + (length l + 2)\<rparr>) rest"
    "\<exists>x. drop (r_pos r) (buf_bytes r) = l @ CR # x" "drop (r_pos r) (buf_bytes r) = b @ NUL # y \<Longrightarrow> take (length l) (b @ NUL # y) = l"
    "readLongLong (drop (r_pos r) (buf_bytes r)) = Inr (line_number l)"
proof -
  note b = first_line_eq [OF assms(2)]
  from assms(1) obtain x where x: "drop (r_pos r) (buf_bytes r) = b @ NUL # x" by (rule buffer_bytes)
  show "buffer_holds (r\<lparr>r_pos := r_pos r + (length l + 2)\<rparr>) rest"
    using buffer_advance [OF assms(1), of "length l + 2"] by (simp add: b)
  show ex: "\<exists>x. drop (r_pos r) (buf_bytes r) = l @ CR # x" unfolding x b by simp
  show "take (length l) (b @ NUL # y) = l" unfolding b by simp
  show "readLongLong (drop (r_pos r) (buf_bytes r)) = Inr (line_number l)" using ex readLongLong_line by metis
qed

lemma line_sim:
  assumes al: "\<not> may_fail al" and rd: "reading al h0 r h (Some k, fs) b" and k: "k \<in> {KError, KStatus, KInteger}"
  shows "item_sim al h0 (typed_step k fs b) (processLineItem r h)"
proof -
  from rd have inv: "buffer_holds r b" "r_fn r = defaultFunctions al" "length (r_rstack r) = 9" "r_ridx r = int (length fs)"
    "frames_ok fs" "stack_ok (length h0) fs (r_rstack r)" "t_type (r_rstack r ! length fs) = kind_type (Some k)"
    "h = h0 @ map Some (frame_cells (length h0) fs)" by (simp_all add: reading_def)
  have g: "mem_get (r_rstack r) (nat (r_ridx r)) = Inr (r_rstack r ! length fs)" using inv by (simp add: frames_ok_def)
  show ?thesis
  proof (cases "first_line b")
    case None
    then have "processLineItem r h = Inr (REDIS_ERR, r, h)"
      using g readLine_spec [OF inv(1)] by (simp add: processLineItem_def)
    moreover have "typed_step k fs b = Wait (Some k, fs) b" using None k by (auto simp: typed_step_def)
    ultimately show ?thesis using rd by (simp add: item_sim_def)
  next
    case (Some lr)
    obtain l rest where lr: "lr = (l, rest)" by force
    with Some have fl: "first_line b = Some (l, rest)" by simp
    let ?r = "r\<lparr>r_pos := r_pos r + (length l + 2)\<rparr>" and ?v = "line_reply k l"
    have rl: "readLine r = Inr (Some (r_pos r, length l, ?r))" using readLine_spec [OF inv(1)] fl by simp
    note al1 = after_line [OF inv(1) fl]
    have bb: "buf_bytes ?r = buf_bytes r" "task_at ?r = (r_rstack r, length fs)" by (simp_all add: buf_bytes_def task_at_def inv(4))
    note cr = create_leaf [OF al inv(6,3,5) refl, folded inv(8)]
    obtain x where x: "drop (r_pos r) (buf_bytes r) = l @ CR # x" using al1(2) by blast
    have obj: "(if t_type (r_rstack r ! length fs) = REDIS_REPLY_INTEGER
        then bindr (readLongLong (drop (r_pos r) (buf_bytes ?r))) (\<lambda>v. make_integer ?r v h)
        else make_string ?r (drop (r_pos r) (buf_bytes ?r)) (length l) (t_type (r_rstack r ! length fs)) h) =
      Inr (Some (ObjAddr (length h0 + length (frame_cells (length h0) fs))), h0 @ map Some (add_cells (length h0) ?v fs))"
    proof (cases "k = KInteger")
      case True
      with inv(7) cr(2) al1(4) bb show ?thesis
        by (simp add: kind_type_def line_reply_def make_integer_def inv(2) defaultFunctions_def)
    next
      case False
      have t: "t_type (r_rstack r ! length fs) = rp_type (leaf_cell ?v)" "t_type (r_rstack r ! length fs) \<noteq> REDIS_REPLY_INTEGER"
        "?v \<in> {RString (take (length l) (l @ CR # x)), RStatus (take (length l) (l @ CR # x)), RError (take (length l) (l @ CR # x))}"
        using k False inv(7) by (auto simp: kind_type_def line_reply_def reply_types)
      from cr(3) [OF _ t(1,3)] t(2) bb x show ?thesis
        by (simp add: make_string_def inv(2) defaultFunctions_def)
    qed
    have "processLineItem r h = deliver ?r (ObjAddr (length h0 + length (frame_cells (length h0) fs))) (h0 @ map Some (add_cells (length h0) ?v fs))"
      unfolding processLineItem_def g rl bindr_simps option.case prod.case obj by simp
    moreover have "typed_step k fs b = finish_item ?v fs rest" using k fl by (auto simp: typed_step_def)
    ultimately show ?thesis using deliver_sim [OF rd refl al1(1) refl] by simp
  qed
qed

lemma line_number_range: "line_number l \<le> 9223372036854775807"
proof -
  from readLongLong_line [of l "[]"] have "readLongLong (l @ [CR]) = Inr (line_number l)" .
  then have "line_number l = - 1 \<or> (\<exists>x. line_number l = int64 x)"
    by (auto simp: readLongLong_def bindr_Inr_iff Let_def split: option.splits dest!: sym [of "int64 _"])
  then show ?thesis using int64_range(2) by auto
qed

text \<open>The size of a bulk item is computed without a wrap that matters: the test on \<open>bytelen\<close> is the test on the
  mathematical size.\<close>

lemma bytelen_exact:
  assumes "0 \<le> n" "n \<le> 9223372036854775807" "s \<le> 2147483647" "pos \<le> 2147483647"
  shows "size_t (int s + 2 + int64 (n + 2)) = s + 2 + (nat n + 2)"
    "size_t (int pos + int (s + 2 + (nat n + 2))) = pos + (s + 2 + (nat n + 2))"
proof -
  have "(int s + 2 + int64 (n + 2)) mod 18446744073709551616 = (int s + 2 + (n + 2)) mod 18446744073709551616"
    by (metis int64_mod mod_add_right_eq)
  also have "\<dots> = int s + 2 + (n + 2)" using assms by (intro mod_pos_pos_trivial) auto
  finally show "size_t (int s + 2 + int64 (n + 2)) = s + 2 + (nat n + 2)" using assms by (simp add: size_t_def nat_add_distrib)
  show "size_t (int pos + int (s + 2 + (nat n + 2))) = pos + (s + 2 + (nat n + 2))" using assms by (intro size_t_eq) auto
qed

lemma bulk_sim:
  assumes al: "\<not> may_fail al" and rd: "reading al h0 r h (Some KBulk, fs) b"
  shows "item_sim al h0 (typed_step KBulk fs b) (processBulkItem r h)"
proof -
  from rd have inv: "buffer_holds r b" "r_fn r = defaultFunctions al" "length (r_rstack r) = 9" "r_ridx r = int (length fs)"
    "frames_ok fs" "stack_ok (length h0) fs (r_rstack r)" "t_type (r_rstack r ! length fs) = kind_type (Some KBulk)"
    "h = h0 @ map Some (frame_cells (length h0) fs)" by (simp_all add: reading_def)
  from inv(1) obtain x where x: "drop (r_pos r) (buf_bytes r) = b @ NUL # x" "size_t (int (r_len r) - int (r_pos r)) = length b"
    "length b \<le> 2147483647" "r_len r = r_pos r + length b" "r_len r \<le> 2147483647" by (rule buffer_bytes)
  note sk = seekNewline_spec [OF x(3), of x]
  show ?thesis
  proof (cases "first_line b")
    case None
    then have "processBulkItem r h = Inr (REDIS_ERR, r, h)" using sk by (simp add: processBulkItem_def x(1,2))
    moreover have "typed_step KBulk fs b = Wait (Some KBulk, fs) b" using None by (simp add: typed_step_def)
    ultimately show ?thesis using rd by (simp add: item_sim_def)
  next
    case (Some lr)
    obtain l rest where lr: "lr = (l, rest)" by force
    with Some have fl: "first_line b = Some (l, rest)" by simp
    note al1 = after_line [OF inv(1) fl] and b = first_line_eq [OF fl]
    define n where "n = line_number l"
    have rll: "readLongLong (b @ NUL # x) = Inr n" using al1(4) x(1) by (simp add: n_def)
    have sk': "seekNewline (b @ NUL # x) (length b) = Inr (Some (length l))" using sk fl by simp
    have ta: "task_at r = (r_rstack r, length fs)" by (simp add: task_at_def inv(4))
    note cr = create_leaf [OF al inv(6,3,5) refl, folded inv(8)]
    have sz: "r_len r = r_pos r + (length l + 2 + length rest)" using x(4) by (simp add: b)
    show ?thesis
    proof (cases "n < 0")
      case True
      have "make_nil r h = Inr (Some (ObjAddr (length h0 + length (frame_cells (length h0) fs))), h0 @ map Some (add_cells (length h0) RNil fs))"
        using cr(1) by (simp add: make_nil_def inv(2) defaultFunctions_def ta)
      then have "processBulkItem r h = deliver (r\<lparr>r_pos := r_pos r + (length l + 2)\<rparr>)
          (ObjAddr (length h0 + length (frame_cells (length h0) fs))) (h0 @ map Some (add_cells (length h0) RNil fs))"
        using True by (simp add: processBulkItem_def x(1,2) sk' rll)
      moreover have "typed_step KBulk fs b = finish_item RNil fs rest" using True fl by (simp add: typed_step_def n_def)
      ultimately show ?thesis using deliver_sim [OF rd refl al1(1) refl] by simp
    next
      case False
      then have n0: "0 \<le> n" "n \<le> 9223372036854775807" using line_number_range by (simp_all add: n_def)
      have "length l \<le> 2147483647" "r_pos r \<le> 2147483647" using x(5) sz by simp_all
      note ex = bytelen_exact [OF n0 this]
      show ?thesis
      proof (cases "nat n + 2 \<le> length rest")
        case False
        then have "\<not> r_pos r + (length l + 2 + (nat n + 2)) \<le> r_len r" using sz by simp
        then have "processBulkItem r h = Inr (REDIS_ERR, r, h)"
          using \<open>\<not> n < 0\<close> by (simp only: processBulkItem_def Let_def x(1,2) sk' rll bindr_simps option.case ex if_False)
        moreover have "typed_step KBulk fs b = Wait (Some KBulk, fs) b"
          using False \<open>\<not> n < 0\<close> fl by (simp add: typed_step_def n_def)
        ultimately show ?thesis using rd by (simp add: item_sim_def)
      next
        case True
        let ?v = "RString (take (nat n) rest)" and ?o = "ObjAddr (length h0 + length (frame_cells (length h0) fs))"
        have fits: "r_pos r + (length l + 2 + (nat n + 2)) \<le> r_len r" using True sz by simp
        have str: "drop (length l + 2) (b @ NUL # x) = rest @ NUL # x" by (simp add: b)
        have "make_string r (rest @ NUL # x) (nat n) REDIS_REPLY_STRING h = Inr (Some ?o, h0 @ map Some (add_cells (length h0) ?v fs))"
          using cr(3) [of "nat n" "rest @ NUL # x" ?v] True inv(7)
          by (simp add: make_string_def inv(2) defaultFunctions_def ta kind_type_def)
        then have run: "processBulkItem r h =
            deliver (r\<lparr>r_pos := r_pos r + (length l + 2 + (nat n + 2))\<rparr>) ?o (h0 @ map Some (add_cells (length h0) ?v fs))"
          using fits \<open>\<not> n < 0\<close>
          by (simp only: processBulkItem_def Let_def x(1,2) sk' rll bindr_simps option.case prod.case ex str if_False if_True)
        have "buffer_holds (r\<lparr>r_pos := r_pos r + (length l + 2 + (nat n + 2))\<rparr>) (drop (nat n + 2) rest)"
        proof -
          have "drop (length l + 2) b = rest" by (simp add: b)
          then have "drop (length l + 2 + (nat n + 2)) b = drop (nat n + 2) rest"
            using drop_drop [of "nat n + 2" "length l + 2" b] by (simp add: add.commute)
          moreover have "length l + 2 + (nat n + 2) \<le> length b" using True by (simp add: b)
          ultimately show ?thesis using buffer_advance [OF inv(1), of "length l + 2 + (nat n + 2)"] by simp
        qed
        from deliver_sim [OF rd refl this refl, of ?v] run show ?thesis
          using True \<open>\<not> n < 0\<close> fl by (simp add: typed_step_def n_def Let_def)
      qed
    qed
  qed
qed

lemma set_error_sim:
  assumes "reading al h0 r h st b"
  shows "\<exists>r' n. redisReaderSetError r e str h = Inr (r', h0 @ replicate n None) \<and> r_err r' = e \<and> r_reply r' = None \<and> r_ridx r' = - 1"
proof -
  from assms have inv: "r_fn r = defaultFunctions al" "frames_ok (snd st)" "h = h0 @ map Some (frame_cells (length h0) (snd st))"
    "r_reply r = (if snd st = [] then None else Some (ObjAddr (length h0)))" by (simp_all add: reading_def)
  show ?thesis
  proof (cases "snd st = []")
    case True
    then have "r_reply r = None" "h = h0 @ replicate 0 None" using inv by (simp_all add: frame_cells_def)
    then show ?thesis by (simp add: redisReaderSetError_def Let_def)
  next
    case False
    with free_frames [OF False inv(2), of h0] inv show ?thesis
      by (auto simp: redisReaderSetError_def defaultFunctions_def Let_def)
  qed
qed

lemma move_then_reply:
  "bindr (moveToNextTask r) (\<lambda>r'. Inr (REDIS_OK, if r_ridx r = 0 then r'\<lparr>r_reply := Some obj\<rparr> else r', h)) = deliver r obj h"
  by (simp add: deliver_def Let_def moveToNextTask.simps)

lemma open_array_sim:
  assumes rd: "reading al h0 r h (Some KMulti, fs) b0" and fs: "length fs \<noteq> 8" and m: "0 < m" "m \<le> 2147483647"
    and b: "buffer_holds (r\<lparr>r_pos := p\<rparr>) b"
  defines "a \<equiv> length h0" and "k \<equiv> length fs"
  defines "cur \<equiv> (r_rstack r ! k)\<lparr>t_elements := int m, t_obj := Some (ObjAddr (a + length (frame_cells a fs)))\<rparr>"
    and "child \<equiv> \<lparr>t_type = - 1, t_elements = - 1, t_idx = 0, t_obj = None, t_parent = Some k\<rparr>"
  defines "st \<equiv> (r_rstack r)[k := cur, Suc k := child]"
  shows "reading al h0 (r\<lparr>r_pos := p, r_rstack := st, r_ridx := int (Suc k), r_reply := Some (ObjAddr a)\<rparr>)
    (h0 @ map Some (frame_cells a ((m, []) # fs))) (None, (m, []) # fs) b"
proof -
  from rd have inv: "r_err r = 0" "r_fn r = defaultFunctions al" "length (r_rstack r) = 9" "r_ridx r = int k"
    "frames_ok fs" "stack_ok a fs (r_rstack r)" "t_type (r_rstack r ! k) = kind_type (Some KMulti)"
    by (simp_all add: reading_def a_def k_def)
  have k: "k < 8" using inv(5) fs by (simp add: frames_ok_def k_def)
  have st: "st ! k = cur" "st ! Suc k = child" "length st = 9" using k inv(3) by (simp_all add: st_def)
  have "stack_ok a fs st"
    using inv(6)
  proof (rule stack_ok_cong)
    show "st ! i = r_rstack r ! i" if "i < length fs" for i using that by (simp add: st_def k_def)
    show "t_idx (st ! length fs) = t_idx (r_rstack r ! length fs)" "t_parent (st ! length fs) = t_parent (r_rstack r ! length fs)"
      using st(1) by (simp_all add: cur_def k_def)
  qed
  moreover have "frame_addr a fs = a + length (frame_cells a fs)"
  proof (cases fs)
    case (Cons f outer)
    then show ?thesis by (cases f) (simp add: frame_addr_def frame_cells_def open_cells_append length_open_cell length_top_cells)
  qed (simp add: frame_addr_def frame_cells_def)
  ultimately have "stack_ok a ((m, []) # fs) st"
    using st inv(7) by (simp add: cur_def child_def kind_type_def flip: k_def)
  moreover have "frames_ok ((m, []) # fs)" using inv(5) m k by (simp add: frames_ok_Cons k_def)
  ultimately show ?thesis
    using inv st b by (auto simp: reading_def kind_type_def child_def k_def [symmetric] a_def [symmetric] elim: buffer_holds_cong)
qed

lemma multi_sim:
  assumes al: "\<not> may_fail al" and rd: "reading al h0 r h (Some KMulti, fs) b"
  shows "item_sim al h0 (typed_step KMulti fs b) (processMultiBulkItem r h)"
proof (cases "length fs = 8")
  case True
  then have "r_ridx r = 8" "typed_step KMulti fs b = Fail" using rd by (simp_all add: reading_def typed_step_def)
  with set_error_sim [OF rd, of REDIS_ERR_PROTOCOL "''No support for nested multi bulk replies with depth > 7''"] show ?thesis
    by (auto simp: processMultiBulkItem_def item_sim_def)
next
  case False
  from rd have inv: "buffer_holds r b" "r_fn r = defaultFunctions al" "length (r_rstack r) = 9" "r_ridx r = int (length fs)"
    "frames_ok fs" "stack_ok (length h0) fs (r_rstack r)" "h = h0 @ map Some (frame_cells (length h0) fs)"
    "r_reply r = (if fs = [] then None else Some (ObjAddr (length h0)))"
    by (simp_all add: reading_def)
  have i8: "r_ridx r \<noteq> 8" using False inv(4) by simp
  show ?thesis
  proof (cases "first_line b")
    case None
    then have "processMultiBulkItem r h = Inr (REDIS_ERR, r, h)"
      using i8 readLine_spec [OF inv(1)] by (simp add: processMultiBulkItem_def)
    moreover have "typed_step KMulti fs b = Wait (Some KMulti, fs) b" using None False by (simp add: typed_step_def)
    ultimately show ?thesis using rd by (simp add: item_sim_def)
  next
    case (Some lr)
    obtain l rest where lr: "lr = (l, rest)" by force
    with Some have fl: "first_line b = Some (l, rest)" by simp
    note al1 = after_line [OF inv(1) fl]
    define n where "n = line_number l"
    let ?r = "r\<lparr>r_pos := r_pos r + (length l + 2)\<rparr>" and ?o = "ObjAddr (length h0 + length (frame_cells (length h0) fs))"
    have rl: "readLine r = Inr (Some (r_pos r, length l, ?r))" using readLine_spec [OF inv(1)] fl by simp
    have rll: "readLongLong (drop (r_pos r) (buf_bytes ?r)) = Inr n" using al1(4) by (simp add: n_def buf_bytes_def)
    have ta: "task_at (r\<lparr>r_pos := q\<rparr>) = (r_rstack r, length fs)" for q by (simp add: task_at_def inv(4))
    note run = processMultiBulkItem_def i8 if_False rl bindr_simps option.case prod.case rll Let_def
    have ts: "typed_step KMulti fs b = (if n = - 1 then finish_item RNil fs rest else if n = 0 then finish_item (RArray []) fs rest
        else if 0 < n \<and> n \<le> 2147483647 then Next ((nat n, []) # fs) rest else Unsupported)"
      using fl False by (simp add: typed_step_def n_def Let_def)
    consider (nil) "n = - 1" | (empty) "n = 0" | (arr) "0 < n" "n \<le> 2147483647" | (bad) "n < - 1 \<or> 2147483647 < n" by linarith
    then show ?thesis
    proof cases
      case nil
      have "make_nil ?r h = Inr (Some ?o, h0 @ map Some (add_cells (length h0) RNil fs))"
        using create_leaf(1) [OF al inv(6,3,5) refl] by (simp add: make_nil_def inv(2,7) defaultFunctions_def ta)
      with nil have "processMultiBulkItem r h = deliver ?r ?o (h0 @ map Some (add_cells (length h0) RNil fs))"
        by (simp only: run if_True simp_thms move_then_reply)
      with deliver_sim [OF rd refl al1(1) refl, of RNil] nil ts show ?thesis by simp
    next
      case empty
      have "make_array ?r 0 h = Inr (Some ?o, h0 @ map Some (add_cells (length h0) (RArray []) fs))"
        using create_array [OF al inv(6,3,5) refl, of 0] by (simp add: make_array_def inv(2,7) defaultFunctions_def ta)
      with empty have "processMultiBulkItem r h = deliver ?r ?o (h0 @ map Some (add_cells (length h0) (RArray []) fs))"
        unfolding run using i8 by (simp add: move_then_reply [symmetric])
      with deliver_sim [OF rd refl al1(1) refl, of "RArray []"] empty ts show ?thesis by simp
    next
      case arr
      define m where "m = nat n"
      then have m: "n = int m" "0 < m" "m \<le> 2147483647" using arr by simp_all
      have "make_array ?r n h = Inr (Some ?o, h0 @ map Some (frame_cells (length h0) ((m, []) # fs)))"
        using create_array [OF al inv(6,3,5) refl m(3)] m by (simp add: make_array_def inv(2,7) defaultFunctions_def ta)
      moreover have "Suc (length fs) < 9" using inv(5) False by (simp add: frames_ok_def)
      moreover define cur where "cur = (r_rstack r ! length fs)\<lparr>t_elements := int m, t_obj := Some ?o\<rparr>"
      moreover define child where "child = \<lparr>t_type = - 1, t_elements = - 1, t_idx = 0, t_obj = None, t_parent = Some (length fs)\<rparr>"
      ultimately have "processMultiBulkItem r h = Inr (REDIS_OK, r\<lparr>r_pos := r_pos r + (length l + 2),
          r_rstack := (r_rstack r)[length fs := cur, Suc (length fs) := child], r_ridx := int (Suc (length fs)),
          r_reply := Some (ObjAddr (length h0))\<rparr>, h0 @ map Some (frame_cells (length h0) ((m, []) # fs)))"
        unfolding run using i8 m inv(3,4,8) by (auto simp: frame_cells_def)
      with open_array_sim [OF rd False m(2,3) al1(1)] ts arr m show ?thesis
        by (auto simp: item_sim_def cur_def child_def)
    next
      case bad
      with ts show ?thesis by (auto simp: item_sim_def)
    qed
  qed
qed

lemma typed_sim:
  assumes al: "\<not> may_fail al" and rd: "reading al h0 r h (Some k, fs) b"
  shows "item_sim al h0 (typed_step k fs b) (processTyped r h)"
proof -
  have "mem_get (r_rstack r) (nat (r_ridx r)) = Inr (r_rstack r ! length fs)" "t_type (r_rstack r ! length fs) = kind_type (Some k)"
    using rd by (simp_all add: reading_def frames_ok_def)
  then show ?thesis
    using line_sim [OF al rd] bulk_sim [OF al, of h0 r h fs b] multi_sim [OF al, of h0 r h fs b] rd
    by (cases k) (simp_all add: processTyped_def kind_type_def reply_types)
qed

lemma read_type:
  assumes rd: "reading al h0 r h (None, fs) (c # b)" and k: "kind_of c = Some k"
  shows "reading al h0 (r\<lparr>r_pos := Suc (r_pos r), r_rstack := (r_rstack r)[length fs := (r_rstack r ! length fs)\<lparr>t_type := kind_type (Some k)\<rparr>]\<rparr>) h (Some k, fs) b"
proof -
  let ?st = "(r_rstack r)[length fs := (r_rstack r ! length fs)\<lparr>t_type := kind_type (Some k)\<rparr>]"
  have inv: "length fs < length (r_rstack r)" "stack_ok (length h0) fs (r_rstack r)" "buffer_holds r (c # b)"
    using rd by (auto simp: reading_def frames_ok_def)
  have "stack_ok (length h0) fs ?st" using inv(2) by (rule stack_ok_cong) (use inv(1) in simp_all)
  moreover have "buffer_holds (r\<lparr>r_pos := Suc (r_pos r)\<rparr>) b" using buffer_advance [OF inv(3), of 1] by simp
  ultimately show ?thesis
    using rd inv(1) by (auto simp: reading_def elim: buffer_holds_cong)
qed

lemma item_type_kind: "item_type c = map_option (\<lambda>k. kind_type (Some k)) (kind_of c)"
  by (simp add: item_type_def kind_of_def kind_type_def)

lemma processItem_sim:
  assumes al: "\<not> may_fail al" and rd: "reading al h0 r h st b"
  shows "item_sim al h0 (item_step st b) (processItem r h)"
proof (cases st)
  case (Pair ty fs)
  have g: "mem_get (r_rstack r) (nat (r_ridx r)) = Inr (r_rstack r ! length fs)" "nat (r_ridx r) = length fs"
    "t_type (r_rstack r ! length fs) = kind_type ty" "buffer_holds r b"
    using rd Pair by (simp_all add: reading_def frames_ok_def)
  show ?thesis
  proof (cases ty)
    case (Some k)
    then have "\<not> t_type (r_rstack r ! length fs) < 0" using g(3) by (cases k) (simp_all add: kind_type_def reply_types)
    with typed_sim [OF al, of h0 r h k fs b] rd Pair Some g(1) show ?thesis by (simp add: processItem_def item_step_def)
  next
    case None
    then have t: "t_type (r_rstack r ! length fs) < 0" using g(3) by (simp add: kind_type_def)
    from g(4) obtain x where x: "drop (r_pos r) (buf_bytes r) = b @ NUL # x" "size_t (int (r_len r) - int (r_pos r)) = length b"
      by (rule buffer_bytes)
    show ?thesis
    proof (cases b)
      case Nil
      with rd Pair None t g(1) x(2) show ?thesis
        by (simp add: processItem_def item_step_def readBytes_def item_sim_def)
    next
      case (Cons c b')
      let ?r = "r\<lparr>r_pos := Suc (r_pos r)\<rparr>"
      have "mem_get (buf_bytes ?r) (r_pos r) = Inr c"
      proof -
        have "r_pos r < length (buf_bytes r)" using arg_cong [OF x(1), of length] by simp
        moreover have "buf_bytes r ! r_pos r = c"
          using x(1) Cons Cons_nth_drop_Suc [of "r_pos r" "buf_bytes r"] \<open>r_pos r < length (buf_bytes r)\<close> by simp
        ultimately show ?thesis by (simp add: buf_bytes_def)
      qed
      then have run: "processItem r h = (case item_type c of
            None \<Rightarrow> bindr (redisReaderSetErrorProtocolByte ?r c h) (\<lambda>(r, h). Inr (REDIS_ERR, r, h))
          | Some ty \<Rightarrow> processTyped (set_task ?r (length fs) ((r_rstack r ! length fs)\<lparr>t_type := ty\<rparr>)) h)"
        using Cons t g(1,2) x(2) by (simp add: processItem_def readBytes_def split: option.split)
      show ?thesis
      proof (cases "kind_of c")
        case None
        have "buffer_holds ?r b'" using buffer_advance [OF g(4), of 1] Cons by simp
        then have "reading al h0 ?r h st b'" using rd by (auto simp: reading_def)
        then obtain r' n where "redisReaderSetErrorProtocolByte ?r c h = Inr (r', h0 @ replicate n None)"
          "r_err r' = REDIS_ERR_PROTOCOL" "r_reply r' = None"
          using set_error_sim unfolding redisReaderSetErrorProtocolByte_def by blast
        with None run Pair \<open>ty = None\<close> Cons show ?thesis
          by (auto simp: item_sim_def item_step_def item_type_kind)
      next
        case (Some k)
        have "reading al h0 (set_task ?r (length fs) ((r_rstack r ! length fs)\<lparr>t_type := kind_type (Some k)\<rparr>)) h (Some k, fs) b'"
          using read_type [OF _ Some, of al h0 r h fs b'] rd Pair \<open>ty = None\<close> Cons by simp
        from typed_sim [OF al this] Some run Pair \<open>ty = None\<close> Cons show ?thesis
          by (simp add: item_step_def item_type_kind)
      qed
    qed
  qed
qed

section \<open>The loop and the public functions\<close>

definition loop_sim :: "allocator \<Rightarrow> reply_heap \<Rightarrow> step \<Rightarrow> ((redisReader \<times> reply_heap) option) res \<Rightarrow> bool" where
  "loop_sim al h0 s res \<longleftrightarrow>
     (case s of
        Wait st b \<Rightarrow> \<exists>r h. res = Inr (Some (r, h)) \<and> reading al h0 r h st b
      | Done w b \<Rightarrow> \<exists>r h. res = Inr (Some (r, h)) \<and> complete_reader al h0 r h w b
      | Fail \<Rightarrow> \<exists>r n. res = Inr (Some (r, h0 @ replicate n None)) \<and> r_err r = REDIS_ERR_PROTOCOL \<and> r_reply r = None
      | _ \<Rightarrow> True)"

lemma item_step_nonempty: "item_step st b = Done w b' \<Longrightarrow> b \<noteq> []"
  by (cases st) (auto simp: item_step_def typed_step_def split: option.splits if_splits)

lemma process_items_sim:
  assumes al: "\<not> may_fail al"
  shows "reading al h0 r h st b \<Longrightarrow> length b < n \<Longrightarrow> loop_sim al h0 (parse st b) (process_items n r h)"
proof (induction st b arbitrary: r h n rule: parse.induct)
  case (1 st b)
  from "1.prems"(2) obtain m where n: "n = Suc m" "length b \<le> m" by (cases n) auto
  have i: "\<not> r_ridx r < 0" using "1.prems"(1) by (simp add: reading_def)
  note sim = processItem_sim [OF al "1.prems"(1)]
  show ?case
  proof (cases "item_step st b")
    case (Wait st' b')
    with sim i n show ?thesis by (auto simp: item_sim_def loop_sim_def parse.simps [of st b])
  next
    case (Next fs b')
    with sim obtain r' h' where r': "processItem r h = Inr (REDIS_OK, r', h')" "reading al h0 r' h' (None, fs) b'"
      by (auto simp: item_sim_def)
    have "length b' < m" using item_step_length [OF Next] n by simp
    from "1.IH" [OF Next r'(2) this] Next r'(1) i n show ?thesis by (simp add: parse.simps [of st b])
  next
    case (Done w b')
    with sim obtain r' h' where r': "processItem r h = Inr (REDIS_OK, r', h')" "complete_reader al h0 r' h' w b'"
      by (auto simp: item_sim_def)
    have "b \<noteq> []" using item_step_nonempty [OF Done] .
    then obtain k where "m = Suc k" using n by (cases m) auto
    with Done r' i n show ?thesis by (simp add: loop_sim_def parse.simps [of st b] complete_reader_def)
  next
    case Fail
    with sim i n show ?thesis by (auto simp: item_sim_def loop_sim_def parse.simps [of st b])
  next
    case Unsupported
    then show ?thesis by (simp add: loop_sim_def parse.simps [of st b])
  qed
qed

text \<open>A reader between two calls, either idle or waiting for the rest of a reply.\<close>

definition idle :: "allocator \<Rightarrow> redisReader \<Rightarrow> string \<Rightarrow> bool" where
  "idle al r b \<longleftrightarrow> r_err r = 0 \<and> buffer_holds r b \<and> r_fn r = defaultFunctions al \<and> length (r_rstack r) = 9 \<and>
     r_ridx r = - 1 \<and> r_reply r = None"

definition waiting :: "allocator \<Rightarrow> reply_heap \<Rightarrow> redisReader \<Rightarrow> reply_heap \<Rightarrow> pstate \<Rightarrow> string \<Rightarrow> bool" where
  "waiting al h0 r h st b \<longleftrightarrow>
     (idle al r b \<and> st = (None, []) \<and> h = h0 \<or> reading al h0 r h st b) \<and> \<not> (fst st = Some KMulti \<and> length (snd st) = 8)"

lemma waiting_buffer: "waiting al h0 r h st b \<Longrightarrow> r_err r = 0 \<and> buffer_holds r b \<and> (r_len r = 0 \<longrightarrow> b = [])"
  by (auto simp: waiting_def idle_def reading_def buffer_holds_def sdslen_val)

lemma parse_wait_ok: "parse st b = Wait st' b' \<Longrightarrow> \<not> (fst st' = Some KMulti \<and> length (snd st') = 8)"
proof (induction st b rule: parse.induct)
  case (1 st b)
  have t: "\<not> (fst st' = Some KMulti \<and> length (snd st') = 8)" if "typed_step k fs c = Wait st' b'" for k fs c
    using typed_step_Wait [OF that] that by (auto simp: typed_step_def)
  show ?case
  proof (cases "item_step st b")
    case (Wait st1 b1)
    with "1.prems" have "item_step st b = Wait st' b'" by (simp add: parse.simps [of st b])
    then show ?thesis by (cases st) (auto simp: item_step_def split: option.splits list.splits dest: t)
  qed (use 1 in \<open>auto simp: parse.simps [of st b]\<close>)
qed

lemma parse_empty: "\<not> (fst st = Some KMulti \<and> length (snd st) = 8) \<Longrightarrow> parse st [] = Wait st []"
  by (cases st) (auto simp: parse.simps item_step_def typed_step_def split: option.split)

text \<open>The start of \<open>redisReaderGetReply\<close> sets up the root task.\<close>

lemma start_reading:
  assumes "waiting al h0 r h st b"
  shows "reading al h0 (if r_ridx r = - 1 then (set_task r 0 root_task)\<lparr>r_ridx := 0\<rparr> else r) h st b"
proof (cases "reading al h0 r h st b")
  case True
  then show ?thesis by (simp add: reading_def)
next
  case False
  with assms show ?thesis
    by (auto simp: waiting_def idle_def reading_def frames_ok_def root_task_def kind_type_def frame_cells_def elim: buffer_holds_cong)
qed

text \<open>Discarding the consumed bytes.\<close>

definition discard :: "redisReader \<Rightarrow> redisReader res" where
  "discard r = (if 1024 \<le> r_pos r then
      (case r_buf r of
         None \<Rightarrow> Inl OutOfBounds
       | Some b \<Rightarrow> bindr (sdsrange b (int32 (int (r_pos r))) (- 1)) (\<lambda>b. Inr (r\<lparr>r_buf := Some b, r_pos := 0, r_len := sdslen b\<rparr>)))
    else Inr r)"

lemma discard_spec:
  assumes b: "buffer_holds r b"
  obtains s p n where "discard r = Inr (r\<lparr>r_buf := s, r_pos := p, r_len := n\<rparr>)" "p < 1024"
    "buffer_holds (r\<lparr>r_buf := s, r_pos := p, r_len := n\<rparr>) b"
proof (cases "1024 \<le> r_pos r")
  case False
  then show ?thesis using that [where s = "r_buf r" and p = "r_pos r" and n = "r_len r"] b by (simp add: discard_def)
next
  case True
  from b obtain s where s: "r_buf r = Some s" "sds_ok s" "r_len r = sdslen s" "r_pos r \<le> r_len r" "b = drop (r_pos r) (sds_val s)"
    by (auto simp: buffer_holds_def)
  have p: "int (r_pos r) \<le> 2147483647" using s(2,3,4) by (auto elim!: sds_okE)
  then obtain s' where s': "sdsrange s (int (r_pos r)) (- 1) = Inr s'" "sds_ok s'" "sds_val s' = range_of (int (r_pos r)) (- 1) (sds_val s)"
    using sdsrange_spec [OF s(2), of "int (r_pos r)" "- 1"] by auto
  then have "discard r = Inr (r\<lparr>r_buf := Some s', r_pos := 0, r_len := sdslen s'\<rparr>)" using True s(1) p by (simp add: discard_def)
  moreover have "buffer_holds (r\<lparr>r_buf := Some s', r_pos := 0, r_len := sdslen s'\<rparr>) b"
    using s' s(5) by (simp add: buffer_holds_def range_of_suffix)
  ultimately show ?thesis using that by simp
qed

lemma getReply_unfold:
  assumes "r_err r = 0" "r_len r \<noteq> 0"
  shows "redisReaderGetReply r h =
    (let r = (if r_ridx r = - 1 then (set_task r 0 root_task)\<lparr>r_ridx := 0\<rparr> else r) in
     bindr (process_items (r_len r - r_pos r + 1) r h) (\<lambda>res.
     case res of
       None \<Rightarrow> Inr None
     | Some (r, h) \<Rightarrow>
         if r_err r \<noteq> 0 then Inr (Some (REDIS_ERR, None, r, h))
         else bindr (discard r) (\<lambda>r.
           if r_ridx r = - 1 then Inr (Some (REDIS_OK, r_reply r, r\<lparr>r_reply := None\<rparr>, h))
           else Inr (Some (REDIS_OK, None, r, h)))))"
  by (simp only: redisReaderGetReply_def discard_def assms simp_thms if_False)

text \<open>What a call of \<open>redisReaderGetReply\<close> does.\<close>

definition get_sim :: "allocator \<Rightarrow> reply_heap \<Rightarrow> step \<Rightarrow> (status \<times> robj option \<times> redisReader \<times> reply_heap) option res \<Rightarrow> bool" where
  "get_sim al h0 s res \<longleftrightarrow>
     (case s of
        Wait st b \<Rightarrow> \<exists>r h. res = Inr (Some (REDIS_OK, None, r, h)) \<and> waiting al h0 r h st b \<and> r_pos r < 1024
      | Done w b \<Rightarrow> \<exists>r. res = Inr (Some (REDIS_OK, Some (ObjAddr (length h0)), r, h0 @ map Some (flatten (length h0) w))) \<and>
          idle al r b \<and> r_pos r < 1024
      | Fail \<Rightarrow> \<exists>r n. res = Inr (Some (REDIS_ERR, None, r, h0 @ replicate n None)) \<and> r_err r = REDIS_ERR_PROTOCOL
      | _ \<Rightarrow> True)"

lemma getReply_sim:
  assumes al: "\<not> may_fail al" and w: "waiting al h0 r h st b" and pos: "r_len r = 0 \<Longrightarrow> r_pos r < 1024"
  shows "get_sim al h0 (parse st b) (redisReaderGetReply r h)"
proof (cases "r_len r = 0")
  case True
  with w have "b = []" "r_err r = 0" "parse st [] = Wait st []"
    using waiting_buffer [OF w] parse_empty [of st] by (auto simp: waiting_def)
  with True w pos show ?thesis by (auto simp: get_sim_def redisReaderGetReply_def)
next
  case len: False
  have err: "r_err r = 0" and bh: "buffer_holds r b" using waiting_buffer [OF w] by auto
  let ?r = "if r_ridx r = - 1 then (set_task r 0 root_task)\<lparr>r_ridx := 0\<rparr> else r"
  have rl: "r_len ?r - r_pos ?r + 1 = length b + 1" using bh by (auto elim!: buffer_bytes)
  note run = getReply_unfold [OF err len, of h, unfolded Let_def rl]
  from process_items_sim [OF al start_reading [OF w], of "length b + 1"]
  have ls: "loop_sim al h0 (parse st b) (process_items (length b + 1) ?r h)" by simp
  show ?thesis
  proof (cases "parse st b")
    case (Wait st' b')
    with ls obtain r1 h1 where r1: "process_items (length b + 1) ?r h = Inr (Some (r1, h1))" "reading al h0 r1 h1 st' b'"
      by (auto simp: loop_sim_def)
    then have i: "r_err r1 = 0" "r_ridx r1 \<noteq> - 1" "buffer_holds r1 b'" by (auto simp: reading_def)
    from i(3) obtain s p n where d: "discard r1 = Inr (r1\<lparr>r_buf := s, r_pos := p, r_len := n\<rparr>)" "p < 1024"
      "buffer_holds (r1\<lparr>r_buf := s, r_pos := p, r_len := n\<rparr>) b'" by (rule discard_spec)
    have "reading al h0 (r1\<lparr>r_buf := s, r_pos := p, r_len := n\<rparr>) h1 st' b'" using r1(2) d(3) by (simp add: reading_def)
    then have "waiting al h0 (r1\<lparr>r_buf := s, r_pos := p, r_len := n\<rparr>) h1 st' b'" using parse_wait_ok [OF Wait] by (simp add: waiting_def)
    with Wait r1(1) i d show ?thesis unfolding run by (simp add: get_sim_def)
  next
    case (Done v b')
    with ls obtain r1 h1 where r1: "process_items (length b + 1) ?r h = Inr (Some (r1, h1))" "complete_reader al h0 r1 h1 v b'"
      by (auto simp: loop_sim_def)
    then have i: "r_err r1 = 0" "r_ridx r1 = - 1" "buffer_holds r1 b'" "r_reply r1 = Some (ObjAddr (length h0))"
      "h1 = h0 @ map Some (flatten (length h0) v)" by (auto simp: complete_reader_def)
    from i(3) obtain s p n where d: "discard r1 = Inr (r1\<lparr>r_buf := s, r_pos := p, r_len := n\<rparr>)" "p < 1024"
      "buffer_holds (r1\<lparr>r_buf := s, r_pos := p, r_len := n\<rparr>) b'" by (rule discard_spec)
    have "idle al (r1\<lparr>r_buf := s, r_pos := p, r_len := n, r_reply := None\<rparr>) b'"
      using r1(2) d(3) by (auto simp: complete_reader_def idle_def elim: buffer_holds_cong)
    with Done r1(1) i d show ?thesis unfolding run by (simp add: get_sim_def)
  next
    case Fail
    with ls obtain r1 n where "process_items (length b + 1) ?r h = Inr (Some (r1, h0 @ replicate n None))" "r_err r1 = REDIS_ERR_PROTOCOL"
      by (auto simp: loop_sim_def)
    with Fail show ?thesis unfolding run by (auto simp: get_sim_def redis_errors)
  qed (use parse_not_Next [of st b] in \<open>auto simp: get_sim_def\<close>)
qed

lemma feed_sim:
  assumes al: "alloc_ok al" "\<not> may_fail al" and w: "waiting al h0 r h st b" and pos: "r_pos r < 1024"
    and fits: "sds_fits (1024 + length b + length d)"
  obtains r' where "redisReaderFeed al r (Some d) (length d) h = Inr (REDIS_OK, r', h)" "waiting al h0 r' h st (b @ d)" "r_pos r' < 1024"
proof (cases "d = []")
  case True
  with that [of r] w pos waiting_buffer [OF w] show ?thesis by (simp add: redisReaderFeed_def)
next
  case False
  have err: "r_err r = 0" and bh: "buffer_holds r b" using waiting_buffer [OF w] by auto
  from bh obtain s where s: "r_buf r = Some s" "sds_ok s" "r_len r = sdslen s" "r_pos r \<le> r_len r" "b = drop (r_pos r) (sds_val s)"
    by (auto simp: buffer_holds_def)
  have keep: "waiting al h0 (r\<lparr>r_buf := Some s', r_pos := p, r_len := sdslen s'\<rparr>) h st (b @ d)"
    if "buffer_holds (r\<lparr>r_buf := Some s', r_pos := p, r_len := sdslen s'\<rparr>) (b @ d)" for s' p
    using w that by (auto simp: waiting_def idle_def reading_def)
  have lb: "sdslen s = r_pos r + length b" using bh s(3) by (auto elim!: buffer_bytes)
  show ?thesis
  proof (cases "r_len r = 0 \<and> r_maxbuf r \<noteq> 0 \<and> r_maxbuf r < sdsavail s")
    case True
    obtain e where e: "sdsempty al = Inr e" "sds_ok e" "sds_val e = []" using al by (rule sdsempty_total)
    have "sds_fits (sdslen e + length d)" using fits e by (auto simp: sdslen_val elim!: sds_fits_mono)
    with al e(2) obtain t where t: "sdscatbytes al e d = Inr t" "sds_ok t" "sds_val t = sds_val e @ d" by (rule sdscatbytes_total)
    have "b = []" using True s(3) lb by simp
    then have "buffer_holds (r\<lparr>r_buf := Some t, r_pos := 0, r_len := sdslen t\<rparr>) (b @ d)"
      using t e by (simp add: buffer_holds_def)
    with keep that [of "r\<lparr>r_buf := Some t, r_pos := 0, r_len := sdslen t\<rparr>"] True False err s(1) e(1) t(1) show ?thesis
      by (simp add: redisReaderFeed_def sdscatlen_bytes Suc_le_eq)
  next
    case keepbuf: False
    have "sds_fits (sdslen s + length d)" using fits lb pos by (auto elim!: sds_fits_mono)
    with al s(2) obtain t where t: "sdscatbytes al s d = Inr t" "sds_ok t" "sds_val t = sds_val s @ d" by (rule sdscatbytes_total)
    have "r_pos r \<le> length (sds_val s)" using s(2,3,4) by (simp add: sdslen_val)
    then have "buffer_holds (r\<lparr>r_buf := Some t, r_pos := r_pos r, r_len := sdslen t\<rparr>) (b @ d)"
      using t s(5) by (simp add: buffer_holds_def sdslen_val)
    from keep [OF this] that [of "r\<lparr>r_buf := Some t, r_len := sdslen t\<rparr>"] keepbuf False err s(1) t(1) pos show ?thesis
      by (auto simp: redisReaderFeed_def sdscatlen_bytes Suc_le_eq)
  qed
qed

section \<open>The interface of a reply source\<close>

text \<open>
  What the connections rely on: a source is fed with bytes and asked for replies, and it behaves like the
  abstract parser on all the bytes fed so far.  How the bytes are cut into chunks then makes no difference, and
  replies come out one by one in the order of the stream.
\<close>

fun feed_chunks :: "('s \<Rightarrow> string \<Rightarrow> (status \<times> 's) res) \<Rightarrow> ('s \<Rightarrow> (status \<times> 'o option \<times> 's) res) \<Rightarrow> 's \<Rightarrow> string list \<Rightarrow> ('o option list \<times> 's) res" where
  "feed_chunks feed get s [] = Inr ([], s)"
| "feed_chunks feed get s (d # ds) =
     bindr (feed s d) (\<lambda>(_, s).
     bindr (get s) (\<lambda>(_, rep, s).
     bindr (feed_chunks feed get s ds) (\<lambda>(reps, s). Inr (rep # reps, s))))"

fun get_replies :: "('s \<Rightarrow> (status \<times> 'o option \<times> 's) res) \<Rightarrow> nat \<Rightarrow> 's \<Rightarrow> ('o option list \<times> 's) res" where
  "get_replies get 0 s = Inr ([], s)"
| "get_replies get (Suc n) s =
     bindr (get s) (\<lambda>(_, rep, s). bindr (get_replies get n s) (\<lambda>(reps, s). Inr (rep # reps, s)))"

locale reply_source =
  fixes rep :: "'s \<Rightarrow> pstate \<Rightarrow> string \<Rightarrow> bool" and cap :: nat
    and feed :: "'s \<Rightarrow> string \<Rightarrow> (status \<times> 's) res" and get :: "'s \<Rightarrow> (status \<times> 'o option \<times> 's) res"
    and view :: "'s \<Rightarrow> 'o \<Rightarrow> reply \<Rightarrow> bool"
  assumes feed_law: "rep s st b \<Longrightarrow> length b + length d \<le> cap \<Longrightarrow> \<exists>s'. feed s d = Inr (REDIS_OK, s') \<and> rep s' st (b @ d) \<and> (\<forall>o1 w. view s o1 w \<longrightarrow> view s' o1 w)"
    and wait_law: "rep s st b \<Longrightarrow> parse st b = Wait st' b' \<Longrightarrow> \<exists>s'. get s = Inr (REDIS_OK, None, s') \<and> rep s' st' b'"
    and done_law: "rep s st b \<Longrightarrow> parse st b = Done v b' \<Longrightarrow> encodable v \<Longrightarrow>
      \<exists>s' o1. get s = Inr (REDIS_OK, Some o1, s') \<and> rep s' (None, []) b' \<and> view s' o1 v"
    and view_law: "rep s (None, []) b \<Longrightarrow> view s o1 w \<Longrightarrow> parse (None, []) b = Done v b' \<Longrightarrow> get s = Inr (z, r, s') \<Longrightarrow> view s' o1 w"
begin

lemma chunks:
  "rep s st b \<Longrightarrow> parse st (b @ concat ds) = Done v [] \<Longrightarrow> encodable v \<Longrightarrow> ds \<noteq> [] \<Longrightarrow> last ds \<noteq> [] \<Longrightarrow>
     length b + length (concat ds) \<le> cap \<Longrightarrow>
     \<exists>s' o1. feed_chunks feed get s ds = Inr (replicate (length ds - 1) None @ [Some o1], s') \<and> rep s' (None, []) [] \<and> view s' o1 v"
proof (induction ds arbitrary: s st b)
  case (Cons d ds)
  have "length b + length d \<le> cap" using Cons.prems(6) by simp
  with feed_law [OF Cons.prems(1)] obtain s1 where s1: "feed s d = Inr (REDIS_OK, s1)" "rep s1 st (b @ d)" by blast
  show ?case
  proof (cases "ds = []")
    case True
    with done_law [OF s1(2)] Cons.prems(2,3) s1(1) show ?thesis by fastforce
  next
    case False
    then have ne: "concat ds \<noteq> []" using Cons.prems(5) last_in_set [of ds] by auto
    have p: "parse st ((b @ d) @ concat ds) = Done v []" using Cons.prems(2) by simp
    from parse_prefix [OF p ne] obtain st' b' where w: "parse st (b @ d) = Wait st' b'" by blast
    from wait_law [OF s1(2) w] obtain s2 where s2: "get s1 = Inr (REDIS_OK, None, s2)" "rep s2 st' b'" by blast
    have "parse st' (b' @ concat ds) = Done v []" using p parse_Wait [OF w] by simp
    moreover have "length b' \<le> length (b @ d)" using parse_Wait_length [OF w] .
    ultimately have "\<exists>s' o1. feed_chunks feed get s2 ds = Inr (replicate (length ds - 1) None @ [Some o1], s') \<and> rep s' (None, []) [] \<and> view s' o1 v"
      using Cons.prems(3,5,6) False by (intro Cons.IH [OF s2(2)]) auto
    then obtain s3 o1 where "feed_chunks feed get s2 ds = Inr (replicate (length ds - 1) None @ [Some o1], s3)" "rep s3 (None, []) []" "view s3 o1 v"
      by blast
    moreover have "replicate (length ds) None = None # replicate (length ds - 1) (None :: 'o option)" using False by (cases ds) simp_all
    ultimately show ?thesis using s1(1) s2(1) by simp
  qed
qed simp

lemma pipeline:
  "rep s (None, []) (concat (map encode vs) @ rest) \<Longrightarrow> \<forall>v \<in> set vs. encodable v \<and> nesting v \<le> 8 \<Longrightarrow>
     (\<forall>(o1, w) \<in> set old. view s o1 w) \<Longrightarrow>
     \<exists>s' os. get_replies get (length vs) s = Inr (map Some os, s') \<and> rep s' (None, []) rest \<and>
       length os = length vs \<and> (\<forall>(o1, w) \<in> set (old @ zip os vs). view s' o1 w)"
proof (induction vs arbitrary: s old)
  case (Cons v vs)
  have v: "encodable v" "nesting v \<le> 8" using Cons.prems(2) by auto
  have p: "parse (None, []) (concat (map encode (v # vs)) @ rest) = Done v (concat (map encode vs) @ rest)"
    using parse_encode [OF v(1), of "[]"] v(2) by simp
  from done_law [OF Cons.prems(1) p v(1)] obtain s1 o1 where
    s1: "get s = Inr (REDIS_OK, Some o1, s1)" "rep s1 (None, []) (concat (map encode vs) @ rest)" "view s1 o1 v" by blast
  have "\<forall>(o2, w) \<in> set (old @ [(o1, v)]). view s1 o2 w"
    using Cons.prems(3) s1(3) view_law [OF Cons.prems(1) _ p s1(1)] by auto
  from Cons.IH [OF s1(2) _ this] Cons.prems(2) obtain s2 os where
    "get_replies get (length vs) s1 = Inr (map Some os, s2)" "rep s2 (None, []) rest" "length os = length vs"
    "\<forall>(o2, w) \<in> set ((old @ [(o1, v)]) @ zip os vs). view s2 o2 w" by auto
  with s1(1) show ?case by (intro exI [of _ s2] exI [of _ "o1 # os"]) auto
qed simp

end

text \<open>The reader with its heap is such a source.\<close>

definition reader_feed :: "allocator \<Rightarrow> redisReader \<times> reply_heap \<Rightarrow> string \<Rightarrow> (status \<times> redisReader \<times> reply_heap) res" where
  "reader_feed al = (\<lambda>(r, h) d. redisReaderFeed al r (Some d) (length d) h)"

definition reader_get :: "redisReader \<times> reply_heap \<Rightarrow> (status \<times> robj option \<times> redisReader \<times> reply_heap) res" where
  "reader_get = (\<lambda>(r, h). bindr (redisReaderGetReply r h) (\<lambda>res. case res of None \<Rightarrow> Inl OutOfBounds | Some x \<Rightarrow> Inr x))"

definition reader_rep :: "allocator \<Rightarrow> redisReader \<times> reply_heap \<Rightarrow> pstate \<Rightarrow> string \<Rightarrow> bool" where
  "reader_rep al = (\<lambda>(r, h) st b. alloc_ok al \<and> \<not> may_fail al \<and> (\<exists>h0. waiting al h0 r h st b) \<and> r_pos r < 1024)"

text \<open>The objects of a reply, in a part of the heap of their own.\<close>

definition stored_at :: "reply_heap \<Rightarrow> nat \<Rightarrow> reply \<Rightarrow> bool" where
  "stored_at h a v \<longleftrightarrow> (\<exists>h1 h2. h = h1 @ map Some (flatten a v) @ h2 \<and> a = length h1)"

lemma stored_at_append: "stored_at h a v \<Longrightarrow> stored_at (h @ h') a v"
  unfolding stored_at_def by (metis append.assoc)

definition reader_view :: "redisReader \<times> reply_heap \<Rightarrow> robj \<Rightarrow> reply \<Rightarrow> bool" where
  "reader_view = (\<lambda>(r, h) o1 v. case o1 of ObjAddr a \<Rightarrow> view_reply (reply_size v) h a = Some v \<and> stored_at h a v | ObjTag _ \<Rightarrow> False)"

lemma view_mono:
  "view_reply n h a = Some v \<Longrightarrow> view_reply n (h @ x) a = Some v"
  "view_replies n h es = Some vs \<Longrightarrow> view_replies n (h @ x) es = Some vs"
proof (induction n h a and n h es arbitrary: v and vs rule: view_reply_view_replies.induct)
  case (2 n h a)
  then obtain r where r: "heap_get h a = Inr r" by (auto split: sum.splits)
  then have "heap_get (h @ x) a = Inr r" by (auto simp: heap_get_def nth_append split: if_splits option.splits)
  with 2 r show ?case by (auto split: if_splits)
next
  case (5 n h a es)
  then show ?case by (auto split: option.splits)
qed auto

lemma encodable_fits: "encodable v \<Longrightarrow> reply_fits v"
  by (induction v) auto

lemma waiting_start: "waiting al h0 r h (None, []) b \<Longrightarrow> h = h0"
  by (auto simp: waiting_def reading_def frame_cells_def)

lemma idle_waiting: "idle al r b \<Longrightarrow> waiting al h r h (None, []) b"
  by (simp add: waiting_def)

interpretation redis_reader: reply_source "reader_rep al" 2146434047 "reader_feed al" reader_get reader_view for al
proof (unfold_locales, goal_cases)
  case (1 s st b d)
  obtain r h where s: "s = (r, h)" by force
  with 1 obtain h0 where w: "alloc_ok al" "\<not> may_fail al" "waiting al h0 r h st b" "r_pos r < 1024" by (auto simp: reader_rep_def)
  have "sds_fits (1024 + length b + length d)" using 1(2) by (simp add: sds_fits_def)
  from feed_sim [OF w this] obtain r' where "redisReaderFeed al r (Some d) (length d) h = Inr (REDIS_OK, r', h)"
    "waiting al h0 r' h st (b @ d)" "r_pos r' < 1024" .
  with w(1,2) show ?case by (auto simp: s reader_feed_def reader_rep_def reader_view_def)
next
  case (2 s st b st' b')
  obtain r h where s: "s = (r, h)" by force
  with 2 obtain h0 where w: "alloc_ok al" "\<not> may_fail al" "waiting al h0 r h st b" "r_pos r < 1024" by (auto simp: reader_rep_def)
  from getReply_sim [OF w(2,3)] w 2(2) show ?case by (fastforce simp: s get_sim_def reader_get_def reader_rep_def)
next
  case (3 s st b v b')
  obtain r h where s: "s = (r, h)" by force
  with 3 obtain h0 where w: "alloc_ok al" "\<not> may_fail al" "waiting al h0 r h st b" "r_pos r < 1024" by (auto simp: reader_rep_def)
  from getReply_sim [OF w(2,3)] w(4) 3(2) obtain r' where
    r': "redisReaderGetReply r h = Inr (Some (REDIS_OK, Some (ObjAddr (length h0)), r', h0 @ map Some (flatten (length h0) v)))"
    "idle al r' b'" "r_pos r' < 1024" by (auto simp: get_sim_def)
  have "view_reply (reply_size v) (h0 @ map Some (flatten (length h0) v)) (length h0) = Some v"
    using view_flatten(1) [OF encodable_fits [OF 3(3)] refl le_refl, of h0 "[]"] by simp
  moreover have "stored_at (h0 @ map Some (flatten (length h0) v)) (length h0) v"
    unfolding stored_at_def by (intro exI [of _ h0] exI [of _ "[]"]) simp
  ultimately show ?case using r' w(1,2)
    by (auto simp: s reader_get_def reader_rep_def reader_view_def intro: idle_waiting)
next
  case (4 s b o1 w v b' z rp s')
  obtain r h where s: "s = (r, h)" by force
  with 4 obtain h0 where w: "alloc_ok al" "\<not> may_fail al" "waiting al h0 r h (None, []) b" "r_pos r < 1024" by (auto simp: reader_rep_def)
  from getReply_sim [OF w(2,3)] w(4) 4(3) obtain r' where
    r': "redisReaderGetReply r h = Inr (Some (REDIS_OK, Some (ObjAddr (length h0)), r', h0 @ map Some (flatten (length h0) v)))"
    by (auto simp: get_sim_def)
  with 4(4) s have s': "s' = (r', h0 @ map Some (flatten (length h0) v))" by (auto simp: reader_get_def)
  from 4(2) waiting_start [OF w(3)] view_mono(1) show ?case
    by (auto simp: s s' reader_view_def stored_at_append split: robj.splits)
qed

lemma create_idle:
  assumes "alloc_ok al" "\<not> may_fail al"
  obtains r where "redisReaderCreateWithFunctions al (defaultFunctions al) = Some r" "idle al r []" "r_pos r = 0"
proof -
  obtain e where e: "sdsempty al = Inr e" "sds_ok e" "sds_val e = []" using assms by (rule sdsempty_total)
  have "al sizeof_redisReader \<noteq> None" using assms(2) by auto
  with e that show ?thesis
    by (simp add: redisReaderCreateWithFunctions_def idle_def buffer_holds_def sdslen_val)
qed

lemma reader_parses_chunks_spec:
  assumes al: "alloc_ok al" "\<not> may_fail al" and r: "redisReaderCreateWithFunctions al (defaultFunctions al) = Some r"
    and v: "encodable v" "nesting v \<le> 8" and ds: "concat ds = encode v" "ds \<noteq> []" "last ds \<noteq> []"
    and cap: "length (encode v) \<le> 2146434047"
  shows "\<exists>r' h' a. feed_chunks (reader_feed al) reader_get (r, h) ds =
      Inr (replicate (length ds - 1) None @ [Some (ObjAddr a)], (r', h')) \<and>
    view_reply (reply_size v) h' a = Some v \<and> buffer_holds r' []"
proof -
  have "idle al r []" "r_pos r = 0" using create_idle [OF al] r by auto
  then have rep: "reader_rep al (r, h) (None, []) []" using al idle_waiting [of al r "[]" h] by (auto simp: reader_rep_def)
  have "parse (None, []) ([] @ concat ds) = Done v []" using parse_encode [OF v(1), of "[]" "[]"] v(2) ds(1) by simp
  from redis_reader.chunks [OF rep this v(1) ds(2,3)] cap ds(1) obtain s' o1 where
    "feed_chunks (reader_feed al) reader_get (r, h) ds = Inr (replicate (length ds - 1) None @ [Some o1], s')"
    "reader_rep al s' (None, []) []" "reader_view s' o1 v" by auto
  then show ?thesis
    by (cases s'; cases o1) (auto simp: reader_rep_def reader_view_def dest: waiting_buffer)
qed

section \<open>Properties\<close>

text \<open>C1: however the bytes of a reply are cut into chunks, feeding the chunks to a fresh reader and asking for a
  reply after each of them yields no reply until the last chunk and then exactly that reply, as a client reads
  it through the pointers of the returned object; nothing is left in the buffer.\<close>

theorem reader_parses_chunks:
  assumes al: "alloc_ok al" "\<not> may_fail al" and r: "redisReaderCreateWithFunctions al (defaultFunctions al) = Some r"
    and v: "encodable v" "nesting v \<le> 8" and ds: "concat ds = encode v" "ds \<noteq> []" "last ds \<noteq> []"
    and cap: "length (encode v) \<le> 2146434047"
  shows "\<exists>r' h' a. feed_chunks (reader_feed al) reader_get (r, h) ds =
      Inr (replicate (length ds - 1) None @ [Some (ObjAddr a)], (r', h')) \<and>
    view_reply (reply_size v) h' a = Some v \<and> buffer_holds r' []"
  by (rule reader_parses_chunks_spec [OF assms])

lemma create_exists: "\<exists>r. redisReaderCreateWithFunctions (fill_alloc NUL) (defaultFunctions (fill_alloc NUL)) = Some r"
  using create_idle [OF fill_alloc_ok fill_alloc_never_fails] by metis

lemma encode_example: "encode (RArray [RInt 7]) = ''*1'' @ CRLF @ '':7'' @ CRLF"
  by code_simp

lemma nesting_example: "nesting (RArray [RInt 7]) = 1"
  by (simp add: nesting.simps)

theorem reader_parses_chunks_witness:
  "\<exists>r r' h' a. redisReaderCreateWithFunctions (fill_alloc NUL) (defaultFunctions (fill_alloc NUL)) = Some r \<and>
     feed_chunks (reader_feed (fill_alloc NUL)) reader_get (r, []) [''*1'' @ [CR], [LF] @ '':7'', CRLF] =
       Inr ([None, None, Some (ObjAddr a)], (r', h')) \<and> view_reply 2 h' a = Some (RArray [RInt 7])"
proof -
  obtain r where r: "redisReaderCreateWithFunctions (fill_alloc NUL) (defaultFunctions (fill_alloc NUL)) = Some r"
    using create_exists by blast
  let ?ds = "[''*1'' @ [CR], [LF] @ '':7'', CRLF]" and ?v = "RArray [RInt 7]"
  have "concat ?ds = encode ?v" "length (encode ?v) \<le> 2146434047" by (simp_all add: encode_example del: encode.simps)
  with reader_parses_chunks [OF fill_alloc_ok fill_alloc_never_fails r, of ?v ?ds "[]"] r show ?thesis
    by (auto simp: nesting_example numeral_2_eq_2 simp del: feed_chunks.simps view_reply.simps)
qed

text \<open>replies that arrive together are delivered one by one in their order, each readable by the client also
  after the later ones have been read.\<close>

theorem reader_pipelines:
  assumes al: "alloc_ok al" "\<not> may_fail al" and r: "redisReaderCreateWithFunctions al (defaultFunctions al) = Some r"
    and vs: "\<forall>v \<in> set vs. encodable v \<and> nesting v \<le> 8" and cap: "length (concat (map encode vs) @ rest) \<le> 2146434047"
  shows "\<exists>r1 os r' h'. reader_feed al (r, h) (concat (map encode vs) @ rest) = Inr (REDIS_OK, r1, h) \<and>
    get_replies reader_get (length vs) (r1, h) = Inr (map Some os, (r', h')) \<and> length os = length vs \<and>
    (\<forall>i < length vs. reader_view (r', h') (os ! i) (vs ! i)) \<and> buffer_holds r' rest"
proof -
  have i: "idle al r []" "r_pos r = 0" using create_idle [OF al] r by auto
  have "sds_fits (1024 + length ([] :: string) + length (concat (map encode vs) @ rest))" using cap by (simp add: sds_fits_def)
  with feed_sim [where d = "concat (map encode vs) @ rest", OF al idle_waiting [of al r "[]" h, OF i(1)]] i(2) obtain r1 where
    r1: "reader_feed al (r, h) (concat (map encode vs) @ rest) = Inr (REDIS_OK, r1, h)"
    "waiting al h r1 h (None, []) (concat (map encode vs) @ rest)" "r_pos r1 < 1024" by (auto simp: reader_feed_def)
  then have "reader_rep al (r1, h) (None, []) (concat (map encode vs) @ rest)" using al by (auto simp: reader_rep_def)
  from redis_reader.pipeline [OF this vs, of "[]"] obtain s' os where
    s': "get_replies reader_get (length vs) (r1, h) = Inr (map Some os, s')" "reader_rep al s' (None, []) rest"
    "length os = length vs" "\<forall>(o1, w) \<in> set (zip os vs). reader_view s' o1 w" by auto
  obtain r' h' where rh: "s' = (r', h')" by force
  have "buffer_holds r' rest" using s'(2) by (auto simp: rh reader_rep_def dest: waiting_buffer)
  moreover have "\<forall>i < length vs. reader_view (r', h') (os ! i) (vs ! i)" using s'(3,4) by (auto simp: rh set_zip)
  ultimately show ?thesis using r1(1) s'(1,3) by (auto simp: rh)
qed

theorem reader_pipelines_witness:
  "\<exists>r r1 o1 o2 r' h'. redisReaderCreateWithFunctions (fill_alloc NUL) (defaultFunctions (fill_alloc NUL)) = Some r \<and>
    reader_feed (fill_alloc NUL) (r, []) (encode (RInt 7) @ encode RNil @ ''+O'') = Inr (REDIS_OK, r1, []) \<and>
    get_replies reader_get 2 (r1, []) = Inr ([Some o1, Some o2], (r', h')) \<and> reader_view (r', h') o1 (RInt 7)"
proof -
  obtain r where r: "redisReaderCreateWithFunctions (fill_alloc NUL) (defaultFunctions (fill_alloc NUL)) = Some r"
    using create_exists by blast
  have e: "encode (RInt 7) = '':7'' @ CRLF" by code_simp
  from reader_pipelines [OF fill_alloc_ok fill_alloc_never_fails r, of "[RInt 7, RNil]" "''+O''" "[]"]
  obtain r1 os r' h' where "reader_feed (fill_alloc NUL) (r, []) (encode (RInt 7) @ encode RNil @ ''+O'') = Inr (REDIS_OK, r1, [])"
    "get_replies reader_get 2 (r1, []) = Inr (map Some os, (r', h'))" "length os = 2" "reader_view (r', h') (os ! 0) (RInt 7)"
    by (auto simp: e numeral_2_eq_2 simp del: encode.simps(4))
  moreover from this(3) obtain o1 o2 where "os = [o1, o2]" by (auto simp: numeral_2_eq_2 length_Suc_conv)
  ultimately show ?thesis using r by auto
qed

text \<open>C10: on a protocol violation (an unknown type byte, or arrays nested too deeply) the reader reports the error,
  frees every object of the unfinished reply, and refuses all further input.\<close>

theorem reader_protocol_error:
  assumes al: "alloc_ok al" "\<not> may_fail al" and r: "redisReaderCreateWithFunctions al (defaultFunctions al) = Some r"
    and b: "parse (None, []) b = Fail" "length b \<le> 2146434047"
  shows "\<exists>r1 r2 n. reader_feed al (r, h) b = Inr (REDIS_OK, r1, h) \<and>
    reader_get (r1, h) = Inr (REDIS_ERR, None, r2, h @ replicate n None) \<and> r_err r2 = REDIS_ERR_PROTOCOL \<and>
    (\<forall>d h'. reader_feed al (r2, h') d = Inr (REDIS_ERR, r2, h')) \<and> (\<forall>h'. reader_get (r2, h') = Inr (REDIS_ERR, None, r2, h'))"
proof -
  have i: "idle al r []" "r_pos r = 0" using create_idle [OF al] r by auto
  have "sds_fits (1024 + length ([] :: string) + length b)" using b by (simp add: sds_fits_def)
  with feed_sim [OF al idle_waiting [of al r "[]" h, OF i(1)]] i(2) obtain r1 where
    r1: "reader_feed al (r, h) b = Inr (REDIS_OK, r1, h)" "waiting al h r1 h (None, []) b" "r_pos r1 < 1024"
    by (auto simp: reader_feed_def)
  from getReply_sim [OF al(2) r1(2)] r1(3) b(1) obtain r2 n where
    "redisReaderGetReply r1 h = Inr (Some (REDIS_ERR, None, r2, h @ replicate n None))" "r_err r2 = REDIS_ERR_PROTOCOL"
    by (auto simp: get_sim_def)
  with r1(1) show ?thesis
    by (auto simp: reader_get_def reader_feed_def redisReaderFeed_def redisReaderGetReply_def redis_errors)
qed

lemma parse_one: "length fs < 8 \<Longrightarrow> parse (None, fs) (''*1'' @ CRLF @ b) = parse (None, (1, []) # fs) b"
proof -
  assume "length fs < 8"
  moreover have "first_line (''1'' @ CRLF @ b) = Some (''1'', b)" by (rule first_line_no_cr) simp
  moreover have "line_number ''1'' = 1" using line_number_show_nat [of 1] unfolding show_nat_1 by simp
  ultimately have "item_step (None, fs) (''*1'' @ CRLF @ b) = Next ((1, []) # fs) b"
    by (simp add: item_step_def kind_of_def typed_step_def)
  then show ?thesis by (rule parse_next)
qed

lemma parse_nested: "length fs + n = 8 \<Longrightarrow> parse (None, fs) (concat (replicate n (''*1'' @ CRLF)) @ ''*'') = Fail"
proof (induction n arbitrary: fs)
  case 0
  then show ?case by (simp add: parse.simps item_step_def kind_of_def typed_step_def)
next
  case (Suc n)
  then show ?case using parse_one [of fs "concat (replicate n (''*1'' @ CRLF)) @ ''*''"] by simp
qed

theorem reader_protocol_error_witness:
  "\<exists>r r1 r2 n. redisReaderCreateWithFunctions (fill_alloc NUL) (defaultFunctions (fill_alloc NUL)) = Some r \<and>
    reader_feed (fill_alloc NUL) (r, []) (concat (replicate 8 (''*1'' @ CRLF)) @ ''*'') = Inr (REDIS_OK, r1, []) \<and>
    reader_get (r1, []) = Inr (REDIS_ERR, None, r2, [] @ replicate n None)"
proof -
  obtain r where r: "redisReaderCreateWithFunctions (fill_alloc NUL) (defaultFunctions (fill_alloc NUL)) = Some r"
    using create_exists by blast
  have "length (concat (replicate 8 (''*1'' @ CRLF)) @ ''*'') \<le> 2146434047" by (simp add: length_concat sum_list_replicate)
  with reader_protocol_error [OF fill_alloc_ok fill_alloc_never_fails r parse_nested [of "[]" 8], of "[]"] r show ?thesis by fastforce
qed

text \<open>C17: \<open>freeReplyObject\<close> on a delivered reply frees each of its objects exactly once and nothing else.\<close>

theorem freeReplyObject_exact:
  "freeReplyObject (Some (ObjAddr (length h))) (h @ map Some (flatten (length h) v) @ h') =
     Inr (h @ replicate (reply_size v) None @ h')"
  using free_flatten(1) [of h "length h" v] by (simp add: freeReplyObject_def del: free_reply.simps)

text \<open>searching the line end of the unread bytes, \<open>seekNewline\<close> stays inside the sds block although it looks one
  byte past the searched range, and it finds the first CR LF.\<close>

theorem seekNewline_safe:
  assumes "sds_ok s" "p \<le> sdslen s"
  shows "seekNewline (drop p (sh_buf s)) (sdslen s - p) =
    Inr (map_option (\<lambda>(l, r). length l) (first_line (drop p (sds_val s))))"
proof -
  let ?r = "\<lparr>r_err = 0, r_errstr = [], r_buf = Some s, r_pos = p, r_len = sdslen s, r_maxbuf = 0, r_rstack = [], r_ridx = 0,
    r_reply = None, r_fn = defaultFunctions (fill_alloc NUL)\<rparr>"
  have "buffer_holds ?r (drop p (sds_val s))" using assms by (simp add: buffer_holds_def)
  then obtain x where "drop p (sh_buf s) = drop p (sds_val s) @ NUL # x" "length (drop p (sds_val s)) \<le> 2147483647"
    by (rule buffer_bytes) (simp add: buf_bytes_def)
  with seekNewline_spec [of "drop p (sds_val s)" x] assms(1) show ?thesis by (simp add: sdslen_val)
qed

theorem seekNewline_safe_witness:
  "seekNewline (drop 1 (''+OK'' @ [CR, NUL])) (4 - 1) = Inr None"
  using seekNewline_safe [of "\<lparr>sh_len = 4, sh_free = 0, sh_buf = ''+OK'' @ [CR, NUL]\<rparr>" 1]
  by (simp add: sds_ok_def sds_layout_def INT_MAX_def sdslen_def sds_val_def)

text \<open>C18: \<open>readLongLong\<close> reads back every \<open>long long\<close> that \<open>sdsll2str\<close> prints, the smallest included.\<close>

theorem readLongLong_sdsll2str:
  assumes "- 9223372036854775808 \<le> v" "v \<le> 9223372036854775807"
  shows "readLongLong (sdsll2str v @ CR # x) = Inr v"
  using readLongLong_line [of "show_int v" x] line_number_show_int [OF assms] sdsll2str_eq [OF assms] by simp

theorem readLongLong_sdsll2str_witness: "readLongLong (sdsll2str (- 9223372036854775808) @ CRLF) = Inr (- 9223372036854775808)"
  by (rule readLongLong_sdsll2str) simp_all

end
