(* ===== verification/Conn.thy ===== *)
theory Conn
  imports ReaderRefine
begin

text \<open>
  The connection context of \<open>hiredis.h\<close> and what its operations exchange with the operating system.
  System calls are not code of the repository: their results are read from scripts in the environment
  record \<open>world\<close>, which the theorems quantify over, so that every behaviour of the kernel is an instance; a
  call on an exhausted script is a call that does not return.
\<close>

section \<open>The environment\<close>

datatype errno = EAGAIN | EINTR | EINPROGRESS | EHOSTUNREACH | EADDRNOTAVAIL | ETIMEDOUT | Errno nat

text \<open>The result of \<open>read\<close>: the bytes stored (none at the end of the stream) or -1; of \<open>write\<close>: the number of
  bytes taken or -1.\<close>

datatype read_result = RdBytes string | RdFail errno
datatype write_result = WrCount nat | WrFail errno

text \<open>The result of the other system calls: a value, or -1 with the error; the pending error of a socket that
  \<open>getsockopt\<close> reports; and the addresses that \<open>getaddrinfo\<close> finds (only their number matters here).\<close>

datatype sys_result = SysOk int | SysFail errno
datatype sock_error = SockError "errno option" | SockFail errno
datatype gai_result = GaiList nat | GaiError int

record world =
  w_reads :: "read_result list"
  w_writes :: "write_result list"
  w_calls :: "sys_result list"
  w_sockerrs :: "sock_error list"
  w_gai :: "gai_result list"
  w_sent :: string                       \<comment> \<open>the bytes the kernel has taken\<close>
  w_opened :: "int list"                 \<comment> \<open>the sockets created\<close>
  w_closed :: "int list"                 \<comment> \<open>the descriptors closed\<close>
  w_nonblock :: bool                     \<comment> \<open>the mode last set on a socket\<close>
  w_opts :: "(string \<times> int) list"       \<comment> \<open>the options set on sockets\<close>
  w_errno :: errno
  w_strerror :: "errno \<Rightarrow> string"
  w_gai_strerror :: "int \<Rightarrow> string"

text \<open>An environment with given answers, nothing sent or opened yet.\<close>

definition new_world :: "read_result list \<Rightarrow> write_result list \<Rightarrow> sys_result list \<Rightarrow> gai_result list \<Rightarrow> world" where
  "new_world rs ws cs gs =
     \<lparr>w_reads = rs, w_writes = ws, w_calls = cs, w_sockerrs = [], w_gai = gs, w_sent = [], w_opened = [], w_closed = [],
      w_nonblock = False, w_opts = [], w_errno = EINTR, w_strerror = (\<lambda>_. ''error''), w_gai_strerror = (\<lambda>_. ''error'')\<rparr>"

section \<open>The context\<close>

text \<open>The flags are the bits of a machine word.\<close>

type_synonym ctx_flags = "32 word"

definition REDIS_BLOCK :: ctx_flags where "REDIS_BLOCK = 0x1"
definition REDIS_CONNECTED :: ctx_flags where "REDIS_CONNECTED = 0x2"
definition REDIS_DISCONNECTING :: ctx_flags where "REDIS_DISCONNECTING = 0x4"
definition REDIS_FREEING :: ctx_flags where "REDIS_FREEING = 0x8"
definition REDIS_IN_CALLBACK :: ctx_flags where "REDIS_IN_CALLBACK = 0x10"
definition REDIS_SUBSCRIBED :: ctx_flags where "REDIS_SUBSCRIBED = 0x20"
definition REDIS_MONITORING :: ctx_flags where "REDIS_MONITORING = 0x40"
definition REDIS_REUSEADDR :: ctx_flags where "REDIS_REUSEADDR = 0x80"

lemmas redis_flags = REDIS_BLOCK_def REDIS_CONNECTED_def REDIS_DISCONNECTING_def REDIS_FREEING_def
  REDIS_IN_CALLBACK_def REDIS_SUBSCRIBED_def REDIS_MONITORING_def REDIS_REUSEADDR_def

unbundle bit_operations_syntax

definition has_flag :: "ctx_flags \<Rightarrow> ctx_flags \<Rightarrow> bool" where "has_flag fl b \<longleftrightarrow> fl AND b \<noteq> 0"
definition set_flag :: "ctx_flags \<Rightarrow> ctx_flags \<Rightarrow> ctx_flags" where "set_flag fl b = fl OR b"
definition clear_flag :: "ctx_flags \<Rightarrow> ctx_flags \<Rightarrow> ctx_flags" where "clear_flag fl b = fl AND NOT b"

text \<open>Each flag is one bit, so that setting or clearing one leaves the others alone.\<close>

fun flag_bit :: "nat \<Rightarrow> ctx_flags" where "flag_bit k = push_bit k 1"

declare flag_bit.simps [simp del]

lemma flag_bits:
  "REDIS_BLOCK = flag_bit 0" "REDIS_CONNECTED = flag_bit 1" "REDIS_DISCONNECTING = flag_bit 2" "REDIS_FREEING = flag_bit 3"
  "REDIS_IN_CALLBACK = flag_bit 4" "REDIS_SUBSCRIBED = flag_bit 5" "REDIS_MONITORING = flag_bit 6" "REDIS_REUSEADDR = flag_bit 7"
  by (simp_all add: redis_flags flag_bit.simps push_bit_eq_mult)

lemma has_flag_bit: "has_flag fl (flag_bit k) \<longleftrightarrow> bit fl k"
  by (simp add: has_flag_def flag_bit.simps bit_iff_and_push_bit_not_eq_0)

lemma bit_flag_bit: "k < 32 \<Longrightarrow> bit (flag_bit j) k \<longleftrightarrow> j = k"
  by (auto simp: flag_bit.simps bit_exp_iff possible_bit_word)

lemma has_set_flag: "k < 32 \<Longrightarrow> has_flag (set_flag fl (flag_bit j)) (flag_bit k) \<longleftrightarrow> j = k \<or> has_flag fl (flag_bit k)"
  by (auto simp: has_flag_bit set_flag_def bit_or_iff bit_flag_bit)

lemma has_clear_flag: "k < 32 \<Longrightarrow> has_flag (clear_flag fl (flag_bit j)) (flag_bit k) \<longleftrightarrow> j \<noteq> k \<and> has_flag fl (flag_bit k)"
  by (auto simp: has_flag_bit clear_flag_def bit_and_iff bit_not_iff bit_flag_bit)

lemma has_flag_or: "has_flag fl (a OR b) \<longleftrightarrow> has_flag fl a \<or> has_flag fl b"
  by (simp add: has_flag_def bit.conj_disj_distrib or_eq_0_iff)

lemma set_flag_or: "set_flag fl (a OR b) = set_flag (set_flag fl a) b"
  by (simp add: set_flag_def or.assoc)

lemma no_flag: "\<not> has_flag 0 b"
  by (simp add: has_flag_def)

lemmas flag_simps = flag_bits has_set_flag has_clear_flag no_flag has_flag_or set_flag_or

datatype redisConnectionType = REDIS_CONN_TCP | REDIS_CONN_UNIX

record timeval =
  tv_sec :: int
  tv_usec :: int

record redisContext =
  c_err :: nat
  c_errstr :: string
  c_fd :: int
  c_flags :: ctx_flags
  c_obuf :: "sdshdr option"
  c_reader :: "redisReader option"
  c_connection_type :: redisConnectionType
  c_timeout :: "timeval option"
  c_tcp_host :: "string option"
  c_tcp_source_addr :: "string option"
  c_tcp_port :: int
  c_unix_path :: "string option"

abbreviation blocking :: "redisContext \<Rightarrow> bool" where
  "blocking c \<equiv> has_flag (c_flags c) REDIS_BLOCK"

section \<open>Errors, creation and release\<close>

definition set_error_text :: "redisContext \<Rightarrow> nat \<Rightarrow> string \<Rightarrow> redisContext" where
  "set_error_text c type str = c\<lparr>c_err := type, c_errstr := take 127 (cstr str)\<rparr>"

text \<open>\<open>__redisSetError\<close>; without a text the error is that of the last system call.\<close>

definition redisSetError :: "redisContext \<Rightarrow> nat \<Rightarrow> string option \<Rightarrow> world \<Rightarrow> redisContext res" where
  "redisSetError c type str w =
     (case str of
        Some s \<Rightarrow> Inr (set_error_text c type s)
      | None \<Rightarrow>
          bindr (check AssertFailed (type = REDIS_ERR_IO)) (\<lambda>_.
          Inr (c\<lparr>c_err := type, c_errstr := take 127 (cstr (w_strerror w (w_errno w)))\<rparr>)))"

definition redisReaderCreate :: "allocator \<Rightarrow> redisReader option" where
  "redisReaderCreate al = redisReaderCreateWithFunctions al (defaultFunctions al)"

definition sizeof_redisContext :: nat where "sizeof_redisContext = 216"

text \<open>An sds function whose NULL result is stored without a test.\<close>

definition or_null :: "sdshdr res \<Rightarrow> (sdshdr option) res" where
  "or_null m = (case m of Inr s \<Rightarrow> Inr (Some s) | Inl NoMem \<Rightarrow> Inr None | Inl e \<Rightarrow> Inl e)"

definition redisFree :: "redisContext \<Rightarrow> reply_heap \<Rightarrow> world \<Rightarrow> (reply_heap \<times> world) res" where
  "redisFree c h w =
     (let w = (if 0 < c_fd c then w\<lparr>w_closed := w_closed w @ [c_fd c]\<rparr> else w) in
      case c_reader c of
        None \<Rightarrow> Inr (h, w)
      | Some r \<Rightarrow> bindr (redisReaderFree r h) (\<lambda>h. Inr (h, w)))"

definition redisContextInit :: "allocator \<Rightarrow> reply_heap \<Rightarrow> world \<Rightarrow> (redisContext option \<times> reply_heap \<times> world) res" where
  "redisContextInit al h w =
     (if al sizeof_redisContext = None then Inr (None, h, w)
      else
        bindr (or_null (sdsempty al)) (\<lambda>obuf.
        let c = \<lparr>c_err = 0, c_errstr = [], c_fd = 0, c_flags = 0, c_obuf = obuf, c_reader = redisReaderCreate al,
                 c_connection_type = REDIS_CONN_TCP, c_timeout = None, c_tcp_host = None, c_tcp_source_addr = None,
                 c_tcp_port = 0, c_unix_path = None\<rparr>
        in if c_obuf c = None \<or> c_reader c = None then bindr (redisFree c h w) (\<lambda>(h, w). Inr (None, h, w))
           else Inr (Some c, h, w)))"

definition redisFreeKeepFd :: "redisContext \<Rightarrow> reply_heap \<Rightarrow> world \<Rightarrow> (int \<times> reply_heap \<times> world) res" where
  "redisFreeKeepFd c h w =
     (let fd = c_fd c in bindr (redisFree (c\<lparr>c_fd := - 1\<rparr>) h w) (\<lambda>(h, w). Inr (fd, h, w)))"

definition redisConnectFd :: "allocator \<Rightarrow> int \<Rightarrow> reply_heap \<Rightarrow> world \<Rightarrow> (redisContext option \<times> reply_heap \<times> world) res" where
  "redisConnectFd al fd h w =
     bindr (redisContextInit al h w) (\<lambda>(c, h, w).
     case c of
       None \<Rightarrow> Inr (None, h, w)
     | Some c \<Rightarrow> Inr (Some (c\<lparr>c_fd := fd, c_flags := set_flag (c_flags c) (REDIS_BLOCK OR REDIS_CONNECTED)\<rparr>), h, w))"

end
