(* ===== verification/Context.thy ===== *)
theory Context
  imports Conn
begin

text \<open>
  The blocking interface of \<open>hiredis.c\<close>: reading from and writing to the socket, appending commands to the
  output buffer and waiting for replies.  The result of an operation that calls the operating system is
  \<open>None\<close> when a system call does not return.
\<close>

section \<open>Reading and writing\<close>

text \<open>\<open>EAGAIN\<close> on a non-blocking socket and \<open>EINTR\<close>: try again later.\<close>

definition try_again :: "redisContext \<Rightarrow> errno \<Rightarrow> bool" where
  "try_again c e \<longleftrightarrow> (e = EAGAIN \<and> \<not> blocking c) \<or> e = EINTR"

type_synonym io_result = "((status \<times> redisContext \<times> reply_heap \<times> world) option) res"

definition fail_with :: "redisContext \<Rightarrow> nat \<Rightarrow> string option \<Rightarrow> reply_heap \<Rightarrow> world \<Rightarrow> io_result" where
  "fail_with c type str h w = bindr (redisSetError c type str w) (\<lambda>c. Inr (Some (REDIS_ERR, c, h, w)))"

definition redisBufferRead :: "allocator \<Rightarrow> redisContext \<Rightarrow> reply_heap \<Rightarrow> world \<Rightarrow> io_result" where
  "redisBufferRead al c h w =
     (if c_err c \<noteq> 0 then Inr (Some (REDIS_ERR, c, h, w))
      else case w_reads w of
        [] \<Rightarrow> Inr None
      | x # xs \<Rightarrow>
          (let w = w\<lparr>w_reads := xs\<rparr> in
           case x of
             RdFail e \<Rightarrow>
               if try_again c e then Inr (Some (REDIS_OK, c, h, w\<lparr>w_errno := e\<rparr>))
               else fail_with c REDIS_ERR_IO None h (w\<lparr>w_errno := e\<rparr>)
           | RdBytes buf \<Rightarrow>
               if buf = [] then fail_with c REDIS_ERR_EOF (Some ''Server closed the connection'') h w
               else
                 (case c_reader c of
                    None \<Rightarrow> Inl OutOfBounds
                  | Some r \<Rightarrow>
                      bindr (redisReaderFeed al r (Some buf) (length buf) h) (\<lambda>(st, r, h).
                      let c = c\<lparr>c_reader := Some r\<rparr> in
                      if st \<noteq> REDIS_OK then fail_with c (r_err r) (Some (r_errstr r)) h w
                      else Inr (Some (REDIS_OK, c, h, w))))))"

text \<open>\<open>redisBufferWrite\<close>, with its \<open>done\<close> flag; the bytes are taken from the memory of the buffer.\<close>

definition redisBufferWrite :: "allocator \<Rightarrow> redisContext \<Rightarrow> world \<Rightarrow> ((status \<times> bool \<times> redisContext \<times> world) option) res" where
  "redisBufferWrite al c w =
     (if c_err c \<noteq> 0 then Inr (Some (REDIS_ERR, False, c, w))
      else case c_obuf c of
        None \<Rightarrow> Inl OutOfBounds
      | Some b \<Rightarrow>
          if 0 < sdslen b then
            (case w_writes w of
               [] \<Rightarrow> Inr None
             | x # xs \<Rightarrow>
                 (let w = w\<lparr>w_writes := xs\<rparr> in
                  case x of
                    WrFail e \<Rightarrow>
                      if try_again c e then Inr (Some (REDIS_OK, False, c, w\<lparr>w_errno := e\<rparr>))
                      else bindr (redisSetError c REDIS_ERR_IO None (w\<lparr>w_errno := e\<rparr>)) (\<lambda>c.
                        Inr (Some (REDIS_ERR, False, c, w\<lparr>w_errno := e\<rparr>)))
                  | WrCount nwritten \<Rightarrow>
                      let w = w\<lparr>w_sent := w_sent w @ take nwritten (sds_val b)\<rparr> in
                      bindr (if nwritten = 0 then Inr (Some b)
                             else if nwritten = sdslen b then or_null (sdsempty al)
                             else bindr (sdsrange b (int32 (int nwritten)) (- 1)) (\<lambda>b. Inr (Some b))) (\<lambda>obuf.
                      case obuf of
                        None \<Rightarrow> Inl OutOfBounds
                      | Some b \<Rightarrow> Inr (Some (REDIS_OK, sdslen b = 0, c\<lparr>c_obuf := Some b\<rparr>, w)))))
          else Inr (Some (REDIS_OK, True, c, w)))"

definition redisGetReplyFromReader ::
    "redisContext \<Rightarrow> reply_heap \<Rightarrow> world \<Rightarrow> (status \<times> robj option \<times> redisContext \<times> reply_heap) res" where
  "redisGetReplyFromReader c h w =
     (case c_reader c of
        None \<Rightarrow> Inl OutOfBounds
      | Some r \<Rightarrow>
          bindr (reader_get (r, h)) (\<lambda>(st, reply, r, h).
          let c = c\<lparr>c_reader := Some r\<rparr> in
          if st = REDIS_ERR then
            bindr (redisSetError c (r_err r) (Some (r_errstr r)) w) (\<lambda>c. Inr (REDIS_ERR, reply, c, h))
          else Inr (REDIS_OK, reply, c, h)))"

section \<open>Waiting for a reply\<close>

text \<open>A write that does not finish the buffer, and a read, use up a result of the operating system.\<close>

lemma redisBufferWrite_consumes:
  "redisBufferWrite al c w = Inr (Some (st, False, c', w')) \<Longrightarrow> st = REDIS_OK \<Longrightarrow> length (w_writes w') < length (w_writes w)"
  by (auto simp: redisBufferWrite_def Let_def res_iff redisSetError_def
      split: if_splits option.splits list.splits write_result.splits)

lemma redisBufferRead_consumes:
  "redisBufferRead al c h w = Inr (Some (st, c', h', w')) \<Longrightarrow> st = REDIS_OK \<Longrightarrow> length (w_reads w') < length (w_reads w)"
  by (auto simp: redisBufferRead_def fail_with_def Let_def res_iff
      split: if_splits option.splits list.splits read_result.splits)

text \<open>The loop that writes until done.\<close>

function write_all :: "allocator \<Rightarrow> redisContext \<Rightarrow> world \<Rightarrow> ((status \<times> redisContext \<times> world) option) res" where
  "write_all al c w =
     bindr (redisBufferWrite al c w) (\<lambda>x.
     case x of
       None \<Rightarrow> Inr None
     | Some (st, wdone, c, w) \<Rightarrow>
         if st = REDIS_ERR then Inr (Some (REDIS_ERR, c, w))
         else if wdone then Inr (Some (REDIS_OK, c, w))
         else write_all al c w)"
  by pat_completeness auto
termination
proof (relation "measure (\<lambda>(al, c, w). length (w_writes w))", goal_cases)
  case (2 al c w x y st z wdone u c' w')
  then show ?case using redisBufferWrite_consumes [of al c w st c' w'] by (cases st) auto
qed simp

declare write_all.simps [simp del]

text \<open>The loop that reads until there is a reply.\<close>

function read_reply :: "allocator \<Rightarrow> redisContext \<Rightarrow> reply_heap \<Rightarrow> world \<Rightarrow>
    ((status \<times> robj option \<times> redisContext \<times> reply_heap \<times> world) option) res" where
  "read_reply al c h w =
     bindr (redisBufferRead al c h w) (\<lambda>x.
     case x of
       None \<Rightarrow> Inr None
     | Some (st, c, h, w) \<Rightarrow>
         if st = REDIS_ERR then Inr (Some (REDIS_ERR, None, c, h, w))
         else
           bindr (redisGetReplyFromReader c h w) (\<lambda>(st, aux, c, h).
           if st = REDIS_ERR then Inr (Some (REDIS_ERR, None, c, h, w))
           else if aux = None then read_reply al c h w
           else Inr (Some (REDIS_OK, aux, c, h, w))))"
  by pat_completeness auto
termination
proof (relation "measure (\<lambda>(al, c, h, w). length (w_reads w))", goal_cases)
  case (2 al c h w x y st z c' u h' w')
  then show ?case using redisBufferRead_consumes [of al c h w st c' h' w'] by (cases st) auto
qed simp

declare read_reply.simps [simp del]

text \<open>The reply pointer of the caller is written only on success; \<open>None\<close> otherwise.\<close>

definition redisGetReply :: "allocator \<Rightarrow> redisContext \<Rightarrow> reply_heap \<Rightarrow> world \<Rightarrow>
    ((status \<times> robj option \<times> redisContext \<times> reply_heap \<times> world) option) res" where
  "redisGetReply al c h w =
     bindr (redisGetReplyFromReader c h w) (\<lambda>(st, aux, c, h).
     if st = REDIS_ERR then Inr (Some (REDIS_ERR, None, c, h, w))
     else if aux = None \<and> blocking c then
       bindr (write_all al c w) (\<lambda>x.
       case x of
         None \<Rightarrow> Inr None
       | Some (st, c, w) \<Rightarrow>
           if st = REDIS_ERR then Inr (Some (REDIS_ERR, None, c, h, w)) else read_reply al c h w)
     else Inr (Some (REDIS_OK, aux, c, h, w)))"

section \<open>Commands\<close>

definition redisAppendCmd :: "allocator \<Rightarrow> redisContext \<Rightarrow> string \<Rightarrow> nat \<Rightarrow> world \<Rightarrow> (status \<times> redisContext) res" where
  "redisAppendCmd al c cmd len w =
     (case c_obuf c of
        None \<Rightarrow> Inl OutOfBounds
      | Some b \<Rightarrow>
          (case sdscatlen al b cmd len of
             Inl NoMem \<Rightarrow> bindr (redisSetError c REDIS_ERR_OOM (Some ''Out of memory'') w) (\<lambda>c. Inr (REDIS_ERR, c))
           | Inl e \<Rightarrow> Inl e
           | Inr newbuf \<Rightarrow> Inr (REDIS_OK, c\<lparr>c_obuf := Some newbuf\<rparr>)))"

definition redisAppendFormattedCommand :: "allocator \<Rightarrow> redisContext \<Rightarrow> string \<Rightarrow> nat \<Rightarrow> world \<Rightarrow> (status \<times> redisContext) res" where
  "redisAppendFormattedCommand al c cmd len w =
     bindr (redisAppendCmd al c cmd len w) (\<lambda>(st, c). if st \<noteq> REDIS_OK then Inr (REDIS_ERR, c) else Inr (REDIS_OK, c))"

definition redisvAppendCommand ::
    "allocator \<Rightarrow> (string \<Rightarrow> 'd va_value \<Rightarrow> string) \<Rightarrow> redisContext \<Rightarrow> string \<Rightarrow> 'd va_value list \<Rightarrow> world \<Rightarrow> (status \<times> redisContext) res" where
  "redisvAppendCommand al pf c format ap w =
     bindr (redisvFormatCommand al pf True format ap) (\<lambda>(len, cmd).
     if len = - 1 then bindr (redisSetError c REDIS_ERR_OOM (Some ''Out of memory'') w) (\<lambda>c. Inr (REDIS_ERR, c))
     else if len = - 2 then bindr (redisSetError c REDIS_ERR_OTHER (Some ''Invalid format string'') w) (\<lambda>c. Inr (REDIS_ERR, c))
     else case cmd of None \<Rightarrow> Inl OutOfBounds | Some cmd \<Rightarrow> redisAppendCmd al c cmd (size_t len) w)"

definition redisAppendCommand ::
    "allocator \<Rightarrow> (string \<Rightarrow> 'd va_value \<Rightarrow> string) \<Rightarrow> redisContext \<Rightarrow> string \<Rightarrow> 'd va_value list \<Rightarrow> world \<Rightarrow> (status \<times> redisContext) res" where
  "redisAppendCommand al pf c format ap w = redisvAppendCommand al pf c format ap w"

definition redisAppendCommandArgv ::
    "allocator \<Rightarrow> redisContext \<Rightarrow> nat \<Rightarrow> string list \<Rightarrow> nat list option \<Rightarrow> world \<Rightarrow> (status \<times> redisContext) res" where
  "redisAppendCommandArgv al c argc argv argvlen w =
     bindr (redisFormatSdsCommandArgv al True argc argv argvlen) (\<lambda>(len, cmd).
     if len = - 1 then bindr (redisSetError c REDIS_ERR_OOM (Some ''Out of memory'') w) (\<lambda>c. Inr (REDIS_ERR, c))
     else case cmd of None \<Rightarrow> Inl OutOfBounds | Some cmd \<Rightarrow> redisAppendCmd al c (sh_buf cmd) (size_t len) w)"

type_synonym cmd_result = "((robj option \<times> redisContext \<times> reply_heap \<times> world) option) res"

definition redisBlockForReply :: "allocator \<Rightarrow> redisContext \<Rightarrow> reply_heap \<Rightarrow> world \<Rightarrow> cmd_result" where
  "redisBlockForReply al c h w =
     (if blocking c then
        bindr (redisGetReply al c h w) (\<lambda>x.
        case x of
          None \<Rightarrow> Inr None
        | Some (st, reply, c, h, w) \<Rightarrow> Inr (Some (if st \<noteq> REDIS_OK then None else reply, c, h, w)))
      else Inr (Some (None, c, h, w)))"

definition redisvCommand ::
    "allocator \<Rightarrow> (string \<Rightarrow> 'd va_value \<Rightarrow> string) \<Rightarrow> redisContext \<Rightarrow> string \<Rightarrow> 'd va_value list \<Rightarrow> reply_heap \<Rightarrow> world \<Rightarrow> cmd_result" where
  "redisvCommand al pf c format ap h w =
     bindr (redisvAppendCommand al pf c format ap w) (\<lambda>(st, c).
     if st \<noteq> REDIS_OK then Inr (Some (None, c, h, w)) else redisBlockForReply al c h w)"

definition redisCommand ::
    "allocator \<Rightarrow> (string \<Rightarrow> 'd va_value \<Rightarrow> string) \<Rightarrow> redisContext \<Rightarrow> string \<Rightarrow> 'd va_value list \<Rightarrow> reply_heap \<Rightarrow> world \<Rightarrow> cmd_result" where
  "redisCommand al pf c format ap h w = redisvCommand al pf c format ap h w"

definition redisCommandArgv ::
    "allocator \<Rightarrow> redisContext \<Rightarrow> nat \<Rightarrow> string list \<Rightarrow> nat list option \<Rightarrow> reply_heap \<Rightarrow> world \<Rightarrow> cmd_result" where
  "redisCommandArgv al c argc argv argvlen h w =
     bindr (redisAppendCommandArgv al c argc argv argvlen w) (\<lambda>(st, c).
     if st \<noteq> REDIS_OK then Inr (Some (None, c, h, w)) else redisBlockForReply al c h w)"

section \<open>Sending and receiving\<close>

text \<open>\<open>ctx_ok al c h out pend\<close>: the context is without error, its output buffer holds \<open>out\<close>, and its reader is
  between two replies with the bytes \<open>pend\<close> unread.\<close>

definition ctx_ok :: "allocator \<Rightarrow> redisContext \<Rightarrow> reply_heap \<Rightarrow> string \<Rightarrow> string \<Rightarrow> bool" where
  "ctx_ok al c h out pend \<longleftrightarrow> c_err c = 0 \<and> (\<exists>b. c_obuf c = Some b \<and> sds_ok b \<and> sds_val b = out) \<and>
     (\<exists>r. c_reader c = Some r \<and> reader_rep al (r, h) (None, []) pend)"

text \<open>Freeing a context whose reader holds no unfinished reply.\<close>

lemma redisFree_idle:
  assumes "\<And>r. c_reader c = Some r \<Longrightarrow> r_reply r = None"
  shows "redisFree c h w = Inr (h, if 0 < c_fd c then w\<lparr>w_closed := w_closed w @ [c_fd c]\<rparr> else w)"
  using assms by (cases "c_reader c") (auto simp: redisFree_def redisReaderFree_def)

lemma waiting_reply: "waiting al h0 r h (None, []) b \<Longrightarrow> r_reply r = None"
  by (auto simp: waiting_def idle_def reading_def)

lemma redisFree_ctx_ok:
  "ctx_ok al c h out pend \<Longrightarrow> c_reader c' = c_reader c \<Longrightarrow>
    redisFree c' h w = Inr (h, if 0 < c_fd c' then w\<lparr>w_closed := w_closed w @ [c_fd c']\<rparr> else w)"
  using waiting_reply by (intro redisFree_idle) (auto simp: ctx_ok_def reader_rep_def)

text \<open>\<open>accepts ws n\<close>: the results \<open>ws\<close> of \<open>write\<close> take exactly \<open>n\<close> bytes, in parts and with interruptions.\<close>

fun accepts :: "write_result list \<Rightarrow> nat \<Rightarrow> bool" where
  "accepts [] n \<longleftrightarrow> n = 0"
| "accepts (WrCount k # ws) n \<longleftrightarrow> 0 < n \<and> k \<le> n \<and> accepts ws (n - k)"
| "accepts (WrFail e # ws) n \<longleftrightarrow> 0 < n \<and> e = EINTR \<and> accepts ws n"

lemma sdsempty_null:
  assumes "alloc_ok al" "\<not> may_fail al"
  obtains b where "or_null (sdsempty al) = Inr (Some b)" "sds_ok b" "sds_val b = []"
  using assms by (rule sdsempty_total) (simp add: or_null_def)

lemma sdsrange_drop:
  assumes "sds_ok b" "k \<le> length (sds_val b)"
  obtains b' where "sdsrange b (int32 (int k)) (- 1) = Inr b'" "sds_ok b'" "sds_val b' = drop k (sds_val b)"
proof -
  have "length (sds_val b) \<le> 2147483647" using assms(1) by (rule sds_okE) simp
  then have "int32 (int k) = int k" "int k \<le> 2147483647" using assms(2) by simp_all
  with sdsrange_spec [OF assms(1), of "int k" "- 1"] that show ?thesis
    by (auto simp: range_of_def)
qed

lemma write_all_empty:
  "c_err c = 0 \<Longrightarrow> c_obuf c = Some b \<Longrightarrow> sdslen b = 0 \<Longrightarrow> write_all al c w = Inr (Some (REDIS_OK, c, w))"
  by (simp add: write_all.simps [of al c w] redisBufferWrite_def)

text \<open>One write that takes \<open>k\<close> bytes of the buffer.\<close>

lemma redisBufferWrite_takes:
  assumes al: "alloc_ok al" "\<not> may_fail al" and c: "c_err c = 0" "c_obuf c = Some b" "sds_ok b"
    and k: "0 < length (sds_val b)" "k \<le> length (sds_val b)" and w: "w_writes w = WrCount k # ws"
  obtains b' where "redisBufferWrite al c w =
      Inr (Some (REDIS_OK, sdslen b' = 0, c\<lparr>c_obuf := Some b'\<rparr>, w\<lparr>w_writes := ws, w_sent := w_sent w @ take k (sds_val b)\<rparr>))"
    "sds_ok b'" "sds_val b' = drop k (sds_val b)"
proof -
  obtain e where e: "or_null (sdsempty al) = Inr (Some e)" "sds_ok e" "sds_val e = []" using al by (rule sdsempty_null)
  obtain d where d: "sdsrange b (int32 (int k)) (- 1) = Inr d" "sds_ok d" "sds_val d = drop k (sds_val b)" using c(3) k(2) by (rule sdsrange_drop)
  have l: "sdslen b = length (sds_val b)" using c(3) by (rule sdslen_val)
  show ?thesis using that [of "if k = 0 then b else if k = length (sds_val b) then e else d"] c k(1) w e d l
    by (auto simp: redisBufferWrite_def)
qed

lemma write_all_sends:
  assumes al: "alloc_ok al" "\<not> may_fail al"
  shows "accepts ws (length s) \<Longrightarrow> c_err c = 0 \<Longrightarrow> c_obuf c = Some b \<Longrightarrow> sds_ok b \<Longrightarrow> sds_val b = s \<Longrightarrow> w_writes w = ws @ ws' \<Longrightarrow>
    \<exists>b' e. write_all al c w = Inr (Some (REDIS_OK, c\<lparr>c_obuf := Some b'\<rparr>,
        w\<lparr>w_writes := ws', w_sent := w_sent w @ s, w_errno := e\<rparr>)) \<and> sds_ok b' \<and> sds_val b' = []"
proof (induction ws "length s" arbitrary: s c b w rule: accepts.induct)
  case 1
  then have "sdslen b = 0" "s = []" by (simp_all add: sdslen_val)
  with 1 write_all_empty [of c b al w] show ?case
    by (intro exI [of _ b] exI [of _ "w_errno w"]) simp
next
  case (2 k ws)
  then have k: "0 < length s" "k \<le> length s" "accepts ws (length (drop k s))" "sdslen b = length s" by (auto simp: sdslen_val)
  obtain b1 where bw: "redisBufferWrite al c w = Inr (Some (REDIS_OK, sdslen b1 = 0, c\<lparr>c_obuf := Some b1\<rparr>,
      w\<lparr>w_writes := ws @ ws', w_sent := w_sent w @ take k (sds_val b)\<rparr>))" and b1: "sds_ok b1" "sds_val b1 = drop k (sds_val b)"
    by (rule redisBufferWrite_takes [OF al 2(3-5), of k w "ws @ ws'"]) (use 2(6,7) k(1,2) in simp_all)
  note bw = bw [unfolded 2(6)] and b1 = b1 [unfolded 2(6)]
  let ?w = "w\<lparr>w_writes := ws @ ws', w_sent := w_sent w @ take k s\<rparr>" and ?c = "c\<lparr>c_obuf := Some b1\<rparr>"
  have "write_all al c w = write_all al ?c ?w"
  proof (cases "sdslen b1 = 0")
    case True
    then show ?thesis using bw write_all_empty [of ?c b1 al ?w] 2(3) by (simp add: write_all.simps [of al c w])
  qed (simp add: write_all.simps [of al c w] bw)
  moreover have "\<exists>b' e. write_all al ?c ?w = Inr (Some (REDIS_OK, ?c\<lparr>c_obuf := Some b'\<rparr>,
      ?w\<lparr>w_writes := ws', w_sent := w_sent ?w @ drop k s, w_errno := e\<rparr>)) \<and> sds_ok b' \<and> sds_val b' = []"
    using 2(3) b1 k(3) by (intro 2(1)) simp_all
  ultimately show ?case by simp
next
  case (3 e ws)
  let ?w = "w\<lparr>w_writes := ws @ ws', w_errno := e\<rparr>"
  have "redisBufferWrite al c w = Inr (Some (REDIS_OK, False, c, ?w))"
    using 3(2-7) by (simp add: redisBufferWrite_def sdslen_val try_again_def)
  then have "write_all al c w = write_all al c ?w" by (simp add: write_all.simps [of al c w])
  moreover have "\<exists>b' e. write_all al c ?w = Inr (Some (REDIS_OK, c\<lparr>c_obuf := Some b'\<rparr>,
      ?w\<lparr>w_writes := ws', w_sent := w_sent ?w @ s, w_errno := e\<rparr>)) \<and> sds_ok b' \<and> sds_val b' = []"
    using 3 by (intro 3(1) [of s c b]) simp_all
  ultimately show ?case by simp
qed

text \<open>What the results of \<open>read\<close> deliver.\<close>

fun chunk_of :: "read_result \<Rightarrow> string" where
  "chunk_of (RdBytes d) = d"
| "chunk_of (RdFail e) = []"

fun readable :: "read_result \<Rightarrow> bool" where
  "readable (RdBytes d) \<longleftrightarrow> d \<noteq> []"
| "readable (RdFail e) \<longleftrightarrow> e = EINTR"

lemma redisBufferRead_feeds:
  assumes "reader_rep al (r, h) st b" "readable x" "length b + length (chunk_of x) \<le> 2146434047"
    "c_err c = 0" "c_reader c = Some r" "w_reads w = x # xs"
  obtains r' h' e where "redisBufferRead al c h w = Inr (Some (REDIS_OK, c\<lparr>c_reader := Some r'\<rparr>, h', w\<lparr>w_reads := xs, w_errno := e\<rparr>))"
    "reader_rep al (r', h') st (b @ chunk_of x)"
proof (cases x)
  case (RdBytes d)
  from redis_reader.feed_law [OF assms(1,3)] obtain r1 h1 where
    "reader_feed al (r, h) (chunk_of x) = Inr (REDIS_OK, r1, h1)" "reader_rep al (r1, h1) st (b @ chunk_of x)" by auto
  with assms RdBytes that [of r1 h1 "w_errno w"] show ?thesis
    by (simp add: redisBufferRead_def reader_feed_def)
next
  case (RdFail e)
  with assms that [of r h e] show ?thesis by (simp add: redisBufferRead_def try_again_def)
qed

lemma read_reply_sim:
  "reader_rep al (r, h) st b \<Longrightarrow> parse st (b @ concat (map chunk_of rs)) = Done v [] \<Longrightarrow> encodable v \<Longrightarrow> rs \<noteq> [] \<Longrightarrow>
    chunk_of (last rs) \<noteq> [] \<Longrightarrow> \<forall>x \<in> set rs. readable x \<Longrightarrow> length b + length (concat (map chunk_of rs)) \<le> 2146434047 \<Longrightarrow>
    c_err c = 0 \<Longrightarrow> c_reader c = Some r \<Longrightarrow> w_reads w = rs @ rs' \<Longrightarrow>
    \<exists>o1 r' h' e. read_reply al c h w = Inr (Some (REDIS_OK, Some o1, c\<lparr>c_reader := Some r'\<rparr>, h', w\<lparr>w_reads := rs', w_errno := e\<rparr>)) \<and>
      reader_rep al (r', h') (None, []) [] \<and> reader_view (r', h') o1 v"
proof (induction rs arbitrary: r h st b c w)
  case (Cons x rs)
  have len: "length b + length (chunk_of x) \<le> 2146434047" using Cons.prems(7) by simp
  have x: "readable x" "w_reads w = x # rs @ rs'" using Cons.prems(6,10) by simp_all
  obtain r1 h1 e where f: "redisBufferRead al c h w = Inr (Some (REDIS_OK, c\<lparr>c_reader := Some r1\<rparr>, h1, w\<lparr>w_reads := rs @ rs', w_errno := e\<rparr>))"
    "reader_rep al (r1, h1) st (b @ chunk_of x)"
    using Cons.prems(1) x(1) len Cons.prems(8,9) x(2) by (rule redisBufferRead_feeds)
  show ?case
  proof (cases "rs = []")
    case True
    with Cons.prems(2) have "parse st (b @ chunk_of x) = Done v []" by simp
    from redis_reader.done_law [OF f(2) this Cons.prems(3)] obtain r2 h2 o1 where
      "reader_get (r1, h1) = Inr (REDIS_OK, Some o1, r2, h2)" "reader_rep al (r2, h2) (None, []) []" "reader_view (r2, h2) o1 v" by auto
    with f(1) True show ?thesis
      by (simp add: read_reply.simps [of al c h w] redisGetReplyFromReader_def) blast
  next
    case False
    then have ne: "concat (map chunk_of rs) \<noteq> []" using Cons.prems(5) last_in_set [of rs] by auto
    have p: "parse st ((b @ chunk_of x) @ concat (map chunk_of rs)) = Done v []" using Cons.prems(2) by simp
    from parse_prefix [OF p ne] obtain st' b' where wt: "parse st (b @ chunk_of x) = Wait st' b'" by blast
    from redis_reader.wait_law [OF f(2) wt] obtain r2 h2 where
      g: "reader_get (r1, h1) = Inr (REDIS_OK, None, r2, h2)" "reader_rep al (r2, h2) st' b'" by auto
    let ?c = "c\<lparr>c_reader := Some r2\<rparr>" and ?w = "w\<lparr>w_reads := rs @ rs', w_errno := e\<rparr>"
    have "read_reply al c h w = read_reply al ?c h2 ?w"
      using f(1) g(1) by (simp add: read_reply.simps [of al c h w] redisGetReplyFromReader_def)
    moreover have "\<exists>o1 r' h' e. read_reply al ?c h2 ?w = Inr (Some (REDIS_OK, Some o1, ?c\<lparr>c_reader := Some r'\<rparr>, h', ?w\<lparr>w_reads := rs', w_errno := e\<rparr>)) \<and>
        reader_rep al (r', h') (None, []) [] \<and> reader_view (r', h') o1 v"
    proof (rule Cons.IH [OF g(2)])
      show "parse st' (b' @ concat (map chunk_of rs)) = Done v []" using p parse_Wait [OF wt] by simp
      show "length b' + length (concat (map chunk_of rs)) \<le> 2146434047"
        using Cons.prems(7) parse_Wait_length [OF wt] by simp
    qed (use Cons.prems False in auto)
    ultimately show ?thesis by simp
  qed
qed simp

section \<open>Commands on a blocking connection\<close>

text \<open>The object a command returned reads as the reply \<open>v\<close>.\<close>

definition reads_as :: "robj option \<times> reply_heap \<Rightarrow> reply \<Rightarrow> bool" where
  "reads_as = (\<lambda>(o1, h) v. \<exists>a. o1 = Some (ObjAddr a) \<and> view_reply (reply_size v) h a = Some v)"

lemma reads_as_view: "reader_view (r, h) o1 v \<Longrightarrow> reads_as (Some o1, h) v"
  by (cases o1) (simp_all add: reads_as_def reader_view_def)

lemma redisGetReplyFromReader_waits:
  assumes "c_reader c = Some r" "reader_rep al (r, h) (None, []) []"
  obtains r' h' where "redisGetReplyFromReader c h w = Inr (REDIS_OK, None, c\<lparr>c_reader := Some r'\<rparr>, h')"
    "reader_rep al (r', h') (None, []) []"
  using redis_reader.wait_law [OF assms(2) parse_empty [of "(None, [])"]] assms(1) that
  by (auto simp: redisGetReplyFromReader_def)

lemma redisGetReply_delivers:
  assumes al: "alloc_ok al" "\<not> may_fail al" and c: "ctx_ok al c h out []" "blocking c"
    and ws: "w_writes w = ws @ ws'" "accepts ws (length out)"
    and rs: "w_reads w = rs @ rs'" "\<forall>x \<in> set rs. readable x" "rs \<noteq> []" "chunk_of (last rs) \<noteq> []"
      "concat (map chunk_of rs) = encode v" "length (encode v) \<le> 2146434047"
    and v: "encodable v" "nesting v \<le> 8"
  obtains o1 c' h' e where
    "redisGetReply al c h w = Inr (Some (REDIS_OK, Some o1, c', h', w\<lparr>w_writes := ws', w_sent := w_sent w @ out, w_reads := rs', w_errno := e\<rparr>))"
    "ctx_ok al c' h' [] []" "c_flags c' = c_flags c" "reads_as (Some o1, h') v" "\<exists>r. c_reader c' = Some r \<and> reader_view (r, h') o1 v"
proof -
  from c(1) obtain b r where b: "c_err c = 0" "c_obuf c = Some b" "sds_ok b" "sds_val b = out" "c_reader c = Some r"
    "reader_rep al (r, h) (None, []) []" by (auto simp: ctx_ok_def)
  obtain r1 h1 where g: "redisGetReplyFromReader c h w = Inr (REDIS_OK, None, c\<lparr>c_reader := Some r1\<rparr>, h1)"
    "reader_rep al (r1, h1) (None, []) []" using b(5,6) by (rule redisGetReplyFromReader_waits)
  let ?c1 = "c\<lparr>c_reader := Some r1\<rparr>"
  from write_all_sends [OF al ws(2), of ?c1 b w ws'] b ws(1) obtain b' e where
    wr: "write_all al ?c1 w = Inr (Some (REDIS_OK, ?c1\<lparr>c_obuf := Some b'\<rparr>, w\<lparr>w_writes := ws', w_sent := w_sent w @ out, w_errno := e\<rparr>))"
    "sds_ok b'" "sds_val b' = []" by auto
  have "parse (None, []) ([] @ concat (map chunk_of rs)) = Done v []"
    using parse_encode [OF v(1), of "[]" "[]"] v(2) rs(5) by simp
  from read_reply_sim [OF g(2) this v(1) rs(3,4,2), of "?c1\<lparr>c_obuf := Some b'\<rparr>" "w\<lparr>w_writes := ws', w_sent := w_sent w @ out, w_errno := e\<rparr>" rs'] b rs
  obtain o1 r2 h2 e' where rd:
    "read_reply al (?c1\<lparr>c_obuf := Some b'\<rparr>) h1 (w\<lparr>w_writes := ws', w_sent := w_sent w @ out, w_errno := e\<rparr>) =
      Inr (Some (REDIS_OK, Some o1, c\<lparr>c_obuf := Some b', c_reader := Some r2\<rparr>, h2,
        w\<lparr>w_writes := ws', w_sent := w_sent w @ out, w_reads := rs', w_errno := e'\<rparr>))"
    "reader_rep al (r2, h2) (None, []) []" "reader_view (r2, h2) o1 v" by auto
  show ?thesis
  proof (rule that)
    show "redisGetReply al c h w = Inr (Some (REDIS_OK, Some o1, c\<lparr>c_obuf := Some b', c_reader := Some r2\<rparr>, h2,
        w\<lparr>w_writes := ws', w_sent := w_sent w @ out, w_reads := rs', w_errno := e'\<rparr>))"
      using g(1) wr(1) rd(1) c(2) by (simp add: redisGetReply_def)
    show "ctx_ok al (c\<lparr>c_obuf := Some b', c_reader := Some r2\<rparr>) h2 [] []" using b wr rd by (auto simp: ctx_ok_def)
    show "reads_as (Some o1, h2) v" using rd(3) by (rule reads_as_view)
  qed (use rd(3) in simp_all)
qed

lemma redisGetReply_blocking:
  assumes al: "alloc_ok al" "\<not> may_fail al" and c: "ctx_ok al c h out []" "blocking c"
    and ws: "w_writes w = ws @ ws'" "accepts ws (length out)"
    and rs: "w_reads w = rs @ rs'" "\<forall>x \<in> set rs. readable x" "rs \<noteq> []" "chunk_of (last rs) \<noteq> []"
      "concat (map chunk_of rs) = encode v" "length (encode v) \<le> 2146434047"
    and v: "encodable v" "nesting v \<le> 8"
  obtains o1 c' h' e where
    "redisGetReply al c h w = Inr (Some (REDIS_OK, Some o1, c', h', w\<lparr>w_writes := ws', w_sent := w_sent w @ out, w_reads := rs', w_errno := e\<rparr>))"
    "ctx_ok al c' h' [] []" "c_flags c' = c_flags c" "reads_as (Some o1, h') v"
  by (rule redisGetReply_delivers [OF assms]) (rule that)

lemma redisAppendCmd_spec:
  assumes al: "alloc_ok al" "\<not> may_fail al" and c: "ctx_ok al c h out pend"
    and len: "len \<le> length cmd" "sds_fits (length out + len)"
  obtains c' where "redisAppendCmd al c cmd len w = Inr (REDIS_OK, c')" "ctx_ok al c' h (out @ take len cmd) pend" "c_flags c' = c_flags c"
proof -
  from c obtain b r where b: "c_err c = 0" "c_obuf c = Some b" "sds_ok b" "sds_val b = out" "c_reader c = Some r"
    "reader_rep al (r, h) (None, []) pend" by (auto simp: ctx_ok_def)
  have "sds_fits (sdslen b + length (take len cmd))" using b(3,4) len by (simp add: sdslen_val)
  with al b(3) obtain b' where "sdscatbytes al b (take len cmd) = Inr b'" "sds_ok b'" "sds_val b' = out @ take len cmd"
    unfolding b(4) [symmetric] by (rule sdscatbytes_total)
  with b len(1) that [of "c\<lparr>c_obuf := Some b'\<rparr>"] show ?thesis
    by (simp add: redisAppendCmd_def sdscatlen_bytes ctx_ok_def)
qed

lemma redisAppendCommandArgv_spec:
  assumes al: "alloc_ok al" "\<not> may_fail al" and c: "ctx_ok al c h out pend"
    and ls: "length ls = length argv" "\<forall>j < length argv. ls ! j \<le> length (argv ! j)"
    and fits: "length out + length (resp_command (map2 take ls argv)) \<le> 2146434047"
  obtains c' where "redisAppendCommandArgv al c (length argv) argv (Some ls) w = Inr (REDIS_OK, c')"
    "ctx_ok al c' h (out @ resp_command (map2 take ls argv)) pend" "c_flags c' = c_flags c"
proof -
  let ?r = "resp_command (map2 take ls argv)"
  have m: "map arg_bytes (zip argv ls) = map2 take ls argv" using ls(1) by (intro nth_equalityI) simp_all
  have "\<forall>(a, l) \<in> set (zip argv ls). l \<le> length a" using ls by (auto simp: set_zip)
  from redisFormatSdsCommandArgv_spec [OF al arg_vector_lens [OF ls(1)] _ this] ls(1) fits obtain cmd where
    cmd: "redisFormatSdsCommandArgv al True (length argv) argv (Some ls) = Inr (int (length ?r), Some cmd)" "sds_ok cmd" "sds_val cmd = ?r"
    unfolding m by (auto simp: sds_fits_def)
  have b: "length ?r \<le> length (sh_buf cmd)" "take (length ?r) (sh_buf cmd) = ?r"
    using cmd(2,3) by (auto elim!: sds_okE)
  have "sds_fits (length out + length ?r)" using fits by (simp add: sds_fits_def)
  with al c b(1) obtain c' where "redisAppendCmd al c (sh_buf cmd) (length ?r) w = Inr (REDIS_OK, c')"
    "ctx_ok al c' h (out @ take (length ?r) (sh_buf cmd)) pend" "c_flags c' = c_flags c" by (rule redisAppendCmd_spec)
  with that cmd(1) b(2) fits show ?thesis by (auto simp: redisAppendCommandArgv_def)
qed

lemma redisConnectFd_ok:
  assumes al: "alloc_ok al" "\<not> may_fail al"
  obtains c where "redisConnectFd al fd h w = Inr (Some c, h, w)" "ctx_ok al c h [] []" "blocking c" "c_fd c = fd"
proof -
  obtain b where b: "or_null (sdsempty al) = Inr (Some b)" "sds_ok b" "sds_val b = []" using al by (rule sdsempty_null)
  obtain r where r: "redisReaderCreateWithFunctions al (defaultFunctions al) = Some r" "idle al r []" "r_pos r = 0"
    using al by (rule create_idle)
  have "reader_rep al (r, h) (None, []) []" using al r idle_waiting [of al r "[]" h] by (auto simp: reader_rep_def)
  moreover have "al sizeof_redisContext \<noteq> None" using al(2) by auto
  ultimately show ?thesis using b r(1) that
    by (simp add: redisConnectFd_def redisContextInit_def redisReaderCreate_def ctx_ok_def flag_simps)
qed

lemma redisCommandArgv_spec:
  assumes al: "alloc_ok al" "\<not> may_fail al" and c: "ctx_ok al c h [] []" "blocking c"
    and ls: "length ls = length argv" "\<forall>j < length argv. ls ! j \<le> length (argv ! j)"
    and req: "req = resp_command (map2 take ls argv)" "length req \<le> 2146434047"
    and ws: "w_writes w = ws @ ws'" "accepts ws (length req)"
    and rs: "w_reads w = rs @ rs'" "\<forall>x \<in> set rs. readable x" "rs \<noteq> []" "chunk_of (last rs) \<noteq> []"
      "concat (map chunk_of rs) = encode v" "length (encode v) \<le> 2146434047"
    and v: "encodable v" "nesting v \<le> 8"
  obtains o1 c' h' e where
    "redisCommandArgv al c (length argv) argv (Some ls) h w =
       Inr (Some (Some o1, c', h', w\<lparr>w_writes := ws', w_sent := w_sent w @ req, w_reads := rs', w_errno := e\<rparr>))"
    "ctx_ok al c' h' [] []" "blocking c'" "reads_as (Some o1, h') v"
proof -
  have fits: "length ([] :: string) + length (resp_command (map2 take ls argv)) \<le> 2146434047" using req by simp
  obtain c1 where c1: "redisAppendCommandArgv al c (length argv) argv (Some ls) w = Inr (REDIS_OK, c1)"
    "ctx_ok al c1 h ([] @ resp_command (map2 take ls argv)) []" "c_flags c1 = c_flags c"
    using al c(1) ls fits by (rule redisAppendCommandArgv_spec)
  have "ctx_ok al c1 h req []" "blocking c1" using c1 c(2) req(1) by simp_all
  then obtain o1 c' h' e where
    g: "redisGetReply al c1 h w = Inr (Some (REDIS_OK, Some o1, c', h', w\<lparr>w_writes := ws', w_sent := w_sent w @ req, w_reads := rs', w_errno := e\<rparr>))"
    "ctx_ok al c' h' [] []" "c_flags c' = c_flags c1" "reads_as (Some o1, h') v"
    by (rule redisGetReply_blocking [OF al _ _ ws rs v])
  show ?thesis
    by (rule that [of o1 c' h' e]) (use g c1 c(2) in \<open>simp_all add: redisCommandArgv_def redisBlockForReply_def\<close>)
qed

text \<open>A session: commands issued one after the other, each waiting for its reply; recorded are the replies, each
  with the heap in which its command returned it.\<close>

fun run_commands :: "allocator \<Rightarrow> (string list \<times> nat list) list \<Rightarrow> redisContext \<times> reply_heap \<times> world \<Rightarrow>
    (((robj option \<times> reply_heap) list \<times> redisContext \<times> world) option) res" where
  "run_commands al [] (c, h, w) = Inr (Some ([], c, w))"
| "run_commands al ((argv, ls) # cmds) (c, h, w) =
     bindr (redisCommandArgv al c (length argv) argv (Some ls) h w) (\<lambda>x.
     case x of
       None \<Rightarrow> Inr None
     | Some (o1, c, h, w) \<Rightarrow>
         bindr (run_commands al cmds (c, h, w)) (\<lambda>y.
         case y of None \<Rightarrow> Inr None | Some (os, c, w) \<Rightarrow> Inr (Some ((o1, h) # os, c, w))))"

text \<open>One exchange: the results of the system calls during a command with request \<open>req\<close> and reply \<open>v\<close>.\<close>

definition exchange :: "string \<Rightarrow> reply \<Rightarrow> write_result list \<Rightarrow> read_result list \<Rightarrow> bool" where
  "exchange req v ws rs \<longleftrightarrow> length req \<le> 2146434047 \<and> accepts ws (length req) \<and> (\<forall>x \<in> set rs. readable x) \<and> rs \<noteq> [] \<and>
     chunk_of (last rs) \<noteq> [] \<and> concat (map chunk_of rs) = encode v \<and> length (encode v) \<le> 2146434047 \<and> encodable v \<and> nesting v \<le> 8"

definition argv_ok :: "string list \<times> nat list \<Rightarrow> bool" where
  "argv_ok = (\<lambda>(argv, ls). length ls = length argv \<and> (\<forall>j < length argv. ls ! j \<le> length (argv ! j)))"

definition request :: "string list \<times> nat list \<Rightarrow> string" where
  "request = (\<lambda>(argv, ls). resp_command (map2 take ls argv))"

fun session :: "(string list \<times> nat list) list \<Rightarrow> reply list \<Rightarrow> write_result list \<Rightarrow> read_result list \<Rightarrow> bool" where
  "session [] [] ws rs \<longleftrightarrow> ws = [] \<and> rs = []"
| "session (a # cmds) (v # vs) ws rs \<longleftrightarrow>
     (\<exists>ws1 ws2 rs1 rs2. ws = ws1 @ ws2 \<and> rs = rs1 @ rs2 \<and> argv_ok a \<and> exchange (request a) v ws1 rs1 \<and> session cmds vs ws2 rs2)"
| "session _ _ ws rs \<longleftrightarrow> False"

lemma parse_prefix_waits: "parse st (p @ q) = Wait st' b' \<Longrightarrow> \<exists>st1 b1. parse st p = Wait st1 b1"
  using parse_Done [of st p _ _ q] parse_Fail [of st p q] parse_not_Next [of st p] by (cases "parse st p") auto

text \<open>The end of the stream inside a reply, or before one.\<close>

lemma read_reply_eof:
  "reader_rep al (r, h) st b \<Longrightarrow> parse st (b @ concat (map chunk_of rs)) = Wait st' b' \<Longrightarrow> \<forall>x \<in> set rs. readable x \<Longrightarrow>
    length b + length (concat (map chunk_of rs)) \<le> 2146434047 \<Longrightarrow>
    c_err c = 0 \<Longrightarrow> c_reader c = Some r \<Longrightarrow> w_reads w = rs @ RdBytes [] # rs' \<Longrightarrow>
    \<exists>r' h' e st1 b1 st2 b2. read_reply al c h w = Inr (Some (REDIS_ERR, None,
        c\<lparr>c_reader := Some r', c_err := REDIS_ERR_EOF, c_errstr := ''Server closed the connection''\<rparr>, h', w\<lparr>w_reads := rs', w_errno := e\<rparr>)) \<and>
      reader_rep al (r', h') st1 b1 \<and> parse st1 b1 = Wait st2 b2"
proof (induction rs arbitrary: r h st b c w)
  case Nil
  have "redisBufferRead al c h w = Inr (Some (REDIS_ERR, c\<lparr>c_err := REDIS_ERR_EOF, c_errstr := ''Server closed the connection''\<rparr>, h, w\<lparr>w_reads := rs'\<rparr>))"
    using Nil by (simp add: redisBufferRead_def fail_with_def redisSetError_def set_error_text_def cstr_def)
  with Nil show ?case
    by (intro exI [of _ r] exI [of _ h] exI [of _ "w_errno w"] exI [of _ st] exI [of _ b] exI [of _ st'] exI [of _ b'])
      (simp add: read_reply.simps [of al c h w])
next
  case (Cons x rs)
  have len: "length b + length (chunk_of x) \<le> 2146434047" using Cons.prems(4) by simp
  have x: "readable x" "w_reads w = x # rs @ RdBytes [] # rs'" using Cons.prems(3,7) by simp_all
  obtain r1 h1 e where f: "redisBufferRead al c h w = Inr (Some (REDIS_OK, c\<lparr>c_reader := Some r1\<rparr>, h1,
      w\<lparr>w_reads := rs @ RdBytes [] # rs', w_errno := e\<rparr>))" "reader_rep al (r1, h1) st (b @ chunk_of x)"
    using Cons.prems(1) x(1) len Cons.prems(5,6) x(2) by (rule redisBufferRead_feeds)
  have p: "parse st ((b @ chunk_of x) @ concat (map chunk_of rs)) = Wait st' b'" using Cons.prems(2) by simp
  from parse_prefix_waits [OF p] obtain st1 b1 where wt: "parse st (b @ chunk_of x) = Wait st1 b1" by blast
  from redis_reader.wait_law [OF f(2) wt] obtain r2 h2 where
    g: "reader_get (r1, h1) = Inr (REDIS_OK, None, r2, h2)" "reader_rep al (r2, h2) st1 b1" by auto
  let ?c = "c\<lparr>c_reader := Some r2\<rparr>" and ?w = "w\<lparr>w_reads := rs @ RdBytes [] # rs', w_errno := e\<rparr>"
  have "read_reply al c h w = read_reply al ?c h2 ?w"
    using f(1) g(1) by (simp add: read_reply.simps [of al c h w] redisGetReplyFromReader_def)
  moreover have "parse st1 (b1 @ concat (map chunk_of rs)) = Wait st' b'" using p parse_Wait [OF wt] by simp
  moreover have "length b1 + length (concat (map chunk_of rs)) \<le> 2146434047"
    using Cons.prems(4) parse_Wait_length [OF wt] by simp
  ultimately show ?case using Cons.IH [OF g(2), of ?c ?w] Cons.prems by auto
qed

section \<open>Properties\<close>

text \<open>C3: on a blocking connection commands and replies correspond: whatever parts of the requests the kernel takes at
  a time, however it cuts and interrupts the incoming replies, a session of commands sends exactly the requests, in
  order, each command returns the reply sent for it, and the context is ready for the next command.\<close>

theorem redisCommandArgv_session:
  assumes al: "alloc_ok al" "\<not> may_fail al"
  shows "session cmds vs ws rs \<Longrightarrow> ctx_ok al c h [] [] \<Longrightarrow> blocking c \<Longrightarrow> w_writes w = ws \<Longrightarrow> w_reads w = rs \<Longrightarrow>
    \<exists>os c' w'. run_commands al cmds (c, h, w) = Inr (Some (os, c', w')) \<and> list_all2 reads_as os vs \<and>
      (\<exists>h'. ctx_ok al c' h' [] []) \<and> blocking c' \<and> w_sent w' = w_sent w @ concat (map request cmds)"
proof (induction cmds vs ws rs arbitrary: c h w rule: session.induct)
  case (1 ws rs)
  then show ?case by auto
next
  case (2 a cmds v vs ws rs)
  from 2(2) obtain ws1 ws2 rs1 rs2 where s: "ws = ws1 @ ws2" "rs = rs1 @ rs2" "argv_ok a" "exchange (request a) v ws1 rs1"
    "session cmds vs ws2 rs2" by auto
  obtain argv ls where a: "a = (argv, ls)" by force
  have args: "length ls = length argv" "\<forall>j < length argv. ls ! j \<le> length (argv ! j)" "request a = resp_command (map2 take ls argv)"
    using s(3) by (simp_all add: a argv_ok_def request_def)
  have sc: "w_writes w = ws1 @ ws2" "w_reads w = rs1 @ rs2" using s(1,2) 2(5,6) by simp_all
  have x: "length (request a) \<le> 2146434047" "accepts ws1 (length (request a))" "\<forall>x \<in> set rs1. readable x" "rs1 \<noteq> []"
    "chunk_of (last rs1) \<noteq> []" "concat (map chunk_of rs1) = encode v" "length (encode v) \<le> 2146434047" "encodable v" "nesting v \<le> 8"
    using s(4) by (simp_all add: exchange_def)
  obtain o1 c1 h1 e where c1: "redisCommandArgv al c (length argv) argv (Some ls) h w =
       Inr (Some (Some o1, c1, h1, w\<lparr>w_writes := ws2, w_sent := w_sent w @ request a, w_reads := rs2, w_errno := e\<rparr>))"
    "ctx_ok al c1 h1 [] []" "blocking c1" "reads_as (Some o1, h1) v"
    using al 2(3,4) args(1,2,3) x(1) sc(1) x(2) sc(2) x(3-9) by (rule redisCommandArgv_spec)
  let ?w = "w\<lparr>w_writes := ws2, w_sent := w_sent w @ request a, w_reads := rs2, w_errno := e\<rparr>"
  from 2(1) [OF s(5) c1(2,3), of ?w] obtain os c' w' where
    "run_commands al cmds (c1, h1, ?w) = Inr (Some (os, c', w'))" "list_all2 reads_as os vs"
    "\<exists>h'. ctx_ok al c' h' [] []" "blocking c'" "w_sent w' = w_sent ?w @ concat (map request cmds)" by auto
  with c1(1,4) show ?case by (auto simp: a)
qed auto

text \<open>The number of bytes of a request and the encoding of a reply used in the examples below.\<close>

lemma example_request: "length (request ([''GET'', ''k''], [3, 1])) = 20"
  by code_simp

lemma example_reply: "encode (RString ''ab'') = ''$2'' @ CRLF @ ''ab'' @ CRLF"
  by code_simp

theorem redisCommandArgv_session_witness:
  "\<exists>c os c' w'. redisConnectFd (fill_alloc NUL) 3 []
      (new_world [RdBytes (''$2'' @ [CR]), RdFail EINTR, RdBytes ([LF] @ ''ab'' @ CRLF)] [WrCount 5, WrFail EINTR, WrCount 15] [] []) =
     Inr (Some c, [], new_world [RdBytes (''$2'' @ [CR]), RdFail EINTR, RdBytes ([LF] @ ''ab'' @ CRLF)] [WrCount 5, WrFail EINTR, WrCount 15] [] []) \<and>
   run_commands (fill_alloc NUL) [([''GET'', ''k''], [3, 1])] (c, [],
     new_world [RdBytes (''$2'' @ [CR]), RdFail EINTR, RdBytes ([LF] @ ''ab'' @ CRLF)] [WrCount 5, WrFail EINTR, WrCount 15] [] []) = Inr (Some (os, c', w')) \<and>
   list_all2 reads_as os [RString ''ab''] \<and> w_sent w' = request ([''GET'', ''k''], [3, 1])"
proof -
  let ?al = "fill_alloc NUL" and ?a = "([''GET'', ''k''], [3, 1 :: nat])"
  let ?rs = "[RdBytes (''$2'' @ [CR]), RdFail EINTR, RdBytes ([LF] @ ''ab'' @ CRLF)]" and ?ws = "[WrCount 5, WrFail EINTR, WrCount 15]"
  let ?w = "new_world ?rs ?ws [] []"
  obtain c where c: "redisConnectFd ?al 3 [] ?w = Inr (Some c, [], ?w)" "ctx_ok ?al c [] [] []" "blocking c"
    by (rule redisConnectFd_ok [OF fill_alloc_ok fill_alloc_never_fails])
  have "exchange (request ?a) (RString ''ab'') ?ws ?rs"
    unfolding exchange_def example_request example_reply by simp
  moreover have "argv_ok ?a" by (simp add: argv_ok_def less_Suc_eq)
  ultimately have "session [?a] [RString ''ab''] ?ws ?rs" by auto
  from redisCommandArgv_session [OF fill_alloc_ok fill_alloc_never_fails this c(2,3), of ?w] c(1) show ?thesis by (auto simp: new_world_def)
qed

text \<open>when the server closes the connection before a reply is complete, the blocking call returns an error, the
  context carries the end-of-file error, and from then on waiting for a reply fails at once without touching the
  socket.\<close>

theorem redisGetReply_closed:
  assumes al: "alloc_ok al" "\<not> may_fail al" and c: "ctx_ok al c h out []" "blocking c"
    and ws: "w_writes w = ws @ ws'" "accepts ws (length out)"
    and rs: "w_reads w = rs @ RdBytes [] # rs'" "\<forall>x \<in> set rs. readable x"
      "parse (None, []) (concat (map chunk_of rs)) = Wait st b" "length (concat (map chunk_of rs)) \<le> 2146434047"
  shows "\<exists>c' h' w'. redisGetReply al c h w = Inr (Some (REDIS_ERR, None, c', h', w')) \<and>
    c_err c' = REDIS_ERR_EOF \<and> c_errstr c' = ''Server closed the connection'' \<and> w_reads w' = rs' \<and>
    (\<forall>w1. \<exists>c1 h1. redisGetReply al c' h' w1 = Inr (Some (REDIS_ERR, None, c1, h1, w1)))"
proof -
  from c(1) obtain b0 r where b0: "c_err c = 0" "c_obuf c = Some b0" "sds_ok b0" "sds_val b0 = out" "c_reader c = Some r"
    "reader_rep al (r, h) (None, []) []" by (auto simp: ctx_ok_def)
  obtain r1 h1 where g: "redisGetReplyFromReader c h w = Inr (REDIS_OK, None, c\<lparr>c_reader := Some r1\<rparr>, h1)"
    "reader_rep al (r1, h1) (None, []) []" using b0(5,6) by (rule redisGetReplyFromReader_waits)
  let ?c1 = "c\<lparr>c_reader := Some r1\<rparr>"
  from write_all_sends [OF al ws(2), of ?c1 b0 w ws'] b0 ws(1) obtain b' e where
    wr: "write_all al ?c1 w = Inr (Some (REDIS_OK, ?c1\<lparr>c_obuf := Some b'\<rparr>, w\<lparr>w_writes := ws', w_sent := w_sent w @ out, w_errno := e\<rparr>))" by auto
  let ?c2 = "?c1\<lparr>c_obuf := Some b'\<rparr>" and ?w2 = "w\<lparr>w_writes := ws', w_sent := w_sent w @ out, w_errno := e\<rparr>"
  from read_reply_eof [OF g(2), of rs st b ?c2 ?w2 rs'] rs b0 obtain r2 h2 e2 st1 b1 st2 b2 where
    rd: "read_reply al ?c2 h1 ?w2 = Inr (Some (REDIS_ERR, None,
       ?c2\<lparr>c_reader := Some r2, c_err := REDIS_ERR_EOF, c_errstr := ''Server closed the connection''\<rparr>, h2, ?w2\<lparr>w_reads := rs', w_errno := e2\<rparr>))"
    "reader_rep al (r2, h2) st1 b1" "parse st1 b1 = Wait st2 b2" by auto
  let ?c3 = "?c2\<lparr>c_reader := Some r2, c_err := REDIS_ERR_EOF, c_errstr := ''Server closed the connection''\<rparr>"
  from redis_reader.wait_law [OF rd(2,3)] obtain r3 h3 where "reader_get (r2, h2) = Inr (REDIS_OK, None, r3, h3)" by auto
  then have "redisGetReply al ?c3 h2 w1 = Inr (Some (REDIS_ERR, None, ?c3\<lparr>c_reader := Some r3\<rparr>, h3, w1))" for w1
    using c(2) by (simp add: redisGetReply_def redisGetReplyFromReader_def write_all.simps [of al _ w1] redisBufferWrite_def redis_errors)
  moreover have "redisGetReply al c h w = Inr (Some (REDIS_ERR, None, ?c3, h2, ?w2\<lparr>w_reads := rs', w_errno := e2\<rparr>))"
    using g(1) wr rd(1) c(2) by (simp add: redisGetReply_def)
  ultimately show ?thesis
    by (intro exI [of _ ?c3] exI [of _ h2] exI [of _ "?w2\<lparr>w_reads := rs', w_errno := e2\<rparr>"]) auto
qed

theorem redisGetReply_closed_witness:
  "\<exists>c c' h' w'. ctx_ok (fill_alloc NUL) c [] [] [] \<and>
    redisGetReply (fill_alloc NUL) c [] (new_world [RdBytes ''+OK'', RdBytes []] [] [] []) = Inr (Some (REDIS_ERR, None, c', h', w')) \<and> c_err c' = REDIS_ERR_EOF"
proof -
  let ?w = "new_world [RdBytes ''+OK'', RdBytes []] [] [] []"
  obtain c where c: "redisConnectFd (fill_alloc NUL) 3 [] ?w = Inr (Some c, [], ?w)" "ctx_ok (fill_alloc NUL) c [] [] []" "blocking c"
    by (rule redisConnectFd_ok [OF fill_alloc_ok fill_alloc_never_fails])
  have "parse (None, []) (concat (map chunk_of [RdBytes ''+OK''])) = Wait (Some KStatus, []) ''OK''"
    by (simp add: parse.simps item_step_def kind_of_def typed_step_def)
  from redisGetReply_closed [OF fill_alloc_ok fill_alloc_never_fails c(2,3), of ?w "[]" "[]" "[RdBytes ''+OK'']" "[]", OF _ _ _ _ this] c(2)
  show ?thesis by (auto simp: new_world_def)
qed

end
