(* ===== verification/Net.thy ===== *)
theory Net
  imports Context
begin

text \<open>
  Establishing connections: \<open>net.c\<close> and the connect functions of \<open>hiredis.c\<close>.  Every system call takes its
  result from the environment, so that each error branch of the code is reachable; what the code does to the
  socket (descriptors opened and closed, blocking mode, options) is recorded there.
\<close>

section \<open>System calls\<close>

definition sys_call :: "world \<Rightarrow> ((int \<times> world) option) res" where
  "sys_call w =
     (case w_calls w of
        [] \<Rightarrow> Inr None
      | SysOk v # cs \<Rightarrow> Inr (Some (v, w\<lparr>w_calls := cs\<rparr>))
      | SysFail e # cs \<Rightarrow> Inr (Some (- 1, w\<lparr>w_calls := cs, w_errno := e\<rparr>)))"

definition sys_socket :: "world \<Rightarrow> ((int \<times> world) option) res" where
  "sys_socket w = bindio (sys_call w) (\<lambda>(s, w). Inr (Some (s, if s = - 1 then w else w\<lparr>w_opened := w_opened w @ [s]\<rparr>)))"

definition sys_setsockopt :: "string \<Rightarrow> int \<Rightarrow> world \<Rightarrow> ((int \<times> world) option) res" where
  "sys_setsockopt opt val w =
     bindio (sys_call w) (\<lambda>(rv, w). Inr (Some (rv, if rv < 0 then w else w\<lparr>w_opts := w_opts w @ [(opt, val)]\<rparr>)))"

definition sys_getaddrinfo :: "world \<Rightarrow> (((int + nat) \<times> world) option) res" where
  "sys_getaddrinfo w =
     (case w_gai w of
        [] \<Rightarrow> Inr None
      | GaiList n # gs \<Rightarrow> Inr (Some (Inr n, w\<lparr>w_gai := gs\<rparr>))
      | GaiError rv # gs \<Rightarrow> Inr (Some (Inl rv, w\<lparr>w_gai := gs\<rparr>)))"

section \<open>Helpers of \<open>net.c\<close>\<close>

type_synonym net_result = "((status \<times> redisContext \<times> world) option) res"

definition redisContextCloseFd :: "redisContext \<Rightarrow> world \<Rightarrow> redisContext \<times> world" where
  "redisContextCloseFd c w =
     (if 0 \<le> c_fd c then (c\<lparr>c_fd := - 1\<rparr>, w\<lparr>w_closed := w_closed w @ [c_fd c]\<rparr>) else (c, w))"

text \<open>The message is built in a buffer of 128 bytes.\<close>

definition redisSetErrorFromErrno :: "redisContext \<Rightarrow> nat \<Rightarrow> string option \<Rightarrow> world \<Rightarrow> redisContext" where
  "redisSetErrorFromErrno c type prefix w =
     set_error_text c type
       (take 127 ((case prefix of None \<Rightarrow> [] | Some p \<Rightarrow> p @ '': '') @ cstr (w_strerror w (w_errno w))))"

text \<open>The common error exit: report, close, fail.\<close>

definition net_fail :: "redisContext \<Rightarrow> string option \<Rightarrow> world \<Rightarrow> net_result" where
  "net_fail c prefix w =
     (let (c, w) = redisContextCloseFd (redisSetErrorFromErrno c REDIS_ERR_IO prefix w) w in Inr (Some (REDIS_ERR, c, w)))"

definition redisSetReuseAddr :: "redisContext \<Rightarrow> world \<Rightarrow> net_result" where
  "redisSetReuseAddr c w =
     bindio (sys_setsockopt ''SO_REUSEADDR'' 1 w) (\<lambda>(rv, w).
     if rv = - 1 then net_fail c None w else Inr (Some (REDIS_OK, c, w)))"

definition redisCreateSocket :: "redisContext \<Rightarrow> bool \<Rightarrow> world \<Rightarrow> net_result" where
  "redisCreateSocket c inet w =
     bindio (sys_socket w) (\<lambda>(s, w).
     if s = - 1 then Inr (Some (REDIS_ERR, redisSetErrorFromErrno c REDIS_ERR_IO None w, w))
     else
       let c = c\<lparr>c_fd := s\<rparr> in
       if inet then
         bindio (redisSetReuseAddr c w) (\<lambda>(st, c, w). Inr (Some (if st = REDIS_ERR then REDIS_ERR else REDIS_OK, c, w)))
       else Inr (Some (REDIS_OK, c, w)))"

definition redisSetBlocking :: "redisContext \<Rightarrow> bool \<Rightarrow> world \<Rightarrow> net_result" where
  "redisSetBlocking c blk w =
     bindio (sys_call w) (\<lambda>(flags, w).
     if flags = - 1 then net_fail c (Some ''fcntl(F_GETFL)'') w
     else
       bindio (sys_call w) (\<lambda>(rv, w).
       if rv = - 1 then net_fail c (Some ''fcntl(F_SETFL)'') w
       else Inr (Some (REDIS_OK, c, w\<lparr>w_nonblock := \<not> blk\<rparr>))))"

text \<open>\<open>redisKeepAlive\<close> (the glibc branch): the options in the order in which they are set.\<close>

definition keepalive_opts :: "int \<Rightarrow> (string \<times> int) list" where
  "keepalive_opts interval =
     [(''SO_KEEPALIVE'', 1), (''TCP_KEEPIDLE'', interval),
      (''TCP_KEEPINTVL'', let val = (if 0 \<le> interval then interval div 3 else - ((- interval) div 3)) in if val = 0 then 1 else val),
      (''TCP_KEEPCNT'', 3)]"

fun set_options :: "redisContext \<Rightarrow> (string \<times> int) list \<Rightarrow> world \<Rightarrow> net_result" where
  "set_options c [] w = Inr (Some (REDIS_OK, c, w))"
| "set_options c ((opt, val) # os) w =
     bindio (sys_setsockopt opt val w) (\<lambda>(rv, w).
     if rv < 0 then Inr (Some (REDIS_ERR, set_error_text c REDIS_ERR_OTHER (w_strerror w (w_errno w)), w))
     else set_options c os w)"

definition redisKeepAlive :: "redisContext \<Rightarrow> int \<Rightarrow> world \<Rightarrow> net_result" where
  "redisKeepAlive c interval w = set_options c (keepalive_opts interval) w"

definition redisSetTcpNoDelay :: "redisContext \<Rightarrow> world \<Rightarrow> net_result" where
  "redisSetTcpNoDelay c w =
     bindio (sys_setsockopt ''TCP_NODELAY'' 1 w) (\<lambda>(rv, w).
     if rv = - 1 then net_fail c (Some ''setsockopt(TCP_NODELAY)'') w else Inr (Some (REDIS_OK, c, w)))"

definition MAX_MSEC :: int where "MAX_MSEC = (LONG_MAX - 999) div 1000"

text \<open>The timeout in milliseconds; \<open>None\<close> when the code refuses it.  The arithmetic is that of \<open>long\<close>.\<close>

definition timeout_msec :: "timeval option \<Rightarrow> int option" where
  "timeout_msec timeout =
     (case timeout of
        None \<Rightarrow> Some (- 1)
      | Some tv \<Rightarrow>
          if 1000000 < tv_usec tv \<or> MAX_MSEC < tv_sec tv then None
          else
            let u = int64 (tv_usec tv + 999);
                msec = int64 (int64 (tv_sec tv * 1000) + (if 0 \<le> u then u div 1000 else - ((- u) div 1000)))
            in Some (if msec < 0 \<or> INT_MAX < msec then INT_MAX else msec))"

definition redisCheckSocketError :: "redisContext \<Rightarrow> world \<Rightarrow> net_result" where
  "redisCheckSocketError c w =
     (case w_sockerrs w of
        [] \<Rightarrow> Inr None
      | x # xs \<Rightarrow>
          (let w = w\<lparr>w_sockerrs := xs\<rparr> in
           case x of
             SockFail e \<Rightarrow>
               let w = w\<lparr>w_errno := e\<rparr> in
               Inr (Some (REDIS_ERR, redisSetErrorFromErrno c REDIS_ERR_IO (Some ''getsockopt(SO_ERROR)'') w, w))
           | SockError (Some e) \<Rightarrow>
               let w = w\<lparr>w_errno := e\<rparr> in
               Inr (Some (REDIS_ERR, redisSetErrorFromErrno c REDIS_ERR_IO None w, w))
           | SockError None \<Rightarrow> Inr (Some (REDIS_OK, c, w))))"

definition redisContextWaitReady :: "redisContext \<Rightarrow> timeval option \<Rightarrow> world \<Rightarrow> net_result" where
  "redisContextWaitReady c timeout w =
     (case timeout_msec timeout of
        None \<Rightarrow> net_fail c None w
      | Some msec \<Rightarrow>
          if w_errno w = EINPROGRESS then
            bindio (sys_call (w\<lparr>w_opts := w_opts w @ [(''poll'', msec)]\<rparr>)) (\<lambda>(res, w).
            if res = - 1 then net_fail c (Some ''poll(2)'') w
            else if res = 0 then net_fail c None (w\<lparr>w_errno := ETIMEDOUT\<rparr>)
            else bindio (redisCheckSocketError c w) (\<lambda>(st, c, w). Inr (Some (if st \<noteq> REDIS_OK then REDIS_ERR else REDIS_OK, c, w))))
          else net_fail c None w)"

definition redisContextSetTimeout :: "redisContext \<Rightarrow> timeval \<Rightarrow> world \<Rightarrow> net_result" where
  "redisContextSetTimeout c tv w =
     bindio (sys_setsockopt ''SO_RCVTIMEO'' (tv_sec tv * 1000000 + tv_usec tv) w) (\<lambda>(rv, w).
     if rv = - 1 then Inr (Some (REDIS_ERR, redisSetErrorFromErrno c REDIS_ERR_IO (Some ''setsockopt(SO_RCVTIMEO)'') w, w))
     else
       bindio (sys_setsockopt ''SO_SNDTIMEO'' (tv_sec tv * 1000000 + tv_usec tv) w) (\<lambda>(rv, w).
       if rv = - 1 then Inr (Some (REDIS_ERR, redisSetErrorFromErrno c REDIS_ERR_IO (Some ''setsockopt(SO_SNDTIMEO)'') w, w))
       else Inr (Some (REDIS_OK, c, w))))"

section \<open>Connecting\<close>

text \<open>The parameters are kept for a reconnect.  \<open>own\<close> says that they are the pointers the context already owns.
  A failed \<open>strdup\<close> leaves NULL, a failed \<open>malloc\<close> of the timeout is written through.\<close>

definition keep_timeout :: "allocator \<Rightarrow> bool \<Rightarrow> redisContext \<Rightarrow> timeval option \<Rightarrow> redisContext res" where
  "keep_timeout al own c timeout =
     (case timeout of
        None \<Rightarrow> Inr (c\<lparr>c_timeout := None\<rparr>)
      | Some tv \<Rightarrow>
          if own then Inr c
          else if c_timeout c = None \<and> al 16 = None then Inl OutOfBounds
          else Inr (c\<lparr>c_timeout := Some tv\<rparr>))"

definition strdup :: "allocator \<Rightarrow> string \<Rightarrow> string option" where
  "strdup al s = (if al (length (cstr s) + 1) = None then None else Some (cstr s))"

definition keep_params :: "allocator \<Rightarrow> bool \<Rightarrow> redisContext \<Rightarrow> string \<Rightarrow> int \<Rightarrow> timeval option \<Rightarrow> string option \<Rightarrow> redisContext res" where
  "keep_params al own c addr port timeout source_addr =
     (let c = c\<lparr>c_connection_type := REDIS_CONN_TCP, c_tcp_port := port\<rparr>;
          c = (if own then c else c\<lparr>c_tcp_host := strdup al addr\<rparr>)
      in bindr (keep_timeout al own c timeout) (\<lambda>c.
         Inr (case source_addr of
                None \<Rightarrow> c\<lparr>c_tcp_source_addr := None\<rparr>
              | Some s \<Rightarrow> if own then c else c\<lparr>c_tcp_source_addr := strdup al s\<rparr>)))"

text \<open>The loop over the addresses to bind to.\<close>

fun bind_any :: "nat \<Rightarrow> world \<Rightarrow> ((bool \<times> world) option) res" where
  "bind_any 0 w = Inr (Some (False, w))"
| "bind_any (Suc n) w = bindio (sys_call w) (\<lambda>(rv, w). if rv \<noteq> - 1 then Inr (Some (True, w)) else bind_any n w)"

definition bind_source :: "redisContext \<Rightarrow> bool \<Rightarrow> world \<Rightarrow> net_result" where
  "bind_source c reuseaddr w =
     (if c_tcp_source_addr c = None then Inr (Some (REDIS_OK, c, w))
      else
        bindio (sys_getaddrinfo w) (\<lambda>(g, w).
        case g of
          Inl rv \<Rightarrow>
            Inr (Some (REDIS_ERR, set_error_text c REDIS_ERR_OTHER (take 127 (''Can'' @ [CHR 0x27] @ ''t get addr: '' @ w_gai_strerror w rv)), w))
        | Inr n \<Rightarrow>
            bindio (if reuseaddr then sys_setsockopt ''SO_REUSEADDR'' 1 w else Inr (Some (0, w))) (\<lambda>(rv, w).
            if rv < 0 then Inr (Some (REDIS_ERR, c, w))
            else
              bindio (bind_any n w) (\<lambda>(bound, w).
              if \<not> bound then
                Inr (Some (REDIS_ERR, set_error_text c REDIS_ERR_OTHER
                  (take 127 (''Can'' @ [CHR 0x27] @ ''t bind socket: '' @ w_strerror w (w_errno w))), w))
              else Inr (Some (REDIS_OK, c, w))))))"

text \<open>After \<open>connect\<close>: back to blocking mode if wanted, no delay, connected.\<close>

definition finish_connect :: "bool \<Rightarrow> redisContext \<Rightarrow> world \<Rightarrow> net_result" where
  "finish_connect blk c w =
     bindio (if blk then redisSetBlocking c True w else Inr (Some (REDIS_OK, c, w))) (\<lambda>(st, c, w).
     if st \<noteq> REDIS_OK then Inr (Some (REDIS_ERR, c, w))
     else
       bindio (redisSetTcpNoDelay c w) (\<lambda>(st, c, w).
       if st \<noteq> REDIS_OK then Inr (Some (REDIS_ERR, c, w))
       else Inr (Some (REDIS_OK, c\<lparr>c_flags := set_flag (c_flags c) REDIS_CONNECTED\<rparr>, w))))"

definition REDIS_CONNECT_RETRIES :: nat where "REDIS_CONNECT_RETRIES = 10"

text \<open>The loop over the addresses of the server, \<open>n\<close> of them left, with the \<open>goto addrretry\<close>.\<close>

function connect_addrs :: "bool \<Rightarrow> bool \<Rightarrow> nat \<Rightarrow> nat \<Rightarrow> redisContext \<Rightarrow> world \<Rightarrow> net_result" where
  "connect_addrs blk reuseaddr 0 reuses c w =
     Inr (Some (REDIS_ERR, set_error_text c REDIS_ERR_OTHER
       (take 127 (''Can'' @ [CHR 0x27] @ ''t create socket: '' @ w_strerror w (w_errno w))), w))"
| "connect_addrs blk reuseaddr (Suc n) reuses c w =
     bindio (sys_socket w) (\<lambda>(s, w).
     if s = - 1 then connect_addrs blk reuseaddr n reuses c w
     else
       bindio (redisSetBlocking (c\<lparr>c_fd := s\<rparr>) False w) (\<lambda>(st, c, w).
       if st \<noteq> REDIS_OK then Inr (Some (REDIS_ERR, c, w))
       else
         bindio (bind_source c reuseaddr w) (\<lambda>(st, c, w).
         if st \<noteq> REDIS_OK then Inr (Some (REDIS_ERR, c, w))
         else
           bindio (sys_call w) (\<lambda>(rv, w).
           if rv = - 1 then
             if w_errno w = EHOSTUNREACH then
               let (c, w) = redisContextCloseFd c w in connect_addrs blk reuseaddr n reuses c w
             else if w_errno w = EINPROGRESS \<and> \<not> blk then finish_connect blk c w
             else if w_errno w = EADDRNOTAVAIL \<and> reuseaddr then
               if REDIS_CONNECT_RETRIES \<le> reuses + 1 then Inr (Some (REDIS_ERR, c, w))
               else connect_addrs blk reuseaddr (Suc n) (reuses + 1) c w
             else
               bindio (redisContextWaitReady c (c_timeout c) w) (\<lambda>(st, c, w).
               if st \<noteq> REDIS_OK then Inr (Some (REDIS_ERR, c, w)) else finish_connect blk c w)
           else finish_connect blk c w))))"
  by pat_completeness auto
termination
  by (relation "measures [\<lambda>(blk, reuseaddr, n, reuses, c, w). n, \<lambda>(blk, reuseaddr, n, reuses, c, w). 10 - reuses]")
    (auto simp: REDIS_CONNECT_RETRIES_def)

declare connect_addrs.simps [simp del]

text \<open>\<open>_redisContextConnectTcp\<close>: an IPv6 lookup follows a failed IPv4 lookup.\<close>

definition contextConnectTcp ::
    "allocator \<Rightarrow> bool \<Rightarrow> redisContext \<Rightarrow> string \<Rightarrow> int \<Rightarrow> timeval option \<Rightarrow> string option \<Rightarrow> world \<Rightarrow> net_result" where
  "contextConnectTcp al own c addr port timeout source_addr w =
     (let blk = blocking c; reuseaddr = has_flag (c_flags c) REDIS_REUSEADDR in
      bindr (keep_params al own c addr port timeout source_addr) (\<lambda>c.
      bindio (sys_getaddrinfo w) (\<lambda>(g, w).
      bindio (case g of Inr n \<Rightarrow> Inr (Some (Inr n, w)) | Inl _ \<Rightarrow> sys_getaddrinfo w) (\<lambda>(g, w).
      case g of
        Inl rv \<Rightarrow> Inr (Some (REDIS_ERR, set_error_text c REDIS_ERR_OTHER (w_gai_strerror w rv), w))
      | Inr n \<Rightarrow> connect_addrs blk reuseaddr n 0 c w))))"

definition redisContextConnectTcp :: "allocator \<Rightarrow> redisContext \<Rightarrow> string \<Rightarrow> int \<Rightarrow> timeval option \<Rightarrow> world \<Rightarrow> net_result" where
  "redisContextConnectTcp al c addr port timeout w = contextConnectTcp al False c addr port timeout None w"

definition redisContextConnectBindTcp ::
    "allocator \<Rightarrow> bool \<Rightarrow> redisContext \<Rightarrow> string \<Rightarrow> int \<Rightarrow> timeval option \<Rightarrow> string option \<Rightarrow> world \<Rightarrow> net_result" where
  "redisContextConnectBindTcp al own c addr port timeout source_addr w =
     contextConnectTcp al own c addr port timeout source_addr w"

definition redisContextConnectUnix :: "allocator \<Rightarrow> bool \<Rightarrow> redisContext \<Rightarrow> string \<Rightarrow> timeval option \<Rightarrow> world \<Rightarrow> net_result" where
  "redisContextConnectUnix al own c path timeout w =
     (let blk = blocking c in
      bindio (redisCreateSocket c False w) (\<lambda>(st, c, w).
      if st = REDIS_ERR then Inr (Some (REDIS_ERR, c, w))
      else
        bindio (redisSetBlocking c False w) (\<lambda>(st, c, w).
        if st \<noteq> REDIS_OK then Inr (Some (REDIS_ERR, c, w))
        else
          let c = c\<lparr>c_connection_type := REDIS_CONN_UNIX\<rparr>;
              c = (if own then c else c\<lparr>c_unix_path := strdup al path\<rparr>)
          in bindr (keep_timeout al own c timeout) (\<lambda>c.
             bindio (sys_call w) (\<lambda>(rv, w).
             bindio (if rv = - 1 \<and> \<not> (w_errno w = EINPROGRESS \<and> \<not> blk) then redisContextWaitReady c (c_timeout c) w
                     else Inr (Some (REDIS_OK, c, w))) (\<lambda>(st, c, w).
             if st \<noteq> REDIS_OK then Inr (Some (REDIS_ERR, c, w))
             else
               bindio (if blk then redisSetBlocking c True w else Inr (Some (REDIS_OK, c, w))) (\<lambda>(st, c, w).
               if st \<noteq> REDIS_OK then Inr (Some (REDIS_ERR, c, w))
               else Inr (Some (REDIS_OK, c\<lparr>c_flags := set_flag (c_flags c) REDIS_CONNECTED\<rparr>, w)))))))))"

section \<open>The connect functions of \<open>hiredis.c\<close>\<close>

type_synonym connect_result = "((redisContext option \<times> reply_heap \<times> world) option) res"

text \<open>All of them create a context, set its flags and connect; the result of the connection attempt is only in
  the context.  \<open>checked\<close> says whether the function tests the new context for NULL.\<close>

definition connect_with :: "allocator \<Rightarrow> bool \<Rightarrow> (ctx_flags \<Rightarrow> ctx_flags) \<Rightarrow> (redisContext \<Rightarrow> world \<Rightarrow> net_result) \<Rightarrow>
    reply_heap \<Rightarrow> world \<Rightarrow> connect_result" where
  "connect_with al checked fl conn h w =
     bindr (redisContextInit al h w) (\<lambda>(c, h, w).
     case c of
       None \<Rightarrow> if checked then Inr (Some (None, h, w)) else Inl OutOfBounds
     | Some c \<Rightarrow> bindio (conn (c\<lparr>c_flags := fl (c_flags c)\<rparr>) w) (\<lambda>(_, c, w). Inr (Some (Some c, h, w))))"

definition redisConnect :: "allocator \<Rightarrow> string \<Rightarrow> int \<Rightarrow> reply_heap \<Rightarrow> world \<Rightarrow> connect_result" where
  "redisConnect al ip port h w =
     connect_with al True (\<lambda>fl. set_flag fl REDIS_BLOCK) (\<lambda>c w. redisContextConnectTcp al c ip port None w) h w"

definition redisConnectWithTimeout :: "allocator \<Rightarrow> string \<Rightarrow> int \<Rightarrow> timeval \<Rightarrow> reply_heap \<Rightarrow> world \<Rightarrow> connect_result" where
  "redisConnectWithTimeout al ip port tv h w =
     connect_with al True (\<lambda>fl. set_flag fl REDIS_BLOCK) (\<lambda>c w. redisContextConnectTcp al c ip port (Some tv) w) h w"

definition redisConnectNonBlock :: "allocator \<Rightarrow> string \<Rightarrow> int \<Rightarrow> reply_heap \<Rightarrow> world \<Rightarrow> connect_result" where
  "redisConnectNonBlock al ip port h w =
     connect_with al True (\<lambda>fl. clear_flag fl REDIS_BLOCK) (\<lambda>c w. redisContextConnectTcp al c ip port None w) h w"

definition redisConnectBindNonBlock :: "allocator \<Rightarrow> string \<Rightarrow> int \<Rightarrow> string option \<Rightarrow> reply_heap \<Rightarrow> world \<Rightarrow> connect_result" where
  "redisConnectBindNonBlock al ip port source_addr h w =
     connect_with al False (\<lambda>fl. clear_flag fl REDIS_BLOCK)
       (\<lambda>c w. redisContextConnectBindTcp al False c ip port None source_addr w) h w"

definition redisConnectBindNonBlockWithReuse :: "allocator \<Rightarrow> string \<Rightarrow> int \<Rightarrow> string option \<Rightarrow> reply_heap \<Rightarrow> world \<Rightarrow> connect_result" where
  "redisConnectBindNonBlockWithReuse al ip port source_addr h w =
     connect_with al False (\<lambda>fl. set_flag (clear_flag fl REDIS_BLOCK) REDIS_REUSEADDR)
       (\<lambda>c w. redisContextConnectBindTcp al False c ip port None source_addr w) h w"

definition redisConnectUnix :: "allocator \<Rightarrow> string \<Rightarrow> reply_heap \<Rightarrow> world \<Rightarrow> connect_result" where
  "redisConnectUnix al path h w =
     connect_with al True (\<lambda>fl. set_flag fl REDIS_BLOCK) (\<lambda>c w. redisContextConnectUnix al False c path None w) h w"

definition redisConnectUnixWithTimeout :: "allocator \<Rightarrow> string \<Rightarrow> timeval \<Rightarrow> reply_heap \<Rightarrow> world \<Rightarrow> connect_result" where
  "redisConnectUnixWithTimeout al path tv h w =
     connect_with al True (\<lambda>fl. set_flag fl REDIS_BLOCK) (\<lambda>c w. redisContextConnectUnix al False c path (Some tv) w) h w"

definition redisConnectUnixNonBlock :: "allocator \<Rightarrow> string \<Rightarrow> reply_heap \<Rightarrow> world \<Rightarrow> connect_result" where
  "redisConnectUnixNonBlock al path h w =
     connect_with al True (\<lambda>fl. clear_flag fl REDIS_BLOCK) (\<lambda>c w. redisContextConnectUnix al False c path None w) h w"

text \<open>\<open>redisReconnect\<close>: the old reader with its unfinished reply is freed, buffers and reader are fresh (NULL when
  out of memory, without a test).  The enum has no third value, so the last branch of the code has no counterpart.
  A context without a kept host or path passes NULL on.\<close>

definition redisReconnect :: "allocator \<Rightarrow> redisContext \<Rightarrow> reply_heap \<Rightarrow> world \<Rightarrow>
    ((status \<times> redisContext \<times> reply_heap \<times> world) option) res" where
  "redisReconnect al c h w =
     (let w = (if 0 < c_fd c then w\<lparr>w_closed := w_closed w @ [c_fd c]\<rparr> else w) in
      case c_reader c of
        None \<Rightarrow> Inl OutOfBounds
      | Some r \<Rightarrow>
          bindr (redisReaderFree r h) (\<lambda>h.
          bindr (or_null (sdsempty al)) (\<lambda>obuf.
          let c = c\<lparr>c_err := 0, c_errstr := [], c_obuf := obuf, c_reader := redisReaderCreate al\<rparr> in
          bindio (case c_connection_type c of
                    REDIS_CONN_TCP \<Rightarrow>
                      redisContextConnectBindTcp al True c (case c_tcp_host c of None \<Rightarrow> [] | Some s \<Rightarrow> s) (c_tcp_port c) (c_timeout c) (c_tcp_source_addr c) w
                  | REDIS_CONN_UNIX \<Rightarrow> redisContextConnectUnix al True c (case c_unix_path c of None \<Rightarrow> [] | Some s \<Rightarrow> s) (c_timeout c) w)
            (\<lambda>(st, c, w). Inr (Some (st, c, h, w))))))"

definition redisSetTimeout :: "redisContext \<Rightarrow> timeval \<Rightarrow> world \<Rightarrow> net_result" where
  "redisSetTimeout c tv w = (if blocking c then redisContextSetTimeout c tv w else Inr (Some (REDIS_ERR, c, w)))"

definition REDIS_KEEPALIVE_INTERVAL :: int where "REDIS_KEEPALIVE_INTERVAL = 15"

definition redisEnableKeepAlive :: "redisContext \<Rightarrow> world \<Rightarrow> net_result" where
  "redisEnableKeepAlive c w =
     bindio (redisKeepAlive c REDIS_KEEPALIVE_INTERVAL w) (\<lambda>(st, c, w).
     Inr (Some (if st \<noteq> REDIS_OK then REDIS_ERR else REDIS_OK, c, w)))"

section \<open>Descriptors and errors\<close>

text \<open>The documented behaviour of the system calls used: a result that is not -1 is not negative.\<close>

definition calls_ok :: "world \<Rightarrow> bool" where
  "calls_ok w \<longleftrightarrow> (\<forall>v. SysOk v \<in> set (w_calls w) \<longrightarrow> 0 \<le> v)"

text \<open>
  \<open>accounted w0 w held\<close>: every socket opened since \<open>w0\<close> has been closed, except those in \<open>held\<close>.
\<close>

definition accounted :: "world \<Rightarrow> world \<Rightarrow> int list \<Rightarrow> bool" where
  "accounted w0 w held \<longleftrightarrow> (\<exists>os. w_opened w = w_opened w0 @ os @ held \<and> w_closed w = w_closed w0 @ os)"

definition failed_ok :: "world \<Rightarrow> redisContext \<Rightarrow> world \<Rightarrow> bool" where
  "failed_ok w0 c w \<longleftrightarrow> c_err c \<noteq> 0 \<and> (accounted w0 w [] \<or> accounted w0 w [c_fd c] \<and> 0 \<le> c_fd c)"

text \<open>What a helper promises on a context that holds an open socket: it does not crash; on success it changes the
  context in no way and leaves the socket in mode \<open>nb\<close>; on failure the error is set and no socket is lost.\<close>

definition helper_ok :: "world \<Rightarrow> redisContext \<Rightarrow> bool \<Rightarrow> net_result \<Rightarrow> bool" where
  "helper_ok w0 c nb m \<longleftrightarrow>
     (case m of
        Inl _ \<Rightarrow> False
      | Inr None \<Rightarrow> True
      | Inr (Some (st, c', w)) \<Rightarrow> calls_ok w \<and>
          (if st = REDIS_OK then c' = c \<and> accounted w0 w [c_fd c] \<and> w_nonblock w = nb else failed_ok w0 c' w))"

definition holding :: "world \<Rightarrow> redisContext \<Rightarrow> world \<Rightarrow> bool" where
  "holding w0 c w \<longleftrightarrow> calls_ok w \<and> accounted w0 w [c_fd c] \<and> 0 \<le> c_fd c"

text \<open>A promise on the result of an operation of the option and error monad.\<close>

definition io_post :: "(('a) option) res \<Rightarrow> ('a \<Rightarrow> bool) \<Rightarrow> bool" where
  "io_post m P \<longleftrightarrow> (case m of Inl _ \<Rightarrow> False | Inr None \<Rightarrow> True | Inr (Some x) \<Rightarrow> P x)"

lemma io_post_simps [simp]: "io_post (Inl e) P = False" "io_post (Inr None) P" "io_post (Inr (Some x)) P = P x"
  by (simp_all add: io_post_def)

lemma io_post_bind: "io_post m P \<Longrightarrow> (\<And>x. P x \<Longrightarrow> io_post (f x) Q) \<Longrightarrow> io_post (bindio m f) Q"
  by (cases m rule: sum.exhaust; force simp: io_post_def bindio_def split: option.splits)

lemma io_post_mono: "io_post m P \<Longrightarrow> (\<And>x. P x \<Longrightarrow> Q x) \<Longrightarrow> io_post m Q"
  by (auto simp: io_post_def split: sum.splits option.splits)

lemma helper_ok_post:
  "helper_ok w0 c nb m \<longleftrightarrow> io_post m (\<lambda>(st, c', w). calls_ok w \<and>
     (if st = REDIS_OK then c' = c \<and> accounted w0 w [c_fd c] \<and> w_nonblock w = nb else failed_ok w0 c' w))"
  by (simp add: helper_ok_def io_post_def)

lemma accounted_cong:
  "w_opened w' = w_opened w \<Longrightarrow> w_closed w' = w_closed w \<Longrightarrow> accounted w0 w' held = accounted w0 w held"
  by (simp add: accounted_def)

lemma sys_call_post:
  "calls_ok w \<Longrightarrow> io_post (sys_call w) (\<lambda>(rv, w'). calls_ok w' \<and> (rv = - 1 \<or> 0 \<le> rv) \<and> w_nonblock w' = w_nonblock w \<and>
     w_opened w' = w_opened w \<and> w_closed w' = w_closed w)"
  by (auto simp: sys_call_def calls_ok_def split: list.splits sys_result.splits)

lemma sys_setsockopt_post:
  assumes "calls_ok w"
  shows "io_post (sys_setsockopt opt val w) (\<lambda>(rv, w'). calls_ok w' \<and> (rv = - 1 \<or> 0 \<le> rv) \<and> w_nonblock w' = w_nonblock w \<and>
     w_opened w' = w_opened w \<and> w_closed w' = w_closed w)"
  unfolding sys_setsockopt_def
  by (rule io_post_bind [OF sys_call_post [OF assms]]) (auto simp: calls_ok_def)

lemma net_fail_ok:
  assumes "holding w0 c w"
  shows "helper_ok w0 c nb (net_fail c prefix w)"
proof -
  from assms obtain os where "calls_ok w" "0 \<le> c_fd c" "w_opened w = w_opened w0 @ os @ [c_fd c]" "w_closed w = w_closed w0 @ os"
    by (auto simp: holding_def accounted_def)
  then show ?thesis
    by (simp add: helper_ok_def net_fail_def redisContextCloseFd_def redisSetErrorFromErrno_def set_error_text_def failed_ok_def
        accounted_def calls_ok_def redis_errors)
qed

lemma holding_step:
  "holding w0 c w \<Longrightarrow> calls_ok w' \<Longrightarrow> w_opened w' = w_opened w \<Longrightarrow> w_closed w' = w_closed w \<Longrightarrow> holding w0 c w'"
  by (simp add: holding_def accounted_def)

lemma redisSetBlocking_ok:
  assumes h: "holding w0 c w"
  shows "helper_ok w0 c (\<not> blk) (redisSetBlocking c blk w)"
  unfolding helper_ok_post redisSetBlocking_def
proof (rule io_post_bind [OF sys_call_post], goal_cases)
  case 1
  then show ?case using h by (simp add: holding_def)
next
  case (2 x)
  then obtain rv w1 where x: "x = (rv, w1)" "holding w0 c w1" "calls_ok w1" using holding_step [OF h] by auto
  show ?case
  proof (cases "rv = - 1")
    case True
    then show ?thesis using net_fail_ok [OF x(2)] by (simp add: x(1) helper_ok_post)
  next
    case False
    have "io_post (bindio (sys_call w1) (\<lambda>(rv, w). if rv = - 1 then net_fail c (Some ''fcntl(F_SETFL)'') w
        else Inr (Some (REDIS_OK, c, w\<lparr>w_nonblock := \<not> blk\<rparr>))))
      (\<lambda>(st, c', w). calls_ok w \<and>
        (if st = REDIS_OK then c' = c \<and> accounted w0 w [c_fd c] \<and> w_nonblock w = (\<not> blk) else failed_ok w0 c' w))"
    proof (rule io_post_bind [OF sys_call_post [OF x(3)]], goal_cases)
      case (1 y)
      then obtain rv2 w2 where y: "y = (rv2, w2)" "holding w0 c w2" using holding_step [OF x(2)] by auto
      then show ?case using net_fail_ok [OF y(2)] by (auto simp: helper_ok_post holding_def accounted_def calls_ok_def)
    qed
    then show ?thesis using False by (simp add: x(1))
  qed
qed

lemma redisSetTcpNoDelay_ok:
  assumes h: "holding w0 c w"
  shows "helper_ok w0 c (w_nonblock w) (redisSetTcpNoDelay c w)"
  unfolding helper_ok_post redisSetTcpNoDelay_def
proof (rule io_post_bind [OF sys_setsockopt_post], goal_cases)
  case 1
  then show ?case using h by (simp add: holding_def)
next
  case (2 x)
  then obtain rv w1 where x: "x = (rv, w1)" "holding w0 c w1" "w_nonblock w1 = w_nonblock w" using holding_step [OF h] by auto
  then show ?case using net_fail_ok [OF x(2)] by (auto simp: helper_ok_post holding_def)
qed

lemma redisCheckSocketError_ok:
  assumes "holding w0 c w"
  shows "helper_ok w0 c (w_nonblock w) (redisCheckSocketError c w)"
proof (cases "w_sockerrs w")
  case (Cons x xs)
  then show ?thesis using assms
    by (cases x) (auto simp: helper_ok_def redisCheckSocketError_def Let_def holding_def accounted_def calls_ok_def failed_ok_def
        redisSetErrorFromErrno_def set_error_text_def redis_errors split: option.split)
qed (simp add: redisCheckSocketError_def helper_ok_def)

lemma redisContextWaitReady_ok:
  assumes h: "holding w0 c w"
  shows "helper_ok w0 c (w_nonblock w) (redisContextWaitReady c timeout w)"
proof (cases "\<exists>msec. timeout_msec timeout = Some msec \<and> w_errno w = EINPROGRESS")
  case False
  then show ?thesis using net_fail_ok [OF h] by (auto simp: redisContextWaitReady_def split: option.split)
next
  case True
  then obtain msec where m: "timeout_msec timeout = Some msec" "w_errno w = EINPROGRESS" by blast
  let ?w = "w\<lparr>w_opts := w_opts w @ [(''poll'', msec)]\<rparr>"
  have h1: "holding w0 c ?w" using h by (rule holding_step) (use h in \<open>simp_all add: holding_def calls_ok_def\<close>)
  then have ok: "calls_ok ?w" by (simp add: holding_def)
  show ?thesis unfolding helper_ok_post redisContextWaitReady_def m
  proof (simp only: option.case refl if_True, rule io_post_bind [OF sys_call_post [OF ok]], goal_cases)
    case (1 x)
    then obtain rv w1 where x: "x = (rv, w1)" "holding w0 c w1" "w_nonblock w1 = w_nonblock w" using holding_step [OF h1] by auto
    have h2: "holding w0 c (w1\<lparr>w_errno := ETIMEDOUT\<rparr>)" using x(2) by (simp add: holding_def accounted_def calls_ok_def)
    from redisCheckSocketError_ok [OF x(2)] have c: "helper_ok w0 c (w_nonblock w) (bindio (redisCheckSocketError c w1)
        (\<lambda>(st, c, w). Inr (Some (if st \<noteq> REDIS_OK then REDIS_ERR else REDIS_OK, c, w))))"
      unfolding helper_ok_post x(3) by (rule io_post_bind) auto
    show ?case using net_fail_ok [OF x(2)] net_fail_ok [OF h2] c by (simp add: x(1) helper_ok_post)
  qed
qed

text \<open>Sequencing of helpers: after a success the socket is still held, a failure is passed on.\<close>

lemma helper_bind:
  assumes "helper_ok w0 c nb m" "0 \<le> c_fd c"
    and "\<And>w. holding w0 c w \<Longrightarrow> w_nonblock w = nb \<Longrightarrow> io_post (f (REDIS_OK, c, w)) Q"
    and "\<And>c' w. calls_ok w \<Longrightarrow> failed_ok w0 c' w \<Longrightarrow> io_post (f (REDIS_ERR, c', w)) Q"
  shows "io_post (bindio m f) Q"
  using assms(1) unfolding helper_ok_post
proof (rule io_post_bind)
  fix x assume x: "case x of (st, c', w) \<Rightarrow> calls_ok w \<and>
     (if st = REDIS_OK then c' = c \<and> accounted w0 w [c_fd c] \<and> w_nonblock w = nb else failed_ok w0 c' w)"
  obtain st c' w where [simp]: "x = (st, c', w)" by (cases x)
  show "io_post (f x) Q" using x assms(2-4) by (cases st) (auto simp: holding_def)
qed

lemma bind_any_post:
  "calls_ok w \<Longrightarrow> io_post (bind_any n w) (\<lambda>(b, w'). calls_ok w' \<and> w_nonblock w' = w_nonblock w \<and>
     w_opened w' = w_opened w \<and> w_closed w' = w_closed w)"
proof (induction n arbitrary: w)
  case (Suc n)
  show ?case unfolding bind_any.simps
    by (rule io_post_bind [OF sys_call_post [OF Suc.prems]]) (auto dest: Suc.IH)
qed simp

lemma sys_getaddrinfo_post:
  "calls_ok w \<Longrightarrow> io_post (sys_getaddrinfo w) (\<lambda>(g, w'). calls_ok w' \<and> w_nonblock w' = w_nonblock w \<and>
     w_opened w' = w_opened w \<and> w_closed w' = w_closed w)"
  by (auto simp: sys_getaddrinfo_def calls_ok_def split: list.splits gai_result.splits)

text \<open>Without the reuse option every failure sets the error.\<close>

lemma bind_source_ok:
  assumes h: "holding w0 c w"
  shows "helper_ok w0 c (w_nonblock w) (bind_source c False w)"
proof (cases "c_tcp_source_addr c = None")
  case True
  then show ?thesis using h by (simp add: bind_source_def helper_ok_def holding_def)
next
  case False
  have ok: "calls_ok w" using h by (simp add: holding_def)
  show ?thesis unfolding helper_ok_post bind_source_def
  proof (simp only: False if_False, rule io_post_bind [OF sys_getaddrinfo_post [OF ok]], goal_cases)
    case (1 x)
    then obtain g w1 where x: "x = (g, w1)" "holding w0 c w1" "w_nonblock w1 = w_nonblock w" "calls_ok w1"
      using holding_step [OF h] by auto
    show ?case
    proof (cases g)
      case (Inl rv)
      then show ?thesis using x by (auto simp: holding_def accounted_def failed_ok_def set_error_text_def redis_errors)
    next
      case (Inr n)
      have "io_post (bindio (bind_any n w1) (\<lambda>(bound, w). if \<not> bound then
          Inr (Some (REDIS_ERR, set_error_text c REDIS_ERR_OTHER
            (take 127 (''Can'' @ [CHR 0x27] @ ''t bind socket: '' @ w_strerror w (w_errno w))), w))
          else Inr (Some (REDIS_OK, c, w))))
        (\<lambda>(st, c', w'). calls_ok w' \<and>
          (if st = REDIS_OK then c' = c \<and> accounted w0 w' [c_fd c] \<and> w_nonblock w' = w_nonblock w else failed_ok w0 c' w'))"
      proof (rule io_post_bind [OF bind_any_post [OF x(4)]], goal_cases)
        case (1 y)
        then obtain b w2 where y: "y = (b, w2)" "holding w0 c w2" "w_nonblock w2 = w_nonblock w"
          using holding_step [OF x(2)] x(3) by auto
        then show ?case by (auto simp: holding_def accounted_def failed_ok_def set_error_text_def redis_errors)
      qed
      then show ?thesis by (simp add: x(1) Inr)
    qed
  qed
qed

text \<open>The promise of a connection attempt.\<close>

definition connected_ok :: "world \<Rightarrow> redisContext \<Rightarrow> bool \<Rightarrow> status \<times> redisContext \<times> world \<Rightarrow> bool" where
  "connected_ok w0 c blk = (\<lambda>(st, c', w).
     if st = REDIS_OK then c_err c' = c_err c \<and> has_flag (c_flags c') REDIS_CONNECTED \<and> 0 \<le> c_fd c' \<and>
       accounted w0 w [c_fd c'] \<and> w_nonblock w = (\<not> blk)
     else failed_ok w0 c' w)"

lemma finish_connect_ok:
  assumes h: "holding w0 c w" and nb: "w_nonblock w" and e: "c_err c = c_err c0"
  shows "io_post (finish_connect blk c w) (connected_ok w0 c0 blk)"
  unfolding finish_connect_def
proof (rule helper_bind [of w0 c "\<not> blk"], goal_cases)
  case 1
  then show ?case using redisSetBlocking_ok [OF h, of True] h nb by (cases blk) (auto simp: helper_ok_def holding_def)
next
  case 2
  then show ?case using h by (simp add: holding_def)
next
  case (3 w1)
  have "io_post (bindio (redisSetTcpNoDelay c w1) (\<lambda>(st, c, w). if st \<noteq> REDIS_OK then Inr (Some (REDIS_ERR, c, w))
      else Inr (Some (REDIS_OK, c\<lparr>c_flags := set_flag (c_flags c) REDIS_CONNECTED\<rparr>, w)))) (connected_ok w0 c0 blk)"
    by (rule helper_bind [OF redisSetTcpNoDelay_ok [OF 3(1)]])
      (use 3(2) h e in \<open>auto simp: connected_ok_def holding_def flag_simps\<close>)
  then show ?case by simp
next
  case (4 c' w1)
  then show ?case by (simp add: connected_ok_def)
qed

lemma sys_socket_post:
  assumes "calls_ok w" "accounted w0 w []"
  shows "io_post (sys_socket w) (\<lambda>(s, w'). calls_ok w' \<and> (if s = - 1 then accounted w0 w' [] else 0 \<le> s \<and> accounted w0 w' [s]))"
  unfolding sys_socket_def
  by (rule io_post_bind [OF sys_call_post [OF assms(1)]]) (use assms(2) in \<open>auto simp: accounted_def calls_ok_def\<close>)

text \<open>What follows \<open>connect\<close> when there is no retry.\<close>

lemma after_connect_ok:
  assumes h: "holding w0 c w" and nb: "w_nonblock w" and e: "c_err c = c_err c0"
    and next_addr: "\<And>c w. calls_ok w \<Longrightarrow> accounted w0 w [] \<Longrightarrow> c_err c = c_err c0 \<Longrightarrow> io_post (again c w) (connected_ok w0 c0 blk)"
  shows "io_post
    (if rv = - 1 then
       if w_errno w = EHOSTUNREACH then (let (c, w) = redisContextCloseFd c w in again c w)
       else if w_errno w = EINPROGRESS \<and> \<not> blk then finish_connect blk c w
       else bindio (redisContextWaitReady c (c_timeout c) w) (\<lambda>(st, c, w).
         if st \<noteq> REDIS_OK then Inr (Some (REDIS_ERR, c, w)) else finish_connect blk c w)
     else finish_connect blk c w) (connected_ok w0 c0 blk)"
proof -
  have f: "io_post (finish_connect blk c w) (connected_ok w0 c0 blk)" using h nb e by (rule finish_connect_ok)
  have "0 \<le> c_fd c" using h by (simp add: holding_def)
  with redisContextWaitReady_ok [OF h]
  have r: "io_post (bindio (redisContextWaitReady c (c_timeout c) w) (\<lambda>(st, c, w).
      if st \<noteq> REDIS_OK then Inr (Some (REDIS_ERR, c, w)) else finish_connect blk c w)) (connected_ok w0 c0 blk)"
    by (rule helper_bind) (use finish_connect_ok [OF _ _ e] nb in \<open>auto simp: connected_ok_def\<close>)
  have "io_post (let (c, w) = redisContextCloseFd c w in again c w) (connected_ok w0 c0 blk)"
    using h next_addr [of "w\<lparr>w_closed := w_closed w @ [c_fd c]\<rparr>" "c\<lparr>c_fd := - 1\<rparr>"] e
    by (auto simp: redisContextCloseFd_def holding_def accounted_def calls_ok_def)
  with f r show ?thesis by (cases blk) simp_all
qed

lemma connect_addrs_ok:
  assumes "calls_ok w" "accounted w0 w []" "c_err c = c_err c0"
  shows "io_post (connect_addrs blk False n reuses c w) (connected_ok w0 c0 blk)"
  using assms
proof (induction n arbitrary: c w)
  case 0
  then show ?case by (simp add: connect_addrs.simps connected_ok_def failed_ok_def set_error_text_def redis_errors accounted_def)
next
  case (Suc n)
  show ?case unfolding connect_addrs.simps(2) [of blk False n reuses c w]
  proof (rule io_post_bind [OF sys_socket_post [OF Suc.prems(1,2)]], goal_cases)
    case (1 x)
    obtain s w1 where x: "x = (s, w1)" by force
    show ?case
    proof (cases "s = - 1")
      case True
      with 1 Suc.prems Suc.IH [of w1 c] show ?thesis by (simp add: x)
    next
      case False
      let ?c = "c\<lparr>c_fd := s\<rparr>"
      have h: "holding w0 ?c w1" "0 \<le> c_fd ?c" using 1 False by (simp_all add: x holding_def)
      have e: "c_err ?c = c_err c0" using Suc.prems(3) by simp
      show ?thesis unfolding x prod.case if_not_P [OF False]
      proof (rule helper_bind [OF redisSetBlocking_ok [OF h(1)] h(2)], goal_cases)
        case (1 w2)
        then show ?case
        proof (simp, intro helper_bind [OF bind_source_ok [OF 1(1)] h(2)], goal_cases)
          case (1 w3)
          have h3: "holding w0 ?c w3" "w_nonblock w3" "calls_ok w3" using 1 by (simp_all add: holding_def)
          show ?case
          proof (simp only: prod.case simp_thms if_False, rule io_post_bind [OF sys_call_post [OF h3(3)]], goal_cases)
            case (1 y)
            then obtain rv w4 where y: "y = (rv, w4)" "holding w0 ?c w4" "w_nonblock w4"
              using holding_step [OF h3(1)] h3(2) by auto
            show ?case unfolding y(1) prod.case by (rule after_connect_ok [OF y(2,3) e Suc.IH])
          qed
        qed (simp add: connected_ok_def)
      qed (simp add: connected_ok_def)
    qed
  qed
qed

lemma keep_params_total:
  assumes "\<not> may_fail al"
  obtains c' where "keep_params al own c addr port timeout src = Inr c'" "c_err c' = c_err c" "c_flags c' = c_flags c"
proof -
  have a: "al n \<noteq> None" for n using assms by auto
  have "\<exists>c'. keep_params al own c addr port timeout src = Inr c' \<and> c_err c' = c_err c \<and> c_flags c' = c_flags c"
    by (auto simp: keep_params_def keep_timeout_def strdup_def Let_def a simp del: not_None_eq split: option.splits)
  with that show ?thesis by blast
qed

text \<open>One attempt with the reuse option that ends in \<open>EADDRNOTAVAIL\<close>.\<close>

definition attempt :: "int \<Rightarrow> sys_result list" where
  "attempt fd = [SysOk fd, SysOk 0, SysOk 0, SysOk 0, SysOk 0, SysFail EADDRNOTAVAIL]"

lemma attempt_step:
  assumes "w_calls w = attempt fd @ cs" "w_gai w = GaiList 1 # gs" "c_tcp_source_addr c \<noteq> None" "0 \<le> fd"
  obtains c' w' where "connect_addrs blk True (Suc n) reuses c w =
      (if 10 \<le> reuses + 1 then Inr (Some (REDIS_ERR, c', w')) else connect_addrs blk True (Suc n) (reuses + 1) c' w')"
    "c_err c' = c_err c" "c_tcp_source_addr c' = c_tcp_source_addr c" "w_calls w' = cs" "w_gai w' = gs"
    "w_opened w' = w_opened w @ [fd]" "w_closed w' = w_closed w"
proof -
  let ?c = "c\<lparr>c_fd := fd\<rparr>"
  let ?w = "w\<lparr>w_opened := w_opened w @ [fd], w_nonblock := True, w_gai := gs, w_opts := w_opts w @ [(''SO_REUSEADDR'', 1)],
      w_calls := cs, w_errno := EADDRNOTAVAIL\<rparr>"
  from assms(3) obtain a where a: "c_tcp_source_addr c = Some a" by blast
  have "connect_addrs blk True (Suc n) reuses c w =
      (if 10 \<le> reuses + 1 then Inr (Some (REDIS_ERR, ?c, ?w)) else connect_addrs blk True (Suc n) (reuses + 1) ?c ?w)"
    using assms(1,2,4) a unfolding connect_addrs.simps(2) [of blk True n reuses c w]
    by (simp add: sys_socket_def sys_call_def attempt_def redisSetBlocking_def bind_source_def sys_getaddrinfo_def
        sys_setsockopt_def REDIS_CONNECT_RETRIES_def)
  then show ?thesis using that [of ?c ?w] by simp
qed

lemma attempts_lose:
  "fds \<noteq> [] \<Longrightarrow> reuses + length fds = 10 \<Longrightarrow> w_calls w = concat (map attempt fds) @ cs \<Longrightarrow>
    w_gai w = replicate (length fds) (GaiList 1) @ gs \<Longrightarrow> c_tcp_source_addr c \<noteq> None \<Longrightarrow> \<forall>fd \<in> set fds. 0 \<le> fd \<Longrightarrow>
    \<exists>c' w'. connect_addrs blk True (Suc n) reuses c w = Inr (Some (REDIS_ERR, c', w')) \<and> c_err c' = c_err c \<and>
      w_opened w' = w_opened w @ fds \<and> w_closed w' = w_closed w"
proof (induction fds arbitrary: reuses c w)
  case (Cons fd fds)
  have p: "w_calls w = attempt fd @ concat (map attempt fds) @ cs" "w_gai w = GaiList 1 # replicate (length fds) (GaiList 1) @ gs" "0 \<le> fd"
    using Cons.prems by simp_all
  obtain c' w' where s: "connect_addrs blk True (Suc n) reuses c w =
      (if 10 \<le> reuses + 1 then Inr (Some (REDIS_ERR, c', w')) else connect_addrs blk True (Suc n) (reuses + 1) c' w')"
    "c_err c' = c_err c" "c_tcp_source_addr c' = c_tcp_source_addr c" "w_calls w' = concat (map attempt fds) @ cs"
    "w_gai w' = replicate (length fds) (GaiList 1) @ gs" "w_opened w' = w_opened w @ [fd]" "w_closed w' = w_closed w"
    using p(1,2) Cons.prems(5) p(3) by (rule attempt_step)
  show ?case
  proof (cases "fds = []")
    case True
    with Cons.prems(2) s show ?thesis by simp
  next
    case False
    with Cons.prems(2) have "\<not> 10 \<le> reuses + 1" by (cases fds) auto
    with s(1) have "connect_addrs blk True (Suc n) reuses c w = connect_addrs blk True (Suc n) (reuses + 1) c' w'" by simp
    with Cons.IH [OF False _ s(4,5), of "reuses + 1" c'] Cons.prems(2,5,6) s show ?thesis by auto
  qed
qed simp

section \<open>Properties\<close>

text \<open>C9: a TCP connection attempt without the address reuse option, when no allocation fails, ends in one of
  two ways, whatever valid results the system calls give: it succeeds, and then the context is connected and without error, holds an open socket in the mode the
  context asks for, and every other socket it opened is closed; or it fails, and then the context carries an error
  and no socket is lost.\<close>

theorem contextConnectTcp_outcome:
  assumes "\<not> may_fail al" "calls_ok w" "c_err c = 0" "\<not> has_flag (c_flags c) REDIS_REUSEADDR"
  shows "io_post (contextConnectTcp al own c addr port timeout src w) (connected_ok w c (blocking c))"
proof -
  obtain c1 where c1: "keep_params al own c addr port timeout src = Inr c1" "c_err c1 = c_err c" "c_flags c1 = c_flags c"
    using assms(1) by (rule keep_params_total)
  have a: "accounted w w1 []" if "w_opened w1 = w_opened w" "w_closed w1 = w_closed w" for w1
    using that by (simp add: accounted_def)
  have g: "io_post (case g of Inl rv \<Rightarrow> Inr (Some (REDIS_ERR, set_error_text c1 REDIS_ERR_OTHER (w_gai_strerror w1 rv), w1))
      | Inr n \<Rightarrow> connect_addrs (blocking c) False n 0 c1 w1) (connected_ok w c (blocking c))"
    if "calls_ok w1" "w_opened w1 = w_opened w" "w_closed w1 = w_closed w" for g :: "int + nat" and w1
    using connect_addrs_ok [OF that(1) a [OF that(2,3)] c1(2)] a [OF that(2,3)]
    by (cases g) (simp_all add: connected_ok_def failed_ok_def set_error_text_def redis_errors)
  have f: "has_flag (c_flags c) REDIS_REUSEADDR = False" using assms(4) by simp
  show ?thesis unfolding contextConnectTcp_def Let_def c1(1) bindr_simps f
  proof (rule io_post_bind [OF sys_getaddrinfo_post [OF assms(2)]], goal_cases)
    case (1 x)
    then obtain g1 w1 where x: "x = (g1, w1)" "calls_ok w1" "w_opened w1 = w_opened w" "w_closed w1 = w_closed w" by auto
    have "io_post (case g1 of Inr n \<Rightarrow> Inr (Some (Inr n, w1)) | Inl _ \<Rightarrow> sys_getaddrinfo w1)
       (\<lambda>(g, w2). calls_ok w2 \<and> w_opened w2 = w_opened w \<and> w_closed w2 = w_closed w)"
      using x sys_getaddrinfo_post [OF x(2)] by (cases g1) (auto elim!: io_post_mono)
    then have "io_post (bindio (case g1 of Inr n \<Rightarrow> Inr (Some (Inr n, w1)) | Inl _ \<Rightarrow> sys_getaddrinfo w1) (\<lambda>(g, w).
        case g of Inl rv \<Rightarrow> Inr (Some (REDIS_ERR, set_error_text c1 REDIS_ERR_OTHER (w_gai_strerror w rv), w))
        | Inr n \<Rightarrow> connect_addrs (blocking c) False n 0 c1 w)) (connected_ok w c (blocking c))"
      by (rule io_post_bind) (use g in auto)
    then show ?case by (simp add: x(1))
  qed
qed

theorem contextConnectTcp_outcome_witness:
  "\<exists>c c' w'. redisConnectFd (fill_alloc NUL) 0 [] (new_world [] [] [] []) = Inr (Some c, [], new_world [] [] [] []) \<and>
    contextConnectTcp (fill_alloc NUL) False c ''localhost'' 6379 None None
      (new_world [] [] [SysOk 5, SysOk 0, SysOk 0, SysFail EHOSTUNREACH, SysOk 6, SysOk 2, SysOk 0, SysOk 0, SysOk 2, SysOk 0, SysOk 0] [GaiList 2]) =
      Inr (Some (REDIS_OK, c', w')) \<and> c_err c' = 0 \<and> c_fd c' = 6 \<and> w_closed w' = [5]"
proof -
  let ?al = "fill_alloc NUL"
  let ?w = "new_world [] [] [SysOk 5, SysOk 0, SysOk 0, SysFail EHOSTUNREACH, SysOk 6, SysOk 2, SysOk 0, SysOk 0, SysOk 2, SysOk 0, SysOk 0] [GaiList 2]"
  obtain c where c: "redisConnectFd ?al 0 [] (new_world [] [] [] []) = Inr (Some c, [], new_world [] [] [] [])" "c_err c = 0" "blocking c"
    "\<not> has_flag (c_flags c) REDIS_REUSEADDR"
  proof -
    obtain c where c: "redisConnectFd ?al 0 [] (new_world [] [] [] []) = Inr (Some c, [], new_world [] [] [] [])" "ctx_ok ?al c [] [] []" "blocking c"
      by (rule redisConnectFd_ok [OF fill_alloc_ok fill_alloc_never_fails])
    moreover have "\<not> has_flag (c_flags c) REDIS_REUSEADDR"
      using c(1) by (auto simp: redisConnectFd_def redisContextInit_def Let_def res_iff flag_simps split: option.splits if_splits)
    ultimately show ?thesis using that by (simp add: ctx_ok_def)
  qed
  have k: "keep_params ?al False c ''localhost'' 6379 None None = Inr (c\<lparr>c_connection_type := REDIS_CONN_TCP, c_tcp_port := 6379,
      c_tcp_host := Some (cstr ''localhost''), c_timeout := None, c_tcp_source_addr := None\<rparr>)"
    by (simp add: keep_params_def keep_timeout_def strdup_def fill_alloc_def)
  have "\<exists>c' w'. contextConnectTcp ?al False c ''localhost'' 6379 None None ?w = Inr (Some (REDIS_OK, c', w')) \<and> c_fd c' = 6 \<and> w_closed w' = [5]"
    unfolding contextConnectTcp_def Let_def k using c(3,4)
    by (simp add: new_world_def sys_getaddrinfo_def connect_addrs.simps numeral_2_eq_2 sys_socket_def sys_call_def redisSetBlocking_def
        bind_source_def redisContextCloseFd_def finish_connect_def redisSetTcpNoDelay_def sys_setsockopt_def)
  then obtain c' w' where r: "contextConnectTcp ?al False c ''localhost'' 6379 None None ?w = Inr (Some (REDIS_OK, c', w'))" "c_fd c' = 6" "w_closed w' = [5]"
    by blast
  have "calls_ok ?w" by (simp add: calls_ok_def new_world_def)
  from contextConnectTcp_outcome [OF fill_alloc_never_fails [of NUL] this c(2,4), of False "''localhost''" 6379 None None] r c show ?thesis
    by (auto simp: connected_ok_def)
qed

text \<open>With the address reuse option, ten attempts that all end in \<open>EADDRNOTAVAIL\<close> make the call return a context
  whose error field says that nothing went wrong, and of the ten sockets opened none has been closed: nine of them
  are lost.\<close>

theorem connect_reuse_loses_sockets:
  assumes "alloc_ok al" "\<not> may_fail al" "length fds = 10" "\<forall>fd \<in> set fds. 0 \<le> fd"
  shows "\<exists>c w'. redisConnectBindNonBlockWithReuse al ip port (Some src) h
      (new_world [] [] (concat (map attempt fds)) (GaiList 1 # replicate 10 (GaiList 1))) = Inr (Some (Some c, h, w')) \<and>
    c_err c = 0 \<and> w_opened w' = fds \<and> w_closed w' = []"
proof -
  let ?w = "new_world [] [] (concat (map attempt fds)) (GaiList 1 # replicate 10 (GaiList 1))"
  obtain b where b: "or_null (sdsempty al) = Inr (Some b)" using assms(1,2) by (rule sdsempty_null)
  obtain r where r: "redisReaderCreateWithFunctions al (defaultFunctions al) = Some r" using assms(1,2) by (rule create_idle)
  have al: "al n \<noteq> None" for n using assms(2) by auto
  then obtain s where s: "strdup al src = Some s" by (auto simp: strdup_def)
  from b r al obtain c0 where c0: "redisContextInit al h ?w = Inr (Some c0, h, ?w)" "c_err c0 = 0" "c_flags c0 = 0"
    by (simp add: redisContextInit_def redisReaderCreate_def)
  let ?c = "c0\<lparr>c_flags := set_flag (clear_flag (c_flags c0) REDIS_BLOCK) REDIS_REUSEADDR\<rparr>"
  obtain c1 where k: "keep_params al False ?c ip port None (Some src) = Inr c1" "c_err c1 = 0" "c_tcp_source_addr c1 \<noteq> None"
    using c0(2) s by (simp add: keep_params_def keep_timeout_def Let_def)
  have f: "has_flag (c_flags ?c) REDIS_REUSEADDR" "\<not> blocking ?c" by (simp_all add: c0(3) flag_simps)
  have ne: "fds \<noteq> []" using assms(3) by auto
  from attempts_lose [OF ne, of 0 "?w\<lparr>w_gai := replicate 10 (GaiList 1)\<rparr>" "[]" "[]" c1 "blocking ?c" 0] assms(3,4) k(2,3)
  obtain c' w' where "connect_addrs (blocking ?c) True (Suc 0) 0 c1 (?w\<lparr>w_gai := replicate 10 (GaiList 1)\<rparr>) = Inr (Some (REDIS_ERR, c', w'))"
    "c_err c' = 0" "w_opened w' = fds" "w_closed w' = []" by (auto simp: new_world_def)
  then show ?thesis using c0(1) k(1) f(1)
    by (simp add: redisConnectBindNonBlockWithReuse_def connect_with_def redisContextConnectBindTcp_def contextConnectTcp_def
        sys_getaddrinfo_def new_world_def)
qed

theorem connect_reuse_loses_sockets_witness:
  "\<exists>c w'. redisConnectBindNonBlockWithReuse (fill_alloc NUL) ''h'' 6379 (Some ''s'') []
      (new_world [] [] (concat (map attempt [3, 4, 5, 6, 7, 8, 9, 10, 11, 12])) (GaiList 1 # replicate 10 (GaiList 1))) =
        Inr (Some (Some c, [], w')) \<and> c_err c = 0 \<and> w_opened w' = [3, 4, 5, 6, 7, 8, 9, 10, 11, 12] \<and> w_closed w' = []"
  by (rule connect_reuse_loses_sockets) simp_all

lemma timeout_msec_eq:
  assumes "0 \<le> tv_sec tv" "0 \<le> tv_usec tv"
  shows "timeout_msec (Some tv) =
    (if 1000000 < tv_usec tv \<or> 9223372036854774 < tv_sec tv then None
     else Some (min 2147483647 (tv_sec tv * 1000 + (tv_usec tv + 999) div 1000)))"
proof (cases "1000000 < tv_usec tv \<or> 9223372036854774 < tv_sec tv")
  case False
  then have "0 \<le> (tv_usec tv + 999) div 1000" "(tv_usec tv + 999) div 1000 \<le> 1000" using assms(2) by linarith+
  with assms False show ?thesis by (simp add: timeout_msec_def Let_def INT_MAX_def MAX_MSEC_def LONG_MAX_def)
qed (simp add: timeout_msec_def MAX_MSEC_def LONG_MAX_def)

lemma msec_rounds_up:
  fixes s u :: int
  assumes "p = min 2147483647 (s * 1000 + (u + 999) div 1000)" "0 \<le> s" "0 \<le> u"
  shows "0 \<le> p" "p \<le> 2147483647" "(p - 1) * 1000 < s * 1000000 + u" "p < 2147483647 \<longrightarrow> s * 1000000 + u \<le> p * 1000"
proof -
  define m where "m = s * 1000 + (u + 999) div 1000"
  have "m * 1000 = s * 1000000 + (u + 999) div 1000 * 1000" by (simp add: m_def algebra_simps)
  moreover have "(u + 999) div 1000 * 1000 + (u + 999) mod 1000 = u + 999" "0 \<le> (u + 999) mod 1000" "(u + 999) mod 1000 < 1000" by simp_all
  ultimately have "s * 1000000 + u \<le> m * 1000" "(m - 1) * 1000 < s * 1000000 + u"
    unfolding left_diff_distrib by linarith+
  moreover have "0 \<le> m" using assms(2,3) by (simp add: m_def)
  ultimately show "0 \<le> p" "p \<le> 2147483647" "(p - 1) * 1000 < s * 1000000 + u" "p < 2147483647 \<longrightarrow> s * 1000000 + u \<le> p * 1000"
    using assms(1) unfolding m_def [symmetric] by (auto simp: min_def split: if_splits)
qed

text \<open>C16: waiting for a connection in progress with a timeout whose fields are not negative.  A timeout of more than 1000000 microseconds or of more
  than 9223372036854774 seconds is refused: \<open>poll\<close> is not called, the error is set and the socket is closed.  With every other timeout
  \<open>poll\<close> is called once, with the least number of milliseconds that is not shorter than the timeout, or with \<open>INT_MAX\<close> when
  that number is larger; the call succeeds exactly when \<open>poll\<close> reports the socket and the socket has no error.\<close>

theorem redisContextWaitReady_timeout:
  assumes "0 \<le> tv_sec tv" "0 \<le> tv_usec tv" "w_errno w = EINPROGRESS" "w_calls w = r # cs" "w_sockerrs w = x # xs"
  shows "\<exists>st c' w'. redisContextWaitReady c (Some tv) w = Inr (Some (st, c', w')) \<and>
    (if 1000000 < tv_usec tv \<or> 9223372036854774 < tv_sec tv
     then st = REDIS_ERR \<and> c_err c' = REDIS_ERR_IO \<and> w_opts w' = w_opts w \<and> w_calls w' = w_calls w \<and>
       w_closed w' = w_closed w @ (if 0 \<le> c_fd c then [c_fd c] else [])
     else (\<exists>p. w_opts w' = w_opts w @ [(''poll'', p)] \<and> 0 \<le> p \<and> p \<le> 2147483647 \<and>
         (p - 1) * 1000 < tv_sec tv * 1000000 + tv_usec tv \<and> (p < 2147483647 \<longrightarrow> tv_sec tv * 1000000 + tv_usec tv \<le> p * 1000)) \<and>
       w_calls w' = cs \<and> (st = REDIS_OK \<longleftrightarrow> (\<exists>n. r = SysOk n \<and> n \<noteq> - 1 \<and> n \<noteq> 0) \<and> x = SockError None))"
proof (cases "1000000 < tv_usec tv \<or> 9223372036854774 < tv_sec tv")
  case True
  then show ?thesis using assms(1,2)
    by (simp add: redisContextWaitReady_def timeout_msec_eq net_fail_def redisContextCloseFd_def redisSetErrorFromErrno_def set_error_text_def)
next
  case False
  define p where "p = min 2147483647 (tv_sec tv * 1000 + (tv_usec tv + 999) div 1000)"
  have t: "timeout_msec (Some tv) = Some p" using False assms(1,2) by (simp add: timeout_msec_eq p_def)
  have "\<exists>st c' w'. redisContextWaitReady c (Some tv) w = Inr (Some (st, c', w')) \<and> w_opts w' = w_opts w @ [(''poll'', p)] \<and>
      w_calls w' = cs \<and> (st = REDIS_OK \<longleftrightarrow> (\<exists>n. r = SysOk n \<and> n \<noteq> - 1 \<and> n \<noteq> 0) \<and> x = SockError None)"
    using assms(3-5)
    by (cases r; cases x)
      (auto simp: redisContextWaitReady_def t sys_call_def redisCheckSocketError_def net_fail_def redisContextCloseFd_def Let_def split: option.splits)
  then show ?thesis using False msec_rounds_up [OF p_def assms(1,2)] by auto
qed

theorem redisContextWaitReady_timeout_witness:
  "\<forall>c. \<exists>c' w' st2 c2 w2.
    redisContextWaitReady c (Some \<lparr>tv_sec = 1, tv_usec = 500001\<rparr>)
      ((new_world [] [] [SysOk 1] [])\<lparr>w_errno := EINPROGRESS, w_sockerrs := [SockError None]\<rparr>) = Inr (Some (REDIS_OK, c', w')) \<and>
    w_opts w' = [(''poll'', 1501)] \<and>
    redisContextWaitReady c (Some \<lparr>tv_sec = 9223372036854775, tv_usec = 0\<rparr>)
      ((new_world [] [] [SysOk 1] [])\<lparr>w_errno := EINPROGRESS, w_sockerrs := [SockError None]\<rparr>) = Inr (Some (st2, c2, w2)) \<and>
    st2 = REDIS_ERR \<and> w_opts w2 = []"
proof
  fix c
  let ?w = "(new_world [] [] [SysOk 1] [])\<lparr>w_errno := EINPROGRESS, w_sockerrs := [SockError None]\<rparr>"
  have p: "p = 1501" if "(p - 1) * 1000 < 1 * 1000000 + 500001" "p < 2147483647 \<longrightarrow> 1 * 1000000 + 500001 \<le> p * 1000" for p :: int
  proof -
    have "p \<le> 1501" using that(1) unfolding left_diff_distrib by linarith
    with that(2) show ?thesis by linarith
  qed
  obtain c' w' where 1: "redisContextWaitReady c (Some \<lparr>tv_sec = 1, tv_usec = 500001\<rparr>) ?w = Inr (Some (REDIS_OK, c', w'))" "w_opts w' = [(''poll'', 1501)]"
    using redisContextWaitReady_timeout [of "\<lparr>tv_sec = 1, tv_usec = 500001\<rparr>" ?w "SysOk 1" "[]" "SockError None" "[]" c] p by (auto simp: new_world_def)
  obtain st2 c2 w2 where 2: "redisContextWaitReady c (Some \<lparr>tv_sec = 9223372036854775, tv_usec = 0\<rparr>) ?w = Inr (Some (st2, c2, w2))"
    "st2 = REDIS_ERR" "w_opts w2 = []"
    using redisContextWaitReady_timeout [of "\<lparr>tv_sec = 9223372036854775, tv_usec = 0\<rparr>" ?w "SysOk 1" "[]" "SockError None" "[]" c] by (auto simp: new_world_def)
  from 1 2 show "\<exists>c' w' st2 c2 w2.
    redisContextWaitReady c (Some \<lparr>tv_sec = 1, tv_usec = 500001\<rparr>) ?w = Inr (Some (REDIS_OK, c', w')) \<and> w_opts w' = [(''poll'', 1501)] \<and>
    redisContextWaitReady c (Some \<lparr>tv_sec = 9223372036854775, tv_usec = 0\<rparr>) ?w = Inr (Some (st2, c2, w2)) \<and> st2 = REDIS_ERR \<and> w_opts w2 = []"
    by blast
qed

end
