(* ===== verification/Dict.thy ===== *)
theory Dict
  imports SdsFmt "HOL-Library.Multiset"
begin

text \<open>
  The chained hash table \<open>dict.c\<close> (\<open>dict.h\<close>), used by \<open>async.c\<close> to find the callback of a
  channel.  A bucket is the list of its entries, head first, so that the pointer \<open>next\<close> of an
  entry is the rest of the list.  The hash, compare and dup functions of a \<open>dictType\<close> are its
  fields; destructors only release memory and have no counterpart.  The code does not check
  \<open>malloc\<close> and \<open>calloc\<close>: using their NULL is an access out of bounds.
\<close>

unbundle bit_operations_syntax

section \<open>Data\<close>

type_synonym ('k, 'v) dictEntry = "'k \<times> 'v"

record ('k, 'v) dictType =
  hashFunction :: "'k \<Rightarrow> 32 word"
  keyDup :: "('k \<Rightarrow> 'k) option"
  valDup :: "('v \<Rightarrow> 'v) option"
  keyCompare :: "('k \<Rightarrow> 'k \<Rightarrow> bool) option"

record ('k, 'v) dict =
  ht_table :: "('k, 'v) dictEntry list list"
  ht_type :: "('k, 'v) dictType"
  ht_size :: nat
  ht_sizemask :: nat
  ht_used :: nat

datatype dict_status = DICT_OK | DICT_ERR

definition DICT_HT_INITIAL_SIZE :: nat where "DICT_HT_INITIAL_SIZE = 4"

definition dictSetHashKey :: "('k, 'v) dictType \<Rightarrow> 'k \<Rightarrow> 'k" where
  "dictSetHashKey type key = (case keyDup type of Some f \<Rightarrow> f key | None \<Rightarrow> key)"

definition dictSetHashVal :: "('k, 'v) dictType \<Rightarrow> 'v \<Rightarrow> 'v" where
  "dictSetHashVal type val = (case valDup type of Some f \<Rightarrow> f val | None \<Rightarrow> val)"

definition dictCompareHashKeys :: "('k, 'v) dictType \<Rightarrow> 'k \<Rightarrow> 'k \<Rightarrow> bool" where
  "dictCompareHashKeys type key1 key2 =
     (case keyCompare type of Some f \<Rightarrow> f key1 key2 | None \<Rightarrow> key1 = key2)"

text \<open>\<open>dictHashKey(ht, key) & sizemask\<close>.\<close>

definition dict_slot :: "('k, 'v) dictType \<Rightarrow> nat \<Rightarrow> 'k \<Rightarrow> nat" where
  "dict_slot type sizemask key = unat (hashFunction type key) AND sizemask"

section \<open>Operations\<close>

text \<open>The hash of the bytes \<open>buf[0..len-1]\<close>, in \<open>unsigned int\<close> arithmetic.\<close>

definition dictGenHashFunction :: "string \<Rightarrow> nat \<Rightarrow> 32 word" where
  "dictGenHashFunction buf len =
     foldl (\<lambda>hash c. (push_bit 5 hash + hash) + of_nat (byte_of c)) 5381 (take len buf)"

definition dictReset :: "('k, 'v) dict \<Rightarrow> ('k, 'v) dict" where
  "dictReset ht = ht\<lparr>ht_table := [], ht_size := 0, ht_sizemask := 0, ht_used := 0\<rparr>"

definition dictInit :: "('k, 'v) dict \<Rightarrow> ('k, 'v) dictType \<Rightarrow> ('k, 'v) dict" where
  "dictInit ht type = (dictReset ht)\<lparr>ht_type := type\<rparr>"

text \<open>\<open>garbage\<close> is the unspecified contents of the memory \<open>malloc\<close> returned, \<open>None\<close> when it
  returned NULL.\<close>

definition dictCreate :: "('k, 'v) dict option \<Rightarrow> ('k, 'v) dictType \<Rightarrow> ('k, 'v) dict res" where
  "dictCreate garbage type = (case garbage of None \<Rightarrow> Inl OutOfBounds | Some ht \<Rightarrow> Inr (dictInit ht type))"

text \<open>The doubling loop of \<open>_dictNextPower\<close>.  Below \<open>LONG_MAX\<close> the result is at most \<open>2 ^ 63\<close>, so
  \<open>i *= 2\<close> does not wrap.\<close>

function next_power_loop :: "nat \<Rightarrow> nat \<Rightarrow> nat" where
  "next_power_loop i n = (if n \<le> i \<or> i = 0 then i else next_power_loop (i * 2) n)"
  by pat_completeness auto
termination by (relation "measure (\<lambda>(i, n). n - i)") auto

declare next_power_loop.simps [simp del]

definition dictNextPower :: "nat \<Rightarrow> nat" where
  "dictNextPower n =
     (if LONG_MAX \<le> int n then nat LONG_MAX else next_power_loop DICT_HT_INITIAL_SIZE n)"

text \<open>Moving the entries of one chain, and of all chains while there are used entries, into the new
  table.\<close>

fun rehash_chain :: "('k, 'v) dictType \<Rightarrow> nat \<Rightarrow> ('k, 'v) dictEntry list list \<Rightarrow> nat \<Rightarrow>
    ('k, 'v) dictEntry list \<Rightarrow> (('k, 'v) dictEntry list list \<times> nat) res" where
  "rehash_chain type msk table used [] = Inr (table, used)"
| "rehash_chain type msk table used (he # nextHe) =
     (let h = dict_slot type msk (fst he) in
      bindr (mem_get table h) (\<lambda>chain.
      rehash_chain type msk (table[h := he # chain]) (size_t (int used - 1)) nextHe))"

fun rehash_table :: "('k, 'v) dictType \<Rightarrow> nat \<Rightarrow> ('k, 'v) dictEntry list list \<Rightarrow> nat \<Rightarrow>
    ('k, 'v) dictEntry list list \<Rightarrow> (('k, 'v) dictEntry list list \<times> nat) res" where
  "rehash_table type msk table used [] = Inr (table, used)"
| "rehash_table type msk table used (chain # buckets) =
     (if used = 0 then Inr (table, used)
      else bindr (rehash_chain type msk table used chain) (\<lambda>(table, used).
           rehash_table type msk table used buckets))"

definition dictExpand :: "allocator \<Rightarrow> ('k, 'v) dict \<Rightarrow> nat \<Rightarrow> (dict_status \<times> ('k, 'v) dict) res" where
  "dictExpand al ht n =
     (let realsize = dictNextPower n; msk = size_t (int realsize - 1) in
      if n < ht_used ht then Inr (DICT_ERR, ht)
      else if al (realsize * 8) = None then Inl OutOfBounds
      else
        bindr (rehash_table (ht_type ht) msk (replicate realsize []) (ht_used ht) (take (ht_size ht) (ht_table ht)))
          (\<lambda>(table, used).
        bindr (check AssertFailed (used = 0)) (\<lambda>_.
        Inr (DICT_OK, ht\<lparr>ht_table := table, ht_size := realsize, ht_sizemask := msk\<rparr>))))"

definition dictExpandIfNeeded :: "allocator \<Rightarrow> ('k, 'v) dict \<Rightarrow> (dict_status \<times> ('k, 'v) dict) res" where
  "dictExpandIfNeeded al ht =
     (if ht_size ht = 0 then dictExpand al ht DICT_HT_INITIAL_SIZE
      else if ht_used ht = ht_size ht then dictExpand al ht (size_t (int (ht_size ht) * 2))
      else Inr (DICT_OK, ht))"

definition chain_find :: "('k, 'v) dictType \<Rightarrow> 'k \<Rightarrow> ('k, 'v) dictEntry list \<Rightarrow> ('k, 'v) dictEntry option" where
  "chain_find type key chain = find (\<lambda>he. dictCompareHashKeys type key (fst he)) chain"

text \<open>The index, an \<open>int\<close>, of the slot for a new key, or -1.\<close>

definition dictKeyIndex :: "allocator \<Rightarrow> ('k, 'v) dict \<Rightarrow> 'k \<Rightarrow> (int \<times> ('k, 'v) dict) res" where
  "dictKeyIndex al ht key =
     bindr (dictExpandIfNeeded al ht) (\<lambda>(status, ht).
     if status = DICT_ERR then Inr (- 1, ht)
     else
       let h = dict_slot (ht_type ht) (ht_sizemask ht) key in
       bindr (mem_get (ht_table ht) h) (\<lambda>chain.
       case chain_find (ht_type ht) key chain of
         Some _ \<Rightarrow> Inr (- 1, ht)
       | None \<Rightarrow> Inr (int32 (int h), ht)))"

definition dictAdd :: "allocator \<Rightarrow> ('k, 'v) dict \<Rightarrow> 'k \<Rightarrow> 'v \<Rightarrow> (dict_status \<times> ('k, 'v) dict) res" where
  "dictAdd al ht key val =
     bindr (dictKeyIndex al ht key) (\<lambda>(index, ht).
     if index = - 1 then Inr (DICT_ERR, ht)
     else if al 24 = None \<or> index < 0 then Inl OutOfBounds
     else
       bindr (mem_get (ht_table ht) (nat index)) (\<lambda>chain.
       let entry = (dictSetHashKey (ht_type ht) key, dictSetHashVal (ht_type ht) val) in
       Inr (DICT_OK, ht\<lparr>ht_table := (ht_table ht)[nat index := entry # chain],
                        ht_used := size_t (int (ht_used ht) + 1)\<rparr>)))"

definition dictFind :: "('k, 'v) dict \<Rightarrow> 'k \<Rightarrow> (('k, 'v) dictEntry option) res" where
  "dictFind ht key =
     (if ht_size ht = 0 then Inr None
      else
        bindr (mem_get (ht_table ht) (dict_slot (ht_type ht) (ht_sizemask ht) key)) (\<lambda>chain.
        Inr (chain_find (ht_type ht) key chain)))"

text \<open>Assigning through the entry pointer that \<open>dictFind\<close> returned: the first match of the chain.\<close>

fun chain_set :: "('k, 'v) dictType \<Rightarrow> 'k \<Rightarrow> 'v \<Rightarrow> ('k, 'v) dictEntry list \<Rightarrow> ('k, 'v) dictEntry list" where
  "chain_set type key val [] = []"
| "chain_set type key val (he # chain) =
     (if dictCompareHashKeys type key (fst he) then (fst he, val) # chain
      else he # chain_set type key val chain)"

definition dictReplace :: "allocator \<Rightarrow> ('k, 'v) dict \<Rightarrow> 'k \<Rightarrow> 'v \<Rightarrow> (nat \<times> ('k, 'v) dict) res" where
  "dictReplace al ht key val =
     bindr (dictAdd al ht key val) (\<lambda>(status, ht).
     if status = DICT_OK then Inr (1, ht)
     else
       bindr (dictFind ht key) (\<lambda>entry.
       case entry of
         None \<Rightarrow> Inl OutOfBounds
       | Some _ \<Rightarrow>
           let h = dict_slot (ht_type ht) (ht_sizemask ht) key in
           Inr (0, ht\<lparr>ht_table := (ht_table ht)[h :=
             chain_set (ht_type ht) key (dictSetHashVal (ht_type ht) val) (ht_table ht ! h)]\<rparr>)))"

fun chain_delete :: "('k, 'v) dictType \<Rightarrow> 'k \<Rightarrow> ('k, 'v) dictEntry list \<Rightarrow> (('k, 'v) dictEntry list) option" where
  "chain_delete type key [] = None"
| "chain_delete type key (de # chain) =
     (if dictCompareHashKeys type key (fst de) then Some chain
      else map_option ((#) de) (chain_delete type key chain))"

definition dictDelete :: "('k, 'v) dict \<Rightarrow> 'k \<Rightarrow> (dict_status \<times> ('k, 'v) dict) res" where
  "dictDelete ht key =
     (if ht_size ht = 0 then Inr (DICT_ERR, ht)
      else
        let h = dict_slot (ht_type ht) (ht_sizemask ht) key in
        bindr (mem_get (ht_table ht) h) (\<lambda>chain.
        case chain_delete (ht_type ht) key chain of
          None \<Rightarrow> Inr (DICT_ERR, ht)
        | Some chain' \<Rightarrow>
            Inr (DICT_OK, ht\<lparr>ht_table := (ht_table ht)[h := chain'],
                             ht_used := size_t (int (ht_used ht) - 1)\<rparr>)))"

definition dictClear :: "('k, 'v) dict \<Rightarrow> (dict_status \<times> ('k, 'v) dict)" where
  "dictClear ht = (DICT_OK, dictReset ht)"

text \<open>
  The iterator: \<open>entry\<close> and \<open>nextEntry\<close> point into a chain, that is, they are the part of the
  chain from there on (\<open>[]\<close> is NULL).
\<close>

record ('k, 'v) dictIterator =
  it_ht :: "('k, 'v) dict"
  it_index :: int
  it_entry :: "('k, 'v) dictEntry list"
  it_nextEntry :: "('k, 'v) dictEntry list"

definition dictGetIterator :: "('k, 'v) dict \<Rightarrow> ('k, 'v) dictIterator" where
  "dictGetIterator ht = \<lparr>it_ht = ht, it_index = - 1, it_entry = [], it_nextEntry = []\<rparr>"

function dictNext :: "('k, 'v) dictIterator \<Rightarrow> (('k, 'v) dictEntry option \<times> ('k, 'v) dictIterator) res" where
  "dictNext iter =
     (if it_entry iter = [] then
        let iter = iter\<lparr>it_index := it_index iter + 1\<rparr> in
        if int32 (int (ht_size (it_ht iter))) \<le> it_index iter then Inr (None, iter)
        else if it_index iter < 0 then Inl OutOfBounds
        else
          (case mem_get (ht_table (it_ht iter)) (nat (it_index iter)) of
             Inl e \<Rightarrow> Inl e
           | Inr [] \<Rightarrow> dictNext (iter\<lparr>it_entry := []\<rparr>)
           | Inr (he # rest) \<Rightarrow> Inr (Some he, iter\<lparr>it_entry := he # rest, it_nextEntry := rest\<rparr>))
      else
        (case it_nextEntry iter of
           [] \<Rightarrow> dictNext (iter\<lparr>it_entry := []\<rparr>)
         | he # rest \<Rightarrow> Inr (Some he, iter\<lparr>it_entry := he # rest, it_nextEntry := rest\<rparr>)))"
  by pat_completeness auto
termination
  by (relation "inv_image (less_than <*lex*> less_than)
      (\<lambda>iter. (nat (int32 (int (ht_size (it_ht iter))) - it_index iter), if it_entry iter = [] then 0 else 1 :: nat))") auto

declare dictNext.simps [simp del]

section \<open>Sizes and slots\<close>

lemma next_power_loop_spec:
  "\<exists>b. next_power_loop (2 ^ a) n = 2 ^ b \<and> n \<le> 2 ^ b \<and> a \<le> b \<and> (a < b \<longrightarrow> 2 ^ (b - 1) < n)"
proof (induction "n - 2 ^ a" arbitrary: a rule: less_induct)
  case less
  show ?case
  proof (cases "n \<le> 2 ^ a")
    case True
    then show ?thesis by (intro exI [of _ a]) (simp add: next_power_loop.simps)
  next
    case False
    then have "n - 2 ^ Suc a < n - 2 ^ a" using zero_less_power [of "2 :: nat" a] unfolding power_Suc by linarith
    from less [OF this] obtain b where b: "next_power_loop (2 ^ Suc a) n = 2 ^ b" "n \<le> 2 ^ b" "Suc a \<le> b"
      "Suc a < b \<longrightarrow> 2 ^ (b - 1) < n" by blast
    have "a < b \<longrightarrow> 2 ^ (b - 1) < n" using b(3,4) False by (cases "b = Suc a") auto
    with b False show ?thesis
      by (intro exI [of _ b]) (simp add: next_power_loop.simps [of "2 ^ a"] mult.commute)
  qed
qed

lemma dictNextPower_pow:
  assumes "2 \<le> k" "k \<le> 62"
  shows "dictNextPower (2 ^ k) = 2 ^ k"
proof -
  from next_power_loop_spec [of 2 "2 ^ k"] obtain b where b: "next_power_loop 4 (2 ^ k) = 2 ^ b" "k \<le> b" "2 \<le> b"
    "2 < b \<longrightarrow> 2 ^ (b - 1) < (2 :: nat) ^ k" by auto
  have "b = k"
  proof (rule ccontr)
    assume "b \<noteq> k"
    with b(2,3) assms(1) have "k \<le> b - 1" "2 < b" by auto
    with b(4) show False by simp
  qed
  moreover have "int (2 ^ k) < LONG_MAX"
  proof -
    have "(2 :: int) ^ k \<le> 2 ^ 62" using assms(2) by (intro power_increasing) auto
    then show ?thesis by (simp add: LONG_MAX_def)
  qed
  ultimately show ?thesis using b(1) by (simp add: dictNextPower_def DICT_HT_INITIAL_SIZE_def)
qed

lemma dict_slot_mod: "dict_slot type (2 ^ k - 1) key = unat (hashFunction type key) mod 2 ^ k"
  by (simp only: dict_slot_def mask_eq_exp_minus_1 [symmetric] take_bit_eq_mask [symmetric] take_bit_eq_mod)

lemma dict_slot_less: "dict_slot type (2 ^ k - 1) key < 2 ^ k"
  unfolding dict_slot_mod by simp

text \<open>A table is cut at a slot: what comes before and after the chain does not change when the
  chain is replaced.\<close>

lemma concat_update:
  assumes "h < length t"
  obtains A B where "concat t = A @ t ! h @ B" "\<And>c. concat (t[h := c]) = A @ c @ B"
proof
  show "concat t = concat (take h t) @ t ! h @ concat (drop (Suc h) t)"
    using arg_cong [OF id_take_nth_drop [OF assms], of concat] by simp
  show "concat (t[h := c]) = concat (take h t) @ c @ concat (drop (Suc h) t)" for c
    using arg_cong [OF upd_conv_take_nth_drop [OF assms, of c], of concat] by simp
qed

definition placed :: "('k, 'v) dictType \<Rightarrow> nat \<Rightarrow> ('k, 'v) dictEntry list list \<Rightarrow> bool" where
  "placed type msk t \<longleftrightarrow> (\<forall>j < length t. \<forall>e \<in> set (t ! j). dict_slot type msk (fst e) = j)"

lemma placed_update:
  "placed type msk t \<Longrightarrow> \<forall>e \<in> set c. dict_slot type msk (fst e) = h \<Longrightarrow> placed type msk (t[h := c])"
  by (cases "h < length t") (auto simp: placed_def nth_list_update list_update_beyond)

lemma placed_mem:
  assumes "placed type msk t" "e \<in> set (concat t)"
  shows "dict_slot type msk (fst e) < length t \<and> e \<in> set (t ! dict_slot type msk (fst e))"
proof -
  from assms(2) obtain c where "c \<in> set t" "e \<in> set c" by auto
  then obtain j where "j < length t" "e \<in> set (t ! j)" by (auto simp: in_set_conv_nth)
  with assms(1) show ?thesis by (auto simp: placed_def)
qed

lemma rehash_chain_spec:
  assumes "length t = 2 ^ k" "placed type (2 ^ k - 1) t" "length chain \<le> u" "u < 18446744073709551616"
  shows "\<exists>t'. rehash_chain type (2 ^ k - 1) t u chain = Inr (t', u - length chain) \<and> length t' = 2 ^ k \<and>
    placed type (2 ^ k - 1) t' \<and> mset (concat t') = mset (concat t) + mset chain"
  using assms
proof (induction chain arbitrary: t u)
  case (Cons e chain)
  let ?h = "dict_slot type (2 ^ k - 1) (fst e)"
  let ?t = "t[?h := e # t ! ?h]"
  have h: "?h < length t" using Cons.prems(1) dict_slot_less by simp
  from concat_update [OF h] obtain A B where AB: "concat t = A @ t ! ?h @ B" "\<And>c. concat (t[?h := c]) = A @ c @ B"
    by blast
  have p: "placed type (2 ^ k - 1) ?t"
    using Cons.prems(2) h by (intro placed_update) (auto simp: placed_def)
  have u: "size_t (int u - 1) = u - 1" using Cons.prems(3,4) by (auto intro!: size_t_eq)
  obtain t' where t': "rehash_chain type (2 ^ k - 1) ?t (u - 1) chain = Inr (t', u - 1 - length chain)"
    "length t' = 2 ^ k" "placed type (2 ^ k - 1) t'" "mset (concat t') = mset (concat ?t) + mset chain"
    using Cons.IH [OF _ p, of "u - 1"] Cons.prems(1,3,4) by fastforce
  have "mset (concat t') = mset (concat t) + mset (e # chain)" unfolding t'(4) AB by simp
  with t' h u show ?case by (simp add: Let_def)
qed auto

lemma rehash_table_spec:
  assumes "length t = 2 ^ k" "placed type (2 ^ k - 1) t" "length (concat bs) = u" "u < 18446744073709551616"
  shows "\<exists>t'. rehash_table type (2 ^ k - 1) t u bs = Inr (t', 0) \<and> length t' = 2 ^ k \<and>
    placed type (2 ^ k - 1) t' \<and> mset (concat t') = mset (concat t) + mset (concat bs)"
  using assms
proof (induction bs arbitrary: t u)
  case (Cons c bs)
  show ?case
  proof (cases "u = 0")
    case True
    with Cons.prems show ?thesis by auto
  next
    case False
    from rehash_chain_spec [OF Cons.prems(1,2), of c u] Cons.prems(3,4) obtain t1 where
      t1: "rehash_chain type (2 ^ k - 1) t u c = Inr (t1, u - length c)" "length t1 = 2 ^ k"
      "placed type (2 ^ k - 1) t1" "mset (concat t1) = mset (concat t) + mset c" by auto
    from Cons.IH [OF t1(2,3), of "u - length c"] Cons.prems(3,4) obtain t2 where
      t2: "rehash_table type (2 ^ k - 1) t1 (u - length c) bs = Inr (t2, 0)" "length t2 = 2 ^ k"
      "placed type (2 ^ k - 1) t2" "mset (concat t2) = mset (concat t1) + mset (concat bs)" by auto
    from False t1 t2 show ?thesis by (intro exI [of _ t2]) simp
  qed
qed simp

section \<open>The table as a finite map\<close>

text \<open>
  The invariant of a table over keys that satisfy \<open>key_ok\<close> and are compared through \<open>canon\<close>
  (for string keys: their bytes), and the map it represents.
\<close>

definition dict_ok :: "('k \<Rightarrow> bool) \<Rightarrow> ('k \<Rightarrow> 'c) \<Rightarrow> ('k, 'v) dict \<Rightarrow> bool" where
  "dict_ok key_ok canon ht \<longleftrightarrow>
     length (ht_table ht) = ht_size ht \<and>
     ht_used ht = length (concat (ht_table ht)) \<and> ht_used ht \<le> ht_size ht \<and>
     (\<forall>e \<in> set (concat (ht_table ht)). key_ok (fst e)) \<and>
     distinct (map (canon \<circ> fst) (concat (ht_table ht))) \<and>
     placed (ht_type ht) (ht_sizemask ht) (ht_table ht) \<and>
     (ht_size ht = 0 \<or> (\<exists>k. 2 \<le> k \<and> k \<le> 31 \<and> ht_size ht = 2 ^ k \<and> ht_sizemask ht = 2 ^ k - 1))"

definition entries_map :: "('k \<Rightarrow> 'c) \<Rightarrow> ('k, 'v) dictEntry list \<Rightarrow> 'c \<rightharpoonup> 'v" where
  "entries_map canon es = map_of (map (\<lambda>(k, v). (canon k, v)) es)"

definition dict_abs :: "('k \<Rightarrow> 'c) \<Rightarrow> ('k, 'v) dict \<Rightarrow> 'c \<rightharpoonup> 'v" where
  "dict_abs canon ht = entries_map canon (concat (ht_table ht))"

lemma entries_map_simps [simp]:
  "entries_map canon [] = Map.empty"
  "entries_map canon (e # es) = (entries_map canon es)(canon (fst e) \<mapsto> snd e)"
  "entries_map canon (es @ es') = entries_map canon es' ++ entries_map canon es"
  by (simp_all add: entries_map_def split_def)

lemma entries_map_Some_iff:
  "distinct (map (canon \<circ> fst) es) \<Longrightarrow> entries_map canon es c = Some v \<longleftrightarrow> (\<exists>k. (k, v) \<in> set es \<and> canon k = c)"
  unfolding entries_map_def by (subst map_of_eq_Some_iff) (force simp: comp_def split_def image_iff)+

lemma entries_map_None_iff: "entries_map canon es c = None \<longleftrightarrow> c \<notin> (canon \<circ> fst) ` set es"
  unfolding entries_map_def map_of_eq_None_iff by force

lemma entries_map_mset:
  assumes "distinct (map (canon \<circ> fst) es)" "mset es = mset es'"
  shows "entries_map canon es = entries_map canon es'"
proof (rule ext)
  fix c
  have "mset (map (canon \<circ> fst) es) = mset (map (canon \<circ> fst) es')" using assms(2) by simp
  then have "distinct (map (canon \<circ> fst) es')" using assms(1) mset_eq_imp_distinct_iff by blast
  moreover have "set es = set es'" using assms(2) mset_eq_setD by blast
  ultimately show "entries_map canon es c = entries_map canon es' c"
    using assms(1) entries_map_Some_iff [of canon es c] entries_map_Some_iff [of canon es' c]
    by (metis not_Some_eq)
qed

lemma dict_ok_empty: "dict_ok key_ok canon (dictInit ht type)" "dict_abs canon (dictInit ht type) = Map.empty"
  by (simp_all add: dict_ok_def dict_abs_def dictInit_def dictReset_def placed_def)

text \<open>
  What the operations rely on: the compare function decides equality of \<open>canon\<close>, the hash
  function depends on \<open>canon\<close> only, and keys and values are stored as they are.
\<close>

locale dict_type_laws =
  fixes type :: "('k, 'v) dictType" and key_ok :: "'k \<Rightarrow> bool" and canon :: "'k \<Rightarrow> 'c"
  assumes compare_iff: "key_ok k1 \<Longrightarrow> key_ok k2 \<Longrightarrow> dictCompareHashKeys type k1 k2 \<longleftrightarrow> canon k1 = canon k2"
    and hash_canon: "key_ok k1 \<Longrightarrow> key_ok k2 \<Longrightarrow> canon k1 = canon k2 \<Longrightarrow> hashFunction type k1 = hashFunction type k2"
    and key_stored: "dictSetHashKey type k = k"
    and val_stored: "dictSetHashVal type v = v"
begin

lemma slot_canon: "key_ok k1 \<Longrightarrow> key_ok k2 \<Longrightarrow> canon k1 = canon k2 \<Longrightarrow> dict_slot type m k1 = dict_slot type m k2"
  by (drule (2) hash_canon) (simp add: dict_slot_def)

lemma chain_find_spec:
  assumes "key_ok key" "\<forall>e \<in> set c. key_ok (fst e)"
  shows "map_option snd (chain_find type key c) = entries_map canon c (canon key)"
  using assms by (induction c) (auto simp: chain_find_def compare_iff)

text \<open>Looking up a key needs its own chain only.\<close>

lemma abs_slot:
  assumes ok: "dict_ok key_ok canon ht" and t: "ht_type ht = type" and key: "key_ok key" and sz: "ht_size ht \<noteq> 0"
  defines "h \<equiv> dict_slot type (ht_sizemask ht) key"
  shows "h < length (ht_table ht)" "dict_abs canon ht (canon key) = entries_map canon (ht_table ht ! h) (canon key)"
proof -
  from ok sz have okD: "length (ht_table ht) = ht_size ht" "placed type (ht_sizemask ht) (ht_table ht)"
    "\<forall>e \<in> set (concat (ht_table ht)). key_ok (fst e)" by (simp_all add: dict_ok_def t)
  from ok sz obtain k where k: "ht_size ht = 2 ^ k" "ht_sizemask ht = 2 ^ k - 1" by (auto simp: dict_ok_def)
  show h: "h < length (ht_table ht)" unfolding h_def okD(1) k by (rule dict_slot_less)
  from concat_update [OF h] obtain A B where AB: "concat (ht_table ht) = A @ ht_table ht ! h @ B"
    "\<And>c. concat ((ht_table ht)[h := c]) = A @ c @ B" by blast
  have out: "canon (fst e) \<noteq> canon key" if "e \<in> set A \<union> set B" for e
  proof
    assume "canon (fst e) = canon key"
    moreover have e: "e \<in> set (concat (ht_table ht))" using that AB(1) by auto
    ultimately have s: "dict_slot type (ht_sizemask ht) (fst e) = h"
      unfolding h_def using okD(3) key by (intro slot_canon) auto
    have "placed type (ht_sizemask ht) ((ht_table ht)[h := []])" using okD(2) by (rule placed_update) simp
    from placed_mem [OF this, of e] that AB(2) [of "[]"] s h show False by auto
  qed
  then have "entries_map canon A (canon key) = None" "entries_map canon B (canon key) = None"
    unfolding entries_map_None_iff by force+
  then show "dict_abs canon ht (canon key) = entries_map canon (ht_table ht ! h) (canon key)"
    unfolding dict_abs_def AB(1) by (simp add: map_add_def split: option.split)
qed

lemma chain_ok:
  assumes "dict_ok key_ok canon ht" "h < length (ht_table ht)"
  shows "\<forall>e \<in> set (ht_table ht ! h). key_ok (fst e)"
  using assms nth_mem [OF assms(2)] by (auto simp: dict_ok_def)

lemma dictFind_spec:
  assumes ok: "dict_ok key_ok canon ht" and t: "ht_type ht = type" and key: "key_ok key"
  shows "\<exists>r. dictFind ht key = Inr r \<and> map_option snd r = dict_abs canon ht (canon key)"
proof (cases "ht_size ht = 0")
  case True
  with ok show ?thesis by (simp add: dictFind_def dict_ok_def dict_abs_def)
next
  case False
  note h = abs_slot [OF assms False]
  with chain_find_spec [OF key chain_ok [OF ok h(1)]] False show ?thesis
    by (simp add: dictFind_def t)
qed

text \<open>Growing keeps the map: every entry is moved to the slot of its hash under the new mask.\<close>

lemma dictExpand_spec:
  assumes ok: "dict_ok key_ok canon ht" and t: "ht_type ht = type" and k: "2 \<le> k" "k \<le> 31"
    and used: "ht_used ht \<le> 2 ^ k" and al: "\<not> may_fail al"
  shows "\<exists>ht'. dictExpand al ht (2 ^ k) = Inr (DICT_OK, ht') \<and> dict_ok key_ok canon ht' \<and> ht_type ht' = type \<and>
    dict_abs canon ht' = dict_abs canon ht \<and> ht_used ht' = ht_used ht \<and> ht_size ht' = 2 ^ k"
proof -
  let ?es = "concat (ht_table ht)"
  have "(2 :: nat) ^ k \<le> 2 ^ 31" using k by (intro power_increasing) auto
  then have small: "(2 :: nat) ^ k \<le> 2147483648" by simp
  from ok have es: "length (ht_table ht) = ht_size ht" "length ?es = ht_used ht" "\<forall>e \<in> set ?es. key_ok (fst e)"
    "distinct (map (canon \<circ> fst) ?es)" by (simp_all add: dict_ok_def)
  have n: "dictNextPower (2 ^ k) = 2 ^ k" "size_t (int (2 ^ k) - 1) = 2 ^ k - 1" "al (2 ^ k * 8) \<noteq> None"
    using k small al by (auto intro!: dictNextPower_pow size_t_eq simp: of_nat_diff)
  have "placed type (2 ^ k - 1) (replicate (2 ^ k) [] :: ('k, 'v) dictEntry list list)" by (simp add: placed_def)
  from rehash_table_spec [OF _ this es(2)] used small es obtain t' where
    t': "rehash_table type (2 ^ k - 1) (replicate (2 ^ k) []) (ht_used ht) (ht_table ht) = Inr (t', 0)"
    "length t' = 2 ^ k" "placed type (2 ^ k - 1) t'" "mset (concat t') = mset ?es" by auto
  let ?ht = "ht\<lparr>ht_table := t', ht_size := 2 ^ k, ht_sizemask := 2 ^ k - 1\<rparr>"
  have "dictExpand al ht (2 ^ k) = Inr (DICT_OK, ?ht)"
  proof -
    have "take (ht_size ht) (ht_table ht) = ht_table ht" "\<not> 2 ^ k < ht_used ht" using es(1) used by simp_all
    then show ?thesis
      by (simp only: dictExpand_def Let_def n t t'(1) bindr_simps prod.case check_simps if_False simp_thms)
  qed
  moreover have "mset (map (canon \<circ> fst) (concat t')) = mset (map (canon \<circ> fst) ?es)" using t'(4) by simp
  then have "distinct (map (canon \<circ> fst) (concat t'))" using es(4) mset_eq_imp_distinct_iff by blast
  then have "dict_ok key_ok canon ?ht"
    using t' es k used mset_eq_setD [OF t'(4)] mset_eq_length [OF t'(4)] t by (auto simp: dict_ok_def simp del: set_concat)
  moreover have "dict_abs canon ?ht = dict_abs canon ht"
    using entries_map_mset [OF es(4) t'(4) [symmetric]] by (simp add: dict_abs_def)
  ultimately show ?thesis using t by (intro exI [of _ ?ht]) simp
qed

lemma dictExpandIfNeeded_spec:
  assumes ok: "dict_ok key_ok canon ht" and t: "ht_type ht = type" and used: "ht_used ht < 2 ^ 30" and al: "\<not> may_fail al"
  obtains ht' where "dictExpandIfNeeded al ht = Inr (DICT_OK, ht')" "dict_ok key_ok canon ht'" "ht_type ht' = type"
    "dict_abs canon ht' = dict_abs canon ht" "ht_used ht' = ht_used ht" "ht_used ht' < ht_size ht'"
proof -
  consider (empty) "ht_size ht = 0" | (full) k where "2 \<le> k" "k \<le> 31" "ht_size ht = 2 ^ k" "ht_used ht = ht_size ht"
    | (room) "ht_size ht \<noteq> 0" "ht_used ht < ht_size ht"
    using ok unfolding dict_ok_def by (metis le_neq_implies_less)
  then show ?thesis
  proof cases
    case empty
    with ok have "ht_used ht = 0" by (simp add: dict_ok_def)
    with dictExpand_spec [OF ok t, of 2 al] al empty that show ?thesis
      by (auto simp: dictExpandIfNeeded_def DICT_HT_INITIAL_SIZE_def)
  next
    case full
    have "(2 :: nat) ^ k < 2 ^ 30" using full used by simp
    from power_less_imp_less_exp [OF _ this] have k: "Suc k \<le> 31" by simp
    have s: "size_t (int (ht_size ht) * 2) = 2 ^ Suc k"
      using full \<open>2 ^ k < 2 ^ 30\<close> by (auto intro!: size_t_eq)
    from dictExpand_spec [OF ok t _ k, of al] full al obtain ht' where
      "dictExpand al ht (2 ^ Suc k) = Inr (DICT_OK, ht')" "dict_ok key_ok canon ht'" "ht_type ht' = type"
      "dict_abs canon ht' = dict_abs canon ht" "ht_used ht' = ht_used ht" "ht_size ht' = 2 ^ Suc k" by auto
    with full s that [of ht'] show ?thesis by (simp add: dictExpandIfNeeded_def)
  next
    case room
    with that [of ht] ok t show ?thesis by (simp add: dictExpandIfNeeded_def)
  qed
qed

text \<open>Replacing one chain by a chain whose entries belong to the same slot.\<close>

lemma dict_ok_update:
  assumes ok: "dict_ok key_ok canon ht" and t: "ht_type ht = type" and h: "h < length (ht_table ht)"
    and c: "\<forall>e \<in> set c. key_ok (fst e) \<and> dict_slot type (ht_sizemask ht) (fst e) = h"
    and d: "distinct (map (canon \<circ> fst) (concat ((ht_table ht)[h := c])))"
    and u: "u = length (concat ((ht_table ht)[h := c]))" "u \<le> ht_size ht"
  shows "dict_ok key_ok canon (ht\<lparr>ht_table := (ht_table ht)[h := c], ht_used := u\<rparr>)"
proof -
  have "set (concat ((ht_table ht)[h := c])) \<subseteq> set (concat (ht_table ht)) \<union> set c"
    using set_update_subset_insert [of "ht_table ht" h c] by auto
  then show ?thesis
    using ok c d u placed_update [of type "ht_sizemask ht" "ht_table ht" c h]
    unfolding dict_ok_def by (auto simp: t simp del: set_concat)
qed

lemma slot_of_mem:
  "dict_ok key_ok canon ht \<Longrightarrow> ht_type ht = type \<Longrightarrow> h < length (ht_table ht) \<Longrightarrow> e \<in> set (ht_table ht ! h) \<Longrightarrow>
     key_ok (fst e) \<and> dict_slot type (ht_sizemask ht) (fst e) = h"
  using chain_ok by (auto simp: dict_ok_def placed_def)

lemma dictAdd_spec:
  assumes ok: "dict_ok key_ok canon ht" and t: "ht_type ht = type" and key: "key_ok key"
    and used: "ht_used ht < 2 ^ 30" and al: "\<not> may_fail al"
  shows "\<exists>ht'. dictAdd al ht key val = Inr (if dict_abs canon ht (canon key) = None then DICT_OK else DICT_ERR, ht') \<and>
    dict_ok key_ok canon ht' \<and> ht_type ht' = type \<and>
    (if dict_abs canon ht (canon key) = None
     then dict_abs canon ht' = (dict_abs canon ht)(canon key \<mapsto> val) \<and> ht_used ht' = ht_used ht + 1
     else dict_abs canon ht' = dict_abs canon ht \<and> ht_used ht' = ht_used ht \<and> ht_size ht' \<noteq> 0)"
proof -
  obtain ht1 where ht1: "dictExpandIfNeeded al ht = Inr (DICT_OK, ht1)" "dict_ok key_ok canon ht1" "ht_type ht1 = type"
    "dict_abs canon ht1 = dict_abs canon ht" "ht_used ht1 = ht_used ht" "ht_used ht1 < ht_size ht1"
    using dictExpandIfNeeded_spec [OF ok t used al] by blast
  then have "ht_size ht1 \<noteq> 0" by simp
  define h where "h = dict_slot type (ht_sizemask ht1) key"
  note h = abs_slot [OF ht1(2,3) key \<open>ht_size ht1 \<noteq> 0\<close>, folded h_def]
  note f = chain_find_spec [OF key chain_ok [OF ht1(2) h(1)]]
  show ?thesis
  proof (cases "dict_abs canon ht (canon key)")
    case (Some v)
    with f h(2) ht1(4) have "map_option snd (chain_find type key (ht_table ht1 ! h)) = Some v" by simp
    then obtain e where "chain_find type key (ht_table ht1 ! h) = Some e" by blast
    then have "dictAdd al ht key val = Inr (DICT_ERR, ht1)"
      using ht1(1,3) h(1) by (simp add: dictAdd_def dictKeyIndex_def Let_def h_def [symmetric])
    with Some ht1 \<open>ht_size ht1 \<noteq> 0\<close> show ?thesis by simp
  next
    case None
    with f h(2) ht1(4) have cf: "chain_find type key (ht_table ht1 ! h) = None" by simp
    from ht1(2) \<open>ht_size ht1 \<noteq> 0\<close> obtain k where k: "k \<le> 31" "ht_size ht1 = 2 ^ k" by (auto simp: dict_ok_def)
    have "(2 :: nat) ^ k \<le> 2 ^ 31" using k by (intro power_increasing) auto
    then have "h < 2147483648" using h(1) k(2) ht1(2) by (simp add: dict_ok_def)
    then have i: "int32 (int h) = int h" by simp
    let ?ht = "ht1\<lparr>ht_table := (ht_table ht1)[h := (key, val) # ht_table ht1 ! h], ht_used := ht_used ht1 + 1\<rparr>"
    have u: "size_t (int (ht_used ht1) + 1) = ht_used ht1 + 1" using ht1(5) used by (auto intro!: size_t_eq)
    have a: "al 24 \<noteq> None" using al by auto
    have run: "dictAdd al ht key val = Inr (DICT_OK, ?ht)"
      using ht1(1,3) h(1) cf i u a
      by (simp add: dictAdd_def dictKeyIndex_def Let_def h_def [symmetric] key_stored val_stored)
    from concat_update [OF h(1)] obtain A B where AB: "concat (ht_table ht1) = A @ ht_table ht1 ! h @ B"
      "\<And>c. concat ((ht_table ht1)[h := c]) = A @ c @ B" by blast
    have old: "distinct (map (canon \<circ> fst) (concat (ht_table ht1)))" "ht_used ht1 = length (concat (ht_table ht1))"
      using ht1(2) by (simp_all add: dict_ok_def)
    have new: "canon key \<notin> (canon \<circ> fst) ` set (concat (ht_table ht1))"
      using None ht1(4) unfolding dict_abs_def entries_map_None_iff [symmetric] by simp
    have "dict_ok key_ok canon ?ht"
    proof (rule dict_ok_update [OF ht1(2,3) h(1)])
      show "\<forall>e \<in> set ((key, val) # ht_table ht1 ! h). key_ok (fst e) \<and> dict_slot type (ht_sizemask ht1) (fst e) = h"
        using key slot_of_mem [OF ht1(2,3) h(1)] by (auto simp: h_def)
    qed (use old new ht1(6) in \<open>auto simp: AB simp del: set_concat\<close>)
    moreover have "dict_abs canon ?ht = (dict_abs canon ht1)(canon key \<mapsto> val)"
    proof -
      have "entries_map canon A (canon key) = None" using new unfolding AB entries_map_None_iff by auto
      then show ?thesis by (intro ext) (auto simp: dict_abs_def AB map_add_def split: option.splits)
    qed
    ultimately show ?thesis using None run ht1 by (intro exI [of _ ?ht]) simp
  qed
qed

lemma chain_split:
  assumes "chain_find type key c = Some e"
  shows "\<exists>p q. c = p @ e # q \<and> (\<forall>v. chain_set type key v c = p @ (fst e, v) # q) \<and> chain_delete type key c = Some (p @ q) \<and>
    dictCompareHashKeys type key (fst e)"
  using assms
proof (induction c)
  case (Cons a c)
  show ?case
  proof (cases "dictCompareHashKeys type key (fst a)")
    case True
    with Cons.prems show ?thesis by (intro exI [of _ "[]"] exI [of _ c]) (auto simp: chain_find_def)
  next
    case False
    with Cons obtain p q where "c = p @ e # q" "\<forall>v. chain_set type key v c = p @ (fst e, v) # q"
      "chain_delete type key c = Some (p @ q)" "dictCompareHashKeys type key (fst e)" by (auto simp: chain_find_def)
    with False show ?thesis by (intro exI [of _ "a # p"] exI [of _ q]) simp
  qed
qed (simp add: chain_find_def)

lemma chain_delete_None: "chain_find type key c = None \<Longrightarrow> chain_delete type key c = None"
  by (induction c) (auto simp: chain_find_def split: if_splits)

text \<open>The entry a key finds, with its surroundings in the table.\<close>

lemma found_entry:
  assumes ok: "dict_ok key_ok canon ht" and t: "ht_type ht = type" and key: "key_ok key" and sz: "ht_size ht \<noteq> 0"
    and some: "dict_abs canon ht (canon key) \<noteq> None"
  defines "h \<equiv> dict_slot type (ht_sizemask ht) key"
  obtains e p q A B where "chain_find type key (ht_table ht ! h) = Some e" "canon (fst e) = canon key"
    "ht_table ht ! h = p @ e # q" "\<And>v. chain_set type key v (ht_table ht ! h) = p @ (fst e, v) # q"
    "chain_delete type key (ht_table ht ! h) = Some (p @ q)"
    "concat (ht_table ht) = A @ p @ e # q @ B" "\<And>c. concat ((ht_table ht)[h := c]) = A @ c @ B"
proof -
  note h = abs_slot [OF ok t key sz, folded h_def]
  note f = chain_find_spec [OF key chain_ok [OF ok h(1)]]
  from f h(2) some obtain e where e: "chain_find type key (ht_table ht ! h) = Some e" by (cases "chain_find type key (ht_table ht ! h)") auto
  from chain_split [OF e] obtain p q where pq: "ht_table ht ! h = p @ e # q"
    "chain_delete type key (ht_table ht ! h) = Some (p @ q)" "dictCompareHashKeys type key (fst e)"
    and cs: "\<And>v. chain_set type key v (ht_table ht ! h) = p @ (fst e, v) # q" by blast
  from concat_update [OF h(1)] obtain A B where "concat (ht_table ht) = A @ ht_table ht ! h @ B"
    "\<And>c. concat ((ht_table ht)[h := c]) = A @ c @ B" by blast
  moreover have "canon (fst e) = canon key" using compare_iff [OF key, of "fst e"] pq chain_ok [OF ok h(1)] by auto
  ultimately show ?thesis using that [OF e _ pq(1) cs pq(2)] pq(1) by auto
qed

lemma dictReplace_spec:
  assumes ok: "dict_ok key_ok canon ht" and t: "ht_type ht = type" and key: "key_ok key"
    and used: "ht_used ht < 2 ^ 30" and al: "\<not> may_fail al"
  shows "\<exists>ht'. dictReplace al ht key val = Inr (if dict_abs canon ht (canon key) = None then 1 else 0, ht') \<and>
    dict_ok key_ok canon ht' \<and> ht_type ht' = type \<and> dict_abs canon ht' = (dict_abs canon ht)(canon key \<mapsto> val) \<and>
    ht_used ht' \<le> ht_used ht + 1"
proof -
  from dictAdd_spec [OF assms, of val] obtain ht1 where
    ht1: "dictAdd al ht key val = Inr (if dict_abs canon ht (canon key) = None then DICT_OK else DICT_ERR, ht1)"
    "dict_ok key_ok canon ht1" "ht_type ht1 = type"
    "if dict_abs canon ht (canon key) = None
     then dict_abs canon ht1 = (dict_abs canon ht)(canon key \<mapsto> val) \<and> ht_used ht1 = ht_used ht + 1
     else dict_abs canon ht1 = dict_abs canon ht \<and> ht_used ht1 = ht_used ht \<and> ht_size ht1 \<noteq> 0" by blast
  show ?thesis
  proof (cases "dict_abs canon ht (canon key) = None")
    case True
    with ht1 show ?thesis by (simp add: dictReplace_def)
  next
    case False
    with ht1 have h1: "dict_abs canon ht1 = dict_abs canon ht" "ht_used ht1 = ht_used ht" "ht_size ht1 \<noteq> 0" by auto
    define h where "h = dict_slot type (ht_sizemask ht1) key"
    note h = abs_slot [OF ht1(2,3) key h1(3), folded h_def]
    obtain e p q A B where e: "chain_find type key (ht_table ht1 ! h) = Some e" "canon (fst e) = canon key"
      "ht_table ht1 ! h = p @ e # q" "\<And>v. chain_set type key v (ht_table ht1 ! h) = p @ (fst e, v) # q"
      "concat (ht_table ht1) = A @ p @ e # q @ B" "\<And>c. concat ((ht_table ht1)[h := c]) = A @ c @ B"
      using found_entry [OF ht1(2,3) key h1(3)] False h1(1) unfolding h_def by metis
    let ?c = "p @ (fst e, val) # q"
    let ?ht = "ht1\<lparr>ht_table := (ht_table ht1)[h := ?c], ht_used := ht_used ht1\<rparr>"
    have "dictReplace al ht key val = Inr (0, ?ht)"
      using False ht1(1,3) h(1) h1(3) e(1,4) by (simp add: dictReplace_def dictFind_def Let_def val_stored h_def)
    moreover have old: "distinct (map (canon \<circ> fst) (concat (ht_table ht1)))" "ht_used ht1 = length (concat (ht_table ht1))"
      "ht_used ht1 \<le> ht_size ht1" using ht1(2) by (simp_all add: dict_ok_def)
    have "dict_ok key_ok canon ?ht"
    proof (rule dict_ok_update [OF ht1(2,3) h(1)])
      show "\<forall>e \<in> set ?c. key_ok (fst e) \<and> dict_slot type (ht_sizemask ht1) (fst e) = h"
        using slot_of_mem [OF ht1(2,3) h(1)] unfolding e(3) by auto
    qed (use old in \<open>simp_all add: e(5,6)\<close>)
    moreover have "dict_abs canon ?ht = (dict_abs canon ht1)(canon key \<mapsto> val)"
    proof -
      have "entries_map canon A (canon key) = None" "entries_map canon p (canon key) = None"
        using old(1) unfolding e(5) entries_map_None_iff by (auto simp flip: e(2))
      then show ?thesis by (intro ext) (auto simp: dict_abs_def e(2,5,6) map_add_def split: option.splits)
    qed
    ultimately show ?thesis using False ht1 h1 by (intro exI [of _ ?ht]) simp
  qed
qed

lemma dictDelete_spec:
  assumes ok: "dict_ok key_ok canon ht" and t: "ht_type ht = type" and key: "key_ok key"
  shows "\<exists>ht'. dictDelete ht key = Inr (if dict_abs canon ht (canon key) = None then DICT_ERR else DICT_OK, ht') \<and>
    dict_ok key_ok canon ht' \<and> ht_type ht' = type \<and> dict_abs canon ht' = (dict_abs canon ht)(canon key := None) \<and>
    ht_used ht' \<le> ht_used ht"
proof (cases "ht_size ht = 0")
  case True
  with ok have a: "dict_abs canon ht = Map.empty" by (simp add: dict_ok_def dict_abs_def)
  have "dict_abs canon ht = (dict_abs canon ht)(canon key := None)" unfolding a by simp
  moreover have "dict_abs canon ht (canon key) = None" unfolding a by simp
  ultimately show ?thesis using True ok t by (simp add: dictDelete_def)
next
  case False
  define h where "h = dict_slot type (ht_sizemask ht) key"
  note h = abs_slot [OF ok t key False, folded h_def]
  show ?thesis
  proof (cases "dict_abs canon ht (canon key)")
    case None
    with chain_find_spec [OF key chain_ok [OF ok h(1)]] h(2)
    have "chain_delete type key (ht_table ht ! h) = None" by (intro chain_delete_None) simp
    with None False ok t h(1) show ?thesis
      by (simp add: dictDelete_def Let_def h_def fun_upd_idem)
  next
    case (Some v)
    then obtain e p q A B where e: "canon (fst e) = canon key"
      "ht_table ht ! h = p @ e # q" "chain_delete type key (ht_table ht ! h) = Some (p @ q)"
      "concat (ht_table ht) = A @ p @ e # q @ B" "\<And>c. concat ((ht_table ht)[h := c]) = A @ c @ B"
      using found_entry [OF ok t key False] unfolding h_def by (metis option.distinct(1))
    have old: "distinct (map (canon \<circ> fst) (concat (ht_table ht)))" "ht_used ht = length (concat (ht_table ht))"
      "ht_used ht \<le> ht_size ht" using ok by (simp_all add: dict_ok_def)
    from ok False obtain k where k: "k \<le> 31" "ht_size ht = 2 ^ k" by (auto simp: dict_ok_def)
    have "(2 :: nat) ^ k \<le> 2 ^ 31" using k by (intro power_increasing) auto
    then have u: "size_t (int (ht_used ht) - 1) = ht_used ht - 1"
      using old k unfolding e(4) by (auto intro!: size_t_eq)
    let ?ht = "ht\<lparr>ht_table := (ht_table ht)[h := p @ q], ht_used := ht_used ht - 1\<rparr>"
    have "dictDelete ht key = Inr (DICT_OK, ?ht)"
      using False t h(1) e(3) u by (simp add: dictDelete_def Let_def h_def)
    moreover have "dict_ok key_ok canon ?ht"
    proof (rule dict_ok_update [OF ok t h(1)])
      show "\<forall>e \<in> set (p @ q). key_ok (fst e) \<and> dict_slot type (ht_sizemask ht) (fst e) = h"
        using slot_of_mem [OF ok t h(1)] unfolding e(2) by auto
    qed (use old in \<open>simp_all add: e(4,5)\<close>)
    moreover have "dict_abs canon ?ht = (dict_abs canon ht)(canon key := None)"
    proof -
      have "entries_map canon xs (canon key) = None" if "xs \<in> {A, p, q, B}" for xs
        using old(1) that unfolding e(4) entries_map_None_iff by (auto simp flip: e(1))
      then show ?thesis by (intro ext) (auto simp: dict_abs_def e(1,4,5) map_add_def split: option.splits)
    qed
    ultimately show ?thesis using Some t by (intro exI [of _ ?ht]) simp
  qed
qed

end

section \<open>Iteration\<close>

text \<open>The entries an iterator has still to deliver.\<close>

definition iter_ok :: "('k, 'v) dictIterator \<Rightarrow> bool" where
  "iter_ok iter \<longleftrightarrow> length (ht_table (it_ht iter)) = ht_size (it_ht iter) \<and> ht_size (it_ht iter) \<le> 2147483647 \<and> - 1 \<le> it_index iter"

definition iter_rest :: "('k, 'v) dictIterator \<Rightarrow> ('k, 'v) dictEntry list" where
  "iter_rest iter = (if it_entry iter = [] then [] else it_nextEntry iter) @
     concat (drop (nat (it_index iter + 1)) (ht_table (it_ht iter)))"

lemma dictNext_spec:
  "iter_ok iter \<Longrightarrow> \<exists>iter'. iter_ok iter' \<and>
     dictNext iter = Inr (case iter_rest iter of [] \<Rightarrow> None | e # _ \<Rightarrow> Some e, iter') \<and>
     iter_rest iter' = tl (iter_rest iter)"
proof (induction iter rule: dictNext.induct)
  case (1 iter)
  let ?t = "ht_table (it_ht iter)" and ?i = "nat (it_index iter + 1)"
  have sz: "int32 (int (ht_size (it_ht iter))) = int (length ?t)" and i: "0 \<le> it_index iter + 1"
    using "1.prems" by (auto simp: iter_ok_def)
  show ?case
  proof (cases "it_entry iter = []")
    case False
    show ?thesis
    proof (cases "it_nextEntry iter")
      case Nil
      have "iter_ok (iter\<lparr>it_entry := []\<rparr>)" using "1.prems" by (simp add: iter_ok_def)
      from "1.IH"(2) [OF False Nil this] False Nil show ?thesis
        by (subst dictNext.simps) (simp add: iter_rest_def)
    next
      case (Cons e es)
      let ?it = "iter\<lparr>it_entry := e # es, it_nextEntry := es\<rparr>"
      have "iter_ok ?it" using "1.prems" by (simp add: iter_ok_def)
      then show ?thesis using False Cons
        by (intro exI [of _ ?it]) (simp add: dictNext.simps [of iter] iter_rest_def)
    qed
  next
    case entry: True
    show ?thesis
    proof (cases "?i < length ?t")
      case False
      let ?it = "iter\<lparr>it_index := it_index iter + 1\<rparr>"
      have "dictNext iter = Inr (None, ?it)" "iter_rest iter = []" "iter_rest ?it = []" "iter_ok ?it"
        using entry False sz i "1.prems" by (auto simp: dictNext.simps [of iter] iter_rest_def iter_ok_def Let_def)
      then show ?thesis by (intro exI [of _ ?it]) simp
    next
      case True
      then have d: "drop ?i ?t = ?t ! ?i # drop (nat (it_index iter + 2)) ?t"
        using i Cons_nth_drop_Suc [OF True] by (simp add: Suc_nat_eq_nat_zadd1 add.commute)
      have "\<not> int (length ?t) \<le> it_index iter + 1" using True i by linarith
      note s = entry this sz i True
      show ?thesis
      proof (cases "?t ! ?i")
        case Nil
        let ?it = "iter\<lparr>it_index := it_index iter + 1, it_entry := []\<rparr>"
        have "iter_ok ?it" using "1.prems" by (simp add: iter_ok_def)
        moreover have "dictNext iter = dictNext ?it"
          using s Nil by (subst dictNext.simps) (simp add: Let_def)
        moreover have "iter_rest iter = iter_rest ?it" using s Nil d by (simp add: iter_rest_def add.commute)
        ultimately show ?thesis
          using "1.IH"(1) [of "iter\<lparr>it_index := it_index iter + 1\<rparr>"] s Nil by (simp add: not_le)
      next
        case (Cons e es)
        let ?it = "iter\<lparr>it_index := it_index iter + 1, it_entry := e # es, it_nextEntry := es\<rparr>"
        have "iter_ok ?it" using "1.prems" by (simp add: iter_ok_def)
        moreover have "dictNext iter = Inr (Some e, ?it)"
          using s Cons by (subst dictNext.simps) (simp add: Let_def)
        ultimately show ?thesis using s Cons d by (intro exI [of _ ?it]) (simp add: iter_rest_def add.commute)
      qed
    qed
  qed
qed

text \<open>The loop \<open>while ((de = dictNext(it)) != NULL)\<close>, with fuel; one more round than there are
  entries is enough.\<close>

fun dict_iterate :: "nat \<Rightarrow> ('k, 'v) dictIterator \<Rightarrow> (('k, 'v) dictEntry list option) res" where
  "dict_iterate 0 iter = Inr None"
| "dict_iterate (Suc n) iter =
     bindr (dictNext iter) (\<lambda>(de, iter).
     case de of
       None \<Rightarrow> Inr (Some [])
     | Some e \<Rightarrow> bindr (dict_iterate n iter) (\<lambda>r. Inr (map_option ((#) e) r)))"

lemma dict_iterate_rest:
  "iter_ok iter \<Longrightarrow> length (iter_rest iter) < n \<Longrightarrow> dict_iterate n iter = Inr (Some (iter_rest iter))"
proof (induction n arbitrary: iter)
  case (Suc n)
  from dictNext_spec [OF Suc.prems(1)] obtain iter' where it: "iter_ok iter'"
    "dictNext iter = Inr (case iter_rest iter of [] \<Rightarrow> None | e # _ \<Rightarrow> Some e, iter')"
    "iter_rest iter' = tl (iter_rest iter)" by blast
  then show ?case using Suc.IH [OF it(1)] Suc.prems(2) by (cases "iter_rest iter") auto
qed simp

section \<open>The dictionaries of \<open>async.c\<close>\<close>

text \<open>The type of the channel and pattern dictionaries: string keys compared by their bytes, and
  values copied by \<open>memcpy\<close>.\<close>

definition callbackHash :: "sdshdr \<Rightarrow> 32 word" where
  "callbackHash key = dictGenHashFunction (sh_buf key) (sdslen key)"

definition callbackValDup :: "'v \<Rightarrow> 'v" where
  "callbackValDup src = src"

definition callbackKeyCompare :: "sdshdr \<Rightarrow> sdshdr \<Rightarrow> bool" where
  "callbackKeyCompare key1 key2 =
     (let l1 = int32 (int (sdslen key1)); l2 = int32 (int (sdslen key2)) in
      if l1 \<noteq> l2 then False
      else memcmp (take (nat l1) (sh_buf key1)) (take (nat l1) (sh_buf key2)) = 0)"

definition callbackDict :: "(sdshdr, 'v) dictType" where
  "callbackDict = \<lparr>hashFunction = callbackHash, keyDup = None, valDup = Some callbackValDup,
     keyCompare = Some callbackKeyCompare\<rparr>"

lemma callbackKeyCompare_iff:
  assumes "sds_ok k1" "sds_ok k2"
  shows "callbackKeyCompare k1 k2 \<longleftrightarrow> sds_val k1 = sds_val k2"
proof -
  from assms(1) obtain l f where k1: "sdslen k1 = l" "length (sh_buf k1) = l + f + 1" "l + f \<le> 2147483647"
    "sds_val k1 = take l (sh_buf k1)" "length (sds_val k1) = l" by (rule sds_okE)
  from assms(2) obtain m g where k2: "sdslen k2 = m" "length (sh_buf k2) = m + g + 1" "m + g \<le> 2147483647"
    "sds_val k2 = take m (sh_buf k2)" "length (sds_val k2) = m" by (rule sds_okE)
  have "int32 (int l) = int l" "int32 (int m) = int m" using k1(3) k2(3) by simp_all
  moreover have "sds_val k1 \<noteq> sds_val k2" if "l \<noteq> m" using that k1(5) k2(5) by auto
  ultimately show ?thesis
    using k1 k2 memcmp_eq_0_iff [of "sds_val k1" "sds_val k2"] by (cases "l = m") (auto simp: callbackKeyCompare_def)
qed

lemma callbackHash_val: "sds_ok k \<Longrightarrow> callbackHash k = dictGenHashFunction (sds_val k) (length (sds_val k))"
  by (erule sds_okE) (simp add: callbackHash_def dictGenHashFunction_def)

interpretation cbdict: dict_type_laws callbackDict sds_ok sds_val
  by unfold_locales
    (simp_all add: dictCompareHashKeys_def callbackKeyCompare_iff callbackHash_val callbackDict_def
      dictSetHashKey_def dictSetHashVal_def callbackValDup_def)

section \<open>The interface the clients use\<close>

text \<open>A keyed store whose updates refine map updates as long as it is not full; the state after any
  sequence of updates is the map those updates build.\<close>

datatype ('k, 'v) store_op = Put 'k 'v | Del 'k

fun store_run :: "('s \<Rightarrow> 'k \<Rightarrow> 'v \<Rightarrow> 's res) \<Rightarrow> ('s \<Rightarrow> 'k \<Rightarrow> 's res) \<Rightarrow> 's \<Rightarrow> ('k, 'v) store_op list \<Rightarrow> 's res" where
  "store_run put del s [] = Inr s"
| "store_run put del s (Put k v # ops) = bindr (put s k v) (\<lambda>s. store_run put del s ops)"
| "store_run put del s (Del k # ops) = bindr (del s k) (\<lambda>s. store_run put del s ops)"

fun map_run :: "('k \<Rightarrow> 'c) \<Rightarrow> ('c \<rightharpoonup> 'v) \<Rightarrow> ('k, 'v) store_op list \<Rightarrow> 'c \<rightharpoonup> 'v" where
  "map_run canon m [] = m"
| "map_run canon m (Put k v # ops) = map_run canon (m(canon k \<mapsto> v)) ops"
| "map_run canon m (Del k # ops) = map_run canon (m(canon k := None)) ops"

fun op_key :: "('k, 'v) store_op \<Rightarrow> 'k" where
  "op_key (Put k v) = k"
| "op_key (Del k) = k"

locale keyed_store =
  fixes ok :: "'s \<Rightarrow> bool" and abs :: "'s \<Rightarrow> 'c \<rightharpoonup> 'v" and used :: "'s \<Rightarrow> nat" and cap :: nat
    and key_ok :: "'k \<Rightarrow> bool" and canon :: "'k \<Rightarrow> 'c"
    and put :: "'s \<Rightarrow> 'k \<Rightarrow> 'v \<Rightarrow> 's res" and del :: "'s \<Rightarrow> 'k \<Rightarrow> 's res"
    and get :: "'s \<Rightarrow> 'k \<Rightarrow> ('v option) res"
  assumes put_law: "ok s \<Longrightarrow> key_ok k \<Longrightarrow> used s < cap \<Longrightarrow>
      \<exists>s'. put s k v = Inr s' \<and> ok s' \<and> abs s' = (abs s)(canon k \<mapsto> v) \<and> used s' \<le> used s + 1"
    and del_law: "ok s \<Longrightarrow> key_ok k \<Longrightarrow> \<exists>s'. del s k = Inr s' \<and> ok s' \<and> abs s' = (abs s)(canon k := None) \<and> used s' \<le> used s"
    and get_law: "ok s \<Longrightarrow> key_ok k \<Longrightarrow> get s k = Inr (abs s (canon k))"
begin

lemma run_law:
  "ok s \<Longrightarrow> \<forall>op \<in> set ops. key_ok (op_key op) \<Longrightarrow> used s + length ops \<le> cap \<Longrightarrow>
     \<exists>s'. store_run put del s ops = Inr s' \<and> ok s' \<and> abs s' = map_run canon (abs s) ops"
proof (induction ops arbitrary: s)
  case (Cons op ops)
  show ?case
  proof (cases op)
    case (Put k v)
    with Cons.prems put_law [of s k v] obtain s1 where "put s k v = Inr s1" "ok s1"
      "abs s1 = (abs s)(canon k \<mapsto> v)" "used s1 \<le> used s + 1" by auto
    with Cons.IH [of s1] Cons.prems(2,3) Put show ?thesis by (simp del: fun_upd_apply)
  next
    case (Del k)
    with Cons.prems del_law [of s k] obtain s1 where "del s k = Inr s1" "ok s1"
      "abs s1 = (abs s)(canon k := None)" "used s1 \<le> used s" by auto
    with Cons.IH [of s1] Cons.prems(2,3) Del show ?thesis by (simp del: fun_upd_apply)
  qed
qed simp

lemma run_get:
  "ok s \<Longrightarrow> \<forall>op \<in> set ops. key_ok (op_key op) \<Longrightarrow> used s + length ops \<le> cap \<Longrightarrow> key_ok k \<Longrightarrow>
     bindr (store_run put del s ops) (\<lambda>s. get s k) = Inr (map_run canon (abs s) ops (canon k))"
  using run_law [of s ops] get_law [of _ k] by auto

end

text \<open>The three operations as \<open>async.c\<close> uses them.\<close>

definition cb_put :: "allocator \<Rightarrow> (sdshdr, 'v) dict \<Rightarrow> sdshdr \<Rightarrow> 'v \<Rightarrow> (sdshdr, 'v) dict res" where
  "cb_put al ht key val = bindr (dictReplace al ht key val) (\<lambda>(_, ht). Inr ht)"

definition cb_del :: "(sdshdr, 'v) dict \<Rightarrow> sdshdr \<Rightarrow> (sdshdr, 'v) dict res" where
  "cb_del ht key = bindr (dictDelete ht key) (\<lambda>(_, ht). Inr ht)"

definition cb_get :: "(sdshdr, 'v) dict \<Rightarrow> sdshdr \<Rightarrow> ('v option) res" where
  "cb_get ht key = bindr (dictFind ht key) (\<lambda>de. Inr (map_option snd de))"

definition cb_ok :: "(sdshdr, 'v) dict \<Rightarrow> bool" where
  "cb_ok ht \<longleftrightarrow> dict_ok sds_ok sds_val ht \<and> ht_type ht = callbackDict"

interpretation cbstore: keyed_store "\<lambda>ht. cb_ok ht \<and> \<not> may_fail al" "dict_abs sds_val" ht_used "2 ^ 30" sds_ok sds_val
  "cb_put al" cb_del cb_get for al
proof (unfold_locales, goal_cases)
  case (1 ht k v)
  with cbdict.dictReplace_spec [where ht = ht and key = k and val = v and al = al] show ?case by (auto simp: cb_ok_def cb_put_def)
next
  case (2 ht k)
  with cbdict.dictDelete_spec [where ht = ht and key = k] show ?case by (auto simp: cb_ok_def cb_del_def)
next
  case (3 ht k)
  with cbdict.dictFind_spec [where ht = ht and key = k] show ?case by (auto simp: cb_ok_def cb_get_def)
qed

section \<open>Properties\<close>

text \<open>C15: after any sequence of \<open>dictReplace\<close> and \<open>dictDelete\<close> on a fresh callback dictionary,
  with all the rehashing it causes, \<open>dictFind\<close> returns for every key the value of the finite map
  that the sequence describes; no call fails.\<close>

theorem dict_refines_map:
  assumes "\<not> may_fail al" "length ops \<le> 2 ^ 30" "\<forall>op \<in> set ops. sds_ok (op_key op)" "sds_ok key"
  shows "bindr (store_run (cb_put al) cb_del (dictInit garbage callbackDict) ops) (\<lambda>ht. cb_get ht key) =
    Inr (map_run sds_val Map.empty ops (sds_val key))"
proof -
  have "cb_ok (dictInit garbage callbackDict)" "ht_used (dictInit garbage callbackDict) = 0"
    using dict_ok_empty(1) [of sds_ok sds_val garbage callbackDict] by (simp_all add: cb_ok_def dictInit_def dictReset_def)
  with cbstore.run_get [of "dictInit garbage callbackDict" al ops key] assms show ?thesis
    by (simp add: dict_ok_empty)
qed

theorem dict_refines_map_witness:
  "bindr (store_run (cb_put (fill_alloc NUL)) cb_del (dictInit \<lparr>ht_table = [], ht_type = callbackDict,
       ht_size = 7, ht_sizemask = 9, ht_used = 3\<rparr> callbackDict)
     [Put \<lparr>sh_len = 1, sh_free = 0, sh_buf = ''a'' @ [NUL]\<rparr> (1 :: nat), Put \<lparr>sh_len = 1, sh_free = 2, sh_buf = ''a'' @ replicate 3 NUL\<rparr> 2])
     (\<lambda>ht. cb_get ht \<lparr>sh_len = 1, sh_free = 1, sh_buf = ''a'' @ replicate 2 NUL\<rparr>) = Inr (Some 2)"
  by (subst dict_refines_map) (simp_all add: sds_ok_def sds_layout_def INT_MAX_def sds_val_def)

text \<open>iterating over a table with \<open>dictNext\<close> delivers every entry exactly once, bucket by
  bucket, and then NULL.\<close>

theorem dictNext_delivers_all:
  assumes "dict_ok key_ok canon ht" "ht_size ht \<le> 2147483647" "ht_used ht < n"
  shows "dict_iterate n (dictGetIterator ht) = Inr (Some (concat (ht_table ht)))"
proof -
  have "iter_ok (dictGetIterator ht)" "iter_rest (dictGetIterator ht) = concat (ht_table ht)"
    using assms by (simp_all add: iter_ok_def iter_rest_def dictGetIterator_def dict_ok_def)
  with dict_iterate_rest [of "dictGetIterator ht" n] assms show ?thesis by (simp add: dict_ok_def)
qed

theorem dictNext_delivers_all_witness:
  "dict_iterate 2 (dictGetIterator \<lparr>ht_table = [[], [(1 :: nat, True)], [], []],
     ht_type = \<lparr>hashFunction = of_nat, keyDup = None, valDup = None, keyCompare = None\<rparr>,
     ht_size = 4, ht_sizemask = 3, ht_used = 1\<rparr>) = Inr (Some [(1, True)])"
proof -
  let ?ty = "\<lparr>hashFunction = of_nat, keyDup = None, valDup = None, keyCompare = None\<rparr> :: (nat, bool) dictType"
  let ?ht = "\<lparr>ht_table = [[], [(1 :: nat, True)], [], []], ht_type = ?ty, ht_size = 4, ht_sizemask = 3, ht_used = 1\<rparr>"
  have "placed ?ty 3 (ht_table ?ht)"
    by (auto simp: placed_def dict_slot_def less_Suc_eq)
  then have "dict_ok (\<lambda>_. True) id ?ht"
    unfolding dict_ok_def by (auto intro!: exI [of _ 2])
  from dictNext_delivers_all [OF this, of 2] show ?thesis by simp
qed

text \<open>\<open>_dictNextPower\<close> returns the smallest power of two that is at least 4 and at least the
  requested size, and the doubling never leaves \<open>unsigned long\<close>.\<close>

theorem dictNextPower_least:
  assumes "int n < LONG_MAX"
  shows "\<exists>b \<ge> 2. dictNextPower n = 2 ^ b \<and> n \<le> 2 ^ b \<and> (\<forall>a. 2 \<le> a \<and> n \<le> 2 ^ a \<longrightarrow> b \<le> a) \<and> dictNextPower n \<le> 2 ^ 63"
proof -
  from next_power_loop_spec [of 2 n] obtain b where b: "next_power_loop 4 n = 2 ^ b" "n \<le> 2 ^ b" "2 \<le> b"
    "2 < b \<longrightarrow> 2 ^ (b - 1) < n" by auto
  have least: "b \<le> a" if a: "2 \<le> a" "n \<le> 2 ^ a" for a
  proof (rule ccontr)
    assume "\<not> b \<le> a"
    with a(1) have "a \<le> b - 1" "2 < b" by auto
    then have "(2 :: nat) ^ a \<le> 2 ^ (b - 1)" by (intro power_increasing) auto
    with \<open>2 < b\<close> b(4) a(2) show False by linarith
  qed
  have "n \<le> 2 ^ 63" using assms by (simp add: LONG_MAX_def)
  then have "b \<le> 63" using least [of 63] by simp
  then have "(2 :: nat) ^ b \<le> 2 ^ 63" by (intro power_increasing) auto
  moreover have "dictNextPower n = 2 ^ b" using assms b(1) by (simp add: dictNextPower_def DICT_HT_INITIAL_SIZE_def)
  ultimately show ?thesis using b(2,3) least by (intro exI [of _ b]) simp
qed

theorem dictNextPower_least_witness: "\<exists>b. dictNextPower 5 = 2 ^ b \<and> 5 \<le> (2 :: nat) ^ b \<and> dictNextPower 5 \<le> 2 ^ 63"
  using dictNextPower_least [of 5] by (auto simp: LONG_MAX_def)

end
