(* ===== verification/CallbackList.thy ===== *)
theory CallbackList
  imports Prelude
begin

text \<open>
  The callback lists of \<open>async.c\<close>: singly linked cells in a heap (\<open>None\<close> once freed), with a head and a tail
  pointer.  The lists of a context share the heap, so that the effect of an operation on the other lists is
  part of its specification.  The interface is that of a queue.
\<close>

section \<open>The lists of the code\<close>

text \<open>A function pointer is a number, \<open>None\<close> is NULL.\<close>

record redisCallback =
  cb_fn :: "nat option"
  cb_privdata :: nat

record callback_cell =
  cell_cb :: redisCallback
  cell_next :: "nat option"

type_synonym callback_heap = "callback_cell option list"

record redisCallbackList =
  l_head :: "nat option"
  l_tail :: "nat option"

definition cell_get :: "callback_heap \<Rightarrow> nat \<Rightarrow> callback_cell res" where
  "cell_get h a = bindr (mem_get h a) (\<lambda>x. case x of None \<Rightarrow> Inl OutOfBounds | Some c \<Rightarrow> Inr c)"

definition sizeof_redisCallback :: nat where "sizeof_redisCallback = 24"

text \<open>The result says whether the callback was stored; the code returns \<open>REDIS_ERR_OOM\<close> otherwise.\<close>

definition redisPushCallback :: "allocator \<Rightarrow> redisCallbackList \<Rightarrow> redisCallback \<Rightarrow> callback_heap \<Rightarrow>
    (bool \<times> redisCallbackList \<times> callback_heap) res" where
  "redisPushCallback al lst source h =
     (if al sizeof_redisCallback = None then Inr (False, lst, h)
      else
        let cb = length h;
            h = h @ [Some \<lparr>cell_cb = source, cell_next = None\<rparr>];
            lst = (if l_head lst = None then lst\<lparr>l_head := Some cb\<rparr> else lst)
        in bindr (case l_tail lst of
                    None \<Rightarrow> Inr h
                  | Some t \<Rightarrow> bindr (cell_get h t) (\<lambda>c. Inr (h[t := Some (c\<lparr>cell_next := Some cb\<rparr>)]))) (\<lambda>h.
           Inr (True, lst\<lparr>l_tail := Some cb\<rparr>, h)))"

definition redisShiftCallback :: "redisCallbackList \<Rightarrow> callback_heap \<Rightarrow>
    (redisCallback option \<times> redisCallbackList \<times> callback_heap) res" where
  "redisShiftCallback lst h =
     (case l_head lst of
        None \<Rightarrow> Inr (None, lst, h)
      | Some cb \<Rightarrow>
          bindr (cell_get h cb) (\<lambda>c.
          let lst = lst\<lparr>l_head := cell_next c\<rparr>;
              lst = (if l_tail lst = Some cb then lst\<lparr>l_tail := None\<rparr> else lst)
          in Inr (Some (cell_cb c), lst, h[cb := None])))"

definition empty_callbacks :: redisCallbackList where
  "empty_callbacks = \<lparr>l_head = None, l_tail = None\<rparr>"

section \<open>Abstraction\<close>

text \<open>\<open>linked h p as xs\<close>: from \<open>p\<close> on, the cells at the addresses \<open>as\<close> hold the callbacks \<open>xs\<close> and end in NULL.\<close>

fun linked :: "callback_heap \<Rightarrow> nat option \<Rightarrow> nat list \<Rightarrow> redisCallback list \<Rightarrow> bool" where
  "linked h p [] xs \<longleftrightarrow> p = None \<and> xs = []"
| "linked h p (a # as) xs \<longleftrightarrow>
     p = Some a \<and> a < length h \<and> (\<exists>c ys. h ! a = Some c \<and> xs = cell_cb c # ys \<and> linked h (cell_next c) as ys)"

definition list_at :: "callback_heap \<Rightarrow> redisCallbackList \<Rightarrow> nat list \<Rightarrow> redisCallback list \<Rightarrow> bool" where
  "list_at h lst as xs \<longleftrightarrow> linked h (l_head lst) as xs \<and> distinct as \<and> l_tail lst = (if as = [] then None else Some (last as))"

lemma linked_bound: "linked h p as xs \<Longrightarrow> a \<in> set as \<Longrightarrow> a < length h"
  by (induction as arbitrary: p xs) auto

lemma linked_length: "linked h p as xs \<Longrightarrow> length as = length xs"
  by (induction as arbitrary: p xs) auto

lemma linked_frame:
  "linked h p as xs \<Longrightarrow> (\<And>a. a \<in> set as \<Longrightarrow> a < length h' \<and> h' ! a = h ! a) \<Longrightarrow> linked h' p as xs"
  by (induction as arbitrary: p xs) auto

lemma list_at_frame:
  "list_at h lst as xs \<Longrightarrow> (\<And>a. a \<in> set as \<Longrightarrow> a < length h' \<and> h' ! a = h ! a) \<Longrightarrow> list_at h' lst as xs"
  by (auto simp: list_at_def intro: linked_frame)

lemma list_at_empty [simp]: "list_at h empty_callbacks [] []"
  by (simp add: list_at_def empty_callbacks_def)

text \<open>Appending a cell at the end of a linked list.\<close>

lemma linked_snoc:
  assumes "linked h p as xs" "as \<noteq> []" "distinct as" "n = length h"
  shows "\<exists>c. h ! last as = Some c \<and>
    linked ((h @ [Some \<lparr>cell_cb = x, cell_next = None\<rparr>])[last as := Some (c\<lparr>cell_next := Some n\<rparr>)]) p (as @ [n]) (xs @ [x])"
  using assms
proof (induction as arbitrary: p xs)
  case (Cons a as)
  then obtain c ys where c: "p = Some a" "a < length h" "h ! a = Some c" "xs = cell_cb c # ys" "linked h (cell_next c) as ys" by auto
  show ?case
  proof (cases "as = []")
    case True
    with c Cons.prems(4) show ?thesis by (auto simp: nth_append nth_list_update)
  next
    case False
    from Cons.IH [OF c(5) False] Cons.prems obtain d where d: "h ! last as = Some d"
      "linked ((h @ [Some \<lparr>cell_cb = x, cell_next = None\<rparr>])[last as := Some (d\<lparr>cell_next := Some n\<rparr>)]) (cell_next c) (as @ [n]) (ys @ [x])"
      by auto
    have "last as \<noteq> a" using Cons.prems(3) False last_in_set [of as] by auto
    with c d False show ?thesis by (simp add: nth_append)
  qed
qed simp

lemma push_at:
  assumes l: "list_at h lst as xs" and al: "\<not> may_fail al"
  obtains lst' h' where "redisPushCallback al lst x h = Inr (True, lst', h')" "list_at h' lst' (as @ [length h]) (xs @ [x])"
    "length h' = Suc (length h)" "\<And>a. a < length h \<Longrightarrow> a \<notin> set as \<Longrightarrow> h' ! a = h ! a"
proof (cases "as = []")
  case True
  have al: "al sizeof_redisCallback \<noteq> None" using al by auto
  let ?h = "h @ [Some \<lparr>cell_cb = x, cell_next = None\<rparr>]"
  have "redisPushCallback al lst x h = Inr (True, \<lparr>l_head = Some (length h), l_tail = Some (length h)\<rparr>, ?h)"
    using l True al by (cases lst) (auto simp: redisPushCallback_def list_at_def Let_def)
  then show ?thesis by (rule that) (use l True in \<open>auto simp: list_at_def nth_append\<close>)
next
  case False
  have al: "al sizeof_redisCallback \<noteq> None" using al by auto
  from l False have lk: "linked h (l_head lst) as xs" "distinct as" "l_tail lst = Some (last as)" by (auto simp: list_at_def)
  obtain c where c: "h ! last as = Some c"
    "linked ((h @ [Some \<lparr>cell_cb = x, cell_next = None\<rparr>])[last as := Some (c\<lparr>cell_next := Some (length h)\<rparr>)]) (l_head lst) (as @ [length h]) (xs @ [x])"
    using linked_snoc [OF lk(1) False lk(2) refl, of x] by blast
  let ?h = "(h @ [Some \<lparr>cell_cb = x, cell_next = None\<rparr>])[last as := Some (c\<lparr>cell_next := Some (length h)\<rparr>)]"
  have la: "last as < length h" "last as \<in> set as" using linked_bound [OF lk(1)] False by auto
  have hd: "l_head lst \<noteq> None" using lk(1) False by (cases as) auto
  show ?thesis
  proof (rule that [of "lst\<lparr>l_tail := Some (length h)\<rparr>" ?h])
    show "redisPushCallback al lst x h = Inr (True, lst\<lparr>l_tail := Some (length h)\<rparr>, ?h)"
      using al hd lk(3) c(1) la(1) by (auto simp: redisPushCallback_def cell_get_def nth_append Let_def)
    show "list_at ?h (lst\<lparr>l_tail := Some (length h)\<rparr>) (as @ [length h]) (xs @ [x])"
      using c(2) lk linked_bound [OF lk(1)] by (auto simp: list_at_def)
    show "?h ! a = h ! a" if "a < length h" "a \<notin> set as" for a using that la by (auto simp: nth_append nth_list_update)
  qed simp
qed

lemma shift_at_empty: "list_at h lst [] xs \<Longrightarrow> redisShiftCallback lst h = Inr (None, lst, h)"
  by (simp add: list_at_def redisShiftCallback_def)

lemma shift_at:
  assumes l: "list_at h lst (a # as) xs"
  obtains x ys lst' where "xs = x # ys" "redisShiftCallback lst h = Inr (Some x, lst', h[a := None])" "list_at (h[a := None]) lst' as ys"
proof -
  from l obtain c ys where c: "l_head lst = Some a" "a < length h" "h ! a = Some c" "xs = cell_cb c # ys" "linked h (cell_next c) as ys"
    "a \<notin> set as" "distinct as" "l_tail lst = Some (last (a # as))" by (auto simp: list_at_def)
  let ?l = "\<lparr>l_head = cell_next c, l_tail = if as = [] then None else Some (last as)\<rparr>"
  have "linked (h[a := None]) (cell_next c) as ys"
    using c(5) by (rule linked_frame) (use c(6) linked_bound [OF c(5)] in \<open>auto intro!: nth_list_update_neq\<close>)
  moreover have "last as \<noteq> a" if "as \<noteq> []" using c(6) that last_in_set by metis
  ultimately show ?thesis using that [OF c(4), of ?l] c by (auto simp: redisShiftCallback_def cell_get_def list_at_def)
qed

section \<open>The interface of a queue\<close>

text \<open>What the asynchronous context relies on: callbacks come out in the order in which they were put in.\<close>

datatype 'a queue_op = Enq 'a | Deq

fun queue_run :: "('s \<Rightarrow> 'a \<Rightarrow> 's res) \<Rightarrow> ('s \<Rightarrow> ('a option \<times> 's) res) \<Rightarrow> 's \<Rightarrow> 'a queue_op list \<Rightarrow> ('a option list) res" where
  "queue_run enq deq s [] = Inr []"
| "queue_run enq deq s (Enq x # ops) = bindr (enq s x) (\<lambda>s. queue_run enq deq s ops)"
| "queue_run enq deq s (Deq # ops) = bindr (deq s) (\<lambda>(x, s). bindr (queue_run enq deq s ops) (\<lambda>ys. Inr (x # ys)))"

fun list_run :: "'a list \<Rightarrow> 'a queue_op list \<Rightarrow> 'a option list" where
  "list_run xs [] = []"
| "list_run xs (Enq x # ops) = list_run (xs @ [x]) ops"
| "list_run [] (Deq # ops) = None # list_run [] ops"
| "list_run (x # xs) (Deq # ops) = Some x # list_run xs ops"

locale callback_queue =
  fixes rep :: "'s \<Rightarrow> 'a list \<Rightarrow> bool" and enq :: "'s \<Rightarrow> 'a \<Rightarrow> 's res" and deq :: "'s \<Rightarrow> ('a option \<times> 's) res"
  assumes enq_law: "rep s xs \<Longrightarrow> \<exists>s'. enq s x = Inr s' \<and> rep s' (xs @ [x])"
    and deq_empty_law: "rep s [] \<Longrightarrow> \<exists>s'. deq s = Inr (None, s') \<and> rep s' []"
    and deq_law: "rep s (x # xs) \<Longrightarrow> \<exists>s'. deq s = Inr (Some x, s') \<and> rep s' xs"
begin

lemma run_law: "rep s xs \<Longrightarrow> queue_run enq deq s ops = Inr (list_run xs ops)"
proof (induction xs ops arbitrary: s rule: list_run.induct)
  case (2 xs x ops)
  then show ?case using enq_law [of s xs x] by auto
next
  case (3 ops)
  then show ?case using deq_empty_law [of s] by auto
next
  case (4 x xs ops)
  then show ?case using deq_law [of s x xs] by auto
qed simp

end

definition push_list :: "allocator \<Rightarrow> redisCallbackList \<times> callback_heap \<Rightarrow> redisCallback \<Rightarrow> (redisCallbackList \<times> callback_heap) res" where
  "push_list al = (\<lambda>(lst, h) x. bindr (redisPushCallback al lst x h) (\<lambda>(_, lst, h). Inr (lst, h)))"

definition shift_list :: "redisCallbackList \<times> callback_heap \<Rightarrow> (redisCallback option \<times> redisCallbackList \<times> callback_heap) res" where
  "shift_list = (\<lambda>(lst, h). redisShiftCallback lst h)"

definition list_rep :: "allocator \<Rightarrow> redisCallbackList \<times> callback_heap \<Rightarrow> redisCallback list \<Rightarrow> bool" where
  "list_rep al = (\<lambda>(lst, h) xs. \<not> may_fail al \<and> (\<exists>as. list_at h lst as xs))"

lemma list_at_Nil: "list_at h lst as [] \<Longrightarrow> as = []"
  by (auto simp: list_at_def dest: linked_length)

lemma list_at_Cons: "list_at h lst as (x # xs) \<Longrightarrow> \<exists>a bs. as = a # bs"
  by (cases as) (auto simp: list_at_def)

interpretation cbqueue: callback_queue "list_rep al" "push_list al" shift_list for al
proof (unfold_locales, goal_cases)
  case (1 s xs x)
  obtain lst h where s: "s = (lst, h)" by force
  with 1 obtain as where "list_at h lst as xs" "\<not> may_fail al" by (auto simp: list_rep_def)
  then obtain lst' h' where "redisPushCallback al lst x h = Inr (True, lst', h')" "list_at h' lst' (as @ [length h]) (xs @ [x])"
    by (rule push_at)
  with \<open>\<not> may_fail al\<close> show ?case by (auto simp: s push_list_def list_rep_def)
next
  case (2 s)
  obtain lst h where s: "s = (lst, h)" by force
  with 2 obtain as where l: "list_at h lst as []" "\<not> may_fail al" by (auto simp: list_rep_def)
  then have "list_at h lst [] []" using list_at_Nil by blast
  with shift_at_empty [OF this] l show ?case by (auto simp: s shift_list_def list_rep_def)
next
  case (3 s x xs)
  obtain lst h where s: "s = (lst, h)" by force
  with 3 obtain as where "list_at h lst as (x # xs)" "\<not> may_fail al" by (auto simp: list_rep_def)
  with list_at_Cons obtain a bs where "list_at h lst (a # bs) (x # xs)" by blast
  then show ?case using \<open>\<not> may_fail al\<close> by (elim shift_at) (auto simp: s shift_list_def list_rep_def)
qed

section \<open>Properties\<close>

text \<open>C8: any interleaving of pushing and shifting callbacks, starting from an empty list, behaves as on a queue: callbacks
  are delivered in the order in which they were registered, none twice, and shifting an empty list reports it.\<close>

theorem callbacks_fifo:
  assumes "\<not> may_fail al"
  shows "queue_run (push_list al) shift_list (empty_callbacks, h) ops = Inr (list_run [] ops)"
proof -
  have "list_rep al (empty_callbacks, h) []" using assms by (auto simp: list_rep_def intro: list_at_empty)
  then show ?thesis by (rule cbqueue.run_law)
qed

theorem callbacks_fifo_witness:
  "queue_run (push_list (fill_alloc NUL)) shift_list (empty_callbacks, [])
     [Enq \<lparr>cb_fn = Some 1, cb_privdata = 0\<rparr>, Enq \<lparr>cb_fn = Some 2, cb_privdata = 7\<rparr>, Deq, Deq, Deq] =
   Inr [Some \<lparr>cb_fn = Some 1, cb_privdata = 0\<rparr>, Some \<lparr>cb_fn = Some 2, cb_privdata = 7\<rparr>, None]"
  by (subst callbacks_fifo) simp_all

end
