(* ===== verification/Async.thy ===== *)
theory Async
  imports Net Dict CallbackList
begin

text \<open>
  The asynchronous context \<open>async.c\<close>: commands with callbacks, the processing of replies and of publish/subscribe
  messages, and disconnecting.  A callback is code of the application; it is a parameter \<open>user\<close> that lists the
  calls it makes into the library.  While a callback runs the library only records a request to disconnect or to
  free the context, so that these calls never run another callback.  The event hooks, the connect and the
  disconnect callback only leave a trace in the log.
\<close>

section \<open>State\<close>

datatype event =
    EvAddRead | EvDelRead | EvAddWrite | EvDelWrite | EvCleanup
  | EvCallback nat nat "robj option \<times> reply_heap"     \<comment> \<open>function, private data, reply and the heap it points into\<close>
  | EvConnect nat status
  | EvDisconnect nat status

record redisAsyncContext =
  ac_c :: redisContext
  ac_err :: nat
  ac_errstr :: "string option"
  ev_addRead :: bool
  ev_delRead :: bool
  ev_addWrite :: bool
  ev_delWrite :: bool
  ev_cleanup :: bool
  ac_onDisconnect :: "nat option"
  ac_onConnect :: "nat option"
  ac_replies :: redisCallbackList
  ac_invalid :: redisCallbackList
  ac_channels :: "(sdshdr, redisCallback) dict"
  ac_patterns :: "(sdshdr, redisCallback) dict"

text \<open>What surrounds a context: the heaps, the operating system, and the log.\<close>

record env =
  e_replies :: reply_heap
  e_callbacks :: callback_heap
  e_world :: world
  e_log :: "event list"

type_synonym astate = "redisAsyncContext \<times> env"

text \<open>The calls a callback can make: a command, and the requests to disconnect and to free.\<close>

datatype api_call = ApiCommand "nat option" nat string nat | ApiDisconnect | ApiFree

type_synonym user_code = "nat \<Rightarrow> nat \<Rightarrow> robj option \<Rightarrow> reply_heap \<Rightarrow> api_call list"

abbreviation ac_flags :: "redisAsyncContext \<Rightarrow> ctx_flags" where
  "ac_flags ac \<equiv> c_flags (ac_c ac)"

definition add_flag :: "ctx_flags \<Rightarrow> redisAsyncContext \<Rightarrow> redisAsyncContext" where
  "add_flag fl ac = ac\<lparr>ac_c := (ac_c ac)\<lparr>c_flags := set_flag (ac_flags ac) fl\<rparr>\<rparr>"

definition del_flag :: "ctx_flags \<Rightarrow> redisAsyncContext \<Rightarrow> redisAsyncContext" where
  "del_flag fl ac = ac\<lparr>ac_c := (ac_c ac)\<lparr>c_flags := clear_flag (ac_flags ac) fl\<rparr>\<rparr>"

definition log_if :: "bool \<Rightarrow> event \<Rightarrow> env \<Rightarrow> env" where
  "log_if b ev e = (if b then e\<lparr>e_log := e_log e @ [ev]\<rparr> else e)"

section \<open>Creation\<close>

definition sizeof_redisAsyncContext :: nat where "sizeof_redisAsyncContext = 368"

text \<open>\<open>g1\<close> and \<open>g2\<close> are the memory of the two dictionaries as \<open>malloc\<close> returns it.\<close>

definition redisAsyncInitialize :: "allocator \<Rightarrow> (sdshdr, redisCallback) dict option \<Rightarrow> (sdshdr, redisCallback) dict option \<Rightarrow>
    redisContext \<Rightarrow> (redisAsyncContext option) res" where
  "redisAsyncInitialize al g1 g2 c =
     (if al sizeof_redisAsyncContext = None then Inr None
      else
        bindr (dictCreate g1 callbackDict) (\<lambda>channels.
        bindr (dictCreate g2 callbackDict) (\<lambda>patterns.
        Inr (Some \<lparr>ac_c = c\<lparr>c_flags := clear_flag (c_flags c) REDIS_CONNECTED\<rparr>, ac_err = 0, ac_errstr = None,
          ev_addRead = False, ev_delRead = False, ev_addWrite = False, ev_delWrite = False, ev_cleanup = False,
          ac_onDisconnect = None, ac_onConnect = None, ac_replies = empty_callbacks, ac_invalid = empty_callbacks,
          ac_channels = channels, ac_patterns = patterns\<rparr>))))"

definition redisAsyncCopyError :: "redisAsyncContext \<Rightarrow> redisAsyncContext" where
  "redisAsyncCopyError ac = ac\<lparr>ac_err := c_err (ac_c ac), ac_errstr := Some (c_errstr (ac_c ac))\<rparr>"

type_synonym async_connect = "((redisAsyncContext option \<times> reply_heap \<times> world) option) res"

text \<open>The connect functions: \<open>checked\<close> says whether the results of the inner calls are tested for NULL.  Without the test
  \<open>redisAsyncInitialize\<close> gets a NULL context, and \<open>realloc\<close> returns a new block that it reads uninitialised.\<close>

definition async_connect :: "allocator \<Rightarrow> (sdshdr, redisCallback) dict option \<Rightarrow> (sdshdr, redisCallback) dict option \<Rightarrow> bool \<Rightarrow>
    connect_result \<Rightarrow> async_connect" where
  "async_connect al g1 g2 checked conn =
     bindio conn (\<lambda>(c, h, w).
     case c of
       None \<Rightarrow> if checked \<or> al sizeof_redisAsyncContext = None then Inr (Some (None, h, w)) else Inl OutOfBounds
     | Some c \<Rightarrow>
         bindr (redisAsyncInitialize al g1 g2 c) (\<lambda>ac.
         case ac of
           None \<Rightarrow> if checked then bindr (redisFree c h w) (\<lambda>(h, w). Inr (Some (None, h, w))) else Inr (Some (None, h, w))
         | Some ac \<Rightarrow> Inr (Some (Some (redisAsyncCopyError ac), h, w))))"

definition redisAsyncConnect :: "allocator \<Rightarrow> (sdshdr, redisCallback) dict option \<Rightarrow> (sdshdr, redisCallback) dict option \<Rightarrow>
    string \<Rightarrow> int \<Rightarrow> reply_heap \<Rightarrow> world \<Rightarrow> async_connect" where
  "redisAsyncConnect al g1 g2 ip port h w = async_connect al g1 g2 True (redisConnectNonBlock al ip port h w)"

definition redisAsyncConnectBind :: "allocator \<Rightarrow> (sdshdr, redisCallback) dict option \<Rightarrow> (sdshdr, redisCallback) dict option \<Rightarrow>
    string \<Rightarrow> int \<Rightarrow> string option \<Rightarrow> reply_heap \<Rightarrow> world \<Rightarrow> async_connect" where
  "redisAsyncConnectBind al g1 g2 ip port src h w = async_connect al g1 g2 False (redisConnectBindNonBlock al ip port src h w)"

definition redisAsyncConnectBindWithReuse :: "allocator \<Rightarrow> (sdshdr, redisCallback) dict option \<Rightarrow> (sdshdr, redisCallback) dict option \<Rightarrow>
    string \<Rightarrow> int \<Rightarrow> string option \<Rightarrow> reply_heap \<Rightarrow> world \<Rightarrow> async_connect" where
  "redisAsyncConnectBindWithReuse al g1 g2 ip port src h w =
     async_connect al g1 g2 False (redisConnectBindNonBlockWithReuse al ip port src h w)"

definition redisAsyncConnectUnix :: "allocator \<Rightarrow> (sdshdr, redisCallback) dict option \<Rightarrow> (sdshdr, redisCallback) dict option \<Rightarrow>
    string \<Rightarrow> reply_heap \<Rightarrow> world \<Rightarrow> async_connect" where
  "redisAsyncConnectUnix al g1 g2 path h w = async_connect al g1 g2 True (redisConnectUnixNonBlock al path h w)"

definition redisAsyncSetConnectCallback :: "nat \<Rightarrow> astate \<Rightarrow> status \<times> astate" where
  "redisAsyncSetConnectCallback fn = (\<lambda>(ac, e).
     if ac_onConnect ac = None then (REDIS_OK, ac\<lparr>ac_onConnect := Some fn\<rparr>, log_if (ev_addWrite ac) EvAddWrite e)
     else (REDIS_ERR, ac, e))"

definition redisAsyncSetDisconnectCallback :: "nat \<Rightarrow> astate \<Rightarrow> status \<times> astate" where
  "redisAsyncSetDisconnectCallback fn = (\<lambda>(ac, e).
     if ac_onDisconnect ac = None then (REDIS_OK, ac\<lparr>ac_onDisconnect := Some fn\<rparr>, e) else (REDIS_ERR, ac, e))"

section \<open>Commands\<close>

text \<open>The C library: \<open>strchr\<close> on a string in memory, \<open>strtol\<close> in base 10 (saturating), \<open>strncasecmp\<close> for equality.\<close>

definition find_char :: "string \<Rightarrow> char \<Rightarrow> (string option) res" where
  "find_char s c =
     (if c \<in> set (cstr s) then Inr (Some (dropWhile (\<lambda>x. x \<noteq> c) s))
      else if NUL \<in> set s then Inr None else Inl OutOfBounds)"

definition strtol10 :: "string \<Rightarrow> int" where
  "strtol10 s =
     (let s = dropWhile isspace s;
          neg = (s \<noteq> [] \<and> hd s = CHR ''-'');
          s = (if s \<noteq> [] \<and> (hd s = CHR ''-'' \<or> hd s = CHR ''+'') then tl s else s);
          v = foldl (\<lambda>v c. v * 10 + (int (byte_of c) - 48)) 0 (takeWhile isdigit s)
      in if neg then max (- LONG_MAX - 1) (- v) else min LONG_MAX v)"

definition strncaseeq :: "string \<Rightarrow> string \<Rightarrow> nat \<Rightarrow> bool" where
  "strncaseeq s t n \<longleftrightarrow> map tolower (take n (cstr s)) = map tolower (take n t)"

text \<open>\<open>nextArgument\<close> on the memory from the pointer on: the argument, its length, and the memory after it.  A negative
  length moves the pointer before the buffer.\<close>

definition nextArgument :: "string \<Rightarrow> ((string \<times> nat \<times> string) option) res" where
  "nextArgument start =
     bindr (mem_get start 0) (\<lambda>c.
     bindr (if c \<noteq> CHR ''$'' then find_char start (CHR ''$'') else Inr (Some start)) (\<lambda>p.
     case p of
       None \<Rightarrow> Inr None
     | Some p \<Rightarrow>
         let len = int32 (strtol10 (drop 1 p)) in
         bindr (find_char p CR) (\<lambda>q.
         case q of
           None \<Rightarrow> Inl AssertFailed
         | Some q \<Rightarrow>
             if len < 0 \<or> length q < 2 + nat len + 2 then Inl OutOfBounds
             else Inr (Some (drop 2 q, nat len, drop (2 + nat len + 2) q)))))"

lemma find_char_length: "find_char s c = Inr (Some t) \<Longrightarrow> length t \<le> length s"
  by (auto simp: find_char_def length_dropWhile_le split: if_splits)

lemma nextArgument_length: "nextArgument p = Inr (Some (s, n, q)) \<Longrightarrow> length q < length p"
  by (auto simp: nextArgument_def res_iff Let_def split: if_splits option.splits dest!: find_char_length)

text \<open>The loop that registers the callback for every channel or pattern.\<close>

function subscribe_loop :: "allocator \<Rightarrow> redisCallback \<Rightarrow> string \<Rightarrow> (sdshdr, redisCallback) dict \<Rightarrow> (sdshdr, redisCallback) dict res" where
  "subscribe_loop al cb p d =
     bindr (nextArgument p) (\<lambda>x.
     case x of
       None \<Rightarrow> Inr d
     | Some (astr, alen, q) \<Rightarrow>
         (case sdsnewlen al (Some astr) alen of
            Inl NoMem \<Rightarrow> Inl OutOfBounds
          | Inl e \<Rightarrow> Inl e
          | Inr sname \<Rightarrow> bindr (dictReplace al d sname cb) (\<lambda>(_, d). subscribe_loop al cb q d)))"
  by pat_completeness auto
termination
  by (relation "measure (\<lambda>(al, cb, p, d). length p)") (auto dest: nextArgument_length)

declare subscribe_loop.simps [simp del]

definition push_reply :: "allocator \<Rightarrow> redisCallback \<Rightarrow> astate \<Rightarrow> astate res" where
  "push_reply al cb = (\<lambda>(ac, e).
     bindr (redisPushCallback al (ac_replies ac) cb (e_callbacks e)) (\<lambda>(_, l, h).
     Inr (ac\<lparr>ac_replies := l\<rparr>, e\<lparr>e_callbacks := h\<rparr>)))"

definition push_invalid :: "allocator \<Rightarrow> redisCallback \<Rightarrow> astate \<Rightarrow> astate res" where
  "push_invalid al cb = (\<lambda>(ac, e).
     bindr (redisPushCallback al (ac_invalid ac) cb (e_callbacks e)) (\<lambda>(_, l, h).
     Inr (ac\<lparr>ac_invalid := l\<rparr>, e\<lparr>e_callbacks := h\<rparr>)))"

text \<open>\<open>__redisAsyncCommand\<close>; \<open>cmd\<close> is the memory of the formatted command.  The results of pushing and appending
  are ignored, as in the code.\<close>

definition asyncCommand :: "allocator \<Rightarrow> nat option \<Rightarrow> nat \<Rightarrow> string \<Rightarrow> nat \<Rightarrow> astate \<Rightarrow> (status \<times> astate) res" where
  "asyncCommand al fn privdata cmd len = (\<lambda>(ac, e).
     if has_flag (ac_flags ac) (REDIS_DISCONNECTING OR REDIS_FREEING) then Inr (REDIS_ERR, ac, e)
     else
       let cb = \<lparr>cb_fn = fn, cb_privdata = privdata\<rparr> in
       bindr (nextArgument cmd) (\<lambda>x.
       case x of
         None \<Rightarrow> Inl AssertFailed
       | Some (cs, _, p) \<Rightarrow>
           bindr (mem_get p 0) (\<lambda>p0.
           bindr (mem_get cs 0) (\<lambda>c0.
           let hasnext = (p0 = CHR ''$'');
               pvariant = (tolower c0 = CHR ''p'');
               cs = (if pvariant then drop 1 cs else cs)
           in
           bindr (if hasnext \<and> strncaseeq cs (''subscribe'' @ CRLF) 11 then
                    let ac = add_flag REDIS_SUBSCRIBED ac in
                    bindr (subscribe_loop al cb p (if pvariant then ac_patterns ac else ac_channels ac)) (\<lambda>d.
                    Inr (Some (if pvariant then ac\<lparr>ac_patterns := d\<rparr> else ac\<lparr>ac_channels := d\<rparr>, e)))
                  else if strncaseeq cs (''unsubscribe'' @ CRLF) 13 then
                    Inr (if has_flag (ac_flags ac) REDIS_SUBSCRIBED then Some (ac, e) else None)
                  else if strncaseeq cs (''monitor'' @ CRLF) 9 then
                    bindr (push_reply al cb (add_flag REDIS_MONITORING ac, e)) (\<lambda>s. Inr (Some s))
                  else if has_flag (ac_flags ac) REDIS_SUBSCRIBED then bindr (push_invalid al cb (ac, e)) (\<lambda>s. Inr (Some s))
                  else bindr (push_reply al cb (ac, e)) (\<lambda>s. Inr (Some s))) (\<lambda>r.
           case r of
             None \<Rightarrow> Inr (REDIS_ERR, ac, e)
           | Some (ac, e) \<Rightarrow>
               bindr (redisAppendCmd al (ac_c ac) cmd len (e_world e)) (\<lambda>(_, c).
               Inr (REDIS_OK, ac\<lparr>ac_c := c\<rparr>, log_if (ev_addWrite ac) EvAddWrite e)))))))"

definition redisvAsyncCommand :: "allocator \<Rightarrow> (string \<Rightarrow> 'd va_value \<Rightarrow> string) \<Rightarrow> nat option \<Rightarrow> nat \<Rightarrow> string \<Rightarrow> 'd va_value list \<Rightarrow>
    astate \<Rightarrow> (status \<times> astate) res" where
  "redisvAsyncCommand al pf fn privdata format ap s =
     bindr (redisvFormatCommand al pf True format ap) (\<lambda>(len, cmd).
     if len < 0 then Inr (REDIS_ERR, s)
     else case cmd of None \<Rightarrow> Inl OutOfBounds | Some cmd \<Rightarrow> asyncCommand al fn privdata cmd (size_t len) s)"

definition redisAsyncCommand :: "allocator \<Rightarrow> (string \<Rightarrow> 'd va_value \<Rightarrow> string) \<Rightarrow> nat option \<Rightarrow> nat \<Rightarrow> string \<Rightarrow> 'd va_value list \<Rightarrow>
    astate \<Rightarrow> (status \<times> astate) res" where
  "redisAsyncCommand al pf fn privdata format ap s = redisvAsyncCommand al pf fn privdata format ap s"

text \<open>The length is not tested here: after a failed format the command pointer is undefined.\<close>

definition redisAsyncCommandArgv :: "allocator \<Rightarrow> nat option \<Rightarrow> nat \<Rightarrow> nat \<Rightarrow> string list \<Rightarrow> nat list option \<Rightarrow> astate \<Rightarrow> (status \<times> astate) res" where
  "redisAsyncCommandArgv al fn privdata argc argv argvlen s =
     bindr (redisFormatSdsCommandArgv al True argc argv argvlen) (\<lambda>(len, cmd).
     case cmd of None \<Rightarrow> Inl OutOfBounds | Some cmd \<Rightarrow> asyncCommand al fn privdata (sh_buf cmd) (size_t len) s)"

definition redisAsyncFormattedCommand :: "allocator \<Rightarrow> nat option \<Rightarrow> nat \<Rightarrow> string \<Rightarrow> nat \<Rightarrow> astate \<Rightarrow> (status \<times> astate) res" where
  "redisAsyncFormattedCommand al fn privdata cmd len s = asyncCommand al fn privdata cmd len s"

section \<open>Running callbacks\<close>

text \<open>The calls of a callback: the flag \<open>REDIS_IN_CALLBACK\<close> is set, so that disconnecting and freeing only set theirs.\<close>

definition api_step :: "allocator \<Rightarrow> api_call \<Rightarrow> astate \<Rightarrow> astate res" where
  "api_step al call s =
     (case call of
        ApiCommand fn privdata cmd len \<Rightarrow> bindr (asyncCommand al fn privdata cmd len s) (\<lambda>(_, s). Inr s)
      | ApiDisconnect \<Rightarrow> Inr (add_flag REDIS_DISCONNECTING (fst s), snd s)
      | ApiFree \<Rightarrow> Inr (add_flag REDIS_FREEING (fst s), snd s))"

fun api_run :: "allocator \<Rightarrow> api_call list \<Rightarrow> astate \<Rightarrow> astate res" where
  "api_run al [] s = Inr s"
| "api_run al (call # calls) s = bindr (api_step al call s) (api_run al calls)"

definition redisRunCallback :: "user_code \<Rightarrow> allocator \<Rightarrow> redisCallback \<Rightarrow> robj option \<Rightarrow> astate \<Rightarrow> astate res" where
  "redisRunCallback user al cb reply = (\<lambda>(ac, e).
     case cb_fn cb of
       None \<Rightarrow> Inr (ac, e)
     | Some fn \<Rightarrow>
         bindr (api_run al (user fn (cb_privdata cb) reply (e_replies e))
           (add_flag REDIS_IN_CALLBACK ac, log_if True (EvCallback fn (cb_privdata cb) (reply, e_replies e)) e)) (\<lambda>(ac, e).
         Inr (del_flag REDIS_IN_CALLBACK ac, e)))"

section \<open>Freeing and disconnecting\<close>

text \<open>The loops of \<open>__redisAsyncFree\<close> over the two lists, with fuel: every round frees a cell, so that the number of
  cells, and one more, is enough as long as no callback is pushed.\<close>

fun drain :: "(redisAsyncContext \<Rightarrow> redisCallbackList) \<Rightarrow> (redisCallbackList \<Rightarrow> redisAsyncContext \<Rightarrow> redisAsyncContext) \<Rightarrow>
    nat \<Rightarrow> user_code \<Rightarrow> allocator \<Rightarrow> astate \<Rightarrow> (astate option) res" where
  "drain get put 0 user al s = Inr None"
| "drain get put (Suc n) user al (ac, e) =
     bindr (redisShiftCallback (get ac) (e_callbacks e)) (\<lambda>(cb, l, h).
     case cb of
       None \<Rightarrow> Inr (Some (ac, e))
     | Some cb \<Rightarrow>
         bindr (redisRunCallback user al cb None (put l ac, e\<lparr>e_callbacks := h\<rparr>)) (\<lambda>s. drain get put n user al s))"

definition put_replies :: "redisCallbackList \<Rightarrow> redisAsyncContext \<Rightarrow> redisAsyncContext" where
  "put_replies l ac = ac\<lparr>ac_replies := l\<rparr>"

definition put_invalid :: "redisCallbackList \<Rightarrow> redisAsyncContext \<Rightarrow> redisAsyncContext" where
  "put_invalid l ac = ac\<lparr>ac_invalid := l\<rparr>"

fun run_each :: "user_code \<Rightarrow> allocator \<Rightarrow> redisCallback list \<Rightarrow> astate \<Rightarrow> astate res" where
  "run_each user al [] s = Inr s"
| "run_each user al (cb # cbs) s = bindr (redisRunCallback user al cb None s) (\<lambda>s. run_each user al cbs s)"

text \<open>The callbacks in a dictionary, in the order of the iterator.\<close>

definition dict_callbacks :: "(sdshdr, redisCallback) dict \<Rightarrow> ((redisCallback list) option) res" where
  "dict_callbacks d = bindr (dict_iterate (Suc (ht_used d)) (dictGetIterator d)) (\<lambda>es. Inr (map_option (map snd) es))"

text \<open>\<open>__redisAsyncFree\<close>: what remains is the environment.\<close>

definition asyncFree :: "user_code \<Rightarrow> allocator \<Rightarrow> astate \<Rightarrow> (env option) res" where
  "asyncFree user al = (\<lambda>(ac, e).
     bindio (drain ac_replies put_replies (Suc (length (e_callbacks e))) user al (ac, e)) (\<lambda>(ac, e).
     bindio (drain ac_invalid put_invalid (Suc (length (e_callbacks e))) user al (ac, e)) (\<lambda>(ac, e).
     bindio (dict_callbacks (ac_channels ac)) (\<lambda>cbs.
     bindr (run_each user al cbs (ac, e)) (\<lambda>(ac, e).
     bindio (dict_callbacks (ac_patterns ac)) (\<lambda>cbs.
     bindr (run_each user al cbs (ac, e)) (\<lambda>(ac, e).
     let e = log_if (ev_cleanup ac) EvCleanup e;
         e = (case ac_onDisconnect ac of
                Some fn \<Rightarrow>
                  log_if (has_flag (ac_flags ac) REDIS_CONNECTED)
                    (EvDisconnect fn (if has_flag (ac_flags ac) REDIS_FREEING then REDIS_OK
                                      else if ac_err ac = 0 then REDIS_OK else REDIS_ERR)) e
              | None \<Rightarrow> e)
     in bindr (redisFree (ac_c ac) (e_replies e) (e_world e)) (\<lambda>(h, w).
        Inr (Some (e\<lparr>e_replies := h, e_world := w\<rparr>))))))))))"

text \<open>From here on the context may be gone: \<open>None\<close>.\<close>

type_synonym gstate = "redisAsyncContext option \<times> env"

definition gone :: "(env option) res \<Rightarrow> (gstate option) res" where
  "gone m = bindio m (\<lambda>e. Inr (Some (None, e)))"

definition redisAsyncFree :: "user_code \<Rightarrow> allocator \<Rightarrow> astate \<Rightarrow> (gstate option) res" where
  "redisAsyncFree user al = (\<lambda>(ac, e).
     let ac = add_flag REDIS_FREEING ac in
     if \<not> has_flag (ac_flags ac) REDIS_IN_CALLBACK then gone (asyncFree user al (ac, e)) else Inr (Some (Some ac, e)))"

definition asyncDisconnect :: "user_code \<Rightarrow> allocator \<Rightarrow> astate \<Rightarrow> (gstate option) res" where
  "asyncDisconnect user al = (\<lambda>(ac, e).
     let ac = redisAsyncCopyError ac in
     if ac_err ac = 0 then
       bindr (redisShiftCallback (ac_replies ac) (e_callbacks e)) (\<lambda>(cb, l, h).
       bindr (check AssertFailed (cb = None)) (\<lambda>_. gone (asyncFree user al (ac, e))))
     else gone (asyncFree user al (add_flag REDIS_DISCONNECTING ac, e)))"

definition redisAsyncDisconnect :: "user_code \<Rightarrow> allocator \<Rightarrow> astate \<Rightarrow> (gstate option) res" where
  "redisAsyncDisconnect user al = (\<lambda>(ac, e).
     let ac = add_flag REDIS_DISCONNECTING ac in
     if \<not> has_flag (ac_flags ac) REDIS_IN_CALLBACK \<and> l_head (ac_replies ac) = None then asyncDisconnect user al (ac, e)
     else Inr (Some (Some ac, e)))"

section \<open>Processing replies\<close>

definition elem :: "reply_heap \<Rightarrow> redisReply \<Rightarrow> nat \<Rightarrow> redisReply res" where
  "elem h r i =
     bindr (mem_get (rp_element r) i) (\<lambda>a. case a of None \<Rightarrow> Inl OutOfBounds | Some a \<Rightarrow> heap_get h a)"

definition str_of :: "redisReply \<Rightarrow> string res" where
  "str_of r = (case rp_str r of None \<Rightarrow> Inl OutOfBounds | Some s \<Rightarrow> Inr s)"

text \<open>\<open>__redisGetSubscribeCallback\<close>: the callback for a message, with the old value of \<open>dstcb\<close> when none is found.\<close>

definition redisGetSubscribeCallback :: "allocator \<Rightarrow> addr \<Rightarrow> redisCallback \<Rightarrow> astate \<Rightarrow> (redisCallback \<times> astate) res" where
  "redisGetSubscribeCallback al reply dstcb = (\<lambda>(ac, e).
     let h = e_replies e in
     bindr (heap_get h reply) (\<lambda>r.
     if rp_type r = REDIS_REPLY_ARRAY then
       bindr (check AssertFailed (2 \<le> rp_elements r)) (\<lambda>_.
       bindr (elem h r 0) (\<lambda>e0.
       bindr (check AssertFailed (rp_type e0 = REDIS_REPLY_STRING)) (\<lambda>_.
       bindr (str_of e0) (\<lambda>stype.
       bindr (mem_get stype 0) (\<lambda>s0.
       let pvariant = (tolower s0 = CHR ''p'');
           callbacks = (if pvariant then ac_patterns ac else ac_channels ac)
       in
       bindr (elem h r 1) (\<lambda>e1.
       bindr (check AssertFailed (rp_type e1 = REDIS_REPLY_STRING)) (\<lambda>_.
       bindr (str_of e1) (\<lambda>s1.
       bindr (case sdsnewlen al (Some s1) (size_t (rp_len e1)) of Inl NoMem \<Rightarrow> Inl OutOfBounds | Inl f \<Rightarrow> Inl f | Inr s \<Rightarrow> Inr s) (\<lambda>sname.
       bindr (dictFind callbacks sname) (\<lambda>de.
       case de of
         None \<Rightarrow> Inr (dstcb, ac, e)
       | Some de \<Rightarrow>
           if map tolower (cstr (drop (if pvariant then 1 else 0) stype)) = ''unsubscribe'' then
             bindr (dictDelete callbacks sname) (\<lambda>(_, d).
             let ac = (if pvariant then ac\<lparr>ac_patterns := d\<rparr> else ac\<lparr>ac_channels := d\<rparr>) in
             bindr (elem h r 2) (\<lambda>e2.
             bindr (check AssertFailed (rp_type e2 = REDIS_REPLY_INTEGER)) (\<lambda>_.
             Inr (snd de, if rp_integer e2 = 0 then del_flag REDIS_SUBSCRIBED ac else ac, e))))
           else Inr (snd de, ac, e)))))))))))
     else
       bindr (redisShiftCallback (ac_invalid ac) (e_callbacks e)) (\<lambda>(cb, l, hc).
       Inr (case cb of None \<Rightarrow> dstcb | Some cb \<Rightarrow> cb, ac\<lparr>ac_invalid := l\<rparr>, e\<lparr>e_callbacks := hc\<rparr>))))"

definition free_object :: "redisAsyncContext \<Rightarrow> robj \<Rightarrow> env \<Rightarrow> env res" where
  "free_object ac reply e =
     (case c_reader (ac_c ac) of
        None \<Rightarrow> Inl OutOfBounds
      | Some r \<Rightarrow>
          (case freeObject (r_fn r) of
             None \<Rightarrow> Inl OutOfBounds
           | Some f \<Rightarrow> bindr (f (Some reply) (e_replies e)) (\<lambda>h. Inr (e\<lparr>e_replies := h\<rparr>))))"

definition robj_addr :: "robj \<Rightarrow> addr res" where
  "robj_addr o1 = (case o1 of ObjAddr a \<Rightarrow> Inr a | ObjTag _ \<Rightarrow> Inl OutOfBounds)"

text \<open>Finding the callback of a reply: the pending one, else that of a message.  \<open>None\<close> is the spontaneous error reply
  that ends the connection.\<close>

definition find_callback :: "allocator \<Rightarrow> robj \<Rightarrow> redisCallback \<Rightarrow> astate \<Rightarrow> (redisCallback option \<times> astate) res" where
  "find_callback al reply cb = (\<lambda>(ac, e).
     bindr (redisShiftCallback (ac_replies ac) (e_callbacks e)) (\<lambda>(x, l, hc).
     let ac = ac\<lparr>ac_replies := l\<rparr>; e = e\<lparr>e_callbacks := hc\<rparr> in
     case x of
       Some cb \<Rightarrow> Inr (Some cb, ac, e)
     | None \<Rightarrow>
         bindr (robj_addr reply) (\<lambda>a.
         bindr (heap_get (e_replies e) a) (\<lambda>r.
         if rp_type r = REDIS_REPLY_ERROR then
           bindr (str_of r) (\<lambda>s.
           let c = (ac_c ac)\<lparr>c_err := REDIS_ERR_OTHER, c_errstr := take 127 (cstr s)\<rparr> in
           bindr (free_object ac reply e) (\<lambda>e. Inr (None, ac\<lparr>ac_c := c\<rparr>, e)))
         else
           bindr (check AssertFailed (has_flag (ac_flags ac) REDIS_SUBSCRIBED \<or> has_flag (ac_flags ac) REDIS_MONITORING)) (\<lambda>_.
           if has_flag (ac_flags ac) REDIS_SUBSCRIBED then
             bindr (redisGetSubscribeCallback al a cb (ac, e)) (\<lambda>(cb, s). Inr (Some cb, s))
           else Inr (Some cb, ac, e))))))"

text \<open>The loop of \<open>redisProcessCallbacks\<close>, with fuel: every reply takes bytes from the buffer of the reader.\<close>

fun process_loop :: "nat \<Rightarrow> user_code \<Rightarrow> allocator \<Rightarrow> redisCallback \<Rightarrow> astate \<Rightarrow> (gstate option) res" where
  "process_loop 0 user al cb s = Inr None"
| "process_loop (Suc n) user al cb (ac, e) =
     bindio (redisGetReply al (ac_c ac) (e_replies e) (e_world e)) (\<lambda>(st, reply, c, h, w).
     let ac = ac\<lparr>ac_c := c\<rparr>; e = e\<lparr>e_replies := h, e_world := w\<rparr> in
     if st \<noteq> REDIS_OK then asyncDisconnect user al (ac, e)
     else case reply of
       None \<Rightarrow>
         (case c_obuf c of
            None \<Rightarrow> Inl OutOfBounds
          | Some obuf \<Rightarrow>
              if has_flag (ac_flags ac) REDIS_DISCONNECTING \<and> sdslen obuf = 0 \<and> l_head (ac_replies ac) = None
              then asyncDisconnect user al (ac, e)
              else if has_flag (ac_flags ac) REDIS_MONITORING then bindr (push_reply al cb (ac, e)) (\<lambda>(ac, e). Inr (Some (Some ac, e)))
              else Inr (Some (Some ac, e)))
     | Some reply \<Rightarrow>
         bindr (find_callback al reply cb (ac, e)) (\<lambda>(x, ac, e).
         case x of
           None \<Rightarrow> asyncDisconnect user al (ac, e)
         | Some cb \<Rightarrow>
             if cb_fn cb \<noteq> None then
               bindr (redisRunCallback user al cb (Some reply) (ac, e)) (\<lambda>(ac, e).
               bindr (free_object ac reply e) (\<lambda>e.
               if has_flag (ac_flags ac) REDIS_FREEING then gone (asyncFree user al (ac, e))
               else process_loop n user al cb (ac, e)))
             else bindr (free_object ac reply e) (\<lambda>e. process_loop n user al cb (ac, e))))"

definition null_callback :: redisCallback where "null_callback = \<lparr>cb_fn = None, cb_privdata = 0\<rparr>"

definition unread :: "redisContext \<Rightarrow> nat" where
  "unread c = (case c_reader c of None \<Rightarrow> 0 | Some r \<Rightarrow> r_len r - r_pos r)"

definition redisProcessCallbacks :: "user_code \<Rightarrow> allocator \<Rightarrow> astate \<Rightarrow> (gstate option) res" where
  "redisProcessCallbacks user al = (\<lambda>(ac, e). process_loop (Suc (unread (ac_c ac))) user al null_callback (ac, e))"

section \<open>Events\<close>

text \<open>\<open>__redisAsyncHandleConnect\<close>: whether the caller goes on, and the state (\<open>None\<close> when the context is gone).\<close>

definition asyncHandleConnect :: "user_code \<Rightarrow> allocator \<Rightarrow> astate \<Rightarrow> ((status \<times> gstate) option) res" where
  "asyncHandleConnect user al = (\<lambda>(ac, e).
     bindio (redisCheckSocketError (ac_c ac) (e_world e)) (\<lambda>(st, c, w).
     let ac = ac\<lparr>ac_c := c\<rparr>; e = e\<lparr>e_world := w\<rparr> in
     if st = REDIS_ERR then
       if w_errno w = EINPROGRESS then Inr (Some (REDIS_OK, Some ac, e))
       else
         let e = (case ac_onConnect ac of Some fn \<Rightarrow> log_if True (EvConnect fn REDIS_ERR) e | None \<Rightarrow> e) in
         bindio (asyncDisconnect user al (ac, e)) (\<lambda>s. Inr (Some (REDIS_ERR, s)))
     else
       let ac = add_flag REDIS_CONNECTED ac;
           e = (case ac_onConnect ac of Some fn \<Rightarrow> log_if True (EvConnect fn REDIS_OK) e | None \<Rightarrow> e)
       in Inr (Some (REDIS_OK, Some ac, e))))"

text \<open>The prologue of the two handlers: \<open>Inl\<close> when the handler returns at once.\<close>

definition when_connected :: "user_code \<Rightarrow> allocator \<Rightarrow> astate \<Rightarrow> ((gstate + astate) option) res" where
  "when_connected user al = (\<lambda>(ac, e).
     if \<not> has_flag (ac_flags ac) REDIS_CONNECTED then
       bindio (asyncHandleConnect user al (ac, e)) (\<lambda>(st, g, e).
       if st \<noteq> REDIS_OK then Inr (Some (Inl (g, e)))
       else case g of
         None \<Rightarrow> Inr (Some (Inl (None, e)))
       | Some ac \<Rightarrow> if \<not> has_flag (ac_flags ac) REDIS_CONNECTED then Inr (Some (Inl (Some ac, e))) else Inr (Some (Inr (ac, e))))
     else Inr (Some (Inr (ac, e))))"

definition redisAsyncHandleRead :: "user_code \<Rightarrow> allocator \<Rightarrow> astate \<Rightarrow> (gstate option) res" where
  "redisAsyncHandleRead user al s =
     bindio (when_connected user al s) (\<lambda>x.
     case x of
       Inl g \<Rightarrow> Inr (Some g)
     | Inr (ac, e) \<Rightarrow>
         bindio (redisBufferRead al (ac_c ac) (e_replies e) (e_world e)) (\<lambda>(st, c, h, w).
         let ac = ac\<lparr>ac_c := c\<rparr>; e = e\<lparr>e_replies := h, e_world := w\<rparr> in
         if st = REDIS_ERR then asyncDisconnect user al (ac, e)
         else redisProcessCallbacks user al (ac, log_if (ev_addRead ac) EvAddRead e)))"

definition redisAsyncHandleWrite :: "user_code \<Rightarrow> allocator \<Rightarrow> astate \<Rightarrow> (gstate option) res" where
  "redisAsyncHandleWrite user al s =
     bindio (when_connected user al s) (\<lambda>x.
     case x of
       Inl g \<Rightarrow> Inr (Some g)
     | Inr (ac, e) \<Rightarrow>
         bindio (redisBufferWrite al (ac_c ac) (e_world e)) (\<lambda>(st, dn, c, w).
         let ac = ac\<lparr>ac_c := c\<rparr>; e = e\<lparr>e_world := w\<rparr> in
         if st = REDIS_ERR then asyncDisconnect user al (ac, e)
         else
           let e = (if \<not> dn then log_if (ev_addWrite ac) EvAddWrite e else log_if (ev_delWrite ac) EvDelWrite e) in
           Inr (Some (Some ac, log_if (ev_addRead ac) EvAddRead e))))"

end
