(* ===== verification/AsyncProps.thy ===== *)
theory AsyncProps
  imports Async
begin

text \<open>
  What the asynchronous context guarantees when it is closed: every pending callback is run exactly once, whatever the
  callbacks do.
\<close>

section \<open>Closing\<close>

abbreviation closing :: "redisAsyncContext \<Rightarrow> bool" where
  "closing ac \<equiv> has_flag (ac_flags ac) (REDIS_DISCONNECTING OR REDIS_FREEING)"

definition with_flags :: "ctx_flags \<Rightarrow> redisAsyncContext \<Rightarrow> redisAsyncContext" where
  "with_flags fl ac = ac\<lparr>ac_c := (ac_c ac)\<lparr>c_flags := fl\<rparr>\<rparr>"

lemma with_flags_simps [simp]:
  "ac_flags (with_flags fl ac) = fl" "with_flags fl (with_flags fl' ac) = with_flags fl ac" "with_flags (ac_flags ac) ac = ac"
  "ac_replies (with_flags fl ac) = ac_replies ac" "ac_invalid (with_flags fl ac) = ac_invalid ac"
  "ac_channels (with_flags fl ac) = ac_channels ac" "ac_patterns (with_flags fl ac) = ac_patterns ac"
  "ac_onDisconnect (with_flags fl ac) = ac_onDisconnect ac" "ev_cleanup (with_flags fl ac) = ev_cleanup ac"
  "ac_err (with_flags fl ac) = ac_err ac" "c_fd (ac_c (with_flags fl ac)) = c_fd (ac_c ac)"
  "c_reader (ac_c (with_flags fl ac)) = c_reader (ac_c ac)"
  "put_replies l (with_flags fl ac) = with_flags fl (put_replies l ac)"
  "put_invalid l (with_flags fl ac) = with_flags fl (put_invalid l ac)"
  by (simp_all add: with_flags_def put_replies_def put_invalid_def)

lemma flag_updates: "add_flag b ac = with_flags (set_flag (ac_flags ac) b) ac" "del_flag b ac = with_flags (clear_flag (ac_flags ac) b) ac"
  by (simp_all add: add_flag_def del_flag_def with_flags_def)

text \<open>While a connection closes, callbacks can change nothing but the flags that say so.\<close>

definition reflagged :: "redisAsyncContext \<Rightarrow> redisAsyncContext \<Rightarrow> bool" where
  "reflagged ac ac' \<longleftrightarrow> (\<exists>fl. ac' = with_flags fl ac) \<and> closing ac' \<and>
     (has_flag (ac_flags ac') REDIS_CONNECTED \<longleftrightarrow> has_flag (ac_flags ac) REDIS_CONNECTED) \<and>
     (has_flag (ac_flags ac) REDIS_FREEING \<longrightarrow> has_flag (ac_flags ac') REDIS_FREEING)"

lemma reflagged_refl: "closing ac \<Longrightarrow> reflagged ac ac"
  unfolding reflagged_def by (intro conjI exI [of _ "ac_flags ac"]) simp_all

lemma reflagged_trans: "reflagged a b \<Longrightarrow> reflagged b c \<Longrightarrow> reflagged a c"
  by (auto simp: reflagged_def)

lemma reflagged_sel:
  assumes "reflagged ac ac'"
  shows "closing ac'" "ac_replies ac' = ac_replies ac" "ac_invalid ac' = ac_invalid ac" "ac_channels ac' = ac_channels ac"
    "ac_patterns ac' = ac_patterns ac" "ac_onDisconnect ac' = ac_onDisconnect ac" "ev_cleanup ac' = ev_cleanup ac"
    "ac_err ac' = ac_err ac" "c_fd (ac_c ac') = c_fd (ac_c ac)" "c_reader (ac_c ac') = c_reader (ac_c ac)"
    "has_flag (ac_flags ac') REDIS_CONNECTED \<longleftrightarrow> has_flag (ac_flags ac) REDIS_CONNECTED"
    "has_flag (ac_flags ac) REDIS_FREEING \<Longrightarrow> has_flag (ac_flags ac') REDIS_FREEING"
  using assms by (auto simp: reflagged_def)

lemma reflagged_add:
  "closing ac \<Longrightarrow> fl = REDIS_DISCONNECTING \<or> fl = REDIS_FREEING \<or> fl = REDIS_IN_CALLBACK \<Longrightarrow> reflagged ac (add_flag fl ac)"
  unfolding reflagged_def flag_updates by (auto simp: flag_simps)

lemma reflagged_del: "closing ac \<Longrightarrow> reflagged ac (del_flag REDIS_IN_CALLBACK ac)"
  unfolding reflagged_def flag_updates by (auto simp: flag_simps)

lemma api_run_closing: "closing ac \<Longrightarrow> \<exists>ac'. api_run al calls (ac, e) = Inr (ac', e) \<and> reflagged ac ac'"
proof (induction calls arbitrary: ac)
  case Nil
  then show ?case by (auto intro: reflagged_refl)
next
  case (Cons call calls)
  have "\<exists>ac1. api_step al call (ac, e) = Inr (ac1, e) \<and> reflagged ac ac1"
    using Cons.prems reflagged_refl [of ac] reflagged_add [of ac] by (cases call) (auto simp: api_step_def asyncCommand_def)
  then obtain ac1 where s: "api_step al call (ac, e) = Inr (ac1, e)" "reflagged ac ac1" by blast
  from Cons.IH [OF reflagged_sel(1) [OF s(2)]] obtain ac2 where "api_run al calls (ac1, e) = Inr (ac2, e)" "reflagged ac1 ac2" by blast
  with s show ?case by (auto intro: reflagged_trans)
qed

text \<open>The event of a callback that is run, if it is not NULL.\<close>

definition callback_event :: "robj option \<times> reply_heap \<Rightarrow> redisCallback \<Rightarrow> event list" where
  "callback_event reply cb = (case cb_fn cb of None \<Rightarrow> [] | Some fn \<Rightarrow> [EvCallback fn (cb_privdata cb) reply])"

lemma run_callback_closing:
  assumes "closing ac"
  obtains ac' where "redisRunCallback user al cb reply (ac, e) =
      Inr (ac', e\<lparr>e_log := e_log e @ callback_event (reply, e_replies e) cb\<rparr>)" "reflagged ac ac'"
proof (cases "cb_fn cb")
  case None
  with that [of ac] reflagged_refl [OF assms] show ?thesis by (simp add: redisRunCallback_def callback_event_def)
next
  case (Some fn)
  let ?ac = "add_flag REDIS_IN_CALLBACK ac" and ?e = "log_if True (EvCallback fn (cb_privdata cb) (reply, e_replies e)) e"
  have r: "reflagged ac ?ac" using assms by (rule reflagged_add) simp
  obtain ac1 where a: "api_run al (user fn (cb_privdata cb) reply (e_replies e)) (?ac, ?e) = Inr (ac1, ?e)" "reflagged ?ac ac1"
    using api_run_closing [OF reflagged_sel(1) [OF r]] by blast
  show ?thesis
  proof (rule that)
    show "redisRunCallback user al cb reply (ac, e) =
        Inr (del_flag REDIS_IN_CALLBACK ac1, e\<lparr>e_log := e_log e @ callback_event (reply, e_replies e) cb\<rparr>)"
      using Some a(1) by (simp add: redisRunCallback_def callback_event_def log_if_def)
    show "reflagged ac (del_flag REDIS_IN_CALLBACK ac1)"
      using r a(2) reflagged_del [OF reflagged_sel(1) [OF a(2)]] by (blast intro: reflagged_trans)
  qed
qed

lemma run_each_closing:
  "closing ac \<Longrightarrow> \<exists>ac'. run_each user al cbs (ac, e) =
     Inr (ac', e\<lparr>e_log := e_log e @ concat (map (callback_event (None, e_replies e)) cbs)\<rparr>) \<and> reflagged ac ac'"
proof (induction cbs arbitrary: ac e)
  case Nil
  then show ?case by (auto intro: reflagged_refl)
next
  case (Cons cb cbs)
  let ?e = "e\<lparr>e_log := e_log e @ callback_event (None, e_replies e) cb\<rparr>"
  obtain ac1 where s: "redisRunCallback user al cb None (ac, e) = Inr (ac1, ?e)" "reflagged ac ac1"
    using Cons.prems by (rule run_callback_closing)
  from Cons.IH [OF reflagged_sel(1) [OF s(2)], of ?e] s show ?case by (auto intro: reflagged_trans)
qed

text \<open>Two states of the callback heap that differ only in cells of the list \<open>as\<close>, which have been freed.\<close>

definition freed :: "callback_heap \<Rightarrow> nat list \<Rightarrow> callback_heap \<Rightarrow> bool" where
  "freed h as h' \<longleftrightarrow> length h' = length h \<and> (\<forall>a < length h. h' ! a = (if a \<in> set as then None else h ! a))"

lemma freed_Cons:
  assumes "freed (h[a := None]) as h'" "a < length h"
  shows "freed h (a # as) h'"
  using assms by (auto simp: freed_def nth_list_update)

lemma freed_list_at:
  assumes "freed h as h'" "list_at h lst bs xs" "set as \<inter> set bs = {}"
  shows "list_at h' lst bs xs"
proof (rule list_at_frame [OF assms(2)])
  fix a assume "a \<in> set bs"
  moreover from this have "a < length h" using assms(2) linked_bound by (auto simp: list_at_def)
  ultimately show "a < length h' \<and> h' ! a = h ! a" using assms(1,3) by (auto simp: freed_def)
qed

text \<open>Access to one of the two lists of a context.\<close>

definition list_access :: "(redisAsyncContext \<Rightarrow> redisCallbackList) \<Rightarrow> (redisCallbackList \<Rightarrow> redisAsyncContext \<Rightarrow> redisAsyncContext) \<Rightarrow> bool" where
  "list_access get put \<longleftrightarrow> (\<forall>ac l. get (put l ac) = l \<and> put (get ac) ac = ac \<and> ac_c (put l ac) = ac_c ac) \<and>
     (\<forall>ac l l'. put l (put l' ac) = put l ac) \<and> (\<forall>ac fl. get (with_flags fl ac) = get ac) \<and>
     (\<forall>ac fl l. put l (with_flags fl ac) = with_flags fl (put l ac))"

lemma list_access_replies: "list_access ac_replies put_replies"
  by (simp add: list_access_def) (simp add: put_replies_def)

lemma list_access_invalid: "list_access ac_invalid put_invalid"
  by (simp add: list_access_def) (simp add: put_invalid_def)

lemma list_access_laws:
  assumes "list_access get put"
  shows "get (put l ac) = l" "put (get ac) ac = ac" "ac_c (put l ac) = ac_c ac" "put l (put l' ac) = put l ac"
    "reflagged ac ac' \<Longrightarrow> get ac' = get ac" "reflagged ac ac' \<Longrightarrow> reflagged (put l ac) (put l ac')"
  using assms by (auto simp: list_access_def reflagged_def)

lemma drain_closing:
  assumes la: "list_access get put"
  shows "closing ac \<Longrightarrow> list_at (e_callbacks e) (get ac) as xs \<Longrightarrow> length as < n \<Longrightarrow>
    \<exists>ac' h l. drain get put n user al (ac, e) =
      Inr (Some (ac', e\<lparr>e_callbacks := h, e_log := e_log e @ concat (map (callback_event (None, e_replies e)) xs)\<rparr>)) \<and>
    freed (e_callbacks e) as h \<and> reflagged (put l ac) ac'"
proof (induction n arbitrary: ac e as xs)
  case (Suc n)
  show ?case
  proof (cases as)
    case Nil
    then have x: "xs = []" "list_at (e_callbacks e) (get ac) [] []" using Suc.prems(2) by (auto simp: list_at_def)
    have "reflagged (put (get ac) ac) ac" using reflagged_refl [OF Suc.prems(1)] by (simp only: list_access_laws(2) [OF la])
    moreover have "drain get put (Suc n) user al (ac, e) = Inr (Some (ac, e))" using shift_at_empty [OF x(2)] by simp
    moreover have "freed (e_callbacks e) as (e_callbacks e)" by (simp add: Nil freed_def)
    ultimately show ?thesis using x(1) by (intro exI [of _ ac] exI [of _ "e_callbacks e"] exI [of _ "get ac"]) simp
  next
    case (Cons a bs)
    obtain x ys lst where sh: "xs = x # ys" "redisShiftCallback (get ac) (e_callbacks e) = Inr (Some x, lst, (e_callbacks e)[a := None])"
      "list_at ((e_callbacks e)[a := None]) lst bs ys" using Suc.prems(2) unfolding Cons by (rule shift_at)
    have a: "a < length (e_callbacks e)" using Suc.prems(2) by (simp add: Cons list_at_def)
    let ?ac = "put lst ac" and ?e = "e\<lparr>e_callbacks := (e_callbacks e)[a := None]\<rparr>"
    have "closing ?ac" using Suc.prems(1) by (simp only: list_access_laws(3) [OF la])
    then obtain ac1 where r: "redisRunCallback user al x None (?ac, ?e) =
        Inr (ac1, ?e\<lparr>e_log := e_log ?e @ callback_event (None, e_replies ?e) x\<rparr>)" "reflagged ?ac ac1" by (rule run_callback_closing)
    let ?e1 = "?e\<lparr>e_log := e_log ?e @ callback_event (None, e_replies ?e) x\<rparr>"
    have "get ac1 = lst" using list_access_laws(5) [OF la r(2)] by (simp only: list_access_laws(1) [OF la])
    with Suc.IH [OF reflagged_sel(1) [OF r(2)], of ?e1 bs ys] Suc.prems(3) sh(3) obtain ac2 h l where d:
      "drain get put n user al (ac1, ?e1) = Inr (Some (ac2, ?e1\<lparr>e_callbacks := h, e_log := e_log ?e1 @ concat (map (callback_event (None, e_replies ?e1)) ys)\<rparr>))"
      "freed (e_callbacks ?e1) bs h" "reflagged (put l ac1) ac2" by (auto simp: Cons)
    have "reflagged (put l ac) (put l ac1)" using list_access_laws(6) [OF la r(2), of l] by (simp only: list_access_laws(4) [OF la])
    then have "reflagged (put l ac) ac2" using d(3) by (rule reflagged_trans)
    moreover have "freed (e_callbacks e) (a # bs) h" using d(2) a by (intro freed_Cons) simp_all
    ultimately show ?thesis using sh(1,2) r(1) d(1) by (auto simp: Cons)
  qed
qed simp

declare drain.simps [simp del]

lemma dict_callbacks_all:
  assumes "cb_ok d" "ht_size d \<le> 2147483647"
  shows "dict_callbacks d = Inr (Some (map snd (concat (ht_table d))))"
proof -
  have "iter_ok (dictGetIterator d)" "iter_rest (dictGetIterator d) = concat (ht_table d)" "ht_used d = length (concat (ht_table d))"
    using assms by (simp_all add: iter_ok_def iter_rest_def dictGetIterator_def dict_ok_def cb_ok_def)
  with dict_iterate_rest [of "dictGetIterator d" "Suc (ht_used d)"] show ?thesis by (simp add: dict_callbacks_def)
qed

lemma list_at_length: "list_at h lst as xs \<Longrightarrow> length as \<le> length h"
proof -
  assume l: "list_at h lst as xs"
  then have "set as \<subseteq> {..<length h}" using linked_bound by (auto simp: list_at_def)
  then have "card (set as) \<le> length h" using card_mono [of "{..<length h}" "set as"] by simp
  with l show ?thesis by (simp add: list_at_def distinct_card)
qed

lemma freed_append: "freed h as h1 \<Longrightarrow> freed h1 bs h2 \<Longrightarrow> freed h (as @ bs) h2"
  by (auto simp: freed_def)

text \<open>The callbacks a context holds, in the order in which closing runs them.\<close>

definition held_callbacks :: "redisAsyncContext \<Rightarrow> redisCallback list \<Rightarrow> redisCallback list \<Rightarrow> redisCallback list" where
  "held_callbacks ac xs ys = xs @ ys @ map snd (concat (ht_table (ac_channels ac))) @ map snd (concat (ht_table (ac_patterns ac)))"

definition queues_at :: "redisAsyncContext \<Rightarrow> callback_heap \<Rightarrow> nat list \<Rightarrow> redisCallback list \<Rightarrow> nat list \<Rightarrow> redisCallback list \<Rightarrow> bool" where
  "queues_at ac h as xs bs ys \<longleftrightarrow> list_at h (ac_replies ac) as xs \<and> list_at h (ac_invalid ac) bs ys \<and> set as \<inter> set bs = {}"

definition dicts_ok :: "redisAsyncContext \<Rightarrow> bool" where
  "dicts_ok ac \<longleftrightarrow> cb_ok (ac_channels ac) \<and> ht_size (ac_channels ac) \<le> 2147483647 \<and>
     cb_ok (ac_patterns ac) \<and> ht_size (ac_patterns ac) \<le> 2147483647"

definition last_events :: "redisAsyncContext \<Rightarrow> status \<Rightarrow> event list" where
  "last_events ac st = (if ev_cleanup ac then [EvCleanup] else []) @
     (case ac_onDisconnect ac of Some fn \<Rightarrow> if has_flag (ac_flags ac) REDIS_CONNECTED then [EvDisconnect fn st] else [] | None \<Rightarrow> [])"

text \<open>Freeing the reader, with the unfinished reply it may hold, leaves the heap \<open>hr\<close>.\<close>

definition reader_freed :: "redisReader option \<Rightarrow> reply_heap \<Rightarrow> reply_heap \<Rightarrow> bool" where
  "reader_freed rd h hr \<longleftrightarrow> (case rd of None \<Rightarrow> hr = h | Some r \<Rightarrow> redisReaderFree r h = Inr hr)"

lemma reader_freed_idle: "(\<And>r. rd = Some r \<Longrightarrow> r_reply r = None) \<Longrightarrow> reader_freed rd h h"
  by (auto simp: reader_freed_def redisReaderFree_def split: option.splits)

lemma redisFree_freed:
  assumes "c_reader c = rd" "reader_freed rd h hr"
  shows "redisFree c h w = Inr (hr, if 0 < c_fd c then w\<lparr>w_closed := w_closed w @ [c_fd c]\<rparr> else w)"
  using assms by (cases rd) (auto simp: redisFree_def reader_freed_def Let_def)

lemma asyncFree_spec:
  assumes cl: "closing ac" and q: "queues_at ac (e_callbacks e) as xs bs ys" and d: "dicts_ok ac"
    and r: "reader_freed (c_reader (ac_c ac)) (e_replies e) hr"
  shows "\<exists>e' st. asyncFree user al (ac, e) = Inr (Some e') \<and>
    e_log e' = e_log e @ concat (map (callback_event (None, e_replies e)) (held_callbacks ac xs ys)) @ last_events ac st \<and>
    (has_flag (ac_flags ac) REDIS_FREEING \<or> ac_err ac = 0 \<longrightarrow> st = REDIS_OK) \<and>
    freed (e_callbacks e) (as @ bs) (e_callbacks e') \<and> e_replies e' = hr \<and>
    w_closed (e_world e') = w_closed (e_world e) @ (if 0 < c_fd (ac_c ac) then [c_fd (ac_c ac)] else [])"
proof -
  from q have l: "list_at (e_callbacks e) (ac_replies ac) as xs" "list_at (e_callbacks e) (ac_invalid ac) bs ys" "set as \<inter> set bs = {}"
    by (simp_all add: queues_at_def)
  let ?evs = "\<lambda>cbs. concat (map (callback_event (None, e_replies e)) cbs)"
  have "length as < Suc (length (e_callbacks e))" using list_at_length [OF l(1)] by simp
  from drain_closing [OF list_access_replies cl l(1) this] obtain ac1 h1 l1 where d1:
    "drain ac_replies put_replies (Suc (length (e_callbacks e))) user al (ac, e) = Inr (Some (ac1, e\<lparr>e_callbacks := h1, e_log := e_log e @ ?evs xs\<rparr>))"
    "freed (e_callbacks e) as h1" "reflagged (put_replies l1 ac) ac1" by blast
  let ?e1 = "e\<lparr>e_callbacks := h1, e_log := e_log e @ ?evs xs\<rparr>"
  note s1 = reflagged_sel [OF d1(3), unfolded put_replies_def, simplified]
  have i: "list_at (e_callbacks ?e1) (ac_invalid ac1) bs ys" using freed_list_at [OF d1(2) l(2,3)] s1(3) by simp
  then have "length bs < Suc (length h1)" using list_at_length [OF i] by simp
  from drain_closing [OF list_access_invalid s1(1) i this, of user al] obtain ac2 h2 l2 where d2:
    "drain ac_invalid put_invalid (Suc (length h1)) user al (ac1, ?e1) = Inr (Some (ac2, ?e1\<lparr>e_callbacks := h2, e_log := e_log ?e1 @ ?evs ys\<rparr>))"
    "freed h1 bs h2" "reflagged (put_invalid l2 ac1) ac2" by auto
  let ?e2 = "e\<lparr>e_callbacks := h2, e_log := e_log e @ ?evs (xs @ ys)\<rparr>"
  note s2 = reflagged_sel [OF d2(3), unfolded put_invalid_def, simplified]
  let ?ch = "map snd (concat (ht_table (ac_channels ac)))" and ?pt = "map snd (concat (ht_table (ac_patterns ac)))"
  from run_each_closing [OF s2(1), of user al ?ch ?e2] obtain ac3 where d3:
    "run_each user al ?ch (ac2, ?e2) = Inr (ac3, ?e2\<lparr>e_log := e_log ?e2 @ ?evs ?ch\<rparr>)" "reflagged ac2 ac3" by auto
  let ?e3 = "e\<lparr>e_callbacks := h2, e_log := e_log e @ ?evs (xs @ ys @ ?ch)\<rparr>"
  note s3 = reflagged_sel [OF d3(2)]
  from run_each_closing [OF s3(1), of user al ?pt ?e3] obtain ac4 where d4:
    "run_each user al ?pt (ac3, ?e3) = Inr (ac4, ?e3\<lparr>e_log := e_log ?e3 @ ?evs ?pt\<rparr>)" "reflagged ac3 ac4" by auto
  note s4 = reflagged_sel [OF d4(2)]
  have sel: "ac_channels ac2 = ac_channels ac" "ac_patterns ac3 = ac_patterns ac" "ac_onDisconnect ac4 = ac_onDisconnect ac"
    "ev_cleanup ac4 = ev_cleanup ac" "has_flag (ac_flags ac4) REDIS_CONNECTED = has_flag (ac_flags ac) REDIS_CONNECTED"
    "c_fd (ac_c ac4) = c_fd (ac_c ac)" "c_reader (ac_c ac4) = c_reader (ac_c ac)" "ac_err ac4 = ac_err ac"
    by (simp_all only: s4(2-11) s3(2-11) s2(2-11) s1(2-11))
  have fr: "has_flag (ac_flags ac) REDIS_FREEING \<longrightarrow> has_flag (ac_flags ac4) REDIS_FREEING"
    using s1(12) s2(12) s3(12) s4(12) by blast
  let ?st = "if has_flag (ac_flags ac4) REDIS_FREEING then REDIS_OK else if ac_err ac4 = 0 then REDIS_OK else REDIS_ERR"
  let ?e4 = "e\<lparr>e_callbacks := h2, e_log := e_log e @ ?evs (held_callbacks ac xs ys) @ last_events ac ?st\<rparr>"
  let ?w = "e_world e"
  have rf: "redisFree (ac_c ac4) (e_replies e) ?w = Inr (hr, if 0 < c_fd (ac_c ac4) then ?w\<lparr>w_closed := w_closed ?w @ [c_fd (ac_c ac4)]\<rparr> else ?w)"
    using r by (rule redisFree_freed [OF sel(7)])
  have "asyncFree user al (ac, e) = Inr (Some (?e4\<lparr>e_replies := hr, e_world := if 0 < c_fd (ac_c ac4) then ?w\<lparr>w_closed := w_closed ?w @ [c_fd (ac_c ac4)]\<rparr> else ?w\<rparr>))"
    using d1(1) d2(1) d3(1) d4(1) rf dict_callbacks_all [of "ac_channels ac"] dict_callbacks_all [of "ac_patterns ac"] d
    by (simp add: asyncFree_def sel dicts_ok_def log_if_def last_events_def held_callbacks_def split: option.split)
  moreover let ?e5 = "?e4\<lparr>e_replies := hr, e_world := if 0 < c_fd (ac_c ac4) then ?w\<lparr>w_closed := w_closed ?w @ [c_fd (ac_c ac4)]\<rparr> else ?w\<rparr>"
  have "freed (e_callbacks e) (as @ bs) (e_callbacks ?e5)" using freed_append [OF d1(2) d2(2)] by simp
  moreover have "has_flag (ac_flags ac) REDIS_FREEING \<or> ac_err ac = 0 \<longrightarrow> ?st = REDIS_OK" using fr sel(8) by simp
  moreover have "w_closed (e_world ?e5) = w_closed ?w @ (if 0 < c_fd (ac_c ac) then [c_fd (ac_c ac)] else [])" by (simp add: sel(6))
  moreover have "e_log ?e5 = e_log e @ ?evs (held_callbacks ac xs ys) @ last_events ac ?st" "e_replies ?e5 = hr" by simp_all
  ultimately show ?thesis by (intro exI [of _ ?e5] exI [of _ ?st] conjI)
qed

text \<open>A connected context with an empty table of channels and the callbacks \<open>lst\<close>, for the examples.\<close>

definition example_dict :: "(sdshdr, redisCallback) dict" where
  "example_dict = dictInit \<lparr>ht_table = [], ht_type = callbackDict, ht_size = 0, ht_sizemask = 0, ht_used = 0\<rparr> callbackDict"

definition example_context :: "redisCallbackList \<Rightarrow> redisContext \<Rightarrow> redisAsyncContext" where
  "example_context lst c = \<lparr>ac_c = c\<lparr>c_flags := set_flag 0 REDIS_CONNECTED\<rparr>, ac_err = 0, ac_errstr = None,
     ev_addRead = True, ev_delRead = False, ev_addWrite = True, ev_delWrite = True, ev_cleanup = True,
     ac_onDisconnect = Some 9, ac_onConnect = None, ac_replies = lst, ac_invalid = empty_callbacks,
     ac_channels = example_dict, ac_patterns = example_dict\<rparr>"

definition example_env :: "callback_heap \<Rightarrow> read_result list \<Rightarrow> write_result list \<Rightarrow> env" where
  "example_env h rs ws = \<lparr>e_replies = [], e_callbacks = h, e_world = new_world rs ws [] [], e_log = []\<rparr>"

definition example_heap :: callback_heap where
  "example_heap = [Some \<lparr>cell_cb = \<lparr>cb_fn = Some 1, cb_privdata = 5\<rparr>, cell_next = Some 1\<rparr>,
     Some \<lparr>cell_cb = \<lparr>cb_fn = Some 2, cb_privdata = 6\<rparr>, cell_next = None\<rparr>]"

definition example_list :: redisCallbackList where
  "example_list = \<lparr>l_head = Some 0, l_tail = Some 1\<rparr>"

lemma example_list_at:
  "list_at example_heap example_list [0, 1] [\<lparr>cb_fn = Some 1, cb_privdata = 5\<rparr>, \<lparr>cb_fn = Some 2, cb_privdata = 6\<rparr>]"
  by (simp add: list_at_def example_heap_def example_list_def)

lemma example_dict_ok: "cb_ok example_dict" "ht_used example_dict = 0" "ht_size example_dict = 0" "ht_table example_dict = []" "dict_abs sds_val example_dict = (\<lambda>_. None)"
  unfolding example_dict_def cb_ok_def by (auto simp: dict_ok_empty) (simp_all add: dictInit_def dictReset_def)

lemma example_connected:
  obtains c where "redisConnectFd (fill_alloc NUL) 3 [] (new_world [] [] [] []) = Inr (Some c, [], new_world [] [] [] [])"
    "ctx_ok (fill_alloc NUL) c [] [] []" "c_fd c = 3"
  using redisConnectFd_ok [OF fill_alloc_ok fill_alloc_never_fails] by metis

section \<open>Properties\<close>

text \<open>C5: freeing a context outside a callback.  Whatever the callbacks do (send commands, disconnect, free again), every
  callback that is pending is run exactly once with a NULL reply: those of the commands in the order in which they were
  sent, those of commands sent while subscribed, and those of the channels and patterns.  The cells of the lists are
  freed, the connection is closed, and the disconnect callback, which a connected context runs last, gets \<open>REDIS_OK\<close>.\<close>

theorem redisAsyncFree_runs_all:
  assumes "\<not> has_flag (ac_flags ac) REDIS_IN_CALLBACK" "queues_at ac (e_callbacks e) as xs bs ys" "dicts_ok ac"
    "\<And>r. c_reader (ac_c ac) = Some r \<Longrightarrow> r_reply r = None"
  shows "\<exists>e'. redisAsyncFree user al (ac, e) = Inr (Some (None, e')) \<and>
    e_log e' = e_log e @ concat (map (callback_event (None, e_replies e)) (held_callbacks ac xs ys)) @ last_events ac REDIS_OK \<and>
    freed (e_callbacks e) (as @ bs) (e_callbacks e') \<and>
    w_closed (e_world e') = w_closed (e_world e) @ (if 0 < c_fd (ac_c ac) then [c_fd (ac_c ac)] else [])"
proof -
  let ?ac = "with_flags (set_flag (ac_flags ac) REDIS_FREEING) ac"
  have fl: "closing ?ac" "has_flag (ac_flags ?ac) REDIS_FREEING" "\<not> has_flag (ac_flags ?ac) REDIS_IN_CALLBACK"
    "has_flag (ac_flags ?ac) REDIS_CONNECTED = has_flag (ac_flags ac) REDIS_CONNECTED"
    using assms(1) by (simp_all add: flag_simps)
  have "queues_at ?ac (e_callbacks e) as xs bs ys" "dicts_ok ?ac" using assms(2,3) by (simp_all add: queues_at_def dicts_ok_def)
  moreover have "reader_freed (c_reader (ac_c ?ac)) (e_replies e) (e_replies e)" using assms(4) by (intro reader_freed_idle) simp
  ultimately obtain e' where
    "asyncFree user al (?ac, e) = Inr (Some e')"
    "e_log e' = e_log e @ concat (map (callback_event (None, e_replies e)) (held_callbacks ?ac xs ys)) @ last_events ?ac REDIS_OK"
    "freed (e_callbacks e) (as @ bs) (e_callbacks e')"
    "w_closed (e_world e') = w_closed (e_world e) @ (if 0 < c_fd (ac_c ?ac) then [c_fd (ac_c ?ac)] else [])"
    using asyncFree_spec [OF fl(1), of e as xs bs ys "e_replies e" user al] fl(2) by auto
  moreover have "held_callbacks ?ac xs ys = held_callbacks ac xs ys" "last_events ?ac REDIS_OK = last_events ac REDIS_OK" "c_fd (ac_c ?ac) = c_fd (ac_c ac)"
    using fl(4) by (simp_all add: held_callbacks_def last_events_def cong: option.case_cong)
  ultimately show ?thesis using fl(3) by (intro exI [of _ e']) (simp add: redisAsyncFree_def gone_def flag_updates)
qed

theorem redisAsyncFree_runs_all_witness:
  "\<exists>c e'. ctx_ok (fill_alloc NUL) c [] [] [] \<and>
    redisAsyncFree (\<lambda>_ _ _ _. [ApiCommand (Some 7) 0 (''*0'' @ CRLF) 4, ApiFree]) (fill_alloc NUL)
      (example_context example_list c, example_env example_heap [] []) = Inr (Some (None, e')) \<and>
    e_log e' = [EvCallback 1 5 (None, []), EvCallback 2 6 (None, []), EvCleanup, EvDisconnect 9 REDIS_OK] \<and>
    w_closed (e_world e') = [3]"
proof -
  obtain c where c: "ctx_ok (fill_alloc NUL) c [] [] []" "c_fd c = 3" by (rule example_connected)
  let ?ac = "example_context example_list c" and ?e = "example_env example_heap [] []"
  have fl: "\<not> has_flag (ac_flags ?ac) REDIS_IN_CALLBACK" by (simp add: example_context_def flag_simps)
  have q: "queues_at ?ac (e_callbacks ?e) [0, 1] [\<lparr>cb_fn = Some 1, cb_privdata = 5\<rparr>, \<lparr>cb_fn = Some 2, cb_privdata = 6\<rparr>] [] []"
    using example_list_at by (simp add: queues_at_def example_context_def example_env_def)
  have d: "dicts_ok ?ac" by (simp add: dicts_ok_def example_context_def example_dict_ok)
  have r: "r_reply r = None" if "c_reader (ac_c ?ac) = Some r" for r
    using that c(1) waiting_reply by (auto simp: example_context_def ctx_ok_def reader_rep_def)
  from redisAsyncFree_runs_all [OF fl q d r, where user = "\<lambda>_ _ _ _. [ApiCommand (Some 7) 0 (''*0'' @ CRLF) 4, ApiFree]" and al = "fill_alloc NUL"]
  obtain e' where "redisAsyncFree (\<lambda>_ _ _ _. [ApiCommand (Some 7) 0 (''*0'' @ CRLF) 4, ApiFree]) (fill_alloc NUL) (?ac, ?e) = Inr (Some (None, e'))"
    "e_log e' = e_log ?e @ concat (map (callback_event (None, e_replies ?e)) (held_callbacks ?ac
      [\<lparr>cb_fn = Some 1, cb_privdata = 5\<rparr>, \<lparr>cb_fn = Some 2, cb_privdata = 6\<rparr>] [])) @ last_events ?ac REDIS_OK"
    "w_closed (e_world e') = w_closed (e_world ?e) @ (if 0 < c_fd (ac_c ?ac) then [c_fd (ac_c ?ac)] else [])" by blast
  moreover have "held_callbacks ?ac xs [] = xs" "e_log ?e = []" "e_replies ?e = []" "w_closed (e_world ?e) = []" "c_fd (ac_c ?ac) = 3" for xs
    using c(2) by (simp_all add: example_context_def example_env_def new_world_def held_callbacks_def example_dict_ok)
  moreover have "last_events ?ac REDIS_OK = [EvCleanup, EvDisconnect 9 REDIS_OK]"
    by (simp add: example_context_def last_events_def flag_simps)
  ultimately show ?thesis using c(1) by (intro exI [of _ c] exI [of _ e']) (simp add: callback_event_def)
qed

end
