(* ===== verification/AsyncCommand.thy ===== *)
theory AsyncCommand
  imports AsyncProps
begin

text \<open>
  Sending commands with callbacks: \<open>nextArgument\<close> finds the arguments of a formatted command again, a plain command
  queues its callback with its bytes, and a subscription registers its callback under every channel.
\<close>

section \<open>The arguments of a formatted command\<close>

lemma digits_value: "foldl (\<lambda>v c. v * 10 + (int (byte_of c) - 48)) 0 (show_nat n) = int n"
proof (induction n rule: show_nat.induct)
  case (1 n)
  show ?case
  proof (cases "n < 10")
    case False
    with 1 show ?thesis by (simp add: show_nat.simps [of n] zdiv_int zmod_int)
  qed (simp add: show_nat.simps [of n])
qed

lemma show_nat_hd: "\<exists>d ds. show_nat n = d # ds \<and> isdigit d"
  using show_nat_digits [of "hd (show_nat n)" n] by (cases "show_nat n") auto

lemma strtol10_show:
  assumes "\<not> isdigit c"
  shows "strtol10 (show_nat n @ c # s) = min LONG_MAX (int n)"
proof -
  obtain d ds where d: "show_nat n = d # ds" "isdigit d" using show_nat_hd by blast
  have "\<not> isspace d" "d \<noteq> CHR ''-''" "d \<noteq> CHR ''+''" using d(2) by (auto simp: isdigit_def isspace_def)
  moreover have "takeWhile isdigit (show_nat n @ c # s) = show_nat n" using assms by (simp add: takeWhile_append show_nat_digits)
  ultimately show ?thesis using d(1) digits_value [of n] by (simp add: strtol10_def Let_def)
qed

lemma find_char_first:
  "c \<notin> set pre \<Longrightarrow> NUL \<notin> set pre \<Longrightarrow> c \<noteq> NUL \<Longrightarrow> find_char (pre @ c # s) c = Inr (Some (c # s))"
  by (auto simp: find_char_def cstr_def takeWhile_append dropWhile_append)

lemma show_nat_special: "NUL \<notin> set (show_nat n)" "CR \<notin> set (show_nat n)" "CHR ''$'' \<notin> set (show_nat n)"
  using show_nat_digits [of NUL n] show_nat_digits [of CR n] show_nat_digits [of "CHR ''$''" n] by (auto simp: isdigit_def)

lemma nextArgument_bulk:
  assumes "CHR ''$'' \<notin> set pre" "NUL \<notin> set pre" "length a \<le> 2147483647"
  shows "nextArgument (pre @ resp_bulk a @ s) = Inr (Some (a @ CRLF @ s, length a, s))"
proof -
  let ?n = "show_nat (length a)"
  let ?p = "CHR ''$'' # ?n @ CRLF @ a @ CRLF @ s"
  have f: "find_char (pre @ ?p) (CHR ''$'') = Inr (Some ?p)" by (rule find_char_first) (use assms in simp_all)
  have q: "find_char ?p CR = Inr (Some (CRLF @ a @ CRLF @ s))"
    using find_char_first [of CR "CHR ''$'' # ?n" "LF # a @ CRLF @ s"] show_nat_special [of "length a"] by simp
  have len: "int32 (strtol10 (?n @ CRLF @ a @ CRLF @ s)) = int (length a)"
    using strtol10_show [of CR "length a" "LF # a @ CRLF @ s"] assms(3) by (simp add: isdigit_def LONG_MAX_def int32_def)
  note body = f q len nextArgument_def resp_bulk_def Let_def numeral_2_eq_2
  show ?thesis
  proof (cases pre)
    case (Cons x xs)
    then have "x \<noteq> CHR ''$''" using assms(1) by auto
    then show ?thesis using body by (simp add: Cons)
  qed (use body in simp)
qed

lemma nextArgument_end: "nextArgument (NUL # s) = Inr None"
  by (simp add: nextArgument_def find_char_def cstr_def)

lemma nextArgument_command:
  "length a \<le> 2147483647 \<Longrightarrow> nextArgument (resp_command (a # args) @ s) = Inr (Some (a @ CRLF @ concat (map resp_bulk args) @ s, length a, concat (map resp_bulk args) @ s))"
  using nextArgument_bulk [of "CHR ''*'' # show_nat (Suc (length args)) @ CRLF" a "concat (map resp_bulk args) @ s"] show_nat_special [of "Suc (length args)"]
  by (simp add: resp_command_def)

section \<open>Subscriptions\<close>

lemma dictReplace_expands:
  "dictReplace al ht key val = Inr (n, ht') \<Longrightarrow> \<exists>st ht1. dictExpandIfNeeded al ht = Inr (st, ht1) \<and> ht_size ht' = ht_size ht1"
  by (auto simp: dictReplace_def dictAdd_def dictKeyIndex_def res_iff Let_def split: if_splits option.splits)

text \<open>A table with at most \<open>2 ^ 30\<close> entries has at most as many chains, so that an \<open>int\<close> can count them.\<close>

lemma dictReplace_size:
  assumes "dictReplace al ht key val = Inr (n, ht')" "cb_ok ht" "ht_used ht < 2 ^ 30" "ht_size ht \<le> 2147483647"
  shows "ht_size ht' \<le> 2147483647"
proof -
  obtain st ht1 where e: "dictExpandIfNeeded al ht = Inr (st, ht1)" "ht_size ht' = ht_size ht1" using dictReplace_expands [OF assms(1)] by blast
  have x: "ht_size h' = dictNextPower m \<or> h' = h" if "dictExpand al h m = Inr (st, h')" for h h' :: "(sdshdr, 'a) dict" and m
    using that by (auto simp: dictExpand_def res_iff Let_def split: if_splits)
  have pw: "dictNextPower (2 ^ k) = 2 ^ k" if "2 \<le> k" "k \<le> 30" for k using that by (intro dictNextPower_pow) auto
  show ?thesis
  proof (cases "ht_size ht = 0")
    case True
    then show ?thesis using e x [of ht 4 ht1] pw [of 2] assms(4) by (auto simp: dictExpandIfNeeded_def DICT_HT_INITIAL_SIZE_def)
  next
    case sz: False
    show ?thesis
    proof (cases "ht_used ht = ht_size ht")
      case True
      obtain k where k: "2 \<le> k" "ht_size ht = 2 ^ k" using assms(2) sz by (auto simp: cb_ok_def dict_ok_def)
      have "(2 :: nat) ^ k < 2 ^ 30" using True k(2) assms(3) by simp
      then have k30: "Suc k \<le> 30" using power_less_imp_less_exp [of "2 :: nat" k 30] by simp
      then have "(2 :: nat) ^ Suc k \<le> 2 ^ 30" by (intro power_increasing) simp_all
      moreover have "size_t (int (ht_size ht) * 2) = 2 ^ Suc k" using k(2) \<open>(2 :: nat) ^ k < 2 ^ 30\<close> by (auto intro!: size_t_eq)
      ultimately show ?thesis using e x [of ht "2 ^ Suc k" ht1] pw [of "Suc k"] k(1) k30 True sz assms(4) by (auto simp: dictExpandIfNeeded_def)
    next
      case False
      then show ?thesis using e sz assms(4) by (simp add: dictExpandIfNeeded_def)
    qed
  qed
qed

lemma subscribe_loop_registers:
  assumes al: "alloc_ok al" "\<not> may_fail al"
  shows "cb_ok d \<Longrightarrow> ht_size d \<le> 2147483647 \<Longrightarrow> \<forall>ch \<in> set chs. sds_fits (length ch) \<Longrightarrow> ht_used d + length chs \<le> 2 ^ 30 \<Longrightarrow>
    \<exists>d'. subscribe_loop al cb (concat (map resp_bulk chs) @ NUL # s) d = Inr d' \<and> cb_ok d' \<and> ht_size d' \<le> 2147483647 \<and>
      dict_abs sds_val d' = (\<lambda>ch. if ch \<in> set chs then Some cb else dict_abs sds_val d ch)"
proof (induction chs arbitrary: d)
  case Nil
  then show ?case by (simp add: subscribe_loop.simps nextArgument_end)
next
  case (Cons ch chs)
  let ?r = "concat (map resp_bulk chs) @ NUL # s"
  have fits: "sds_fits (length ch)" using Cons.prems(3) by simp
  have n: "nextArgument (resp_bulk ch @ ?r) = Inr (Some (ch @ CRLF @ ?r, length ch, ?r))"
    using nextArgument_bulk [of "[]" ch ?r] fits by (simp add: sds_fits_def)
  from sdsnewlen_spec [OF al(1) fits, of "ch @ CRLF @ ?r"] al(2) obtain k where k:
    "sdsnewlen al (Some (ch @ CRLF @ ?r)) (length ch) = Inr k" "sds_ok k" "sds_val k = ch" by (auto simp: returns_def split: sum.splits)
  have "cb_ok d \<and> \<not> may_fail al" "ht_used d < 2 ^ 30" using Cons.prems al(2) by auto
  from cbstore.put_law [OF this(1) k(2) this(2), of cb] obtain d1 where d1: "cb_put al d k cb = Inr d1" "cb_ok d1"
    "dict_abs sds_val d1 = (dict_abs sds_val d)(ch \<mapsto> cb)" "ht_used d1 \<le> ht_used d + 1" using k(3) by auto
  then obtain b where rp: "dictReplace al d k cb = Inr (b, d1)" by (auto simp: cb_put_def res_iff)
  have "ht_size d1 \<le> 2147483647" using dictReplace_size [OF rp Cons.prems(1) \<open>ht_used d < 2 ^ 30\<close> Cons.prems(2)] .
  from Cons.IH [OF d1(2) this] Cons.prems(3,4) d1(4) obtain d2 where "subscribe_loop al cb ?r d1 = Inr d2" "cb_ok d2" "ht_size d2 \<le> 2147483647"
    "dict_abs sds_val d2 = (\<lambda>ch. if ch \<in> set chs then Some cb else dict_abs sds_val d1 ch)" by auto
  with n k(1) rp d1(3) show ?case by (auto simp: subscribe_loop.simps [of al cb "resp_bulk ch @ ?r"] fun_eq_iff)
qed

section \<open>Commands\<close>

lemma log_if_simps [simp]:
  "e_replies (log_if b ev e) = e_replies e" "e_callbacks (log_if b ev e) = e_callbacks e" "e_world (log_if b ev e) = e_world e"
  "e_log (log_if b ev e) = e_log e @ (if b then [ev] else [])"
  by (simp_all add: log_if_def)

text \<open>The words \<open>__redisAsyncCommand\<close> looks for at the start of a command, after a \<open>p\<close> if there is one.\<close>

definition unprefixed :: "string \<Rightarrow> string" where
  "unprefixed name = (if name \<noteq> [] \<and> tolower (hd name) = CHR ''p'' then tl name else name)"

definition begins_with :: "string \<Rightarrow> string \<Rightarrow> bool" where
  "begins_with name w \<longleftrightarrow> map tolower (take (length w) (unprefixed name)) = w"

definition plain_command :: "string \<Rightarrow> bool" where
  "plain_command name \<longleftrightarrow>
     \<not> begins_with name ''subscribe'' \<and> \<not> begins_with name ''unsubscribe'' \<and> \<not> begins_with name ''monitor''"

lemma tolower_CR: "tolower c = CR \<longleftrightarrow> c = CR"
proof (cases "65 \<le> byte_of c \<and> byte_of c \<le> 90")
  case True
  then have "byte_of (tolower c) = byte_of c + 32" by (simp add: tolower_def of_char_of)
  with True show ?thesis by auto
qed (auto simp: tolower_def)

lemma strncaseeq_take:
  assumes "strncaseeq (n @ CRLF @ s) (w @ CRLF) m" "m = length w + 2" "CR \<notin> set w" "map tolower w = w"
  shows "map tolower (take (length w) n) = w"
proof -
  let ?t = "take (length w + 2) (cstr (n @ CRLF @ s))"
  have e: "map tolower ?t = w @ CRLF" using assms(1,2,4) by (simp add: strncaseeq_def tolower_def)
  have "length ?t = length w + 2" using arg_cong [OF e, of length] by simp
  then have l: "length w + 2 \<le> length (cstr (n @ CRLF @ s))" by (simp only: length_take)
  have t: "take k (cstr x) = take k x" if "k \<le> length (cstr x)" for k and x :: string
    using that takeWhile_dropWhile_id [of "\<lambda>c. c \<noteq> NUL" x] unfolding cstr_def by (metis append_eq_conv_conj take_append take_all_iff diff_is_0_eq take_0 append_Nil2)
  have "take (length w) ?t = take (length w) (n @ CRLF @ s)" unfolding t [OF l] by (simp only: take_take min_def) simp
  then have "map tolower (take (length w) (n @ CRLF @ s)) = take (length w) (map tolower ?t)" by (simp only: take_map)
  then have tw: "map tolower (take (length w) (n @ CRLF @ s)) = w" by (simp only: e) simp
  have "length w \<le> length n"
  proof (rule ccontr)
    assume "\<not> length w \<le> length n"
    then have "CR \<in> set (take (length w) (n @ CRLF @ s))" by (cases "length w - length n") simp_all
    then have "tolower CR \<in> set (map tolower (take (length w) (n @ CRLF @ s)))" unfolding set_map by (rule imageI)
    then have "CR \<in> set (map tolower (take (length w) (n @ CRLF @ s)))" by (simp only: tolower_CR [THEN iffD2, OF refl])
    with tw assms(3) show False by simp
  qed
  with tw show ?thesis by simp
qed

lemma tolower_idem [simp]: "tolower (tolower c) = tolower c"
  by (cases "65 \<le> byte_of c \<and> byte_of c \<le> 90") (auto simp: tolower_def of_char_of)

lemma strncaseeq_word:
  assumes "map tolower n = w" "NUL \<notin> set w" "m = length w + 2"
  shows "strncaseeq (n @ CRLF @ s) (w @ CRLF) m"
proof -
  have n: "NUL \<notin> set n" "length n = length w" using assms by (auto simp: tolower_def)
  have "map tolower w = map tolower n" unfolding assms(1) [symmetric] by simp
  with n show ?thesis by (simp add: assms(3) strncaseeq_def cstr_def takeWhile_append)
qed

lemma unprefixed_memory:
  assumes "c0 = (name @ CRLF @ s) ! 0"
  shows "(if tolower c0 = CHR ''p'' then drop 1 (name @ CRLF @ s) else name @ CRLF @ s) = unprefixed name @ CRLF @ s"
  using assms by (cases name) (auto simp: unprefixed_def tolower_def)

lemma plain_not_special:
  assumes "plain_command name"
  shows "\<not> strncaseeq (unprefixed name @ CRLF @ s) (''subscribe'' @ CRLF) 11" "\<not> strncaseeq (unprefixed name @ CRLF @ s) (''unsubscribe'' @ CRLF) 13"
    "\<not> strncaseeq (unprefixed name @ CRLF @ s) (''monitor'' @ CRLF) 9"
  using assms unfolding plain_command_def begins_with_def
  by (auto simp del: append.simps simp: tolower_def dest!: strncaseeq_take)

text \<open>What a context holds: the bytes \<open>out\<close> to be written, the callbacks \<open>xs\<close> of the commands without a reply, and the callbacks \<open>ys\<close> of
  the commands sent while subscribed.\<close>

definition holds :: "astate \<Rightarrow> string \<Rightarrow> redisCallback list \<Rightarrow> redisCallback list \<Rightarrow> bool" where
  "holds = (\<lambda>(ac, e) out xs ys. (\<exists>b. c_obuf (ac_c ac) = Some b \<and> sds_ok b \<and> sds_val b = out) \<and> dicts_ok ac \<and>
     (\<exists>as bs. queues_at ac (e_callbacks e) as xs bs ys))"

text \<open>What sending commands and running callbacks leave alone: the subscriptions, the hooks, the descriptor, the errors and all flags but those
  for disconnecting, freeing and being in a callback.\<close>

definition lasting :: "redisAsyncContext \<Rightarrow> (sdshdr, redisCallback) dict \<times> (sdshdr, redisCallback) dict \<times> nat option \<times> bool \<times> bool \<times> bool \<times> int \<times> nat \<times> nat \<times> (nat \<Rightarrow> bool)" where
  "lasting ac = (ac_channels ac, ac_patterns ac, ac_onDisconnect ac, ev_cleanup ac, ev_addRead ac, ev_addWrite ac, c_fd (ac_c ac), c_err (ac_c ac), ac_err ac,
     \<lambda>k. k < 32 \<and> k \<noteq> 2 \<and> k \<noteq> 3 \<and> k \<noteq> 4 \<and> has_flag (ac_flags ac) (flag_bit k))"

lemma lasting_sel:
  assumes "lasting ac' = lasting ac"
  shows "ac_channels ac' = ac_channels ac" "ac_patterns ac' = ac_patterns ac" "ac_onDisconnect ac' = ac_onDisconnect ac" "ev_cleanup ac' = ev_cleanup ac"
    "ev_addRead ac' = ev_addRead ac" "ev_addWrite ac' = ev_addWrite ac" "c_fd (ac_c ac') = c_fd (ac_c ac)" "c_err (ac_c ac') = c_err (ac_c ac)" "ac_err ac' = ac_err ac"
  using assms by (simp_all add: lasting_def)

lemma lasting_flags:
  assumes "lasting ac' = lasting ac"
  shows "has_flag (ac_flags ac') REDIS_BLOCK \<longleftrightarrow> has_flag (ac_flags ac) REDIS_BLOCK" "has_flag (ac_flags ac') REDIS_CONNECTED \<longleftrightarrow> has_flag (ac_flags ac) REDIS_CONNECTED"
    "has_flag (ac_flags ac') REDIS_SUBSCRIBED \<longleftrightarrow> has_flag (ac_flags ac) REDIS_SUBSCRIBED" "has_flag (ac_flags ac') REDIS_MONITORING \<longleftrightarrow> has_flag (ac_flags ac) REDIS_MONITORING"
proof -
  have f: "has_flag (ac_flags ac') (flag_bit k) \<longleftrightarrow> has_flag (ac_flags ac) (flag_bit k)" if "k < 32" "k \<noteq> 2" "k \<noteq> 3" "k \<noteq> 4" for k
    using assms that unfolding lasting_def by (simp add: fun_eq_iff) blast
  show "has_flag (ac_flags ac') REDIS_BLOCK \<longleftrightarrow> has_flag (ac_flags ac) REDIS_BLOCK" "has_flag (ac_flags ac') REDIS_CONNECTED \<longleftrightarrow> has_flag (ac_flags ac) REDIS_CONNECTED"
    "has_flag (ac_flags ac') REDIS_SUBSCRIBED \<longleftrightarrow> has_flag (ac_flags ac) REDIS_SUBSCRIBED" "has_flag (ac_flags ac') REDIS_MONITORING \<longleftrightarrow> has_flag (ac_flags ac) REDIS_MONITORING"
    unfolding flag_bits by (rule f; simp)+
qed

lemma lasting_flag:
  "fl = REDIS_DISCONNECTING \<or> fl = REDIS_FREEING \<or> fl = REDIS_IN_CALLBACK \<Longrightarrow> lasting (add_flag fl ac) = lasting ac"
  "lasting (del_flag REDIS_IN_CALLBACK ac) = lasting ac"
  by (auto simp: lasting_def add_flag_def del_flag_def fun_eq_iff flag_simps)

lemma holds_flag: "holds (add_flag fl ac, e) out xs ys \<longleftrightarrow> holds (ac, e) out xs ys" "holds (del_flag fl ac, e) out xs ys \<longleftrightarrow> holds (ac, e) out xs ys"
  by (simp_all add: holds_def add_flag_def del_flag_def queues_at_def dicts_ok_def)

lemma append_holds:
  assumes "alloc_ok al" "\<not> may_fail al" "c_obuf c = Some b" "sds_ok b" "sds_val b = out" "len \<le> length cmd" "sds_fits (length out + len)"
  obtains b' where "redisAppendCmd al c cmd len w = Inr (REDIS_OK, c\<lparr>c_obuf := Some b'\<rparr>)" "sds_ok b'" "sds_val b' = out @ take len cmd"
proof -
  have "sds_fits (sdslen b + length (take len cmd))" using assms(4-7) by (simp add: sdslen_val)
  then obtain b' where "sdscatbytes al b (take len cmd) = Inr b'" "sds_ok b'" "sds_val b' = out @ take len cmd"
    unfolding assms(5) [symmetric] by (rule sdscatbytes_total [OF assms(1,2,4)])
  then show ?thesis using that assms(3,6) by (simp add: redisAppendCmd_def sdscatlen_bytes)
qed

lemma holdsI:
  "c_obuf (ac_c ac) = Some b \<Longrightarrow> sds_ok b \<Longrightarrow> sds_val b = out \<Longrightarrow> dicts_ok ac \<Longrightarrow> queues_at ac (e_callbacks e) as xs bs ys \<Longrightarrow> holds (ac, e) out xs ys"
  by (auto simp: holds_def)

lemma push_queue:
  assumes q: "queues_at ac h as xs bs ys" and al: "\<not> may_fail al"
  obtains lst h' where "redisPushCallback al (ac_replies ac) x h = Inr (True, lst, h')" "queues_at (ac\<lparr>ac_replies := lst\<rparr>) h' (as @ [length h]) (xs @ [x]) bs ys"
proof -
  from q have l: "list_at h (ac_replies ac) as xs" "list_at h (ac_invalid ac) bs ys" "set as \<inter> set bs = {}" by (simp_all add: queues_at_def)
  have b: "a < length h" if "a \<in> set bs" for a using that l(2) linked_bound by (auto simp: list_at_def)
  show ?thesis
  proof (rule push_at [OF l(1) al, of x])
    fix lst h'
    assume p: "redisPushCallback al (ac_replies ac) x h = Inr (True, lst, h')" "list_at h' lst (as @ [length h]) (xs @ [x])"
      "length h' = Suc (length h)" "\<And>a. a < length h \<Longrightarrow> a \<notin> set as \<Longrightarrow> h' ! a = h ! a"
    have "list_at h' (ac_invalid ac) bs ys" using l(2) by (rule list_at_frame) (use b p(3,4) l(3) in \<open>auto simp: less_SucI\<close>)
    then show ?thesis using that [OF p(1)] p(2) l(3) b by (auto simp: queues_at_def)
  qed
qed

lemma push_queue_invalid:
  assumes q: "queues_at ac h as xs bs ys" and al: "\<not> may_fail al"
  obtains lst h' where "redisPushCallback al (ac_invalid ac) x h = Inr (True, lst, h')" "queues_at (ac\<lparr>ac_invalid := lst\<rparr>) h' as xs (bs @ [length h]) (ys @ [x])"
proof -
  have "queues_at (ac\<lparr>ac_replies := ac_invalid ac, ac_invalid := ac_replies ac\<rparr>) h bs ys as xs" using q by (auto simp: queues_at_def)
  from push_queue [OF this al, of x] that show ?thesis by (auto simp: queues_at_def Int_commute)
qed

lemma asyncCommand_plain:
  assumes al: "alloc_ok al" "\<not> may_fail al" and hd: "holds (ac, e) out xs ys" and fl: "\<not> closing ac"
    and a: "plain_command name" "length name \<le> 2147483647" and fits: "sds_fits (length out + length (resp_command (name # args)))"
    and sub: "sub \<longleftrightarrow> has_flag (ac_flags ac) REDIS_SUBSCRIBED"
  obtains ac' e' where "asyncCommand al fn pd (resp_command (name # args) @ NUL # s) (length (resp_command (name # args))) (ac, e) = Inr (REDIS_OK, ac', e')"
    "holds (ac', e') (out @ resp_command (name # args)) (xs @ (if sub then [] else [\<lparr>cb_fn = fn, cb_privdata = pd\<rparr>]))
      (ys @ (if sub then [\<lparr>cb_fn = fn, cb_privdata = pd\<rparr>] else []))"
    "lasting ac' = lasting ac" "ac_flags ac' = ac_flags ac" "c_reader (ac_c ac') = c_reader (ac_c ac)"
    "e_log e' = e_log e @ (if ev_addWrite ac then [EvAddWrite] else [])" "e_replies e' = e_replies e" "e_world e' = e_world e"
proof -
  let ?cmd = "resp_command (name # args)" and ?cb = "\<lparr>cb_fn = fn, cb_privdata = pd\<rparr>"
  let ?r = "concat (map resp_bulk args) @ NUL # s"
  note na = nextArgument_command [OF a(2), of args "NUL # s"]
  from hd obtain b as bs where h: "c_obuf (ac_c ac) = Some b" "sds_ok b" "sds_val b = out" "dicts_ok ac" "queues_at ac (e_callbacks e) as xs bs ys"
    by (auto simp: holds_def)
  have len: "length ?cmd \<le> length (?cmd @ NUL # s)" by simp
  obtain b' where b': "redisAppendCmd al (ac_c ac) (?cmd @ NUL # s) (length ?cmd) (e_world e) = Inr (REDIS_OK, (ac_c ac)\<lparr>c_obuf := Some b'\<rparr>)"
    "sds_ok b'" "sds_val b' = out @ take (length ?cmd) (?cmd @ NUL # s)" using al h(1-3) len fits by (rule append_holds)
  have g: "mem_get ?r 0 = Inr (?r ! 0)" "mem_get (name @ CRLF @ ?r) 0 = Inr ((name @ CRLF @ ?r) ! 0)" by (simp_all add: mem_get_def)
  note step = fl na g b'(1) plain_not_special [OF a(1), of ?r]
  show ?thesis
  proof (cases sub)
    case True
    obtain lst hc where p: "redisPushCallback al (ac_invalid ac) ?cb (e_callbacks e) = Inr (True, lst, hc)"
      "queues_at (ac\<lparr>ac_invalid := lst\<rparr>) hc as xs (bs @ [length (e_callbacks e)]) (ys @ [?cb])" using h(5) al(2) by (rule push_queue_invalid)
    let ?ac = "ac\<lparr>ac_invalid := lst, ac_c := (ac_c ac)\<lparr>c_obuf := Some b'\<rparr>\<rparr>" and ?e = "e\<lparr>e_callbacks := hc\<rparr>"
    have "asyncCommand al fn pd (?cmd @ NUL # s) (length ?cmd) (ac, e) = Inr (REDIS_OK, ?ac, log_if (ev_addWrite ac) EvAddWrite ?e)"
      using step p(1) sub True by (simp add: asyncCommand_def push_invalid_def unprefixed_memory [OF refl] Let_def del: append.simps)
    moreover have "holds (?ac, log_if (ev_addWrite ac) EvAddWrite ?e) (out @ ?cmd) xs (ys @ [?cb])"
      using b'(2,3) h(4) p(2) by (intro holdsI [of _ b' _ _ as _ "bs @ [length (e_callbacks e)]"]) (simp_all add: queues_at_def dicts_ok_def)
    ultimately show ?thesis using that [of ?ac "log_if (ev_addWrite ac) EvAddWrite ?e"] True by (simp add: lasting_def)
  next
    case False
    obtain lst hc where p: "redisPushCallback al (ac_replies ac) ?cb (e_callbacks e) = Inr (True, lst, hc)"
      "queues_at (ac\<lparr>ac_replies := lst\<rparr>) hc (as @ [length (e_callbacks e)]) (xs @ [?cb]) bs ys" using h(5) al(2) by (rule push_queue)
    let ?ac = "ac\<lparr>ac_replies := lst, ac_c := (ac_c ac)\<lparr>c_obuf := Some b'\<rparr>\<rparr>" and ?e = "e\<lparr>e_callbacks := hc\<rparr>"
    have "asyncCommand al fn pd (?cmd @ NUL # s) (length ?cmd) (ac, e) = Inr (REDIS_OK, ?ac, log_if (ev_addWrite ac) EvAddWrite ?e)"
      using step p(1) sub False by (simp add: asyncCommand_def push_reply_def unprefixed_memory [OF refl] Let_def del: append.simps)
    moreover have "holds (?ac, log_if (ev_addWrite ac) EvAddWrite ?e) (out @ ?cmd) (xs @ [?cb]) ys"
      using b'(2,3) h(4) p(2) by (intro holdsI [of _ b' _ _ "as @ [length (e_callbacks e)]" _ bs]) (simp_all add: queues_at_def dicts_ok_def)
    ultimately show ?thesis using that [of ?ac "log_if (ev_addWrite ac) EvAddWrite ?e"] False by (simp add: lasting_def)
  qed
qed

lemma asyncCommand_subscribe:
  assumes al: "alloc_ok al" "\<not> may_fail al" and hd: "holds (ac, e) out xs ys" and fl: "\<not> closing ac"
    and a: "map tolower name = ''subscribe''" "chs \<noteq> []" "\<forall>ch \<in> set chs. sds_fits (length ch)" "ht_used (ac_channels ac) + length chs \<le> 2 ^ 30"
    and fits: "sds_fits (length out + length (resp_command (name # chs)))"
  obtains ac' e' where "asyncCommand al fn pd (resp_command (name # chs) @ NUL # s) (length (resp_command (name # chs))) (ac, e) = Inr (REDIS_OK, ac', e')"
    "holds (ac', e') (out @ resp_command (name # chs)) xs ys" "ac_flags ac' = set_flag (ac_flags ac) REDIS_SUBSCRIBED"
    "dict_abs sds_val (ac_channels ac') = (\<lambda>ch. if ch \<in> set chs then Some \<lparr>cb_fn = fn, cb_privdata = pd\<rparr> else dict_abs sds_val (ac_channels ac) ch)"
    "c_reader (ac_c ac') = c_reader (ac_c ac)" "c_err (ac_c ac') = c_err (ac_c ac)" "ac_err ac' = ac_err ac"
    "ac_patterns ac' = ac_patterns ac" "e_replies e' = e_replies e" "e_world e' = e_world e"
    "e_log e' = e_log e @ (if ev_addWrite ac then [EvAddWrite] else [])"
proof -
  let ?cmd = "resp_command (name # chs)" and ?cb = "\<lparr>cb_fn = fn, cb_privdata = pd\<rparr>"
  let ?r = "concat (map resp_bulk chs) @ NUL # s"
  have ln: "length name = 9" using arg_cong [OF a(1), of length] by simp
  note na = nextArgument_command [of name chs "NUL # s"]
  from hd obtain b as bs where h: "c_obuf (ac_c ac) = Some b" "sds_ok b" "sds_val b = out" "dicts_ok ac" "queues_at ac (e_callbacks e) as xs bs ys"
    by (auto simp: holds_def)
  then have d: "cb_ok (ac_channels ac)" "ht_size (ac_channels ac) \<le> 2147483647" by (simp_all add: dicts_ok_def)
  obtain d' where d': "subscribe_loop al ?cb ?r (ac_channels ac) = Inr d'" "cb_ok d'" "ht_size d' \<le> 2147483647"
    "dict_abs sds_val d' = (\<lambda>ch. if ch \<in> set chs then Some ?cb else dict_abs sds_val (ac_channels ac) ch)"
    using subscribe_loop_registers [OF al d a(3,4)] by blast
  let ?f = "set_flag (ac_flags ac) REDIS_SUBSCRIBED"
  have ob: "c_obuf ((ac_c ac)\<lparr>c_flags := ?f\<rparr>) = Some b" using h(1) by simp
  have len: "length ?cmd \<le> length (?cmd @ NUL # s)" by simp
  obtain b' where b': "redisAppendCmd al ((ac_c ac)\<lparr>c_flags := ?f\<rparr>) (?cmd @ NUL # s) (length ?cmd) (e_world e) = Inr (REDIS_OK, (ac_c ac)\<lparr>c_flags := ?f\<rparr>\<lparr>c_obuf := Some b'\<rparr>)"
    "sds_ok b'" "sds_val b' = out @ take (length ?cmd) (?cmd @ NUL # s)" using al ob h(2,3) len fits by (rule append_holds)
  have g: "mem_get ?r 0 = Inr (CHR ''$'')" using a(2) by (cases chs) (simp_all add: mem_get_def resp_bulk_def)
  have g2: "mem_get (name @ CRLF @ ?r) 0 = Inr ((name @ CRLF @ ?r) ! 0)" by (simp add: mem_get_def)
  have np: "tolower ((name @ CRLF @ ?r) ! 0) \<noteq> CHR ''p''" using a(1) by (cases name) auto
  have eq: "strncaseeq (name @ CRLF @ ?r) (''subscribe'' @ CRLF) 11" by (rule strncaseeq_word [OF a(1)]) simp_all
  let ?ac = "ac\<lparr>ac_c := (ac_c ac)\<lparr>c_flags := ?f\<rparr>, ac_channels := d', ac_c := (ac_c ac)\<lparr>c_flags := ?f\<rparr>\<lparr>c_obuf := Some b'\<rparr>\<rparr>"
  have "asyncCommand al fn pd (?cmd @ NUL # s) (length ?cmd) (ac, e) = Inr (REDIS_OK, ?ac, log_if (ev_addWrite ac) EvAddWrite e)"
    using fl na ln g g2 np eq d'(1) b'(1) by (simp add: asyncCommand_def add_flag_def Let_def del: append.simps)
  moreover have "holds (?ac, log_if (ev_addWrite ac) EvAddWrite e) (out @ ?cmd) xs ys"
    using b'(2,3) d'(2,3) h(4,5) by (intro holdsI [of _ b' _ _ as _ bs]) (simp_all add: queues_at_def dicts_ok_def)
  ultimately show ?thesis using that [of ?ac "log_if (ev_addWrite ac) EvAddWrite e"] d'(4) by simp
qed

end
