(* ===== verification/AsyncReplies.thy ===== *)
theory AsyncReplies
  imports AsyncCommand
begin

text \<open>
  Replies and messages reach their callbacks: the calls that a callback makes into the library, one round of
  \<open>redisProcessCallbacks\<close>, and its runs.  The lemmas hold for the replies to commands and for the messages of
  subscriptions alike, and for callbacks that send plain commands, disconnect and free the context.
\<close>

section \<open>The calls of a callback\<close>

fun is_command :: "api_call \<Rightarrow> bool" where
  "is_command (ApiCommand _ _ _ _) = True"
| "is_command _ = False"

fun call_bytes :: "api_call \<Rightarrow> string" where
  "call_bytes (ApiCommand fn privdata cmd len) = take len cmd"
| "call_bytes _ = []"

fun call_callbacks :: "api_call \<Rightarrow> redisCallback list" where
  "call_callbacks (ApiCommand fn privdata cmd len) = [\<lparr>cb_fn = fn, cb_privdata = privdata\<rparr>]"
| "call_callbacks _ = []"

definition sent_bytes :: "api_call list \<Rightarrow> string" where
  "sent_bytes calls = concat (map call_bytes calls)"

definition sent_callbacks :: "api_call list \<Rightarrow> redisCallback list" where
  "sent_callbacks calls = concat (map call_callbacks calls)"

text \<open>The commands that are accepted: those before the first request to disconnect or to free; none when the context is disconnecting already.\<close>

definition accepted_calls :: "bool \<Rightarrow> api_call list \<Rightarrow> api_call list" where
  "accepted_calls closed calls = (if closed then [] else takeWhile is_command calls)"

text \<open>A call as the application makes it: a request to disconnect or to free, or a formatted command that is neither a subscription nor MONITOR.\<close>

fun plain_call :: "api_call \<Rightarrow> bool" where
  "plain_call (ApiCommand fn privdata cmd len) \<longleftrightarrow>
     (\<exists>name args s. plain_command name \<and> cmd = resp_command (name # args) @ NUL # s \<and> len = length (resp_command (name # args)))"
| "plain_call _ \<longleftrightarrow> True"

text \<open>Callbacks that make such calls, with at most \<open>M\<close> bytes of commands each time.\<close>

definition polite :: "nat \<Rightarrow> user_code \<Rightarrow> bool" where
  "polite M user \<longleftrightarrow> (\<forall>fn privdata reply h. (\<forall>c \<in> set (user fn privdata reply h). plain_call c) \<and> length (sent_bytes (user fn privdata reply h)) \<le> M)"

lemma sent_simps [simp]:
  "sent_bytes [] = []" "sent_callbacks [] = []" "sent_bytes (c # cs) = call_bytes c @ sent_bytes cs" "sent_callbacks (c # cs) = call_callbacks c @ sent_callbacks cs"
  "sent_bytes (cs @ ds) = sent_bytes cs @ sent_bytes ds" "sent_callbacks (cs @ ds) = sent_callbacks cs @ sent_callbacks ds"
  by (simp_all add: sent_bytes_def sent_callbacks_def)

lemma accepted_append: "accepted_calls cl (cs @ ds) = accepted_calls cl cs @ accepted_calls (cl \<or> (\<exists>c \<in> set cs. \<not> is_command c)) ds"
  by (auto simp: accepted_calls_def takeWhile_append takeWhile_eq_all_conv [THEN iffD2])

lemma sent_bytes_accepted: "length (sent_bytes (accepted_calls cl cs)) \<le> length (sent_bytes cs)"
proof -
  have "sent_bytes cs = sent_bytes (takeWhile is_command cs) @ sent_bytes (dropWhile is_command cs)"
    unfolding sent_simps(5) [symmetric] takeWhile_dropWhile_id ..
  then show ?thesis by (simp add: accepted_calls_def)
qed

lemma not_command: "\<not> is_command c \<longleftrightarrow> c = ApiDisconnect \<or> c = ApiFree"
  by (cases c) simp_all

lemma resp_command_length: "a \<in> set args \<Longrightarrow> length a < length (resp_command args)"
proof -
  assume "a \<in> set args"
  then have "length (resp_bulk a) \<le> length (concat (map resp_bulk args))" by (induction args) auto
  then show ?thesis by (simp add: resp_command_def resp_bulk_def)
qed

text \<open>The flags that callbacks can set.\<close>

lemma flags_set:
  "has_flag (ac_flags (add_flag REDIS_DISCONNECTING ac)) REDIS_DISCONNECTING" "has_flag (ac_flags (add_flag REDIS_FREEING ac)) REDIS_FREEING"
  "has_flag (ac_flags (add_flag REDIS_DISCONNECTING ac)) REDIS_FREEING = has_flag (ac_flags ac) REDIS_FREEING"
  "has_flag (ac_flags (add_flag REDIS_FREEING ac)) REDIS_DISCONNECTING = has_flag (ac_flags ac) REDIS_DISCONNECTING"
  "has_flag (ac_flags (add_flag REDIS_IN_CALLBACK ac)) REDIS_DISCONNECTING = has_flag (ac_flags ac) REDIS_DISCONNECTING"
  "has_flag (ac_flags (add_flag REDIS_IN_CALLBACK ac)) REDIS_FREEING = has_flag (ac_flags ac) REDIS_FREEING"
  "has_flag (ac_flags (del_flag REDIS_IN_CALLBACK ac)) REDIS_DISCONNECTING = has_flag (ac_flags ac) REDIS_DISCONNECTING"
  "has_flag (ac_flags (del_flag REDIS_IN_CALLBACK ac)) REDIS_FREEING = has_flag (ac_flags ac) REDIS_FREEING"
  "c_reader (ac_c (add_flag fl ac)) = c_reader (ac_c ac)" "c_reader (ac_c (del_flag fl ac)) = c_reader (ac_c ac)"
  by (simp_all add: add_flag_def del_flag_def flag_simps)

lemma closing_iff: "closing ac \<longleftrightarrow> has_flag (ac_flags ac) REDIS_DISCONNECTING \<or> has_flag (ac_flags ac) REDIS_FREEING"
  by (rule has_flag_or)

text \<open>What calls have done: the state after them, with \<open>n\<close> times the write hook.\<close>

definition called :: "astate \<Rightarrow> api_call list \<Rightarrow> astate \<Rightarrow> nat \<Rightarrow> bool" where
  "called = (\<lambda>(ac, e) calls (ac', e') n. lasting ac' = lasting ac \<and> c_reader (ac_c ac') = c_reader (ac_c ac) \<and>
     (has_flag (ac_flags ac') REDIS_DISCONNECTING \<longleftrightarrow> has_flag (ac_flags ac) REDIS_DISCONNECTING \<or> ApiDisconnect \<in> set calls) \<and>
     (has_flag (ac_flags ac') REDIS_FREEING \<longleftrightarrow> has_flag (ac_flags ac) REDIS_FREEING \<or> ApiFree \<in> set calls) \<and>
     e_replies e' = e_replies e \<and> e_world e' = e_world e \<and> e_log e' = e_log e @ replicate n EvAddWrite)"

lemma called_trans: "called s cs s1 n \<Longrightarrow> called s1 ds s2 m \<Longrightarrow> called s (cs @ ds) s2 (n + m)"
  by (cases s; cases s1; cases s2) (auto simp: called_def replicate_add)

lemma api_step_spec:
  assumes al: "alloc_ok al" "\<not> may_fail al" and hd: "holds (ac, e) out xs ys" and c: "plain_call c" "sds_fits (length out + length (call_bytes c))"
    and sub: "sub \<longleftrightarrow> has_flag (ac_flags ac) REDIS_SUBSCRIBED"
  shows "\<exists>ac' e' n. api_step al c (ac, e) = Inr (ac', e') \<and> called (ac, e) [c] (ac', e') n \<and>
    holds (ac', e') (out @ sent_bytes (accepted_calls (closing ac) [c])) (xs @ (if sub then [] else sent_callbacks (accepted_calls (closing ac) [c])))
      (ys @ (if sub then sent_callbacks (accepted_calls (closing ac) [c]) else []))"
proof (cases c)
  case (ApiCommand fn pd cmd len)
  then obtain name args s where n: "plain_command name" "cmd = resp_command (name # args) @ NUL # s" "len = length (resp_command (name # args))" using c(1) by auto
  show ?thesis
  proof (cases "closing ac")
    case True
    then show ?thesis using hd ApiCommand
      by (intro exI [of _ ac] exI [of _ e] exI [of _ 0]) (simp add: api_step_def asyncCommand_def called_def accepted_calls_def)
  next
    case False
    have f: "length name \<le> 2147483647" "sds_fits (length out + length (resp_command (name # args)))"
      using c(2) resp_command_length [of name "name # args"] n(3) ApiCommand by (auto simp: sds_fits_def n(2))
    obtain ac' e' where "asyncCommand al fn pd cmd len (ac, e) = Inr (REDIS_OK, ac', e')"
      "holds (ac', e') (out @ resp_command (name # args)) (xs @ (if sub then [] else [\<lparr>cb_fn = fn, cb_privdata = pd\<rparr>]))
        (ys @ (if sub then [\<lparr>cb_fn = fn, cb_privdata = pd\<rparr>] else []))"
      "lasting ac' = lasting ac" "ac_flags ac' = ac_flags ac" "c_reader (ac_c ac') = c_reader (ac_c ac)"
      "e_log e' = e_log e @ (if ev_addWrite ac then [EvAddWrite] else [])" "e_replies e' = e_replies e" "e_world e' = e_world e"
      unfolding n(2,3) by (rule asyncCommand_plain [OF al hd False n(1) f sub])
    then show ?thesis using False ApiCommand
      by (intro exI [of _ ac'] exI [of _ e'] exI [of _ "if ev_addWrite ac then 1 else 0"])
        (cases sub; simp add: api_step_def called_def accepted_calls_def n(2,3))
  qed
next
  case ApiDisconnect
  then show ?thesis using hd
    by (intro exI [of _ "add_flag REDIS_DISCONNECTING ac"] exI [of _ e] exI [of _ 0])
      (simp add: api_step_def called_def accepted_calls_def lasting_flag holds_flag flags_set)
next
  case ApiFree
  then show ?thesis using hd
    by (intro exI [of _ "add_flag REDIS_FREEING ac"] exI [of _ e] exI [of _ 0])
      (simp add: api_step_def called_def accepted_calls_def lasting_flag holds_flag flags_set)
qed

lemma api_run_spec:
  assumes al: "alloc_ok al" "\<not> may_fail al"
  shows "holds (ac, e) out xs ys \<Longrightarrow> \<forall>c \<in> set calls. plain_call c \<Longrightarrow> sds_fits (length out + length (sent_bytes calls)) \<Longrightarrow>
    sub \<longleftrightarrow> has_flag (ac_flags ac) REDIS_SUBSCRIBED \<Longrightarrow>
    \<exists>ac' e' n. api_run al calls (ac, e) = Inr (ac', e') \<and> called (ac, e) calls (ac', e') n \<and>
    holds (ac', e') (out @ sent_bytes (accepted_calls (closing ac) calls)) (xs @ (if sub then [] else sent_callbacks (accepted_calls (closing ac) calls)))
      (ys @ (if sub then sent_callbacks (accepted_calls (closing ac) calls) else []))"
proof (induction calls arbitrary: ac e out xs ys)
  case Nil
  then show ?case by (intro exI [of _ ac] exI [of _ e] exI [of _ 0]) (simp add: called_def accepted_calls_def)
next
  case (Cons c calls)
  let ?a = "accepted_calls (closing ac) [c]"
  have "plain_call c" "sds_fits (length out + length (call_bytes c))" using Cons.prems(2,3) by (auto simp: sds_fits_def)
  from api_step_spec [OF al Cons.prems(1) this Cons.prems(4)] obtain ac1 e1 n where s: "api_step al c (ac, e) = Inr (ac1, e1)" "called (ac, e) [c] (ac1, e1) n"
    "holds (ac1, e1) (out @ sent_bytes ?a) (xs @ (if sub then [] else sent_callbacks ?a)) (ys @ (if sub then sent_callbacks ?a else []))" by blast
  have cl: "closing ac1 \<longleftrightarrow> closing ac \<or> \<not> is_command c" using s(2) by (auto simp: called_def closing_iff not_command)
  have "sub \<longleftrightarrow> has_flag (ac_flags ac1) REDIS_SUBSCRIBED" using s(2) Cons.prems(4) lasting_flags [of ac1 ac] by (simp add: called_def)
  moreover have "sds_fits (length (out @ sent_bytes ?a) + length (sent_bytes calls))"
    using Cons.prems(3) sent_bytes_accepted [of "closing ac" "[c]"] by (simp add: sds_fits_def)
  ultimately obtain ac2 e2 m where r: "api_run al calls (ac1, e1) = Inr (ac2, e2)" "called (ac1, e1) calls (ac2, e2) m"
    "holds (ac2, e2) ((out @ sent_bytes ?a) @ sent_bytes (accepted_calls (closing ac1) calls))
      ((xs @ (if sub then [] else sent_callbacks ?a)) @ (if sub then [] else sent_callbacks (accepted_calls (closing ac1) calls)))
      ((ys @ (if sub then sent_callbacks ?a else [])) @ (if sub then sent_callbacks (accepted_calls (closing ac1) calls) else []))"
    using Cons.IH [OF s(3)] Cons.prems(2) by auto
  have "accepted_calls (closing ac) (c # calls) = ?a @ accepted_calls (closing ac1) calls" using accepted_append [of "closing ac" "[c]" calls] cl by simp
  then show ?case using s(1) r(1,3) called_trans [OF s(2) r(2)] by (intro exI [of _ ac2] exI [of _ e2] exI [of _ "n + m"]) (cases sub; simp)
qed

section \<open>Replies and callbacks\<close>

text \<open>The replies \<open>vs\<close> that the bytes \<open>b\<close> complete, and what is left of them.\<close>

fun parses :: "pstate \<Rightarrow> string \<Rightarrow> reply list \<Rightarrow> pstate \<Rightarrow> string \<Rightarrow> bool" where
  "parses st b [] st' b' \<longleftrightarrow> parse st b = Wait st' b'"
| "parses st b (v # vs) st' b' \<longleftrightarrow> encodable v \<and> (\<exists>b1. parse st b = Done v b1 \<and> parses (None, []) b1 vs st' b')"

lemma finish_item_Done: "finish_item v fs b = Done w b' \<Longrightarrow> b' = b"
  by (auto simp: finish_item_def split: sum.splits)

lemma typed_step_Done_length: "typed_step k fs b = Done v b' \<Longrightarrow> length b' < length b"
  by (auto simp: typed_step_def Let_def split: if_splits option.splits dest!: first_line_length finish_item_Done)

lemma item_step_Done_length: "item_step st b = Done v b' \<Longrightarrow> length b' < length b"
  by (cases st) (auto simp: item_step_def split: option.splits list.splits dest!: typed_step_Done_length)

lemma parse_Done_length: "parse st b = Done v b' \<Longrightarrow> length b' < length b"
proof (induction st b rule: parse.induct)
  case (1 st b)
  then show ?case
    by (cases "item_step st b")
      (auto simp: parse.simps [of st b] dest: item_step_length item_step_Done_length intro: less_trans)
qed

lemma parses_length: "parses st b vs st' b' \<Longrightarrow> length vs \<le> length b"
proof (induction vs arbitrary: st b)
  case (Cons v vs)
  then obtain b1 where "parse st b = Done v b1" "parses (None, []) b1 vs st' b'" by auto
  with Cons.IH [of "(None, [])" b1] parse_Done_length [of st b v b1] show ?case by simp
qed simp

text \<open>Asking a non-blocking context for a reply.\<close>

lemma get_reply_async:
  assumes al: "\<not> may_fail al" and c: "\<not> blocking c" "c_reader c = Some r" and w: "waiting al h0 r h st b" "r_pos r < 1024"
  shows "parse st b = Done v b1 \<Longrightarrow> \<exists>r'. idle al r' b1 \<and> r_pos r' < 1024 \<and>
      redisGetReply al c h w0 = Inr (Some (REDIS_OK, Some (ObjAddr (length h0)), c\<lparr>c_reader := Some r'\<rparr>, h0 @ map Some (flatten (length h0) v), w0))"
    and "parse st b = Wait st1 b1 \<Longrightarrow> \<exists>r' h'. waiting al h0 r' h' st1 b1 \<and> r_pos r' < 1024 \<and>
      redisGetReply al c h w0 = Inr (Some (REDIS_OK, None, c\<lparr>c_reader := Some r'\<rparr>, h', w0))"
  using getReply_sim [OF al w(1)] w(2) c
  by (auto simp: get_sim_def redisGetReply_def redisGetReplyFromReader_def reader_get_def)

lemma free_object_reply:
  assumes "c_reader (ac_c ac) = Some r" "r_fn r = defaultFunctions al" "e_replies e = h0 @ map Some (flatten (length h0) v)"
  shows "free_object ac (ObjAddr (length h0)) e = Inr (e\<lparr>e_replies := h0 @ replicate (reply_size v) None\<rparr>)"
  using assms free_flatten(1) [of h0 "length h0" v _ "[]"]
  by (simp add: free_object_def defaultFunctions_def freeReplyObject_def del: free_reply.simps)

text \<open>Freeing a reader in any state frees the unfinished reply that it holds.\<close>

lemma waiting_freed: "waiting al h0 r h st b \<Longrightarrow> \<exists>n. redisReaderFree r h = Inr (h0 @ replicate n None)"
proof -
  assume w: "waiting al h0 r h st b"
  show ?thesis
  proof (cases "r_reply r = None")
    case True
    then have "h = h0 @ replicate 0 None" using w by (auto simp: waiting_def reading_def frame_cells_def split: if_splits)
    then show ?thesis using True by (auto simp: redisReaderFree_def intro: exI [of _ 0])
  next
    case False
    then have "snd st \<noteq> []" "r_fn r = defaultFunctions al" "frames_ok (snd st)" "h = h0 @ map Some (frame_cells (length h0) (snd st))"
      "r_reply r = Some (ObjAddr (length h0))" using w by (auto simp: waiting_def idle_def reading_def split: if_splits)
    with free_frames [of "snd st" h0] show ?thesis by (auto simp: redisReaderFree_def defaultFunctions_def)
  qed
qed

section \<open>Finding the callback\<close>

text \<open>A message of type \<open>t\<close> (\<open>message\<close>, or the confirmation \<open>subscribe\<close>) for a channel.\<close>

type_synonym message = "string \<times> string \<times> reply"

fun message_reply :: "message \<Rightarrow> reply" where
  "message_reply (t, ch, v) = RArray [RString t, RString ch, v]"

fun message_ok :: "message \<Rightarrow> bool" where
  "message_ok (t, ch, v) \<longleftrightarrow> t \<noteq> [] \<and> tolower (hd t) \<noteq> CHR ''p'' \<and> map tolower (cstr t) \<noteq> ''unsubscribe'' \<and>
     sds_fits (length ch) \<and> encodable (message_reply (t, ch, v)) \<and> nesting (message_reply (t, ch, v)) \<le> 8"

definition message_array :: "nat \<Rightarrow> redisReply" where
  "message_array n = array_cell 3 [Some (n + 1), Some (n + 2), Some (n + 3)]"

lemma message_get:
  assumes "h = h0 @ map Some (flatten (length h0) (message_reply (t, ch, v)))"
  shows "heap_get h (length h0) = Inr (message_array (length h0))" "heap_get h (length h0 + 1) = Inr (leaf_cell (RString t))"
    "heap_get h (length h0 + 2) = Inr (leaf_cell (RString ch))"
  unfolding assms by (simp_all add: heap_get_def nth_append message_array_def reply_size.simps numeral_3_eq_3)

lemma subscribe_callback:
  assumes al: "alloc_ok al" "\<not> may_fail al" and h: "e_replies e = h0 @ map Some (flatten (length h0) (message_reply (t, ch, v)))"
    and d: "cb_ok (ac_channels ac)" "message_ok (t, ch, v)"
  shows "redisGetSubscribeCallback al (length h0) cb (ac, e) =
    Inr (case dict_abs sds_val (ac_channels ac) ch of None \<Rightarrow> cb | Some cb' \<Rightarrow> cb', ac, e)"
proof -
  note g = message_get [OF h]
  have m: "t \<noteq> []" "tolower (hd t) \<noteq> CHR ''p''" "map tolower (cstr t) \<noteq> ''unsubscribe''" "sds_fits (length ch)" using d(2) by simp_all
  have t: "mem_get (t @ [NUL]) 0 = Inr (hd t)" "cstr (t @ [NUL]) = cstr t" using m(1) by (auto simp: mem_get_def nth_append hd_conv_nth cstr_def takeWhile_append takeWhile_eq_all_conv [THEN iffD2])
  have sz: "size_t (int32 (int (length ch))) = length ch" using m(4) by (simp add: sds_fits_def)
  from sdsnewlen_spec [OF al(1) m(4), of "ch @ [NUL]"] al(2) obtain k where k:
    "sdsnewlen al (Some (ch @ [NUL])) (length ch) = Inr k" "sds_ok k" "sds_val k = ch" by (auto simp: returns_def split: sum.splits)
  have "cb_get (ac_channels ac) k = Inr (dict_abs sds_val (ac_channels ac) ch)"
    using cbstore.get_law [of "ac_channels ac" al k] d(1) al(2) k(2,3) by simp
  then obtain de where "dictFind (ac_channels ac) k = Inr de" "dict_abs sds_val (ac_channels ac) ch = map_option snd de"
    by (auto simp: cb_get_def res_iff)
  with g k(1) sz m t show ?thesis
    by (cases de) (simp_all add: redisGetSubscribeCallback_def message_array_def array_cell_def elem_def str_of_def)
qed

text \<open>The callback for a reply: the first pending one; without one, that of the channel of a message; without that either, the callback \<open>cb\<close> of the
  reply before in the same run.\<close>

definition route :: "(string \<rightharpoonup> redisCallback) \<Rightarrow> redisCallback list \<Rightarrow> redisCallback \<Rightarrow> reply \<Rightarrow> redisCallback" where
  "route m xs cb v =
     (case xs of
        x # _ \<Rightarrow> x
      | [] \<Rightarrow> (case v of RArray [_, RString ch, _] \<Rightarrow> (case m ch of None \<Rightarrow> cb | Some x \<Rightarrow> x) | _ \<Rightarrow> cb))"

fun routed :: "(string \<rightharpoonup> redisCallback) \<Rightarrow> redisCallback list \<Rightarrow> redisCallback \<Rightarrow> reply list \<Rightarrow> redisCallback list" where
  "routed m xs cb [] = []"
| "routed m xs cb (v # vs) = (let x = route m xs cb v in x # routed m (tl xs) x vs)"

definition is_message :: "reply \<Rightarrow> bool" where
  "is_message v \<longleftrightarrow> (\<exists>m. message_ok m \<and> v = message_reply m)"

text \<open>Every reply has a pending callback or is a message for a subscribed context.\<close>

definition routable :: "bool \<Rightarrow> redisCallback list \<Rightarrow> reply list \<Rightarrow> bool" where
  "routable sub xs vs \<longleftrightarrow> (\<forall>i < length vs. i < length xs \<or> sub \<and> is_message (vs ! i))"

lemma routable_Cons: "routable sub xs (v # vs) \<longleftrightarrow> (xs \<noteq> [] \<or> sub \<and> is_message v) \<and> routable sub (tl xs) vs"
proof -
  have "i < length (tl xs) \<longleftrightarrow> Suc i < length xs" for i by (cases xs) auto
  then show ?thesis unfolding routable_def by (auto simp: All_less_Suc2)
qed

lemma routable_length: "routable sub xs vs \<Longrightarrow> sub \<or> length vs \<le> length xs"
  unfolding routable_def by (metis less_irrefl not_le)

lemma routed_pending: "length vs \<le> length xs \<Longrightarrow> routed m xs cb vs = take (length vs) xs"
proof (induction vs arbitrary: xs cb)
  case (Cons v vs)
  then show ?case by (cases xs) (simp_all add: route_def Let_def)
qed simp

lemma routed_more: "length vs \<le> length xs \<or> ys = [] \<Longrightarrow> routed m (xs @ ys) cb vs = routed m xs cb vs"
  by (auto simp: routed_pending)

lemma length_routed [simp]: "length (routed m xs cb vs) = length vs"
  by (induction vs arbitrary: xs cb) (simp_all add: Let_def)

text \<open>A context that waits for more input or is inside a run: the reader has completed replies that are freed again, above the heap \<open>h0\<close>.\<close>

definition conn :: "allocator \<Rightarrow> astate \<Rightarrow> reply_heap \<Rightarrow> pstate \<Rightarrow> string \<Rightarrow> bool" where
  "conn al = (\<lambda>(ac, e) h0 st b. \<not> has_flag (ac_flags ac) REDIS_BLOCK \<and> \<not> has_flag (ac_flags ac) REDIS_MONITORING \<and> c_err (ac_c ac) = 0 \<and>
     (\<exists>r. c_reader (ac_c ac) = Some r \<and> waiting al h0 r (e_replies e) st b \<and> r_pos r < 1024))"

text \<open>Finding the callback of a reply that the reader has just completed.\<close>

lemma find_callback_route:
  assumes al: "alloc_ok al" "\<not> may_fail al" and hd: "holds (ac, e) out xs ys" and sub: "sub \<longleftrightarrow> has_flag (ac_flags ac) REDIS_SUBSCRIBED"
    and v: "xs \<noteq> [] \<or> sub \<and> is_message v" and h: "h = h0 @ map Some (flatten (length h0) v)"
    and ac1: "ac1 = ac\<lparr>ac_c := (ac_c ac)\<lparr>c_reader := Some r1\<rparr>\<rparr>" and e1: "e1 = e\<lparr>e_replies := h\<rparr>"
    and x: "x = route (dict_abs sds_val (ac_channels ac)) xs cb v"
  shows "\<exists>lst hc. find_callback al (ObjAddr (length h0)) cb (ac1, e1) = Inr (Some x, ac1\<lparr>ac_replies := lst\<rparr>, e1\<lparr>e_callbacks := hc\<rparr>) \<and>
    holds (ac1\<lparr>ac_replies := lst\<rparr>, e1\<lparr>e_callbacks := hc\<rparr>) out (tl xs) ys"
proof -
  from hd obtain b as bs where hb: "c_obuf (ac_c ac) = Some b" "sds_ok b" "sds_val b = out" "dicts_ok ac" "queues_at ac (e_callbacks e) as xs bs ys"
    by (auto simp: holds_def)
  then have l: "list_at (e_callbacks e) (ac_replies ac) as xs" "list_at (e_callbacks e) (ac_invalid ac) bs ys" "set as \<inter> set bs = {}" by (simp_all add: queues_at_def)
  have d: "dicts_ok (ac1\<lparr>ac_replies := lst\<rparr>)" for lst using hb(4) by (simp add: dicts_ok_def ac1)
  show ?thesis
  proof (cases xs)
    case (Cons y zs)
    then obtain a cs where as: "as = a # cs" using l(1) list_at_Cons by blast
    obtain lst where sh: "redisShiftCallback (ac_replies ac) (e_callbacks e) = Inr (Some y, lst, (e_callbacks e)[a := None])"
      "list_at ((e_callbacks e)[a := None]) lst cs zs" using l(1) unfolding as Cons by (rule shift_at) auto
    have bd: "c < length (e_callbacks e) \<and> c \<noteq> a" if "c \<in> set bs" for c
      using that l(2,3) linked_bound by (auto simp: as list_at_def)
    have "list_at ((e_callbacks e)[a := None]) (ac_invalid ac) bs ys" using l(2) by (rule list_at_frame) (use bd in \<open>auto intro!: nth_list_update_neq\<close>)
    then have q: "queues_at (ac1\<lparr>ac_replies := lst\<rparr>) ((e_callbacks e)[a := None]) cs zs bs ys" using sh(2) l(3) by (simp add: queues_at_def as ac1)
    have "holds (ac1\<lparr>ac_replies := lst\<rparr>, e1\<lparr>e_callbacks := (e_callbacks e)[a := None]\<rparr>) out zs ys"
      using hb(1-3) d q by (intro holdsI [of _ b _ _ cs _ bs]) (simp_all add: ac1)
    moreover have "x = y" by (simp add: x route_def Cons)
    ultimately show ?thesis using sh(1) by (intro exI [of _ lst] exI [of _ "(e_callbacks e)[a := None]"]) (simp add: find_callback_def ac1 e1 Cons)
  next
    case Nil
    then obtain t ch w where m: "sub" "message_ok (t, ch, w)" "v = message_reply (t, ch, w)" using v by (auto simp: is_message_def)
    have as: "as = []" using l(1) by (cases as) (auto simp: list_at_def Nil)
    have er: "e_replies e1 = h0 @ map Some (flatten (length h0) (message_reply (t, ch, w)))" by (simp add: e1 h m(3) del: message_reply.simps)
    have cb: "cb_ok (ac_channels ac1)" using hb(4) by (simp add: dicts_ok_def ac1)
    have x': "x = (case dict_abs sds_val (ac_channels ac1) ch of None \<Rightarrow> cb | Some cb' \<Rightarrow> cb')" by (simp add: x route_def Nil m(3) ac1)
    have g: "redisGetSubscribeCallback al (length h0) cb (ac1, e1) = Inr (x, ac1, e1)" using subscribe_callback [OF al er cb m(2), of cb] x' by simp
    have hg: "heap_get (e_replies e1) (length h0) = Inr (message_array (length h0))" using er by (rule message_get(1))
    have sh: "redisShiftCallback (ac_replies ac1) (e_callbacks e1) = Inr (None, ac_replies ac1, e_callbacks e1)"
      using l(1) by (simp add: as ac1 e1 shift_at_empty)
    have "find_callback al (ObjAddr (length h0)) cb (ac1, e1) = Inr (Some x, ac1, e1)"
      using sh hg g m(1) sub by (simp add: find_callback_def robj_addr_def message_array_def array_cell_def REDIS_REPLY_ARRAY_def REDIS_REPLY_ERROR_def ac1)
    moreover have "holds (ac1, e1) out (tl xs) ys" using hb Nil by (intro holdsI [of _ b _ _ as _ bs]) (simp_all add: ac1 e1 queues_at_def dicts_ok_def)
    ultimately show ?thesis by (intro exI [of _ "ac_replies ac1"] exI [of _ "e_callbacks e1"]) simp
  qed
qed

section \<open>One round\<close>

text \<open>A reply that has been handled: its callback ran with the reply, which it could read in full, and made these calls.\<close>

definition calls_of :: "user_code \<Rightarrow> redisCallback \<Rightarrow> robj option \<Rightarrow> reply_heap \<Rightarrow> api_call list" where
  "calls_of user cb reply h = (case cb_fn cb of None \<Rightarrow> [] | Some fn \<Rightarrow> user fn (cb_privdata cb) reply h)"

definition handled :: "user_code \<Rightarrow> redisCallback \<Rightarrow> reply \<Rightarrow> event list \<times> api_call list \<Rightarrow> bool" where
  "handled user cb v = (\<lambda>(evs, calls). \<exists>reply h. reads_as (reply, h) v \<and> evs = callback_event (reply, h) cb \<and> calls = calls_of user cb reply h)"

lemma reads_as_flatten: "encodable v \<Longrightarrow> reads_as (Some (ObjAddr (length h0)), h0 @ map Some (flatten (length h0) v)) v"
  using view_flatten(1) [OF encodable_fits refl le_refl, of v h0 "[]"] by (simp add: reads_as_def)

lemma called_replies: "called (ac, e) calls (ac', e') n \<Longrightarrow> called (ac, e\<lparr>e_replies := h\<rparr>) calls (ac', e'\<lparr>e_replies := h\<rparr>) n"
  by (simp add: called_def)

lemma holds_replies: "holds (ac, e\<lparr>e_replies := h\<rparr>) out xs ys \<longleftrightarrow> holds (ac, e) out xs ys"
  by (simp add: holds_def)

lemma run_callback_spec:
  assumes al: "alloc_ok al" "\<not> may_fail al" and pol: "polite M user" and hd: "holds (ac, e) out xs ys" and fits: "length out + M \<le> 2146434047"
    and sub: "sub \<longleftrightarrow> has_flag (ac_flags ac) REDIS_SUBSCRIBED" and calls: "calls = calls_of user cb reply (e_replies e)"
  shows "\<exists>ac' e' n. redisRunCallback user al cb reply (ac, e) = Inr (ac', e') \<and>
    called (ac, e\<lparr>e_log := e_log e @ callback_event (reply, e_replies e) cb\<rparr>) calls (ac', e') n \<and>
    holds (ac', e') (out @ sent_bytes (accepted_calls (closing ac) calls)) (xs @ (if sub then [] else sent_callbacks (accepted_calls (closing ac) calls)))
      (ys @ (if sub then sent_callbacks (accepted_calls (closing ac) calls) else []))"
proof (cases "cb_fn cb")
  case None
  then show ?thesis using hd calls
    by (intro exI [of _ ac] exI [of _ e] exI [of _ 0]) (simp add: redisRunCallback_def calls_of_def callback_event_def called_def accepted_calls_def)
next
  case (Some fn)
  let ?ac = "add_flag REDIS_IN_CALLBACK ac" and ?e = "log_if True (EvCallback fn (cb_privdata cb) (reply, e_replies e)) e"
  have c: "calls = user fn (cb_privdata cb) reply (e_replies e)" using Some calls by (simp add: calls_of_def)
  have p: "\<forall>c \<in> set calls. plain_call c" "sds_fits (length out + length (sent_bytes calls))"
  proof -
    show "\<forall>c \<in> set calls. plain_call c" using pol unfolding polite_def c by blast
    have "length (sent_bytes calls) \<le> M" using pol unfolding polite_def c by blast
    then show "sds_fits (length out + length (sent_bytes calls))" using fits by (simp add: sds_fits_def)
  qed
  have "holds (?ac, ?e) out xs ys" using hd by (simp add: holds_flag) (simp add: holds_def)
  moreover have "sub \<longleftrightarrow> has_flag (ac_flags ?ac) REDIS_SUBSCRIBED" using sub lasting_flags [OF lasting_flag(1), of REDIS_IN_CALLBACK ac] by simp
  ultimately obtain ac1 e1 n where r: "api_run al calls (?ac, ?e) = Inr (ac1, e1)" "called (?ac, ?e) calls (ac1, e1) n"
    "holds (ac1, e1) (out @ sent_bytes (accepted_calls (closing ?ac) calls)) (xs @ (if sub then [] else sent_callbacks (accepted_calls (closing ?ac) calls)))
      (ys @ (if sub then sent_callbacks (accepted_calls (closing ?ac) calls) else []))" using api_run_spec [OF al _ p] by blast
  have cl: "closing ?ac \<longleftrightarrow> closing ac" by (simp add: closing_iff flags_set)
  have "called (ac, e\<lparr>e_log := e_log e @ callback_event (reply, e_replies e) cb\<rparr>) calls (del_flag REDIS_IN_CALLBACK ac1, e1) n"
    using r(2) Some by (simp add: called_def lasting_flag flags_set callback_event_def)
  then show ?thesis using r(1,3) cl Some
    by (intro exI [of _ "del_flag REDIS_IN_CALLBACK ac1"] exI [of _ e1] exI [of _ n]) (cases sub; simp add: redisRunCallback_def c holds_flag)
qed

text \<open>One round of the loop: the reply is given to its callback and freed.\<close>

lemma process_round:
  assumes al: "alloc_ok al" "\<not> may_fail al" and pol: "polite M user" and cn: "conn al (ac, e) h0 st b" and fr: "\<not> has_flag (ac_flags ac) REDIS_FREEING"
    and hd: "holds (ac, e) out xs ys" and fits: "length out + M \<le> 2146434047" and sub: "sub \<longleftrightarrow> has_flag (ac_flags ac) REDIS_SUBSCRIBED"
    and p: "parse st b = Done v b1" "encodable v" and v: "xs \<noteq> [] \<or> sub \<and> is_message v" and x: "x = route (dict_abs sds_val (ac_channels ac)) xs cb v"
  shows "\<exists>ac' e' evs calls n.
    process_loop (Suc k) user al cb (ac, e) = (if ApiFree \<in> set calls then gone (asyncFree user al (ac', e')) else process_loop k user al x (ac', e')) \<and>
    handled user x v (evs, calls) \<and> conn al (ac', e') (h0 @ replicate (reply_size v) None) (None, []) b1 \<and> lasting ac' = lasting ac \<and>
    holds (ac', e') (out @ sent_bytes (accepted_calls (closing ac) calls)) (tl xs @ (if sub then [] else sent_callbacks (accepted_calls (closing ac) calls)))
      (ys @ (if sub then sent_callbacks (accepted_calls (closing ac) calls) else [])) \<and>
    (has_flag (ac_flags ac') REDIS_DISCONNECTING \<longleftrightarrow> has_flag (ac_flags ac) REDIS_DISCONNECTING \<or> ApiDisconnect \<in> set calls) \<and>
    (has_flag (ac_flags ac') REDIS_FREEING \<longleftrightarrow> ApiFree \<in> set calls) \<and> e_log e' = e_log e @ evs @ replicate n EvAddWrite \<and> e_world e' = e_world e"
proof -
  from cn obtain r where r: "\<not> blocking (ac_c ac)" "c_reader (ac_c ac) = Some r" "waiting al h0 r (e_replies e) st b" "r_pos r < 1024"
    by (auto simp: conn_def)
  define h where "h = h0 @ map Some (flatten (length h0) v)"
  define h1 where "h1 = h0 @ replicate (reply_size v) None"
  obtain r1 where r1: "idle al r1 b1" "r_pos r1 < 1024" "redisGetReply al (ac_c ac) (e_replies e) (e_world e) =
      Inr (Some (REDIS_OK, Some (ObjAddr (length h0)), (ac_c ac)\<lparr>c_reader := Some r1\<rparr>, h, e_world e))"
    using get_reply_async(1) [OF al(2) r p(1), of "e_world e"] unfolding h_def by blast
  define ac1 where "ac1 = ac\<lparr>ac_c := (ac_c ac)\<lparr>c_reader := Some r1\<rparr>\<rparr>"
  define e1 where "e1 = e\<lparr>e_replies := h\<rparr>"
  obtain lst hc where f: "find_callback al (ObjAddr (length h0)) cb (ac1, e1) = Inr (Some x, ac1\<lparr>ac_replies := lst\<rparr>, e1\<lparr>e_callbacks := hc\<rparr>)"
    "holds (ac1\<lparr>ac_replies := lst\<rparr>, e1\<lparr>e_callbacks := hc\<rparr>) out (tl xs) ys"
    using find_callback_route [OF al hd sub v h_def ac1_def e1_def x] by blast
  define ac2 where "ac2 = ac1\<lparr>ac_replies := lst\<rparr>"
  define e2 where "e2 = e1\<lparr>e_callbacks := hc\<rparr>"
  have l2: "lasting ac2 = lasting ac" "ac_flags ac2 = ac_flags ac" "c_reader (ac_c ac2) = Some r1" by (simp_all add: ac2_def ac1_def lasting_def)
  define calls where "calls = calls_of user x (Some (ObjAddr (length h0))) (e_replies e2)"
  define evs where "evs = callback_event (Some (ObjAddr (length h0)), e_replies e2) x"
  have sub2: "sub \<longleftrightarrow> has_flag (ac_flags ac2) REDIS_SUBSCRIBED" using sub l2(2) by simp
  obtain ac3 e3 n where rc: "redisRunCallback user al x (Some (ObjAddr (length h0))) (ac2, e2) = Inr (ac3, e3)" "called (ac2, e2\<lparr>e_log := e_log e2 @ evs\<rparr>) calls (ac3, e3) n"
    "holds (ac3, e3) (out @ sent_bytes (accepted_calls (closing ac2) calls)) (tl xs @ (if sub then [] else sent_callbacks (accepted_calls (closing ac2) calls)))
      (ys @ (if sub then sent_callbacks (accepted_calls (closing ac2) calls) else []))"
    using run_callback_spec [OF al pol f(2) [folded ac2_def e2_def] fits sub2 calls_def] unfolding evs_def by blast
  have c3: "lasting ac3 = lasting ac" "c_reader (ac_c ac3) = Some r1" "e_replies e3 = h" "e_world e3 = e_world e" "e_log e3 = e_log e @ evs @ replicate n EvAddWrite"
    "has_flag (ac_flags ac3) REDIS_DISCONNECTING \<longleftrightarrow> has_flag (ac_flags ac) REDIS_DISCONNECTING \<or> ApiDisconnect \<in> set calls"
    "has_flag (ac_flags ac3) REDIS_FREEING \<longleftrightarrow> ApiFree \<in> set calls"
    using rc(2) l2 fr by (simp_all add: called_def e2_def e1_def)
  have fn: "r_fn r1 = defaultFunctions al" using r1(1) by (simp add: idle_def)
  have fo: "free_object ac3 (ObjAddr (length h0)) e3 = Inr (e3\<lparr>e_replies := h1\<rparr>)"
    unfolding h1_def by (rule free_object_reply [OF c3(2) fn]) (simp add: c3(3) h_def)
  have "process_loop (Suc k) user al cb (ac, e) =
      (if ApiFree \<in> set calls then gone (asyncFree user al (ac3, e3\<lparr>e_replies := h1\<rparr>)) else process_loop k user al x (ac3, e3\<lparr>e_replies := h1\<rparr>))"
  proof (cases "cb_fn x")
    case None
    then have "ac3 = ac2" "e3 = e2" "calls = []" using rc(1) by (simp_all add: redisRunCallback_def calls_def calls_of_def)
    then show ?thesis using r1(3) f(1) fo None by (simp add: ac2_def ac1_def e2_def e1_def)
  next
    case (Some fn)
    then show ?thesis using r1(3) f(1) fo rc(1) c3(7) by (simp add: ac2_def ac1_def e2_def e1_def)
  qed
  moreover have "handled user x v (evs, calls)"
    using reads_as_flatten [OF p(2), of h0] unfolding handled_def evs_def calls_def by (auto simp: e2_def e1_def h_def)
  moreover have "conn al (ac3, e3\<lparr>e_replies := h1\<rparr>) h1 (None, []) b1"
    using cn r1(1,2) c3(2) lasting_flags [OF c3(1)] lasting_sel(8) [OF c3(1)] by (simp add: conn_def idle_waiting)
  ultimately show ?thesis using c3 rc(3) l2(2) unfolding h1_def
    by (intro exI [of _ ac3] exI [of _ "e3\<lparr>e_replies := h0 @ replicate (reply_size v) None\<rparr>"] exI [of _ evs] exI [of _ calls] exI [of _ n]) (cases sub; simp add: holds_replies del: process_loop.simps)
qed

text \<open>The last round: no further reply is complete.\<close>

lemma process_last:
  assumes al: "\<not> may_fail al" and cn: "conn al (ac, e) h0 st b" and hd: "holds (ac, e) out xs ys" and p: "parse st b = Wait st1 b1"
  shows "\<exists>ac' e'. process_loop (Suc k) user al cb (ac, e) =
      (if has_flag (ac_flags ac) REDIS_DISCONNECTING \<and> out = [] \<and> xs = [] then asyncDisconnect user al (ac', e') else Inr (Some (Some ac', e'))) \<and>
    conn al (ac', e') h0 st1 b1 \<and> holds (ac', e') out xs ys \<and> lasting ac' = lasting ac \<and> ac_flags ac' = ac_flags ac \<and> e_log e' = e_log e \<and> e_world e' = e_world e"
proof -
  from cn obtain r where r: "\<not> blocking (ac_c ac)" "c_reader (ac_c ac) = Some r" "waiting al h0 r (e_replies e) st b" "r_pos r < 1024"
    by (auto simp: conn_def)
  obtain r1 h1 where r1: "waiting al h0 r1 h1 st1 b1" "r_pos r1 < 1024" "redisGetReply al (ac_c ac) (e_replies e) (e_world e) =
      Inr (Some (REDIS_OK, None, (ac_c ac)\<lparr>c_reader := Some r1\<rparr>, h1, e_world e))"
    using get_reply_async(2) [OF al r p, of "e_world e"] by blast
  from hd obtain ob as bs where ob: "c_obuf (ac_c ac) = Some ob" "sds_ok ob" "sds_val ob = out" "dicts_ok ac" "queues_at ac (e_callbacks e) as xs bs ys"
    by (auto simp: holds_def)
  have o: "sdslen ob = 0 \<longleftrightarrow> out = []" using ob(2,3) by (simp add: sdslen_val)
  have l: "l_head (ac_replies ac) = None \<longleftrightarrow> xs = []" using ob(5) by (cases as) (auto simp: queues_at_def list_at_def)
  let ?ac = "ac\<lparr>ac_c := (ac_c ac)\<lparr>c_reader := Some r1\<rparr>\<rparr>" and ?e = "e\<lparr>e_replies := h1\<rparr>"
  have "process_loop (Suc k) user al cb (ac, e) =
      (if has_flag (ac_flags ac) REDIS_DISCONNECTING \<and> out = [] \<and> xs = [] then asyncDisconnect user al (?ac, ?e) else Inr (Some (Some ?ac, ?e)))"
    using r1(3) ob(1) o l cn by (simp add: conn_def Let_def)
  moreover have "conn al (?ac, ?e) h0 st1 b1" using cn r1(1,2) by (simp add: conn_def)
  moreover have "holds (?ac, ?e) out xs ys" using ob by (intro holdsI [of _ ob _ _ as _ bs]) (simp_all add: queues_at_def dicts_ok_def)
  ultimately show ?thesis by (intro exI [of _ ?ac] exI [of _ ?e]) (simp add: lasting_def)
qed

declare process_loop.simps [simp del]

section \<open>Runs\<close>

text \<open>The events that the application sees: its callbacks and the end of the connection, not the hooks for reading and writing.\<close>

definition visible :: "event list \<Rightarrow> event list" where
  "visible = filter (\<lambda>ev. case ev of EvCallback _ _ _ \<Rightarrow> True | EvConnect _ _ \<Rightarrow> True | EvDisconnect _ _ \<Rightarrow> True | EvCleanup \<Rightarrow> True | _ \<Rightarrow> False)"

lemma visible_simps [simp]:
  "visible [] = []" "visible (l @ l') = visible l @ visible l'" "visible (replicate n EvAddWrite) = []"
  "visible (if c then [EvAddRead] else []) = []" "visible (callback_event r cb) = callback_event r cb" "visible (last_events ac st) = last_events ac st"
  by (auto simp: visible_def callback_event_def last_events_def split: option.split)

lemma visible_callbacks [simp]: "visible (concat (map (callback_event r) cbs)) = concat (map (callback_event r) cbs)"
  by (induction cbs) simp_all

text \<open>How the application can have answered the replies \<open>vs\<close> with the callbacks \<open>cbs\<close>: \<open>tr\<close> has what each callback saw and the calls it made.  Only a
  callback that frees the context, or a reason \<open>stop\<close>, ends this early.\<close>

type_synonym trace = "(event list \<times> api_call list) list"

definition answered :: "user_code \<Rightarrow> bool \<Rightarrow> redisCallback list \<Rightarrow> reply list \<Rightarrow> trace \<Rightarrow> bool" where
  "answered user stop cbs vs tr \<longleftrightarrow> length tr \<le> length vs \<and> (\<forall>i < length tr. handled user (cbs ! i) (vs ! i) (tr ! i)) \<and>
     ApiFree \<notin> set (concat (map snd (butlast tr))) \<and> (ApiFree \<in> set (concat (map snd tr)) \<or> stop \<or> length tr = length vs)"

text \<open>Where a run ends.  When the context was freed, or was to be disconnected with nothing left to write and to wait for, it is gone: the
  callbacks that were left have run with NULL, the connection is closed, and every reply, an unfinished one included, is
  freed.  Otherwise it goes on with what it holds, and the cells of the \<open>k\<close> objects of the replies are free.\<close>

definition settled :: "allocator \<Rightarrow> astate \<Rightarrow> reply_heap \<Rightarrow> nat \<Rightarrow> trace \<Rightarrow> string \<Rightarrow> redisCallback list \<Rightarrow> redisCallback list \<Rightarrow>
    pstate \<Rightarrow> string \<Rightarrow> gstate \<Rightarrow> bool" where
  "settled al = (\<lambda>(ac, e) h0 k tr out xs ys st b (g, e').
     if ApiFree \<in> set (concat (map snd tr)) \<or> (closing ac \<or> ApiDisconnect \<in> set (concat (map snd tr))) \<and> out = [] \<and> xs = [] then
       g = None \<and>
       (\<exists>l h n. e_log e' = e_log e @ l \<and>
          visible l = concat (map fst tr) @ concat (map (callback_event (None, h)) (held_callbacks ac xs ys)) @ last_events ac REDIS_OK \<and>
          e_replies e' = h0 @ replicate n None) \<and>
       w_closed (e_world e') = w_closed (e_world e) @ (if 0 < c_fd (ac_c ac) then [c_fd (ac_c ac)] else [])
     else
       \<exists>ac' l. g = Some ac' \<and> e_log e' = e_log e @ l \<and> visible l = concat (map fst tr) \<and>
         conn al (ac', e') (h0 @ replicate k None) st b \<and> holds (ac', e') out xs ys \<and> lasting ac' = lasting ac \<and>
         \<not> has_flag (ac_flags ac') REDIS_FREEING \<and> (closing ac' \<longleftrightarrow> closing ac \<or> ApiDisconnect \<in> set (concat (map snd tr))) \<and>
         w_closed (e_world e') = w_closed (e_world e))"

text \<open>What a context holds after replies: the callbacks that were not run, and the commands that the callbacks have sent.\<close>

definition after_replies :: "allocator \<Rightarrow> bool \<Rightarrow> astate \<Rightarrow> reply_heap \<Rightarrow> string \<Rightarrow> redisCallback list \<Rightarrow> redisCallback list \<Rightarrow> reply list \<Rightarrow>
    pstate \<Rightarrow> string \<Rightarrow> trace \<Rightarrow> gstate \<Rightarrow> bool" where
  "after_replies al sub s h0 out xs ys vs st b tr g =
     (let new = accepted_calls (closing (fst s)) (concat (map snd tr)) in
      settled al s h0 (sum_list (map reply_size vs)) tr (out @ sent_bytes new) (drop (length tr) xs @ (if sub then [] else sent_callbacks new))
        (ys @ (if sub then sent_callbacks new else [])) st b g)"

lemma held_lasting:
  assumes "lasting ac' = lasting ac"
  shows "held_callbacks ac' xs ys = held_callbacks ac xs ys" "last_events ac' st = last_events ac st"
  unfolding held_callbacks_def last_events_def lasting_sel [OF assms] lasting_flags(2) [OF assms] by (rule refl)+

lemma answered_append:
  assumes "answered user False cbs vs tr" "ApiFree \<notin> set (concat (map snd tr))" "answered user stop cbs' vs' tr'" "length cbs = length vs"
  shows "answered user stop (cbs @ cbs') (vs @ vs') (tr @ tr')"
proof -
  have l: "length tr = length vs" using assms(1,2) by (auto simp: answered_def)
  have "handled user ((cbs @ cbs') ! i) ((vs @ vs') ! i) ((tr @ tr') ! i)" if "i < length (tr @ tr')" for i
    using that assms(1,3,4) l by (cases "i < length vs") (auto simp: answered_def nth_append)
  moreover have "set (concat (map snd (butlast (tr @ tr')))) \<subseteq> set (concat (map snd tr)) \<union> set (concat (map snd (butlast tr')))"
    by (auto simp: butlast_append dest: in_set_butlastD)
  ultimately show ?thesis using assms(1-3) l unfolding answered_def by auto
qed

lemma answered_one: "handled user x v (evs, calls) \<Longrightarrow> answered user False [x] [v] [(evs, calls)]"
  by (simp add: answered_def)

lemma settled_trans:
  assumes s: "settled al (ac1, e1) (h0 @ replicate k None) k' tr' out xs ys st b (g, e')"
    and a: "lasting ac1 = lasting ac" "closing ac1 \<longleftrightarrow> closing ac \<or> ApiDisconnect \<in> set (concat (map snd tr))" "ApiFree \<notin> set (concat (map snd tr))"
      "e_log e1 = e_log e @ l" "visible l = concat (map fst tr)" "w_closed (e_world e1) = w_closed (e_world e)"
  shows "settled al (ac, e) h0 (k + k') (tr @ tr') out xs ys st b (g, e')"
proof -
  note he = held_lasting [OF a(1)] and fd = lasting_sel(7) [OF a(1)]
  show ?thesis
  proof (cases "ApiFree \<in> set (concat (map snd tr')) \<or> (closing ac1 \<or> ApiDisconnect \<in> set (concat (map snd tr'))) \<and> out = [] \<and> xs = []")
    case True
    have c: "ApiFree \<in> set (concat (map snd (tr @ tr'))) \<or> (closing ac \<or> ApiDisconnect \<in> set (concat (map snd (tr @ tr')))) \<and> out = [] \<and> xs = []"
      using True a(2) by auto
    obtain l' h n where r: "g = None" "e_log e' = e_log e1 @ l'"
      "visible l' = concat (map fst tr') @ concat (map (callback_event (None, h)) (held_callbacks ac1 xs ys)) @ last_events ac1 REDIS_OK"
      "e_replies e' = (h0 @ replicate k None) @ replicate n None" "w_closed (e_world e') = w_closed (e_world e1) @ (if 0 < c_fd (ac_c ac1) then [c_fd (ac_c ac1)] else [])"
      using s True unfolding settled_def prod.case if_P [OF True] by blast
    have "e_log e' = e_log e @ (l @ l')" "visible (l @ l') = concat (map fst (tr @ tr')) @ concat (map (callback_event (None, h)) (held_callbacks ac xs ys)) @ last_events ac REDIS_OK"
      "e_replies e' = h0 @ replicate (k + n) None" "w_closed (e_world e') = w_closed (e_world e) @ (if 0 < c_fd (ac_c ac) then [c_fd (ac_c ac)] else [])"
      using r(2-5) a(4-6) he fd by (simp_all add: replicate_add)
    then show ?thesis using r(1) unfolding settled_def prod.case if_P [OF c] by blast
  next
    case False
    have c: "\<not> (ApiFree \<in> set (concat (map snd (tr @ tr'))) \<or> (closing ac \<or> ApiDisconnect \<in> set (concat (map snd (tr @ tr')))) \<and> out = [] \<and> xs = [])"
      using False a(2,3) by auto
    obtain ac' l' where r: "g = Some ac'" "e_log e' = e_log e1 @ l'" "visible l' = concat (map fst tr')"
      "conn al (ac', e') ((h0 @ replicate k None) @ replicate k' None) st b" "holds (ac', e') out xs ys" "lasting ac' = lasting ac1"
      "\<not> has_flag (ac_flags ac') REDIS_FREEING" "closing ac' \<longleftrightarrow> closing ac1 \<or> ApiDisconnect \<in> set (concat (map snd tr'))"
      "w_closed (e_world e') = w_closed (e_world e1)" using s unfolding settled_def prod.case if_not_P [OF False] by blast
    have "e_log e' = e_log e @ (l @ l')" "visible (l @ l') = concat (map fst (tr @ tr'))" "conn al (ac', e') (h0 @ replicate (k + k') None) st b"
      "lasting ac' = lasting ac" "closing ac' \<longleftrightarrow> closing ac \<or> ApiDisconnect \<in> set (concat (map snd (tr @ tr')))" "w_closed (e_world e') = w_closed (e_world e)"
      using r(2-4,6,8,9) a by (auto simp: replicate_add)
    then show ?thesis using r(1,5,7) unfolding settled_def prod.case if_not_P [OF c] by blast
  qed
qed

lemma after_trans:
  fixes tr :: trace
  assumes new: "new = accepted_calls (closing ac) (concat (map snd tr))"
    and s: "after_replies al sub (ac1, e1) (h0 @ replicate (sum_list (map reply_size vs)) None) (out @ sent_bytes new)
      (drop (length tr) xs @ (if sub then [] else sent_callbacks new)) (ys @ (if sub then sent_callbacks new else [])) vs' st b tr' (g, e')"
    and a: "lasting ac1 = lasting ac" "closing ac1 \<longleftrightarrow> closing ac \<or> ApiDisconnect \<in> set (concat (map snd tr))" "ApiFree \<notin> set (concat (map snd tr))"
      "e_log e1 = e_log e @ l" "visible l = concat (map fst tr)" "w_closed (e_world e1) = w_closed (e_world e)"
    and len: "sub \<or> length tr + length tr' \<le> length xs"
  shows "after_replies al sub (ac, e) h0 out xs ys (vs @ vs') st b (tr @ tr') (g, e')"
proof -
  let ?c = "concat (map snd tr)" and ?c' = "concat (map snd tr')"
  define new' where "new' = accepted_calls (closing ac1) ?c'"
  have "closing ac1 \<longleftrightarrow> closing ac \<or> (\<exists>c \<in> set ?c. \<not> is_command c)" using a(2,3) by (auto simp: not_command)
  then have n: "accepted_calls (closing ac) (concat (map snd (tr @ tr'))) = new @ new'" by (simp add: accepted_append new new'_def)
  have d: "drop (length tr') (drop (length tr) xs @ (if sub then [] else sent_callbacks new)) @ (if sub then [] else sent_callbacks new') =
      drop (length (tr @ tr')) xs @ (if sub then [] else sent_callbacks (new @ new'))"
    using len by (auto simp: add.commute)
  have y: "(ys @ (if sub then sent_callbacks new else [])) @ (if sub then sent_callbacks new' else []) = ys @ (if sub then sent_callbacks (new @ new') else [])"
    by simp
  have "settled al (ac1, e1) (h0 @ replicate (sum_list (map reply_size vs)) None) (sum_list (map reply_size vs')) tr' (out @ sent_bytes (new @ new'))
      (drop (length (tr @ tr')) xs @ (if sub then [] else sent_callbacks (new @ new'))) (ys @ (if sub then sent_callbacks (new @ new') else [])) st b (g, e')"
    using s unfolding after_replies_def Let_def fst_conv new'_def [symmetric] d y by simp
  from settled_trans [OF this a] show ?thesis unfolding after_replies_def Let_def fst_conv n by simp
qed

lemma free_settled:
  assumes cl: "closing ac" "has_flag (ac_flags ac) REDIS_FREEING \<or> ac_err ac = 0" and cn: "conn al (ac, e) h0 st b" and hd: "holds (ac, e) out xs ys"
  shows "\<exists>e' n. asyncFree user al (ac, e) = Inr (Some e') \<and>
    e_log e' = e_log e @ concat (map (callback_event (None, e_replies e)) (held_callbacks ac xs ys)) @ last_events ac REDIS_OK \<and>
    e_replies e' = h0 @ replicate n None \<and> w_closed (e_world e') = w_closed (e_world e) @ (if 0 < c_fd (ac_c ac) then [c_fd (ac_c ac)] else [])"
proof -
  from cn obtain r where r: "c_reader (ac_c ac) = Some r" "waiting al h0 r (e_replies e) st b" by (auto simp: conn_def)
  from waiting_freed [OF r(2)] obtain n where n: "reader_freed (c_reader (ac_c ac)) (e_replies e) (h0 @ replicate n None)" by (auto simp: reader_freed_def r(1))
  from hd obtain as bs where "queues_at ac (e_callbacks e) as xs bs ys" "dicts_ok ac" by (auto simp: holds_def)
  from asyncFree_spec [OF cl(1) this n, of user al] cl(2) show ?thesis by auto
qed

lemma disconnect_settled:
  assumes dc: "has_flag (ac_flags ac) REDIS_DISCONNECTING" and cn: "conn al (ac, e) h0 st b" and hd: "holds (ac, e) out [] ys"
  shows "\<exists>e' n. asyncDisconnect user al (ac, e) = Inr (Some (None, e')) \<and>
    e_log e' = e_log e @ concat (map (callback_event (None, e_replies e)) (held_callbacks ac [] ys)) @ last_events ac REDIS_OK \<and>
    e_replies e' = h0 @ replicate n None \<and> w_closed (e_world e') = w_closed (e_world e) @ (if 0 < c_fd (ac_c ac) then [c_fd (ac_c ac)] else [])"
proof -
  let ?ac = "redisAsyncCopyError ac"
  have e: "ac_err ?ac = 0" "closing ?ac" using cn dc by (simp_all add: redisAsyncCopyError_def conn_def closing_iff)
  have "conn al (?ac, e) h0 st b" "holds (?ac, e) out [] ys"
    using cn hd by (simp_all add: redisAsyncCopyError_def conn_def holds_def queues_at_def dicts_ok_def)
  from free_settled [OF e(2) _ this, of user] e(1) obtain e' n where f: "asyncFree user al (?ac, e) = Inr (Some e')"
    "e_log e' = e_log e @ concat (map (callback_event (None, e_replies e)) (held_callbacks ?ac [] ys)) @ last_events ?ac REDIS_OK"
    "e_replies e' = h0 @ replicate n None" "w_closed (e_world e') = w_closed (e_world e) @ (if 0 < c_fd (ac_c ?ac) then [c_fd (ac_c ?ac)] else [])" by blast
  have same: "held_callbacks ?ac [] ys = held_callbacks ac [] ys" "last_events ?ac REDIS_OK = last_events ac REDIS_OK" "c_fd (ac_c ?ac) = c_fd (ac_c ac)"
    by (simp_all add: redisAsyncCopyError_def held_callbacks_def last_events_def split: option.split)
  from hd obtain as where l: "list_at (e_callbacks e) (ac_replies ac) as []" by (auto simp: holds_def queues_at_def)
  then have "as = []" by (cases as) (auto simp: list_at_def)
  then have "redisShiftCallback (ac_replies ?ac) (e_callbacks e) = Inr (None, ac_replies ac, e_callbacks e)"
    using l by (simp add: redisAsyncCopyError_def shift_at_empty)
  then have "asyncDisconnect user al (ac, e) = Inr (Some (None, e'))" using e(1) f(1) by (simp add: asyncDisconnect_def gone_def)
  then show ?thesis using f(2-4) unfolding same by blast
qed

lemma polite_calls: "polite M user \<Longrightarrow> handled user x v (evs, calls) \<Longrightarrow> length (sent_bytes calls) \<le> M"
  by (auto simp: polite_def handled_def calls_of_def split: option.splits)

lemma process_all:
  assumes al: "alloc_ok al" "\<not> may_fail al" and pol: "polite M user"
  shows "conn al (ac, e) h0 st b \<Longrightarrow> \<not> has_flag (ac_flags ac) REDIS_FREEING \<Longrightarrow> holds (ac, e) out xs ys \<Longrightarrow> parses st b vs st' b' \<Longrightarrow>
    routable sub xs vs \<Longrightarrow> sub \<longleftrightarrow> has_flag (ac_flags ac) REDIS_SUBSCRIBED \<Longrightarrow> length vs < n \<Longrightarrow> length out + M * length vs \<le> 2146434047 \<Longrightarrow>
    \<exists>g e' tr. process_loop n user al cb (ac, e) = Inr (Some (g, e')) \<and> answered user False (routed (dict_abs sds_val (ac_channels ac)) xs cb vs) vs tr \<and>
      after_replies al sub (ac, e) h0 out xs ys vs st' b' tr (g, e') \<and> (g \<noteq> None \<longrightarrow> e_world e' = e_world e)"
proof (induction vs arbitrary: h0 ac e st b out xs ys n cb)
  case Nil
  from Nil.prems(7) obtain k where n: "n = Suc k" by (cases n) auto
  have dc: "closing ac \<longleftrightarrow> has_flag (ac_flags ac) REDIS_DISCONNECTING" using Nil.prems(2) by (simp add: closing_iff)
  have p: "parse st b = Wait st' b'" using Nil.prems(4) by simp
  obtain ac1 e1 where s: "process_loop (Suc k) user al cb (ac, e) =
      (if has_flag (ac_flags ac) REDIS_DISCONNECTING \<and> out = [] \<and> xs = [] then asyncDisconnect user al (ac1, e1) else Inr (Some (Some ac1, e1)))"
    "conn al (ac1, e1) h0 st' b'" "holds (ac1, e1) out xs ys" "lasting ac1 = lasting ac" "ac_flags ac1 = ac_flags ac" "e_log e1 = e_log e" "e_world e1 = e_world e"
    using process_last [OF al(2) Nil.prems(1,3) p, of k user cb] by blast
  have ans: "answered user False (routed (dict_abs sds_val (ac_channels ac)) xs cb []) [] []" by (simp add: answered_def)
  show ?case
  proof (cases "has_flag (ac_flags ac) REDIS_DISCONNECTING \<and> out = [] \<and> xs = []")
    case True
    then have "has_flag (ac_flags ac1) REDIS_DISCONNECTING" "holds (ac1, e1) [] [] ys" using s(3,5) by simp_all
    from disconnect_settled [OF this(1) s(2) this(2), of user] obtain e' m where d: "asyncDisconnect user al (ac1, e1) = Inr (Some (None, e'))"
      "e_log e' = e_log e1 @ concat (map (callback_event (None, e_replies e1)) (held_callbacks ac1 [] ys)) @ last_events ac1 REDIS_OK"
      "e_replies e' = h0 @ replicate m None" "w_closed (e_world e') = w_closed (e_world e1) @ (if 0 < c_fd (ac_c ac1) then [c_fd (ac_c ac1)] else [])" by blast
    let ?l = "concat (map (callback_event (None, e_replies e1)) (held_callbacks ac [] ys)) @ last_events ac REDIS_OK"
    have "\<exists>l h m. e_log e' = e_log e @ l \<and> visible l = concat (map (callback_event (None, h)) (held_callbacks ac [] ys)) @ last_events ac REDIS_OK \<and> e_replies e' = h0 @ replicate m None"
      using d(2,3) s(6) unfolding held_lasting [OF s(4)] by (intro exI [of _ ?l] exI [of _ "e_replies e1"] exI [of _ m]) simp
    then have "after_replies al sub (ac, e) h0 out xs ys [] st' b' [] (None, e')"
      using d(4) True dc s(7) lasting_sel(7) [OF s(4)] by (simp add: after_replies_def settled_def accepted_calls_def)
    then show ?thesis using s(1) d(1) True ans n by (intro exI [of _ None] exI [of _ e'] exI [of _ "[]"]) simp
  next
    case False
    have "closing ac1 = closing ac" "\<not> has_flag (ac_flags ac1) REDIS_FREEING" using s(5) Nil.prems(2) by simp_all
    then have "after_replies al sub (ac, e) h0 out xs ys [] st' b' [] (Some ac1, e1)"
      using False dc s(2-7) by (auto simp: after_replies_def settled_def accepted_calls_def)
    then show ?thesis using s(1,7) False ans n by (intro exI [of _ "Some ac1"] exI [of _ e1] exI [of _ "[]"]) simp
  qed
next
  case (Cons v vs)
  from Cons.prems(7) obtain k where n: "n = Suc k" "length vs < k" by (cases n) auto
  let ?m = "dict_abs sds_val (ac_channels ac)"
  define x where "x = route ?m xs cb v"
  from Cons.prems(4) obtain b1 where p: "parse st b = Done v b1" "encodable v" "parses (None, []) b1 vs st' b'" by auto
  have rt: "xs \<noteq> [] \<or> sub \<and> is_message v" "routable sub (tl xs) vs" using Cons.prems(5) by (simp_all add: routable_Cons)
  have fits: "length out + M \<le> 2146434047" using Cons.prems(8) by simp
  obtain ac1 e1 evs calls m where s: "process_loop (Suc k) user al cb (ac, e) =
      (if ApiFree \<in> set calls then gone (asyncFree user al (ac1, e1)) else process_loop k user al x (ac1, e1))"
    "handled user x v (evs, calls)" "conn al (ac1, e1) (h0 @ replicate (reply_size v) None) (None, []) b1" "lasting ac1 = lasting ac"
    "holds (ac1, e1) (out @ sent_bytes (accepted_calls (closing ac) calls)) (tl xs @ (if sub then [] else sent_callbacks (accepted_calls (closing ac) calls)))
      (ys @ (if sub then sent_callbacks (accepted_calls (closing ac) calls) else []))"
    "has_flag (ac_flags ac1) REDIS_DISCONNECTING \<longleftrightarrow> has_flag (ac_flags ac) REDIS_DISCONNECTING \<or> ApiDisconnect \<in> set calls"
    "has_flag (ac_flags ac1) REDIS_FREEING \<longleftrightarrow> ApiFree \<in> set calls" "e_log e1 = e_log e @ evs @ replicate m EvAddWrite" "e_world e1 = e_world e"
    using process_round [OF al pol Cons.prems(1-3) fits Cons.prems(6) p(1,2) rt(1) x_def, of k] by blast
  define new where "new = accepted_calls (closing ac) calls"
  have vis: "visible (evs @ replicate m EvAddWrite) = evs" using s(2) by (auto simp: handled_def)
  have ry: "routed ?m xs cb (v # vs) = [x] @ routed ?m (tl xs) x vs" by (simp add: x_def Let_def)
  have tl: "drop (length [(evs, calls)]) xs = tl xs" by (simp add: drop_Suc)
  show ?case
  proof (cases "ApiFree \<in> set calls")
    case True
    let ?xs = "tl xs @ (if sub then [] else sent_callbacks new)" and ?ys = "ys @ (if sub then sent_callbacks new else [])"
    have "closing ac1" using True s(7) by (simp add: closing_iff)
    from free_settled [OF this _ s(3,5), of user] True s(7) obtain e' j where f: "asyncFree user al (ac1, e1) = Inr (Some e')"
      "e_log e' = e_log e1 @ concat (map (callback_event (None, e_replies e1)) (held_callbacks ac1 ?xs ?ys)) @ last_events ac1 REDIS_OK"
      "e_replies e' = (h0 @ replicate (reply_size v) None) @ replicate j None"
      "w_closed (e_world e') = w_closed (e_world e1) @ (if 0 < c_fd (ac_c ac1) then [c_fd (ac_c ac1)] else [])" unfolding new_def by blast
    let ?l = "evs @ replicate m EvAddWrite @ concat (map (callback_event (None, e_replies e1)) (held_callbacks ac ?xs ?ys)) @ last_events ac REDIS_OK"
    have "\<exists>l h i. e_log e' = e_log e @ l \<and> visible l = evs @ concat (map (callback_event (None, h)) (held_callbacks ac ?xs ?ys)) @ last_events ac REDIS_OK \<and>
        e_replies e' = h0 @ replicate i None"
      using f(2,3) s(8) vis unfolding held_lasting [OF s(4)]
      by (intro exI [of _ ?l] exI [of _ "e_replies e1"] exI [of _ "reply_size v + j"]) (simp add: replicate_add)
    then have "after_replies al sub (ac, e) h0 out xs ys (v # vs) st' b' [(evs, calls)] (None, e')"
      using f(4) True s(9) lasting_sel(7) [OF s(4)] unfolding after_replies_def Let_def tl by (cases sub; simp add: settled_def new_def)
    moreover have "answered user False (routed ?m xs cb (v # vs)) (v # vs) [(evs, calls)]" using s(2) True unfolding ry by (simp add: answered_def)
    ultimately show ?thesis using s(1) f(1) True n(1) by (intro exI [of _ None] exI [of _ e'] exI [of _ "[(evs, calls)]"]) (simp add: gone_def)
  next
    case False
    have "length (sent_bytes new) \<le> M" using polite_calls [OF pol s(2)] sent_bytes_accepted [of "closing ac" calls] unfolding new_def by linarith
    then have len: "length (out @ sent_bytes new) + M * length vs \<le> 2146434047" using Cons.prems(8) by simp
    have fr: "\<not> has_flag (ac_flags ac1) REDIS_FREEING" using False s(7) by simp
    have sub1: "sub \<longleftrightarrow> has_flag (ac_flags ac1) REDIS_SUBSCRIBED" using Cons.prems(6) lasting_flags(3) [OF s(4)] by simp
    have ch: "ac_channels ac1 = ac_channels ac" using lasting_sel(1) [OF s(4)] .
    have lx: "sub \<or> Suc (length vs) \<le> length xs" using routable_length [OF Cons.prems(5)] by simp
    have more: "length vs \<le> length (tl xs) \<or> (if sub then [] else sent_callbacks new) = []" using lx by auto
    have "routable sub (tl xs @ (if sub then [] else sent_callbacks new)) vs" using rt(2) by (auto simp: routable_def)
    from Cons.IH [OF s(3) fr s(5) [folded new_def] p(3) this sub1 n(2) len, of x] obtain g e' tr where r:
      "process_loop k user al x (ac1, e1) = Inr (Some (g, e'))" "answered user False (routed ?m (tl xs) x vs) vs tr"
      "after_replies al sub (ac1, e1) (h0 @ replicate (reply_size v) None) (out @ sent_bytes new) (tl xs @ (if sub then [] else sent_callbacks new))
        (ys @ (if sub then sent_callbacks new else [])) vs st' b' tr (g, e')" "g \<noteq> None \<longrightarrow> e_world e' = e_world e1"
      unfolding ch routed_more [OF more] by blast
    have lt: "sub \<or> length [(evs, calls)] + length tr \<le> length xs" using lx r(2) by (auto simp: answered_def)
    have "after_replies al sub (ac, e) h0 out xs ys ([v] @ vs) st' b' ([(evs, calls)] @ tr) (g, e')"
      by (rule after_trans [OF _ _ s(4) _ _ s(8) _ _ lt, where new = new])
        (use r(3) s(6,7,9) False fr vis tl Cons.prems(2) in \<open>auto simp: new_def closing_iff\<close>)
    moreover have "answered user False (routed ?m xs cb (v # vs)) ([v] @ vs) ([(evs, calls)] @ tr)"
      unfolding ry by (rule answered_append [OF answered_one [OF s(2)] _ r(2)]) (use False in simp_all)
    ultimately show ?thesis using s(1,9) r(1,4) False n(1) by (intro exI [of _ g] exI [of _ e'] exI [of _ "[(evs, calls)] @ tr"]) simp
  qed
qed

section \<open>Read events\<close>

lemma conn_unread: "conn al (ac, e) h0 st b \<Longrightarrow> unread (ac_c ac) = length b"
  by (auto simp: conn_def unread_def buffer_holds_def sdslen_val dest!: waiting_buffer)

text \<open>A read event feeds the data to the reader and processes what is complete.\<close>

lemma handle_read_feeds:
  assumes al: "alloc_ok al" "\<not> may_fail al" and cn: "conn al (ac, e) h0 st b" and hd: "holds (ac, e) out xs ys" and c: "has_flag (ac_flags ac) REDIS_CONNECTED"
    and w: "w_reads (e_world e) = x # rs" "readable x" "length b + length (chunk_of x) \<le> 2146434047"
  shows "\<exists>ac1 e1. redisAsyncHandleRead user al (ac, e) = redisProcessCallbacks user al (ac1, e1) \<and> conn al (ac1, e1) h0 st (b @ chunk_of x) \<and>
    holds (ac1, e1) out xs ys \<and> lasting ac1 = lasting ac \<and> ac_flags ac1 = ac_flags ac \<and> e_log e1 = e_log e @ (if ev_addRead ac then [EvAddRead] else []) \<and>
    w_closed (e_world e1) = w_closed (e_world e) \<and> w_reads (e_world e1) = rs"
proof -
  from cn obtain r where r: "c_reader (ac_c ac) = Some r" "waiting al h0 r (e_replies e) st b" "r_pos r < 1024" "c_err (ac_c ac) = 0" by (auto simp: conn_def)
  have "sds_fits (1024 + length b + length (chunk_of x))" using w(3) by (simp add: sds_fits_def)
  then obtain r1 where r1: "redisReaderFeed al r (Some (chunk_of x)) (length (chunk_of x)) (e_replies e) = Inr (REDIS_OK, r1, e_replies e)"
    "waiting al h0 r1 (e_replies e) st (b @ chunk_of x)" "r_pos r1 < 1024" by (rule feed_sim [OF al r(2,3)])
  have "\<exists>r2 er. redisBufferRead al (ac_c ac) (e_replies e) (e_world e) =
      Inr (Some (REDIS_OK, (ac_c ac)\<lparr>c_reader := Some r2\<rparr>, e_replies e, (e_world e)\<lparr>w_reads := rs, w_errno := er\<rparr>)) \<and>
      waiting al h0 r2 (e_replies e) st (b @ chunk_of x) \<and> r_pos r2 < 1024"
  proof (cases x)
    case (RdBytes d)
    then show ?thesis using r r1 w(1,2) by (intro exI [of _ r1] exI [of _ "w_errno (e_world e)"]) (simp add: redisBufferRead_def)
  next
    case (RdFail er)
    then show ?thesis using r w(1,2) by (intro exI [of _ r] exI [of _ er]) (simp add: redisBufferRead_def try_again_def)
  qed
  then obtain r2 er where f: "redisBufferRead al (ac_c ac) (e_replies e) (e_world e) =
      Inr (Some (REDIS_OK, (ac_c ac)\<lparr>c_reader := Some r2\<rparr>, e_replies e, (e_world e)\<lparr>w_reads := rs, w_errno := er\<rparr>))"
    "waiting al h0 r2 (e_replies e) st (b @ chunk_of x)" "r_pos r2 < 1024" by blast
  let ?ac = "ac\<lparr>ac_c := (ac_c ac)\<lparr>c_reader := Some r2\<rparr>\<rparr>"
  let ?e = "log_if (ev_addRead ac) EvAddRead (e\<lparr>e_replies := e_replies e, e_world := (e_world e)\<lparr>w_reads := rs, w_errno := er\<rparr>\<rparr>)"
  have "redisAsyncHandleRead user al (ac, e) = redisProcessCallbacks user al (?ac, ?e)"
    using f(1) c by (simp add: redisAsyncHandleRead_def when_connected_def)
  moreover have "conn al (?ac, ?e) h0 st (b @ chunk_of x)" using cn f(2,3) by (simp add: conn_def)
  moreover have "holds (?ac, ?e) out xs ys" using hd by (simp add: holds_def queues_at_def dicts_ok_def)
  ultimately show ?thesis by (intro exI [of _ ?ac] exI [of _ ?e]) (simp add: lasting_def)
qed

lemma handle_read_spec:
  assumes al: "alloc_ok al" "\<not> may_fail al" and pol: "polite M user" and cn: "conn al (ac, e) h0 st b" and fr: "\<not> has_flag (ac_flags ac) REDIS_FREEING"
    and hd: "holds (ac, e) out xs ys" and c: "has_flag (ac_flags ac) REDIS_CONNECTED" and sub: "sub \<longleftrightarrow> has_flag (ac_flags ac) REDIS_SUBSCRIBED"
    and w: "w_reads (e_world e) = x # rs" "readable x" "length b + length (chunk_of x) \<le> 2146434047"
    and p: "parses st (b @ chunk_of x) vs st' b'" "routable sub xs vs" "length out + M * length vs \<le> 2146434047"
  shows "\<exists>g e' tr. redisAsyncHandleRead user al (ac, e) = Inr (Some (g, e')) \<and> answered user False (routed (dict_abs sds_val (ac_channels ac)) xs null_callback vs) vs tr \<and>
    after_replies al sub (ac, e) h0 out xs ys vs st' b' tr (g, e') \<and> (g \<noteq> None \<longrightarrow> w_reads (e_world e') = rs)"
proof -
  obtain ac1 e1 where f: "redisAsyncHandleRead user al (ac, e) = redisProcessCallbacks user al (ac1, e1)" "conn al (ac1, e1) h0 st (b @ chunk_of x)"
    "holds (ac1, e1) out xs ys" "lasting ac1 = lasting ac" "ac_flags ac1 = ac_flags ac" "e_log e1 = e_log e @ (if ev_addRead ac then [EvAddRead] else [])"
    "w_closed (e_world e1) = w_closed (e_world e)" "w_reads (e_world e1) = rs" using handle_read_feeds [OF al cn hd c w, of user] by blast
  have n: "length vs < Suc (unread (ac_c ac1))" using parses_length [OF p(1)] conn_unread [OF f(2)] by simp
  have "\<not> has_flag (ac_flags ac1) REDIS_FREEING" "sub \<longleftrightarrow> has_flag (ac_flags ac1) REDIS_SUBSCRIBED" using fr sub f(5) by simp_all
  from process_all [OF al pol f(2) this(1) f(3) p(1,2) this(2) n p(3), of null_callback] obtain g e' tr where r:
    "process_loop (Suc (unread (ac_c ac1))) user al null_callback (ac1, e1) = Inr (Some (g, e'))"
    "answered user False (routed (dict_abs sds_val (ac_channels ac1)) xs null_callback vs) vs tr"
    "after_replies al sub (ac1, e1) h0 out xs ys vs st' b' tr (g, e')" "g \<noteq> None \<longrightarrow> e_world e' = e_world e1" by blast
  have len: "sub \<or> length ([] :: trace) + length tr \<le> length xs"
    using routable_length [OF p(2)] r(2) by (auto simp: answered_def)
  have "after_replies al sub (ac, e) h0 out xs ys ([] @ vs) st' b' ([] @ tr) (g, e')"
    by (rule after_trans [OF refl _ f(4) _ _ f(6) _ f(7) len]) (use r(3) f(5) in \<open>cases sub; simp add: accepted_calls_def\<close>)+
  then show ?thesis using f(1,8) r(1,2,4) lasting_sel(1) [OF f(4)]
    by (intro exI [of _ g] exI [of _ e'] exI [of _ tr]) (simp add: redisProcessCallbacks_def)
qed

lemma answered_take:
  assumes "answered user stop (take (length vs) xs) vs tr" "length vs \<le> length xs"
  shows "answered user stop xs vs tr"
  using assms by (auto simp: answered_def)

lemma example_conn:
  assumes "ctx_ok (fill_alloc NUL) c [] [] []"
  shows "conn (fill_alloc NUL) (example_context lst c, example_env h rs ws) [] (None, []) []"
proof -
  from assms obtain r h1 where r: "c_err c = 0" "c_reader c = Some r" "waiting (fill_alloc NUL) h1 r [] (None, []) []" "r_pos r < 1024"
    by (auto simp: ctx_ok_def reader_rep_def)
  moreover from waiting_start [OF r(3)] have "h1 = []" by simp
  ultimately show ?thesis by (simp add: conn_def example_context_def example_env_def flag_simps)
qed

lemma example_holds:
  assumes "ctx_ok (fill_alloc NUL) c [] [] []" "list_at h lst as xs"
  shows "holds (example_context lst c, example_env h rs ws) [] xs []"
proof -
  from assms(1) obtain b where "c_obuf c = Some b" "sds_ok b" "sds_val b = []" by (auto simp: ctx_ok_def)
  then show ?thesis using assms(2)
    by (intro holdsI [of _ b _ _ as _ "[]"]) (simp_all add: example_context_def example_env_def queues_at_def dicts_ok_def example_dict_ok)
qed

lemma example_flags:
  "has_flag (ac_flags (example_context lst c)) REDIS_CONNECTED" "\<not> has_flag (ac_flags (example_context lst c)) REDIS_FREEING"
  "\<not> has_flag (ac_flags (example_context lst c)) REDIS_SUBSCRIBED" "\<not> closing (example_context lst c)"
  by (simp_all add: example_context_def flag_simps)

text \<open>For the examples: callbacks of which number 1 sends PING with callback 3 and the others disconnect.\<close>

definition example_ping :: api_call where
  "example_ping = ApiCommand (Some 3) 0 (resp_command [''PING''] @ [NUL]) (length (resp_command [''PING'']))"

definition example_user :: user_code where
  "example_user fn privdata reply h = (if fn = 1 then [example_ping] else [ApiDisconnect])"

lemma example_polite: "polite 14 example_user"
proof -
  have "plain_command ''PING''" by code_simp
  then have "plain_call example_ping" by (auto simp: example_ping_def)
  moreover have "length (resp_command [''PING'']) = 14" by code_simp
  ultimately show ?thesis by (simp add: polite_def example_user_def example_ping_def)
qed

text \<open>What these callbacks do when two of them get replies.\<close>

definition example_callbacks :: "redisCallback list" where
  "example_callbacks = [\<lparr>cb_fn = Some 1, cb_privdata = 5\<rparr>, \<lparr>cb_fn = Some 2, cb_privdata = 6\<rparr>]"

definition example_trace :: "robj option \<times> reply_heap \<Rightarrow> robj option \<times> reply_heap \<Rightarrow> trace" where
  "example_trace r1 r2 = [([EvCallback 1 5 r1], [example_ping]), ([EvCallback 2 6 r2], [ApiDisconnect])]"

lemma example_handled:
  "handled example_user \<lparr>cb_fn = Some fn, cb_privdata = pd\<rparr> v t \<longleftrightarrow>
    (\<exists>o1 h. reads_as (o1, h) v \<and> t = ([EvCallback fn pd (o1, h)], if fn = 1 then [example_ping] else [ApiDisconnect]))"
  by (cases t) (auto simp: handled_def calls_of_def callback_event_def example_user_def)

lemma example_answered:
  assumes "answered example_user False example_callbacks [v1, v2] tr"
  obtains o1 h1 o2 h2 where "tr = example_trace (o1, h1) (o2, h2)" "reads_as (o1, h1) v1" "reads_as (o2, h2) v2"
proof -
  have hn: "length tr \<le> 2" "\<forall>i < length tr. handled example_user (example_callbacks ! i) ([v1, v2] ! i) (tr ! i)"
    "ApiFree \<in> set (concat (map snd tr)) \<or> length tr = 2" using assms unfolding answered_def by auto
  have "length tr = 2"
  proof (rule ccontr)
    assume n: "length tr \<noteq> 2"
    moreover have "length tr \<noteq> 0" using n hn(3) by auto
    ultimately have "length tr = 1" using hn(1) by linarith
    then obtain t where "tr = [t]" by (auto simp: length_Suc_conv)
    then show False using hn(2,3) n by (auto simp: example_callbacks_def example_handled example_ping_def)
  qed
  then obtain t1 t2 where t: "tr = [t1, t2]" by (auto simp: numeral_2_eq_2 length_Suc_conv)
  show ?thesis using hn(2) [rule_format, of 0] hn(2) [rule_format, of 1] that by (auto simp: t example_callbacks_def example_handled example_trace_def)
qed

lemma example_after:
  assumes "after_replies al False (ac, e) h0 [] example_callbacks [] vs st b (example_trace r1 r2) (g, e')" "\<not> closing ac"
  obtains ac' l where "g = Some ac'" "e_log e' = e_log e @ l" "visible l = [EvCallback 1 5 r1, EvCallback 2 6 r2]"
    "holds (ac', e') (resp_command [''PING'']) [\<lparr>cb_fn = Some 3, cb_privdata = 0\<rparr>] []" "closing ac'"
proof -
  have p: "example_ping \<noteq> ApiFree" "example_ping \<noteq> ApiDisconnect" "is_command example_ping" "call_bytes example_ping = resp_command [''PING'']"
    "resp_command [''PING''] \<noteq> []" "call_callbacks example_ping = [\<lparr>cb_fn = Some 3, cb_privdata = 0\<rparr>]"
    by (simp_all add: example_ping_def resp_command_def)
  show ?thesis using assms p that unfolding after_replies_def settled_def example_trace_def example_callbacks_def by (auto simp: accepted_calls_def)
qed

section \<open>Properties\<close>

text \<open>C6: replies reach their callbacks in the order of the commands, on a connected context that is neither subscribed nor monitoring, when no
  allocation fails.  When the data that a read event delivers, after what the reader holds already, completes the replies \<open>vs\<close>, and at
  least as many callbacks are pending, the first callback runs with the first reply, the second with the second, and so on,
  each being able to read its reply in full; every reply is then freed.  The callbacks may send further commands (that are
  not subscriptions or MONITOR), disconnect and free the context.  Only a callback that frees the context keeps the
  callbacks after it from getting their replies: it and all that are left and new then run with NULL and the context is
  gone.  It is also gone after the run when a callback has asked to disconnect and nothing is left to write or to wait
  for.  Otherwise the callbacks that are left stay pending in order, before those of the commands that were sent, whose
  bytes are in the output buffer, and the reader keeps the unfinished rest of the input.\<close>

theorem redisAsyncHandleRead_in_order:
  assumes al: "alloc_ok al" "\<not> may_fail al" and pol: "polite M user" and cn: "conn al (ac, e) h0 st b" and hd: "holds (ac, e) out xs ys"
    and fl: "has_flag (ac_flags ac) REDIS_CONNECTED" "\<not> has_flag (ac_flags ac) REDIS_FREEING" "\<not> has_flag (ac_flags ac) REDIS_SUBSCRIBED"
    and w: "w_reads (e_world e) = RdBytes d # rs" "d \<noteq> []" "length b + length d \<le> 2146434047"
    and p: "parses st (b @ d) vs st' b'" "length vs \<le> length xs" "length out + M * length vs \<le> 2146434047"
  shows "\<exists>g e' tr. redisAsyncHandleRead user al (ac, e) = Inr (Some (g, e')) \<and> answered user False xs vs tr \<and>
    after_replies al False (ac, e) h0 out xs ys vs st' b' tr (g, e')"
proof -
  have "readable (RdBytes d)" "length b + length (chunk_of (RdBytes d)) \<le> 2146434047" "parses st (b @ chunk_of (RdBytes d)) vs st' b'" using w p by simp_all
  moreover have "routable False xs vs" using p(2) by (auto simp: routable_def)
  moreover have "False \<longleftrightarrow> has_flag (ac_flags ac) REDIS_SUBSCRIBED" using fl(3) by simp
  ultimately obtain g e' tr where "redisAsyncHandleRead user al (ac, e) = Inr (Some (g, e'))"
    "answered user False (routed (dict_abs sds_val (ac_channels ac)) xs null_callback vs) vs tr" "after_replies al False (ac, e) h0 out xs ys vs st' b' tr (g, e')"
    using handle_read_spec [OF al pol cn fl(2) hd fl(1) _ w(1) _ _ _ _ p(3)] by blast
  then show ?thesis using answered_take [OF _ p(2)] unfolding routed_pending [OF p(2)] by blast
qed

theorem redisAsyncHandleRead_in_order_witness:
  "\<exists>c ac' e' l o1 h1 o2 h2. ctx_ok (fill_alloc NUL) c [] [] [] \<and>
    redisAsyncHandleRead example_user (fill_alloc NUL)
      (example_context example_list c, example_env example_heap [RdBytes ('':7'' @ CRLF @ ''+OK'' @ CRLF @ ''+PO'')] []) = Inr (Some (Some ac', e')) \<and>
    e_log e' = l \<and> visible l = [EvCallback 1 5 (o1, h1), EvCallback 2 6 (o2, h2)] \<and> reads_as (o1, h1) (RInt 7) \<and> reads_as (o2, h2) (RStatus ''OK'') \<and>
    holds (ac', e') (resp_command [''PING'']) [\<lparr>cb_fn = Some 3, cb_privdata = 0\<rparr>] [] \<and> closing ac'"
proof -
  obtain c where c: "ctx_ok (fill_alloc NUL) c [] [] []" "c_fd c = 3" by (rule example_connected)
  let ?d = "'':7'' @ CRLF @ ''+OK'' @ CRLF @ ''+PO''" and ?vs = "[RInt 7, RStatus ''OK'']"
  let ?xs = example_callbacks
  let ?ac = "example_context example_list c" and ?e = "example_env example_heap [RdBytes ?d] []"
  have rd: "w_reads (e_world ?e) = RdBytes ?d # []" "?d \<noteq> []" "length ([] :: string) + length ?d \<le> 2146434047" by (simp_all add: example_env_def new_world_def)
  have p: "parses (None, []) ([] @ ?d) ?vs (Some KStatus, []) ''PO''"
  proof -
    have e: "encodable (RInt 7)" "encodable (RStatus ''OK'')" by (simp_all add: LONG_MAX_def)
    have "encode (RInt 7) = '':7'' @ CRLF" "encode (RStatus ''OK'') = ''+OK'' @ CRLF" by code_simp+
    with parse_encode [OF e(1), of "[]" "''+OK'' @ CRLF @ ''+PO''"] parse_encode [OF e(2), of "[]" "''+PO''"]
    have "parse (None, []) ?d = Done (RInt 7) (''+OK'' @ CRLF @ ''+PO'')" "parse (None, []) (''+OK'' @ CRLF @ ''+PO'') = Done (RStatus ''OK'') ''+PO''"
      by (simp_all add: nesting.simps)
    moreover have "parse (None, []) ''+PO'' = Wait (Some KStatus, []) ''PO''" by (simp add: parse.simps item_step_def kind_of_def typed_step_def)
    ultimately show ?thesis using e by simp
  qed
  have len: "length ?vs \<le> length ?xs" "length ([] :: string) + 14 * length ?vs \<le> 2146434047" by (simp_all add: example_callbacks_def)
  from redisAsyncHandleRead_in_order [OF fill_alloc_ok fill_alloc_never_fails example_polite example_conn [OF c(1)] example_holds [OF c(1) example_list_at [folded example_callbacks_def]]
      example_flags(1-3) rd p len] obtain g e' tr where
    r: "redisAsyncHandleRead example_user (fill_alloc NUL) (?ac, ?e) = Inr (Some (g, e'))" "answered example_user False ?xs ?vs tr"
    "after_replies (fill_alloc NUL) False (?ac, ?e) [] [] ?xs [] ?vs (Some KStatus, []) ''PO'' tr (g, e')" by blast
  obtain o1 h1 o2 h2 where h: "tr = example_trace (o1, h1) (o2, h2)" "reads_as (o1, h1) (RInt 7)" "reads_as (o2, h2) (RStatus ''OK'')"
    using r(2) by (rule example_answered)
  obtain ac' l where "g = Some ac'" "e_log e' = e_log ?e @ l" "visible l = [EvCallback 1 5 (o1, h1), EvCallback 2 6 (o2, h2)]"
    "holds (ac', e') (resp_command [''PING'']) [\<lparr>cb_fn = Some 3, cb_privdata = 0\<rparr>] []" "closing ac'"
    using r(3) [unfolded h(1)] example_flags(4) by (rule example_after)
  moreover have "e_log ?e = []" by (simp add: example_env_def)
  ultimately show ?thesis using r(1) c(1) h(2,3)
    by (intro exI [of _ c] exI [of _ ac'] exI [of _ e'] exI [of _ l] exI [of _ o1] exI [of _ h1] exI [of _ o2] exI [of _ h2]) simp
qed

end
