(* ===== verification/AsyncSession.thy ===== *)
theory AsyncSession
  imports AsyncReplies
begin

text \<open>
  Sessions on a connected context: commands are sent, the write events of the event loop take their bytes, and the read events bring the replies
  in any number of parts, each ending a run of callbacks.
\<close>

section \<open>Sending and writing\<close>

text \<open>A command: its callback and its arguments.\<close>

type_synonym async_command = "redisCallback \<times> string list"

fun send_all :: "allocator \<Rightarrow> async_command list \<Rightarrow> astate \<Rightarrow> astate res" where
  "send_all al [] s = Inr s"
| "send_all al ((cb, args) # cmds) s =
     bindr (redisAsyncCommandArgv al (cb_fn cb) (cb_privdata cb) (length args) args (Some (map length args)) s) (\<lambda>(_, s). send_all al cmds s)"

text \<open>Up to \<open>n\<close> write or read events, as long as the context exists.\<close>

fun handle_events :: "(astate \<Rightarrow> (gstate option) res) \<Rightarrow> nat \<Rightarrow> astate \<Rightarrow> (gstate option) res" where
  "handle_events handle 0 s = Inr (Some (Some (fst s), snd s))"
| "handle_events handle (Suc n) s =
     bindio (handle s) (\<lambda>(g, e). case g of None \<Rightarrow> Inr (Some (None, e)) | Some ac \<Rightarrow> handle_events handle n (ac, e))"

definition handle_writes :: "nat \<Rightarrow> user_code \<Rightarrow> allocator \<Rightarrow> astate \<Rightarrow> (gstate option) res" where
  "handle_writes n user al = handle_events (redisAsyncHandleWrite user al) n"

definition handle_reads :: "nat \<Rightarrow> user_code \<Rightarrow> allocator \<Rightarrow> astate \<Rightarrow> (gstate option) res" where
  "handle_reads n user al = handle_events (redisAsyncHandleRead user al) n"

definition requests :: "async_command list \<Rightarrow> string" where
  "requests cmds = concat (map (\<lambda>(cb, args). resp_command args) cmds)"

definition plain_commands :: "async_command list \<Rightarrow> bool" where
  "plain_commands cmds \<longleftrightarrow> (\<forall>(cb, args) \<in> set cmds. args \<noteq> [] \<and> plain_command (hd args))"

text \<open>A state that only sending and writing have led to from another one: the application has seen nothing.\<close>

definition unseen :: "astate \<Rightarrow> astate \<Rightarrow> bool" where
  "unseen = (\<lambda>(ac, e) (ac', e'). lasting ac' = lasting ac \<and> ac_flags ac' = ac_flags ac \<and> (\<exists>l. e_log e' = e_log e @ l \<and> visible l = []) \<and>
     w_reads (e_world e') = w_reads (e_world e) \<and> w_closed (e_world e') = w_closed (e_world e))"

lemma unseen_refl: "unseen s s"
  by (cases s) (simp add: unseen_def)

lemma unseen_trans: "unseen s s1 \<Longrightarrow> unseen s1 s2 \<Longrightarrow> unseen s s2"
  by (cases s; cases s1; cases s2) (auto simp: unseen_def)

lemma sds_memory:
  assumes "sds_ok s"
  obtains t where "sh_buf s = sds_val s @ NUL # t"
proof -
  from assms obtain l f where l: "length (sh_buf s) = l + f + 1" "sh_buf s ! l = NUL" "sds_val s = take l (sh_buf s)" by (rule sds_okE)
  then have "sh_buf s = take l (sh_buf s) @ sh_buf s ! l # drop (Suc l) (sh_buf s)" by (intro id_take_nth_drop) simp
  with l(2,3) that show ?thesis by metis
qed

lemma send_one:
  assumes al: "alloc_ok al" "\<not> may_fail al" and cn: "conn al (ac, e) h0 st b" and hd: "holds (ac, e) out xs ys" and fl: "\<not> closing ac" "\<not> has_flag (ac_flags ac) REDIS_SUBSCRIBED"
    and a: "args \<noteq> []" "plain_command (hd args)" and fits: "length out + length (resp_command args) \<le> 2146434047"
  obtains ac' e' where "redisAsyncCommandArgv al fn pd (length args) args (Some (map length args)) (ac, e) = Inr (REDIS_OK, ac', e')"
    "conn al (ac', e') h0 st b" "holds (ac', e') (out @ resp_command args) (xs @ [\<lparr>cb_fn = fn, cb_privdata = pd\<rparr>]) ys" "unseen (ac, e) (ac', e')" "e_world e' = e_world e"
proof -
  let ?r = "resp_command args"
  have m: "map arg_bytes (zip args (map length args)) = args" by (intro nth_equalityI) simp_all
  have "\<forall>(a, l) \<in> set (zip args (map length args)). l \<le> length a" by (auto simp: set_zip)
  from redisFormatSdsCommandArgv_spec [OF al arg_vector_lens _ this] fits obtain cmd where
    cmd: "redisFormatSdsCommandArgv al True (length args) args (Some (map length args)) = Inr (int (length ?r), Some cmd)" "sds_ok cmd" "sds_val cmd = ?r"
    unfolding m by (auto simp: sds_fits_def)
  from sds_memory [OF cmd(2)] obtain t where t: "sh_buf cmd = ?r @ NUL # t" unfolding cmd(3) .
  obtain name rest where n: "args = name # rest" using a(1) by (cases args) auto
  have sz: "size_t (int (length ?r)) = length ?r" using fits by simp
  have a': "plain_command name" "length name \<le> 2147483647" "sds_fits (length out + length (resp_command (name # rest)))"
    using a(2) fits resp_command_length [of name args] by (auto simp: n sds_fits_def)
  have sub: "False \<longleftrightarrow> has_flag (ac_flags ac) REDIS_SUBSCRIBED" using fl(2) by simp
  obtain ac' e' where s: "asyncCommand al fn pd (resp_command (name # rest) @ NUL # t) (length (resp_command (name # rest))) (ac, e) = Inr (REDIS_OK, ac', e')"
    "holds (ac', e') (out @ resp_command (name # rest)) (xs @ (if False then [] else [\<lparr>cb_fn = fn, cb_privdata = pd\<rparr>])) (ys @ (if False then [\<lparr>cb_fn = fn, cb_privdata = pd\<rparr>] else []))"
    "lasting ac' = lasting ac" "ac_flags ac' = ac_flags ac" "c_reader (ac_c ac') = c_reader (ac_c ac)"
    "e_log e' = e_log e @ (if ev_addWrite ac then [EvAddWrite] else [])" "e_replies e' = e_replies e" "e_world e' = e_world e"
    using al hd fl(1) a' sub by (rule asyncCommand_plain)
  show ?thesis
  proof (rule that)
    show "redisAsyncCommandArgv al fn pd (length args) args (Some (map length args)) (ac, e) = Inr (REDIS_OK, ac', e')"
      using cmd(1) s(1) sz by (simp add: redisAsyncCommandArgv_def t n)
    show "conn al (ac', e') h0 st b" using cn s(4,5,7) lasting_sel(8) [OF s(3)] by (simp add: conn_def)
    show "holds (ac', e') (out @ resp_command args) (xs @ [\<lparr>cb_fn = fn, cb_privdata = pd\<rparr>]) ys" using s(2) by (simp add: n)
    show "unseen (ac, e) (ac', e')" using s(3,4,6,8) by (simp add: unseen_def visible_def)
  qed (rule s(8))
qed

lemma send_all_spec:
  assumes al: "alloc_ok al" "\<not> may_fail al"
  shows "conn al (ac, e) h0 st b \<Longrightarrow> holds (ac, e) out xs ys \<Longrightarrow> \<not> closing ac \<Longrightarrow> \<not> has_flag (ac_flags ac) REDIS_SUBSCRIBED \<Longrightarrow>
    plain_commands cmds \<Longrightarrow> length out + length (requests cmds) \<le> 2146434047 \<Longrightarrow>
    \<exists>ac' e'. send_all al cmds (ac, e) = Inr (ac', e') \<and> conn al (ac', e') h0 st b \<and> holds (ac', e') (out @ requests cmds) (xs @ map fst cmds) ys \<and>
      unseen (ac, e) (ac', e') \<and> e_world e' = e_world e"
proof (induction cmds arbitrary: ac e out xs)
  case Nil
  then show ?case by (simp add: requests_def unseen_refl)
next
  case (Cons cmd cmds)
  obtain cb args where c: "cmd = (cb, args)" by (cases cmd)
  have a: "args \<noteq> []" "plain_command (hd args)" "plain_commands cmds" using Cons.prems(5) by (auto simp: plain_commands_def c)
  have len: "length out + length (resp_command args) \<le> 2146434047" using Cons.prems(6) by (simp add: requests_def c)
  obtain ac1 e1 where s: "redisAsyncCommandArgv al (cb_fn cb) (cb_privdata cb) (length args) args (Some (map length args)) (ac, e) = Inr (REDIS_OK, ac1, e1)"
    "conn al (ac1, e1) h0 st b" "holds (ac1, e1) (out @ resp_command args) (xs @ [\<lparr>cb_fn = cb_fn cb, cb_privdata = cb_privdata cb\<rparr>]) ys" "unseen (ac, e) (ac1, e1)" "e_world e1 = e_world e"
    by (rule send_one [OF al Cons.prems(1-4) a(1,2) len])
  have cb: "\<lparr>cb_fn = cb_fn cb, cb_privdata = cb_privdata cb\<rparr> = cb" by (cases cb) simp
  have fl: "\<not> closing ac1" "\<not> has_flag (ac_flags ac1) REDIS_SUBSCRIBED" using s(4) Cons.prems(3,4) by (simp_all add: unseen_def)
  have "length (out @ resp_command args) + length (requests cmds) \<le> 2146434047" using Cons.prems(6) by (simp add: requests_def c)
  from Cons.IH [OF s(2,3) fl a(3) this] obtain ac2 e2 where
    "send_all al cmds (ac1, e1) = Inr (ac2, e2)" "conn al (ac2, e2) h0 st b" "holds (ac2, e2) ((out @ resp_command args) @ requests cmds) ((xs @ [cb]) @ map fst cmds) ys"
    "unseen (ac1, e1) (ac2, e2)" "e_world e2 = e_world e1" unfolding cb by blast
  with s(1,5) unseen_trans [OF s(4), of "(ac2, e2)"] show ?case by (intro exI [of _ ac2] exI [of _ e2]) (simp add: c requests_def)
qed

text \<open>One write event takes the first \<open>k\<close> bytes, none when it is interrupted.\<close>

lemma handle_write_step:
  assumes al: "alloc_ok al" "\<not> may_fail al" and cn: "conn al (ac, e) h0 st b" and hd: "holds (ac, e) out xs ys" and fl: "has_flag (ac_flags ac) REDIS_CONNECTED"
    and w: "w_writes (e_world e) = x # ws" "out \<noteq> []" "x = WrCount k \<and> k \<le> length out \<or> x = WrFail EINTR \<and> k = 0"
  shows "\<exists>ac' e'. redisAsyncHandleWrite user al (ac, e) = Inr (Some (Some ac', e')) \<and> conn al (ac', e') h0 st b \<and> holds (ac', e') (drop k out) xs ys \<and>
    unseen (ac, e) (ac', e') \<and> w_sent (e_world e') = w_sent (e_world e) @ take k out \<and> w_writes (e_world e') = ws"
proof -
  from hd obtain ob as bs where ob: "c_obuf (ac_c ac) = Some ob" "sds_ok ob" "sds_val ob = out" "dicts_ok ac" "queues_at ac (e_callbacks e) as xs bs ys"
    by (auto simp: holds_def)
  have err: "c_err (ac_c ac) = 0" using cn by (auto simp: conn_def)
  have "\<exists>ob1 er. redisBufferWrite al (ac_c ac) (e_world e) = Inr (Some (REDIS_OK, sdslen ob1 = 0, (ac_c ac)\<lparr>c_obuf := Some ob1\<rparr>,
      (e_world e)\<lparr>w_writes := ws, w_sent := w_sent (e_world e) @ take k out, w_errno := er\<rparr>)) \<and> sds_ok ob1 \<and> sds_val ob1 = drop k out"
  proof (cases "x = WrCount k")
    case True
    obtain ob1 where "redisBufferWrite al (ac_c ac) (e_world e) = Inr (Some (REDIS_OK, sdslen ob1 = 0, (ac_c ac)\<lparr>c_obuf := Some ob1\<rparr>,
        (e_world e)\<lparr>w_writes := ws, w_sent := w_sent (e_world e) @ take k (sds_val ob)\<rparr>))" "sds_ok ob1" "sds_val ob1 = drop k (sds_val ob)"
      by (rule redisBufferWrite_takes [OF al err ob(1,2), of k "e_world e" ws]) (use ob(3) w True in simp_all)
    then show ?thesis using ob(3) by (intro exI [of _ ob1] exI [of _ "w_errno (e_world e)"]) simp
  next
    case False
    then show ?thesis using ob w err
      by (intro exI [of _ ob] exI [of _ EINTR]) (simp add: redisBufferWrite_def sdslen_val try_again_def)
  qed
  then obtain ob1 er where wr: "redisBufferWrite al (ac_c ac) (e_world e) = Inr (Some (REDIS_OK, sdslen ob1 = 0, (ac_c ac)\<lparr>c_obuf := Some ob1\<rparr>,
      (e_world e)\<lparr>w_writes := ws, w_sent := w_sent (e_world e) @ take k out, w_errno := er\<rparr>))" "sds_ok ob1" "sds_val ob1 = drop k out" by blast
  let ?ac = "ac\<lparr>ac_c := (ac_c ac)\<lparr>c_obuf := Some ob1\<rparr>\<rparr>"
  let ?e = "e\<lparr>e_world := (e_world e)\<lparr>w_writes := ws, w_sent := w_sent (e_world e) @ take k out, w_errno := er\<rparr>\<rparr>"
  let ?e1 = "log_if (ev_addRead ac) EvAddRead (if sdslen ob1 \<noteq> 0 then log_if (ev_addWrite ac) EvAddWrite ?e else log_if (ev_delWrite ac) EvDelWrite ?e)"
  have "redisAsyncHandleWrite user al (ac, e) = Inr (Some (Some ?ac, ?e1))" using wr(1) fl by (simp add: redisAsyncHandleWrite_def when_connected_def)
  moreover have "conn al (?ac, ?e1) h0 st b" using cn by (simp add: conn_def)
  moreover have "holds (?ac, ?e1) (drop k out) xs ys" using ob wr(2,3) by (intro holdsI [of _ ob1 _ _ as _ bs]) (simp_all add: queues_at_def dicts_ok_def)
  moreover have "unseen (ac, e) (?ac, ?e1)" by (simp add: unseen_def lasting_def visible_def)
  ultimately show ?thesis by (intro exI [of _ ?ac] exI [of _ ?e1]) simp
qed

lemma handle_writes_spec:
  assumes al: "alloc_ok al" "\<not> may_fail al"
  shows "conn al (ac, e) h0 st b \<Longrightarrow> holds (ac, e) out xs ys \<Longrightarrow> has_flag (ac_flags ac) REDIS_CONNECTED \<Longrightarrow> accepts ws (length out) \<Longrightarrow>
    w_writes (e_world e) = ws @ ws' \<Longrightarrow>
    \<exists>ac' e'. handle_writes (length ws) user al (ac, e) = Inr (Some (Some ac', e')) \<and> conn al (ac', e') h0 st b \<and> holds (ac', e') [] xs ys \<and>
      unseen (ac, e) (ac', e') \<and> w_sent (e_world e') = w_sent (e_world e) @ out"
proof (induction ws arbitrary: ac e out)
  case Nil
  then show ?case by (simp add: handle_writes_def unseen_refl)
next
  case (Cons x ws)
  have out: "out \<noteq> []" using Cons.prems(4) by (cases x) auto
  obtain k where k: "x = WrCount k \<and> k \<le> length out \<or> x = WrFail EINTR \<and> k = 0" "accepts ws (length (drop k out))"
    using Cons.prems(4) by (cases x) auto
  have "w_writes (e_world e) = x # (ws @ ws')" using Cons.prems(5) by simp
  from handle_write_step [OF al Cons.prems(1-3) this out k(1), of user] obtain ac1 e1 where s:
    "redisAsyncHandleWrite user al (ac, e) = Inr (Some (Some ac1, e1))" "conn al (ac1, e1) h0 st b" "holds (ac1, e1) (drop k out) xs ys"
    "unseen (ac, e) (ac1, e1)" "w_sent (e_world e1) = w_sent (e_world e) @ take k out" "w_writes (e_world e1) = ws @ ws'" by blast
  have "has_flag (ac_flags ac1) REDIS_CONNECTED" using s(4) Cons.prems(3) by (simp add: unseen_def)
  from Cons.IH [OF s(2,3) this k(2) s(6)] obtain ac2 e2 where r: "handle_writes (length ws) user al (ac1, e1) = Inr (Some (Some ac2, e2))"
    "conn al (ac2, e2) h0 st b" "holds (ac2, e2) [] xs ys" "unseen (ac1, e1) (ac2, e2)" "w_sent (e_world e2) = w_sent (e_world e1) @ drop k out" by blast
  then show ?case using s(1,5) unseen_trans [OF s(4) r(4)] by (intro exI [of _ ac2] exI [of _ e2]) (simp add: handle_writes_def)
qed

lemma parses_encoded: "\<forall>v \<in> set vs. encodable v \<and> nesting v \<le> 8 \<Longrightarrow> parses (None, []) (concat (map encode vs)) vs (None, []) []"
proof (induction vs)
  case Nil
  then show ?case by (simp add: parse.simps item_step_def)
next
  case (Cons v vs)
  then show ?case using parse_encode [of v "[]" "concat (map encode vs)"] by simp
qed

lemma encode_nonempty: "encode v \<noteq> []"
  by (cases v) simp_all

section \<open>Replies over several read events\<close>

lemma parses_split:
  "parses st (x @ y) vs (None, []) [] \<Longrightarrow>
    \<exists>vs1 vs2 st1 b1. vs = vs1 @ vs2 \<and> parses st x vs1 st1 b1 \<and> parses st1 (b1 @ y) vs2 (None, []) [] \<and> length b1 \<le> length x"
proof (induction "length x" arbitrary: st x vs rule: less_induct)
  case less
  show ?case
  proof (cases "parse st x")
    case (Wait st1 b1)
    have "parses st1 (b1 @ y) vs (None, []) []" using less.prems parse_Wait [OF Wait, of y] by (cases vs) simp_all
    then show ?thesis using Wait parse_Wait_length [OF Wait] by (intro exI [of _ "[]"] exI [of _ vs] exI [of _ st1] exI [of _ b1]) simp
  next
    case (Done v b1)
    with less.prems parse_Done [OF Done, of y] obtain ws where ws: "vs = v # ws" "encodable v" "parses (None, []) (b1 @ y) ws (None, []) []" by (cases vs) auto
    have "length b1 < length x" using parse_Done_length [OF Done] .
    from less.hyps [OF this ws(3)] obtain vs1 vs2 st1 b2 where "ws = vs1 @ vs2" "parses (None, []) b1 vs1 st1 b2" "parses st1 (b2 @ y) vs2 (None, []) []" "length b2 \<le> length b1" by blast
    then show ?thesis using ws(1,2) Done \<open>length b1 < length x\<close> by (intro exI [of _ "v # vs1"] exI [of _ vs2] exI [of _ st1] exI [of _ b2]) simp
  next
    case Fail
    then show ?thesis using less.prems parse_Fail(1) [OF Fail, of y] by (cases vs) simp_all
  next
    case Unsupported
    then show ?thesis using less.prems parse_Fail(2) [OF Unsupported, of y] by (cases vs) simp_all
  qed (simp add: parse_not_Next)
qed

lemma parses_end: "parses st b vs st1 b1 \<Longrightarrow> parse st1 b1 = Wait st1 b1"
proof (induction vs arbitrary: st b)
  case Nil
  then show ?case using parse_Wait [of st b st1 b1 "[]"] by simp
qed auto

text \<open>Every reply has a pending callback or is for a channel that has a callback, so that the callback does not depend on how the input is cut.\<close>

definition addressed :: "(string \<rightharpoonup> redisCallback) \<Rightarrow> redisCallback list \<Rightarrow> reply list \<Rightarrow> bool" where
  "addressed m xs vs \<longleftrightarrow> (\<forall>i < length vs. i < length xs \<or> (\<exists>t ch v. vs ! i = message_reply (t, ch, v) \<and> ch \<in> dom m))"

lemma addressed_Cons: "addressed m xs (v # vs) \<longleftrightarrow> (xs \<noteq> [] \<or> (\<exists>t ch w. v = message_reply (t, ch, w) \<and> ch \<in> dom m)) \<and> addressed m (tl xs) vs"
proof -
  have "i < length (tl xs) \<longleftrightarrow> Suc i < length xs" for i by (cases xs) auto
  then show ?thesis unfolding addressed_def by (auto simp: All_less_Suc2)
qed

lemma routed_addressed: "addressed m xs vs \<Longrightarrow> routed m xs cb vs = routed m xs cb' vs"
  by (cases vs; cases xs) (auto simp: addressed_Cons route_def dom_def)

lemma routed_append:
  "addressed m xs (vs @ vs') \<Longrightarrow> routed m xs cb (vs @ vs') = routed m xs cb vs @ routed m (drop (length vs) xs) null_callback vs' \<and> addressed m (drop (length vs) xs) vs'"
proof (induction vs arbitrary: xs cb)
  case Nil
  then show ?case using routed_addressed by simp
next
  case (Cons v vs)
  then have "addressed m (tl xs) (vs @ vs')" by (simp add: addressed_Cons)
  from Cons.IH [OF this] show ?case by (simp add: Let_def drop_Suc)
qed

lemma routable_append: "routable sub xs (vs @ vs') \<Longrightarrow> routable sub xs vs \<and> routable sub (drop (length vs) xs) vs'"
proof (induction vs arbitrary: xs)
  case Nil
  then show ?case by (simp add: routable_def)
next
  case (Cons v vs)
  then show ?case by (simp add: routable_Cons drop_Suc)
qed

lemma trace_bytes:
  assumes "polite M user"
  shows "\<forall>t \<in> set tr. \<exists>x v. handled user x v t \<Longrightarrow> length (sent_bytes (concat (map snd tr))) \<le> M * length tr"
proof (induction tr)
  case (Cons t tr)
  then show ?case using polite_calls [OF assms, of _ _ "fst t" "snd t"] by fastforce
qed simp

lemma answered_bytes: "polite M user \<Longrightarrow> answered user stop cbs vs tr \<Longrightarrow> length (sent_bytes (accepted_calls cl (concat (map snd tr)))) \<le> M * length tr"
proof -
  assume a: "polite M user" "answered user stop cbs vs tr"
  then have "\<forall>i < length tr. \<exists>x v. handled user x v (tr ! i)" unfolding answered_def by blast
  then have "\<forall>t \<in> set tr. \<exists>x v. handled user x v t" by (simp add: all_set_conv_all_nth)
  from trace_bytes [OF a(1) this] show ?thesis using sent_bytes_accepted [of cl "concat (map snd tr)"] by linarith
qed

text \<open>The context after replies: still there, or gone.\<close>

lemma after_alive:
  assumes "after_replies al sub (ac, e) h0 out xs ys vs st b tr (Some ac', e')" "new = accepted_calls (closing ac) (concat (map snd tr))"
  obtains l where "ApiFree \<notin> set (concat (map snd tr))" "closing ac' \<longleftrightarrow> closing ac \<or> ApiDisconnect \<in> set (concat (map snd tr))"
    "\<not> (closing ac' \<and> out @ sent_bytes new = [] \<and> drop (length tr) xs @ (if sub then [] else sent_callbacks new) = [])"
    "e_log e' = e_log e @ l" "visible l = concat (map fst tr)" "conn al (ac', e') (h0 @ replicate (sum_list (map reply_size vs)) None) st b"
    "holds (ac', e') (out @ sent_bytes new) (drop (length tr) xs @ (if sub then [] else sent_callbacks new)) (ys @ (if sub then sent_callbacks new else []))"
    "lasting ac' = lasting ac" "\<not> has_flag (ac_flags ac') REDIS_FREEING" "w_closed (e_world e') = w_closed (e_world e)"
proof -
  let ?o = "out @ sent_bytes new" and ?x = "drop (length tr) xs @ (if sub then [] else sent_callbacks new)"
  note s = assms(1) [unfolded after_replies_def Let_def fst_conv assms(2) [symmetric] settled_def prod.case]
  have c: "\<not> (ApiFree \<in> set (concat (map snd tr)) \<or> (closing ac \<or> ApiDisconnect \<in> set (concat (map snd tr))) \<and> ?o = [] \<and> ?x = [])"
  proof
    assume "ApiFree \<in> set (concat (map snd tr)) \<or> (closing ac \<or> ApiDisconnect \<in> set (concat (map snd tr))) \<and> ?o = [] \<and> ?x = []"
    from s [unfolded if_P [OF this]] show False by simp
  qed
  from s [unfolded if_not_P [OF c]] obtain l where
    "e_log e' = e_log e @ l" "visible l = concat (map fst tr)" "conn al (ac', e') (h0 @ replicate (sum_list (map reply_size vs)) None) st b"
    "holds (ac', e') ?o ?x (ys @ (if sub then sent_callbacks new else []))" "lasting ac' = lasting ac" "\<not> has_flag (ac_flags ac') REDIS_FREEING"
    "closing ac' \<longleftrightarrow> closing ac \<or> ApiDisconnect \<in> set (concat (map snd tr))" "w_closed (e_world e') = w_closed (e_world e)" by blast
  then show ?thesis using c that by blast
qed

lemma after_gone:
  assumes "after_replies al sub (ac, e) h0 out xs ys vs st b tr (None, e')"
  shows "after_replies al sub (ac, e) h0 out xs ys vs' st' b' tr (None, e')"
    "ApiFree \<in> set (concat (map snd tr)) \<or> (closing ac \<or> ApiDisconnect \<in> set (concat (map snd tr))) \<and> out = [] \<and> length xs \<le> length tr"
  using assms unfolding after_replies_def Let_def fst_conv settled_def prod.case by (auto split: if_splits)

lemma answered_more:
  assumes "answered user False cbs vs tr" "length cbs = length vs" "ApiFree \<in> set (concat (map snd tr)) \<or> stop \<or> vs' = []"
  shows "answered user stop (cbs @ cbs') (vs @ vs') tr"
  using assms unfolding answered_def by (auto simp: nth_append)

lemma answered_stop: "answered user stop cbs vs tr \<Longrightarrow> (stop \<Longrightarrow> stop') \<Longrightarrow> answered user stop' cbs vs tr"
  by (auto simp: answered_def)

text \<open>The reason that can keep messages from being delivered: a subscribed context that is to be disconnected is gone after the read event in which nothing is
  left to write and to wait for.\<close>

definition leaves :: "bool \<Rightarrow> redisAsyncContext \<Rightarrow> string \<Rightarrow> trace \<Rightarrow> bool" where
  "leaves sub ac out tr \<longleftrightarrow> sub \<and> out = [] \<and> (closing ac \<or> ApiDisconnect \<in> set (concat (map snd tr)))"

lemma handle_reads_spec:
  assumes al: "alloc_ok al" "\<not> may_fail al" and pol: "polite M user"
  shows "conn al (ac, e) h0 st b \<Longrightarrow> parse st b = Wait st b \<Longrightarrow> \<not> has_flag (ac_flags ac) REDIS_FREEING \<Longrightarrow> holds (ac, e) out xs ys \<Longrightarrow>
    has_flag (ac_flags ac) REDIS_CONNECTED \<Longrightarrow> sub \<longleftrightarrow> has_flag (ac_flags ac) REDIS_SUBSCRIBED \<Longrightarrow> \<not> (closing ac \<and> out = [] \<and> xs = []) \<Longrightarrow>
    w_reads (e_world e) = rs @ rs' \<Longrightarrow> \<forall>x \<in> set rs. readable x \<Longrightarrow> parses st (b @ concat (map chunk_of rs)) vs (None, []) [] \<Longrightarrow> routable sub xs vs \<Longrightarrow>
    addressed (dict_abs sds_val (ac_channels ac)) xs vs \<Longrightarrow> length b + length (concat (map chunk_of rs)) \<le> 2146434047 \<Longrightarrow> length out + M * length vs \<le> 2146434047 \<Longrightarrow>
    \<exists>g e' tr. handle_reads (length rs) user al (ac, e) = Inr (Some (g, e')) \<and>
      answered user (leaves sub ac out tr) (routed (dict_abs sds_val (ac_channels ac)) xs null_callback vs) vs tr \<and>
      after_replies al sub (ac, e) h0 out xs ys vs (None, []) [] tr (g, e')"
proof (induction rs arbitrary: ac e h0 st b out xs ys vs)
  case Nil
  have v: "vs = []" "st = (None, [])" "b = []" using Nil.prems(2,10) by (cases vs; auto)+
  have "after_replies al sub (ac, e) h0 out xs ys [] (None, []) [] [] (Some ac, e)"
    using Nil.prems(1,3,4,7) v by (auto simp: after_replies_def settled_def accepted_calls_def)
  then show ?case using v(1)
    by (intro exI [of _ "Some ac"] exI [of _ e] exI [of _ "[]"]) (simp add: handle_reads_def answered_def)
next
  case (Cons x rs)
  let ?m = "dict_abs sds_val (ac_channels ac)"
  have "parses st ((b @ chunk_of x) @ concat (map chunk_of rs)) vs (None, []) []" using Cons.prems(10) by simp
  from parses_split [OF this] obtain vs1 vs2 st1 b1 where p: "vs = vs1 @ vs2" "parses st (b @ chunk_of x) vs1 st1 b1"
    "parses st1 (b1 @ concat (map chunk_of rs)) vs2 (None, []) []" "length b1 \<le> length (b @ chunk_of x)" by blast
  have rt: "routable sub xs vs1" "routable sub (drop (length vs1) xs) vs2" using routable_append [of sub xs vs1 vs2] Cons.prems(11) by (simp_all add: p(1))
  have rd: "routed ?m xs null_callback vs = routed ?m xs null_callback vs1 @ routed ?m (drop (length vs1) xs) null_callback vs2" "addressed ?m (drop (length vs1) xs) vs2"
    using routed_append [of ?m xs vs1 vs2] Cons.prems(12) by (simp_all add: p(1))
  have w: "w_reads (e_world e) = x # (rs @ rs')" "readable x" "length b + length (chunk_of x) \<le> 2146434047" "length out + M * length vs1 \<le> 2146434047"
    using Cons.prems(8,9,13,14) by (simp_all add: p(1) add_mult_distrib2)
  from handle_read_spec [OF al pol Cons.prems(1,3-6) w(1-3) p(2) rt(1) w(4)] obtain g e1 tr1 where s:
    "redisAsyncHandleRead user al (ac, e) = Inr (Some (g, e1))" "answered user False (routed ?m xs null_callback vs1) vs1 tr1"
    "after_replies al sub (ac, e) h0 out xs ys vs1 st1 b1 tr1 (g, e1)" "g \<noteq> None \<longrightarrow> w_reads (e_world e1) = rs @ rs'" by blast
  have lv: "sub \<or> length vs \<le> length xs" using routable_length [OF Cons.prems(11)] .
  show ?case
  proof (cases g)
    case None
    note g = after_gone [OF s(3) [unfolded None]]
    have l1: "length tr1 \<le> length vs1" using s(2) by (simp add: answered_def)
    have "length vs2 = 0" if "\<not> sub" "length xs \<le> length tr1"
    proof -
      have "length vs1 + length vs2 \<le> length xs" using lv that(1) by (simp add: p(1))
      then show ?thesis using that(2) l1 by linarith
    qed
    then have "ApiFree \<in> set (concat (map snd tr1)) \<or> leaves sub ac out tr1 \<or> vs2 = []" using g(2) unfolding leaves_def length_0_conv by blast
    then have "answered user (leaves sub ac out tr1) (routed ?m xs null_callback vs) vs tr1" unfolding rd(1) unfolding p(1) by (intro answered_more [OF s(2)]) simp
    then show ?thesis using s(1) g(1) None by (intro exI [of _ None] exI [of _ e1] exI [of _ tr1]) (simp add: handle_reads_def)
  next
    case (Some ac1)
    define new where "new = accepted_calls (closing ac) (concat (map snd tr1))"
    obtain l where a: "ApiFree \<notin> set (concat (map snd tr1))" "closing ac1 \<longleftrightarrow> closing ac \<or> ApiDisconnect \<in> set (concat (map snd tr1))"
      "\<not> (closing ac1 \<and> out @ sent_bytes new = [] \<and> drop (length tr1) xs @ (if sub then [] else sent_callbacks new) = [])"
      "e_log e1 = e_log e @ l" "visible l = concat (map fst tr1)" "conn al (ac1, e1) (h0 @ replicate (sum_list (map reply_size vs1)) None) st1 b1"
      "holds (ac1, e1) (out @ sent_bytes new) (drop (length tr1) xs @ (if sub then [] else sent_callbacks new)) (ys @ (if sub then sent_callbacks new else []))"
      "lasting ac1 = lasting ac" "\<not> has_flag (ac_flags ac1) REDIS_FREEING" "w_closed (e_world e1) = w_closed (e_world e)"
      by (rule after_alive [OF s(3) [unfolded Some] new_def])
    have l1: "length tr1 = length vs1" using s(2) a(1) by (simp add: answered_def)
    let ?xs = "drop (length tr1) xs @ (if sub then [] else sent_callbacks new)"
    have fl: "has_flag (ac_flags ac1) REDIS_CONNECTED" "sub \<longleftrightarrow> has_flag (ac_flags ac1) REDIS_SUBSCRIBED" "ac_channels ac1 = ac_channels ac"
      using Cons.prems(5,6) lasting_flags [OF a(8)] lasting_sel(1) [OF a(8)] by simp_all
    have more: "length vs2 \<le> length (drop (length tr1) xs) \<or> (if sub then [] else sent_callbacks new) = []" using lv l1 by (auto simp: p(1))
    have rt2: "routable sub ?xs vs2" "addressed ?m ?xs vs2" using rt(2) rd(2) l1 by (auto simp: routable_def addressed_def)
    have len: "length b1 + length (concat (map chunk_of rs)) \<le> 2146434047" using p(4) Cons.prems(13) by simp
    have "length (sent_bytes new) \<le> M * length vs1" using answered_bytes [OF pol s(2), of "closing ac"] l1 by (simp add: new_def)
    then have lo: "length (out @ sent_bytes new) + M * length vs2 \<le> 2146434047" using Cons.prems(14) by (simp add: p(1) add_mult_distrib2)
    have rs: "w_reads (e_world e1) = rs @ rs'" "\<forall>x \<in> set rs. readable x" using s(4) Some Cons.prems(9) by simp_all
    from Cons.IH [OF a(6) parses_end [OF p(2)] a(9) a(7) fl(1,2) a(3) rs p(3) rt2(1) _ len lo] rt2(2) obtain g2 e2 tr2 where r:
      "handle_reads (length rs) user al (ac1, e1) = Inr (Some (g2, e2))"
      "answered user (leaves sub ac1 (out @ sent_bytes new) tr2) (routed ?m ?xs null_callback vs2) vs2 tr2"
      "after_replies al sub (ac1, e1) (h0 @ replicate (sum_list (map reply_size vs1)) None) (out @ sent_bytes new) ?xs (ys @ (if sub then sent_callbacks new else []))
        vs2 (None, []) [] tr2 (g2, e2)" unfolding fl(3) by blast
    have l2: "sub \<or> length tr1 + length tr2 \<le> length xs" using lv l1 r(2) by (auto simp: answered_def p(1))
    have "after_replies al sub (ac, e) h0 out xs ys vs (None, []) [] (tr1 @ tr2) (g2, e2)"
      unfolding p(1) by (rule after_trans [OF new_def r(3) a(8,2,1,4,5,10) l2])
    moreover have "answered user (leaves sub ac out (tr1 @ tr2)) (routed ?m xs null_callback vs) vs (tr1 @ tr2)"
    proof -
      have "answered user (leaves sub ac out (tr1 @ tr2)) (routed ?m (drop (length vs1) xs) null_callback vs2) vs2 tr2"
        using r(2) unfolding routed_more [OF more] unfolding l1 by (rule answered_stop) (use a(2) in \<open>auto simp: leaves_def\<close>)
      then show ?thesis unfolding rd(1) unfolding p(1) by (intro answered_append [OF s(2) a(1)]) simp_all
    qed
    ultimately show ?thesis using s(1) r(1) Some by (intro exI [of _ g2] exI [of _ e2] exI [of _ "tr1 @ tr2"]) (simp add: handle_reads_def)
  qed
qed

lemma unseen_after:
  assumes "unseen (ac, e) (ac1, e1)" "after_replies al sub (ac1, e1) h0 out xs ys vs st b tr (g, e')" "sub \<or> length tr \<le> length xs"
  shows "after_replies al sub (ac, e) h0 out xs ys vs st b tr (g, e')"
proof -
  from assms(1) obtain l where u: "lasting ac1 = lasting ac" "ac_flags ac1 = ac_flags ac" "e_log e1 = e_log e @ l" "visible l = []" "w_closed (e_world e1) = w_closed (e_world e)"
    by (auto simp: unseen_def)
  have "after_replies al sub (ac, e) h0 out xs ys ([] @ vs) st b ([] @ tr) (g, e')"
    by (rule after_trans [OF refl _ u(1) _ _ u(3) _ u(5)]) (use assms(2,3) u(2,4) in \<open>cases sub; simp add: accepted_calls_def\<close>)+
  then show ?thesis by simp
qed

section \<open>Properties\<close>

text \<open>C4: a session on a connected asynchronous context that is not subscribed or monitoring, when no allocation fails.  Any list of commands
  that are not subscriptions or MONITOR is sent, the write events of the event loop take the requests in any parts and with
  interruptions, and read events bring the replies, cut in any way and with interruptions.  Exactly the requests were sent, in order; then
  the callback of each command has run once, with the reply to that command, in the order of the commands, and the application
  has seen nothing else.  The callbacks may themselves send such commands, disconnect and free the context; only freeing keeps later
  callbacks from their replies, and they then run with NULL.  In the end every reply is freed, and the context is gone if it was
  freed or a disconnect was asked for and the callbacks have sent nothing; otherwise it holds the commands that the
  callbacks have sent.\<close>

theorem async_session:
  assumes al: "alloc_ok al" "\<not> may_fail al" and pol: "polite M user" and cn: "conn al (ac, e) h0 (None, []) []" and hd: "holds (ac, e) [] [] ys"
    and fl: "has_flag (ac_flags ac) REDIS_CONNECTED" "\<not> closing ac" "\<not> has_flag (ac_flags ac) REDIS_SUBSCRIBED"
    and cmds: "plain_commands cmds" "length (requests cmds) \<le> 2146434047"
    and vs: "length vs = length cmds" "\<forall>v \<in> set vs. encodable v \<and> nesting v \<le> 8" "length (concat (map encode vs)) \<le> 2146434047" "M * length vs \<le> 2146434047"
    and w: "w_writes (e_world e) = ws @ ws'" "accepts ws (length (requests cmds))"
    and rs: "w_reads (e_world e) = rs @ rs'" "\<forall>x \<in> set rs. readable x" "concat (map chunk_of rs) = concat (map encode vs)"
  shows "\<exists>s1 ac2 e2 g e3 tr. send_all al cmds (ac, e) = Inr s1 \<and>
    handle_writes (length ws) user al s1 = Inr (Some (Some ac2, e2)) \<and> w_sent (e_world e2) = w_sent (e_world e) @ requests cmds \<and>
    handle_reads (length rs) user al (ac2, e2) = Inr (Some (g, e3)) \<and> answered user False (map fst cmds) vs tr \<and>
    after_replies al False (ac, e) h0 [] (map fst cmds) ys vs (None, []) [] tr (g, e3)"
proof -
  have len: "length ([] :: string) + length (requests cmds) \<le> 2146434047" using cmds(2) by simp
  from send_all_spec [OF al cn hd fl(2,3) cmds(1) len] obtain ac1 e1 where s1: "send_all al cmds (ac, e) = Inr (ac1, e1)" "conn al (ac1, e1) h0 (None, []) []"
    "holds (ac1, e1) (requests cmds) (map fst cmds) ys" "unseen (ac, e) (ac1, e1)" "e_world e1 = e_world e" by auto
  have c1: "has_flag (ac_flags ac1) REDIS_CONNECTED" "w_writes (e_world e1) = ws @ ws'" using s1(4,5) fl(1) w(1) by (simp_all add: unseen_def)
  from handle_writes_spec [OF al s1(2,3) c1(1) w(2) c1(2)] obtain ac2 e2 where s2: "handle_writes (length ws) user al (ac1, e1) = Inr (Some (Some ac2, e2))"
    "conn al (ac2, e2) h0 (None, []) []" "holds (ac2, e2) [] (map fst cmds) ys" "unseen (ac1, e1) (ac2, e2)" "w_sent (e_world e2) = w_sent (e_world e1) @ requests cmds" by blast
  have u: "unseen (ac, e) (ac2, e2)" using s1(4) s2(4) by (rule unseen_trans)
  then have f2: "\<not> has_flag (ac_flags ac2) REDIS_FREEING" "has_flag (ac_flags ac2) REDIS_CONNECTED" "False \<longleftrightarrow> has_flag (ac_flags ac2) REDIS_SUBSCRIBED"
    "\<not> (closing ac2 \<and> [] = ([] :: string) \<and> map fst cmds = [])" "w_reads (e_world e2) = rs @ rs'" using fl rs(1) by (simp_all add: unseen_def closing_iff)
  have le: "length vs \<le> length (map fst cmds)" using vs(1) by simp
  let ?m = "dict_abs sds_val (ac_channels ac2)"
  have p: "parses (None, []) ([] @ concat (map chunk_of rs)) vs (None, []) []" "parse (None, []) [] = Wait (None, []) []"
    "length ([] :: string) + length (concat (map chunk_of rs)) \<le> 2146434047" "length ([] :: string) + M * length vs \<le> 2146434047"
    using parses_encoded [OF vs(2)] parses_encoded [of "[]"] vs(3,4) by (simp_all add: rs(3))
  have rt: "routable False (map fst cmds) vs" "addressed ?m (map fst cmds) vs" using le by (simp_all add: routable_def addressed_def)
  from handle_reads_spec [OF al pol s2(2) p(2) f2(1) s2(3) f2(2-5) rs(2) p(1) rt p(3,4)] obtain g e3 tr where s3:
    "handle_reads (length rs) user al (ac2, e2) = Inr (Some (g, e3))" "answered user (leaves False ac2 [] tr) (routed ?m (map fst cmds) null_callback vs) vs tr"
    "after_replies al False (ac2, e2) h0 [] (map fst cmds) ys vs (None, []) [] tr (g, e3)" by blast
  have an: "answered user False (map fst cmds) vs tr" using s3(2) vs(1) unfolding routed_pending [OF le] by (simp add: leaves_def)
  then have "False \<or> length tr \<le> length (map fst cmds)" using le by (simp add: answered_def)
  from unseen_after [OF u s3(3) this] show ?thesis using s1(1,5) s2(1,5) s3(1) an
    by (intro exI [of _ "(ac1, e1)"] exI [of _ ac2] exI [of _ e2] exI [of _ g] exI [of _ e3] exI [of _ tr]) simp
qed

text \<open>An example: the callback of the first command sends another one and that of the second disconnects; the input is cut inside a reply.\<close>

theorem async_session_witness:
  "\<exists>c s1 ac2 e2 ac3 e3 l o1 h1 o2 h2. ctx_ok (fill_alloc NUL) c [] [] [] \<and>
    send_all (fill_alloc NUL) [(\<lparr>cb_fn = Some 1, cb_privdata = 5\<rparr>, [''PING'']), (\<lparr>cb_fn = Some 2, cb_privdata = 6\<rparr>, [''PING''])]
      (example_context empty_callbacks c, example_env [] [RdBytes '':'', RdFail EINTR, RdBytes (''7'' @ CRLF @ '':8'' @ CRLF)] [WrCount 5, WrFail EINTR, WrCount 23]) = Inr s1 \<and>
    handle_writes 3 example_user (fill_alloc NUL) s1 = Inr (Some (Some ac2, e2)) \<and> w_sent (e_world e2) = resp_command [''PING''] @ resp_command [''PING''] \<and>
    handle_reads 3 example_user (fill_alloc NUL) (ac2, e2) = Inr (Some (Some ac3, e3)) \<and>
    e_log e3 = l \<and> visible l = [EvCallback 1 5 (o1, h1), EvCallback 2 6 (o2, h2)] \<and> reads_as (o1, h1) (RInt 7) \<and> reads_as (o2, h2) (RInt 8) \<and>
    holds (ac3, e3) (resp_command [''PING'']) [\<lparr>cb_fn = Some 3, cb_privdata = 0\<rparr>] [] \<and> closing ac3"
proof -
  let ?cmds = "[(\<lparr>cb_fn = Some 1, cb_privdata = 5\<rparr>, [''PING'']), (\<lparr>cb_fn = Some 2, cb_privdata = 6\<rparr>, [''PING''])]" and ?vs = "[RInt 7, RInt 8]"
  let ?rs = "[RdBytes '':'', RdFail EINTR, RdBytes (''7'' @ CRLF @ '':8'' @ CRLF)]" and ?ws = "[WrCount 5, WrFail EINTR, WrCount 23]"
  obtain c where c: "ctx_ok (fill_alloc NUL) c [] [] []" "c_fd c = 3" by (rule example_connected)
  let ?ac = "example_context empty_callbacks c" and ?e = "example_env [] ?rs ?ws"
  have l: "list_at [] empty_callbacks [] []" by simp
  have rq: "requests ?cmds = resp_command [''PING''] @ resp_command [''PING'']" by (simp add: requests_def)
  have rl: "length (resp_command [''PING'']) = 14" by code_simp
  have cm: "plain_commands ?cmds" by code_simp
  have len: "length (requests ?cmds) \<le> 2146434047" "accepts ?ws (length (requests ?cmds))" unfolding rq by (simp_all add: rl)
  have en: "concat (map encode ?vs) = '':7'' @ CRLF @ '':8'' @ CRLF" by code_simp
  have vs: "length ?vs = length ?cmds" "\<forall>v \<in> set ?vs. encodable v \<and> nesting v \<le> 8" "length (concat (map encode ?vs)) \<le> 2146434047" "14 * length ?vs \<le> 2146434047"
    unfolding en by (simp_all add: nesting.simps LONG_MAX_def)
  have w: "w_writes (e_world ?e) = ?ws @ []" "w_reads (e_world ?e) = ?rs @ []" "\<forall>x \<in> set ?rs. readable x" "concat (map chunk_of ?rs) = concat (map encode ?vs)"
    "w_sent (e_world ?e) = []" "e_log ?e = []" unfolding en by (simp_all add: example_env_def new_world_def)
  have cb: "map fst ?cmds = example_callbacks" by (simp add: example_callbacks_def)
  from async_session [OF fill_alloc_ok fill_alloc_never_fails example_polite example_conn [OF c(1)] example_holds [OF c(1) l] example_flags(1,4,3) cm len(1) vs w(1) len(2) w(2-4)]
  obtain s1 ac2 e2 g e3 tr where s: "send_all (fill_alloc NUL) ?cmds (?ac, ?e) = Inr s1"
    "handle_writes (length ?ws) example_user (fill_alloc NUL) s1 = Inr (Some (Some ac2, e2))" "w_sent (e_world e2) = w_sent (e_world ?e) @ requests ?cmds"
    "handle_reads (length ?rs) example_user (fill_alloc NUL) (ac2, e2) = Inr (Some (g, e3))" "answered example_user False example_callbacks ?vs tr"
    "after_replies (fill_alloc NUL) False (?ac, ?e) [] [] example_callbacks [] ?vs (None, []) [] tr (g, e3)" unfolding cb by blast
  obtain o1 h1 o2 h2 where h: "tr = example_trace (o1, h1) (o2, h2)" "reads_as (o1, h1) (RInt 7)" "reads_as (o2, h2) (RInt 8)" using s(5) by (rule example_answered)
  obtain ac3 l where "g = Some ac3" "e_log e3 = e_log ?e @ l" "visible l = [EvCallback 1 5 (o1, h1), EvCallback 2 6 (o2, h2)]"
    "holds (ac3, e3) (resp_command [''PING'']) [\<lparr>cb_fn = Some 3, cb_privdata = 0\<rparr>] []" "closing ac3"
    using s(6) [unfolded h(1)] example_flags(4) by (rule example_after)
  then show ?thesis using s(1-4) c(1) h(2,3) unfolding rq w(5,6)
    by (intro exI [of _ c] exI [of _ s1] exI [of _ ac2] exI [of _ e2] exI [of _ ac3] exI [of _ e3] exI [of _ l] exI [of _ o1] exI [of _ h1] exI [of _ o2] exI [of _ h2])
      (simp add: numeral_3_eq_3)
qed

end
