(* ===== verification/AsyncPubsub.thy ===== *)
theory AsyncPubsub
  imports AsyncSession
begin

text \<open>
  Subscriptions: SUBSCRIBE registers its callback for its channels, and the messages and confirmations that follow reach the
  callback of their channel.
\<close>

section \<open>Messages\<close>

lemma message_is_message: "message_ok m \<Longrightarrow> is_message (message_reply m)"
  unfolding is_message_def by blast

lemma routable_messages: "\<forall>m \<in> set ms. message_ok m \<Longrightarrow> routable True xs (map message_reply ms)"
  by (auto simp: routable_def intro: message_is_message)

lemma message_encodable: "message_ok m \<Longrightarrow> encodable (message_reply m) \<and> nesting (message_reply m) \<le> 8"
  by (cases m) simp

lemma addressed_messages: "\<forall>(t, ch, v) \<in> set ms. ch \<in> dom m \<Longrightarrow> addressed m [] (map message_reply ms)"
  unfolding addressed_def by (auto simp del: message_reply.simps dest!: nth_mem split: prod.splits) (metis prod.exhaust)

lemma routed_messages: "\<forall>(t, ch, v) \<in> set ms. ch \<in> dom m \<Longrightarrow> routed m [] cb (map message_reply ms) = map (\<lambda>(t, ch, v). the (m ch)) ms"
  by (induction ms arbitrary: cb) (auto simp: route_def Let_def dom_def)

section \<open>Properties\<close>

text \<open>C7: subscribing with SUBSCRIBE (not PSUBSCRIBE) on a connected context that is not disconnecting or monitoring and waits for no replies, when no
  allocation fails.  The callback is registered for exactly the channels of the command, beside the earlier subscriptions, and the write events send
  the command.  Every message and confirmation that the read events then bring, cut in any way, runs the callback of its channel with the message,
  in order: this callback for the channels of the command, the earlier one for an earlier channel.  The callbacks may send commands
  (that are not subscriptions or MONITOR), disconnect and free the context; after a callback that frees it, and after the read event in which one has
  disconnected while nothing is to be written, nothing more is delivered and the context is gone.\<close>

theorem subscription_delivers:
  assumes al: "alloc_ok al" "\<not> may_fail al" and pol: "polite M user" and cn: "conn al (ac, e) h0 (None, []) []" and hd: "holds (ac, e) [] [] ys"
    and fl: "has_flag (ac_flags ac) REDIS_CONNECTED" "\<not> closing ac"
    and a: "map tolower name = ''subscribe''" "chs \<noteq> []" "\<forall>ch \<in> set chs. sds_fits (length ch)" "ht_used (ac_channels ac) + length chs \<le> 2 ^ 30"
      "sds_fits (length (resp_command (name # chs)))"
    and cbs: "cbs = (\<lambda>ch. if ch \<in> set chs then Some \<lparr>cb_fn = fn, cb_privdata = pd\<rparr> else dict_abs sds_val (ac_channels ac) ch)"
    and ms: "\<forall>m \<in> set ms. message_ok m" "\<forall>(t, ch, v) \<in> set ms. ch \<in> dom cbs" "vs = map message_reply ms" "length (concat (map encode vs)) \<le> 2146434047"
      "M * length vs \<le> 2146434047"
    and w: "w_writes (e_world e) = ws @ ws'" "accepts ws (length (resp_command (name # chs)))"
    and rs: "w_reads (e_world e) = rs @ rs'" "\<forall>x \<in> set rs. readable x" "concat (map chunk_of rs) = concat (map encode vs)"
  shows "\<exists>ac1 e1 ac2 e2 g e3 tr l.
    asyncCommand al fn pd (resp_command (name # chs) @ NUL # s) (length (resp_command (name # chs))) (ac, e) = Inr (REDIS_OK, ac1, e1) \<and>
    ac_flags ac1 = set_flag (ac_flags ac) REDIS_SUBSCRIBED \<and> dict_abs sds_val (ac_channels ac1) = cbs \<and> e_log e1 = e_log e @ l \<and> visible l = [] \<and>
    handle_writes (length ws) user al (ac1, e1) = Inr (Some (Some ac2, e2)) \<and> w_sent (e_world e2) = w_sent (e_world e) @ resp_command (name # chs) \<and>
    handle_reads (length rs) user al (ac2, e2) = Inr (Some (g, e3)) \<and>
    answered user (ApiDisconnect \<in> set (concat (map snd tr))) (map (\<lambda>(t, ch, v). the (cbs ch)) ms) vs tr \<and>
    after_replies al True (ac1, e1) h0 [] [] ys vs (None, []) [] tr (g, e3)"
proof -
  let ?cmd = "resp_command (name # chs)"
  have fits: "sds_fits (length ([] :: string) + length ?cmd)" using a(5) by simp
  obtain ac1 e1 where s1: "asyncCommand al fn pd (?cmd @ NUL # s) (length ?cmd) (ac, e) = Inr (REDIS_OK, ac1, e1)"
    "holds (ac1, e1) ([] @ ?cmd) [] ys" "ac_flags ac1 = set_flag (ac_flags ac) REDIS_SUBSCRIBED" "dict_abs sds_val (ac_channels ac1) = cbs"
    "c_reader (ac_c ac1) = c_reader (ac_c ac)" "c_err (ac_c ac1) = c_err (ac_c ac)" "ac_err ac1 = ac_err ac" "ac_patterns ac1 = ac_patterns ac"
    "e_replies e1 = e_replies e" "e_world e1 = e_world e" "e_log e1 = e_log e @ (if ev_addWrite ac then [EvAddWrite] else [])"
    unfolding cbs by (rule asyncCommand_subscribe [OF al hd fl(2) a(1-4) fits])
  have f1: "has_flag (ac_flags ac1) REDIS_CONNECTED" "has_flag (ac_flags ac1) REDIS_SUBSCRIBED" "\<not> closing ac1"
    "\<not> has_flag (ac_flags ac1) REDIS_BLOCK" "\<not> has_flag (ac_flags ac1) REDIS_MONITORING" "w_writes (e_world e1) = ws @ ws'"
    using fl cn w(1) by (auto simp: s1(3,10) conn_def flag_simps)
  have cn1: "conn al (ac1, e1) h0 (None, []) []" using cn f1(4,5) by (simp add: conn_def s1(5,6,9))
  have h1: "holds (ac1, e1) ?cmd [] ys" using s1(2) by simp
  from handle_writes_spec [OF al cn1 h1 f1(1) w(2) f1(6)] obtain ac2 e2 where s2: "handle_writes (length ws) user al (ac1, e1) = Inr (Some (Some ac2, e2))"
    "conn al (ac2, e2) h0 (None, []) []" "holds (ac2, e2) [] [] ys" "unseen (ac1, e1) (ac2, e2)" "w_sent (e_world e2) = w_sent (e_world e1) @ ?cmd" by blast
  then have f2: "\<not> has_flag (ac_flags ac2) REDIS_FREEING" "has_flag (ac_flags ac2) REDIS_CONNECTED" "True \<longleftrightarrow> has_flag (ac_flags ac2) REDIS_SUBSCRIBED"
    "\<not> (closing ac2 \<and> [] = ([] :: string) \<and> [] = ([] :: redisCallback list))" "w_reads (e_world e2) = rs @ rs'" "\<not> closing ac2"
    using f1 rs(1) s1(10) by (simp_all add: unseen_def closing_iff)
  have ch: "dict_abs sds_val (ac_channels ac2) = cbs" using s2(4) lasting_sel(1) [of ac2 ac1] s1(4) by (simp add: unseen_def)
  have en: "\<forall>v \<in> set vs. encodable v \<and> nesting v \<le> 8" using ms(1) message_encodable by (auto simp: ms(3) simp del: message_reply.simps)
  have p: "parses (None, []) ([] @ concat (map chunk_of rs)) vs (None, []) []" "parse (None, []) [] = Wait (None, []) []"
    "length ([] :: string) + length (concat (map chunk_of rs)) \<le> 2146434047" "length ([] :: string) + M * length vs \<le> 2146434047"
    using parses_encoded [OF en] parses_encoded [of "[]"] ms(4,5) by (simp_all add: rs(3))
  have rt: "routable True [] vs" "addressed (dict_abs sds_val (ac_channels ac2)) [] vs"
    unfolding ms(3) ch by (rule routable_messages [OF ms(1)], rule addressed_messages [OF ms(2)])
  from handle_reads_spec [OF al pol s2(2) p(2) f2(1) s2(3) f2(2-5) rs(2) p(1) rt p(3,4)] obtain g e3 tr where s3:
    "handle_reads (length rs) user al (ac2, e2) = Inr (Some (g, e3))" "answered user (leaves True ac2 [] tr) (routed cbs [] null_callback vs) vs tr"
    "after_replies al True (ac2, e2) h0 [] [] ys vs (None, []) [] tr (g, e3)" unfolding ch by blast
  have "answered user (ApiDisconnect \<in> set (concat (map snd tr))) (map (\<lambda>(t, ch, v). the (cbs ch)) ms) vs tr"
    using s3(2) f2(6) unfolding ms(3) routed_messages [OF ms(2)] leaves_def by (simp del: message_reply.simps)
  moreover have "after_replies al True (ac1, e1) h0 [] [] ys vs (None, []) [] tr (g, e3)" using s2(4) s3(3) by (rule unseen_after) simp
  moreover have "visible (if ev_addWrite ac then [EvAddWrite] else []) = []" by (simp add: visible_def)
  ultimately show ?thesis using s1(1,3,4,10,11) s2(1,5) s3(1)
    by (intro exI [of _ ac1] exI [of _ e1] exI [of _ ac2] exI [of _ e2] exI [of _ g] exI [of _ e3] exI [of _ tr] exI [of _ "if ev_addWrite ac then [EvAddWrite] else []"]) simp
qed

lemma example_message: "message_ok (''message'', ''news'', RString ''x'')" "message_ok (''message'', ''other'', RString ''y'')"
  by (simp_all add: sds_fits_def tolower_def cstr_def nesting.simps)

lemma example_message_length: "length (encode (message_reply (''message'', ''news'', RString ''x''))) \<le> 1000"
    "length (encode (message_reply (''message'', ''other'', RString ''y''))) \<le> 1000"
  by code_simp+

text \<open>An example: the message arrives in two parts, and its callback sends PING.\<close>

theorem subscription_delivers_witness:
  "\<exists>c ac1 e1 ac2 e2 ac3 e3 l l' o1 h1. ctx_ok (fill_alloc NUL) c [] [] [] \<and>
    asyncCommand (fill_alloc NUL) (Some 1) 5 (resp_command [''SUBSCRIBE'', ''news''] @ [NUL]) (length (resp_command [''SUBSCRIBE'', ''news'']))
      (example_context empty_callbacks c, example_env [] [RdBytes ''*3'', RdBytes (drop 2 (encode (message_reply (''message'', ''news'', RString ''x''))))] [WrCount 29]) =
      Inr (REDIS_OK, ac1, e1) \<and> e_log e1 = l \<and> visible l = [] \<and>
    handle_writes 1 example_user (fill_alloc NUL) (ac1, e1) = Inr (Some (Some ac2, e2)) \<and> w_sent (e_world e2) = resp_command [''SUBSCRIBE'', ''news''] \<and>
    handle_reads 2 example_user (fill_alloc NUL) (ac2, e2) = Inr (Some (Some ac3, e3)) \<and>
    e_log e3 = e_log e1 @ l' \<and> visible l' = [EvCallback 1 5 (o1, h1)] \<and> reads_as (o1, h1) (message_reply (''message'', ''news'', RString ''x'')) \<and>
    holds (ac3, e3) (resp_command [''PING'']) [] [\<lparr>cb_fn = Some 3, cb_privdata = 0\<rparr>]"
proof -
  let ?m = "(''message'', ''news'', RString ''x'')" and ?cb = "\<lparr>cb_fn = Some 1, cb_privdata = 5\<rparr>" and ?cmd = "resp_command [''SUBSCRIBE'', ''news'']"
  let ?v = "message_reply ?m" and ?rs = "[RdBytes ''*3'', RdBytes (drop 2 (encode (message_reply (''message'', ''news'', RString ''x''))))]"
  obtain c where c: "ctx_ok (fill_alloc NUL) c [] [] []" "c_fd c = 3" by (rule example_connected)
  let ?ac = "example_context empty_callbacks c" and ?e = "example_env [] ?rs [WrCount 29]"
  have l: "list_at [] empty_callbacks [] []" by simp
  have d: "ht_used (ac_channels ?ac) + length [''news''] \<le> 2 ^ 30" "dict_abs sds_val (ac_channels ?ac) = Map.empty" by (simp_all add: example_context_def example_dict_ok)
  have a: "map tolower ''SUBSCRIBE'' = ''subscribe''" by code_simp
  have r: "length ?cmd = 29" by code_simp
  have f: "[''news''] \<noteq> []" "\<forall>ch \<in> set [''news'']. sds_fits (length ch)" "sds_fits (length ?cmd)" "accepts [WrCount 29] (length ?cmd)"
    unfolding r by (simp_all add: sds_fits_def)
  define cbs where "cbs = (\<lambda>ch. if ch \<in> set [''news''] then Some ?cb else dict_abs sds_val (ac_channels ?ac) ch)"
  have m: "\<forall>m \<in> set [?m]. message_ok m" "\<forall>(t, ch, v) \<in> set [?m]. ch \<in> dom cbs" "[?v] = map message_reply [?m]"
    using example_message(1) by (simp_all add: cbs_def dom_def del: message_ok.simps)
  have v: "length (concat (map encode [?v])) \<le> 2146434047" "14 * length [?v] \<le> 2146434047" using example_message_length(1) by (simp_all del: message_reply.simps)
  have e: "''*3'' @ drop 2 (encode ?v) = encode ?v" "drop 2 (encode ?v) \<noteq> []" by code_simp+
  have w: "w_writes (e_world ?e) = [WrCount 29] @ []" "w_reads (e_world ?e) = ?rs @ []" "\<forall>x \<in> set ?rs. readable x" "concat (map chunk_of ?rs) = concat (map encode [?v])"
    "w_sent (e_world ?e) = []" "e_log ?e = []" using e by (simp_all add: example_env_def new_world_def del: message_reply.simps)
  from subscription_delivers [OF fill_alloc_ok fill_alloc_never_fails example_polite example_conn [OF c(1)] example_holds [OF c(1) l] example_flags(1,4)
      a f(1,2) d(1) f(3) cbs_def m v w(1) f(4) w(2-4), of "[]"]
  obtain ac1 e1 ac2 e2 g e3 tr l where s: "asyncCommand (fill_alloc NUL) (Some 1) 5 (?cmd @ [NUL]) (length ?cmd) (?ac, ?e) = Inr (REDIS_OK, ac1, e1)"
    "ac_flags ac1 = set_flag (ac_flags ?ac) REDIS_SUBSCRIBED" "e_log e1 = e_log ?e @ l" "visible l = []" "handle_writes (length [WrCount 29]) example_user (fill_alloc NUL) (ac1, e1) = Inr (Some (Some ac2, e2))"
    "w_sent (e_world e2) = w_sent (e_world ?e) @ ?cmd" "handle_reads (length ?rs) example_user (fill_alloc NUL) (ac2, e2) = Inr (Some (g, e3))"
    "answered example_user (ApiDisconnect \<in> set (concat (map snd tr))) (map (\<lambda>(t, ch, v). the (cbs ch)) [?m]) [?v] tr"
    "after_replies (fill_alloc NUL) True (ac1, e1) [] [] [] [] [?v] (None, []) [] tr (g, e3)" by blast
  have ans: "length tr \<le> 1" "\<forall>i < length tr. handled example_user ([?cb] ! i) ([?v] ! i) (tr ! i)" "tr \<noteq> []"
    using s(8) unfolding answered_def by (auto simp: cbs_def simp del: message_reply.simps)
  then obtain t where t: "tr = [t]" by (cases tr) auto
  from ans(2) obtain o1 h1 where h: "reads_as (o1, h1) ?v" "t = ([EvCallback 1 5 (o1, h1)], [example_ping])" by (auto simp: t example_handled simp del: message_reply.simps)
  have p: "example_ping \<noteq> ApiFree" "example_ping \<noteq> ApiDisconnect" "is_command example_ping" "call_bytes example_ping = resp_command [''PING'']"
    "resp_command [''PING''] \<noteq> []" "call_callbacks example_ping = [\<lparr>cb_fn = Some 3, cb_privdata = 0\<rparr>]"
    by (simp_all add: example_ping_def resp_command_def)
  have "\<not> closing ac1" using example_flags(4) [of empty_callbacks c] by (simp add: s(2) closing_iff flag_simps)
  then obtain ac3 l' where "g = Some ac3" "e_log e3 = e_log e1 @ l'" "visible l' = [EvCallback 1 5 (o1, h1)]"
    "holds (ac3, e3) (resp_command [''PING'']) [] [\<lparr>cb_fn = Some 3, cb_privdata = 0\<rparr>]"
    using s(9) p unfolding after_replies_def settled_def t h(2) by (auto simp: accepted_calls_def simp del: message_reply.simps)
  moreover have "handle_writes 1 example_user (fill_alloc NUL) (ac1, e1) = Inr (Some (Some ac2, e2))" "handle_reads 2 example_user (fill_alloc NUL) (ac2, e2) = Inr (Some (g, e3))"
    using s(5,7) by (simp_all add: numeral_2_eq_2 del: message_reply.simps)
  ultimately show ?thesis using s(1,3,4,6) c(1) h(1) unfolding w(5,6)
    by (intro exI [of _ c] exI [of _ ac1] exI [of _ e1] exI [of _ ac2] exI [of _ e2] exI [of _ ac3] exI [of _ e3] exI [of _ l] exI [of _ l'] exI [of _ o1] exI [of _ h1])
      (simp del: message_reply.simps)
qed

text \<open>A message for a channel that has no callback, when it arrives together with a message before it for a channel
  that has one, is given to the callback of that other channel: the code keeps the callback of the previous reply.\<close>

theorem unknown_channel_gets_previous_callback:
  assumes al: "alloc_ok al" "\<not> may_fail al" and pol: "polite M user" and cn: "conn al (ac, e) h0 (None, []) []" and hd: "holds (ac, e) out [] ys"
    and fl: "has_flag (ac_flags ac) REDIS_CONNECTED" "\<not> has_flag (ac_flags ac) REDIS_FREEING" "has_flag (ac_flags ac) REDIS_SUBSCRIBED"
    and ms: "message_ok m1" "m1 = (t1, ch1, v1)" "message_ok m2" "m2 = (t2, ch2, v2)"
    and w: "w_reads (e_world e) = RdBytes (encode (message_reply m1) @ encode (message_reply m2)) # rs"
      "length (encode (message_reply m1) @ encode (message_reply m2)) \<le> 2146434047" "length out + M * 2 \<le> 2146434047"
    and ch: "dict_abs sds_val (ac_channels ac) ch1 = Some cb" "dict_abs sds_val (ac_channels ac) ch2 = None"
  shows "\<exists>g e' tr. redisAsyncHandleRead user al (ac, e) = Inr (Some (g, e')) \<and> answered user False [cb, cb] [message_reply m1, message_reply m2] tr \<and>
    after_replies al True (ac, e) h0 out [] ys [message_reply m1, message_reply m2] (None, []) [] tr (g, e')"
proof -
  let ?d = "encode (message_reply m1) @ encode (message_reply m2)" and ?vs = "map message_reply [m1, m2]"
  have en: "\<forall>v \<in> set ?vs. encodable v \<and> nesting v \<le> 8" "\<forall>m \<in> set [m1, m2]. message_ok m" using ms(1,3) message_encodable by simp_all
  have p: "parses (None, []) ([] @ chunk_of (RdBytes ?d)) ?vs (None, []) []" "readable (RdBytes ?d)" "length ([] :: string) + length (chunk_of (RdBytes ?d)) \<le> 2146434047"
    "length out + M * length ?vs \<le> 2146434047" "True \<longleftrightarrow> has_flag (ac_flags ac) REDIS_SUBSCRIBED"
    using parses_encoded [OF en(1)] w(2,3) fl(3) encode_nonempty by simp_all
  have r: "routed (dict_abs sds_val (ac_channels ac)) [] null_callback ?vs = [cb, cb]" using ch by (simp add: ms(2,4) route_def Let_def)
  from handle_read_spec [OF al pol cn fl(2) hd fl(1) p(5) w(1) p(2,3,1) routable_messages [OF en(2)] p(4)] show ?thesis unfolding r by auto
qed

theorem unknown_channel_gets_previous_callback_witness:
  "\<exists>ac e g e' l r1 o1 h. dict_abs sds_val (ac_channels ac) = [''news'' \<mapsto> \<lparr>cb_fn = Some 1, cb_privdata = 5\<rparr>] \<and>
    redisAsyncHandleRead example_user (fill_alloc NUL) (ac, e) = Inr (Some (g, e')) \<and> e_log e' = e_log e @ l \<and>
    visible l = [EvCallback 1 5 r1, EvCallback 1 5 (o1, h)] \<and> reads_as (o1, h) (message_reply (''message'', ''other'', RString ''y''))"
proof -
  let ?m1 = "(''message'', ''news'', RString ''x'')" and ?m2 = "(''message'', ''other'', RString ''y'')"
  let ?cb = "\<lparr>cb_fn = Some 1, cb_privdata = 5\<rparr>" and ?cmd = "resp_command (''SUBSCRIBE'' # [''news''])"
  let ?d = "encode (message_reply ?m1) @ encode (message_reply ?m2)"
  obtain c where c: "ctx_ok (fill_alloc NUL) c [] [] []" "c_fd c = 3" by (rule example_connected)
  let ?ac = "example_context empty_callbacks c" and ?e = "example_env [] [RdBytes ?d] []"
  have l: "list_at [] empty_callbacks [] []" by simp
  have r: "length ?cmd = 29" "map tolower ''SUBSCRIBE'' = ''subscribe''" by code_simp+
  have f: "[''news''] \<noteq> []" "\<forall>ch \<in> set [''news'']. sds_fits (length ch)" "ht_used (ac_channels ?ac) + length [''news''] \<le> 2 ^ 30"
    "sds_fits (length ([] :: string) + length ?cmd)" unfolding r by (simp_all add: sds_fits_def example_context_def example_dict_ok)
  note hd = example_holds [OF c(1) l, of "[RdBytes ?d]" "[]"] and cn = example_conn [OF c(1), of empty_callbacks "[]" "[RdBytes ?d]" "[]"]
  obtain ac e where s: "holds (ac, e) ([] @ ?cmd) [] []" "ac_flags ac = set_flag (ac_flags ?ac) REDIS_SUBSCRIBED"
    "dict_abs sds_val (ac_channels ac) = (\<lambda>ch. if ch \<in> set [''news''] then Some ?cb else dict_abs sds_val (ac_channels ?ac) ch)"
    "c_reader (ac_c ac) = c_reader (ac_c ?ac)" "c_err (ac_c ac) = c_err (ac_c ?ac)" "e_replies e = e_replies ?e" "e_world e = e_world ?e"
    by (rule asyncCommand_subscribe [OF fill_alloc_ok fill_alloc_never_fails hd example_flags(4) r(2) f, where fn = "Some 1" and pd = 5 and s = "[]"])
  have ch: "dict_abs sds_val (ac_channels ac) = [''news'' \<mapsto> ?cb]" using s(3) by (auto simp: example_context_def example_dict_ok fun_eq_iff)
  have fl: "has_flag (ac_flags ac) REDIS_CONNECTED" "\<not> has_flag (ac_flags ac) REDIS_FREEING" "has_flag (ac_flags ac) REDIS_SUBSCRIBED" "\<not> closing ac"
    using example_flags [of empty_callbacks c] by (simp_all add: s(2) closing_iff flag_simps)
  have cn1: "conn (fill_alloc NUL) (ac, e) [] (None, []) []" using cn by (simp add: conn_def s(2,4-6) flag_simps)
  have w: "w_reads (e_world e) = RdBytes ?d # []" "length ?d \<le> 2146434047" "length ([] @ ?cmd) + 14 * 2 \<le> 2146434047"
    using example_message_length by (simp_all add: s(7) r(1) example_env_def new_world_def del: message_reply.simps)
  have dd: "dict_abs sds_val (ac_channels ac) ''news'' = Some ?cb" "dict_abs sds_val (ac_channels ac) ''other'' = None" by (simp_all add: ch)
  from unknown_channel_gets_previous_callback [OF fill_alloc_ok fill_alloc_never_fails example_polite cn1 s(1) fl(1-3) example_message(1) refl example_message(2) refl w dd]
  obtain g e' tr where u: "redisAsyncHandleRead example_user (fill_alloc NUL) (ac, e) = Inr (Some (g, e'))"
    "answered example_user False [?cb, ?cb] [message_reply ?m1, message_reply ?m2] tr"
    "after_replies (fill_alloc NUL) True (ac, e) [] ([] @ ?cmd) [] [] [message_reply ?m1, message_reply ?m2] (None, []) [] tr (g, e')" by blast
  have hn: "length tr \<le> 2" "\<forall>i < length tr. handled example_user ([?cb, ?cb] ! i) ([message_reply ?m1, message_reply ?m2] ! i) (tr ! i)"
    "ApiFree \<in> set (concat (map snd tr)) \<or> length tr = 2" using u(2) unfolding answered_def by auto
  have "([?cb, ?cb] ! i) = ?cb" if "i < length tr" for i using that hn(1) by (cases i) (auto simp: nth_Cons')
  then have hp: "\<forall>t \<in> set tr. \<exists>r. t = ([EvCallback 1 5 r], [example_ping])" using hn(2) by (fastforce simp: in_set_conv_nth example_handled)
  have nf: "ApiFree \<notin> set (concat (map snd tr))" "ApiDisconnect \<notin> set (concat (map snd tr))" using hp by (auto simp: example_ping_def)
  then obtain t1 t2 where t: "tr = [t1, t2]" using hn(3) by (auto simp: numeral_2_eq_2 length_Suc_conv)
  from hn(2) [rule_format, of 1] obtain o1 h where h: "reads_as (o1, h) (message_reply ?m2)" "t2 = ([EvCallback 1 5 (o1, h)], [example_ping])"
    by (auto simp: t example_handled simp del: message_reply.simps)
  obtain r1 where r1: "t1 = ([EvCallback 1 5 r1], [example_ping])" using hp by (auto simp: t)
  obtain ac' where g: "g = Some ac'" using u(3) nf fl(4) unfolding after_replies_def Let_def settled_def by (auto split: if_splits)
  obtain l where "e_log e' = e_log e @ l" "visible l = concat (map fst tr)" by (rule after_alive [OF u(3) [unfolded g] refl])
  then show ?thesis using ch u(1) h r1
    by (intro exI [of _ ac] exI [of _ e] exI [of _ g] exI [of _ e'] exI [of _ l] exI [of _ r1] exI [of _ o1] exI [of _ h]) (simp add: t del: message_reply.simps)
qed

end
