(* ===== verification/ConnPool.thy ===== *)
theory ConnPool
  imports Net "HOL-Library.Signed_Division"
begin

text \<open>
  The connection pool \<open>RedisConnPool.cpp\<close> over the connect functions of hiredis.  Every operation holds the mutex of
  the pool from its first to its last access, so that concurrent calls are sequences of these operations in some
  order; the state machine at the end has one step per call.  A context that is used between borrowing and
  returning belongs to one thread and may change meanwhile.
\<close>

section \<open>The pool\<close>

record RedisConnPool =
  pool_host :: string
  pool_port :: int
  pool_size :: int
  conn_timeout_ms :: int
  send_timeout_ms :: int
  recv_timeout_ms :: int
  busy_conn_num :: int
  free_conns :: "redisContext list"

text \<open>Milliseconds as a \<open>timeval\<close>, with the division of C.\<close>

definition ms_timeval :: "int \<Rightarrow> timeval" where
  "ms_timeval ms = \<lparr>tv_sec = ms sdiv 1000, tv_usec = (ms smod 1000) * 1000\<rparr>"

type_synonym 'a pool_result = "(('a \<times> reply_heap \<times> world) option) res"

definition pool_Connect :: "allocator \<Rightarrow> RedisConnPool \<Rightarrow> reply_heap \<Rightarrow> world \<Rightarrow> redisContext option pool_result" where
  "pool_Connect al p h w =
     bindio (redisConnectWithTimeout al (pool_host p) (pool_port p) (ms_timeval (conn_timeout_ms p)) h w) (\<lambda>(c, h, w).
     case c of
       None \<Rightarrow> Inr (Some (None, h, w))
     | Some c \<Rightarrow>
         if c_err c \<noteq> 0 then bindr (redisFree c h w) (\<lambda>(h, w). Inr (Some (None, h, w)))
         else bindio (redisSetTimeout c (ms_timeval (recv_timeout_ms p)) w) (\<lambda>(_, c, w). Inr (Some (Some c, h, w))))"

text \<open>The loop of the constructor, \<open>n\<close> rounds.\<close>

fun fill_conns :: "nat \<Rightarrow> allocator \<Rightarrow> RedisConnPool \<Rightarrow> reply_heap \<Rightarrow> world \<Rightarrow> RedisConnPool pool_result" where
  "fill_conns 0 al p h w = Inr (Some (p, h, w))"
| "fill_conns (Suc n) al p h w =
     bindio (pool_Connect al p h w) (\<lambda>(conn, h, w).
     case conn of
       None \<Rightarrow> fill_conns n al p h w
     | Some conn \<Rightarrow> fill_conns n al (p\<lparr>free_conns := free_conns p @ [conn]\<rparr>) h w)"

definition new_RedisConnPool :: "allocator \<Rightarrow> string \<Rightarrow> int \<Rightarrow> int \<Rightarrow> int \<Rightarrow> int \<Rightarrow> int \<Rightarrow> reply_heap \<Rightarrow> world \<Rightarrow> RedisConnPool pool_result" where
  "new_RedisConnPool al host port sz ct st rt h w =
     fill_conns (nat sz) al
       \<lparr>pool_host = host, pool_port = port, pool_size = sz, conn_timeout_ms = ct,
        send_timeout_ms = st, recv_timeout_ms = rt, busy_conn_num = 0, free_conns = []\<rparr> h w"

text \<open>The destructor.\<close>

fun free_all :: "redisContext list \<Rightarrow> reply_heap \<Rightarrow> world \<Rightarrow> (reply_heap \<times> world) res" where
  "free_all [] h w = Inr (h, w)"
| "free_all (c # cs) h w = bindr (redisFree c h w) (\<lambda>(h, w). free_all cs h w)"

definition delete_RedisConnPool :: "RedisConnPool \<Rightarrow> reply_heap \<Rightarrow> world \<Rightarrow> (reply_heap \<times> world) res" where
  "delete_RedisConnPool p h w = free_all (free_conns p) h w"

text \<open>\<open>BorrowRedisConn\<close> reads \<open>conn->err\<close> also when \<open>Connect\<close> returned NULL.\<close>

definition BorrowRedisConn :: "allocator \<Rightarrow> RedisConnPool \<Rightarrow> reply_heap \<Rightarrow> world \<Rightarrow> (redisContext option \<times> RedisConnPool) pool_result" where
  "BorrowRedisConn al p h w =
     (case free_conns p of
        conn # rest \<Rightarrow> Inr (Some ((Some conn, p\<lparr>busy_conn_num := int32 (busy_conn_num p + 1), free_conns := rest\<rparr>), h, w))
      | [] \<Rightarrow>
          if busy_conn_num p < pool_size p then
            bindio (pool_Connect al p h w) (\<lambda>(conn, h, w).
            let p = (if conn \<noteq> None \<and> c_err (the conn) = 0 then p\<lparr>busy_conn_num := int32 (busy_conn_num p + 1)\<rparr> else p) in
            case conn of
              None \<Rightarrow> Inl OutOfBounds
            | Some c \<Rightarrow> Inr (Some ((if c_err c \<noteq> 0 then None else Some c, p), h, w)))
          else Inr (Some ((None, p), h, w)))"

definition ReturnRedisConn :: "allocator \<Rightarrow> redisContext option \<Rightarrow> RedisConnPool \<Rightarrow> reply_heap \<Rightarrow> world \<Rightarrow> RedisConnPool pool_result" where
  "ReturnRedisConn al conn p h w =
     (case conn of
        None \<Rightarrow> Inr (Some (p, h, w))
      | Some c \<Rightarrow>
          bindio (if c_err c \<noteq> 0 then
                    bindr (redisFree c h w) (\<lambda>(h, w).
                    bindio (pool_Connect al p h w) (\<lambda>(conn, h, w).
                    case conn of
                      None \<Rightarrow> Inr (Some (p, h, w))
                    | Some c \<Rightarrow> Inr (Some (if c_err c = 0 then p\<lparr>free_conns := free_conns p @ [c]\<rparr> else p, h, w))))
                  else Inr (Some (p\<lparr>free_conns := free_conns p @ [c]\<rparr>, h, w))) (\<lambda>(p, h, w).
          Inr (Some (p\<lparr>busy_conn_num := int32 (busy_conn_num p - 1)\<rparr>, h, w))))"

definition BusyConnCount :: "RedisConnPool \<Rightarrow> int" where
  "BusyConnCount p = busy_conn_num p"

definition FreeConnCount :: "RedisConnPool \<Rightarrow> int" where
  "FreeConnCount p = int32 (int (length (free_conns p)))"

section \<open>The pool in use\<close>

text \<open>
  The states that calls of any number of threads reach: the pool, the contexts that are lent out, the reply heap and
  the operating system.  Between two calls a thread can do anything with a context it has borrowed.
\<close>

inductive pool_state :: "allocator \<Rightarrow> RedisConnPool \<Rightarrow> redisContext list \<Rightarrow> reply_heap \<Rightarrow> world \<Rightarrow> bool" for al where
  start: "new_RedisConnPool al host port sz ct st rt h0 w0 = Inr (Some (p, h, w)) \<Longrightarrow> sz \<le> 2147483647 \<Longrightarrow> pool_state al p [] h w"
| lend: "pool_state al p lent h w \<Longrightarrow> BorrowRedisConn al p h w = Inr (Some ((Some c, p'), h', w')) \<Longrightarrow> pool_state al p' (c # lent) h' w'"
| refuse: "pool_state al p lent h w \<Longrightarrow> BorrowRedisConn al p h w = Inr (Some ((None, p'), h', w')) \<Longrightarrow> pool_state al p' lent h' w'"
| work: "pool_state al p lent h w \<Longrightarrow> i < length lent \<Longrightarrow> pool_state al p (lent[i := c]) h' w'"
| give_back: "pool_state al p (xs @ c # ys) h w \<Longrightarrow> ReturnRedisConn al (Some c) p h w = Inr (Some (p', h', w')) \<Longrightarrow> pool_state al p' (xs @ ys) h' w'"

definition pool_ok :: "RedisConnPool \<Rightarrow> redisContext list \<Rightarrow> bool" where
  "pool_ok p lent \<longleftrightarrow> busy_conn_num p = int (length lent) \<and> int (length lent) + int (length (free_conns p)) \<le> max 0 (pool_size p) \<and>
     pool_size p \<le> 2147483647"

lemma bindio_SomeE:
  assumes "bindio m f = Inr (Some y)"
  obtains x where "m = Inr (Some x)" "f x = Inr (Some y)"
  using assms by (auto simp: bindio_Some_iff)

lemma fill_conns_ok:
  "fill_conns n al p h w = Inr (Some (p', h', w')) \<Longrightarrow>
    \<exists>cs. p' = p\<lparr>free_conns := free_conns p @ cs\<rparr> \<and> length cs \<le> n"
proof (induction n arbitrary: p h w)
  case 0
  then show ?case by (auto intro: exI [of _ "[]"])
next
  case (Suc n)
  then obtain x where x: "pool_Connect al p h w = Inr (Some x)" by (auto elim: bindio_SomeE)
  obtain conn h1 w1 where "x = (conn, h1, w1)" by (cases x)
  with x have c: "pool_Connect al p h w = Inr (Some (conn, h1, w1))" by simp
  show ?case
  proof (cases conn)
    case None
    with Suc.prems c have "fill_conns n al p h1 w1 = Inr (Some (p', h', w'))" by simp
    from Suc.IH [OF this] show ?thesis by (auto intro: le_SucI)
  next
    case (Some x)
    with Suc.prems c have "fill_conns n al (p\<lparr>free_conns := free_conns p @ [x]\<rparr>) h1 w1 = Inr (Some (p', h', w'))" by simp
    from Suc.IH [OF this] obtain cs where "p' = p\<lparr>free_conns := free_conns p @ x # cs\<rparr>" "length cs \<le> n" by auto
    then show ?thesis by (intro exI [of _ "x # cs"]) simp
  qed
qed
inductive_cases pool_stateE: "pool_state al p lent h w"

lemma Borrow_cases:
  assumes "BorrowRedisConn al p h w = Inr (Some ((conn, p'), h', w'))"
  shows "(\<exists>c rest. free_conns p = c # rest \<and> conn = Some c \<and> p' = p\<lparr>busy_conn_num := int32 (busy_conn_num p + 1), free_conns := rest\<rparr>) \<or>
    free_conns p = [] \<and> busy_conn_num p < pool_size p \<and> conn \<noteq> None \<and> p' = p\<lparr>busy_conn_num := int32 (busy_conn_num p + 1)\<rparr> \<or>
    conn = None \<and> p' = p"
proof (cases "free_conns p = [] \<and> busy_conn_num p < pool_size p")
  case True
  with assms obtain x where x: "pool_Connect al p h w = Inr (Some x)" by (auto simp: BorrowRedisConn_def elim: bindio_SomeE)
  obtain conn1 h1 w1 where "x = (conn1, h1, w1)" by (cases x)
  with True x assms show ?thesis by (cases conn1) (auto simp: BorrowRedisConn_def split: if_splits)
next
  case False
  with assms show ?thesis by (auto simp: BorrowRedisConn_def split: list.splits)
qed

lemma Return_cases:
  assumes "ReturnRedisConn al (Some c) p h w = Inr (Some (p', h', w'))"
  obtains cs where "length cs \<le> 1" "p' = p\<lparr>free_conns := free_conns p @ cs, busy_conn_num := int32 (busy_conn_num p - 1)\<rparr>"
proof -
  from assms have "(\<exists>x. p' = p\<lparr>free_conns := free_conns p @ [x], busy_conn_num := int32 (busy_conn_num p - 1)\<rparr>) \<or>
      p' = p\<lparr>busy_conn_num := int32 (busy_conn_num p - 1)\<rparr>"
  proof (cases "c_err c = 0")
    case False
    with assms obtain h1 w1 where f: "redisFree c h w = Inr (h1, w1)" by (cases "redisFree c h w") (auto simp: ReturnRedisConn_def bindio_def)
    with False assms obtain x where x: "pool_Connect al p h1 w1 = Inr (Some x)"
      by (auto simp: ReturnRedisConn_def elim!: bindio_SomeE)
    obtain conn1 h2 w2 where "x = (conn1, h2, w2)" by (cases x)
    with False f x assms show ?thesis by (cases conn1) (auto simp: ReturnRedisConn_def split: if_splits)
  qed (auto simp: ReturnRedisConn_def)
  with that [of "[_]"] that [of "[]"] show ?thesis by auto
qed

lemma Borrow_ok:
  assumes ok: "pool_ok p lent" and b: "BorrowRedisConn al p h w = Inr (Some ((conn, p'), h', w'))"
  shows "pool_ok p' (case conn of None \<Rightarrow> lent | Some c \<Rightarrow> c # lent)"
  using Borrow_cases [OF b] ok by (auto simp: pool_ok_def)

lemma Return_ok:
  assumes ok: "pool_ok p (xs @ c # ys)" and r: "ReturnRedisConn al (Some c) p h w = Inr (Some (p', h', w'))"
  shows "pool_ok p' (xs @ ys)"
  using r by (rule Return_cases) (use ok in \<open>auto simp: pool_ok_def\<close>)

lemma pool_state_ok: "pool_state al p lent h w \<Longrightarrow> pool_ok p lent"
proof (induction rule: pool_state.induct)
  case (start host port sz ct st rt h0 w0 p h w)
  then show ?case unfolding new_RedisConnPool_def by (auto simp: pool_ok_def dest!: fill_conns_ok)
next
  case (lend p lent h w c p' h' w')
  then show ?case using Borrow_ok [of p lent al h w "Some c" p' h' w'] by simp
next
  case (refuse p lent h w p' h' w')
  then show ?case using Borrow_ok [of p lent al h w None p' h' w'] by simp
next
  case (work p lent h w i c h' w')
  then show ?case by (simp add: pool_ok_def)
next
  case (give_back p xs c ys h w p' h' w')
  then show ?case using Return_ok by blast
qed

section \<open>Properties\<close>

text \<open>C19: however many threads borrow and return connections, in whatever order and whatever happens to the connections
  meanwhile, the pool counts the connections that are lent out correctly, and these together with the free ones are
  never more than the pool size.\<close>

theorem pool_invariant:
  assumes "pool_state al p lent h w"
  shows "BusyConnCount p = int (length lent) \<and> BusyConnCount p + FreeConnCount p \<le> max 0 (pool_size p)"
  using pool_state_ok [OF assms] by (auto simp: pool_ok_def BusyConnCount_def FreeConnCount_def)

text \<open>A successful connection, for the examples.\<close>

lemma redisContextInit_ok:
  assumes al: "alloc_ok al" "\<not> may_fail al"
  obtains c where "redisContextInit al h w = Inr (Some c, h, w)" "ctx_ok al c h [] []" "c_flags c = 0"
proof -
  obtain b where b: "or_null (sdsempty al) = Inr (Some b)" "sds_ok b" "sds_val b = []" using al by (rule sdsempty_null)
  obtain r where r: "redisReaderCreateWithFunctions al (defaultFunctions al) = Some r" "idle al r []" "r_pos r = 0"
    using al by (rule create_idle)
  have "reader_rep al (r, h) (None, []) []" using al r idle_waiting [of al r "[]" h] by (auto simp: reader_rep_def)
  moreover have "al sizeof_redisContext \<noteq> None" using al(2) by auto
  ultimately show ?thesis using b r(1) that by (simp add: redisContextInit_def redisReaderCreate_def ctx_ok_def)
qed

definition example_calls :: "sys_result list" where
  "example_calls = [SysOk 5, SysOk 0, SysOk 0, SysOk 0, SysOk 2, SysOk 0, SysOk 0, SysOk 0, SysOk 0]"

lemma example_connect:
  obtains c w' where "pool_Connect (fill_alloc NUL) p h (new_world rs ws (example_calls @ cs) (GaiList 1 # gs)) = Inr (Some (Some c, h, w'))"
    "ctx_ok (fill_alloc NUL) c h [] []" "blocking c" "c_fd c = 5" "w_reads w' = rs" "w_writes w' = ws" "w_sent w' = []" "w_calls w' = cs" "w_gai w' = gs"
proof -
  let ?al = "fill_alloc NUL" and ?w = "new_world rs ws (example_calls @ cs) (GaiList 1 # gs)"
  obtain c where c: "redisContextInit ?al h ?w = Inr (Some c, h, ?w)" "ctx_ok ?al c h [] []" "c_flags c = 0"
    by (rule redisContextInit_ok [OF fill_alloc_ok fill_alloc_never_fails])
  have k: "keep_params ?al False c' addr port (Some tv) None = Inr (c'\<lparr>c_connection_type := REDIS_CONN_TCP, c_tcp_port := port,
      c_tcp_host := Some (cstr addr), c_timeout := Some tv, c_tcp_source_addr := None\<rparr>)" for c' addr port tv
    by (simp add: keep_params_def keep_timeout_def strdup_def fill_alloc_def)
  have e: "c_err c = 0" using c(2) by (simp add: ctx_ok_def)
  have "\<exists>c' w'. pool_Connect ?al p h ?w = Inr (Some (Some c', h, w')) \<and> ctx_ok ?al c' h [] [] \<and> blocking c' \<and> c_fd c' = 5 \<and>
      w_reads w' = rs \<and> w_writes w' = ws \<and> w_sent w' = [] \<and> w_calls w' = cs \<and> w_gai w' = gs"
    unfolding pool_Connect_def redisConnectWithTimeout_def connect_with_def c(1) redisContextConnectTcp_def contextConnectTcp_def Let_def
    using c(2,3) e
    by (simp add: k example_calls_def new_world_def sys_getaddrinfo_def connect_addrs.simps sys_socket_def sys_call_def redisSetBlocking_def
        bind_source_def finish_connect_def redisSetTcpNoDelay_def sys_setsockopt_def redisSetTimeout_def redisContextSetTimeout_def flag_simps ctx_ok_def)
  with that show ?thesis by blast
qed

theorem pool_invariant_witness:
  "\<exists>p c h w. pool_state (fill_alloc NUL) p [c] h w \<and> BusyConnCount p = 1 \<and> BusyConnCount p + FreeConnCount p \<le> 1"
proof -
  let ?al = "fill_alloc NUL" and ?w = "new_world [] [] (example_calls @ []) [GaiList 1]"
  let ?p = "\<lparr>pool_host = ''h'', pool_port = 6379, pool_size = 1, conn_timeout_ms = 100, send_timeout_ms = 100, recv_timeout_ms = 100, busy_conn_num = 0, free_conns = []\<rparr>"
  obtain c w' where c: "pool_Connect ?al ?p [] ?w = Inr (Some (Some c, [], w'))" by (rule example_connect)
  then have "new_RedisConnPool ?al ''h'' 6379 1 100 100 100 [] ?w = Inr (Some (?p\<lparr>free_conns := [c]\<rparr>, [], w'))"
    by (simp add: new_RedisConnPool_def)
  then have s: "pool_state ?al (?p\<lparr>free_conns := [c]\<rparr>) [] [] w'" by (rule pool_state.start) simp
  have "pool_state ?al (?p\<lparr>busy_conn_num := 1\<rparr>) [c] [] w'"
    using s by (rule pool_state.lend) (simp add: BorrowRedisConn_def)
  moreover from pool_invariant [OF this] have "BusyConnCount (?p\<lparr>busy_conn_num := 1\<rparr>) = 1 \<and>
      BusyConnCount (?p\<lparr>busy_conn_num := 1\<rparr>) + FreeConnCount (?p\<lparr>busy_conn_num := 1\<rparr>) \<le> 1" by simp
  ultimately show ?thesis by blast
qed

text \<open>when the pool has no free connection and the name of the server cannot be resolved, borrowing a connection
  dereferences a NULL pointer: \<open>Connect\<close> returns NULL and \<open>BorrowRedisConn\<close> reads its error field.\<close>

theorem BorrowRedisConn_null_dereference:
  assumes "alloc_ok al" "\<not> may_fail al" "free_conns p = []" "busy_conn_num p < pool_size p" "w_gai w = [GaiError rv, GaiError rv']"
  shows "BorrowRedisConn al p h w = Inl OutOfBounds"
proof -
  obtain c where c: "redisContextInit al h w = Inr (Some c, h, w)" "ctx_ok al c h [] []" using assms(1,2) by (rule redisContextInit_ok)
  let ?c = "c\<lparr>c_flags := set_flag (c_flags c) REDIS_BLOCK\<rparr>" and ?tv = "Some (ms_timeval (conn_timeout_ms p))"
  obtain c1 where c1: "keep_params al False ?c (pool_host p) (pool_port p) ?tv None = Inr c1" "c_reader c1 = c_reader c"
  proof -
    have "al 16 \<noteq> None" using assms(2) by auto
    then show ?thesis using that by (auto simp: keep_params_def keep_timeout_def Let_def)
  qed
  have "\<exists>w'. pool_Connect al p h w = Inr (Some (None, h, w'))"
    unfolding pool_Connect_def redisConnectWithTimeout_def connect_with_def c(1) redisContextConnectTcp_def contextConnectTcp_def Let_def
    using assms(5) c1 redisFree_ctx_ok [OF c(2)]
    by (simp add: sys_getaddrinfo_def set_error_text_def redis_errors)
  with assms(3,4) show ?thesis by (auto simp: BorrowRedisConn_def)
qed

theorem BorrowRedisConn_null_dereference_witness:
  "BorrowRedisConn (fill_alloc NUL) \<lparr>pool_host = ''nowhere'', pool_port = 6379, pool_size = 1, conn_timeout_ms = 100, send_timeout_ms = 100,
     recv_timeout_ms = 100, busy_conn_num = 0, free_conns = []\<rparr> [] (new_world [] [] [] [GaiError 2, GaiError 2]) = Inl OutOfBounds"
  by (rule BorrowRedisConn_null_dereference [OF fill_alloc_ok fill_alloc_never_fails, where rv = 2 and rv' = 2]) (simp_all add: new_world_def)

end
