(* ===== verification/CliPool.thy ===== *)
theory CliPool
  imports ConnPool "HOL-Library.Char_ord" "HOL-Library.List_Lexorder"
begin

text \<open>
  The Redis client of this repository: \<open>RedisCliPoolImpl.cpp\<close> (hash commands over the connection pools),
  \<open>RedisCliPool.cpp\<close> (parameter checks and retries) and \<open>MultiHashRedisCliPool.cpp\<close> (several hashes at once).  A
  \<open>std::map\<close> is an association list sorted by key, a \<open>std::set\<close> a sorted list; strings are compared byte by byte.
  The random number that selects a pool is a parameter, \<open>pf\<close> is the text that \<open>printf\<close> produces.  Logging is left out.
\<close>

section \<open>Data\<close>

type_synonym FieldValueMap = "(string \<times> string) list"
type_synonym FieldSet = "string list"

text \<open>\<open>m[k] = v\<close> on a map.\<close>

fun map_put :: "string \<Rightarrow> 'v \<Rightarrow> (string \<times> 'v) list \<Rightarrow> (string \<times> 'v) list" where
  "map_put k v [] = [(k, v)]"
| "map_put k v ((k', v') # m) =
     (if k = k' then (k, v) # m else if k < k' then (k, v) # (k', v') # m else (k', v') # map_put k v m)"

definition DumpFieldValueStr :: "FieldValueMap \<Rightarrow> string" where
  "DumpFieldValueStr m = concat (map (\<lambda>(k, v). ''['' @ k @ ''|'' @ show_nat (length v) @ ''|'' @ v @ '']'' @ [CHR 0x09]) m)"

definition DumpSetStr :: "FieldSet \<Rightarrow> string" where
  "DumpSetStr fs = concat (map (\<lambda>f. f @ ''|'') fs)"

text \<open>A borrowed connection: the context (NULL is \<open>None\<close>) and the pool it comes from.\<close>

record RedisConnect =
  redis_ctx :: "redisContext option"
  redis_conn_pool :: "nat option"

type_synonym cli = "RedisConnPool list \<times> reply_heap \<times> world"

type_synonym 'a cli_result = "(('a \<times> cli) option) res"

section \<open>\<open>RedisCliPoolImpl\<close>\<close>

fun init_pools :: "allocator \<Rightarrow> (string \<times> int) list \<Rightarrow> int \<Rightarrow> int \<Rightarrow> int \<Rightarrow> int \<Rightarrow> cli \<Rightarrow> (cli option) res" where
  "init_pools al [] sz ct st rt s = Inr (Some s)"
| "init_pools al ((ip, port) # addrs) sz ct st rt (ps, h, w) =
     bindio (new_RedisConnPool al ip port sz ct st rt h w) (\<lambda>(p, h, w). init_pools al addrs sz ct st rt (ps @ [p], h, w))"

definition Impl_Init :: "allocator \<Rightarrow> string list \<Rightarrow> nat list \<Rightarrow> int \<Rightarrow> int \<Rightarrow> int \<Rightarrow> int \<Rightarrow> cli \<Rightarrow> bool cli_result" where
  "Impl_Init al ips ports sz ct st rt s =
     bindio (init_pools al [(ip, int32 (int port)). port \<leftarrow> ports, ip \<leftarrow> ips] sz ct st rt s) (\<lambda>s. Inr (Some (fst s \<noteq> [], s)))"

definition Impl_ReturnRedisConn :: "allocator \<Rightarrow> RedisConnect \<Rightarrow> cli \<Rightarrow> (cli option) res" where
  "Impl_ReturnRedisConn al rc = (\<lambda>(ps, h, w).
     case redis_conn_pool rc of
       None \<Rightarrow> Inr (Some (ps, h, w))
     | Some i \<Rightarrow> bindio (ReturnRedisConn al (redis_ctx rc) (ps ! i) h w) (\<lambda>(p, h, w). Inr (Some (ps[i := p], h, w))))"

definition Impl_BorrowRedisConn :: "allocator \<Rightarrow> nat \<Rightarrow> cli \<Rightarrow> RedisConnect cli_result" where
  "Impl_BorrowRedisConn al rnd = (\<lambda>(ps, h, w).
     if ps = [] then Inr (Some (\<lparr>redis_ctx = None, redis_conn_pool = None\<rparr>, ps, h, w))
     else
       let index = rnd mod length ps in
       bindio (BorrowRedisConn al (ps ! index) h w) (\<lambda>((c, p), h, w).
       let s = (ps[index := p], h, w); rc = \<lparr>redis_ctx = c, redis_conn_pool = Some index\<rparr> in
       if c \<noteq> None then Inr (Some (rc, s))
       else
         bindio (Impl_ReturnRedisConn al rc s) (\<lambda>(ps, h, w).
         bindio (BorrowRedisConn al (ps ! index) h w) (\<lambda>((c, p), h, w).
         Inr (Some (rc\<lparr>redis_ctx := c\<rparr>, ps[index := p], h, w))))))"

text \<open>The object a reply pointer points to, and \<open>reply != NULL && reply->type == t\<close>.\<close>

definition reply_at :: "robj option \<Rightarrow> reply_heap \<Rightarrow> (redisReply option) res" where
  "reply_at reply h =
     (case reply of
        None \<Rightarrow> Inr None
      | Some (ObjAddr a) \<Rightarrow> bindr (heap_get h a) (\<lambda>r. Inr (Some r))
      | Some (ObjTag _) \<Rightarrow> Inl OutOfBounds)"

definition has_type :: "redisReply option \<Rightarrow> int \<Rightarrow> bool" where
  "has_type r t \<longleftrightarrow> (case r of None \<Rightarrow> False | Some r \<Rightarrow> rp_type r = t)"

text \<open>\<open>freeReplyObject(reply); ReturnRedisConn(redis_conn); return x\<close>, with the context as the command left it.\<close>

definition finish :: "allocator \<Rightarrow> robj option \<Rightarrow> RedisConnect \<Rightarrow> 'a \<Rightarrow> cli \<Rightarrow> 'a cli_result" where
  "finish al reply rc x = (\<lambda>(ps, h, w).
     bindr (freeReplyObject reply h) (\<lambda>h. bindio (Impl_ReturnRedisConn al rc (ps, h, w)) (\<lambda>s. Inr (Some (x, s)))))"

text \<open>\<open>std::string(r->str, r->len)\<close>; an empty string may have a NULL pointer.\<close>

definition string_of :: "redisReply \<Rightarrow> string res" where
  "string_of r =
     (case rp_str r of
        None \<Rightarrow> if rp_len r = 0 then Inr [] else Inl OutOfBounds
      | Some s \<Rightarrow> mem_read s 0 (size_t (rp_len r)))"

type_synonym 'd printf = "string \<Rightarrow> 'd va_value \<Rightarrow> string"

definition HSetImpl :: "allocator \<Rightarrow> 'd printf \<Rightarrow> nat \<Rightarrow> string \<Rightarrow> string \<Rightarrow> string \<Rightarrow> bool \<Rightarrow> cli \<Rightarrow> int cli_result" where
  "HSetImpl al pf rnd key field_name field_value nx s =
     bindio (Impl_BorrowRedisConn al rnd s) (\<lambda>(rc, ps, h, w).
     case redis_ctx rc of
       None \<Rightarrow> Inr (Some (- 1, ps, h, w))
     | Some c \<Rightarrow>
         bindio (redisCommand al pf c (if nx then ''HSETNX %s %s %b'' else ''HSET %s %s %b'')
                   [VStr key, VStr field_name, VBin field_value (length field_value)] h w) (\<lambda>(reply, c, h, w).
         let rc = rc\<lparr>redis_ctx := Some c\<rparr>; s = (ps, h, w) in
         bindr (reply_at reply h) (\<lambda>r.
         if c_err c = 0 \<and> has_type r REDIS_REPLY_INTEGER then finish al reply rc (int32 (rp_integer (the r))) s
         else if c_err c \<noteq> 0 then finish al reply rc (- 1) s
         else if r = None then finish al None rc (- 1) s
         else if has_type r REDIS_REPLY_ERROR then finish al reply rc (- 1) s
         else finish al reply rc (- 1) s)))"

text \<open>The two loops of \<open>HMSetImpl\<close>: the number of commands appended, and the replies.  The variable \<open>reply\<close> keeps its
  value, also after the object has been freed, until \<open>redisGetReply\<close> succeeds again.\<close>

fun hmset_append :: "allocator \<Rightarrow> 'd printf \<Rightarrow> string \<Rightarrow> FieldValueMap \<Rightarrow> redisContext \<Rightarrow> world \<Rightarrow> (nat \<times> redisContext) res" where
  "hmset_append al pf key [] c w = Inr (0, c)"
| "hmset_append al pf key ((f, v) # values) c w =
     (if length f = 0 \<or> length v = 0 then hmset_append al pf key values c w
      else
        bindr (redisAppendCommand al pf c ''HMSET %s %s %b'' [VStr key, VStr f, VBin v (length v)] w) (\<lambda>(ret, c).
        bindr (hmset_append al pf key values c w) (\<lambda>(n, c). Inr (if ret \<noteq> REDIS_OK then n else Suc n, c))))"

fun hmset_replies :: "nat \<Rightarrow> allocator \<Rightarrow> robj option \<Rightarrow> RedisConnect \<Rightarrow> redisContext \<Rightarrow> cli \<Rightarrow> bool cli_result" where
  "hmset_replies 0 al reply rc c s =
     bindio (Impl_ReturnRedisConn al (rc\<lparr>redis_ctx := Some c\<rparr>) s) (\<lambda>s. Inr (Some (True, s)))"
| "hmset_replies (Suc n) al reply rc c (ps, h, w) =
     bindio (redisGetReply al c h w) (\<lambda>(ret, new, c, h, w).
     if ret = REDIS_OK then bindr (freeReplyObject new h) (\<lambda>h. hmset_replies n al new rc c (ps, h, w))
     else if c_err c \<noteq> 0 then finish al reply (rc\<lparr>redis_ctx := Some c\<rparr>) False (ps, h, w)
     else if reply = None then hmset_replies n al reply rc c (ps, h, w)
     else bindr (freeReplyObject reply h) (\<lambda>h. hmset_replies n al reply rc c (ps, h, w)))"

definition HMSetImpl :: "allocator \<Rightarrow> 'd printf \<Rightarrow> nat \<Rightarrow> string \<Rightarrow> FieldValueMap \<Rightarrow> cli \<Rightarrow> bool cli_result" where
  "HMSetImpl al pf rnd key values s =
     bindio (Impl_BorrowRedisConn al rnd s) (\<lambda>(rc, ps, h, w).
     case redis_ctx rc of
       None \<Rightarrow> Inr (Some (False, ps, h, w))
     | Some c \<Rightarrow>
         bindr (hmset_append al pf key values c w) (\<lambda>(valid_cmd_num, c).
         hmset_replies valid_cmd_num al None rc c (ps, h, w)))"
text \<open>The command string is used as a format without arguments.\<close>

definition HMDelImpl :: "allocator \<Rightarrow> 'd printf \<Rightarrow> nat \<Rightarrow> string \<Rightarrow> cli \<Rightarrow> int cli_result" where
  "HMDelImpl al pf rnd str_cmd s =
     bindio (Impl_BorrowRedisConn al rnd s) (\<lambda>(rc, ps, h, w).
     case redis_ctx rc of
       None \<Rightarrow> Inr (Some (- 1, ps, h, w))
     | Some c \<Rightarrow>
         bindio (redisCommand al pf c (cstr str_cmd) [] h w) (\<lambda>(reply, c, h, w).
         let rc = rc\<lparr>redis_ctx := Some c\<rparr>; s = (ps, h, w) in
         bindr (reply_at reply h) (\<lambda>r.
         if c_err c = 0 \<and> has_type r REDIS_REPLY_INTEGER then finish al reply rc (int32 (rp_integer (the r))) s
         else if c_err c \<noteq> 0 then finish al reply rc (- 1) s
         else if r = None then finish al None rc (- 1) s
         else if has_type r REDIS_REPLY_ERROR then finish al reply rc 0 s
         else finish al reply rc (- 1) s)))"

definition HGetImpl :: "allocator \<Rightarrow> 'd printf \<Rightarrow> nat \<Rightarrow> string \<Rightarrow> string \<Rightarrow> cli \<Rightarrow> (bool \<times> string) cli_result" where
  "HGetImpl al pf rnd str_cmd value s =
     bindio (Impl_BorrowRedisConn al rnd s) (\<lambda>(rc, ps, h, w).
     case redis_ctx rc of
       None \<Rightarrow> Inr (Some ((False, value), ps, h, w))
     | Some c \<Rightarrow>
         bindio (redisCommand al pf c (cstr str_cmd) [] h w) (\<lambda>(reply, c, h, w).
         let rc = rc\<lparr>redis_ctx := Some c\<rparr>; s = (ps, h, w) in
         bindr (reply_at reply h) (\<lambda>r.
         if c_err c = 0 \<and> r \<noteq> None \<and> \<not> has_type r REDIS_REPLY_ERROR then
           if has_type r REDIS_REPLY_STRING \<and> rp_str (the r) \<noteq> None then
             bindr (string_of (the r)) (\<lambda>v. finish al reply rc (True, v) s)
           else if has_type r REDIS_REPLY_NIL then finish al reply rc (True, []) s
           else finish al reply rc (True, value) s
         else if c_err c \<noteq> 0 then finish al reply rc (False, value) s
         else if r = None then finish al None rc (False, value) s
         else if has_type r REDIS_REPLY_ERROR then finish al reply rc (False, value) s
         else finish al reply rc (False, value) s)))"

text \<open>\<open>GetReplyValues\<close>: the loop for HGETALL takes the elements in pairs without a check that the second exists, the one
  for HMGET pairs the elements with the fields.\<close>

function hgetall_loop :: "reply_heap \<Rightarrow> redisReply \<Rightarrow> nat \<Rightarrow> FieldValueMap \<Rightarrow> FieldValueMap res" where
  "hgetall_loop h r i values =
     (if i < rp_elements r then
        bindr (mem_get (rp_element r) i) (\<lambda>rpf.
        bindr (mem_get (rp_element r) (i + 1)) (\<lambda>rpv.
        case (rpf, rpv) of
          (Some f, Some v) \<Rightarrow>
            bindr (heap_get h f) (\<lambda>f. bindr (heap_get h v) (\<lambda>v.
            bindr (string_of f) (\<lambda>f. bindr (string_of v) (\<lambda>v.
            hgetall_loop h r (i + 2) (map_put f v values)))))
        | _ \<Rightarrow> hgetall_loop h r (i + 2) values))
      else Inr values)"
  by pat_completeness auto
termination
  by (relation "measure (\<lambda>(h, r, i, values). rp_elements r - i)") auto

declare hgetall_loop.simps [simp del]

function hmget_loop :: "reply_heap \<Rightarrow> redisReply \<Rightarrow> nat \<Rightarrow> FieldSet \<Rightarrow> FieldValueMap \<Rightarrow> FieldValueMap res" where
  "hmget_loop h r i flds values =
     (if i < rp_elements r \<and> flds \<noteq> [] then
        bindr (mem_get (rp_element r) i) (\<lambda>rp.
        case rp of
          None \<Rightarrow> hmget_loop h r (i + 1) (tl flds) values
        | Some a \<Rightarrow>
            bindr (heap_get h a) (\<lambda>x.
            if rp_type x = REDIS_REPLY_NIL then hmget_loop h r (i + 1) (tl flds) values
            else if rp_type x = REDIS_REPLY_STRING then
              bindr (string_of x) (\<lambda>v. hmget_loop h r (i + 1) (tl flds) (map_put (hd flds) v values))
            else hmget_loop h r (i + 1) flds values))
      else Inr values)"
  by pat_completeness auto
termination
  by (relation "measure (\<lambda>(h, r, i, flds, values). rp_elements r - i)") auto

declare hmget_loop.simps [simp del]

definition GetReplyValues :: "reply_heap \<Rightarrow> redisReply option \<Rightarrow> FieldSet \<Rightarrow> FieldValueMap \<Rightarrow> FieldValueMap res" where
  "GetReplyValues h reply flds values =
     (case reply of
        None \<Rightarrow> Inr values
      | Some r \<Rightarrow> if flds = [] then hgetall_loop h r 0 values else hmget_loop h r 0 flds values)"

definition HMGetImpl :: "allocator \<Rightarrow> 'd printf \<Rightarrow> nat \<Rightarrow> string \<Rightarrow> FieldSet \<Rightarrow> FieldValueMap \<Rightarrow> cli \<Rightarrow> (bool \<times> FieldValueMap) cli_result" where
  "HMGetImpl al pf rnd str_cmd flds values s =
     bindio (Impl_BorrowRedisConn al rnd s) (\<lambda>(rc, ps, h, w).
     case redis_ctx rc of
       None \<Rightarrow> Inr (Some ((False, values), ps, h, w))
     | Some c \<Rightarrow>
         bindio (redisCommand al pf c (cstr str_cmd) [] h w) (\<lambda>(reply, c, h, w).
         let rc = rc\<lparr>redis_ctx := Some c\<rparr>; s = (ps, h, w) in
         bindr (reply_at reply h) (\<lambda>r.
         if c_err c = 0 \<and> has_type r REDIS_REPLY_ARRAY then
           bindr (GetReplyValues h r flds values) (\<lambda>values. finish al reply rc (True, values) s)
         else if c_err c = 0 \<and> has_type r REDIS_REPLY_NIL then finish al reply rc (True, []) s
         else if c_err c \<noteq> 0 then finish al reply rc (False, values) s
         else if r = None then finish al None rc (False, values) s
         else if has_type r REDIS_REPLY_ERROR then finish al reply rc (False, values) s
         else finish al reply rc (True, values) s)))"

definition HKeysImpl :: "string \<Rightarrow> FieldSet \<Rightarrow> bool \<times> FieldSet" where
  "HKeysImpl str_cmd flds = (True, flds)"

definition HValsImpl :: "string \<Rightarrow> FieldSet \<Rightarrow> bool \<times> FieldSet" where
  "HValsImpl str_cmd values = (True, values)"

section \<open>\<open>RedisCliPool\<close>\<close>

text \<open>\<open>Init\<close> replaces the implementation object; releasing the old one closes the free connections of its pools.\<close>

fun delete_pools :: "RedisConnPool list \<Rightarrow> reply_heap \<Rightarrow> world \<Rightarrow> (reply_heap \<times> world) res" where
  "delete_pools [] h w = Inr (h, w)"
| "delete_pools (p # ps) h w = bindr (delete_RedisConnPool p h w) (\<lambda>(h, w). delete_pools ps h w)"

definition Init :: "allocator \<Rightarrow> string list \<Rightarrow> nat list \<Rightarrow> int \<Rightarrow> int \<Rightarrow> int \<Rightarrow> int \<Rightarrow> cli \<Rightarrow> bool cli_result" where
  "Init al ips ports sz ct st rt = (\<lambda>(ps, h, w).
     bindr (delete_pools ps h w) (\<lambda>(h, w). Impl_Init al ips ports sz ct st rt ([], h, w)))"

definition delete_RedisCliPool :: "cli \<Rightarrow> (reply_heap \<times> world) res" where
  "delete_RedisCliPool = (\<lambda>(ps, h, w). delete_pools ps h w)"

text \<open>The loops \<open>for (i = 0; i < max_try_times; i++)\<close>: the result of the first attempt that succeeds; \<open>rnd i\<close> is the
  random number of attempt \<open>i\<close>.\<close>

fun retry :: "nat \<Rightarrow> nat \<Rightarrow> (nat \<Rightarrow> 'v \<Rightarrow> cli \<Rightarrow> ('a \<times> 'v) cli_result) \<Rightarrow> ('a \<Rightarrow> bool) \<Rightarrow> 'a \<Rightarrow> 'v \<Rightarrow> cli \<Rightarrow> ('a \<times> 'v) cli_result" where
  "retry 0 i f succ failed v s = Inr (Some ((failed, v), s))"
| "retry (Suc n) i f succ failed v s =
     bindio (f i v s) (\<lambda>((ret, v), s). if succ ret then Inr (Some ((ret, v), s)) else retry n (Suc i) f succ failed v s)"

definition plain_result :: "'a cli_result \<Rightarrow> ('a \<times> unit) cli_result" where
  "plain_result m = bindio m (\<lambda>(x, s). Inr (Some ((x, ()), s)))"

definition drop_unit :: "('a \<times> unit) cli_result \<Rightarrow> 'a cli_result" where
  "drop_unit m = bindio m (\<lambda>((x, _), s). Inr (Some (x, s)))"

definition HSet :: "allocator \<Rightarrow> 'd printf \<Rightarrow> (nat \<Rightarrow> nat) \<Rightarrow> string \<Rightarrow> string \<Rightarrow> string \<Rightarrow> bool \<Rightarrow> int \<Rightarrow> cli \<Rightarrow> int cli_result" where
  "HSet al pf rnd key field_name field_value nx max_try_times s =
     (if key = [] \<or> field_name = [] \<or> field_value = [] \<or> max_try_times \<le> 0 \<or> 10 < max_try_times then Inr (Some (- 2, s))
      else drop_unit (retry (nat max_try_times) 0 (\<lambda>i _ s. plain_result (HSetImpl al pf (rnd i) key field_name field_value nx s))
        (\<lambda>ret. 0 \<le> ret) (- 3) () s))"

definition HMSet :: "allocator \<Rightarrow> 'd printf \<Rightarrow> (nat \<Rightarrow> nat) \<Rightarrow> string \<Rightarrow> FieldValueMap \<Rightarrow> int \<Rightarrow> cli \<Rightarrow> bool cli_result" where
  "HMSet al pf rnd key values max_try_times s =
     (if key = [] \<or> values = [] then Inr (Some (True, s))
      else drop_unit (retry (nat max_try_times) 0 (\<lambda>i _ s. plain_result (HMSetImpl al pf (rnd i) key values s)) (\<lambda>ret. ret) False () s))"

definition field_args :: "FieldSet \<Rightarrow> string" where
  "field_args flds = concat (map (\<lambda>f. if f = [] then [] else '' '' @ f) flds)"

definition HMDel :: "allocator \<Rightarrow> 'd printf \<Rightarrow> (nat \<Rightarrow> nat) \<Rightarrow> string \<Rightarrow> FieldSet \<Rightarrow> int \<Rightarrow> cli \<Rightarrow> int cli_result" where
  "HMDel al pf rnd key flds max_try_times s =
     (if key = [] \<or> flds = [] then Inr (Some (0, s))
      else drop_unit (retry (nat max_try_times) 0 (\<lambda>i _ s. plain_result (HMDelImpl al pf (rnd i) (''HDEL '' @ key @ field_args flds) s))
        (\<lambda>ret. 0 \<le> ret) (- 3) () s))"

definition HGet :: "allocator \<Rightarrow> 'd printf \<Rightarrow> (nat \<Rightarrow> nat) \<Rightarrow> string \<Rightarrow> string \<Rightarrow> int \<Rightarrow> cli \<Rightarrow> (bool \<times> string) cli_result" where
  "HGet al pf rnd key field max_try_times s =
     (if key = [] \<or> field = [] \<or> max_try_times \<le> 0 \<or> 10 < max_try_times then Inr (Some ((False, []), s))
      else retry (nat max_try_times) 0 (\<lambda>i value s. HGetImpl al pf (rnd i) (''HGET '' @ key @ '' '' @ field) value s) (\<lambda>ret. ret) False [] s)"

definition HMGet :: "allocator \<Rightarrow> 'd printf \<Rightarrow> (nat \<Rightarrow> nat) \<Rightarrow> string \<Rightarrow> FieldSet \<Rightarrow> int \<Rightarrow> cli \<Rightarrow> (bool \<times> FieldValueMap) cli_result" where
  "HMGet al pf rnd key flds max_try_times s =
     (if key = [] \<or> flds = [] \<or> max_try_times \<le> 0 \<or> 10 < max_try_times then Inr (Some ((False, []), s))
      else retry (nat max_try_times) 0 (\<lambda>i values s. HMGetImpl al pf (rnd i) (''HMGET '' @ key @ field_args flds) flds values s) (\<lambda>ret. ret) False [] s)"

definition HGetAll :: "allocator \<Rightarrow> 'd printf \<Rightarrow> (nat \<Rightarrow> nat) \<Rightarrow> string \<Rightarrow> int \<Rightarrow> cli \<Rightarrow> (bool \<times> FieldValueMap) cli_result" where
  "HGetAll al pf rnd key max_try_times s =
     (if key = [] \<or> max_try_times \<le> 0 \<or> 10 < max_try_times then Inr (Some ((False, []), s))
      else retry (nat max_try_times) 0 (\<lambda>i values s. HMGetImpl al pf (rnd i) (''HGETALL '' @ key) [] values s) (\<lambda>ret. ret) False [] s)"

definition HKeys :: "string \<Rightarrow> FieldSet \<Rightarrow> bool \<times> FieldSet" where
  "HKeys key flds = (True, [])"

definition KVals :: "string \<Rightarrow> FieldSet \<Rightarrow> bool \<times> FieldSet" where
  "KVals key values = (True, [])"

section \<open>\<open>MultiHashRedisCliPool\<close>\<close>

text \<open>Several hashes, one after the other; \<open>rnd j\<close> gives the random numbers of hash \<open>j\<close>.  The result is the value returned and
  the set of keys that failed.  A set of keys is a map without values.\<close>

fun mset_loop :: "allocator \<Rightarrow> 'd printf \<Rightarrow> (nat \<Rightarrow> nat \<Rightarrow> nat) \<Rightarrow> nat \<Rightarrow> (string \<times> FieldValueMap) list \<Rightarrow> int \<Rightarrow> bool \<Rightarrow> (string \<times> unit) list \<Rightarrow>
    cli \<Rightarrow> (bool \<times> (string \<times> unit) list) cli_result" where
  "mset_loop al pf rnd j [] max_try_times ret failed s = Inr (Some ((ret, failed), s))"
| "mset_loop al pf rnd j ((key, values) # reqs) max_try_times ret failed s =
     bindio (HMSet al pf (rnd j) key values max_try_times s) (\<lambda>(ok, s).
     if \<not> ok then mset_loop al pf rnd (Suc j) reqs max_try_times False (map_put key () failed) s
     else mset_loop al pf rnd (Suc j) reqs max_try_times ret failed s)"

definition MultiHashMSet :: "allocator \<Rightarrow> 'd printf \<Rightarrow> (nat \<Rightarrow> nat \<Rightarrow> nat) \<Rightarrow> (string \<times> FieldValueMap) list \<Rightarrow> (string \<times> unit) list \<Rightarrow> int \<Rightarrow>
    cli \<Rightarrow> (bool \<times> (string \<times> unit) list) cli_result" where
  "MultiHashMSet al pf rnd reqs failed max_try_times s = mset_loop al pf rnd 0 reqs max_try_times True failed s"

fun mdel_loop :: "allocator \<Rightarrow> 'd printf \<Rightarrow> (nat \<Rightarrow> nat \<Rightarrow> nat) \<Rightarrow> nat \<Rightarrow> (string \<times> FieldSet) list \<Rightarrow> int \<Rightarrow> bool \<Rightarrow> (string \<times> unit) list \<Rightarrow>
    cli \<Rightarrow> (bool \<times> (string \<times> unit) list) cli_result" where
  "mdel_loop al pf rnd j [] max_try_times ret failed s = Inr (Some ((ret, failed), s))"
| "mdel_loop al pf rnd j ((key, flds) # reqs) max_try_times ret failed s =
     bindio (HMDel al pf (rnd j) key flds max_try_times s) (\<lambda>(n, s).
     if n < 0 then mdel_loop al pf rnd (Suc j) reqs max_try_times False (map_put key () failed) s
     else mdel_loop al pf rnd (Suc j) reqs max_try_times ret failed s)"

definition MultiHashMDel :: "allocator \<Rightarrow> 'd printf \<Rightarrow> (nat \<Rightarrow> nat \<Rightarrow> nat) \<Rightarrow> (string \<times> FieldSet) list \<Rightarrow> (string \<times> unit) list \<Rightarrow> int \<Rightarrow>
    cli \<Rightarrow> (bool \<times> (string \<times> unit) list) cli_result" where
  "MultiHashMDel al pf rnd reqs failed max_try_times s = mdel_loop al pf rnd 0 reqs max_try_times True failed s"

fun mget_loop :: "allocator \<Rightarrow> 'd printf \<Rightarrow> (nat \<Rightarrow> nat \<Rightarrow> nat) \<Rightarrow> nat \<Rightarrow> (string \<times> FieldSet) list \<Rightarrow> int \<Rightarrow> bool \<Rightarrow>
    (string \<times> FieldValueMap) list \<Rightarrow> (string \<times> unit) list \<Rightarrow> cli \<Rightarrow> (bool \<times> (string \<times> FieldValueMap) list \<times> (string \<times> unit) list) cli_result" where
  "mget_loop al pf rnd j [] max_try_times ret found failed s = Inr (Some ((ret, found, failed), s))"
| "mget_loop al pf rnd j ((key, flds) # reqs) max_try_times ret found failed s =
     bindio (HMGet al pf (rnd j) key flds max_try_times s) (\<lambda>((ok, values), s).
     let found = map_put key values found in
     if \<not> ok then mget_loop al pf rnd (Suc j) reqs max_try_times False found (map_put key () failed) s
     else mget_loop al pf rnd (Suc j) reqs max_try_times ret found failed s)"

definition MultiHashMGet :: "allocator \<Rightarrow> 'd printf \<Rightarrow> (nat \<Rightarrow> nat \<Rightarrow> nat) \<Rightarrow> (string \<times> FieldSet) list \<Rightarrow> (string \<times> FieldValueMap) list \<Rightarrow> (string \<times> unit) list \<Rightarrow> int \<Rightarrow>
    cli \<Rightarrow> (bool \<times> (string \<times> FieldValueMap) list \<times> (string \<times> unit) list) cli_result" where
  "MultiHashMGet al pf rnd reqs found failed max_try_times s = mget_loop al pf rnd 0 reqs max_try_times True found failed s"

end
