(* ===== verification/CliPoolProps.thy ===== *)
theory CliPoolProps
  imports CliPool
begin

text \<open>
  What the client guarantees on a working connection, over the specifications of the reader, the formatter and the
  blocking connection, and where it does not.
\<close>

section \<open>Replies in the heap\<close>

lemma ctx_ok_heap: "ctx_ok al c h out pend \<Longrightarrow> ctx_ok al c h' out pend"
proof -
  have "waiting al h' r h' (None, []) b" if "waiting al h0 r h (None, []) b" for r h0 b
    using that waiting_start [OF that] by (auto simp: waiting_def reading_def frame_cells_def)
  then show "ctx_ok al c h out pend \<Longrightarrow> ctx_ok al c h' out pend" by (fastforce simp: ctx_ok_def reader_rep_def)
qed

lemma stored_at_get: "stored_at h a v \<Longrightarrow> heap_get h a = Inr (hd (flatten a v))"
proof -
  assume "stored_at h a v"
  then obtain h1 h2 where h: "h = h1 @ map Some (flatten a v) @ h2" "a = length h1" by (auto simp: stored_at_def)
  have "flatten a v \<noteq> []" using length_flatten(1) [of a v] reply_size_pos [of v] by fastforce
  then show ?thesis by (cases "flatten a v") (simp_all add: h heap_get_def nth_append)
qed

text \<open>Freeing a stored reply leaves its cells unused and the others as they are.\<close>

definition erased :: "reply_heap \<Rightarrow> nat \<Rightarrow> reply \<Rightarrow> reply_heap" where
  "erased h a v = take a h @ replicate (reply_size v) None @ drop (a + reply_size v) h"

lemma free_stored: "stored_at h a v \<Longrightarrow> freeReplyObject (Some (ObjAddr a)) h = Inr (erased h a v)"
proof -
  assume "stored_at h a v"
  then obtain h1 h2 where h: "h = h1 @ map Some (flatten a v) @ h2" "a = length h1" by (auto simp: stored_at_def)
  then show ?thesis using free_flatten(1) [of h1 a v "Suc (length h)" h2]
    by (simp add: freeReplyObject_def erased_def del: free_reply.simps)
qed

lemma free_twice: "stored_at h a v \<Longrightarrow> freeReplyObject (Some (ObjAddr a)) (erased h a v) = Inl OutOfBounds"
proof -
  assume "stored_at h a v"
  then have a: "a < length (erased h a v)" "erased h a v ! a = None"
    using reply_size_pos [of v] by (auto simp: stored_at_def erased_def nth_append)
  then show ?thesis by (simp add: freeReplyObject_def heap_get_def)
qed

section \<open>Commands\<close>

lemma redisvAppendCommand_spec:
  assumes al: "alloc_ok al" "\<not> may_fail al" and c: "ctx_ok al c h out pend"
    and fm: "\<forall>x \<in> set wds. x \<noteq> [] \<and> (\<forall>p \<in> set x. piece_ok pf p)" "NUL \<notin> set (words_fmt wds)"
    and req: "req = resp_command (map (word_text pf) wds)" "length out + length req \<le> 2146434047"
  obtains c' where "redisvAppendCommand al pf c (words_fmt wds) (words_args wds) w = Inr (REDIS_OK, c')"
    "ctx_ok al c' h (out @ req) pend" "c_flags c' = c_flags c"
proof -
  have f: "redisvFormatCommand al pf True (words_fmt wds) (words_args wds) = Inr (int (length req), Some (req @ [NUL]))"
    unfolding req(1) by (rule redisvFormatCommand_spec [OF al fm]) (use req in simp)
  have len: "length req \<le> length (req @ [NUL])" "sds_fits (length out + length req)" using req(2) by (simp_all add: sds_fits_def)
  obtain c' where "redisAppendCmd al c (req @ [NUL]) (length req) w = Inr (REDIS_OK, c')" "ctx_ok al c' h (out @ take (length req) (req @ [NUL])) pend"
    "c_flags c' = c_flags c" using al c len by (rule redisAppendCmd_spec)
  then show ?thesis using that f req(2) by (simp add: redisvAppendCommand_def)
qed

lemma redisCommand_spec:
  assumes al: "alloc_ok al" "\<not> may_fail al" and c: "ctx_ok al c h [] []" "blocking c"
    and fm: "\<forall>x \<in> set wds. x \<noteq> [] \<and> (\<forall>p \<in> set x. piece_ok pf p)" "NUL \<notin> set (words_fmt wds)"
    and req: "req = resp_command (map (word_text pf) wds)" and ex: "exchange req v ws rs"
    and w: "w_writes w = ws @ ws'" "w_reads w = rs @ rs'"
  obtains a c' h' e where "redisCommand al pf c (words_fmt wds) (words_args wds) h w =
      Inr (Some (Some (ObjAddr a), c', h', w\<lparr>w_writes := ws', w_sent := w_sent w @ req, w_reads := rs', w_errno := e\<rparr>))"
    "ctx_ok al c' h' [] []" "stored_at h' a v"
proof -
  from ex have x: "length req \<le> 2146434047" "accepts ws (length req)" "\<forall>x \<in> set rs. readable x" "rs \<noteq> []" "chunk_of (last rs) \<noteq> []"
    "concat (map chunk_of rs) = encode v" "length (encode v) \<le> 2146434047" "encodable v" "nesting v \<le> 8" by (simp_all add: exchange_def)
  obtain c1 where c1: "redisvAppendCommand al pf c (words_fmt wds) (words_args wds) w = Inr (REDIS_OK, c1)" "ctx_ok al c1 h ([] @ req) []"
    "c_flags c1 = c_flags c" by (rule redisvAppendCommand_spec [OF al c(1) fm req]) (use x in auto)
  have c2: "ctx_ok al c1 h req []" "blocking c1" using c1(2,3) c(2) by simp_all
  obtain o1 c' h' e where
    g: "redisGetReply al c1 h w = Inr (Some (REDIS_OK, Some o1, c', h', w\<lparr>w_writes := ws', w_sent := w_sent w @ req, w_reads := rs', w_errno := e\<rparr>))"
    "ctx_ok al c' h' [] []" "\<exists>r. c_reader c' = Some r \<and> reader_view (r, h') o1 v"
    by (rule redisGetReply_delivers [OF al c2 w(1) x(2) w(2) x(3-9)])
  from g(3) obtain a where a: "o1 = ObjAddr a" "stored_at h' a v" by (cases o1) (auto simp: reader_view_def)
  then show ?thesis using that g(1,2) c1(1) c2(2) by (simp add: redisCommand_def redisvCommand_def redisBlockForReply_def)
qed

section \<open>A client with a free connection\<close>

definition cli_ready :: "allocator \<Rightarrow> nat \<Rightarrow> cli \<Rightarrow> nat \<Rightarrow> redisContext \<Rightarrow> redisContext list \<Rightarrow> bool" where
  "cli_ready al rnd = (\<lambda>(ps, h, w) i c rest. ps \<noteq> [] \<and> i = rnd mod length ps \<and> free_conns (ps ! i) = c # rest \<and> ctx_ok al c h [] [] \<and> blocking c \<and>
     0 \<le> busy_conn_num (ps ! i) \<and> busy_conn_num (ps ! i) < 2147483647)"

definition lent_pool :: "RedisConnPool list \<Rightarrow> nat \<Rightarrow> redisContext list \<Rightarrow> RedisConnPool list" where
  "lent_pool ps i rest = ps[i := (ps ! i)\<lparr>busy_conn_num := busy_conn_num (ps ! i) + 1, free_conns := rest\<rparr>]"

definition returned_pool :: "RedisConnPool list \<Rightarrow> nat \<Rightarrow> redisContext list \<Rightarrow> RedisConnPool list" where
  "returned_pool ps i free = ps[i := (ps ! i)\<lparr>free_conns := free\<rparr>]"

lemma borrow_ready:
  assumes "cli_ready al rnd (ps, h, w) i c rest"
  shows "Impl_BorrowRedisConn al rnd (ps, h, w) = Inr (Some (\<lparr>redis_ctx = Some c, redis_conn_pool = Some i\<rparr>, lent_pool ps i rest, h, w))"
proof -
  from assms have r: "ps \<noteq> []" "rnd mod length ps = i" "free_conns (ps ! i) = c # rest" "int32 (busy_conn_num (ps ! i) + 1) = busy_conn_num (ps ! i) + 1"
    by (auto simp: cli_ready_def)
  then show ?thesis by (simp add: Impl_BorrowRedisConn_def BorrowRedisConn_def lent_pool_def Let_def)
qed

lemma finish_ready:
  assumes r: "cli_ready al rnd (ps, h0, w0) i c0 rest" and s: "stored_at h a v" and c: "c_err c = 0"
  shows "finish al (Some (ObjAddr a)) \<lparr>redis_ctx = Some c, redis_conn_pool = Some i\<rparr> x (lent_pool ps i rest, h, w) =
    Inr (Some (x, returned_pool ps i (rest @ [c]), erased h a v, w))"
proof -
  have i: "i < length ps" using r by (auto simp: cli_ready_def)
  have b: "int32 (busy_conn_num (ps ! i)) = busy_conn_num (ps ! i)" using r by (auto simp: cli_ready_def)
  have u: "p\<lparr>free_conns := fs, busy_conn_num := busy_conn_num p\<rparr> = p\<lparr>free_conns := fs\<rparr>" for p fs by (cases p) simp
  show ?thesis using i c free_stored [OF s]
    by (simp add: finish_def Impl_ReturnRedisConn_def ReturnRedisConn_def lent_pool_def returned_pool_def b u)
qed
text \<open>A command on a free connection: the reply is delivered and the client goes on with it.\<close>

lemma command_ready:
  assumes al: "alloc_ok al" "\<not> may_fail al" and r: "cli_ready al rnd (ps, h, w) i c rest"
    and fm: "\<forall>x \<in> set wds. x \<noteq> [] \<and> (\<forall>p \<in> set x. piece_ok pf p)" "NUL \<notin> set (words_fmt wds)"
    and req: "req = resp_command (map (word_text pf) wds)" and ex: "exchange req v ws rs"
    and w: "w_writes w = ws @ ws'" "w_reads w = rs @ rs'"
  obtains a c' h' e where "redisCommand al pf c (words_fmt wds) (words_args wds) h w =
      Inr (Some (Some (ObjAddr a), c', h', w\<lparr>w_writes := ws', w_sent := w_sent w @ req, w_reads := rs', w_errno := e\<rparr>))"
    "ctx_ok al c' h' [] []" "stored_at h' a v" "reply_at (Some (ObjAddr a)) h' = Inr (Some (hd (flatten a v)))" "c_err c' = 0"
proof -
  from r have c: "ctx_ok al c h [] []" "blocking c" by (simp_all add: cli_ready_def)
  obtain a c' h' e where g: "redisCommand al pf c (words_fmt wds) (words_args wds) h w =
      Inr (Some (Some (ObjAddr a), c', h', w\<lparr>w_writes := ws', w_sent := w_sent w @ req, w_reads := rs', w_errno := e\<rparr>))"
    "ctx_ok al c' h' [] []" "stored_at h' a v" by (rule redisCommand_spec [OF al c fm req ex w])
  then show ?thesis by (rule that) (use g stored_at_get [OF g(3)] in \<open>simp_all add: reply_at_def ctx_ok_def\<close>)
qed

definition hset_words :: "bool \<Rightarrow> string \<Rightarrow> string \<Rightarrow> string \<Rightarrow> 'd piece list list" where
  "hset_words nx key f v = [map PChar (if nx then ''HSETNX'' else ''HSET''), [PStr key], [PStr f], [PBin v (length v)]]"

lemma hset_words_fmt:
  fixes pf :: "'d printf" and wds :: "'d piece list list"
  assumes "wds = hset_words nx key f v"
  shows "words_fmt wds = (if nx then ''HSETNX %s %s %b'' else ''HSET %s %s %b'')" "words_args wds = [VStr key, VStr f, VBin v (length v)]"
    "\<forall>x \<in> set wds. x \<noteq> [] \<and> (\<forall>p \<in> set x. piece_ok pf p)" "map (word_text pf) wds = [if nx then ''HSETNX'' else ''HSET'', cstr key, cstr f, v]"
  by (cases nx; simp add: assms hset_words_def words_fmt_def words_args_def join_with_def word_text_def)+

lemma HSetImpl_spec:
  fixes pf :: "'d printf"
  assumes al: "alloc_ok al" "\<not> may_fail al" and r: "cli_ready al rnd (ps, h, w) i c rest"
    and req: "req = resp_command [if nx then ''HSETNX'' else ''HSET'', cstr key, cstr f, v]" and ex: "exchange req (RInt n) ws rs"
    and w: "w_writes w = ws @ ws'" "w_reads w = rs @ rs'"
  shows "\<exists>c' h' e. HSetImpl al pf rnd key f v nx (ps, h, w) = Inr (Some (int32 n, returned_pool ps i (rest @ [c']), h',
      w\<lparr>w_writes := ws', w_sent := w_sent w @ req, w_reads := rs', w_errno := e\<rparr>)) \<and> ctx_ok al c' h' [] []"
proof -
  let ?wds = "hset_words nx key f v :: 'd piece list list"
  have f: "words_fmt ?wds = (if nx then ''HSETNX %s %s %b'' else ''HSET %s %s %b'')" "words_args ?wds = [VStr key, VStr f, VBin v (length v)]"
    "\<forall>x \<in> set ?wds. x \<noteq> [] \<and> (\<forall>p \<in> set x. piece_ok pf p)" "map (word_text pf) ?wds = [if nx then ''HSETNX'' else ''HSET'', cstr key, cstr f, v]"
    by (rule hset_words_fmt [OF refl])+
  have nul: "NUL \<notin> set (words_fmt ?wds)" unfolding f(1) by simp
  have rq: "req = resp_command (map (word_text pf) ?wds)" unfolding f(4) by (rule req)
  obtain a c' h' e where g: "redisCommand al pf c (words_fmt ?wds) (words_args ?wds) h w =
      Inr (Some (Some (ObjAddr a), c', h', w\<lparr>w_writes := ws', w_sent := w_sent w @ req, w_reads := rs', w_errno := e\<rparr>))"
    "ctx_ok al c' h' [] []" "stored_at h' a (RInt n)" "reply_at (Some (ObjAddr a)) h' = Inr (Some (hd (flatten a (RInt n))))" "c_err c' = 0"
    by (rule command_ready [OF al r f(3) nul rq ex w])
  have "HSetImpl al pf rnd key f v nx (ps, h, w) = Inr (Some (int32 n, returned_pool ps i (rest @ [c']), erased h' a (RInt n),
      w\<lparr>w_writes := ws', w_sent := w_sent w @ req, w_reads := rs', w_errno := e\<rparr>))"
    using g(1) [unfolded f(1,2)] g(4,5) borrow_ready [OF r] finish_ready [OF r g(3,5)]
    by (simp add: HSetImpl_def has_type_def)
  with ctx_ok_heap [OF g(2)] show ?thesis by blast
qed

section \<open>Reading fields\<close>

lemma map_of_map_put [simp]: "map_of (map_put k v m) = (map_of m)(k \<mapsto> v)"
  by (induction k v m rule: map_put.induct) auto

text \<open>The values of the fields, taken in order from the elements of the reply.\<close>

fun field_values :: "FieldSet \<Rightarrow> reply list \<Rightarrow> FieldValueMap \<Rightarrow> FieldValueMap" where
  "field_values (f # fs) (v # vs) m = field_values fs vs (case v of RString s \<Rightarrow> map_put f s m | _ \<Rightarrow> m)"
| "field_values _ _ m = m"

lemma field_values_other: "g \<notin> set fs \<Longrightarrow> map_of (field_values fs vs m) g = map_of m g"
  by (induction fs vs m rule: field_values.induct) (auto split: reply.splits)

lemma field_values_nth:
  "distinct fs \<Longrightarrow> j < length fs \<Longrightarrow> map_of m (fs ! j) = None \<Longrightarrow>
    map_of (field_values fs vs m) (fs ! j) = (if j < length vs then case vs ! j of RString s \<Rightarrow> Some s | _ \<Rightarrow> None else None)"
proof (induction fs vs m arbitrary: j rule: field_values.induct)
  case (1 f fs v vs m)
  show ?case
  proof (cases j)
    case 0
    with 1 show ?thesis by (cases v) (auto simp: field_values_other)
  next
    case (Suc k)
    with 1 have "fs ! k \<noteq> f" by auto
    with 1 Suc show ?thesis by (cases v) auto
  qed
qed auto

definition leaf :: "reply \<Rightarrow> bool" where
  "leaf v \<longleftrightarrow> (case v of RString s \<Rightarrow> length s \<le> 2147483647 | RNil \<Rightarrow> True | _ \<Rightarrow> False)"

lemma flattens_leaves: "\<forall>v \<in> set vs. leaf v \<Longrightarrow> flattens a vs = map leaf_cell vs \<and> child_addrs a vs = [a..<a + length vs] \<and> replies_size vs = length vs"
proof (induction vs arbitrary: a)
  case (Cons v vs)
  then have "flatten a v = [leaf_cell v]" "reply_size v = 1" by (cases v; simp add: leaf_def reply_size.simps)+
  moreover have "[a..<a + length (v # vs)] = a # [a + 1..<a + 1 + length vs]" by (simp add: upt_conv_Cons del: upt_Suc)
  ultimately show ?case using Cons.IH [of "a + 1"] Cons.prems by simp
qed simp

lemma string_of_leaf: "length s \<le> 2147483647 \<Longrightarrow> string_of (leaf_cell (RString s)) = Inr s"
  by (simp add: string_of_def)

lemma hmget_loop_spec:
  assumes r: "r = array_cell (length vs) (map Some [b..<b + length vs])" and lv: "\<forall>v \<in> set vs. leaf v"
    and h: "\<And>i. i < length vs \<Longrightarrow> heap_get h (b + i) = Inr (leaf_cell (vs ! i))"
  shows "i \<le> length vs \<Longrightarrow> hmget_loop h r i fs m = Inr (field_values fs (drop i vs) m)"
proof (induction "length vs - i" arbitrary: i fs m)
  case 0
  then have "\<not> i < rp_elements r" by (simp add: r array_cell_def)
  with 0 show ?case by (simp add: hmget_loop.simps [of h r i])
next
  case (Suc k)
  then have i: "i < length vs" by simp
  then have d: "drop i vs = vs ! i # drop (Suc i) vs" by (simp add: Cons_nth_drop_Suc)
  have e: "mem_get (rp_element r) i = Inr (Some (b + i))" "rp_elements r = length vs" using i by (simp_all add: r array_cell_def mem_get_def)
  have n: "hmget_loop h r (Suc i) fs' m' = Inr (field_values fs' (drop (Suc i) vs) m')" for fs' m'
    using Suc.hyps(2) i by (intro Suc.hyps(1)) simp_all
  show ?case
  proof (cases fs)
    case Nil
    then show ?thesis by (simp add: hmget_loop.simps [of h r i])
  next
    case (Cons f fs')
    have "leaf (vs ! i)" using lv i by simp
    then consider s where "vs ! i = RString s" "length s \<le> 2147483647" | "vs ! i = RNil" by (cases "vs ! i") (auto simp: leaf_def)
    moreover have "rp_type (leaf_cell (RString s)) = REDIS_REPLY_STRING" "rp_type (leaf_cell RNil) = REDIS_REPLY_NIL" "REDIS_REPLY_STRING \<noteq> REDIS_REPLY_NIL" for s
      by (simp_all add: REDIS_REPLY_STRING_def REDIS_REPLY_NIL_def)
    ultimately show ?thesis
      using h [OF i] e n i by cases (simp_all add: hmget_loop.simps [of h r i] Cons d string_of_leaf del: leaf_cell.simps)
  qed
qed

lemma stored_leaves:
  assumes s: "stored_at h a (RArray vs)" and lv: "\<forall>v \<in> set vs. leaf v"
  shows "hd (flatten a (RArray vs)) = array_cell (length vs) (map Some [a + 1..<a + 1 + length vs])"
    "i < length vs \<Longrightarrow> heap_get h (a + 1 + i) = Inr (leaf_cell (vs ! i))"
proof -
  from s obtain h1 h2 where h: "h = h1 @ map Some (flatten a (RArray vs)) @ h2" "a = length h1" by (auto simp: stored_at_def)
  note f = flattens_leaves [OF lv, of "a + 1"]
  then show "hd (flatten a (RArray vs)) = array_cell (length vs) (map Some [a + 1..<a + 1 + length vs])" by simp
  show "heap_get h (a + 1 + i) = Inr (leaf_cell (vs ! i))" if "i < length vs" using f that by (simp add: h heap_get_def nth_append)
qed

text \<open>Words that the formatter takes as they are.\<close>

definition word_ok :: "string \<Rightarrow> bool" where
  "word_ok x \<longleftrightarrow> x \<noteq> [] \<and> (\<forall>c \<in> set x. c \<noteq> CHR '' '' \<and> c \<noteq> CHR ''%'' \<and> c \<noteq> NUL)"

lemma plain_words:
  fixes pf :: "'d printf" and wds :: "'d piece list list"
  assumes "wds = map (map PChar) ws" "\<forall>x \<in> set ws. word_ok x"
  shows "words_fmt wds = join_with '' '' ws" "words_args wds = []" "\<forall>x \<in> set wds. x \<noteq> [] \<and> (\<forall>p \<in> set x. piece_ok pf p)" "map (word_text pf) wds = ws"
proof -
  have "concat (map piece_fmt (map PChar x)) = x" "concat (map (piece_text pf) (map PChar x)) = x" for x by (induction x) auto
  then show "words_fmt wds = join_with '' '' ws" "map (word_text pf) wds = ws"
    by (simp_all add: assms(1) words_fmt_def word_text_def comp_def)
  show "words_args wds = []" by (auto simp: assms(1) words_args_def)
  show "\<forall>x \<in> set wds. x \<noteq> [] \<and> (\<forall>p \<in> set x. piece_ok pf p)" using assms by (auto simp: word_ok_def)
qed

lemma join_words: "join_with '' '' (x # xs) = x @ concat (map (\<lambda>y. '' '' @ y) xs)"
  by (induction xs arbitrary: x) (simp_all add: join_with_def)

lemma cstr_words: "\<forall>x \<in> set ws. word_ok x \<Longrightarrow> NUL \<notin> set (join_with '' '' ws) \<and> cstr (join_with '' '' ws) = join_with '' '' ws"
proof -
  assume "\<forall>x \<in> set ws. word_ok x"
  then have "NUL \<notin> set (join_with '' '' ws)" by (cases ws) (auto simp: join_words word_ok_def, simp add: join_with_def)
  then show ?thesis by (auto simp: cstr_def intro!: takeWhile_eq_all_conv [THEN iffD2])
qed

lemma hmget_command: "\<forall>f \<in> set fs. f \<noteq> [] \<Longrightarrow> ''HMGET '' @ key @ field_args fs = join_with '' '' (''HMGET'' # key # fs)"
  by (induction fs) (auto simp: join_words field_args_def)

lemma HMGetImpl_spec:
  fixes pf :: "'d printf"
  assumes al: "alloc_ok al" "\<not> may_fail al" and r: "cli_ready al rnd (ps, h, w) i c rest"
    and ws: "\<forall>x \<in> set ws0. word_ok x" "cmd = join_with '' '' ws0" and fs: "fs \<noteq> []"
    and lv: "\<forall>v \<in> set vs. leaf v" and ex: "exchange (resp_command ws0) (RArray vs) ws rs"
    and w: "w_writes w = ws @ ws'" "w_reads w = rs @ rs'"
  shows "\<exists>c' h' e. HMGetImpl al pf rnd cmd fs m (ps, h, w) = Inr (Some ((True, field_values fs vs m), returned_pool ps i (rest @ [c']), h',
      w\<lparr>w_writes := ws', w_sent := w_sent w @ resp_command ws0, w_reads := rs', w_errno := e\<rparr>)) \<and> ctx_ok al c' h' [] []"
proof -
  let ?wds = "map (map PChar) ws0 :: 'd piece list list"
  have f: "words_fmt ?wds = join_with '' '' ws0" "words_args ?wds = []" "\<forall>x \<in> set ?wds. x \<noteq> [] \<and> (\<forall>p \<in> set x. piece_ok pf p)" "map (word_text pf) ?wds = ws0"
    by (rule plain_words [OF refl ws(1)])+
  note cw = cstr_words [OF ws(1)]
  have nul: "NUL \<notin> set (words_fmt ?wds)" unfolding f(1) using cw by simp
  have rq: "resp_command ws0 = resp_command (map (word_text pf) ?wds)" unfolding f(4) ..
  obtain a c' h' e where g: "redisCommand al pf c (words_fmt ?wds) (words_args ?wds) h w =
      Inr (Some (Some (ObjAddr a), c', h', w\<lparr>w_writes := ws', w_sent := w_sent w @ resp_command ws0, w_reads := rs', w_errno := e\<rparr>))"
    "ctx_ok al c' h' [] []" "stored_at h' a (RArray vs)" "reply_at (Some (ObjAddr a)) h' = Inr (Some (hd (flatten a (RArray vs))))" "c_err c' = 0"
    by (rule command_ready [OF al r f(3) nul rq ex w])
  note sl = stored_leaves [OF g(3) lv]
  have gv: "GetReplyValues h' (Some (hd (flatten a (RArray vs)))) fs m = Inr (field_values fs vs m)"
    using hmget_loop_spec [OF sl(1) lv sl(2), of 0 fs m] fs by (simp add: GetReplyValues_def)
  have t: "has_type (Some (hd (flatten a (RArray vs)))) REDIS_REPLY_ARRAY" by (simp add: has_type_def array_cell_def)
  have "HMGetImpl al pf rnd cmd fs m (ps, h, w) = Inr (Some ((True, field_values fs vs m), returned_pool ps i (rest @ [c']), erased h' a (RArray vs),
      w\<lparr>w_writes := ws', w_sent := w_sent w @ resp_command ws0, w_reads := rs', w_errno := e\<rparr>))"
    using g(1) [unfolded f(1,2)] g(4,5) gv t borrow_ready [OF r] finish_ready [OF r g(3,5)] cw
    by (simp add: HMGetImpl_def ws(2) del: flatten.simps)
  with ctx_ok_heap [OF g(2)] show ?thesis by blast
qed

text \<open>\<open>HMGet\<close> at the first attempt; the command names the fields that are not empty.\<close>

lemma HMGet_spec:
  assumes al: "alloc_ok al" "\<not> may_fail al" and r: "cli_ready al (rnd 0) (ps, h, w) i c rest"
    and p: "word_ok key" "\<forall>f \<in> set fs. f = [] \<or> word_ok f" "fs \<noteq> []" "0 < tries" "tries \<le> 10" and fs': "fs' = filter (\<lambda>f. f \<noteq> []) fs"
    and vs: "\<forall>v \<in> set vs. leaf v" and ex: "exchange (resp_command (''HMGET'' # key # fs')) (RArray vs) ws rs"
    and w: "w_writes w = ws @ ws'" "w_reads w = rs @ rs'"
  shows "\<exists>c' h' e. HMGet al pf rnd key fs tries (ps, h, w) = Inr (Some ((True, field_values fs vs []), returned_pool ps i (rest @ [c']), h',
      w\<lparr>w_writes := ws', w_sent := w_sent w @ resp_command (''HMGET'' # key # fs'), w_reads := rs', w_errno := e\<rparr>)) \<and> ctx_ok al c' h' [] []"
proof -
  from p(4) obtain k where k: "nat tries = Suc k" by (cases "nat tries") auto
  have fs_ok: "\<forall>x \<in> set fs'. word_ok x" using p(2) unfolding fs' by auto
  have ws: "\<forall>x \<in> set (''HMGET'' # key # fs'). word_ok x" "key \<noteq> []" using p(1) fs_ok by (auto simp: word_ok_def)
  have "field_args fs = field_args fs'" unfolding fs' by (induction fs) (auto simp: field_args_def)
  then have cmd: "''HMGET '' @ key @ field_args fs = join_with '' '' (''HMGET'' # key # fs')" using hmget_command [of fs' key] fs_ok by (auto simp: word_ok_def)
  from HMGetImpl_spec [OF al r ws(1) cmd p(3) vs ex w, of pf "[]"] obtain c' h' e where
    "HMGetImpl al pf (rnd 0) (''HMGET '' @ key @ field_args fs) fs [] (ps, h, w) = Inr (Some ((True, field_values fs vs []), returned_pool ps i (rest @ [c']), h',
      w\<lparr>w_writes := ws', w_sent := w_sent w @ resp_command (''HMGET'' # key # fs'), w_reads := rs', w_errno := e\<rparr>))" "ctx_ok al c' h' [] []" by blast
  then have "HMGet al pf rnd key fs tries (ps, h, w) = Inr (Some ((True, field_values fs vs []), returned_pool ps i (rest @ [c']), h',
      w\<lparr>w_writes := ws', w_sent := w_sent w @ resp_command (''HMGET'' # key # fs'), w_reads := rs', w_errno := e\<rparr>))" using p k ws(2) by (simp add: HMGet_def)
  with \<open>ctx_ok al c' h' [] []\<close> show ?thesis by blast
qed

section \<open>Setting several fields\<close>

lemma redisGetReply_eof:
  assumes al: "alloc_ok al" "\<not> may_fail al" and c: "ctx_ok al c h [] []" "blocking c" and w: "w_reads w = RdBytes [] # rs"
  shows "\<exists>c' w'. redisGetReply al c h w = Inr (Some (REDIS_ERR, None, c', h, w')) \<and> c_err c' = REDIS_ERR_EOF"
proof -
  from c(1) obtain b r h0 where b: "c_err c = 0" "c_obuf c = Some b" "sds_ok b" "sds_val b = []" "c_reader c = Some r"
    "waiting al h0 r h (None, []) []" "r_pos r < 1024" by (auto simp: ctx_ok_def reader_rep_def)
  have "parse (None, []) [] = Wait (None, []) []" by (simp add: parse.simps item_step_def)
  with getReply_sim [OF al(2) b(6)] b(7) obtain r1 h1 where g: "redisReaderGetReply r h = Inr (Some (REDIS_OK, None, r1, h1))"
    "waiting al h0 r1 h1 (None, []) []" by (auto simp: get_sim_def)
  have h1: "h1 = h" using waiting_start [OF g(2)] waiting_start [OF b(6)] by simp
  let ?c = "c\<lparr>c_reader := Some r1\<rparr>"
  have fr: "redisGetReplyFromReader c h w = Inr (REDIS_OK, None, ?c, h)"
    using g(1) b(5) h1 by (simp add: redisGetReplyFromReader_def reader_get_def)
  have wa: "write_all al ?c w = Inr (Some (REDIS_OK, ?c, w))" using b by (intro write_all_empty [of _ b]) (simp_all add: sdslen_val)
  have "redisBufferRead al ?c h w = Inr (Some (REDIS_ERR, ?c\<lparr>c_err := REDIS_ERR_EOF, c_errstr := ''Server closed the connection''\<rparr>, h, w\<lparr>w_reads := rs\<rparr>))"
    using b w by (simp add: redisBufferRead_def fail_with_def redisSetError_def set_error_text_def cstr_def)
  then have "read_reply al ?c h w = Inr (Some (REDIS_ERR, None, ?c\<lparr>c_err := REDIS_ERR_EOF, c_errstr := ''Server closed the connection''\<rparr>, h, w\<lparr>w_reads := rs\<rparr>))"
    by (simp add: read_reply.simps [of al ?c])
  with fr wa c(2) show ?thesis by (simp add: redisGetReply_def)
qed

definition hmset_words :: "string \<Rightarrow> string \<Rightarrow> string \<Rightarrow> 'd piece list list" where
  "hmset_words key f v = [map PChar ''HMSET'', [PStr key], [PStr f], [PBin v (length v)]]"

lemma hmset_words_fmt:
  fixes pf :: "'d printf" and wds :: "'d piece list list"
  assumes "wds = hmset_words key f v"
  shows "words_fmt wds = ''HMSET %s %s %b''" "words_args wds = [VStr key, VStr f, VBin v (length v)]"
    "\<forall>x \<in> set wds. x \<noteq> [] \<and> (\<forall>p \<in> set x. piece_ok pf p)" "map (word_text pf) wds = [''HMSET'', cstr key, cstr f, v]"
  by (simp_all add: assms hmset_words_def words_fmt_def words_args_def join_with_def word_text_def)

definition hmset_requests :: "string \<Rightarrow> FieldValueMap \<Rightarrow> string" where
  "hmset_requests key values = concat (map (\<lambda>(f, v). resp_command [''HMSET'', cstr key, cstr f, v]) values)"

lemma hmset_append_spec:
  fixes pf :: "'d printf"
  assumes al: "alloc_ok al" "\<not> may_fail al"
  shows "ctx_ok al c h out [] \<Longrightarrow> \<forall>(f, v) \<in> set vals. f \<noteq> [] \<and> v \<noteq> [] \<Longrightarrow> length out + length (hmset_requests key vals) \<le> 2146434047 \<Longrightarrow>
    \<exists>c'. hmset_append al pf key vals c w = Inr (length vals, c') \<and> ctx_ok al c' h (out @ hmset_requests key vals) [] \<and> c_flags c' = c_flags c"
proof (induction vals arbitrary: c out)
  case Nil
  then show ?case by (simp add: hmset_requests_def)
next
  case (Cons x vals)
  obtain f v where x: "x = (f, v)" by force
  let ?wds = "hmset_words key f v :: 'd piece list list" and ?req = "resp_command [''HMSET'', cstr key, cstr f, v]"
  have fm: "words_fmt ?wds = ''HMSET %s %s %b''" "words_args ?wds = [VStr key, VStr f, VBin v (length v)]"
    "\<forall>x \<in> set ?wds. x \<noteq> [] \<and> (\<forall>p \<in> set x. piece_ok pf p)" "map (word_text pf) ?wds = [''HMSET'', cstr key, cstr f, v]"
    by (rule hmset_words_fmt [OF refl])+
  have nul: "NUL \<notin> set (words_fmt ?wds)" unfolding fm(1) by simp
  have rq: "?req = resp_command (map (word_text pf) ?wds)" unfolding fm(4) ..
  have len: "length out + length ?req \<le> 2146434047" "length (out @ ?req) + length (hmset_requests key vals) \<le> 2146434047"
    using Cons.prems(3) by (simp_all add: hmset_requests_def x)
  obtain c1 where c1: "redisvAppendCommand al pf c (words_fmt ?wds) (words_args ?wds) w = Inr (REDIS_OK, c1)"
    "ctx_ok al c1 h (out @ ?req) []" "c_flags c1 = c_flags c" by (rule redisvAppendCommand_spec [OF al Cons.prems(1) fm(3) nul rq len(1)])
  from Cons.IH [OF c1(2) _ len(2)] Cons.prems(2) obtain c2 where "hmset_append al pf key vals c1 w = Inr (length vals, c2)"
    "ctx_ok al c2 h ((out @ ?req) @ hmset_requests key vals) []" "c_flags c2 = c_flags c1" by auto
  with c1(1,3) Cons.prems(2) show ?case by (auto simp: x hmset_requests_def redisAppendCommand_def fm(1,2))
qed

section \<open>Properties\<close>

text \<open>on a free connection \<open>HSet\<close> sends exactly the command HSET (or HSETNX) with the key, the field and the value, which may
  hold any bytes; it returns the number the server answers, at the first attempt; and the connection goes back to its
  pool, ready for the next command.\<close>

theorem HSet_sets:
  assumes al: "alloc_ok al" "\<not> may_fail al" and r: "cli_ready al (rnd 0) (ps, h, w) i c rest"
    and p: "key \<noteq> []" "f \<noteq> []" "v \<noteq> []" "0 < tries" "tries \<le> 10"
    and req: "req = resp_command [if nx then ''HSETNX'' else ''HSET'', cstr key, cstr f, v]" and ex: "exchange req (RInt n) ws rs" "0 \<le> n" "n \<le> 2147483647"
    and w: "w_writes w = ws @ ws'" "w_reads w = rs @ rs'"
  shows "\<exists>c' h' e. HSet al pf rnd key f v nx tries (ps, h, w) = Inr (Some (n, returned_pool ps i (rest @ [c']), h',
      w\<lparr>w_writes := ws', w_sent := w_sent w @ req, w_reads := rs', w_errno := e\<rparr>)) \<and> ctx_ok al c' h' [] []"
proof -
  from p(4) obtain k where k: "nat tries = Suc k" by (cases "nat tries") auto
  from HSetImpl_spec [OF al r req ex(1) w] obtain c' h' e where
    "HSetImpl al pf (rnd 0) key f v nx (ps, h, w) = Inr (Some (int32 n, returned_pool ps i (rest @ [c']), h',
      w\<lparr>w_writes := ws', w_sent := w_sent w @ req, w_reads := rs', w_errno := e\<rparr>))" "ctx_ok al c' h' [] []" by blast
  with p ex(2,3) k show ?thesis by (auto simp: HSet_def drop_unit_def plain_result_def)
qed

text \<open>C20: \<open>HMGet\<close> asks for exactly the named fields and gives back, for every field, the value the server has for it, and
  nothing for a field that does not exist; for a key and fields that are not empty and hold no space, percent sign or NUL.\<close>

theorem HMGet_reads:
  assumes al: "alloc_ok al" "\<not> may_fail al" and r: "cli_ready al (rnd 0) (ps, h, w) i c rest"
    and p: "word_ok key" "fs \<noteq> []" "\<forall>f \<in> set fs. word_ok f" "distinct fs" "0 < tries" "tries \<le> 10"
    and vs: "length vs = length fs" "\<forall>v \<in> set vs. leaf v" and ex: "exchange (resp_command (''HMGET'' # key # fs)) (RArray vs) ws rs"
    and w: "w_writes w = ws @ ws'" "w_reads w = rs @ rs'"
  shows "\<exists>m c' h' e. HMGet al pf rnd key fs tries (ps, h, w) = Inr (Some ((True, m), returned_pool ps i (rest @ [c']), h',
      w\<lparr>w_writes := ws', w_sent := w_sent w @ resp_command (''HMGET'' # key # fs), w_reads := rs', w_errno := e\<rparr>)) \<and> ctx_ok al c' h' [] [] \<and>
    (\<forall>j < length fs. map_of m (fs ! j) = (case vs ! j of RString s \<Rightarrow> Some s | _ \<Rightarrow> None)) \<and> dom (map_of m) \<subseteq> set fs"
proof -
  have "fs = filter (\<lambda>f. f \<noteq> []) fs" "\<forall>f \<in> set fs. f = [] \<or> word_ok f" using p(3) by (auto simp: word_ok_def intro!: filter_True [symmetric])
  from HMGet_spec [where rnd = rnd and pf = pf, OF al r p(1) this(2) p(2,5,6) this(1) vs(2) ex w] obtain c' h' e where
    "HMGet al pf rnd key fs tries (ps, h, w) = Inr (Some ((True, field_values fs vs []), returned_pool ps i (rest @ [c']), h',
      w\<lparr>w_writes := ws', w_sent := w_sent w @ resp_command (''HMGET'' # key # fs), w_reads := rs', w_errno := e\<rparr>))" "ctx_ok al c' h' [] []" by blast
  moreover have "\<forall>j < length fs. map_of (field_values fs vs []) (fs ! j) = (case vs ! j of RString s \<Rightarrow> Some s | _ \<Rightarrow> None)"
    using field_values_nth [OF p(4), of _ "[]" vs] vs(1) by simp
  moreover have "dom (map_of (field_values fs vs [])) \<subseteq> set fs" using field_values_other [of _ fs vs "[]"] by fastforce
  ultimately show ?thesis using \<open>ctx_ok al c' h' [] []\<close> by blast
qed

text \<open>The set of fields given to \<open>HMGet\<close> may hold the empty string; it comes first and is left out of the command, but not
  when the values are paired with the fields.  Every field then gets the value of the field after it.\<close>

theorem HMGet_empty_field_shifts:
  assumes al: "alloc_ok al" "\<not> may_fail al" and r: "cli_ready al (rnd 0) (ps, h, w) i c rest"
    and p: "word_ok key" "fs \<noteq> []" "\<forall>f \<in> set fs. word_ok f" "distinct fs" "0 < tries" "tries \<le> 10"
    and vs: "length vs = length fs" "\<forall>v \<in> set vs. leaf v" and ex: "exchange (resp_command (''HMGET'' # key # fs)) (RArray vs) ws rs"
    and w: "w_writes w = ws @ ws'" "w_reads w = rs @ rs'"
  shows "\<exists>m s'. HMGet al pf rnd key ([] # fs) tries (ps, h, w) = Inr (Some ((True, m), s')) \<and>
    (\<forall>j. Suc j < length fs \<longrightarrow> map_of m (fs ! j) = (case vs ! Suc j of RString s \<Rightarrow> Some s | _ \<Rightarrow> None)) \<and> map_of m (last fs) = None"
proof -
  let ?fs = "[] # fs" and ?m = "field_values ([] # fs) vs []"
  have "fs = filter (\<lambda>f. f \<noteq> []) ?fs" "\<forall>f \<in> set ?fs. f = [] \<or> word_ok f" using p(3) by (auto simp: word_ok_def intro!: filter_True [symmetric])
  from HMGet_spec [where rnd = rnd and pf = pf, OF al r p(1) this(2) _ p(5,6) this(1) vs(2) ex w] obtain s' where
    "HMGet al pf rnd key ?fs tries (ps, h, w) = Inr (Some ((True, ?m), s'))" by blast
  moreover have "distinct ?fs" using p(3,4) by (auto simp: word_ok_def)
  then have "map_of ?m (fs ! j) = (if Suc j < length vs then case vs ! Suc j of RString s \<Rightarrow> Some s | _ \<Rightarrow> None else None)" if "j < length fs" for j
    using field_values_nth [of ?fs "Suc j" "[]" vs] that by (simp del: field_values.simps)
  moreover from this [of "length fs - 1"] p(2) vs(1) have "map_of ?m (last fs) = None" by (simp add: last_conv_nth del: field_values.simps)
  ultimately show ?thesis using vs(1) by (intro exI [of _ ?m] exI [of _ s']) (simp del: field_values.simps)
qed

text \<open>When the connection breaks after the first of several replies, \<open>HMSetImpl\<close> frees the first reply a second time: its
  variable still points to the object, and the failing \<open>redisGetReply\<close> does not change it.\<close>

theorem HMSetImpl_double_free:
  assumes al: "alloc_ok al" "\<not> may_fail al" and r: "cli_ready al rnd (ps, h, w) i c rest"
    and vals: "2 \<le> length vals" "\<forall>(f, v) \<in> set vals. f \<noteq> [] \<and> v \<noteq> []" and ex: "exchange (hmset_requests key vals) v ws rs"
    and w: "w_writes w = ws @ ws'" "w_reads w = rs @ RdBytes [] # rs'"
  shows "HMSetImpl al pf rnd key vals (ps, h, w) = Inl OutOfBounds"
proof -
  from ex have x: "length (hmset_requests key vals) \<le> 2146434047" "accepts ws (length (hmset_requests key vals))" "\<forall>x \<in> set rs. readable x" "rs \<noteq> []"
    "chunk_of (last rs) \<noteq> []" "concat (map chunk_of rs) = encode v" "length (encode v) \<le> 2146434047" "encodable v" "nesting v \<le> 8" by (simp_all add: exchange_def)
  from r have c: "ctx_ok al c h [] []" "blocking c" by (simp_all add: cli_ready_def)
  from hmset_append_spec [OF al c(1) vals(2), of key pf w] x(1) obtain c1 where c1: "hmset_append al pf key vals c w = Inr (length vals, c1)"
    "ctx_ok al c1 h (hmset_requests key vals) []" "c_flags c1 = c_flags c" by auto
  have bl: "blocking c1" using c1(3) c(2) by simp
  obtain o1 c2 h2 e where g: "redisGetReply al c1 h w = Inr (Some (REDIS_OK, Some o1, c2, h2,
      w\<lparr>w_writes := ws', w_sent := w_sent w @ hmset_requests key vals, w_reads := RdBytes [] # rs', w_errno := e\<rparr>))"
    "ctx_ok al c2 h2 [] []" "c_flags c2 = c_flags c1" "\<exists>r. c_reader c2 = Some r \<and> reader_view (r, h2) o1 v"
    by (rule redisGetReply_delivers [OF al c1(2) bl w(1) x(2) w(2) x(3-9)])
  let ?w = "w\<lparr>w_writes := ws', w_sent := w_sent w @ hmset_requests key vals, w_reads := RdBytes [] # rs', w_errno := e\<rparr>"
  from g(4) obtain a where a: "o1 = ObjAddr a" "stored_at h2 a v" by (cases o1) (auto simp: reader_view_def)
  have "blocking c2" using g(3) bl by simp
  then have "\<exists>c3 w3. redisGetReply al c2 (erased h2 a v) ?w = Inr (Some (REDIS_ERR, None, c3, erased h2 a v, w3)) \<and> c_err c3 = REDIS_ERR_EOF"
    by (rule redisGetReply_eof [OF al ctx_ok_heap [OF g(2)], where rs = rs']) simp
  then obtain c3 w3 where e: "redisGetReply al c2 (erased h2 a v) ?w = Inr (Some (REDIS_ERR, None, c3, erased h2 a v, w3))" "c_err c3 = REDIS_ERR_EOF"
    by blast
  from vals(1) obtain n where n: "length vals = Suc (Suc n)" by (metis add_2_eq_Suc le_Suc_ex)
  show ?thesis using borrow_ready [OF r] c1(1) g(1) free_stored [OF a(2)] e free_twice [OF a(2)]
    by (simp add: HMSetImpl_def n a(1) finish_def redis_errors)
qed

section \<open>Examples\<close>

text \<open>A client with one pool that holds one connection.\<close>

definition example_pool :: "redisContext \<Rightarrow> RedisConnPool" where
  "example_pool c = \<lparr>pool_host = ''h'', pool_port = 6379, pool_size = 1, conn_timeout_ms = 100, send_timeout_ms = 100, recv_timeout_ms = 100,
     busy_conn_num = 0, free_conns = [c]\<rparr>"

lemma example_client:
  obtains c w where "cli_ready (fill_alloc NUL) 0 ([example_pool c], [], w) 0 c []" "w_reads w = rs" "w_writes w = ws"
proof -
  obtain c w where "pool_Connect (fill_alloc NUL) (example_pool undefined) [] (new_world rs ws (example_calls @ []) [GaiList 1]) = Inr (Some (Some c, [], w))"
    "ctx_ok (fill_alloc NUL) c [] [] []" "blocking c" "c_fd c = 5" "w_reads w = rs" "w_writes w = ws" "w_sent w = []" "w_calls w = []" "w_gai w = []"
    by (rule example_connect)
  then show ?thesis using that by (simp add: cli_ready_def example_pool_def)
qed

lemma example_exchange:
  assumes "length req \<le> 2146434047" "req \<noteq> []" "encodable v" "nesting v \<le> 8" "encode v \<noteq> []" "length (encode v) \<le> 2146434047"
  shows "exchange req v [WrCount (length req)] [RdBytes (encode v)]"
  using assms by (simp add: exchange_def)

theorem HSet_sets_witness:
  "\<exists>c w s'. w_reads w = [RdBytes (encode (RInt 1))] \<and>
     HSet (fill_alloc NUL) (\<lambda>_ (_ :: unit va_value). '''') (\<lambda>_. 0) ''k'' ''f'' ''v'' False 3 ([example_pool c], [], w) = Inr (Some (1, s'))"
proof -
  let ?req = "resp_command [''HSET'', ''k'', ''f'', ''v'']"
  let ?rs = "[RdBytes (encode (RInt 1))]" and ?ws = "[WrCount (length ?req)]"
  obtain c w where r: "cli_ready (fill_alloc NUL) 0 ([example_pool c], [], w) 0 c []" "w_reads w = ?rs" "w_writes w = ?ws"
    by (rule example_client)
  have "length ?req = 35" "length (encode (RInt 1)) = 4" by code_simp+
  then have "exchange ?req (RInt 1) ?ws ?rs" by (intro example_exchange) (auto simp: nesting.simps simp del: encode.simps)
  then have "\<exists>c' h' e. HSet (fill_alloc NUL) (\<lambda>_ (_ :: unit va_value). '''') (\<lambda>_. 0) ''k'' ''f'' ''v'' False 3 ([example_pool c], [], w) =
      Inr (Some (1, returned_pool [example_pool c] 0 ([] @ [c']), h', w\<lparr>w_writes := [], w_sent := w_sent w @ ?req, w_reads := [], w_errno := e\<rparr>)) \<and>
      ctx_ok (fill_alloc NUL) c' h' [] []"
    using HSet_sets [of "fill_alloc NUL" "\<lambda>_. 0" "[example_pool c]" "[]" w 0 c "[]" "''k''" "''f''" "''v''" 3 ?req False 1 ?ws ?rs "[]" "[]"
        "\<lambda>_ (_ :: unit va_value). ''''"] r fill_alloc_ok [of NUL] fill_alloc_never_fails [of NUL] by (simp add: cstr_def)
  with r(2) show ?thesis by blast
qed

theorem HMGet_reads_witness:
  "\<exists>c w m s'. w_reads w = [RdBytes (encode (RArray [RString ''1'', RNil]))] \<and>
     HMGet (fill_alloc NUL) (\<lambda>_ (_ :: unit va_value). '''') (\<lambda>_. 0) ''k'' [''a'', ''b''] 3 ([example_pool c], [], w) = Inr (Some ((True, m), s')) \<and>
     map_of m ''a'' = Some ''1'' \<and> map_of m ''b'' = None"
proof -
  let ?req = "resp_command (''HMGET'' # ''k'' # [''a'', ''b''])" and ?v = "RArray [RString ''1'', RNil]"
  let ?rs = "[RdBytes (encode ?v)]" and ?ws = "[WrCount (length ?req)]"
  obtain c w where r: "cli_ready (fill_alloc NUL) 0 ([example_pool c], [], w) 0 c []" "w_reads w = ?rs" "w_writes w = ?ws"
    by (rule example_client)
  have "length ?req = 36" "length (encode ?v) = 16" by code_simp+
  then have "exchange ?req ?v ?ws ?rs" by (intro example_exchange) (auto simp: nesting.simps simp del: encode.simps)
  then have "\<exists>m s'. HMGet (fill_alloc NUL) (\<lambda>_ (_ :: unit va_value). '''') (\<lambda>_. 0) ''k'' [''a'', ''b''] 3 ([example_pool c], [], w) = Inr (Some ((True, m), s')) \<and>
     map_of m ''a'' = Some ''1'' \<and> map_of m ''b'' = None"
    using HMGet_reads [of "fill_alloc NUL" "\<lambda>_. 0" "[example_pool c]" "[]" w 0 c "[]" "''k''" "[''a'', ''b'']" 3 "[RString ''1'', RNil]" ?ws ?rs "[]" "[]"
        "\<lambda>_ (_ :: unit va_value). ''''"] r fill_alloc_ok [of NUL] fill_alloc_never_fails [of NUL]
    by (auto simp: word_ok_def leaf_def less_Suc_eq simp del: encode.simps)
  with r(2) show ?thesis by blast
qed

theorem HMGet_empty_field_shifts_witness:
  "\<exists>c w m s'. w_reads w = [RdBytes (encode (RArray [RString ''1'', RString ''2'']))] \<and>
     HMGet (fill_alloc NUL) (\<lambda>_ (_ :: unit va_value). '''') (\<lambda>_. 0) ''k'' [[], ''a'', ''b''] 3 ([example_pool c], [], w) = Inr (Some ((True, m), s')) \<and>
     map_of m ''a'' = Some ''2'' \<and> map_of m ''b'' = None"
proof -
  let ?req = "resp_command (''HMGET'' # ''k'' # [''a'', ''b''])" and ?v = "RArray [RString ''1'', RString ''2'']"
  let ?rs = "[RdBytes (encode ?v)]" and ?ws = "[WrCount (length ?req)]"
  obtain c w where r: "cli_ready (fill_alloc NUL) 0 ([example_pool c], [], w) 0 c []" "w_reads w = ?rs" "w_writes w = ?ws"
    by (rule example_client)
  have "length ?req = 36" "length (encode ?v) = 18" by code_simp+
  then have "exchange ?req ?v ?ws ?rs" by (intro example_exchange) (auto simp: nesting.simps simp del: encode.simps)
  then have "\<exists>m s'. HMGet (fill_alloc NUL) (\<lambda>_ (_ :: unit va_value). '''') (\<lambda>_. 0) ''k'' [[], ''a'', ''b''] 3 ([example_pool c], [], w) = Inr (Some ((True, m), s')) \<and>
     map_of m ''a'' = Some ''2'' \<and> map_of m ''b'' = None"
    using HMGet_empty_field_shifts [of "fill_alloc NUL" "\<lambda>_. 0" "[example_pool c]" "[]" w 0 c "[]" "''k''" "[''a'', ''b'']" 3 "[RString ''1'', RString ''2'']"
        ?ws ?rs "[]" "[]" "\<lambda>_ (_ :: unit va_value). ''''"] r fill_alloc_ok [of NUL] fill_alloc_never_fails [of NUL]
    by (auto simp: word_ok_def leaf_def less_Suc_eq simp del: encode.simps)
  with r(2) show ?thesis by blast
qed

theorem HMSetImpl_double_free_witness:
  "\<exists>c w. w_reads w = [RdBytes (encode (RStatus ''OK'')), RdBytes []] \<and>
     HMSetImpl (fill_alloc NUL) (\<lambda>_ (_ :: unit va_value). '''') 0 ''k'' [(''a'', ''1''), (''b'', ''2'')] ([example_pool c], [], w) = Inl OutOfBounds"
proof -
  let ?vals = "[(''a'', ''1''), (''b'', ''2'')]"
  let ?req = "hmset_requests ''k'' ?vals" and ?v = "RStatus ''OK''"
  let ?rs = "[RdBytes (encode ?v)]" and ?ws = "[WrCount (length ?req)]"
  obtain c w where r: "cli_ready (fill_alloc NUL) 0 ([example_pool c], [], w) 0 c []" "w_reads w = ?rs @ [RdBytes []]" "w_writes w = ?ws"
    by (rule example_client)
  have "length ?req = 72" "length (encode ?v) = 5" by code_simp+
  then have "exchange ?req ?v ?ws ?rs" by (intro example_exchange) (auto simp: nesting.simps simp del: encode.simps)
  then show ?thesis
    using HMSetImpl_double_free [of "fill_alloc NUL" 0 "[example_pool c]" "[]" w 0 c "[]" ?vals "''k''" ?v ?ws ?rs "[]" "[]"
        "\<lambda>_ (_ :: unit va_value). ''''"] r fill_alloc_ok [of NUL] fill_alloc_never_fails [of NUL] by auto
qed

end
