(* ===== verification/MultiHash.thy ===== *)
theory MultiHash
  imports CliPoolProps
begin

text \<open>
  Properties of \<open>MultiHashRedisCliPool.cpp\<close>, and of the error replies that reach it.
\<close>

section \<open>Reading several hashes\<close>

text \<open>The results of \<open>HMGet\<close> for the keys of a request, one after the other.\<close>

fun hmget_each :: "allocator \<Rightarrow> 'd printf \<Rightarrow> (nat \<Rightarrow> nat \<Rightarrow> nat) \<Rightarrow> nat \<Rightarrow> (string \<times> FieldSet) list \<Rightarrow> int \<Rightarrow> cli \<Rightarrow> (bool \<times> FieldValueMap) list cli_result" where
  "hmget_each al pf rnd j [] tries s = Inr (Some ([], s))"
| "hmget_each al pf rnd j ((key, fs) # reqs) tries s =
     bindio (HMGet al pf (rnd j) key fs tries s) (\<lambda>(x, s). bindio (hmget_each al pf rnd (Suc j) reqs tries s) (\<lambda>(xs, s). Inr (Some (x # xs, s))))"

lemma mget_loop_spec:
  "hmget_each al pf rnd j reqs tries s = Inr (Some (xs, s')) \<Longrightarrow> distinct (map fst reqs) \<Longrightarrow>
    \<exists>found' failed'. mget_loop al pf rnd j reqs tries ret found failed s = Inr (Some ((ret \<and> list_all fst xs, found', failed'), s')) \<and> length xs = length reqs \<and>
      (\<forall>i < length reqs. map_of found' (fst (reqs ! i)) = Some (snd (xs ! i)) \<and>
        map_of failed' (fst (reqs ! i)) = (if fst (xs ! i) then map_of failed (fst (reqs ! i)) else Some ())) \<and>
      (\<forall>k. k \<notin> fst ` set reqs \<longrightarrow> map_of found' k = map_of found k \<and> map_of failed' k = map_of failed k)"
proof (induction reqs arbitrary: j s xs ret found failed)
  case (Cons x reqs)
  obtain key fs where x: "x = (key, fs)" by force
  from Cons.prems(1) obtain ok vals s1 ys where g: "HMGet al pf (rnd j) key fs tries s = Inr (Some ((ok, vals), s1))"
    "hmget_each al pf rnd (Suc j) reqs tries s1 = Inr (Some (ys, s'))" "xs = (ok, vals) # ys" by (auto simp: x elim!: bindio_SomeE)
  let ?failed = "if ok then failed else map_put key () failed"
  from Cons.IH [OF g(2), of "ret \<and> ok" "map_put key vals found" ?failed] Cons.prems(2) obtain found' failed' where
    t: "mget_loop al pf rnd (Suc j) reqs tries (ret \<and> ok) (map_put key vals found) ?failed s1 = Inr (Some ((ret \<and> ok \<and> list_all fst ys, found', failed'), s'))"
      "length ys = length reqs"
      "\<forall>i < length reqs. map_of found' (fst (reqs ! i)) = Some (snd (ys ! i)) \<and> map_of failed' (fst (reqs ! i)) = (if fst (ys ! i) then map_of ?failed (fst (reqs ! i)) else Some ())"
      "\<forall>k. k \<notin> fst ` set reqs \<longrightarrow> map_of found' k = map_of (map_put key vals found) k \<and> map_of failed' k = map_of ?failed k" by auto
  have l: "mget_loop al pf rnd j (x # reqs) tries ret found failed s = Inr (Some ((ret \<and> list_all fst xs, found', failed'), s'))"
    using g(1,3) t(1) by (cases ok) (simp_all add: x)
  have key: "key \<notin> fst ` set reqs" using Cons.prems(2) by (simp add: x)
  have n: "fst (reqs ! i) \<noteq> key" if "i < length reqs" for i using key that by (auto dest: nth_mem)
  have "map_of found' (fst ((x # reqs) ! i)) = Some (snd (xs ! i)) \<and>
      map_of failed' (fst ((x # reqs) ! i)) = (if fst (xs ! i) then map_of failed (fst ((x # reqs) ! i)) else Some ())" if "i < length (x # reqs)" for i
    using that t(3,4) key n by (cases i) (auto simp: x g(3))
  moreover have "map_of found' k = map_of found k \<and> map_of failed' k = map_of failed k" if "k \<notin> fst ` set (x # reqs)" for k
    using that t(4) by (auto simp: x)
  ultimately show ?case using l t(2) by (intro exI [of _ found'] exI [of _ failed']) (simp add: g(3))
qed simp

section \<open>Error replies\<close>

text \<open>\<open>HMDelImpl\<close> returns \<open>false\<close>, the number zero, for an error reply, and its caller takes this for success.\<close>

lemma HMDelImpl_error_reply:
  fixes pf :: "'d printf"
  assumes al: "alloc_ok al" "\<not> may_fail al" and r: "cli_ready al rnd (ps, h, w) i c rest"
    and ws: "\<forall>x \<in> set ws0. word_ok x" "cmd = join_with '' '' ws0" and ex: "exchange (resp_command ws0) (RError msg) ws rs"
    and w: "w_writes w = ws @ ws'" "w_reads w = rs @ rs'"
  shows "\<exists>s'. HMDelImpl al pf rnd cmd (ps, h, w) = Inr (Some (0, s'))"
proof -
  let ?wds = "map (map PChar) ws0 :: 'd piece list list"
  have f: "words_fmt ?wds = join_with '' '' ws0" "words_args ?wds = []" "\<forall>x \<in> set ?wds. x \<noteq> [] \<and> (\<forall>p \<in> set x. piece_ok pf p)" "map (word_text pf) ?wds = ws0"
    by (rule plain_words [OF refl ws(1)])+
  note cw = cstr_words [OF ws(1)]
  have nul: "NUL \<notin> set (words_fmt ?wds)" unfolding f(1) using cw by simp
  have rq: "resp_command ws0 = resp_command (map (word_text pf) ?wds)" unfolding f(4) ..
  obtain a c' h' e where g: "redisCommand al pf c (words_fmt ?wds) (words_args ?wds) h w =
      Inr (Some (Some (ObjAddr a), c', h', w\<lparr>w_writes := ws', w_sent := w_sent w @ resp_command ws0, w_reads := rs', w_errno := e\<rparr>))"
    "ctx_ok al c' h' [] []" "stored_at h' a (RError msg)" "reply_at (Some (ObjAddr a)) h' = Inr (Some (hd (flatten a (RError msg))))" "c_err c' = 0"
    by (rule command_ready [OF al r f(3) nul rq ex w])
  show ?thesis using g(1) [unfolded f(1,2)] g(4,5) borrow_ready [OF r] cw
    by (simp add: HMDelImpl_def has_type_def ws(2) reply_types finish_ready [OF r g(3,5)])
qed

lemma HMDel_error_reply:
  assumes al: "alloc_ok al" "\<not> may_fail al" and r: "cli_ready al (rnd 0) (ps, h, w) i c rest"
    and p: "word_ok key" "fs \<noteq> []" "\<forall>f \<in> set fs. word_ok f" "0 < tries" and ex: "exchange (resp_command (''HDEL'' # key # fs)) (RError msg) ws rs"
    and w: "w_writes w = ws @ ws'" "w_reads w = rs @ rs'"
  shows "\<exists>s'. HMDel al pf rnd key fs tries (ps, h, w) = Inr (Some (0, s'))"
proof -
  from p(4) obtain k where k: "nat tries = Suc k" by (cases "nat tries") auto
  have ws: "\<forall>x \<in> set (''HDEL'' # key # fs). word_ok x" "key \<noteq> []" using p(1,3) by (auto simp: word_ok_def)
  have "''HDEL '' @ key @ field_args fs = join_with '' '' (''HDEL'' # key # fs)" using p(3) by (induction fs) (auto simp: join_words field_args_def word_ok_def)
  from HMDelImpl_error_reply [OF al r ws(1) this ex w, of pf] k p(2) ws(2) show ?thesis by (auto simp: HMDel_def drop_unit_def plain_result_def)
qed

section \<open>Properties\<close>

text \<open>C21: \<open>MultiHashMGet\<close> is the sequence of its \<open>HMGet\<close> calls: it succeeds exactly when all of them succeed; the response holds under
  every key what the call for this key found; the keys of the calls that failed are added to the failed keys, and nothing else of
  the response changes.\<close>

theorem MultiHashMGet_each:
  assumes "hmget_each al pf rnd 0 reqs tries s = Inr (Some (xs, s'))" "distinct (map fst reqs)"
  shows "\<exists>found' failed'. MultiHashMGet al pf rnd reqs found failed tries s = Inr (Some ((list_all fst xs, found', failed'), s')) \<and>
    (\<forall>i < length reqs. map_of found' (fst (reqs ! i)) = Some (snd (xs ! i)) \<and>
      map_of failed' (fst (reqs ! i)) = (if fst (xs ! i) then map_of failed (fst (reqs ! i)) else Some ())) \<and>
    (\<forall>k. k \<notin> fst ` set reqs \<longrightarrow> map_of found' k = map_of found k \<and> map_of failed' k = map_of failed k)"
  using mget_loop_spec [OF assms, of True found failed] by (auto simp: MultiHashMGet_def)

theorem MultiHashMGet_each_witness:
  "\<exists>c w found' failed' s'. w_reads w = [RdBytes (encode (RArray [RString ''1'']))] \<and>
     MultiHashMGet (fill_alloc NUL) (\<lambda>_ (_ :: unit va_value). '''') (\<lambda>_ _. 0) [(''a'', []), (''k'', [''f''])] [] [] 3 ([example_pool c], [], w) =
       Inr (Some ((False, found', failed'), s')) \<and> map_of found' ''k'' = Some [(''f'', ''1'')] \<and> map_of failed' ''a'' = Some () \<and> map_of failed' ''k'' = None"
proof -
  let ?req = "resp_command (''HMGET'' # ''k'' # [''f''])" and ?v = "RArray [RString ''1'']"
  let ?rs = "[RdBytes (encode ?v)]" and ?ws = "[WrCount (length ?req)]" and ?pf = "\<lambda>_ (_ :: unit va_value). ''''"
  obtain c w where r: "cli_ready (fill_alloc NUL) 0 ([example_pool c], [], w) 0 c []" "w_reads w = ?rs" "w_writes w = ?ws"
    by (rule example_client)
  have "length ?req = 29" "length (encode ?v) = 11" by code_simp+
  then have "exchange ?req ?v ?ws ?rs" by (intro example_exchange) (auto simp: nesting.simps simp del: encode.simps)
  with HMGet_spec [of "fill_alloc NUL" "\<lambda>_. 0" "[example_pool c]" "[]" w 0 c "[]" "''k''" "[''f'']" 3 "[''f'']" "[RString ''1'']" ?ws ?rs "[]" "[]" ?pf]
    r fill_alloc_ok [of NUL] fill_alloc_never_fails [of NUL]
  obtain s' where k: "HMGet (fill_alloc NUL) ?pf (\<lambda>_. 0) ''k'' [''f''] 3 ([example_pool c], [], w) = Inr (Some ((True, [(''f'', ''1'')]), s'))"
    by (auto simp: word_ok_def leaf_def simp del: encode.simps)
  have "HMGet (fill_alloc NUL) ?pf (\<lambda>_. 0) ''a'' [] 3 ([example_pool c], [], w) = Inr (Some ((False, []), [example_pool c], [], w))" by (simp add: HMGet_def)
  with k have "hmget_each (fill_alloc NUL) ?pf (\<lambda>_ _. 0) 0 [(''a'', []), (''k'', [''f''])] 3 ([example_pool c], [], w) =
      Inr (Some ([(False, []), (True, [(''f'', ''1'')])], s'))" by simp
  from MultiHashMGet_each [OF this, of "[]" "[]"] obtain found' failed' where
    m: "MultiHashMGet (fill_alloc NUL) ?pf (\<lambda>_ _. 0) [(''a'', []), (''k'', [''f''])] [] [] 3 ([example_pool c], [], w) = Inr (Some ((False, found', failed'), s'))"
      "\<forall>i < 2. map_of found' (fst ([(''a'', []), (''k'', [''f''])] ! i)) = Some (snd ([(False, []), (True, [(''f'', ''1'')])] ! i)) \<and>
        map_of failed' (fst ([(''a'', []), (''k'', [''f''])] ! i)) = (if fst ([(False, []), (True, [(''f'', ''1'')])] ! i) then None else Some ())"
    by auto
  from m(2) have "map_of found' ''k'' = Some [(''f'', ''1'')] \<and> map_of failed' ''a'' = Some () \<and> map_of failed' ''k'' = None"
    by (auto dest: spec [of _ 0] spec [of _ 1])
  with m(1) r(2) show ?thesis by blast
qed

end
