(* ===== verification/Base64.thy ===== *)
theory Base64
  imports Prelude "HOL-Library.Signed_Division"
begin

text \<open>
  The two base64 codecs of the repository: \<open>util/base64.cc\<close> (the alphabet for URLs, functions on buffers and on
  \<open>std::string\<close>) and \<open>helper/util/base64.cpp\<close> (the standard alphabet, class \<open>Base64\<close>).  A byte is a word of eight bits, a
  buffer the list of its bytes; every access is checked against the length of the buffer.  The intermediate values of
  type \<open>int\<close> fit into eight bits before they are stored, except for the left shifts, whose high bits the assignment to an
  \<open>unsigned char\<close> drops.
\<close>

unbundle bit_operations_syntax

declare push_bit_and [simp del]

type_synonym byte = "8 word"

abbreviation pad_byte :: byte where "pad_byte \<equiv> 61"

section \<open>\<open>util/base64.cc\<close>\<close>

text \<open>The value \<open>XX\<close> marks the bytes that are not in the alphabet.\<close>

definition XX :: byte where "XX = 127"

definition index_64 :: "byte list" where
  "index_64 =
     replicate 45 XX @ [62, XX, XX] @
     [52, 53, 54, 55, 56, 57, 58, 59, 60, 61] @ replicate 7 XX @
     [0, 1, 2, 3, 4, 5, 6, 7, 8, 9, 10, 11, 12, 13, 14, 15, 16, 17, 18, 19, 20, 21, 22, 23, 24, 25] @ [XX, XX, XX, XX, 63, XX] @
     [26, 27, 28, 29, 30, 31, 32, 33, 34, 35, 36, 37, 38, 39, 40, 41, 42, 43, 44, 45, 46, 47, 48, 49, 50, 51] @ replicate 133 XX"

definition CHAR64 :: "byte \<Rightarrow> byte" where
  "CHAR64 c = index_64 ! unat c"

definition base64_char :: "byte list" where
  "base64_char = map of_char ''ABCDEFGHIJKLMNOPQRSTUVWXYZabcdefghijklmnopqrstuvwxyz0123456789-_''"

definition enc64 :: "byte \<Rightarrow> byte res" where
  "enc64 v = mem_get base64_char (unat v)"

text \<open>A group of one, two or three bytes at \<open>input + i\<close>, written as four bytes at \<open>output + j\<close>.\<close>

definition base64_encode_group :: "byte list \<Rightarrow> nat \<Rightarrow> int \<Rightarrow> byte list \<Rightarrow> nat \<Rightarrow> (byte list) res" where
  "base64_encode_group input i grp_len output j =
     (if grp_len = 3 then
        bindr (mem_get input i) (\<lambda>a. bindr (mem_get input (i + 1)) (\<lambda>b. bindr (mem_get input (i + 2)) (\<lambda>c.
        bindr (enc64 (drop_bit 2 a)) (\<lambda>w.
        bindr (enc64 (push_bit 4 (a AND 3) + drop_bit 4 b)) (\<lambda>x.
        bindr (enc64 (push_bit 2 (b AND 15) + drop_bit 6 c)) (\<lambda>y.
        bindr (enc64 (c AND 63)) (\<lambda>z. mem_write output j [w, x, y, z])))))))
      else if grp_len = 2 then
        bindr (mem_get input i) (\<lambda>a. bindr (mem_get input (i + 1)) (\<lambda>b.
        bindr (enc64 (drop_bit 2 a)) (\<lambda>w.
        bindr (enc64 (push_bit 4 (a AND 3) + drop_bit 4 b)) (\<lambda>x.
        bindr (enc64 (push_bit 2 (b AND 15))) (\<lambda>y. mem_write output j [w, x, y, pad_byte])))))
      else if grp_len = 1 then
        bindr (mem_get input i) (\<lambda>a.
        bindr (enc64 (drop_bit 2 a)) (\<lambda>w.
        bindr (enc64 (push_bit 4 (a AND 3))) (\<lambda>x. mem_write output j [w, x, pad_byte, pad_byte])))
      else Inr output)"

text \<open>The loop over the groups, \<open>n\<close> of them left; the last one gets what remains of the input.\<close>

fun encode_groups :: "nat \<Rightarrow> nat \<Rightarrow> byte list \<Rightarrow> int \<Rightarrow> byte list \<Rightarrow> (byte list) res" where
  "encode_groups 0 i input input_len output = Inr output"
| "encode_groups (Suc n) i input input_len output =
     bindr (base64_encode_group input (i * 3) (if n = 0 then input_len - int (i * 3) else 3) output (i * 4)) (\<lambda>output.
     encode_groups n (Suc i) input input_len output)"

text \<open>The function on buffers: its value, the buffer and \<open>*result_length\<close>.\<close>

definition base64_encode :: "byte list \<Rightarrow> int \<Rightarrow> byte list \<Rightarrow> int \<Rightarrow> int \<Rightarrow> (int \<times> byte list \<times> int) res" where
  "base64_encode input input_len output output_size result_length =
     (let encode_length = (input_len + 2) sdiv 3 * 4 in
      if output_size < encode_length then Inr (- 1, output, result_length)
      else bindr (encode_groups (nat ((input_len + 2) sdiv 3)) 0 input input_len output) (\<lambda>output. Inr (0, output, encode_length)))"

text \<open>The functions on strings.  \<open>resize\<close> fills with NUL; a length that does not fit into an \<open>int\<close> makes it throw.\<close>

definition resize :: "int \<Rightarrow> (byte list) res" where
  "resize n = (if 0 \<le> n then Inr (replicate (nat n) 0) else Inl NoMem)"

definition base64_encode_to :: "byte list \<Rightarrow> (bool \<times> byte list) res" where
  "base64_encode_to input =
     (if input = [] then Inr (True, [])
      else
        let result_length = int32 ((int (length input) + 2) div 3 * 4) in
        bindr (resize result_length) (\<lambda>output.
        bindr (base64_encode input (int32 (int (length input))) output result_length result_length) (\<lambda>(ret, output, _).
        Inr (if ret \<noteq> 0 then (False, []) else (True, output)))))"

definition base64_encode_string :: "byte list \<Rightarrow> (byte list) res" where
  "base64_encode_string input =
     (if input = [] then Inr []
      else bindr (base64_encode_to input) (\<lambda>(ok, output). Inr (if ok then output else [])))"

text \<open>Decoding a group of four bytes at \<open>input + i\<close> to \<open>output + j\<close>; the number of bytes written is returned.\<close>

definition base64_decode_group :: "byte list \<Rightarrow> nat \<Rightarrow> byte list \<Rightarrow> nat \<Rightarrow> (byte list \<times> int) res" where
  "base64_decode_group input i output j =
     bindr (mem_get input i) (\<lambda>a. bindr (mem_get input (i + 1)) (\<lambda>b.
     bindr (mem_get input (i + 2)) (\<lambda>c. bindr (mem_get input (i + 3)) (\<lambda>d.
     let x = push_bit 2 (CHAR64 a) OR drop_bit 4 (CHAR64 b);
         y = push_bit 4 (CHAR64 b) OR drop_bit 2 (CHAR64 c);
         z = push_bit 6 (CHAR64 c) OR CHAR64 d in
     if c = pad_byte \<and> d = pad_byte then bindr (mem_write output j [x]) (\<lambda>output. Inr (output, 1))
     else if d = pad_byte then bindr (mem_write output j [x, y]) (\<lambda>output. Inr (output, 2))
     else bindr (mem_write output j [x, y, z]) (\<lambda>output. Inr (output, 3))))))"

definition bad_group :: "byte \<Rightarrow> byte \<Rightarrow> byte \<Rightarrow> byte \<Rightarrow> bool" where
  "bad_group a b c d \<longleftrightarrow>
     (if c = pad_byte \<and> d = pad_byte then CHAR64 a = XX \<or> CHAR64 b = XX
      else if d = pad_byte then CHAR64 a = XX \<or> CHAR64 b = XX \<or> CHAR64 c = XX
      else list_ex (\<lambda>x. CHAR64 x = XX \<or> x = pad_byte) [a, b, c, d])"

function decode_groups :: "nat \<Rightarrow> byte list \<Rightarrow> int \<Rightarrow> byte list \<Rightarrow> int \<Rightarrow> nat \<Rightarrow> (int \<times> byte list \<times> int) res" where
  "decode_groups count input input_len output output_size result_length =
     (if int count < input_len then
        if output_size \<le> int result_length then Inr (- 1, output, int result_length)
        else
          bindr (mem_read input count 4) (\<lambda>g.
          if bad_group (g ! 0) (g ! 1) (g ! 2) (g ! 3) then Inr (- 1, output, int result_length)
          else
            bindr (base64_decode_group input count output result_length) (\<lambda>(output, written).
            decode_groups (count + 4) input input_len output output_size (result_length + nat written)))
      else Inr (0, output, int result_length))"
  by pat_completeness auto
termination
  by (relation "measure (\<lambda>(count, input, input_len, output, output_size, result_length). nat (input_len - int count))") auto

declare decode_groups.simps [simp del]

definition base64_decode :: "byte list \<Rightarrow> int \<Rightarrow> byte list \<Rightarrow> int \<Rightarrow> int \<Rightarrow> (int \<times> byte list \<times> int) res" where
  "base64_decode input input_len output output_size result_length =
     (if input_len mod 4 \<noteq> 0 then Inr (- 1, output, result_length)
      else decode_groups 0 input input_len output output_size 0)"

text \<open>The string is not cut to the length of the result.\<close>

definition base64_decode_to :: "byte list \<Rightarrow> (bool \<times> byte list) res" where
  "base64_decode_to input =
     (if input = [] then Inr (True, [])
      else
        let result_length = int32 (int (length input) * 3 div 4) in
        bindr (resize result_length) (\<lambda>output.
        bindr (base64_decode input (int32 (int (length input))) output result_length result_length) (\<lambda>(ret, output, _).
        Inr (if ret \<noteq> 0 then (False, []) else (True, output)))))"

definition base64_decode_string :: "byte list \<Rightarrow> (byte list) res" where
  "base64_decode_string input =
     (if input = [] then Inr []
      else bindr (base64_decode_to input) (\<lambda>(ok, output). Inr (if ok then output else [])))"

section \<open>Bits\<close>

lemma byte_high: "8 \<le> n \<Longrightarrow> \<not> bit (b :: byte) n"
  by (auto dest: bit_imp_le_length)

lemma byte_eqI: "list_all (\<lambda>n. bit a n = bit b n) [0, 1, 2, 3, 4, 5, 6, 7] \<Longrightarrow> a = b" for a b :: byte
proof (rule bit_word_eqI)
  fix n assume "list_all (\<lambda>n. bit a n = bit b n) [0, 1, 2, 3, 4, 5, 6, 7]" "n < LENGTH(8)"
  moreover from this(2) have "n \<in> set [0, 1, 2, 3, 4, 5, 6, 7]" by auto
  ultimately show "bit a n = bit b n" unfolding list_all_iff by blast
qed

text \<open>The four values of six bits that stand for three bytes.\<close>

definition sextets :: "byte \<Rightarrow> byte \<Rightarrow> byte \<Rightarrow> byte list" where
  "sextets a b c = [drop_bit 2 a, push_bit 4 (a AND 3) + drop_bit 4 b, push_bit 2 (b AND 15) + drop_bit 6 c, c AND 63]"

lemma masks: "(3 :: byte) = mask 2" "(15 :: byte) = mask 4" "(63 :: byte) = mask 6"
  by (simp_all add: mask_numeral)

lemma sum_or: "push_bit 4 (a AND 3) + drop_bit 4 b = push_bit 4 (a AND 3) OR drop_bit 4 b"
  "push_bit 2 (b AND 15) + drop_bit 6 c = push_bit 2 (b AND 15) OR drop_bit 6 c" for a b c :: byte
  by (rule disjunctive_add; auto simp: masks bit_simps dest: bit_imp_le_length)+

lemma sextet_bound: "v AND 63 = v \<Longrightarrow> unat v < 64" for v :: byte
proof -
  assume "v AND 63 = v"
  then have "unat v = take_bit 6 (unat v)" by (metis masks(3) take_bit_eq_mask unsigned_take_bit_eq)
  then show ?thesis using take_bit_nat_less_exp [of 6 "unat v"] by simp
qed

lemma sextets_bound: "\<forall>v \<in> set (sextets a b c). unat v < 64"
proof -
  have "\<forall>v \<in> set (sextets a b c). v AND 63 = v"
    unfolding sextets_def sum_or by (auto intro!: byte_eqI simp: masks bit_simps byte_high)
  then show ?thesis using sextet_bound by blast
qed

lemma sextets_join:
  assumes "sextets a b c = [w, x, y, z]"
  shows "push_bit 2 w OR drop_bit 4 x = a" "push_bit 4 x OR drop_bit 2 y = b" "push_bit 6 y OR z = c"
  using assms unfolding sextets_def sum_or by (auto intro!: byte_eqI simp: masks bit_simps byte_high) (metis numeral_2_eq_2 numeral_3_eq_3)+

text \<open>The table for decoding inverts the alphabet, which does not contain the padding.\<close>

lemma alphabet_table: "map CHAR64 base64_char = map of_nat [0..<64]" "list_all (\<lambda>c. c \<noteq> pad_byte) base64_char"
  by code_simp+

lemma alphabet:
  assumes "v < 64"
  shows "CHAR64 (base64_char ! v) = of_nat v" "base64_char ! v \<noteq> pad_byte" "v < length base64_char"
proof -
  have l: "length base64_char = 64" by (simp add: base64_char_def)
  with assms show "v < length base64_char" by simp
  with assms show "CHAR64 (base64_char ! v) = of_nat v" using arg_cong [OF alphabet_table(1), of "\<lambda>xs. xs ! v"] by simp
  show "base64_char ! v \<noteq> pad_byte" using alphabet_table(2) assms l by (auto simp: list_all_length)
qed

lemma enc64_dec:
  assumes "unat v < 64"
  shows "\<exists>c. enc64 v = Inr c \<and> CHAR64 c = v \<and> c \<noteq> pad_byte \<and> v \<noteq> XX"
proof -
  have "unat XX = 127" by (simp add: XX_def)
  with assms have "v \<noteq> XX" by auto
  with alphabet [OF assms] show ?thesis by (auto simp: enc64_def)
qed

section \<open>What is encoded\<close>

text \<open>The text of a byte string, a group of three bytes at a time; \<open>e64\<close> is the byte of the alphabet for a value.\<close>

definition e64 :: "byte \<Rightarrow> byte" where
  "e64 v = base64_char ! unat v"

fun text64 :: "(byte \<Rightarrow> byte) \<Rightarrow> byte list \<Rightarrow> byte list" where
  "text64 e [] = []"
| "text64 e [a] = (case sextets a 0 0 of [w, x, _, _] \<Rightarrow> [e w, e x, pad_byte, pad_byte])"
| "text64 e [a, b] = (case sextets a b 0 of [w, x, y, _] \<Rightarrow> [e w, e x, e y, pad_byte])"
| "text64 e (a # b # c # bs) = map e (sextets a b c) @ text64 e bs"

lemma group_cases:
  obtains "bs = []" | a where "bs = [a]" | a b where "bs = [a, b]" | a b c cs where "bs = a # b # c # cs"
  by (metis list.exhaust)

lemma enc64_e64: "v \<in> set (sextets a b c) \<Longrightarrow> enc64 v = Inr (e64 v)"
  using sextets_bound [of a b c] alphabet(3) by (auto simp: enc64_def e64_def)

lemma sextet_vals:
  "enc64 (drop_bit 2 a) = Inr (e64 (drop_bit 2 a))"
  "enc64 (push_bit 4 (a AND 3) + drop_bit 4 b) = Inr (e64 (push_bit 4 (a AND 3) + drop_bit 4 b))"
  "enc64 (push_bit 2 (b AND 15) + drop_bit 6 c) = Inr (e64 (push_bit 2 (b AND 15) + drop_bit 6 c))"
  "enc64 (c AND 63) = Inr (e64 (c AND 63))"
  "enc64 (push_bit 4 (a AND 3)) = Inr (e64 (push_bit 4 (a AND 3)))"
  "enc64 (push_bit 2 (b AND 15)) = Inr (e64 (push_bit 2 (b AND 15)))"
  using enc64_e64 [of _ a b c] enc64_e64 [of _ a 0 0] enc64_e64 [of _ a b 0] by (simp_all add: sextets_def)

lemma length_text64: "length (text64 e bs) = (length bs + 2) div 3 * 4"
  by (induction e bs rule: text64.induct) (simp_all add: sextets_def, presburger)

lemma mem_get_drop: "drop i bs = a # cs \<Longrightarrow> mem_get bs i = Inr a"
  by (metis drop_eq_Nil hd_drop_conv_nth leI list.distinct(1) list.sel(1) mem_get_in)

lemma Suc4: "Suc (Suc (Suc (Suc j))) = j + 4"
  by simp

text \<open>One group, at its place in the input and the output.\<close>

lemma encode_group_last:
  assumes "drop i input = g" "g \<noteq> []" "length g \<le> 3" "j + 4 \<le> length out"
  shows "base64_encode_group input i (int (length g)) out j = Inr (take j out @ text64 e64 g @ drop (j + 4) out)"
proof -
  have d: "drop (i + k) input = drop k g" for k using assms(1) by (metis add.commute drop_drop)
  consider a where "g = [a]" | a b where "g = [a, b]" | a b c where "g = [a, b, c]"
    using assms(2,3) by (cases g rule: group_cases) auto
  then show ?thesis
    using assms(1,4) d [of 1] d [of 2]
    by cases (simp_all add: base64_encode_group_def mem_get_drop sextet_vals sextets_def Suc4)
qed

lemma encode_group_full:
  assumes "drop i input = a # b # c # bs" "j + 4 \<le> length out"
  shows "base64_encode_group input i 3 out j = Inr (take j out @ map e64 (sextets a b c) @ drop (j + 4) out)"
proof -
  have "drop 1 (drop i input) = b # c # bs" "drop 2 (drop i input) = c # bs" by (simp_all add: assms(1))
  then have "drop (i + 1) input = b # c # bs" "drop (i + 2) input = c # bs" by (simp_all only: drop_drop add.commute)
  then show ?thesis using assms by (simp add: base64_encode_group_def mem_get_drop sextet_vals sextets_def Suc4)
qed

lemma encode_groups_spec:
  "drop (i * 3) input = bs \<Longrightarrow> i * 3 + length bs = length input \<Longrightarrow> n = (length bs + 2) div 3 \<Longrightarrow> (i + n) * 4 \<le> length out \<Longrightarrow>
    encode_groups n i input (int (length input)) out = Inr (take (i * 4) out @ text64 e64 bs @ drop ((i + n) * 4) out)"
proof (induction n arbitrary: i bs out)
  case 0
  then have "bs = []" by (cases bs) simp_all
  with 0 show ?case by simp
next
  case (Suc n)
  show ?case
  proof (cases "n = 0")
    case True
    with Suc.prems have g: "bs \<noteq> []" "length bs \<le> 3" "i * 4 + 4 \<le> length out" by auto
    have "int (length input) - int (i * 3) = int (length bs)" using Suc.prems(2) by linarith
    with encode_group_last [OF Suc.prems(1) g] True show ?thesis by (simp add: add.commute)
  next
    case False
    with Suc.prems(3) have "3 < length bs" by presburger
    then obtain a b c cs where bs: "bs = a # b # c # cs" by (cases bs rule: group_cases) auto
    let ?new = "take (i * 4) out @ map e64 (sextets a b c) @ drop (i * 4 + 4) out"
    have l: "length (map e64 (sextets a b c)) = 4" by (simp add: sextets_def)
    have o: "i * 4 + 4 \<le> length out" using Suc.prems(4) by simp
    have d: "drop (Suc i * 3) input = cs" using Suc.prems(1) drop_drop [of 3 "i * 3" input] by (simp add: bs add.commute)
    have "encode_groups n (Suc i) input (int (length input)) ?new = Inr (take (Suc i * 4) ?new @ text64 e64 cs @ drop ((Suc i + n) * 4) ?new)"
      using Suc.prems d l o by (intro Suc.IH) (simp_all add: bs)
    moreover have "take (Suc i * 4) ?new = take (i * 4) out @ map e64 (sextets a b c)" using o l by (simp add: add.commute)
    moreover have "drop ((Suc i + n) * 4) ?new = drop ((i + Suc n) * 4) out" using o l by (simp add: ac_simps)
    ultimately show ?thesis
      using encode_group_full [of "i * 3" input a b c cs "i * 4" out] Suc.prems(1) o False by (simp add: bs)
  qed
qed

lemma base64_encode_spec:
  assumes "(length input + 2) div 3 * 4 \<le> length out" "int ((length input + 2) div 3 * 4) \<le> output_size"
  shows "base64_encode input (int (length input)) out output_size rl =
    Inr (0, text64 e64 input @ drop ((length input + 2) div 3 * 4) out, int ((length input + 2) div 3 * 4))"
proof -
  have n: "(int (length input) + 2) sdiv 3 = int ((length input + 2) div 3)"
    using zdiv_int [of "length input + 2" 3] by (simp add: signed_divide_int_def)
  with encode_groups_spec [of 0 input input "(length input + 2) div 3" out] assms
  show ?thesis unfolding base64_encode_def n by (simp add: Let_def)
qed

section \<open>What is decoded\<close>

lemma CHAR64_e64: "v \<in> set (sextets a b c) \<Longrightarrow> CHAR64 (e64 v) = v \<and> e64 v \<noteq> pad_byte \<and> v \<noteq> XX"
proof -
  assume "v \<in> set (sextets a b c)"
  then have v: "unat v < 64" using sextets_bound by blast
  have "unat XX = 127" by (simp add: XX_def)
  with v alphabet [OF v] show ?thesis by (auto simp: e64_def)
qed

lemma mem_read_drop: "drop i bs = cs @ ds \<Longrightarrow> length cs = n \<Longrightarrow> cs \<noteq> [] \<Longrightarrow> mem_read bs i n = Inr cs"
proof -
  assume a: "drop i bs = cs @ ds" "length cs = n" "cs \<noteq> []"
  then have "i + length (cs @ ds) = length bs" by (metis append_is_Nil_conv drop_eq_Nil le_add_diff_inverse length_drop nat_le_linear)
  with a show ?thesis by (simp add: mem_read_def)
qed

lemma drop_drop_append: "drop i bs = cs @ ds \<Longrightarrow> drop (i + length cs) bs = ds"
  by (metis add.commute append_eq_conv_conj drop_drop)

text \<open>One group: its four bytes are accepted, and written back as the bytes they stand for.\<close>

lemma decode_group_step:
  assumes "drop i input = [w, x, y, z] @ ts" and "\<not> bad_group w x y z" and "int i < int (length input)" "int rl < sz"
    and "base64_decode_group input i out rl = Inr (out', int n)"
  shows "decode_groups i input (int (length input)) out sz rl = decode_groups (i + 4) input (int (length input)) out' sz (rl + n)"
  using assms mem_read_drop [OF assms(1), of 4] by (simp add: decode_groups.simps [of i])

lemma decode_group_bytes:
  assumes "drop i input = [w, x, y, z] @ ts"
  shows "base64_decode_group input i out j =
    (let a = push_bit 2 (CHAR64 w) OR drop_bit 4 (CHAR64 x); b = push_bit 4 (CHAR64 x) OR drop_bit 2 (CHAR64 y); c = push_bit 6 (CHAR64 y) OR CHAR64 z;
         bs = (if y = pad_byte \<and> z = pad_byte then [a] else if z = pad_byte then [a, b] else [a, b, c]) in
     bindr (mem_write out j bs) (\<lambda>out. Inr (out, int (length bs))))"
proof -
  have "mem_get input i = Inr w" "mem_get input (i + 1) = Inr x" "mem_get input (i + 2) = Inr y" "mem_get input (i + 3) = Inr z"
    using assms drop_drop_append [of i input "[w]"] drop_drop_append [of i input "[w, x]"] drop_drop_append [of i input "[w, x, y]"]
    by (simp_all add: mem_get_drop eval_nat_numeral)
  then show ?thesis by (simp add: base64_decode_group_def Let_def)
qed

lemma text64_shape:
  assumes "bs \<noteq> []"
  obtains a b c w x y z where "sextets a b c = [w, x, y, z]" "take 3 bs = take (length (take 3 bs)) [a, b, c]"
    "text64 e bs = [e w, e x, if length (take 3 bs) \<le> 1 then pad_byte else e y, if length (take 3 bs) \<le> 2 then pad_byte else e z] @ text64 e (drop 3 bs)"
proof (cases bs rule: group_cases)
  case 1
  with assms show ?thesis by simp
next
  case (2 a)
  then show ?thesis by (intro that [OF sextets_def [of a 0 0]]) (simp_all add: sextets_def)
next
  case (3 a b)
  then show ?thesis by (intro that [OF sextets_def [of a b 0]]) (simp_all add: sextets_def)
next
  case (4 a b c cs)
  then show ?thesis by (intro that [OF sextets_def [of a b c]]) (simp_all add: sextets_def)
qed

lemma decode_group_text:
  assumes g: "g = take 3 bs" "bs \<noteq> []" and t: "drop i input = text64 e64 bs" and o: "j + length g \<le> length out" "int j < sz"
  shows "decode_groups i input (int (length input)) out sz j =
    decode_groups (i + 4) input (int (length input)) (take j out @ g @ drop (j + length g) out) sz (j + length g) \<and> drop (i + 4) input = text64 e64 (drop 3 bs)"
proof -
  from g(2) obtain a b c w x y z where s: "sextets a b c = [w, x, y, z]" and bs: "g = take (length g) [a, b, c]"
    and tx: "text64 e64 bs = [e64 w, e64 x, if length g \<le> 1 then pad_byte else e64 y, if length g \<le> 2 then pad_byte else e64 z] @ text64 e64 (drop 3 bs)"
    unfolding g(1) by (rule text64_shape)
  let ?ts = "text64 e64 (drop 3 bs)"
  let ?y = "if length g \<le> 1 then pad_byte else e64 y" and ?z = "if length g \<le> 2 then pad_byte else e64 z"
  have c: "CHAR64 (e64 v) = v" "e64 v \<noteq> pad_byte" "v \<noteq> XX" if "v \<in> {w, x, y, z}" for v using CHAR64_e64 [of v a b c] that s by auto
  have d: "drop i input = [e64 w, e64 x, ?y, ?z] @ ?ts" using t tx by simp
  have i: "int i < int (length input)" using d by (cases "i < length input") auto
  have nb: "\<not> bad_group (e64 w) (e64 x) ?y ?z" using c by (auto simp: bad_group_def)
  have "length g = 1 \<or> length g = 2 \<or> length g = 3" using g by (cases bs rule: group_cases) auto
  then have "base64_decode_group input i out j = Inr (take j out @ g @ drop (j + length g) out, int (length g))"
    using decode_group_bytes [OF d, of out j] sextets_join [OF s] c o(1) bs by (elim disjE) (simp_all add: Let_def)
  from decode_group_step [OF d nb i o(2) this] drop_drop_append [OF d] show ?thesis by (simp add: Suc4)
qed

lemma decode_groups_spec:
  "drop i input = text64 e64 bs \<Longrightarrow> i \<le> length input \<Longrightarrow> j + length bs \<le> length out \<Longrightarrow> int (j + length bs) \<le> sz \<Longrightarrow>
    decode_groups i input (int (length input)) out sz j = Inr (0, take j out @ bs @ drop (j + length bs) out, int (j + length bs))"
proof (induction bs arbitrary: i j out rule: length_induct)
  case (1 bs)
  show ?case
  proof (cases "bs = []")
    case True
    with 1(2,3) show ?thesis by (simp add: decode_groups.simps [of i])
  next
    case False
    let ?g = "take 3 bs" and ?bs = "drop 3 bs" and ?out = "take j out @ take 3 bs @ drop (j + length (take 3 bs)) out"
    from False have gl: "0 < length ?g" "length ?g \<le> length bs" by (cases bs, simp_all)
    have st: "decode_groups i input (int (length input)) out sz j = decode_groups (i + 4) input (int (length input)) ?out sz (j + length ?g)"
      "drop (i + 4) input = text64 e64 ?bs"
      using decode_group_text [OF refl False 1(2), of j out sz] gl 1(4,5) by simp_all
    have "length input - i = length (text64 e64 bs)" by (simp flip: 1(2))
    moreover have "4 \<le> length (text64 e64 bs)" using False by (cases bs rule: group_cases) (simp_all add: sextets_def)
    ultimately have "i + 4 \<le> length input" by linarith
    moreover have l: "length ?g + length ?bs = length bs" by simp
    ultimately have e: "decode_groups (i + 4) input (int (length input)) ?out sz (j + length ?g) =
        Inr (0, take (j + length ?g) ?out @ ?bs @ drop (j + length ?g + length ?bs) ?out, int (j + length ?g + length ?bs))"
      using 1(1,4,5) st(2) gl False by (intro 1(1) [rule_format]) simp_all
    have tk: "take (j + length ?g) ?out = take j out @ ?g" using 1(4) gl by (simp add: min_def)
    have dr: "drop (j + length ?g + length ?bs) ?out = drop (j + length bs) out" using 1(4) gl l by (simp add: add.commute)
    have "j + length ?g + length ?bs = j + length bs" using l by linarith
    then show ?thesis unfolding st(1) e tk dr by simp
  qed
qed

section \<open>Properties\<close>

text \<open>C22: encoding a string and decoding the result never fails, for every string whose encoding has a length that fits into an \<open>int\<close>,
  and gives the bytes of the string back; but the decoded string keeps the length it had before decoding, so that one or
  two NUL bytes follow whenever the length of the original is not a multiple of three.\<close>

theorem base64_roundtrip:
  assumes "(length bs + 2) div 3 * 4 \<le> 2147483647"
  shows "\<exists>t. base64_encode_string bs = Inr t \<and> length t = (length bs + 2) div 3 * 4 \<and>
    base64_decode_string t = Inr (bs @ replicate ((length bs + 2) div 3 * 3 - length bs) 0)"
proof (cases "bs = []")
  case True
  then show ?thesis by (simp add: base64_encode_string_def base64_decode_string_def)
next
  case False
  let ?n = "(length bs + 2) div 3"
  have n: "int32 ((int (length bs) + 2) div 3 * 4) = int (?n * 4)" "int32 (int (length bs)) = int (length bs)" "?n * 4 \<noteq> 0"
    using assms False zdiv_int [of "length bs + 2" 3] by (cases bs; simp)+
  have e: "base64_encode_string bs = Inr (text64 e64 bs)"
    using base64_encode_spec [of bs "replicate (?n * 4) 0" "int (?n * 4)"] False
    unfolding base64_encode_string_def base64_encode_to_def resize_def n nat_int by (simp add: Let_def del: of_nat_mult)
  have l: "length (text64 e64 bs) = ?n * 4" by (rule length_text64)
  then have t: "text64 e64 bs \<noteq> []" using n(3) by auto
  have m: "int32 (int (length (text64 e64 bs)) * 3 div 4) = int (?n * 3)" "int32 (int (length (text64 e64 bs))) = int (length (text64 e64 bs))"
    "int (length (text64 e64 bs)) mod 4 = 0" using assms unfolding l by simp_all
  have "length bs \<le> ?n * 3" by presburger
  with decode_groups_spec [of 0 "text64 e64 bs" bs 0 "replicate (?n * 3) 0" "int (?n * 3)"]
  have "base64_decode_string (text64 e64 bs) = Inr (bs @ replicate (?n * 3 - length bs) 0)"
    unfolding base64_decode_string_def base64_decode_to_def base64_decode_def resize_def m nat_int using t by (simp add: Let_def del: of_nat_mult)
  with e l show ?thesis by blast
qed

theorem base64_roundtrip_witness:
  "base64_encode_string [97] = Inr [89, 81, 61, 61] \<and> base64_decode_string [89, 81, 61, 61] = Inr [97, 0, 0]"
proof -
  have "base64_encode_string [97] = Inr [89, 81, 61, 61]" by code_simp
  with base64_roundtrip [of "[97]"] show ?thesis by (auto simp: numeral_2_eq_2)
qed

end
