(* ===== verification/Base64Class.thy ===== *)
theory Base64Class
  imports Base64
begin

text \<open>
  The class \<open>Base64\<close> of \<open>helper/util/base64.cpp\<close>.  Its functions work on buffers of the caller with the length passed in
  and out.  A decoded character has a value from 0 to 63, so that it fits into a byte; negative values of the table
  mark characters outside the alphabet.  The sizes are of type \<open>size_t\<close> and wrap; the counters of the decoder are of type \<open>int\<close>, and
  counting past \<open>INT_MAX\<close> is undefined, like an access outside a buffer.
\<close>

definition base64_table :: "byte list" where
  "base64_table = map of_char ''ABCDEFGHIJKLMNOPQRSTUVWXYZabcdefghijklmnopqrstuvwxyz0123456789+/'' @ [0]"

definition base64_reverse_table :: "int list" where
  "base64_reverse_table =
     replicate 9 (- 2) @ [- 1, - 1, - 2, - 2, - 1] @ replicate 18 (- 2) @ [- 1] @ replicate 10 (- 2) @ [62, - 2, - 2, - 2, 63] @
     [52, 53, 54, 55, 56, 57, 58, 59, 60, 61] @ replicate 7 (- 2) @
     [0, 1, 2, 3, 4, 5, 6, 7, 8, 9, 10, 11, 12, 13, 14, 15, 16, 17, 18, 19, 20, 21, 22, 23, 24, 25] @ replicate 6 (- 2) @
     [26, 27, 28, 29, 30, 31, 32, 33, 34, 35, 36, 37, 38, 39, 40, 41, 42, 43, 44, 45, 46, 47, 48, 49, 50, 51] @ replicate 133 (- 2)"

definition tab :: "byte \<Rightarrow> byte res" where
  "tab v = mem_get base64_table (unat v)"

text \<open>The loop over full groups; \<open>cur\<close> and \<open>p\<close> are the positions of the pointers.  Its result is where they stand at the end.\<close>

function encode_full :: "byte list \<Rightarrow> nat \<Rightarrow> nat \<Rightarrow> byte list \<Rightarrow> nat \<Rightarrow> (nat \<times> nat \<times> byte list \<times> nat) res" where
  "encode_full src cur len outbuf p =
     (if 2 < len then
        bindr (mem_get src cur) (\<lambda>a. bindr (mem_get src (cur + 1)) (\<lambda>b. bindr (mem_get src (cur + 2)) (\<lambda>c.
        bindr (tab (drop_bit 2 a)) (\<lambda>w.
        bindr (tab (push_bit 4 (a AND 3) OR drop_bit 4 b)) (\<lambda>x.
        bindr (tab (push_bit 2 (b AND 15) OR drop_bit 6 c)) (\<lambda>y.
        bindr (tab (c AND 63)) (\<lambda>z.
        bindr (mem_write outbuf p [w, x, y, z]) (\<lambda>outbuf. encode_full src (cur + 3) (len - 3) outbuf (p + 4)))))))))
      else Inr (cur, len, outbuf, p))"
  by pat_completeness auto
termination
  by (relation "measure (\<lambda>(src, cur, len, outbuf, p). len)") auto

declare encode_full.simps [simp del]

definition encode_tail :: "byte list \<Rightarrow> nat \<Rightarrow> nat \<Rightarrow> byte list \<Rightarrow> nat \<Rightarrow> (byte list \<times> nat) res" where
  "encode_tail src cur len outbuf p =
     (if len \<noteq> 0 then
        bindr (mem_get src cur) (\<lambda>a. bindr (tab (drop_bit 2 a)) (\<lambda>w.
        if 1 < len then
          bindr (mem_get src (cur + 1)) (\<lambda>b.
          bindr (tab (push_bit 4 (a AND 3) OR drop_bit 4 b)) (\<lambda>x.
          bindr (tab (push_bit 2 (b AND 15))) (\<lambda>y.
          bindr (mem_write outbuf p [w, x, y, pad_byte]) (\<lambda>outbuf. Inr (outbuf, p + 4)))))
        else
          bindr (tab (push_bit 4 (a AND 3))) (\<lambda>x.
          bindr (mem_write outbuf p [w, x, pad_byte, pad_byte]) (\<lambda>outbuf. Inr (outbuf, p + 4)))))
      else Inr (outbuf, p))"

definition Base64_encode :: "byte list \<Rightarrow> nat \<Rightarrow> byte list \<Rightarrow> nat \<Rightarrow> (bool \<times> byte list \<times> nat) res" where
  "Base64_encode src inlen outbuf outlen =
     (if outlen < size_t (int (size_t (int inlen + 2) div 3 * 4)) then Inr (False, outbuf, outlen)
      else
        bindr (encode_full src 0 inlen outbuf 0) (\<lambda>(cur, len, outbuf, p).
        bindr (encode_tail src cur len outbuf p) (\<lambda>(outbuf, p). Inr (True, outbuf, p))))"

text \<open>The switch of the decoder for the character number \<open>i\<close> with value \<open>v\<close>: the buffer and the new \<open>j\<close>.\<close>

definition put_or :: "byte list \<Rightarrow> nat \<Rightarrow> byte \<Rightarrow> (byte list) res" where
  "put_or res j v = bindr (mem_get res j) (\<lambda>old. mem_write res j [old OR v])"

definition decode_switch :: "nat \<Rightarrow> byte \<Rightarrow> byte list \<Rightarrow> nat \<Rightarrow> (byte list \<times> nat) res" where
  "decode_switch i v res j =
     (if i mod 4 = 0 then bindr (mem_write res j [push_bit 2 v]) (\<lambda>res. Inr (res, j))
      else if i mod 4 = 1 then
        bindr (put_or res j (drop_bit 4 v)) (\<lambda>res.
        bindr (mem_write res (j + 1) [push_bit 4 (v AND 15)]) (\<lambda>res. Inr (res, j + 1)))
      else if i mod 4 = 2 then
        bindr (put_or res j (drop_bit 2 v)) (\<lambda>res.
        bindr (mem_write res (j + 1) [push_bit 6 (v AND 3)]) (\<lambda>res. Inr (res, j + 1)))
      else bindr (put_or res j v) (\<lambda>res. Inr (res, j + 1)))"

text \<open>\<open>i++\<close> for a counter of type \<open>int\<close> that is not negative.\<close>

definition int_inc :: "nat \<Rightarrow> nat res" where
  "int_inc i = bindr (check OutOfBounds (int i < INT_MAX)) (\<lambda>_. Inr (i + 1))"

text \<open>The loop with \<open>n\<close> characters left; as \<open>j\<close> is never ahead of \<open>i\<close>, it is enough to watch \<open>i\<close>.  \<open>None\<close> is \<open>return false\<close>.  The variable \<open>ch\<close> is the last character, or its value.\<close>

fun decode_loop :: "nat \<Rightarrow> byte list \<Rightarrow> nat \<Rightarrow> int \<Rightarrow> nat \<Rightarrow> nat \<Rightarrow> byte list \<Rightarrow> ((int \<times> nat \<times> nat) option \<times> byte list) res" where
  "decode_loop 0 enc cur ch i j res = Inr (Some (ch, i, j), res)"
| "decode_loop (Suc n) enc cur ch i j res =
     bindr (mem_get enc cur) (\<lambda>c.
     if c = pad_byte then
       bindr (if 0 < n then bindr (mem_get enc (cur + 1)) (\<lambda>d. Inr (d \<noteq> pad_byte \<and> i mod 4 = 1)) else Inr False) (\<lambda>bad.
       if bad then Inr (None, res) else decode_loop n enc (cur + 1) 61 i j res)
     else
       let ch = base64_reverse_table ! unat c in
       if ch < 0 then Inr (None, res)
       else bindr (decode_switch i (word_of_int ch) res j) (\<lambda>(res, j). bindr (int_inc i) (\<lambda>i. decode_loop n enc (cur + 1) ch i j res)))"

text \<open>After the loop \<open>ch == base64_pad\<close> also holds when the last character was the digit 9, whose value is the code of the padding.\<close>

definition Base64_decode :: "byte list \<Rightarrow> nat \<Rightarrow> byte list \<Rightarrow> nat \<Rightarrow> (bool \<times> byte list \<times> nat) res" where
  "Base64_decode enc inlen outbuf outlen =
     (if outlen < size_t (int inlen + int (size_t (int (push_bit 1 inlen)))) div 4 then Inr (False, outbuf, outlen)
      else
        bindr (decode_loop inlen enc 0 0 0 0 outbuf) (\<lambda>(r, res).
        case r of
          None \<Rightarrow> Inr (False, res, outlen)
        | Some (ch, i, j) \<Rightarrow>
            if ch = 61 \<and> i mod 4 = 1 then Inr (False, res, outlen)
            else
              bindr (if ch = 61 \<and> i mod 4 = 2 then mem_write res (j + 1) [0]
                     else if ch = 61 \<and> i mod 4 = 3 then mem_write res j [0] else Inr res) (\<lambda>res.
              bindr (check AssertFailed (j \<le> outlen)) (\<lambda>_. Inr (True, res, j)))))"

definition encodeblock :: "byte \<Rightarrow> byte \<Rightarrow> byte \<Rightarrow> int \<Rightarrow> (byte list) res" where
  "encodeblock a b c len =
     bindr (tab (drop_bit 2 a)) (\<lambda>w.
     bindr (tab (push_bit 4 (a AND 3) OR drop_bit 4 (b AND 0xF0))) (\<lambda>x.
     bindr (if 1 < len then tab (push_bit 2 (b AND 15) OR drop_bit 6 (c AND 0xC0)) else Inr pad_byte) (\<lambda>y.
     bindr (if 2 < len then tab (c AND 63) else Inr pad_byte) (\<lambda>z. Inr [w, x, y, z]))))"

definition decodeblock :: "byte \<Rightarrow> byte \<Rightarrow> byte \<Rightarrow> byte \<Rightarrow> byte list" where
  "decodeblock w x y z = [push_bit 2 w OR drop_bit 4 x, push_bit 4 x OR drop_bit 2 y, (push_bit 6 y AND 0xC0) OR z]"

section \<open>Encoding\<close>

definition t64 :: "byte \<Rightarrow> byte" where
  "t64 v = base64_table ! unat v"

lemma table_inverse:
  "map (\<lambda>c. base64_reverse_table ! unat c) (butlast base64_table) = map int [0..<64]" "list_all (\<lambda>c. c \<noteq> pad_byte) (butlast base64_table)"
  by code_simp+

lemma length_base64_table: "length base64_table = 65"
  by (simp add: base64_table_def)

lemma t64_inverse:
  assumes "v \<in> set (sextets a b c)"
  shows "base64_reverse_table ! unat (t64 v) = int (unat v)" "t64 v \<noteq> pad_byte" "tab v = Inr (t64 v)"
proof -
  have v: "unat v < 64" using assms sextets_bound by blast
  then have n: "butlast base64_table ! unat v = t64 v" "unat v < length (butlast base64_table)"
    by (simp_all add: t64_def nth_butlast length_base64_table)
  from arg_cong [OF table_inverse(1), of "\<lambda>xs. xs ! unat v"] v n
  show "base64_reverse_table ! unat (t64 v) = int (unat v)" by simp
  from table_inverse(2) n show "t64 v \<noteq> pad_byte" by (auto simp: list_all_length)
  show "tab v = Inr (t64 v)" using v by (simp add: tab_def t64_def length_base64_table)
qed

lemma tab_vals:
  "tab (drop_bit 2 a) = Inr (t64 (drop_bit 2 a))"
  "tab (push_bit 4 (a AND 3) OR drop_bit 4 b) = Inr (t64 (push_bit 4 (a AND 3) OR drop_bit 4 b))"
  "tab (push_bit 2 (b AND 15) OR drop_bit 6 c) = Inr (t64 (push_bit 2 (b AND 15) OR drop_bit 6 c))"
  "tab (c AND 63) = Inr (t64 (c AND 63))"
  "tab (push_bit 4 (a AND 3)) = Inr (t64 (push_bit 4 (a AND 3)))"
  "tab (push_bit 2 (b AND 15)) = Inr (t64 (push_bit 2 (b AND 15)))"
  using t64_inverse(3) [of _ a b c] t64_inverse(3) [of _ a 0 0] t64_inverse(3) [of _ a b 0] by (simp_all add: sextets_def sum_or)

lemma encode_full_tail:
  "drop cur src = bs \<Longrightarrow> p + length (text64 t64 bs) \<le> length outbuf \<Longrightarrow>
    bindr (encode_full src cur (length bs) outbuf p) (\<lambda>(cur, len, outbuf, p). encode_tail src cur len outbuf p) =
      Inr (take p outbuf @ text64 t64 bs @ drop (p + length (text64 t64 bs)) outbuf, p + length (text64 t64 bs))"
proof (induction bs arbitrary: cur p outbuf rule: length_induct)
  case (1 bs)
  have d: "drop (cur + k) src = drop k bs" for k using 1(2) by (metis add.commute drop_drop)
  show ?case
  proof (cases bs rule: group_cases)
    case 1
    then show ?thesis by (simp add: encode_full.simps [of src] encode_tail_def)
  next
    case (2 a)
    with 1(2,3) show ?thesis
      by (simp add: encode_full.simps [of src] encode_tail_def mem_get_drop tab_vals sextets_def sum_or Suc4)
  next
    case (3 a b)
    with 1(2,3) d [of 1] show ?thesis
      by (simp add: encode_full.simps [of src] encode_tail_def mem_get_drop tab_vals sextets_def sum_or Suc4)
  next
    case (4 a b c cs)
    let ?o = "take p outbuf @ map t64 (sextets a b c) @ drop (p + 4) outbuf"
    have l: "length (map t64 (sextets a b c)) = 4" by (simp add: sextets_def)
    have "encode_full src cur (length bs) outbuf p = encode_full src (cur + 3) (length cs) ?o (p + 4)"
      using 1(2,3) 4 d [of 1] d [of 2] l
      by (simp add: encode_full.simps [of src cur] mem_get_drop tab_vals sum_or sextets_def Suc4)
    moreover have "bindr (encode_full src (cur + 3) (length cs) ?o (p + 4)) (\<lambda>(cur, len, outbuf, p). encode_tail src cur len outbuf p) =
      Inr (take (p + 4) ?o @ text64 t64 cs @ drop (p + 4 + length (text64 t64 cs)) ?o, p + 4 + length (text64 t64 cs))"
      using 1(1,3) 4 d [of 3] l by (intro 1(1) [rule_format]) simp_all
    moreover have "take (p + 4) ?o = take p outbuf @ map t64 (sextets a b c)" using 1(3) 4 l by simp
    moreover have "drop (p + 4 + length (text64 t64 cs)) ?o = drop (p + length (text64 t64 bs)) outbuf" using 1(3) 4 l by (simp add: ac_simps)
    ultimately show ?thesis using 4 l by (simp add: add.assoc)
  qed
qed

lemma Base64_encode_spec:
  assumes "length (text64 t64 bs) \<le> 2147483647" "length (text64 t64 bs) \<le> outlen" "outlen \<le> length outbuf"
  shows "Base64_encode bs (length bs) outbuf outlen =
    Inr (True, text64 t64 bs @ drop (length (text64 t64 bs)) outbuf, length (text64 t64 bs))"
proof -
  have "bindr (encode_full bs 0 (length bs) outbuf 0) (\<lambda>(cur, len, outbuf, p). bindr (encode_tail bs cur len outbuf p) (\<lambda>(outbuf, p). Inr (True, outbuf, p))) =
    bindr (bindr (encode_full bs 0 (length bs) outbuf 0) (\<lambda>(cur, len, outbuf, p). encode_tail bs cur len outbuf p)) (\<lambda>(outbuf, p). Inr (True, outbuf, p))"
    by (cases "encode_full bs 0 (length bs) outbuf 0") auto
  moreover have "(length bs + 2) div 3 * 4 \<le> 2147483647" using assms(1) by (simp only: length_text64)
  then have "size_t (int (size_t (int (length bs) + 2) div 3 * 4)) = (length bs + 2) div 3 * 4" by (simp add: nat_add_distrib)
  ultimately show ?thesis using assms encode_full_tail [of 0 bs bs 0 outbuf]
    by (simp only: Base64_encode_def) (simp add: length_text64 split_def)
qed

section \<open>Decoding\<close>

lemma mem_at [simp]:
  "mem_get (pre @ x # post) (length pre) = Inr x"
  "mem_write (pre @ x # post) (length pre) [y] = Inr (pre @ y # post)"
  "mem_write (pre @ x # x' # post) (Suc (length pre)) [y] = Inr (pre @ x # y # post)"
  by (simp_all add: mem_get_def mem_write_def)

lemma low_bits: "push_bit 4 (x AND 15) = push_bit 4 x" "push_bit 6 (y AND 3) = push_bit 6 y" for x y :: byte
  by (auto intro!: byte_eqI simp: masks bit_simps)

lemma decode_char:
  assumes "v \<in> set (sextets a b c)" "drop cur enc = t64 v # ts" "int i < INT_MAX"
  shows "decode_loop (Suc n) enc cur ch i j res =
    bindr (decode_switch i v res j) (\<lambda>(res, j). decode_loop n enc (cur + 1) (int (unat v)) (i + 1) j res)"
  using t64_inverse [OF assms(1)] mem_get_drop [OF assms(2)] assms(3) by (simp add: Let_def int_inc_def)

text \<open>The first two characters of a group, and the next two, at the position of the output.\<close>

lemma decode_two:
  assumes s: "sextets a b c = [w, x, y, z]" and d: "drop cur enc = t64 w # t64 x # ts" and i: "i mod 4 = 0" "int i + 1 < INT_MAX"
  shows "decode_loop (Suc (Suc n)) enc cur ch i (length pre) (pre @ r # r' # post) =
    decode_loop n enc (cur + 2) (int (unat x)) (i + 2) (Suc (length pre)) (pre @ a # push_bit 4 x # post)"
proof -
  have v: "w \<in> set (sextets a b c)" "x \<in> set (sextets a b c)" by (simp_all add: s)
  have d2: "drop (cur + 1) enc = t64 x # ts" using d by (metis drop_Suc drop_drop list.sel(3) plus_1_eq_Suc tl_drop drop0)
  have "Suc i mod 4 = 1" using i(1) by presburger
  with i show ?thesis
    using decode_char [OF v(1) d, of i "Suc n" ch "length pre"] decode_char [OF v(2) d2, of "Suc i" n "int (unat w)" "length pre"]
    by (simp add: decode_switch_def put_or_def sextets_join [OF s] low_bits)
qed

lemma decode_third:
  assumes s: "sextets a b c = [w, x, y, z]" and d: "drop cur enc = t64 y # ts" and i: "i mod 4 = 2" "int i < INT_MAX"
  shows "decode_loop (Suc n) enc cur ch i (length pre) (pre @ push_bit 4 x # r # post) =
    decode_loop n enc (cur + 1) (int (unat y)) (i + 1) (Suc (length pre)) (pre @ b # push_bit 6 y # post)"
proof -
  have v: "y \<in> set (sextets a b c)" by (simp add: s)
  show ?thesis using decode_char [OF v d i(2), of n ch "length pre"] i(1)
    by (simp add: decode_switch_def put_or_def sextets_join [OF s] low_bits)
qed

lemma decode_fourth:
  assumes s: "sextets a b c = [w, x, y, z]" and d: "drop cur enc = t64 z # ts" and i: "i mod 4 = 3" "int i < INT_MAX"
  shows "decode_loop (Suc n) enc cur ch i (length pre) (pre @ push_bit 6 y # post) =
    decode_loop n enc (cur + 1) (int (unat z)) (i + 1) (Suc (length pre)) (pre @ c # post)"
proof -
  have v: "z \<in> set (sextets a b c)" by (simp add: s)
  show ?thesis using decode_char [OF v d i(2), of n ch "length pre"] i(1)
    by (simp add: decode_switch_def put_or_def sextets_join [OF s])
qed

lemma decode_full:
  assumes s: "sextets a b c = [w, x, y, z]" and d: "drop cur enc = map t64 [w, x, y, z] @ ts" and i: "i mod 4 = 0" "int i + 3 < INT_MAX"
  shows "decode_loop (4 + n) enc cur ch i (length pre) (pre @ r0 # r1 # r2 # post) =
    decode_loop n enc (cur + 4) (int (unat z)) (i + 4) (length pre + 3) (pre @ a # b # c # post)"
proof -
  have d': "drop cur enc = t64 w # t64 x # t64 y # t64 z # ts" using d by simp
  have d2: "drop (cur + 2) enc = t64 y # t64 z # ts" "drop (cur + 3) enc = t64 z # ts"
    using drop_drop_append [of cur enc "[t64 w, t64 x]"] drop_drop_append [of cur enc "[t64 w, t64 x, t64 y]"] d' by (simp_all add: eval_nat_numeral)
  have m: "(i + 2) mod 4 = 2" "(i + 3) mod 4 = 3" using i(1) by presburger+
  have b: "int i + 1 < INT_MAX" "int (i + 2) < INT_MAX" "int (i + 3) < INT_MAX" using i(2) by simp_all
  show ?thesis
    using decode_two [OF s d' i(1) b(1), of "Suc (Suc n)" ch pre r0 r1 "r2 # post"] decode_third [OF s d2(1) m(1) b(2), of "Suc n" "int (unat x)" "pre @ [a]" r2 post]
      decode_fourth [OF s d2(2) m(2) b(3), of n "int (unat y)" "pre @ [a, b]" post]
    by (simp add: eval_nat_numeral)
qed

lemma Suc3: "Suc (Suc (Suc j)) = j + 3"
  by simp

lemma three_more: "length xs = 3 + n \<Longrightarrow> \<exists>a b c ys. xs = a # b # c # ys \<and> length ys = n"
  by (cases xs rule: group_cases) auto

lemma decode_text:
  "drop cur enc = text64 t64 bs \<Longrightarrow> i mod 4 = 0 \<Longrightarrow> int i + int (length (text64 t64 bs)) \<le> INT_MAX \<Longrightarrow> length room = (length bs + 2) div 3 * 3 \<Longrightarrow>
    \<exists>ch' i' rest. decode_loop (length (text64 t64 bs)) enc cur ch i (length pre) (pre @ room @ post) =
        Inr (Some (ch', i', length pre + length bs), pre @ bs @ rest) \<and> length (bs @ rest) = length (room @ post) \<and>
      i' mod 4 = (if length bs mod 3 = 0 then 0 else length bs mod 3 + 1)"
proof (induction bs arbitrary: cur i ch pre room rule: length_induct)
  case (1 bs)
  note p = 1(3,5) and b = 1(4)
  show ?case
  proof (cases bs rule: group_cases)
    case 1
    with p show ?thesis by auto
  next
    case (2 a)
    obtain w x y z where s: "sextets a 0 0 = [w, x, y, z]" by (simp add: sextets_def)
    with 1(2) 2 have d: "drop cur enc = t64 w # t64 x # [pad_byte, pad_byte]" by simp
    then have d2: "drop (cur + 2) enc = [pad_byte, pad_byte]" "drop (Suc (cur + 2)) enc = [pad_byte]"
      using drop_drop_append [of cur enc "[t64 w, t64 x]"] drop_drop_append [of cur enc "[t64 w, t64 x, pad_byte]"] by simp_all
    from 1(5) 2 obtain r0 r1 r2 where room: "room = [r0, r1, r2]" using three_more [of room 0] by auto
    have "decode_loop (length (text64 t64 bs)) enc cur ch i (length pre) (pre @ room @ post) =
        Inr (Some (61, i + 2, length pre + 1), pre @ [a] @ push_bit 4 x # r2 # post)"
      using decode_two [OF s d 1(3), of "Suc (Suc 0)" ch pre r0 r1 "r2 # post"] b 2 s mem_get_drop [OF d2(1)] mem_get_drop [OF d2(2)] room by simp
    moreover have "(i + 2) mod 4 = 2" using 1(3) by presburger
    ultimately show ?thesis using 2 room by auto
  next
    case (3 a b)
    obtain w x y z where s: "sextets a b 0 = [w, x, y, z]" by (simp add: sextets_def)
    with 1(2) 3 have d: "drop cur enc = t64 w # t64 x # [t64 y, pad_byte]" by simp
    then have d2: "drop (cur + 2) enc = t64 y # [pad_byte]" "drop (cur + 3) enc = [pad_byte]"
      using drop_drop_append [of cur enc "[t64 w, t64 x]"] drop_drop_append [of cur enc "[t64 w, t64 x, t64 y]"] by (simp_all add: eval_nat_numeral)
    from 1(5) 3 obtain r0 r1 r2 where room: "room = [r0, r1, r2]" using three_more [of room 0] by auto
    have m: "(i + 2) mod 4 = 2" "(i + 3) mod 4 = 3" using 1(3) by presburger+
    have "decode_loop (length (text64 t64 bs)) enc cur ch i (length pre) (pre @ room @ post) =
        Inr (Some (61, i + 3, length pre + 2), pre @ [a, b] @ push_bit 6 y # post)"
      using decode_two [OF s d 1(3), of "Suc (Suc 0)" ch pre r0 r1 "r2 # post"] decode_third [OF s d2(1) m(1), of "Suc 0" "int (unat x)" "pre @ [a]" r2 post]
        b 3 s mem_get_drop [OF d2(2)] room by (simp add: eval_nat_numeral)
    with m show ?thesis using 3 room by auto
  next
    case (4 a b c cs)
    obtain w x y z where s: "sextets a b c = [w, x, y, z]" by (simp add: sextets_def)
    have d: "drop cur enc = map t64 [w, x, y, z] @ text64 t64 cs" using 1(2) 4 s by simp
    then have d2: "drop (cur + 4) enc = text64 t64 cs" using drop_drop_append [OF d] by (simp add: Suc4)
    have "length room = 3 + (length cs + 2) div 3 * 3" using 1(5) unfolding 4 by simp presburger
    then obtain r0 r1 r2 room' where room: "room = r0 # r1 # r2 # room'" "length room' = (length cs + 2) div 3 * 3"
      using three_more by blast
    have m: "(i + 4) mod 4 = 0" "int i + 3 < INT_MAX" "int (i + 4) + int (length (text64 t64 cs)) \<le> INT_MAX" using 1(3) b 4 s by simp_all
    from 1(1) [rule_format, of cs "cur + 4" "i + 4" room' "int (unat z)" "pre @ [a, b, c]"] 4 d2 m room(2) obtain ch' i' rest where
      t: "decode_loop (length (text64 t64 cs)) enc (cur + 4) (int (unat z)) (i + 4) (length pre + 3) (pre @ a # b # c # room' @ post) =
        Inr (Some (ch', i', length pre + length bs), pre @ bs @ rest)" "length (cs @ rest) = length (room' @ post)"
      "i' mod 4 = (if length cs mod 3 = 0 then 0 else length cs mod 3 + 1)" by (auto simp: ac_simps Suc3)
    have l: "length (text64 t64 bs) = 4 + length (text64 t64 cs)" "length bs mod 3 = length cs mod 3" using 4 s by simp_all
    have "decode_loop (length (text64 t64 bs)) enc cur ch i (length pre) (pre @ room @ post) = Inr (Some (ch', i', length pre + length bs), pre @ bs @ rest)"
      unfolding l(1) using decode_full [OF s d 1(3) m(2), of "length (text64 t64 cs)" ch pre r0 r1 r2 "room' @ post"] t(1) room(1)
      by (simp del: decode_loop.simps)
    moreover have "length (bs @ rest) = length (room @ post)" using t(2) 4 room(1) by simp
    ultimately show ?thesis unfolding l(2) using t(3) by blast
  qed
qed

section \<open>Properties\<close>

text \<open>C23: with buffers of the sizes the functions ask for, \<open>Base64::encode\<close> and \<open>Base64::decode\<close> succeed, stay inside the buffers, and decoding
  the encoded bytes gives exactly the original bytes and their number, for arbitrary bytes as long as the encoded text has at most
  2147483647 characters; beyond, the counters of the decoder overflow.\<close>

theorem Base64_roundtrip:
  assumes "(length bs + 2) div 3 * 4 \<le> 2147483647" "(length bs + 2) div 3 * 4 \<le> outlen" "outlen \<le> length outbuf" "(length bs + 2) div 3 * 3 \<le> declen" "declen \<le> length decbuf"
  shows "\<exists>t enc dec. Base64_encode bs (length bs) outbuf outlen = Inr (True, enc, length t) \<and> take (length t) enc = t \<and>
    length t = (length bs + 2) div 3 * 4 \<and> length enc = length outbuf \<and>
    Base64_decode t (length t) decbuf declen = Inr (True, dec, length bs) \<and> take (length bs) dec = bs \<and> length dec = length decbuf"
proof -
  let ?t = "text64 t64 bs" and ?n = "(length bs + 2) div 3"
  have l: "length ?t = ?n * 4" by (rule length_text64)
  have "Base64_encode bs (length bs) outbuf outlen = Inr (True, ?t @ drop (length ?t) outbuf, length ?t)"
    using assms(2,3) l assms(1) by (intro Base64_encode_spec) simp_all
  moreover obtain ch i rest where d: "decode_loop (length ?t) ?t 0 0 0 0 decbuf = Inr (Some (ch, i, length bs), bs @ rest)"
    "length (bs @ rest) = length decbuf" "i mod 4 = (if length bs mod 3 = 0 then 0 else length bs mod 3 + 1)"
    using decode_text [of 0 ?t bs 0 "take (?n * 3) decbuf" 0 "[]" "drop (?n * 3) decbuf"] assms(1,4,5) l by (auto simp: INT_MAX_def)
  have n: "size_t (int (length ?t) + int (size_t (int (push_bit 1 (length ?t))))) div 4 = ?n * 3" using assms(1) unfolding l by (simp add: push_bit_eq_mult)
  have j: "length bs \<le> ?n * 3" "length bs mod 3 = 1 \<longrightarrow> length bs + 1 < ?n * 3" "length bs mod 3 = 2 \<longrightarrow> length bs < ?n * 3" by presburger+
  let ?pad = "if ch = 61 \<and> i mod 4 = 2 then mem_write (bs @ rest) (length bs + 1) [0]
    else if ch = 61 \<and> i mod 4 = 3 then mem_write (bs @ rest) (length bs) [0] else Inr (bs @ rest)"
  have "length bs mod 3 = 0 \<or> length bs mod 3 = 1 \<or> length bs mod 3 = 2" by presburger
  then have "\<exists>dec. ?pad = Inr dec \<and> take (length bs) dec = bs \<and> length dec = length decbuf"
    using d(2,3) j assms(4,5) by (cases "ch = 61"; elim disjE) (auto simp: mem_write_def)
  then obtain dec where "?pad = Inr dec" "take (length bs) dec = bs" "length dec = length decbuf"
    by blast
  moreover from this have "Base64_decode ?t (length ?t) decbuf declen = Inr (True, dec, length bs)"
    using d(1,3) assms(4) j(1) unfolding Base64_decode_def n by (auto simp: check_def)
  ultimately show ?thesis using l assms(2,3)
    by (intro exI [of _ ?t] exI [of _ "?t @ drop (length ?t) outbuf"] exI [of _ dec]) simp
qed

theorem Base64_roundtrip_witness:
  "\<exists>enc dec. Base64_encode [0, 255] 2 (replicate 4 0) 4 = Inr (True, enc, 4) \<and> Base64_decode enc 4 (replicate 3 0) 3 = Inr (True, dec, 2) \<and> take 2 dec = [0, 255]"
  using Base64_roundtrip [of "[0, 255]" 4 "replicate 4 0" 3 "replicate 3 0"] by (auto simp: numeral_2_eq_2)

text \<open>for text without padding the size check of \<open>Base64::decode\<close> is one byte too weak: for every text of two characters of the alphabet a
  buffer of one byte passes the check, and the decoder writes behind its end.\<close>

theorem Base64_decode_overruns:
  fixes v w :: byte
  assumes "unat v < 64" "unat w < 64"
  shows "Base64_decode [base64_table ! unat v, base64_table ! unat w] 2 [b] 1 = Inl OutOfBounds"
proof -
  have s: "\<exists>a b c. u \<in> set (sextets a b c)" if "unat u < 64" for u :: byte
  proof -
    have "unat (u AND 63) = unat u" using that by (simp add: masks unsigned_take_bit_eq take_bit_nat_eq_self flip: take_bit_eq_mask)
    then have "u AND 63 = u" by (rule unsigned_word_eqI)
    then have "u \<in> set (sextets 0 0 u)" by (simp add: sextets_def)
    then show ?thesis by blast
  qed
  from s [OF assms(1)] s [OF assms(2)] obtain x y z x' y' z' where m: "v \<in> set (sextets x y z)" "w \<in> set (sextets x' y' z')" by blast
  have "decode_loop (Suc (Suc 0)) [t64 v, t64 w] 0 0 0 0 [b] = decode_loop (Suc 0) [t64 v, t64 w] 1 (int (unat v)) 1 0 [push_bit 2 v]"
    using decode_char [OF m(1), of 0 "[t64 v, t64 w]" "[t64 w]" 0 "Suc 0" 0 0 "[b]"] by (simp add: decode_switch_def mem_write_def INT_MAX_def del: decode_loop.simps)
  also have "\<dots> = Inl OutOfBounds"
    using decode_char [OF m(2), of 1 "[t64 v, t64 w]" "[]" 1 0 "int (unat v)" 0 "[push_bit 2 v]"]
    by (simp add: decode_switch_def put_or_def mem_get_def mem_write_def INT_MAX_def del: decode_loop.simps)
  finally show ?thesis by (simp add: Base64_decode_def t64_def numeral_2_eq_2 del: decode_loop.simps)
qed

theorem Base64_decode_overruns_witness:
  "Base64_decode [base64_table ! 16, base64_table ! 16] 2 [0] 1 = Inl OutOfBounds"
  using Base64_decode_overruns [of "16 :: byte" "16 :: byte" 0] by simp

end
