(* ===== verification/WordBytes.thy ===== *)
theory WordBytes
  imports Prelude
begin

text \<open>
  Bytes and words, as the hash functions and checksums use them: a word read from memory is put together from its
  bytes, lowest first.
\<close>

unbundle bit_operations_syntax

fun le_word :: "8 word list \<Rightarrow> 'a::len word" where
  "le_word [] = 0"
| "le_word (b # bs) = ucast b XOR push_bit 8 (le_word bs)"

lemma xor_cancel: "a XOR u = a XOR v \<Longrightarrow> u = v" for a u v :: "'a::len word"
  by (metis xor.assoc xor_self_eq xor.left_neutral)

lemma le_word_bound: "8 * length bs \<le> n \<Longrightarrow> \<not> bit (le_word bs :: 'a::len word) n"
  by (induction bs arbitrary: n) (auto simp: bit_simps dest: bit_imp_le_length)

lemma bit_le_word_Cons:
  assumes "n < LENGTH('a)"
  shows "bit (le_word (c # cs) :: 'a::len word) n = (if n < 8 then bit c n else bit (le_word cs :: 'a word) (n - 8))"
  using assms by (auto simp: bit_simps dest: bit_imp_le_length)

lemma le_word_inj:
  "length as = length bs \<Longrightarrow> 8 * length as \<le> LENGTH('a) \<Longrightarrow> (le_word as :: 'a::len word) = le_word bs \<Longrightarrow> as = bs"
proof (induction as bs rule: list_induct2)
  case (Cons a as b bs)
  have w: "8 + 8 * length as \<le> LENGTH('a)" using Cons.prems(1) by simp
  have "a = b"
  proof (rule bit_word_eqI)
    fix n assume n: "n < LENGTH(8)"
    with w have "n < LENGTH('a)" by simp
    from bit_le_word_Cons [OF this, of a as] bit_le_word_Cons [OF this, of b bs] n Cons.prems(2) show "bit a n = bit b n" by simp
  qed
  moreover have "(le_word as :: 'a word) = le_word bs"
  proof (rule bit_word_eqI)
    fix n assume n: "n < LENGTH('a)"
    show "bit (le_word as :: 'a word) n = bit (le_word bs :: 'a word) n"
    proof (cases "n + 8 < LENGTH('a)")
      case True
      from bit_le_word_Cons [OF True, of a as] bit_le_word_Cons [OF True, of b bs] Cons.prems(2) show ?thesis by simp
    next
      case False
      with w Cons.hyps le_word_bound [of as n, where ?'a = 'a] le_word_bound [of bs n, where ?'a = 'a] show ?thesis by simp
    qed
  qed
  ultimately show ?case using Cons by simp
qed simp

end
