(* ===== verification/Checksum.thy ===== *)
theory Checksum
  imports WordBytes
begin

text \<open>
  The checksums of \<open>util/crc\<close>: \<open>crc32.cc\<close>, which fills its table at the first call, and \<open>crc64.c\<close> with its table in the source.
  A reference definition processes one bit at a time; what both have in common is proved in the locale of a
  reflected polynomial with a constant term.
\<close>

unbundle bit_operations_syntax

section \<open>\<open>crc32.cc\<close>\<close>

text \<open>The inner loop of \<open>init_crc_table\<close>: a step for one bit, eight of them.\<close>

definition crc_bit :: "'a::len word \<Rightarrow> 'a word \<Rightarrow> 'a word" where
  "crc_bit poly c = (if c AND 1 \<noteq> 0 then poly XOR drop_bit 1 c else drop_bit 1 c)"

definition init_crc_table :: "32 word list" where
  "init_crc_table = map (\<lambda>i. (crc_bit 0xedb88320 ^^ 8) (of_nat i)) [0..<256]"

text \<open>The static state: whether the table is still to be filled, and the table.\<close>

record Crc32 =
  init_table :: bool
  crc_table :: "32 word list"

definition Crc32_start :: Crc32 where
  "Crc32_start = \<lparr>init_table = True, crc_table = replicate 256 0\<rparr>"

fun crc32_loop :: "32 word list \<Rightarrow> 8 word list \<Rightarrow> nat \<Rightarrow> nat \<Rightarrow> 32 word \<Rightarrow> (32 word) res" where
  "crc32_loop tab buffer i 0 crc = Inr crc"
| "crc32_loop tab buffer i (Suc n) crc =
     bindr (mem_get buffer i) (\<lambda>b.
     bindr (mem_get tab (unat ((crc XOR ucast b) AND 0xff))) (\<lambda>t. crc32_loop tab buffer (Suc i) n (t XOR drop_bit 8 crc)))"

definition crc32 :: "Crc32 \<Rightarrow> 8 word list \<Rightarrow> 32 word \<Rightarrow> 32 word \<Rightarrow> (32 word \<times> Crc32) res" where
  "crc32 s buffer n crc =
     (let s = (if init_table s then s\<lparr>crc_table := init_crc_table, init_table := False\<rparr> else s) in
      bindr (crc32_loop (crc_table s) buffer 0 (unat n) crc) (\<lambda>crc. Inr (crc, s)))"

section \<open>\<open>crc64.c\<close>\<close>

definition crc64_tab :: "64 word list" where
  "crc64_tab =
     [0x0000000000000000, 0x7ad870c830358979, 0xf5b0e190606b12f2, 0x8f689158505e9b8b,
      0xc038e5739841b68f, 0xbae095bba8743ff6, 0x358804e3f82aa47d, 0x4f50742bc81f2d04,
      0xab28ecb46814fe75, 0xd1f09c7c5821770c, 0x5e980d24087fec87, 0x24407dec384a65fe,
      0x6b1009c7f05548fa, 0x11c8790fc060c183, 0x9ea0e857903e5a08, 0xe478989fa00bd371,
      0x7d08ff3b88be6f81, 0x07d08ff3b88be6f8, 0x88b81eabe8d57d73, 0xf2606e63d8e0f40a,
      0xbd301a4810ffd90e, 0xc7e86a8020ca5077, 0x4880fbd87094cbfc, 0x32588b1040a14285,
      0xd620138fe0aa91f4, 0xacf86347d09f188d, 0x2390f21f80c18306, 0x594882d7b0f40a7f,
      0x1618f6fc78eb277b, 0x6cc0863448deae02, 0xe3a8176c18803589, 0x997067a428b5bcf0,
      0xfa11fe77117cdf02, 0x80c98ebf2149567b, 0x0fa11fe77117cdf0, 0x75796f2f41224489,
      0x3a291b04893d698d, 0x40f16bccb908e0f4, 0xcf99fa94e9567b7f, 0xb5418a5cd963f206,
      0x513912c379682177, 0x2be1620b495da80e, 0xa489f35319033385, 0xde51839b2936bafc,
      0x9101f7b0e12997f8, 0xebd98778d11c1e81, 0x64b116208142850a, 0x1e6966e8b1770c73,
      0x8719014c99c2b083, 0xfdc17184a9f739fa, 0x72a9e0dcf9a9a271, 0x08719014c99c2b08,
      0x4721e43f0183060c, 0x3df994f731b68f75, 0xb29105af61e814fe, 0xc849756751dd9d87,
      0x2c31edf8f1d64ef6, 0x56e99d30c1e3c78f, 0xd9810c6891bd5c04, 0xa3597ca0a188d57d,
      0xec09088b6997f879, 0x96d1784359a27100, 0x19b9e91b09fcea8b, 0x636199d339c963f2,
      0xdf7adabd7a6e2d6f, 0xa5a2aa754a5ba416, 0x2aca3b2d1a053f9d, 0x50124be52a30b6e4,
      0x1f423fcee22f9be0, 0x659a4f06d21a1299, 0xeaf2de5e82448912, 0x902aae96b271006b,
      0x74523609127ad31a, 0x0e8a46c1224f5a63, 0x81e2d7997211c1e8, 0xfb3aa75142244891,
      0xb46ad37a8a3b6595, 0xceb2a3b2ba0eecec, 0x41da32eaea507767, 0x3b024222da65fe1e,
      0xa2722586f2d042ee, 0xd8aa554ec2e5cb97, 0x57c2c41692bb501c, 0x2d1ab4dea28ed965,
      0x624ac0f56a91f461, 0x1892b03d5aa47d18, 0x97fa21650afae693, 0xed2251ad3acf6fea,
      0x095ac9329ac4bc9b, 0x7382b9faaaf135e2, 0xfcea28a2faafae69, 0x8632586aca9a2710,
      0xc9622c4102850a14, 0xb3ba5c8932b0836d, 0x3cd2cdd162ee18e6, 0x460abd1952db919f,
      0x256b24ca6b12f26d, 0x5fb354025b277b14, 0xd0dbc55a0b79e09f, 0xaa03b5923b4c69e6,
      0xe553c1b9f35344e2, 0x9f8bb171c366cd9b, 0x10e3202993385610, 0x6a3b50e1a30ddf69,
      0x8e43c87e03060c18, 0xf49bb8b633338561, 0x7bf329ee636d1eea, 0x012b592653589793,
      0x4e7b2d0d9b47ba97, 0x34a35dc5ab7233ee, 0xbbcbcc9dfb2ca865, 0xc113bc55cb19211c,
      0x5863dbf1e3ac9dec, 0x22bbab39d3991495, 0xadd33a6183c78f1e, 0xd70b4aa9b3f20667,
      0x985b3e827bed2b63, 0xe2834e4a4bd8a21a, 0x6debdf121b863991, 0x1733afda2bb3b0e8,
      0xf34b37458bb86399, 0x8993478dbb8deae0, 0x06fbd6d5ebd3716b, 0x7c23a61ddbe6f812,
      0x3373d23613f9d516, 0x49aba2fe23cc5c6f, 0xc6c333a67392c7e4, 0xbc1b436e43a74e9d,
      0x95ac9329ac4bc9b5, 0xef74e3e19c7e40cc, 0x601c72b9cc20db47, 0x1ac40271fc15523e,
      0x5594765a340a7f3a, 0x2f4c0692043ff643, 0xa02497ca54616dc8, 0xdafce7026454e4b1,
      0x3e847f9dc45f37c0, 0x445c0f55f46abeb9, 0xcb349e0da4342532, 0xb1eceec59401ac4b,
      0xfebc9aee5c1e814f, 0x8464ea266c2b0836, 0x0b0c7b7e3c7593bd, 0x71d40bb60c401ac4,
      0xe8a46c1224f5a634, 0x927c1cda14c02f4d, 0x1d148d82449eb4c6, 0x67ccfd4a74ab3dbf,
      0x289c8961bcb410bb, 0x5244f9a98c8199c2, 0xdd2c68f1dcdf0249, 0xa7f41839ecea8b30,
      0x438c80a64ce15841, 0x3954f06e7cd4d138, 0xb63c61362c8a4ab3, 0xcce411fe1cbfc3ca,
      0x83b465d5d4a0eece, 0xf96c151de49567b7, 0x76048445b4cbfc3c, 0x0cdcf48d84fe7545,
      0x6fbd6d5ebd3716b7, 0x15651d968d029fce, 0x9a0d8ccedd5c0445, 0xe0d5fc06ed698d3c,
      0xaf85882d2576a038, 0xd55df8e515432941, 0x5a3569bd451db2ca, 0x20ed197575283bb3,
      0xc49581ead523e8c2, 0xbe4df122e51661bb, 0x3125607ab548fa30, 0x4bfd10b2857d7349,
      0x04ad64994d625e4d, 0x7e7514517d57d734, 0xf11d85092d094cbf, 0x8bc5f5c11d3cc5c6,
      0x12b5926535897936, 0x686de2ad05bcf04f, 0xe70573f555e26bc4, 0x9ddd033d65d7e2bd,
      0xd28d7716adc8cfb9, 0xa85507de9dfd46c0, 0x273d9686cda3dd4b, 0x5de5e64efd965432,
      0xb99d7ed15d9d8743, 0xc3450e196da80e3a, 0x4c2d9f413df695b1, 0x36f5ef890dc31cc8,
      0x79a59ba2c5dc31cc, 0x037deb6af5e9b8b5, 0x8c157a32a5b7233e, 0xf6cd0afa9582aa47,
      0x4ad64994d625e4da, 0x300e395ce6106da3, 0xbf66a804b64ef628, 0xc5bed8cc867b7f51,
      0x8aeeace74e645255, 0xf036dc2f7e51db2c, 0x7f5e4d772e0f40a7, 0x05863dbf1e3ac9de,
      0xe1fea520be311aaf, 0x9b26d5e88e0493d6, 0x144e44b0de5a085d, 0x6e963478ee6f8124,
      0x21c640532670ac20, 0x5b1e309b16452559, 0xd476a1c3461bbed2, 0xaeaed10b762e37ab,
      0x37deb6af5e9b8b5b, 0x4d06c6676eae0222, 0xc26e573f3ef099a9, 0xb8b627f70ec510d0,
      0xf7e653dcc6da3dd4, 0x8d3e2314f6efb4ad, 0x0256b24ca6b12f26, 0x788ec2849684a65f,
      0x9cf65a1b368f752e, 0xe62e2ad306bafc57, 0x6946bb8b56e467dc, 0x139ecb4366d1eea5,
      0x5ccebf68aecec3a1, 0x2616cfa09efb4ad8, 0xa97e5ef8cea5d153, 0xd3a62e30fe90582a,
      0xb0c7b7e3c7593bd8, 0xca1fc72bf76cb2a1, 0x45775673a732292a, 0x3faf26bb9707a053,
      0x70ff52905f188d57, 0x0a2722586f2d042e, 0x854fb3003f739fa5, 0xff97c3c80f4616dc,
      0x1bef5b57af4dc5ad, 0x61372b9f9f784cd4, 0xee5fbac7cf26d75f, 0x9487ca0fff135e26,
      0xdbd7be24370c7322, 0xa10fceec0739fa5b, 0x2e675fb4576761d0, 0x54bf2f7c6752e8a9,
      0xcdcf48d84fe75459, 0xb71738107fd2dd20, 0x387fa9482f8c46ab, 0x42a7d9801fb9cfd2,
      0x0df7adabd7a6e2d6, 0x772fdd63e7936baf, 0xf8474c3bb7cdf024, 0x829f3cf387f8795d,
      0x66e7a46c27f3aa2c, 0x1c3fd4a417c62355, 0x935745fc4798b8de, 0xe98f353477ad31a7,
      0xa6df411fbfb21ca3, 0xdc0731d78f8795da, 0x536fa08fdfd90e51, 0x29b7d047efec8728]"

fun crc64_loop :: "8 word list \<Rightarrow> nat \<Rightarrow> nat \<Rightarrow> 64 word \<Rightarrow> (64 word) res" where
  "crc64_loop s j 0 crc = Inr crc"
| "crc64_loop s j (Suc n) crc =
     bindr (mem_get s j) (\<lambda>byte.
     bindr (mem_get crc64_tab (unat ((ucast crc :: 8 word) XOR byte))) (\<lambda>t. crc64_loop s (Suc j) n (t XOR drop_bit 8 crc)))"

definition crc64 :: "64 word \<Rightarrow> 8 word list \<Rightarrow> 64 word \<Rightarrow> (64 word) res" where
  "crc64 crc s l = crc64_loop s 0 (unat l) crc"

section \<open>Reference\<close>

text \<open>The byte is added to the low bits, then eight bits are shifted out.\<close>

definition crc_byte :: "'a::len word \<Rightarrow> 8 word \<Rightarrow> 'a word \<Rightarrow> 'a word" where
  "crc_byte poly b crc = (crc_bit poly ^^ 8) (crc XOR ucast b)"

definition crc_bits :: "'a::len word \<Rightarrow> 8 word list \<Rightarrow> 'a word \<Rightarrow> 'a word" where
  "crc_bits poly bs crc = fold (crc_byte poly) bs crc"

lemma crc_bits_append: "crc_bits poly (as @ bs) crc = crc_bits poly bs (crc_bits poly as crc)"
  by (simp add: crc_bits_def)

lemma crc_bit_odd: "crc_bit poly c = (if odd c then poly XOR drop_bit 1 c else drop_bit 1 c)"
  by (simp add: crc_bit_def and_one_eq mod_2_eq_odd)

fun doubled :: "'a::len word list \<Rightarrow> 'a word list" where
  "doubled [] = [0]"
| "doubled (p # ps) = (let t = doubled ps in t @ map (\<lambda>x. x XOR p) t)"

locale reflected_poly =
  fixes poly :: "'a::len word"
  assumes constant_term: "bit poly (LENGTH('a) - 1)" and wide: "8 < LENGTH('a)"
begin

lemma bit_linear: "crc_bit poly (x XOR y) = crc_bit poly x XOR crc_bit poly y"
  by (cases "odd x"; cases "odd y") (auto intro!: bit_word_eqI simp: crc_bit_odd bit_simps even_xor_iff)

lemma bits_linear: "(crc_bit poly ^^ n) (x XOR y) = (crc_bit poly ^^ n) x XOR (crc_bit poly ^^ n) y"
  by (induction n) (simp_all add: bit_linear)

lemma bits_zero: "(crc_bit poly ^^ n) 0 = 0"
  by (induction n) (simp_all add: crc_bit_def)

lemma bits_high: "take_bit n x = 0 \<Longrightarrow> (crc_bit poly ^^ n) x = drop_bit n x"
proof (induction n arbitrary: x)
  case (Suc n)
  have "\<not> bit (take_bit (Suc n) x) 0" by (simp add: Suc.prems)
  then have f: "crc_bit poly x = drop_bit 1 x" by (simp add: crc_bit_odd bit_take_bit_iff bit_0)
  have "take_bit n (drop_bit 1 x) = drop_bit 1 (take_bit (Suc n) x)" by (simp add: drop_bit_take_bit)
  then have "(crc_bit poly ^^ n) (drop_bit 1 x) = drop_bit n (drop_bit 1 x)" using Suc.prems by (intro Suc.IH) simp
  then show ?case by (simp add: funpow_swap1 f)
qed simp

lemma bit_inj: "crc_bit poly x = crc_bit poly y \<Longrightarrow> x = y"
proof -
  assume e: "crc_bit poly x = crc_bit poly y"
  have "bit (crc_bit poly z) (LENGTH('a) - 1) = odd z" for z
    using constant_term wide by (auto simp: crc_bit_odd bit_simps dest: bit_imp_le_length)
  then have o: "odd x = odd y" using e by metis
  from o e have d: "drop_bit 1 x = drop_bit 1 y" by (auto simp: crc_bit_odd dest: xor_cancel)
  show "x = y"
  proof (rule bit_word_eqI)
    fix n show "bit x n = bit y n"
      using o arg_cong [OF d, of "\<lambda>z. bit z (n - 1)"] by (cases n) (simp_all add: bit_0 bit_drop_bit_eq)
  qed
qed

lemma bits_inj: "(crc_bit poly ^^ n) x = (crc_bit poly ^^ n) y \<Longrightarrow> x = y"
  by (induction n) (auto dest: bit_inj)

text \<open>The entry of the table for the low byte, and the rest of the register shifted.\<close>

lemma byte_table: "crc_byte poly b crc = (crc_bit poly ^^ 8) ((crc XOR ucast b) AND 0xff) XOR drop_bit 8 crc"
proof -
  let ?z = "crc XOR ucast b"
  have m: "(0xff :: 'a word) = mask 8" by (simp add: mask_numeral)
  have z: "?z = (?z AND 0xff) XOR push_bit 8 (drop_bit 8 ?z)"
    unfolding m by (rule bit_word_eqI) (auto simp: bit_simps)
  have h: "take_bit 8 (push_bit 8 (drop_bit 8 ?z)) = 0" by (rule bit_word_eqI) (auto simp: bit_simps)
  have d: "drop_bit 8 (push_bit 8 (drop_bit 8 ?z)) = drop_bit 8 crc"
    by (rule bit_word_eqI) (auto simp: bit_simps dest: bit_imp_le_length)
  show ?thesis unfolding crc_byte_def by (subst z) (simp only: bits_linear bits_high [OF h] d)
qed

text \<open>The table is determined by its entries for single bits.\<close>

lemma table_power:
  assumes "k < LENGTH('a)" "k \<le> n"
  shows "(crc_bit poly ^^ n) (2 ^ k) = (crc_bit poly ^^ (n - k)) 1"
proof -
  have "take_bit k (2 ^ k :: 'a word) = 0" by (rule bit_word_eqI) (auto simp: bit_simps)
  moreover have "drop_bit k (2 ^ k :: 'a word) = 1" using assms(1) by (intro bit_word_eqI) (auto simp: bit_simps bit_1_iff)
  ultimately have "(crc_bit poly ^^ k) (2 ^ k) = 1" using bits_high [of k "2 ^ k"] by simp
  then show ?thesis using funpow_add [of "n - k" k "crc_bit poly"] assms(2) by simp
qed

lemma power_split: "i < 2 ^ n \<Longrightarrow> n < LENGTH('a) \<Longrightarrow> (of_nat (i + 2 ^ n) :: 'a word) = of_nat i XOR 2 ^ n"
proof -
  assume i: "i < 2 ^ n" "n < LENGTH('a)"
  have "\<not> bit i n" using i(1) by (simp add: bit_nat_def)
  then have "(of_nat i :: 'a word) AND 2 ^ n = 0" by (intro bit_word_eqI) (auto simp: bit_simps)
  then show ?thesis by (simp add: disjunctive_add_eq_xor)
qed

lemma table_doubled:
  "n < LENGTH('a) \<Longrightarrow> doubled (rev (map (\<lambda>k. (crc_bit poly ^^ 8) (2 ^ k)) [0..<n])) = map (\<lambda>i. (crc_bit poly ^^ 8) (of_nat i)) [0..<2 ^ n]"
proof (induction n)
  case (Suc n)
  have u: "[0..<2 ^ Suc n] = [0..<2 ^ n] @ map (\<lambda>i. i + 2 ^ n) [0..<2 ^ n]"
    using upt_add_eq_append [of 0 "2 ^ n" "2 ^ n"] map_add_upt [of "2 ^ n" "2 ^ n"] by (simp add: mult_2)
  have "(crc_bit poly ^^ 8) (of_nat (i + 2 ^ n)) = (crc_bit poly ^^ 8) (of_nat i) XOR (crc_bit poly ^^ 8) (2 ^ n)" if "i < 2 ^ n" for i
    using that Suc.prems power_split [of i n] by (simp add: bits_linear del: of_nat_add)
  then show ?case unfolding u using Suc by (simp add: Let_def comp_def del: of_nat_add)
qed (simp add: bits_zero)

text \<open>A few bytes, as a word; adding them at once and shifting all out is the same.\<close>

lemma crc_bits_word: "8 * length bs \<le> LENGTH('a) \<Longrightarrow> crc_bits poly bs crc = (crc_bit poly ^^ (8 * length bs)) (crc XOR le_word bs)"
proof (induction bs arbitrary: crc)
  case (Cons b bs)
  have "drop_bit 8 (push_bit 8 (le_word bs)) = (le_word bs :: 'a word)"
  proof (rule bit_word_eqI)
    fix n assume "n < LENGTH('a)"
    then show "bit (drop_bit 8 (push_bit 8 (le_word bs :: 'a word))) n = bit (le_word bs :: 'a word) n"
      using Cons.prems le_word_bound [of bs n, where ?'a = 'a] by (cases "8 * length bs \<le> n") (auto simp: bit_simps)
  qed
  moreover have "take_bit 8 (push_bit 8 (le_word bs :: 'a word)) = 0" by (rule bit_word_eqI) (auto simp: bit_simps)
  ultimately have "(crc_bit poly ^^ 8) (push_bit 8 (le_word bs)) = le_word bs" by (simp add: bits_high)
  then have "(crc_bit poly ^^ 8) (crc XOR ucast b) XOR le_word bs = (crc_bit poly ^^ 8) (crc XOR le_word (b # bs))"
    by (simp add: bits_linear xor.assoc)
  moreover have "crc_bits poly (b # bs) crc = (crc_bit poly ^^ (8 * length bs)) ((crc_bit poly ^^ 8) (crc XOR ucast b) XOR le_word bs)"
    using Cons by (simp add: crc_bits_def crc_byte_def)
  moreover have "(crc_bit poly ^^ (8 * length (b # bs))) x = (crc_bit poly ^^ (8 * length bs)) ((crc_bit poly ^^ 8) x)" for x
    by (simp add: funpow_add add.commute [of 8])
  ultimately show ?case by simp
qed (simp add: crc_bits_def)

lemma burst_detected:
  assumes "length as = length bs" "8 * length as \<le> LENGTH('a)" "as \<noteq> bs"
  shows "crc_bits poly (pre @ as @ post) crc \<noteq> crc_bits poly (pre @ bs @ post) crc"
proof
  have i: "crc_bits poly cs c = crc_bits poly cs c' \<Longrightarrow> c = c'" for cs c c'
    proof (induction cs arbitrary: c c')
    case (Cons a cs)
    then have "(crc_bit poly ^^ 8) (c XOR ucast a) = (crc_bit poly ^^ 8) (c' XOR ucast a)" by (simp add: crc_bits_def crc_byte_def)
    then have "c XOR ucast a = c' XOR ucast a" by (rule bits_inj)
    then show ?case by (metis xor.commute xor_cancel)
  qed (simp add: crc_bits_def)
  assume "crc_bits poly (pre @ as @ post) crc = crc_bits poly (pre @ bs @ post) crc"
  then have "crc_bits poly as (crc_bits poly pre crc) = crc_bits poly bs (crc_bits poly pre crc)" by (auto simp: crc_bits_append dest: i)
  then have "(le_word as :: 'a word) = le_word bs" using assms(1,2) by (auto simp: crc_bits_word dest!: bits_inj xor_cancel)
  with le_word_inj [OF assms(1,2)] assms(3) show False by simp
qed

end

interpretation p32: reflected_poly "0xedb88320 :: 32 word"
  by unfold_locales simp_all

text \<open>The polynomial of \<open>crc64.c\<close>, with its bits reversed.\<close>

interpretation p64: reflected_poly "0x95ac9329ac4bc9b5 :: 64 word"
  by unfold_locales simp_all

section \<open>The tables\<close>

definition ready :: "Crc32 \<Rightarrow> bool" where
  "ready s \<longleftrightarrow> init_table s \<or> crc_table s = init_crc_table"

lemma ready_start: "ready Crc32_start"
  by (simp add: ready_def Crc32_start_def)

lemma table32: "unat i < 256 \<Longrightarrow> mem_get init_crc_table (unat i) = Inr ((crc_bit 0xedb88320 ^^ 8) i)"
  by (simp add: init_crc_table_def)

lemma low_byte: "unat (w AND 0xff) < 256" for w :: "32 word"
proof -
  have "w AND 0xff = take_bit 8 w" by (simp add: take_bit_eq_mask mask_numeral)
  then show ?thesis using take_bit_nat_less_exp [of 8 "unat w"] by (simp add: unsigned_take_bit_eq)
qed

lemma crc32_loop_spec:
  "i + n \<le> length buffer \<Longrightarrow> crc32_loop init_crc_table buffer i n crc = Inr (crc_bits 0xedb88320 (take n (drop i buffer)) crc)"
proof (induction n arbitrary: i crc)
  case (Suc n)
  then have b: "mem_get buffer i = Inr (buffer ! i)" "take (Suc n) (drop i buffer) = buffer ! i # take n (drop (Suc i) buffer)"
    by (simp_all add: take_Suc_conv_app_nth Cons_nth_drop_Suc [symmetric])
  have "unat ((crc XOR ucast (buffer ! i)) AND 0xff) < 256" by (rule low_byte)
  then show ?case using Suc b by (simp add: table32 p32.byte_table [symmetric] crc_bits_def)
qed (simp add: crc_bits_def)

lemma crc32_spec:
  assumes "ready s" "length bs < 2 ^ 32"
  shows "\<exists>s'. crc32 s bs (of_nat (length bs)) crc = Inr (crc_bits 0xedb88320 bs crc, s') \<and> ready s'"
  using assms crc32_loop_spec [of 0 "length bs" bs crc] by (auto simp: crc32_def ready_def Let_def unsigned_of_nat take_bit_nat_eq_self)

text \<open>The entries for single bits, highest bit first: each is one step from the one before.\<close>

definition crc64_basis :: "64 word list" where
  "crc64_basis = [0x95ac9329ac4bc9b5, 0xdf7adabd7a6e2d6f, 0xfa11fe77117cdf02, 0x7d08ff3b88be6f81, 0xab28ecb46814fe75, 0xc038e5739841b68f, 0xf5b0e190606b12f2, 0x7ad870c830358979]"

lemma crc64_steps:
  "crc_bit 0x95ac9329ac4bc9b5 1 = (0x95ac9329ac4bc9b5 :: 64 word)"
  "crc_bit 0x95ac9329ac4bc9b5 0x95ac9329ac4bc9b5 = (0xdf7adabd7a6e2d6f :: 64 word)"
  "crc_bit 0x95ac9329ac4bc9b5 0xdf7adabd7a6e2d6f = (0xfa11fe77117cdf02 :: 64 word)"
  "crc_bit 0x95ac9329ac4bc9b5 0xfa11fe77117cdf02 = (0x7d08ff3b88be6f81 :: 64 word)"
  "crc_bit 0x95ac9329ac4bc9b5 0x7d08ff3b88be6f81 = (0xab28ecb46814fe75 :: 64 word)"
  "crc_bit 0x95ac9329ac4bc9b5 0xab28ecb46814fe75 = (0xc038e5739841b68f :: 64 word)"
  "crc_bit 0x95ac9329ac4bc9b5 0xc038e5739841b68f = (0xf5b0e190606b12f2 :: 64 word)"
  "crc_bit 0x95ac9329ac4bc9b5 0xf5b0e190606b12f2 = (0x7ad870c830358979 :: 64 word)"
  by (simp_all add: crc_bit_def)

lemma crc64_basis_bits: "crc64_basis = rev (map (\<lambda>k. (crc_bit 0x95ac9329ac4bc9b5 ^^ 8) (2 ^ k)) [0..<8])"
proof -
  have "rev (map (\<lambda>k. (crc_bit 0x95ac9329ac4bc9b5 ^^ 8) (2 ^ k)) [0..<8]) = rev (map (\<lambda>k. (crc_bit 0x95ac9329ac4bc9b5 ^^ (8 - k)) (1 :: 64 word)) [0..<8])"
    by (intro arg_cong [of _ _ rev] map_cong refl p64.table_power) auto
  also have "\<dots> = crc64_basis" by (simp add: upt_rec eval_nat_numeral crc64_steps crc64_basis_def)
  finally show ?thesis by simp
qed

lemma crc64_tab_doubled: "crc64_tab = doubled crc64_basis"
  by (simp add: crc64_tab_def crc64_basis_def)

lemma crc64_tab_bits: "crc64_tab = map (\<lambda>i. (crc_bit 0x95ac9329ac4bc9b5 ^^ 8) (of_nat i)) [0..<256]"
  using p64.table_doubled [of 8] by (simp add: crc64_tab_doubled crc64_basis_bits)

lemma table64: "mem_get crc64_tab (unat (b :: 8 word)) = Inr ((crc_bit 0x95ac9329ac4bc9b5 ^^ 8) (ucast b))"
  using unsigned_less [of b, where ?'a = nat] by (simp add: crc64_tab_bits mem_get_def)

lemma crc64_loop_spec:
  "i + n \<le> length s \<Longrightarrow> crc64_loop s i n crc = Inr (crc_bits 0x95ac9329ac4bc9b5 (take n (drop i s)) crc)"
proof (induction n arbitrary: i crc)
  case (Suc n)
  then have b: "mem_get s i = Inr (s ! i)" "take (Suc n) (drop i s) = s ! i # take n (drop (Suc i) s)"
    by (simp_all add: take_Suc_conv_app_nth Cons_nth_drop_Suc [symmetric])
  have "ucast ((ucast crc :: 8 word) XOR s ! i) = (crc XOR ucast (s ! i)) AND (0xff :: 64 word)"
  proof -
    have m: "(0xff :: 64 word) = mask 8" by (simp add: mask_numeral)
    have "bit (s ! i) n \<Longrightarrow> n < 8" for n using bit_imp_le_length [of "s ! i" n] by simp
    then show ?thesis unfolding m by (intro bit_word_eqI) (auto simp: bit_simps)
  qed
  then show ?case using Suc b by (simp add: table64 p64.byte_table [symmetric] crc_bits_def)
qed (simp add: crc_bits_def)

lemma crc64_spec: "length bs < 2 ^ 64 \<Longrightarrow> crc64 crc bs (of_nat (length bs)) = Inr (crc_bits 0x95ac9329ac4bc9b5 bs crc)"
  using crc64_loop_spec [of 0 "length bs" bs crc] by (simp add: crc64_def unsigned_of_nat take_bit_nat_eq_self)

section \<open>Properties\<close>

text \<open>C24: the checksums computed with the tables are those of the reference that shifts one bit at a time, for messages of any bytes:
  that of \<open>crc32\<close> from the first call on, when it fills its table, and that of \<open>crc64\<close> with all 256 numbers in the source; and a message
  may be given in parts, with the checksum of the first part as the initial value for the rest.\<close>

theorem crc_tables_bitwise:
  assumes "ready s" "length (as @ bs) < 2 ^ 32"
  shows "ready Crc32_start \<and>
    (\<exists>s' s'' c. crc32 s as (of_nat (length as)) crc = Inr (c, s') \<and> ready s' \<and>
      crc32 s' bs (of_nat (length bs)) c = Inr (crc_bits 0xedb88320 (as @ bs) crc, s'') \<and> ready s'') \<and>
    (\<exists>c. crc64 crc' as (of_nat (length as)) = Inr c \<and> crc64 c bs (of_nat (length bs)) = Inr (crc_bits 0x95ac9329ac4bc9b5 (as @ bs) crc'))"
proof -
  have l: "length as < 2 ^ 32" "length bs < 2 ^ 32" "length as < 2 ^ 64" "length bs < 2 ^ 64" using assms(2) by simp_all
  from crc32_spec [OF assms(1) l(1)] obtain s' where s': "crc32 s as (of_nat (length as)) crc = Inr (crc_bits 0xedb88320 as crc, s')" "ready s'" by blast
  from crc32_spec [OF this(2) l(2)] obtain s'' where
    "crc32 s' bs (of_nat (length bs)) (crc_bits 0xedb88320 as crc) = Inr (crc_bits 0xedb88320 (as @ bs) crc, s'')" "ready s''"
    unfolding crc_bits_append by blast
  with s' ready_start crc64_spec [OF l(3)] crc64_spec [OF l(4)] show ?thesis unfolding crc_bits_append by blast
qed

text \<open>The check value that the source gives for the digits from 1 to 9.\<close>

lemma crc64_check: "crc64 0 [49, 50, 51, 52, 53, 54, 55, 56, 57] 9 = Inr 0xe9c6d914c4b8d9ca"
  by code_simp

theorem crc_tables_bitwise_witness:
  "\<exists>s s' c. crc32 Crc32_start [1, 2] 2 0xffffffff = Inr (c, s) \<and> crc32 s [3] 1 c = Inr (crc_bits 0xedb88320 [1, 2, 3] 0xffffffff, s')"
  using crc_tables_bitwise [OF ready_start, of "[1, 2]" "[3]" "0xffffffff" 0] by auto

text \<open>C25: a corruption of a message that is confined to four consecutive bytes always changes its CRC-32, and one confined to eight
  consecutive bytes its CRC-64, wherever in the message they are and whatever the initial value.\<close>

theorem crc_detects_bursts:
  assumes "ready s" "length (pre @ as @ post) < 2 ^ 32" "length bs = length as" "as \<noteq> bs"
  shows "(length as \<le> 4 \<longrightarrow> (\<exists>c c' s1 s2. crc32 s (pre @ as @ post) (of_nat (length (pre @ as @ post))) crc = Inr (c, s1) \<and>
      crc32 s (pre @ bs @ post) (of_nat (length (pre @ bs @ post))) crc = Inr (c', s2) \<and> c \<noteq> c')) \<and>
    (length as \<le> 8 \<longrightarrow> (\<exists>c c'. crc64 crc' (pre @ as @ post) (of_nat (length (pre @ as @ post))) = Inr c \<and>
      crc64 crc' (pre @ bs @ post) (of_nat (length (pre @ bs @ post))) = Inr c' \<and> c \<noteq> c'))"
proof (intro conjI impI)
  have l: "length (pre @ bs @ post) < 2 ^ 32" "length (pre @ as @ post) < 2 ^ 64" "length (pre @ bs @ post) < 2 ^ 64" using assms(2,3) by simp_all
  show "\<exists>c c' s1 s2. crc32 s (pre @ as @ post) (of_nat (length (pre @ as @ post))) crc = Inr (c, s1) \<and>
      crc32 s (pre @ bs @ post) (of_nat (length (pre @ bs @ post))) crc = Inr (c', s2) \<and> c \<noteq> c'" if "length as \<le> 4"
    using crc32_spec [OF assms(1,2), of crc] crc32_spec [OF assms(1) l(1), of crc] p32.burst_detected [OF assms(3) [symmetric] _ assms(4), of pre post crc] that by auto
  show "\<exists>c c'. crc64 crc' (pre @ as @ post) (of_nat (length (pre @ as @ post))) = Inr c \<and>
      crc64 crc' (pre @ bs @ post) (of_nat (length (pre @ bs @ post))) = Inr c' \<and> c \<noteq> c'" if "length as \<le> 8"
    using crc64_spec [OF l(2), of crc'] crc64_spec [OF l(3), of crc'] p64.burst_detected [OF assms(3) [symmetric] _ assms(4), of pre post crc'] that by auto
qed

theorem crc_detects_bursts_witness:
  "\<exists>c c' s1 s2. crc32 Crc32_start [1, 2] 2 0 = Inr (c, s1) \<and> crc32 Crc32_start [1, 3] 2 0 = Inr (c', s2) \<and> c \<noteq> c'"
  using crc_detects_bursts [OF ready_start, of "[1]" "[2]" "[]" "[3]" 0] by simp

end
