(* ===== verification/MurmurHash.thy ===== *)
theory MurmurHash
  imports WordBytes
begin

text \<open>
  The hash functions of \<open>util/murmurhash.cc\<close>: \<open>MurmurHash64A\<close> for x86-64, and the two 32-bit functions that other targets
  select, \<open>MurmurHash2\<close> and \<open>MurmurHashNeutral2\<close>.  A key is the list of its bytes; reading a word takes its bytes lowest
  first, as the targets of the first two functions do.
\<close>

section \<open>\<open>MurmurHash64A\<close>\<close>

definition m64 :: "64 word" where "m64 = 0xc6a4a7935bd1e995"

definition mix64 :: "64 word \<Rightarrow> 64 word" where
  "mix64 k = (let k = k * m64; k = k XOR drop_bit 47 k in k * m64)"

text \<open>The loop over \<open>n\<close> words of eight bytes at \<open>pos\<close>.\<close>

fun blocks64 :: "8 word list \<Rightarrow> nat \<Rightarrow> nat \<Rightarrow> 64 word \<Rightarrow> (64 word) res" where
  "blocks64 key pos 0 h = Inr h"
| "blocks64 key pos (Suc n) h =
     bindr (mem_read key pos 8) (\<lambda>bs. blocks64 key (pos + 8) n ((h XOR mix64 (le_word bs)) * m64))"

text \<open>The cases of the switch fall through to the lower ones.\<close>

fun tail_bytes :: "8 word list \<Rightarrow> nat \<Rightarrow> nat \<Rightarrow> 'a::len word \<Rightarrow> ('a word) res" where
  "tail_bytes key pos 0 h = Inr h"
| "tail_bytes key pos (Suc k) h =
     bindr (mem_get key (pos + k)) (\<lambda>b. tail_bytes key pos k (h XOR push_bit (8 * k) (ucast b)))"

definition final64 :: "64 word \<Rightarrow> 64 word" where
  "final64 h = (let h = h XOR drop_bit 47 h; h = h * m64 in h XOR drop_bit 47 h)"

text \<open>A negative length of eight or more makes the loop run away.\<close>

definition MurmurHash64A :: "8 word list \<Rightarrow> int \<Rightarrow> 32 word \<Rightarrow> (64 word) res" where
  "MurmurHash64A key len seed =
     (if len \<le> - 8 then Inl OutOfBounds
      else
        let h = ucast seed XOR (word_of_int len * m64); n = nat (len div 8); r = nat (len mod 8) in
        bindr (blocks64 key 0 n h) (\<lambda>h.
        bindr (tail_bytes key (8 * n) r h) (\<lambda>h. Inr (final64 (if r = 0 then h else h * m64)))))"

section \<open>\<open>MurmurHash2\<close> and \<open>MurmurHashNeutral2\<close>\<close>

definition m32 :: "32 word" where "m32 = 0x5bd1e995"

definition mix32 :: "32 word \<Rightarrow> 32 word" where
  "mix32 k = (let k = k * m32; k = k XOR drop_bit 24 k in k * m32)"

definition final32 :: "32 word \<Rightarrow> 32 word" where
  "final32 h = (let h = h XOR drop_bit 13 h; h = h * m32 in h XOR drop_bit 15 h)"

text \<open>The loop \<open>while (len >= 4)\<close>: the hash, the position and the remaining length.\<close>

function words2 :: "8 word list \<Rightarrow> nat \<Rightarrow> int \<Rightarrow> 32 word \<Rightarrow> (32 word \<times> nat \<times> int) res" where
  "words2 key pos len h =
     (if 4 \<le> len then bindr (mem_read key pos 4) (\<lambda>bs. words2 key (pos + 4) (len - 4) (h * m32 XOR mix32 (le_word bs)))
      else Inr (h, pos, len))"
  by pat_completeness auto
termination
  by (relation "measure (\<lambda>(key, pos, len, h). nat len)") auto

declare words2.simps [simp del]

definition MurmurHash2 :: "8 word list \<Rightarrow> int \<Rightarrow> 32 word \<Rightarrow> (32 word) res" where
  "MurmurHash2 key len seed =
     bindr (words2 key 0 len (seed XOR word_of_int len)) (\<lambda>(h, pos, len).
     bindr (tail_bytes key pos (nat len) h) (\<lambda>h. Inr (final32 (if 0 < len then h * m32 else h))))"

text \<open>The other function puts the words together itself.\<close>

function wordsNeutral2 :: "8 word list \<Rightarrow> nat \<Rightarrow> int \<Rightarrow> 32 word \<Rightarrow> (32 word \<times> nat \<times> int) res" where
  "wordsNeutral2 key pos len h =
     (if 4 \<le> len then
        bindr (mem_get key pos) (\<lambda>a. bindr (mem_get key (pos + 1)) (\<lambda>b.
        bindr (mem_get key (pos + 2)) (\<lambda>c. bindr (mem_get key (pos + 3)) (\<lambda>d.
        let k = ucast a; k = k OR push_bit 8 (ucast b); k = k OR push_bit 16 (ucast c); k = k OR push_bit 24 (ucast d) in
        wordsNeutral2 key (pos + 4) (len - 4) (h * m32 XOR mix32 k)))))
      else Inr (h, pos, len))"
  by pat_completeness auto
termination
  by (relation "measure (\<lambda>(key, pos, len, h). nat len)") auto

declare wordsNeutral2.simps [simp del]

definition MurmurHashNeutral2 :: "8 word list \<Rightarrow> int \<Rightarrow> 32 word \<Rightarrow> (32 word) res" where
  "MurmurHashNeutral2 key len seed =
     bindr (wordsNeutral2 key 0 len (seed XOR word_of_int len)) (\<lambda>(h, pos, len).
     bindr (tail_bytes key pos (nat len) h) (\<lambda>h. Inr (final32 (if 0 < len then h * m32 else h))))"

section \<open>Injective steps\<close>

lemma m64_inverse: "m64 * 0x5f7a0ea7e59b19bd = 1"
proof -
  have "m64 * 0x5f7a0ea7e59b19bd = word_of_int (0xc6a4a7935bd1e995 * 0x5f7a0ea7e59b19bd)" unfolding m64_def by (simp only: of_int_mult of_int_numeral)
  also have "\<dots> = word_of_int 1" unfolding word_of_int_eq_iff take_bit_eq_mod by simp
  finally show ?thesis by (simp only: of_int_1)
qed

lemma m64_inj: "a * m64 = b * m64 \<Longrightarrow> a = b"
proof -
  assume "a * m64 = b * m64"
  then have "a * (m64 * 0x5f7a0ea7e59b19bd) = b * (m64 * 0x5f7a0ea7e59b19bd)" by (simp only: mult.assoc [symmetric])
  then show "a = b" by (simp only: m64_inverse mult_1_right)
qed

lemma shift_inj: "a XOR drop_bit 47 a = b XOR drop_bit 47 b \<Longrightarrow> a = b" for a b :: "64 word"
proof -
  have "(c XOR drop_bit 47 c) XOR drop_bit 47 (c XOR drop_bit 47 c) = c" for c :: "64 word"
    by (rule bit_word_eqI) (auto simp: bit_simps dest: bit_imp_le_length)
  then show "a XOR drop_bit 47 a = b XOR drop_bit 47 b \<Longrightarrow> a = b" by metis
qed

lemma mix64_inj: "mix64 a = mix64 b \<Longrightarrow> a = b"
  by (auto simp: mix64_def Let_def dest!: m64_inj shift_inj)

lemma final64_inj: "final64 a = final64 b \<Longrightarrow> a = b"
  by (auto simp: final64_def Let_def dest!: shift_inj m64_inj)

section \<open>The hash of a key\<close>

fun hash_blocks :: "64 word \<Rightarrow> 8 word list list \<Rightarrow> 64 word" where
  "hash_blocks h [] = h"
| "hash_blocks h (bs # bss) = hash_blocks ((h XOR mix64 (le_word bs)) * m64) bss"

lemma hash_blocks_inj: "hash_blocks h bss = hash_blocks h' bss \<Longrightarrow> h = h'"
proof (induction bss arbitrary: h h')
  case (Cons bs bss)
  then have "(h XOR mix64 (le_word bs)) * m64 = (h' XOR mix64 (le_word bs)) * m64" by simp
  then show ?case by (metis m64_inj xor.commute xor_cancel)
qed simp

lemma hash_blocks_append: "hash_blocks h (xs @ ys) = hash_blocks (hash_blocks h xs) ys"
  by (induction h xs rule: hash_blocks.induct) simp_all

lemma blocks64_spec:
  "drop pos key = concat bss @ rest \<Longrightarrow> pos + length (concat bss) \<le> length key \<Longrightarrow> \<forall>bs \<in> set bss. length bs = 8 \<Longrightarrow>
    blocks64 key pos (length bss) h = Inr (hash_blocks h bss)"
proof (induction bss arbitrary: pos h)
  case (Cons bs bss)
  then have r: "mem_read key pos 8 = Inr bs" by (simp add: mem_read_def)
  have "drop (pos + 8) key = concat bss @ rest" using Cons.prems(1,3) by (simp add: add.commute [of pos] flip: drop_drop)
  with Cons r show ?case by simp
qed simp

lemma tail_bytes_spec:
  fixes h :: "'a::len word"
  shows "drop pos key = t @ rest \<Longrightarrow> pos + length t \<le> length key \<Longrightarrow> tail_bytes key pos (length t) h = Inr (h XOR le_word t)"
proof (induction t arbitrary: h rest rule: rev_induct)
  case (snoc b t)
  have "key ! (pos + length t) = drop pos key ! length t" using snoc.prems(2) by simp
  with snoc.prems have g: "mem_get key (pos + length t) = Inr b" by (simp add: mem_get_def nth_append)
  have s: "(le_word (t @ [b]) :: 'a word) = le_word t XOR push_bit (8 * length t) (ucast b)"
    by (induction t) (simp_all add: push_bit_xor xor.assoc add.commute)
  have "tail_bytes key pos (length t) h' = Inr (h' XOR le_word t)" for h' :: "'a word" using snoc.IH [of "b # rest" h'] snoc.prems by simp
  then show ?case using g by (simp add: s ac_simps)
qed simp

definition hash_parts :: "32 word \<Rightarrow> 8 word list list \<Rightarrow> 8 word list \<Rightarrow> 64 word" where
  "hash_parts seed bss t =
     (let h = hash_blocks (ucast seed XOR (word_of_int (int (8 * length bss + length t)) * m64)) bss XOR le_word t in
      final64 (if t = [] then h else h * m64))"

lemma length_blocks: "\<forall>bs \<in> set bss. length bs = 8 \<Longrightarrow> length (concat bss) = 8 * length bss"
  by (induction bss) auto

lemma MurmurHash64A_spec:
  assumes "\<forall>bs \<in> set bss. length bs = 8" "length t < 8"
  shows "MurmurHash64A (concat bss @ t @ rest) (int (8 * length bss + length t)) seed = Inr (hash_parts seed bss t)"
proof -
  let ?key = "concat bss @ t @ rest"
  note l = length_blocks [OF assms(1)]
  have n: "int (8 * length bss + length t) div 8 = int (length bss)" "int (8 * length bss + length t) mod 8 = int (length t)" using assms(2) by simp_all
  have b: "blocks64 ?key 0 (length bss) h = Inr (hash_blocks h bss)" for h using l by (intro blocks64_spec [OF _ _ assms(1)]) simp_all
  have t: "tail_bytes ?key (8 * length bss) (length t) h = Inr (h XOR le_word t)" for h :: "64 word"
    using l by (intro tail_bytes_spec [where rest = rest]) simp_all
  show ?thesis unfolding MurmurHash64A_def Let_def n nat_int by (simp add: b t hash_parts_def)
qed

text \<open>Every key falls into blocks and a shorter tail.\<close>

lemma parts_exist:
  "\<exists>bss t. key = concat bss @ t \<and> (\<forall>bs \<in> set bss. length bs = 8) \<and> length t < (8 :: nat)"
proof (induction key rule: length_induct)
  case (1 key)
  show ?case
  proof (cases "length key < 8")
    case True
    then show ?thesis by (intro exI [of _ "[]"] exI [of _ key]) simp
  next
    case False
    then have "length (drop 8 key) < length key" by simp
    with 1 obtain bss t where "drop 8 key = concat bss @ t" "\<forall>bs \<in> set bss. length bs = 8" "length t < 8" by blast
    with False show ?thesis by (intro exI [of _ "take 8 key # bss"] exI [of _ t]) (simp, metis append_take_drop_id append.assoc)
  qed
qed

lemma hash_block_differs:
  assumes "length a = 8" "length b = 8" "a \<noteq> b"
  shows "hash_parts seed (xs @ a # ys) t \<noteq> hash_parts seed (xs @ b # ys) t"
proof
  let ?h = "hash_blocks (ucast seed XOR (word_of_int (int (8 * length (xs @ a # ys) + length t)) * m64)) xs"
  assume "hash_parts seed (xs @ a # ys) t = hash_parts seed (xs @ b # ys) t"
  then have "hash_blocks ((?h XOR mix64 (le_word a)) * m64) ys = hash_blocks ((?h XOR mix64 (le_word b)) * m64) ys"
    by (auto simp: hash_parts_def Let_def hash_blocks_append split: if_splits dest!: final64_inj m64_inj)
       (metis xor.commute xor_cancel)+
  then have "(?h XOR mix64 (le_word a)) * m64 = (?h XOR mix64 (le_word b)) * m64" by (rule hash_blocks_inj)
  then have "(le_word a :: 64 word) = le_word b" by (auto dest!: m64_inj xor_cancel mix64_inj)
  with le_word_inj [of a b, where ?'a = 64] assms show False by simp
qed

lemma hash_tail_differs:
  assumes "length t = length t'" "length t < 8" "t \<noteq> t'"
  shows "hash_parts seed bss t \<noteq> hash_parts seed bss t'"
proof
  assume "hash_parts seed bss t = hash_parts seed bss t'"
  moreover have "t \<noteq> []" "t' \<noteq> []" using assms(1,3) by auto
  ultimately have "(le_word t :: 64 word) = le_word t'"
    using assms(1) by (auto simp: hash_parts_def Let_def dest!: final64_inj m64_inj xor_cancel)
  with le_word_inj [of t t', where ?'a = 64] assms show False by simp
qed

lemma le_word_4: "le_word [a, b, c, d] = ucast a OR push_bit 8 (ucast b) OR push_bit 16 (ucast c) OR push_bit 24 (ucast d)" for a b c d :: "8 word"
proof -
  have h: "bit e n \<Longrightarrow> n < 8" for e :: "8 word" and n using bit_imp_le_length [of e n] by simp
  show ?thesis by (rule bit_word_eqI) (auto simp: bit_simps dest: h)
qed

lemma words_equal: "words2 key pos len h = wordsNeutral2 key pos len h"
proof (induction key pos len h rule: words2.induct)
  case (1 key pos len h)
  show ?case
  proof (cases "4 \<le> len \<and> pos + 4 \<le> length key")
    case True
    then have "take 4 (drop pos key) = [key ! pos, key ! (pos + 1), key ! (pos + 2), key ! (pos + 3)]"
      by (intro nth_equalityI) (auto simp: less_Suc_eq numeral_eq_Suc)
    with True 1 show ?thesis by (simp add: words2.simps [of key pos] wordsNeutral2.simps [of key pos] le_word_4 Let_def or.assoc del: le_word.simps)
  next
    case False
    then show ?thesis by (auto simp: words2.simps [of key pos] wordsNeutral2.simps [of key pos] mem_read_def mem_get_def)
  qed
qed

section \<open>Properties\<close>

text \<open>C26: the 64-bit hash reads exactly the bytes of the key, and two keys of the same length that differ only inside one aligned group
  of eight bytes, or only in the bytes after the last full group, never have the same hash, whatever the seed.\<close>

theorem MurmurHash64A_separates:
  assumes "8 dvd length pre" "length a = length b" "a \<noteq> b" "length a = 8 \<or> length a < 8 \<and> post = []"
  shows "\<exists>h h'. MurmurHash64A (pre @ a @ post @ rest) (int (length (pre @ a @ post))) seed = Inr h \<and>
    MurmurHash64A (pre @ b @ post @ rest') (int (length (pre @ b @ post))) seed = Inr h' \<and> h \<noteq> h'"
proof -
  obtain xs u where pre: "pre = concat xs @ u" "\<forall>bs \<in> set xs. length bs = 8" "length u < 8" using parts_exist by blast
  note lx = length_blocks [OF pre(2)]
  have "length u mod 8 = 0" using assms(1) pre(1) lx by (simp add: dvd_eq_mod_eq_0)
  then have u: "u = []" using pre(3) by simp
  obtain ys t where post: "post = concat ys @ t" "\<forall>bs \<in> set ys. length bs = 8" "length t < 8" using parts_exist by blast
  note ly = length_blocks [OF post(2)]
  show ?thesis
  proof (cases "length a = 8")
    case True
    have m: "MurmurHash64A (pre @ c @ post @ r) (int (length (pre @ c @ post))) seed = Inr (hash_parts seed (xs @ c # ys) t)" if "length c = 8" for c r
    proof -
      have "\<forall>bs \<in> set (xs @ c # ys). length bs = 8" using that pre(2) post(2) by auto
      from MurmurHash64A_spec [OF this post(3), of r seed] that pre(1) post(1) u lx ly show ?thesis by (simp add: algebra_simps)
    qed
    with True assms(2,3) hash_block_differs [of a b seed xs ys t] show ?thesis by auto
  next
    case False
    with MurmurHash64A_spec [of xs a rest seed] MurmurHash64A_spec [of xs b rest' seed] hash_tail_differs [of a b seed xs]
      assms(2,3,4) pre(1,2) u lx show ?thesis by simp
  qed
qed

theorem MurmurHash64A_separates_witness:
  "\<exists>h h'. MurmurHash64A [1, 2, 3, 4, 5, 6, 7, 8, 9, 0] 9 5 = Inr h \<and> MurmurHash64A [1, 2, 3, 4, 5, 6, 7, 8, 10] 9 5 = Inr h' \<and> h \<noteq> h'"
  using MurmurHash64A_separates [of "[1, 2, 3, 4, 5, 6, 7, 8]" "[9]" "[10]" "[]" "[0]" 5 "[]"] by (simp add: dvd_eq_mod_eq_0)

text \<open>the function that reads whole words and the one that puts them together from single bytes are equal on a little-endian target,
  for every key, length and seed, also where they read past the end of the key.\<close>

theorem MurmurHash2_neutral: "MurmurHash2 key len seed = MurmurHashNeutral2 key len seed"
  by (simp add: MurmurHash2_def MurmurHashNeutral2_def words_equal)

end
