(* ===== verification/MsgQueue.thy ===== *)
theory MsgQueue
  imports Prelude
begin

text \<open>
  The message queues of \<open>util/msg_queue.h\<close>: \<open>MsgQueue\<close>, whose \<open>get_msg\<close> returns at once, and \<open>MsgQueueCond\<close>, whose \<open>get_msg\<close> waits on a
  condition variable.  A message is a pointer, NULL is \<open>None\<close>.  Every operation holds the lock, so that it is one step,
  except where \<open>cond_.wait\<close> releases the lock: a thread then sleeps, is woken by a signal, by the end of its time or
  spuriously, and goes on when it has the lock again.  The state machine at the end has these steps for any number of threads.
\<close>

section \<open>Operations\<close>

definition g_maxqueuesize :: nat where "g_maxqueuesize = 300000"

definition post_msg :: "'m option \<Rightarrow> 'm option list \<Rightarrow> bool \<times> 'm option list" where
  "post_msg msg q = (if length q > g_maxqueuesize then (False, q) else (True, q @ [msg]))"

text \<open>The last part of the functions \<open>get_msg\<close>, for a queue that is not empty: a NULL pointer at the front is not removed.\<close>

definition take_front :: "'m option list \<Rightarrow> 'm option \<times> 'm option list" where
  "take_front q = (case hd q of None \<Rightarrow> (None, q) | Some m \<Rightarrow> (Some m, tl q))"

definition get_msg :: "'m option list \<Rightarrow> 'm option \<times> 'm option list" where
  "get_msg q = (if length q \<le> 0 then (None, q) else take_front q)"

definition queue_size :: "'m option list \<Rightarrow> int" where
  "queue_size q = int32 (int (length q))"

text \<open>The destructors: the messages deleted, and what is left in the queue.\<close>

fun delete_queue :: "'m option list \<Rightarrow> 'm list \<times> 'm option list" where
  "delete_queue [] = ([], [])"
| "delete_queue (None # q) = ([], None # q)"
| "delete_queue (Some m # q) = (case delete_queue q of (ms, r) \<Rightarrow> (m # ms, r))"

section \<open>Threads at a \<open>MsgQueueCond\<close>\<close>

text \<open>Threads that sleep in \<open>get_msg\<close>, with the flag whether they called the version with a time limit, and threads that have been woken and
  wait for the lock.  The last two components record the messages accepted and delivered so far.\<close>

type_synonym sleeper = "nat \<times> bool"

record 'm mq =
  mq_queue :: "'m option list"
  mq_asleep :: "sleeper list"
  mq_woken :: "sleeper list"
  mq_posted :: "'m option list"
  mq_got :: "'m list"

definition mq_start :: "'m mq" where
  "mq_start = \<lparr>mq_queue = [], mq_asleep = [], mq_woken = [], mq_posted = [], mq_got = []\<rparr>"

text \<open>\<open>post_msg\<close> signals after it has added the message: one of the sleeping threads, if there is any, is woken.\<close>

definition cond_post :: "'m option \<Rightarrow> nat \<Rightarrow> 'm mq \<Rightarrow> bool \<times> 'm mq" where
  "cond_post msg i s =
     (case post_msg msg (mq_queue s) of
        (False, _) \<Rightarrow> (False, s)
      | (True, q) \<Rightarrow>
          let s = s\<lparr>mq_queue := q, mq_posted := mq_posted s @ [msg]\<rparr> in
          (True, if i < length (mq_asleep s)
                 then s\<lparr>mq_asleep := take i (mq_asleep s) @ drop (Suc i) (mq_asleep s), mq_woken := mq_woken s @ [mq_asleep s ! i]\<rparr> else s))"

text \<open>What a thread does when it holds the lock and the queue is not empty.\<close>

definition deliver_front :: "'m mq \<Rightarrow> 'm option \<times> 'm mq" where
  "deliver_front s =
     (case take_front (mq_queue s) of (r, q) \<Rightarrow> (r, s\<lparr>mq_queue := q, mq_got := mq_got s @ (case r of None \<Rightarrow> [] | Some m \<Rightarrow> [m])\<rparr>))"

text \<open>A call of \<open>get_msg\<close> (with a time limit or not) by thread \<open>t\<close>: it sleeps (\<open>None\<close>) or returns.\<close>

definition cond_get :: "sleeper \<Rightarrow> 'm mq \<Rightarrow> 'm option option \<times> 'm mq" where
  "cond_get t s =
     (if length (mq_queue s) \<le> 0 then (None, s\<lparr>mq_asleep := mq_asleep s @ [t]\<rparr>)
      else case deliver_front s of (r, s) \<Rightarrow> (Some r, s))"

text \<open>The woken thread number \<open>i\<close> has the lock again: without a time limit the loop tests the queue once more.\<close>

definition cond_resume :: "nat \<Rightarrow> 'm mq \<Rightarrow> 'm option option \<times> 'm mq" where
  "cond_resume i s =
     (let t = mq_woken s ! i; s = s\<lparr>mq_woken := take i (mq_woken s) @ drop (Suc i) (mq_woken s)\<rparr> in
      if length (mq_queue s) \<le> 0 then
        if snd t then (Some None, s) else (None, s\<lparr>mq_asleep := mq_asleep s @ [t]\<rparr>)
      else case deliver_front s of (r, s) \<Rightarrow> (Some r, s))"

text \<open>A thread that wakes without a signal: its time is over, or spuriously.\<close>

definition cond_timeout :: "nat \<Rightarrow> 'm mq \<Rightarrow> 'm mq" where
  "cond_timeout i s = s\<lparr>mq_asleep := take i (mq_asleep s) @ drop (Suc i) (mq_asleep s), mq_woken := mq_woken s @ [mq_asleep s ! i]\<rparr>"

inductive mq_reach :: "'m mq \<Rightarrow> bool" where
  start: "mq_reach mq_start"
| post: "mq_reach s \<Longrightarrow> mq_asleep s = [] \<or> i < length (mq_asleep s) \<Longrightarrow> mq_reach (snd (cond_post (Some m) i s))"
| get: "mq_reach s \<Longrightarrow> mq_reach (snd (cond_get t s))"
| resume: "mq_reach s \<Longrightarrow> i < length (mq_woken s) \<Longrightarrow> mq_reach (snd (cond_resume i s))"
| timeout: "mq_reach s \<Longrightarrow> i < length (mq_asleep s) \<Longrightarrow> mq_reach (cond_timeout i s)"

section \<open>The invariant\<close>

text \<open>The delivered messages followed by the queue are the accepted ones; the queue is bounded; and as long as a thread sleeps there
  are at least as many woken threads as messages.\<close>

definition mq_ok :: "'m mq \<Rightarrow> bool" where
  "mq_ok s \<longleftrightarrow> map Some (mq_got s) @ mq_queue s = mq_posted s \<and> None \<notin> set (mq_queue s) \<and> length (mq_queue s) \<le> g_maxqueuesize + 1 \<and>
     (mq_asleep s \<noteq> [] \<longrightarrow> length (mq_queue s) \<le> length (mq_woken s))"

lemma deliver_front_some:
  assumes "mq_queue s = Some m # q"
  shows "deliver_front s = (Some m, s\<lparr>mq_queue := q, mq_got := mq_got s @ [m]\<rparr>)"
  using assms by (simp add: deliver_front_def take_front_def)

lemma mq_ok_front: "mq_ok s \<Longrightarrow> mq_queue s \<noteq> [] \<Longrightarrow> \<exists>m q. mq_queue s = Some m # q"
  by (cases "mq_queue s"; cases "hd (mq_queue s)") (auto simp: mq_ok_def)

lemma post_ok:
  assumes "mq_ok s" "mq_asleep s = [] \<or> i < length (mq_asleep s)"
  shows "mq_ok (snd (cond_post (Some m) i s))"
  using assms by (auto simp: mq_ok_def cond_post_def post_msg_def g_maxqueuesize_def Let_def)

lemma get_ok: "mq_ok s \<Longrightarrow> mq_ok (snd (cond_get t s))"
  using mq_ok_front [of s] by (auto simp: cond_get_def deliver_front_some mq_ok_def)

lemma resume_ok:
  assumes "mq_ok s" "i < length (mq_woken s)"
  shows "mq_ok (snd (cond_resume i s))"
proof (cases "mq_queue s = []")
  case True
  with assms show ?thesis by (auto simp: cond_resume_def mq_ok_def Let_def)
next
  case False
  with mq_ok_front [OF assms(1)] obtain m q where q: "mq_queue s = Some m # q" by blast
  let ?s = "s\<lparr>mq_woken := take i (mq_woken s) @ drop (Suc i) (mq_woken s)\<rparr>"
  have "deliver_front ?s = (Some m, ?s\<lparr>mq_queue := q, mq_got := mq_got s @ [m]\<rparr>)" using deliver_front_some [of ?s m q] q by simp
  with assms q show ?thesis by (auto simp: cond_resume_def mq_ok_def Let_def)
qed

lemma timeout_ok: "mq_ok s \<Longrightarrow> i < length (mq_asleep s) \<Longrightarrow> mq_ok (cond_timeout i s)"
  by (auto simp: mq_ok_def cond_timeout_def)

lemma mq_reach_ok: "mq_reach s \<Longrightarrow> mq_ok s"
proof (induction rule: mq_reach.induct)
  case start
  then show ?case by (simp add: mq_ok_def mq_start_def)
next
  case (post s i m)
  then show ?case by (simp add: post_ok)
next
  case (get s t)
  then show ?case by (simp add: get_ok)
next
  case (resume s i)
  then show ?case by (simp add: resume_ok)
next
  case (timeout s i)
  then show ?case by (simp add: timeout_ok)
qed

section \<open>Properties\<close>

text \<open>C27: whatever threads post and take messages, which are not NULL, at a \<open>MsgQueueCond\<close>, and however they are woken, the messages are delivered in the order
  in which they were accepted, each once and none lost; the queue never holds more than \<open>g_maxqueuesize + 1\<close> messages; and no
  wake-up is lost: while a thread sleeps, there is a woken thread for every message in the queue.\<close>

theorem mq_fifo_no_lost_wakeup:
  assumes "mq_reach s"
  shows "mq_posted s = map Some (mq_got s) @ mq_queue s \<and> length (mq_queue s) \<le> g_maxqueuesize + 1 \<and>
    (mq_asleep s \<noteq> [] \<longrightarrow> length (mq_queue s) \<le> length (mq_woken s))"
  using mq_reach_ok [OF assms] by (auto simp: mq_ok_def)

theorem mq_fifo_no_lost_wakeup_witness:
  "\<exists>s. mq_reach s \<and> mq_asleep s = [(2, False)] \<and> mq_queue s = [Some (7 :: nat)] \<and> length (mq_queue s) \<le> length (mq_woken s)"
proof -
  let ?s = "\<lparr>mq_queue = [Some (7 :: nat)], mq_asleep = [(2, False)], mq_woken = [(1, False)], mq_posted = [Some 7], mq_got = []\<rparr>"
  have "mq_reach (snd (cond_post (Some 7) 0 (snd (cond_get (2, False) (snd (cond_get (1, False) mq_start))))))"
    by (intro mq_reach.intros) (simp add: cond_get_def mq_start_def)
  then have "mq_reach ?s" by (simp add: cond_get_def mq_start_def cond_post_def post_msg_def g_maxqueuesize_def)
  moreover from mq_fifo_no_lost_wakeup [OF this] have "length (mq_queue ?s) \<le> length (mq_woken ?s)" by simp
  ultimately show ?thesis by (intro exI [of _ ?s]) simp
qed

text \<open>a NULL pointer that reaches the front of a \<open>MsgQueue\<close> blocks it for ever: every later \<open>get_msg\<close> returns NULL as if the queue were empty,
  whatever is posted in between, and the destructor deletes none of the messages behind it.\<close>

theorem null_blocks_queue:
  assumes "q = None # rest"
  shows "\<exists>rest'. fold (\<lambda>op q. case op of None \<Rightarrow> snd (get_msg q) | Some msg \<Rightarrow> snd (post_msg msg q)) ops q = None # rest @ rest' \<and>
    get_msg (None # rest @ rest') = (None, None # rest @ rest') \<and> delete_queue (None # rest @ rest') = ([], None # rest @ rest')"
  using assms
proof (induction ops arbitrary: q rest)
  case Nil
  then show ?case by (intro exI [of _ "[]"]) (simp add: get_msg_def take_front_def)
next
  case (Cons op ops)
  then show ?case
  proof (cases op)
    case None
    with Cons.IH [of "None # rest" rest] Cons.prems show ?thesis by (simp add: get_msg_def take_front_def)
  next
    case (Some msg)
    with Cons.IH [of "None # rest" rest] Cons.IH [of "None # rest @ [msg]" "rest @ [msg]"] Cons.prems show ?thesis
      by (cases "length rest < g_maxqueuesize") (auto simp: post_msg_def)
  qed
qed

theorem null_blocks_queue_witness:
  "\<exists>rest'. fold (\<lambda>op q. case op of None \<Rightarrow> snd (get_msg q) | Some msg \<Rightarrow> snd (post_msg msg q)) [Some (Some (1 :: nat)), None] [None, Some 2] = None # [Some 2] @ rest'"
  using null_blocks_queue [of "[None, Some 2]" "[Some 2]" "[Some (Some (1 :: nat)), None]"] by blast

end
