(* ===== verification/StringHelper.thy ===== *)
theory StringHelper
  imports SdsText
begin

text \<open>
  The class \<open>StringHelper\<close> of \<open>helper/util/string_helper.cpp\<close>.  A position of type
  \<open>std::string::size_type\<close> is a \<open>nat option\<close>, \<open>None\<close> being \<open>npos\<close>.  The loops of \<open>ReplaceAll\<close>
  and \<open>Split\<close> need not end, so they are partial functions with \<open>None\<close> for a call that does
  not return; strings and vectors have no limit of size.  The lemmas relate the four text
  functions to their specifications, say exactly when the loops end, and show that
  \<open>ParseParameter\<close> keeps within its buffer and agrees with a parser that cuts the text.
\<close>

section \<open>Searching and replacing\<close>

text \<open>\<open>std::string::find\<close>.\<close>

fun find_scan :: "string \<Rightarrow> string \<Rightarrow> nat \<Rightarrow> nat option" where
  "find_scan p xs i =
     (if take (length p) xs = p then Some i
      else case xs of [] \<Rightarrow> None | _ # ys \<Rightarrow> find_scan p ys (Suc i))"

definition str_find :: "string \<Rightarrow> string \<Rightarrow> nat \<Rightarrow> nat option" where
  "str_find s p pos = (if pos \<le> length s then find_scan p (drop pos s) pos else None)"

partial_function (option) replace_loop :: "string \<Rightarrow> string \<Rightarrow> string \<Rightarrow> nat \<Rightarrow> string option" where
  "replace_loop strsrc strdst result pos =
     (case str_find result strsrc pos of
        None \<Rightarrow> Some result
      | Some pos \<Rightarrow>
          replace_loop strsrc strdst (take pos result @ strdst @ drop (pos + length strsrc) result) (pos + length strdst))"

definition ReplaceAll :: "string \<Rightarrow> string \<Rightarrow> string \<Rightarrow> string option" where
  "ReplaceAll strBig strsrc strdst = replace_loop strsrc strdst strBig 0"

partial_function (option) split_loop :: "string \<Rightarrow> string \<Rightarrow> nat \<Rightarrow> string list \<Rightarrow> string list option" where
  "split_loop str splitor pos strvct =
     (case str_find str splitor pos of
        None \<Rightarrow> Some (if drop pos str \<noteq> [] then strvct @ [drop pos str] else strvct)
      | Some tmp \<Rightarrow> split_loop str splitor (tmp + length splitor) (strvct @ [take (tmp - pos) (drop pos str)]))"

definition Split :: "string \<Rightarrow> string \<Rightarrow> string list option" where
  "Split str splitor = split_loop str splitor 0 []"

section \<open>Trimming\<close>

definition trim_char :: "char \<Rightarrow> bool" where
  "trim_char c \<longleftrightarrow> c = CHR '' '' \<or> c = TAB \<or> c = CR \<or> c = LF"

function trim_left_pos :: "string \<Rightarrow> nat \<Rightarrow> nat" where
  "trim_left_pos str pos = (if pos < length str \<and> trim_char (str ! pos) then trim_left_pos str (Suc pos) else pos)"
  by pat_completeness auto
termination by (relation "measure (\<lambda>(str, pos). length str - pos)") auto

definition TrimLeft :: "string \<Rightarrow> string" where
  "TrimLeft str = drop (trim_left_pos str 0) str"

text \<open>\<open>length() - 1\<close> and \<open>--pos\<close> give \<open>npos\<close> at zero.\<close>

definition dec :: "nat \<Rightarrow> nat option" where
  "dec n = (if n = 0 then None else Some (n - 1))"

function trim_right_pos :: "string \<Rightarrow> nat option \<Rightarrow> nat option" where
  "trim_right_pos str None = None"
| "trim_right_pos str (Some pos) = (if trim_char (str ! pos) then trim_right_pos str (dec pos) else Some pos)"
  by pat_completeness auto
termination by (relation "measure (\<lambda>(str, p). case p of None \<Rightarrow> 0 | Some n \<Rightarrow> Suc n)") (auto simp: dec_def)

definition TrimRight :: "string \<Rightarrow> string" where
  "TrimRight str =
     (case trim_right_pos str (dec (length str)) of
        None \<Rightarrow> []
      | Some pos \<Rightarrow> take (min (pos + 1) (length str)) str)"

definition Trim :: "string \<Rightarrow> string" where
  "Trim str = TrimLeft (TrimRight str)"

fun Trim_all :: "string list \<Rightarrow> string list" where
  "Trim_all [] = []"
| "Trim_all (s # strvct) = (let value = Trim s in if value \<noteq> [] then value # Trim_all strvct else Trim_all strvct)"

section \<open>Parameters\<close>

text \<open>
  The variables of \<open>ParseParameter\<close>.  \<open>sBuffer\<close> is a block of \<open>iStrLen\<close> bytes with arbitrary
  contents; \<open>close_buffer\<close> ends its text with a NUL, and reading the text stops at the first NUL.
\<close>

record parse_state =
  sBuffer :: string
  iCounter :: nat
  chFlag :: bool
  iHavedGetName :: bool
  strName :: string
  params :: "string \<rightharpoonup> string"
  iParaNum :: int

definition close_buffer :: "string \<Rightarrow> nat \<Rightarrow> string res" where
  "close_buffer b n = (if n \<ge> length b then mem_write b (length b - 1) [NUL] else mem_write b n [NUL])"

definition buffer_text :: "string \<Rightarrow> string res" where
  "buffer_text b = (if NUL \<in> set b then Inr (cstr b) else Inl OutOfBounds)"

definition store_value :: "parse_state \<Rightarrow> parse_state res" where
  "store_value s =
     bindr (close_buffer (sBuffer s) (iCounter s)) (\<lambda>b.
     bindr (buffer_text b) (\<lambda>strValue.
     Inr (s\<lparr>sBuffer := b, params := (params s)(strName s \<mapsto> strValue), iParaNum := iParaNum s + 1\<rparr>)))"

fun parse_loop :: "char \<Rightarrow> char \<Rightarrow> string \<Rightarrow> nat \<Rightarrow> nat \<Rightarrow> parse_state \<Rightarrow> (bool \<times> parse_state) res" where
  "parse_loop ch1 ch2 text i 0 s = Inr (True, s)"
| "parse_loop ch1 ch2 text i (Suc n) s =
     bindr (mem_get text i) (\<lambda>ch.
     if ch1 = ch \<and> \<not> iHavedGetName s then
       bindr (close_buffer (sBuffer s) (iCounter s)) (\<lambda>b.
       bindr (buffer_text b) (\<lambda>name.
       parse_loop ch1 ch2 text (Suc i) n
         (s\<lparr>sBuffer := b, strName := name, iCounter := 0, chFlag := True, iHavedGetName := True\<rparr>)))
     else if ch2 = ch \<or> NUL = ch then
       if \<not> chFlag s then Inr (False, s)
       else bindr (store_value s) (\<lambda>s.
            parse_loop ch1 ch2 text (Suc i) n (s\<lparr>iCounter := 0, chFlag := False, iHavedGetName := False\<rparr>))
     else
       bindr (mem_write (sBuffer s) (iCounter s) [ch]) (\<lambda>b.
       parse_loop ch1 ch2 text (Suc i) n (s\<lparr>sBuffer := b, iCounter := iCounter s + 1\<rparr>)))"

definition parse_end :: "bool \<times> parse_state \<Rightarrow> (int \<times> (string \<rightharpoonup> string)) res" where
  "parse_end r =
     (case r of (ok, s) \<Rightarrow>
        if \<not> ok then Inr (- 2, params s)
        else if iHavedGetName s \<and> chFlag s then bindr (store_value s) (\<lambda>s. Inr (iParaNum s, params s))
        else Inr (iParaNum s, params s))"

text \<open>
  \<open>buf\<close> is what the new array \<open>sBuffer\<close> holds, \<open>text\<close> the memory behind \<open>sParaStr\<close> (\<open>None\<close> for
  NULL).  An array of negative length is undefined.
\<close>

definition parse_start :: "string \<Rightarrow> parse_state" where
  "parse_start buf =
     \<lparr>sBuffer = buf, iCounter = 0, chFlag = False, iHavedGetName = False, strName = [], params = Map.empty, iParaNum = 0\<rparr>"

definition ParseParameter :: "string \<Rightarrow> string option \<Rightarrow> int \<Rightarrow> char \<Rightarrow> char \<Rightarrow> (int \<times> (string \<rightharpoonup> string)) res" where
  "ParseParameter buf text iStrLen ch1 ch2 =
     (if iStrLen < 0 then Inl OutOfBounds
      else case text of
        None \<Rightarrow> Inr (0, Map.empty)
      | Some t \<Rightarrow>
          if iStrLen = 0 then Inr (0, Map.empty)
          else bindr (parse_loop ch1 ch2 t 0 (nat iStrLen) (parse_start buf)) parse_end)"

section \<open>The loops and their specifications\<close>

declare find_scan.simps [simp del]

lemma find_scan_Cons:
  "take (length p) (x # xs) \<noteq> p \<Longrightarrow> find_scan p (x # xs) i = find_scan p xs (Suc i)"
  by (simp add: find_scan.simps)

lemma find_scan_split:
  assumes "p \<noteq> []"
  shows "(case find_scan p xs i of
            None \<Rightarrow> split_at p acc xs = [acc @ xs]
          | Some j \<Rightarrow> i \<le> j \<and> j - i + length p \<le> length xs \<and>
              split_at p acc xs = (acc @ take (j - i) xs) # split_at p [] (drop (j - i + length p) xs))"
proof (induction xs arbitrary: i acc)
  case Nil
  then show ?case using assms by (simp add: find_scan.simps split_at.simps)
next
  case (Cons x xs)
  show ?case
  proof (cases "take (length p) (x # xs) = p")
    case True
    then have "length p \<le> length (x # xs)" by (metis length_take min.cobounded1)
    then show ?thesis using True assms split_at_found [OF assms True, of acc] by (simp add: find_scan.simps)
  next
    case False
    have "split_at p acc (x # xs) = split_at p (acc @ [x]) xs"
    proof (cases "length p \<le> length (x # xs)")
      case True
      then show ?thesis using False assms by (rule_tac split_at_step)
    next
      case short: False
      then show ?thesis by (simp add: split_at.simps [of p acc] split_at.simps [of p "acc @ [x]"])
    qed
    then show ?thesis
      using Cons.IH [where i = "Suc i" and acc = "acc @ [x]"] find_scan_Cons [OF False, of i]
      by (auto split: option.splits simp: Suc_diff_le Suc_le_eq dest: less_imp_Suc_add)
  qed
qed

lemma str_find_None:
  "p \<noteq> [] \<Longrightarrow> pos \<le> length s \<Longrightarrow> str_find s p pos = None \<Longrightarrow> split_at p [] (drop pos s) = [drop pos s]"
  using find_scan_split [of p "[]" "drop pos s" pos] by (simp add: str_find_def)

lemma str_find_Some:
  assumes "p \<noteq> []" "pos \<le> length s" "str_find s p pos = Some j"
  shows "pos \<le> j" "j + length p \<le> length s"
    "split_at p [] (drop pos s) = take (j - pos) (drop pos s) # split_at p [] (drop (j + length p) s)"
  using find_scan_split [of p "[]" "drop pos s" pos] assms by (auto simp: str_find_def add.commute)

lemma str_find_empty: "pos \<le> length s \<Longrightarrow> str_find s [] pos = Some pos"
  by (simp add: str_find_def find_scan.simps)

lemma join_with_Cons: "xs \<noteq> [] \<Longrightarrow> join_with sep (x # xs) = x @ sep @ join_with sep xs"
  by (simp add: join_with_def intersperse_Cons)

lemma replace_loop_value:
  assumes "p \<noteq> []" "pos \<le> length r"
  shows "replace_loop p d r pos = Some (take pos r @ join_with d (split_at p [] (drop pos r)))"
  using assms(2)
proof (induction "length r - pos" arbitrary: r pos rule: less_induct)
  case less
  show ?case
  proof (cases "str_find r p pos")
    case None
    then show ?thesis
      using str_find_None [OF assms(1) less.prems None] by (simp add: replace_loop.simps [of p d r pos] join_with_def)
  next
    case (Some j)
    note j = str_find_Some [OF assms(1) less.prems Some]
    let ?r = "take j r @ d @ drop (j + length p) r"
    have m: "length ?r - (j + length d) < length r - pos"
      using assms(1) j(1,2) by (cases p) auto
    have "replace_loop p d r pos = replace_loop p d ?r (j + length d)"
      using Some by (simp add: replace_loop.simps [of p d r pos])
    also have "\<dots> = Some (take j r @ d @ join_with d (split_at p [] (drop (j + length p) r)))"
      using less.hyps [OF m] j(1,2) by simp
    also have "take j r = take pos r @ take (j - pos) (drop pos r)"
      using j(1) by (metis le_add_diff_inverse take_add)
    finally show ?thesis by (simp add: j(3) join_with_Cons)
  qed
qed

definition drop_empty_last :: "'a list list \<Rightarrow> 'a list list" where
  "drop_empty_last ps = (if last ps = [] then butlast ps else ps)"

lemma drop_empty_last_Cons: "ps \<noteq> [] \<Longrightarrow> drop_empty_last (p # ps) = p # drop_empty_last ps"
  by (simp add: drop_empty_last_def)

lemma split_loop_value:
  assumes "p \<noteq> []" "pos \<le> length s"
  shows "split_loop s p pos v = Some (v @ drop_empty_last (split_at p [] (drop pos s)))"
  using assms(2)
proof (induction "length s - pos" arbitrary: pos v rule: less_induct)
  case less
  show ?case
  proof (cases "str_find s p pos")
    case None
    then show ?thesis
      using str_find_None [OF assms(1) less.prems None]
      by (simp add: split_loop.simps [of s p pos v] drop_empty_last_def)
  next
    case (Some j)
    note j = str_find_Some [OF assms(1) less.prems Some]
    have m: "length s - (j + length p) < length s - pos"
      using assms(1) j(1,2) by (cases p) auto
    show ?thesis
      using less.hyps [OF m j(2)] Some by (simp add: split_loop.simps [of s p pos v] j(3) drop_empty_last_Cons)
  qed
qed

text \<open>With an empty pattern every search succeeds where it starts, so the loops do not end.\<close>

lemma replace_loop_empty: "pos \<le> length r \<Longrightarrow> replace_loop [] d r pos = None"
proof (rule ccontr)
  assume pos: "pos \<le> length r" and "replace_loop [] d r pos \<noteq> None"
  then obtain y where y: "replace_loop [] d r pos = Some y" by auto
  have "[] = ([] :: string) \<longrightarrow> pos \<le> length r \<longrightarrow> False"
  proof (rule replace_loop.raw_induct [where P = "\<lambda>p d r pos y. p = [] \<longrightarrow> pos \<le> length r \<longrightarrow> False", OF _ y])
    fix f :: "string \<Rightarrow> string \<Rightarrow> string \<Rightarrow> nat \<Rightarrow> string option" and p d r pos y
    assume IH: "\<And>p d r pos y. f p d r pos = Some y \<Longrightarrow> p = [] \<longrightarrow> pos \<le> length r \<longrightarrow> False"
      and body: "(case str_find r p pos of None \<Rightarrow> Some r
                  | Some pos \<Rightarrow> f p d (take pos r @ d @ drop (pos + length p) r) (pos + length d)) = Some y"
    show "p = [] \<longrightarrow> pos \<le> length r \<longrightarrow> False"
    proof (intro impI)
      assume "p = []" "pos \<le> length r"
      then show False using body IH [of p d "take pos r @ d @ drop pos r" "pos + length d" y] by (simp add: str_find_empty)
    qed
  qed
  then show False using pos by simp
qed

lemma split_loop_empty: "pos \<le> length s \<Longrightarrow> split_loop s [] pos v = None"
proof (rule ccontr)
  assume pos: "pos \<le> length s" and "split_loop s [] pos v \<noteq> None"
  then obtain y where y: "split_loop s [] pos v = Some y" by auto
  have "[] = ([] :: string) \<longrightarrow> pos \<le> length s \<longrightarrow> False"
  proof (rule split_loop.raw_induct [where P = "\<lambda>s p pos v y. p = [] \<longrightarrow> pos \<le> length s \<longrightarrow> False", OF _ y])
    fix f :: "string \<Rightarrow> string \<Rightarrow> nat \<Rightarrow> string list \<Rightarrow> string list option" and s p pos v y
    assume IH: "\<And>s p pos v y. f s p pos v = Some y \<Longrightarrow> p = [] \<longrightarrow> pos \<le> length s \<longrightarrow> False"
      and body: "(case str_find s p pos of
                    None \<Rightarrow> Some (if drop pos s \<noteq> [] then v @ [drop pos s] else v)
                  | Some tmp \<Rightarrow> f s p (tmp + length p) (v @ [take (tmp - pos) (drop pos s)])) = Some y"
    show "p = [] \<longrightarrow> pos \<le> length s \<longrightarrow> False"
    proof (intro impI)
      assume "p = []" "pos \<le> length s"
      then show False using body IH [of s p pos "v @ [[]]" y] by (simp add: str_find_empty)
    qed
  qed
  then show False using pos by simp
qed

lemma split_at_pieces:
  assumes "sep \<noteq> []" "\<forall>k < length acc. take (length sep) (drop k (acc @ xs)) \<noteq> sep" "q \<in> set (split_at sep acc xs)"
  shows "take (length sep) (drop k q) \<noteq> sep"
  using assms
proof (induction sep acc xs rule: split_at.induct)
  case (1 sep acc xs)
  show ?case
  proof (cases "length sep \<le> length xs")
    case long: True
    show ?thesis
    proof (cases "take (length sep) xs = sep")
      case True
      have acc: "take (length sep) (drop k acc) \<noteq> sep"
      proof
        assume eq: "take (length sep) (drop k acc) = sep"
        then have n: "length sep \<le> length acc - k" by (metis length_drop length_take min.cobounded1)
        moreover have "k < length acc" using eq 1(3) by (cases "k < length acc") auto
        ultimately show False using 1(4) [rule_format, of k] eq by simp
      qed
      show ?thesis using acc 1(1) [OF _ True] 1(3,5) long split_at_found [OF 1(3) True, of acc] by auto
    next
      case False
      obtain x ys where xs: "xs = x # ys" using 1(3) long by (cases xs) auto
      have "\<forall>k < length (acc @ [x]). take (length sep) (drop k ((acc @ [x]) @ ys)) \<noteq> sep"
        using 1(4) False by (auto simp: less_Suc_eq xs)
      then show ?thesis
        using 1(2) [OF _ False] 1(3,5) long False by (simp add: xs split_at_step)
    qed
  next
    case False
    then have q: "q = acc @ xs" using 1(5) by (simp add: split_at.simps)
    show ?thesis
    proof (cases "k < length acc")
      case True
      then show ?thesis using 1(4) q by blast
    next
      case late: False
      have "length (take (length sep) (drop k q)) < length sep" using False late q by auto
      then show ?thesis by force
    qed
  qed
qed

lemma join_drop_empty_last:
  assumes "ps \<noteq> []"
  shows "join_with sep ps = join_with sep (drop_empty_last ps) \<or> join_with sep ps = join_with sep (drop_empty_last ps) @ sep"
  using assms
proof (induction ps)
  case (Cons p ps)
  show ?case
  proof (cases "ps = []")
    case True
    then show ?thesis by (simp add: drop_empty_last_def join_with_def)
  next
    case False
    show ?thesis
    proof (cases "drop_empty_last ps = []")
      case True
      then have "ps = [[]]" using False by (cases ps rule: rev_cases) (auto simp: drop_empty_last_def split: if_splits)
      then show ?thesis by (simp add: drop_empty_last_def join_with_def)
    next
      case rest: False
      then show ?thesis using Cons.IH [OF False] False by (auto simp: drop_empty_last_Cons join_with_Cons)
    qed
  qed
qed simp

section \<open>Trimming removes the blanks at both ends\<close>

declare trim_left_pos.simps [simp del]

lemma trim_left_pos_drop: "drop (trim_left_pos s pos) s = dropWhile trim_char (drop pos s)"
proof (induction s pos rule: trim_left_pos.induct)
  case (1 s pos)
  show ?case
  proof (cases "pos < length s")
    case True
    then show ?thesis using 1 by (subst trim_left_pos.simps) (simp add: Cons_nth_drop_Suc [symmetric])
  next
    case False
    then show ?thesis by (simp add: trim_left_pos.simps [of s pos])
  qed
qed

lemma TrimLeft_eq: "TrimLeft s = dropWhile trim_char s"
  by (simp add: TrimLeft_def trim_left_pos_drop)

lemma trim_right_take:
  "n \<le> length s \<Longrightarrow>
   (case trim_right_pos s (dec n) of None \<Rightarrow> [] | Some pos \<Rightarrow> take (min (pos + 1) (length s)) s) =
     rev (dropWhile trim_char (rev (take n s)))"
proof (induction n)
  case 0
  then show ?case by (simp add: dec_def)
next
  case (Suc n)
  have t: "take (Suc n) s = take n s @ [s ! n]" using Suc.prems by (simp add: take_Suc_conv_app_nth)
  have "dec (Suc n) = Some n" by (simp add: dec_def)
  then show ?case using Suc t by auto
qed

lemma TrimRight_eq: "TrimRight s = rev (dropWhile trim_char (rev s))"
  using trim_right_take [of "length s" s] by (simp add: TrimRight_def)

lemma Trim_eq: "Trim s = dropWhile trim_char (rev (dropWhile trim_char (rev s)))"
  by (simp add: Trim_def TrimLeft_eq TrimRight_eq)

lemma Trim_all_eq: "Trim_all ss = filter (\<lambda>s. s \<noteq> []) (map Trim ss)"
  by (induction ss) (auto simp: Let_def)

section \<open>Parsing parameters\<close>

text \<open>The reference: cut the text into pieces and read each piece as a name and a value.\<close>

fun cut :: "('a \<Rightarrow> bool) \<Rightarrow> 'a list \<Rightarrow> 'a list \<Rightarrow> 'a list list" where
  "cut P acc [] = [acc]"
| "cut P acc (x # xs) = (if P x then acc # cut P [] xs else cut P (acc @ [x]) xs)"

definition set_pair :: "char \<Rightarrow> string \<Rightarrow> (string \<rightharpoonup> string) \<Rightarrow> (string \<rightharpoonup> string)" where
  "set_pair ch1 p m = m(takeWhile (\<lambda>c. c \<noteq> ch1) p \<mapsto> tl (dropWhile (\<lambda>c. c \<noteq> ch1) p))"

fun read_pairs :: "char \<Rightarrow> string list \<Rightarrow> int \<Rightarrow> (string \<rightharpoonup> string) \<Rightarrow> int \<times> (string \<rightharpoonup> string)" where
  "read_pairs ch1 [] n m = (n, m)"
| "read_pairs ch1 (p # ps) n m =
     (if ch1 \<in> set p then read_pairs ch1 ps (n + 1) (set_pair ch1 p m)
      else if ps = [] then (n, m) else (- 2, m))"

lemma cut_nonempty [simp]: "cut P acc xs \<noteq> []"
  by (induction xs arbitrary: acc) auto

lemma set_pair_at: "ch1 \<notin> set k \<Longrightarrow> set_pair ch1 (k @ ch1 # v) m = m(k \<mapsto> v)"
proof -
  assume "ch1 \<notin> set k"
  then have "takeWhile (\<lambda>c. c \<noteq> ch1) (k @ ch1 # v) = k" "dropWhile (\<lambda>c. c \<noteq> ch1) (k @ ch1 # v) = ch1 # v"
    by (induction k) auto
  then show ?thesis by (simp add: set_pair_def)
qed

text \<open>The text collected so far, and the invariant of the loop with \<open>n\<close> bytes to come.\<close>

definition pending :: "char \<Rightarrow> parse_state \<Rightarrow> string" where
  "pending ch1 s = (if iHavedGetName s then strName s @ ch1 # take (iCounter s) (sBuffer s) else take (iCounter s) (sBuffer s))"

definition parse_ok :: "char \<Rightarrow> nat \<Rightarrow> parse_state \<Rightarrow> bool" where
  "parse_ok ch1 n s \<longleftrightarrow>
     chFlag s = iHavedGetName s \<and> NUL \<notin> set (take (iCounter s) (sBuffer s)) \<and>
     iCounter s + n + (if iHavedGetName s then 1 else 0) \<le> length (sBuffer s) \<and>
     ch1 \<notin> set (if iHavedGetName s then strName s else take (iCounter s) (sBuffer s))"

lemma close_buffer_ok:
  "n < length b \<Longrightarrow> close_buffer b n = Inr (take n b @ NUL # drop (Suc n) b)"
  by (simp add: close_buffer_def)

lemma buffer_text_closed:
  "NUL \<notin> set w \<Longrightarrow> buffer_text (w @ NUL # r) = Inr w"
  by (induction w) (auto simp: buffer_text_def cstr_def)

lemma store_value_ok:
  assumes "parse_ok ch1 n s" "chFlag s"
  shows "\<exists>b. length b = length (sBuffer s) \<and>
    store_value s = Inr (s\<lparr>sBuffer := b, params := set_pair ch1 (pending ch1 s) (params s), iParaNum := iParaNum s + 1\<rparr>)"
  using assms
  by (intro exI [of _ "take (iCounter s) (sBuffer s) @ NUL # drop (Suc (iCounter s)) (sBuffer s)"])
    (auto simp: store_value_def close_buffer_ok buffer_text_closed parse_ok_def pending_def set_pair_at)

lemma parse_end_ok:
  assumes "parse_ok ch1 0 s"
  shows "parse_end (True, s) = Inr (read_pairs ch1 [pending ch1 s] (iParaNum s) (params s))"
proof (cases "chFlag s")
  case True
  then show ?thesis
    using store_value_ok [OF assms True] assms by (auto simp: parse_end_def parse_ok_def pending_def)
next
  case False
  then show ?thesis using assms by (auto simp: parse_end_def parse_ok_def pending_def)
qed

lemma parse_loop_ok:
  assumes sep: "ch1 \<noteq> ch2" "ch1 \<noteq> NUL"
  shows "i + n \<le> length t \<Longrightarrow> parse_ok ch1 n s \<Longrightarrow>
    bindr (parse_loop ch1 ch2 t i n s) parse_end =
      Inr (read_pairs ch1 (cut (\<lambda>c. c = ch2 \<or> c = NUL) (pending ch1 s) (take n (drop i t))) (iParaNum s) (params s))"
proof (induction n arbitrary: i s)
  case 0
  then show ?case by (simp add: parse_end_ok)
next
  case (Suc n)
  let ?P = "\<lambda>c. c = ch2 \<or> c = NUL" and ?c = "t ! i"
  have i: "i < length t" "Suc i + n \<le> length t" using Suc.prems(1) by auto
  have xs: "take (Suc n) (drop i t) = ?c # take n (drop (Suc i) t)"
    using i(1) by (simp add: Cons_nth_drop_Suc [symmetric])
  have ok: "parse_ok ch1 (Suc n) s" by (rule Suc.prems)
  consider (name) "ch1 = ?c" "\<not> iHavedGetName s" | (none) "?P ?c" "\<not> chFlag s" | (val) "?P ?c" "chFlag s"
    | (byte) "\<not> ?P ?c" "\<not> (ch1 = ?c \<and> \<not> iHavedGetName s)" by blast
  then show ?case
  proof cases
    case name
    let ?w = "take (iCounter s) (sBuffer s)" and ?b = "take (iCounter s) (sBuffer s) @ NUL # drop (Suc (iCounter s)) (sBuffer s)"
    let ?s = "s\<lparr>sBuffer := ?b, strName := ?w, iCounter := 0, chFlag := True, iHavedGetName := True\<rparr>"
    have s: "parse_ok ch1 n ?s" "pending ch1 ?s = pending ch1 s @ [?c]" "\<not> ?P ?c"
      using ok name sep by (auto simp: parse_ok_def pending_def)
    have "parse_loop ch1 ch2 t i (Suc n) s = parse_loop ch1 ch2 t (Suc i) n ?s"
      using ok name i(1) by (simp add: parse_ok_def close_buffer_ok buffer_text_closed)
    then show ?thesis using Suc.IH [OF i(2) s(1)] s(2,3) xs by simp
  next
    case none
    then have "parse_loop ch1 ch2 t i (Suc n) s = Inr (False, s)" using sep i(1) by auto
    moreover have "ch1 \<notin> set (pending ch1 s)" using ok none(2) by (auto simp: parse_ok_def pending_def)
    ultimately show ?thesis using none(1) xs by (simp add: parse_end_def)
  next
    case val
    obtain b where b: "length b = length (sBuffer s)"
      "store_value s = Inr (s\<lparr>sBuffer := b, params := set_pair ch1 (pending ch1 s) (params s), iParaNum := iParaNum s + 1\<rparr>)"
      using store_value_ok [OF ok val(2)] by blast
    let ?s = "s\<lparr>sBuffer := b, params := set_pair ch1 (pending ch1 s) (params s), iParaNum := iParaNum s + 1,
                iCounter := 0, chFlag := False, iHavedGetName := False\<rparr>"
    have s: "parse_ok ch1 n ?s" "pending ch1 ?s = []" "ch1 \<in> set (pending ch1 s)"
      using ok val(2) b(1) by (auto simp: parse_ok_def pending_def)
    have "parse_loop ch1 ch2 t i (Suc n) s = parse_loop ch1 ch2 t (Suc i) n ?s"
      using val sep i(1) b(2) by auto
    then show ?thesis using Suc.IH [OF i(2) s(1)] s(2,3) val(1) xs by simp
  next
    case byte
    let ?b = "take (iCounter s) (sBuffer s) @ ?c # drop (Suc (iCounter s)) (sBuffer s)"
    let ?s = "s\<lparr>sBuffer := ?b, iCounter := iCounter s + 1\<rparr>"
    have len: "iCounter s < length (sBuffer s)" using ok by (simp add: parse_ok_def)
    have t: "take (iCounter s + 1) ?b = take (iCounter s) (sBuffer s) @ [?c]" using len by simp
    have s: "parse_ok ch1 n ?s" "pending ch1 ?s = pending ch1 s @ [?c]"
      using ok byte len unfolding parse_ok_def pending_def by (auto simp: t)
    have "parse_loop ch1 ch2 t i (Suc n) s = parse_loop ch1 ch2 t (Suc i) n ?s"
      using byte i(1) len by auto
    then show ?thesis using Suc.IH [OF i(2) s(1)] s(2) byte(1) xs by simp
  qed
qed

lemma ParseParameter_reference:
  assumes "ch1 \<noteq> ch2" "ch1 \<noteq> NUL" "0 < n" "n \<le> length t" "length buf = n"
  shows "ParseParameter buf (Some t) (int n) ch1 ch2 =
    Inr (read_pairs ch1 (cut (\<lambda>c. c = ch2 \<or> c = NUL) [] (take n t)) 0 Map.empty)"
proof -
  have "parse_ok ch1 n (parse_start buf)" "pending ch1 (parse_start buf) = []"
    using assms(5) by (simp_all add: parse_ok_def pending_def parse_start_def)
  then show ?thesis
    using parse_loop_ok [OF assms(1,2), of 0 n t "parse_start buf"] assms(3,4)
    by (simp add: ParseParameter_def parse_start_def)
qed

lemma cut_piece: "\<forall>c \<in> set p. \<not> P c \<Longrightarrow> cut P acc (p @ xs) = cut P (acc @ p) xs"
  by (induction p arbitrary: acc) auto

lemma cut_join:
  "ps \<noteq> [] \<Longrightarrow> P sep \<Longrightarrow> \<forall>p \<in> set ps. \<forall>c \<in> set p. \<not> P c \<Longrightarrow> cut P [] (join_with [sep] ps) = ps"
proof (induction ps)
  case (Cons p ps)
  show ?case
  proof (cases "ps = []")
    case True
    then show ?thesis using Cons.prems cut_piece [of p P "[]" "[]"] by (simp add: join_with_def)
  next
    case False
    then show ?thesis using Cons by (simp add: join_with_Cons cut_piece)
  qed
qed simp

lemma read_pairs_all:
  "\<forall>(k, v) \<in> set kvs. ch1 \<notin> set k \<Longrightarrow>
   read_pairs ch1 (map (\<lambda>(k, v). k @ ch1 # v) kvs) n m = (n + int (length kvs), m ++ map_of (rev kvs))"
  by (induction kvs arbitrary: n m) (auto simp: set_pair_at map_add_upd_left map_add_assoc split: prod.splits)

text \<open>C28: \<open>ReplaceAll\<close> ends exactly when the text to replace is not empty, and then its
  result is the text with every leftmost occurrence replaced: the pieces between them, joined
  with the new text.  Text that the replacement brings in is not searched again.\<close>

theorem ReplaceAll_exact:
  "ReplaceAll strBig strsrc strdst =
     (if strsrc = [] then None else Some (join_with strdst (split_at strsrc [] strBig)))"
  using replace_loop_value [of strsrc 0 strBig strdst] replace_loop_empty [of 0 strBig strdst]
  by (simp add: ReplaceAll_def)

text \<open>\<open>Split\<close> ends for every separator that is not empty.  The pieces do not contain the
  separator, and joined with it they give the string back, up to one separator at its end.\<close>

theorem Split_correct:
  assumes "splitor \<noteq> []"
  shows "\<exists>ps. Split str splitor = Some ps \<and>
    (join_with splitor ps = str \<or> join_with splitor ps @ splitor = str) \<and>
    (\<forall>p \<in> set ps. \<forall>k. take (length splitor) (drop k p) \<noteq> splitor)"
proof (intro exI conjI)
  let ?ps = "split_at splitor [] str"
  show "Split str splitor = Some (drop_empty_last ?ps)"
    using split_loop_value [OF assms, of 0 str "[]"] by (simp add: Split_def)
  show "join_with splitor (drop_empty_last ?ps) = str \<or> join_with splitor (drop_empty_last ?ps) @ splitor = str"
    using join_drop_empty_last [of ?ps splitor] join_split_at [of splitor "[]" str] by auto
  show "\<forall>p \<in> set (drop_empty_last ?ps). \<forall>k. take (length splitor) (drop k p) \<noteq> splitor"
    using split_at_pieces [OF assms, of "[]" str]
    by (auto simp: drop_empty_last_def dest: in_set_butlastD split: if_splits)
qed

theorem Split_correct_witness:
  "\<exists>ps. Split ''a;b;'' '';'' = Some ps \<and> (join_with '';'' ps = ''a;b;'' \<or> join_with '';'' ps @ '';'' = ''a;b;'')"
  using Split_correct [of "'';''" "''a;b;''"] by auto

text \<open>C29: What is written as \<open>name=value\<close> pairs with separators between them is read back by
  \<open>ParseParameter\<close>: it returns the number of pairs and the map they describe, a later pair
  overriding an earlier one, and keeps within its buffer whatever that holds at the start.\<close>

theorem ParseParameter_roundtrip:
  assumes "ch1 \<noteq> ch2" "ch1 \<noteq> NUL" "kvs \<noteq> []"
    and "\<forall>(k, v) \<in> set kvs. ch1 \<notin> set k \<and> ch2 \<notin> set (k @ v) \<and> NUL \<notin> set (k @ v)"
    and "t = join_with [ch2] (map (\<lambda>(k, v). k @ ch1 # v) kvs)" "length buf = length t"
  shows "ParseParameter buf (Some t) (int (length t)) ch1 ch2 = Inr (int (length kvs), map_of (rev kvs))"
proof -
  have c: "cut (\<lambda>c. c = ch2 \<or> c = NUL) [] t = map (\<lambda>(k, v). k @ ch1 # v) kvs"
    unfolding assms(5) using assms(1-4) by (intro cut_join) fastforce+
  moreover have "t \<noteq> []" using c by auto
  moreover have "\<forall>(k, v) \<in> set kvs. ch1 \<notin> set k" using assms(4) by auto
  ultimately show ?thesis
    using ParseParameter_reference [OF assms(1,2), of "length t" t buf] assms(6) by (simp add: read_pairs_all)
qed

theorem ParseParameter_roundtrip_witness:
  "ParseParameter ''???????????'' (Some ''a=1&b==&a=2'') 11 (CHR ''='') (CHR ''&'') = Inr (3, map_of [(''a'', ''2''), (''b'', ''=''), (''a'', ''1'')])"
  using ParseParameter_roundtrip [of "CHR ''=''" "CHR ''&''" "[(''a'', ''1''), (''b'', ''=''), (''a'', ''2'')]" "''a=1&b==&a=2''" "''???????????''"]
  by (simp add: join_with_def)

end
