(* ===== verification/Config.thy ===== *)
theory Config
  imports StringHelper
begin

text \<open>
  The configuration tree of \<open>util/config.cpp\<close>.  The nodes are objects in a heap, their addresses the
  positions in it, with a pointer to the parent and a vector of pointers to the children; a new
  object is added at the end.  \<open>trim\<close> and \<open>is_empty_str\<close> come from a header that is not part of the
  repository and are parameters; \<open>config.h\<close> says what they do (\<open>trims\<close>, \<open>blanks\<close>).  The lemmas show
  that \<open>set\<close> and \<open>get\<close> behave like a map from paths to values, and that a tree written by \<open>save\<close> is
  read back by \<open>load\<close>.  Releasing the nodes and the log are left out.
\<close>

section \<open>The nodes\<close>

record config =
  cfg_parent :: "nat option"
  cfg_depth :: int
  cfg_key :: string
  cfg_val :: string
  cfg_children :: "nat list"

type_synonym cfg_heap = "config list"

definition new_Config :: "string option \<Rightarrow> string option \<Rightarrow> config" where
  "new_Config key val =
     \<lparr>cfg_parent = None, cfg_depth = 0, cfg_key = (case key of None \<Rightarrow> [] | Some k \<Rightarrow> cstr k),
      cfg_val = (case val of None \<Rightarrow> [] | Some v \<Rightarrow> cstr v), cfg_children = []\<rparr>"

definition add_child :: "cfg_heap \<Rightarrow> nat \<Rightarrow> string \<Rightarrow> string \<Rightarrow> (nat \<times> cfg_heap) res" where
  "add_child h this key val =
     bindr (mem_get h this) (\<lambda>p.
     let c = (new_Config (Some key) (Some val))\<lparr>cfg_parent := Some this, cfg_depth := cfg_depth p + 1\<rparr> in
     Inr (length h, h[this := p\<lparr>cfg_children := cfg_children p @ [length h]\<rparr>] @ [c]))"

text \<open>The loop of \<open>find_child\<close> runs from the last child to the first.\<close>

fun find_child_loop :: "cfg_heap \<Rightarrow> nat list \<Rightarrow> string \<Rightarrow> (nat option) res" where
  "find_child_loop h [] key = Inr None"
| "find_child_loop h (c # cs) key =
     bindr (mem_get h c) (\<lambda>x. if cfg_key x = cstr key then Inr (Some c) else find_child_loop h cs key)"

definition find_child :: "cfg_heap \<Rightarrow> nat \<Rightarrow> string \<Rightarrow> (nat option) res" where
  "find_child h this key = bindr (mem_get h this) (\<lambda>p. find_child_loop h (rev (cfg_children p)) key)"

definition find_or_add :: "cfg_heap \<Rightarrow> nat \<Rightarrow> string \<Rightarrow> (nat \<times> cfg_heap) res" where
  "find_or_add h conf f =
     bindr (find_child h conf f) (\<lambda>c. case c of None \<Rightarrow> add_child h conf f [] | Some c \<Rightarrow> Inr (c, h))"

section \<open>Paths\<close>

definition CONFIG_MAX_LINE :: nat where "CONFIG_MAX_LINE = 4096"

definition path_char :: "char \<Rightarrow> bool" where
  "path_char c \<longleftrightarrow> c = CHR ''.'' \<or> c = CHR ''/''"

text \<open>\<open>f\<close> is the text between the pointers \<open>f\<close> and \<open>fs\<close>; the end of the list is the terminating NUL.\<close>

fun build_loop :: "cfg_heap \<Rightarrow> nat \<Rightarrow> string \<Rightarrow> string \<Rightarrow> (nat \<times> cfg_heap) res" where
  "build_loop h conf f [] = find_or_add h conf f"
| "build_loop h conf f (x # fs) =
     (if path_char x then bindr (find_or_add h conf f) (\<lambda>(c, h). build_loop h c [] fs)
      else build_loop h conf (f @ [x]) fs)"

definition path_text :: "string \<Rightarrow> string" where
  "path_text key = take (CONFIG_MAX_LINE - 1) (cstr key)"

definition build_key_path :: "cfg_heap \<Rightarrow> nat \<Rightarrow> string \<Rightarrow> (nat \<times> cfg_heap) res" where
  "build_key_path h this key = build_loop h this [] (path_text key)"

definition Config_set :: "cfg_heap \<Rightarrow> nat \<Rightarrow> string \<Rightarrow> string \<Rightarrow> (nat \<times> cfg_heap) res" where
  "Config_set h this key val =
     bindr (build_key_path h this key) (\<lambda>(c, h).
     bindr (mem_get h c) (\<lambda>x. Inr (c, h[c := x\<lparr>cfg_val := cstr val\<rparr>])))"

fun get_loop :: "cfg_heap \<Rightarrow> nat \<Rightarrow> string \<Rightarrow> string \<Rightarrow> (nat option) res" where
  "get_loop h conf f [] = find_child h conf f"
| "get_loop h conf f (x # fs) =
     (if path_char x then
        bindr (find_child h conf f) (\<lambda>c. case c of None \<Rightarrow> Inr None | Some c \<Rightarrow> get_loop h c [] fs)
      else get_loop h conf (f @ [x]) fs)"

definition Config_get :: "cfg_heap \<Rightarrow> nat \<Rightarrow> string \<Rightarrow> (nat option) res" where
  "Config_get h this key = get_loop h this [] (path_text key)"

definition get_str :: "cfg_heap \<Rightarrow> nat \<Rightarrow> string \<Rightarrow> string res" where
  "get_str h this key =
     bindr (Config_get h this key) (\<lambda>c.
     case c of None \<Rightarrow> Inr [] | Some c \<Rightarrow> bindr (mem_get h c) (\<lambda>x. Inr (cfg_val x)))"

text \<open>\<open>atoi\<close> of the C library: \<open>strtol\<close>, which stops at the limits of \<open>long\<close>, converted to \<open>int\<close>.\<close>

definition decimal_value :: "string \<Rightarrow> int" where
  "decimal_value s = foldl (\<lambda>n c. 10 * n + (int (byte_of c) - 48)) 0 (takeWhile isdigit s)"

definition atoi :: "string \<Rightarrow> int" where
  "atoi s =
     (let t = dropWhile isspace (cstr s);
          v = (case t of [] \<Rightarrow> 0
               | c # r \<Rightarrow> if c = CHR ''-'' then - decimal_value r else if c = CHR ''+'' then decimal_value r else decimal_value t)
      in int32 (max (- (2 ^ 63)) (min (2 ^ 63 - 1) v)))"

definition get_num :: "cfg_heap \<Rightarrow> nat \<Rightarrow> string \<Rightarrow> int res" where
  "get_num h this key =
     bindr (Config_get h this key) (\<lambda>c.
     case c of None \<Rightarrow> Inr 0 | Some c \<Rightarrow> bindr (mem_get h c) (\<lambda>x. Inr (atoi (cfg_val x))))"

text \<open>\<open>str_to_int64\<close> is a function of the missing header.\<close>

definition get_int64 :: "(string \<Rightarrow> int) \<Rightarrow> cfg_heap \<Rightarrow> nat \<Rightarrow> string \<Rightarrow> int res" where
  "get_int64 str_to_int64 h this key =
     bindr (Config_get h this key) (\<lambda>c.
     case c of None \<Rightarrow> Inr 0 | Some c \<Rightarrow> bindr (mem_get h c) (\<lambda>x. Inr (str_to_int64 (cfg_val x))))"

section \<open>Writing and reading files\<close>

definition is_comment :: "config \<Rightarrow> bool" where
  "is_comment c \<longleftrightarrow> cfg_key c \<noteq> [] \<and> hd (cfg_key c) = CHR ''#''"

text \<open>\<open>save\<close> for the children \<open>cs\<close> of a node of depth \<open>d\<close>, with fuel for the nesting.\<close>

definition save_line :: "int \<Rightarrow> config \<Rightarrow> string" where
  "save_line d c =
     replicate (nat d) TAB @
     (if is_comment c then CHR ''#'' # cstr (cfg_val c) else cstr (cfg_key c) @ '': '' @ cstr (cfg_val c)) @ [LF]"

fun save_nodes :: "nat \<Rightarrow> cfg_heap \<Rightarrow> int \<Rightarrow> nat list \<Rightarrow> (string option) res" where
  "save_nodes n h d [] = Inr (Some [])"
| "save_nodes 0 h d (c # cs) = Inr None"
| "save_nodes (Suc n) h d (c # cs) =
     bindr (mem_get h c) (\<lambda>x.
     bindio (save_nodes n h (cfg_depth x) (cfg_children x)) (\<lambda>inner.
     bindio (save_nodes (Suc n) h d cs) (\<lambda>rest.
     Inr (Some (save_line d x @ inner @ rest)))))"

definition Config_save :: "cfg_heap \<Rightarrow> nat \<Rightarrow> (string option) res" where
  "Config_save h this = bindr (mem_get h this) (\<lambda>x. save_nodes (length h) h (cfg_depth x) (cfg_children x))"

text \<open>\<open>fgets\<close> with a buffer of \<open>CONFIG_MAX_LINE\<close> bytes on the contents of a file: a line and the rest.\<close>

definition fgets :: "string \<Rightarrow> (string \<times> string) option" where
  "fgets s =
     (if s = [] then None
      else let n = min (CONFIG_MAX_LINE - 1) (Suc (length (takeWhile (\<lambda>c. c \<noteq> LF) s))) in Some (take n s, drop n s))"

lemma fgets_shorter: "fgets s = Some (l, r) \<Longrightarrow> length r < length s"
  by (auto simp: fgets_def CONFIG_MAX_LINE_def Let_def min_def split: if_splits)

definition is_kv_seperator :: "char \<Rightarrow> bool" where
  "is_kv_seperator ch \<longleftrightarrow> ch = CHR ''='' \<or> ch = CHR '':''"

fun climb :: "cfg_heap \<Rightarrow> nat \<Rightarrow> nat \<Rightarrow> nat \<Rightarrow> nat res" where
  "climb h root 0 cfg = Inr cfg"
| "climb h root (Suc n) cfg =
     (if cfg \<noteq> root then
        bindr (mem_get h cfg) (\<lambda>x. case cfg_parent x of None \<Rightarrow> Inl OutOfBounds | Some p \<Rightarrow> climb h root n p)
      else climb h root n cfg)"

text \<open>One line: \<open>None\<close> for the jump to \<open>err\<close>, otherwise the heap, \<open>cfg\<close> and \<open>last_indent\<close>.\<close>

type_synonym load_state = "cfg_heap \<times> nat \<times> nat"

definition load_line :: "(string \<Rightarrow> string) \<Rightarrow> nat \<Rightarrow> string \<Rightarrow> load_state \<Rightarrow> (load_state option) res" where
  "load_line trim root buf st =
     (case st of (h, cfg, last_indent) \<Rightarrow>
        let indent = length (takeWhile (\<lambda>c. c = TAB) buf); key = drop indent buf in
        if key \<noteq> [] \<and> hd key = CHR ''#'' then
          bindr (add_child h cfg ''#'' (tl key)) (\<lambda>(_, h). Inr (Some (h, cfg, last_indent)))
        else if last_indent + 1 < indent then Inr None
        else
          bindr (if indent \<le> last_indent then climb h root (last_indent - indent + 1) cfg else Inr cfg) (\<lambda>cfg.
          if key \<noteq> [] \<and> isspace (hd key) then Inr None
          else case dropWhile (\<lambda>c. \<not> is_kv_seperator c) key of
            [] \<Rightarrow> Inr None
          | _ # val \<Rightarrow>
              bindr (add_child h cfg (trim (takeWhile (\<lambda>c. \<not> is_kv_seperator c) key)) (trim val)) (\<lambda>(cfg, h).
              Inr (Some (h, cfg, indent)))))"

function load_loop :: "(string \<Rightarrow> string) \<Rightarrow> (string \<Rightarrow> bool) \<Rightarrow> nat \<Rightarrow> string \<Rightarrow> load_state \<Rightarrow> (load_state option) res" where
  "load_loop trim is_empty_str root file st =
     (case fgets file of
        None \<Rightarrow> Inr (Some st)
      | Some (line, rest) \<Rightarrow>
          if cstr line = [] then Inl OutOfBounds
          else
            let buf = butlast (cstr line) in
            if is_empty_str buf then load_loop trim is_empty_str root rest st
            else bindio (load_line trim root buf st) (\<lambda>st. load_loop trim is_empty_str root rest st))"
  by pat_completeness auto
termination by (relation "measure (\<lambda>(trim, e, root, file, st). length file)") (auto dest: fgets_shorter)

declare load_loop.simps [simp del]

text \<open>\<open>load\<close> for a file with the given contents; \<open>rderr\<close> says whether \<open>ferror\<close> reports an error at the end.\<close>

definition Config_load :: "(string \<Rightarrow> string) \<Rightarrow> (string \<Rightarrow> bool) \<Rightarrow> bool \<Rightarrow> string \<Rightarrow> (cfg_heap option) res" where
  "Config_load trim is_empty_str rderr file =
     bindio (load_loop trim is_empty_str 0 file ([new_Config (Some ''root'') (Some [])], 0, 0)) (\<lambda>(h, _, _).
     if rderr then Inr None else Inr (Some h))"

text \<open>The functions that take a file name: \<open>fopen\<close> gives the contents of a file, or NULL, and whether a file can be written.\<close>

definition Config_load_file ::
    "(string \<Rightarrow> string) \<Rightarrow> (string \<Rightarrow> bool) \<Rightarrow> bool \<Rightarrow> string \<Rightarrow> (string \<Rightarrow> string option) \<Rightarrow> string \<Rightarrow> (cfg_heap option) res" where
  "Config_load_file trim is_empty_str rderr stdin_text fopen filename =
     (case (if cstr filename = ''stdout'' then Some stdin_text else fopen (cstr filename)) of
        None \<Rightarrow> Inr None
      | Some file \<Rightarrow> Config_load trim is_empty_str rderr file)"

definition Config_save_file :: "(string \<Rightarrow> bool) \<Rightarrow> cfg_heap \<Rightarrow> nat \<Rightarrow> string \<Rightarrow> ((int \<times> string) option) res" where
  "Config_save_file writable h this filename =
     (if cstr filename = ''stdout'' \<or> cstr filename = ''stderr'' \<or> writable (cstr filename)
      then bindio (Config_save h this) (\<lambda>txt. Inr (Some (0, txt)))
      else Inr (Some (- 1, [])))"

section \<open>Paths and values\<close>

text \<open>The invariant: children are younger than their parents and point back to them.\<close>

definition cfg_ok :: "cfg_heap \<Rightarrow> bool" where
  "cfg_ok h \<longleftrightarrow> (\<forall>a < length h. \<forall>c \<in> set (cfg_children (h ! a)). a < c \<and> c < length h \<and> cfg_parent (h ! c) = Some a)"

lemma cfg_okD:
  "cfg_ok h \<Longrightarrow> a < length h \<Longrightarrow> c \<in> set (cfg_children (h ! a)) \<Longrightarrow> a < c \<and> c < length h \<and> cfg_parent (h ! c) = Some a"
  unfolding cfg_ok_def by blast

lemma new_ok [simp]: "cfg_ok [new_Config k v]"
  by (simp add: cfg_ok_def new_Config_def)

definition child :: "cfg_heap \<Rightarrow> nat \<Rightarrow> string \<Rightarrow> nat option" where
  "child h a f = find (\<lambda>c. cfg_key (h ! c) = f) (rev (cfg_children (h ! a)))"

fun node_at :: "cfg_heap \<Rightarrow> nat \<Rightarrow> string list \<Rightarrow> nat option" where
  "node_at h a [] = Some a"
| "node_at h a (f # fs) = (case child h a f of None \<Rightarrow> None | Some c \<Rightarrow> node_at h c fs)"

definition val_at :: "cfg_heap \<Rightarrow> nat \<Rightarrow> string list \<Rightarrow> string" where
  "val_at h a fs = (case node_at h a fs of None \<Rightarrow> [] | Some c \<Rightarrow> cfg_val (h ! c))"

definition fields_of :: "string \<Rightarrow> string list" where
  "fields_of key = cut path_char [] (path_text key)"

lemma child_SomeD:
  assumes "cfg_ok h" "a < length h" "child h a f = Some c"
  shows "a < c" "c < length h" "cfg_parent (h ! c) = Some a" "cfg_key (h ! c) = f"
proof -
  have "c \<in> set (cfg_children (h ! a)) \<and> cfg_key (h ! c) = f"
    using assms(3) by (auto simp: child_def find_Some_iff) (metis length_rev nth_mem set_rev)
  then show "a < c" "c < length h" "cfg_parent (h ! c) = Some a" "cfg_key (h ! c) = f"
    using cfg_okD [OF assms(1,2)] by blast+
qed

lemma node_at_append: "node_at h a (xs @ ys) = (case node_at h a xs of None \<Rightarrow> None | Some b \<Rightarrow> node_at h b ys)"
  by (induction xs arbitrary: a) (auto split: option.splits)

lemma node_at_bounds: "cfg_ok h \<Longrightarrow> a < length h \<Longrightarrow> node_at h a fs = Some c \<Longrightarrow> a \<le> c \<and> c < length h"
proof (induction fs arbitrary: a)
  case (Cons f fs)
  then obtain b where b: "child h a f = Some b" "node_at h b fs = Some c" by (auto split: option.splits)
  then show ?case using Cons.IH [OF Cons.prems(1) _ b(2)] child_SomeD [OF Cons.prems(1,2) b(1)] by auto
qed simp

text \<open>A node is reached by one path only.\<close>

lemma node_at_unique:
  assumes ok: "cfg_ok h" "a < length h"
  shows "node_at h a xs = Some c \<Longrightarrow> node_at h a ys = Some c \<Longrightarrow> xs = ys"
proof (induction xs arbitrary: ys c rule: rev_induct)
  have last: "\<exists>p. node_at h a zs = Some p \<and> p < c \<and> cfg_parent (h ! c) = Some p \<and> cfg_key (h ! c) = z"
    if z: "node_at h a (zs @ [z]) = Some c" for zs z c
  proof -
    obtain p where p: "node_at h a zs = Some p" "child h p z = Some c"
      using z by (auto simp: node_at_append split: option.splits)
    then show ?thesis using child_SomeD [OF ok(1) _ p(2)] node_at_bounds [OF ok p(1)] by auto
  qed
  {
    case Nil
    show ?case
    proof (cases ys rule: rev_cases)
      case (snoc zs z)
      then show ?thesis using last [of zs z c] Nil node_at_bounds [OF ok, of zs] by fastforce
    qed simp
  next
    case (snoc x xs)
    obtain p where p: "node_at h a xs = Some p" "p < c" "cfg_parent (h ! c) = Some p" "cfg_key (h ! c) = x"
      using last [OF snoc.prems(1)] by blast
    show ?case
    proof (cases ys rule: rev_cases)
      case Nil
      then show ?thesis using snoc.prems(2) p(1,2) node_at_bounds [OF ok p(1)] by simp
    next
      case ys: (snoc zs z)
      then obtain q where q: "node_at h a zs = Some q" "cfg_parent (h ! c) = Some q" "cfg_key (h ! c) = z"
        using last [of zs z c] snoc.prems(2) by blast
      then show ?thesis using snoc.IH [OF p(1), of zs] p ys by simp
    qed
  }
qed

section \<open>The operations on paths\<close>

lemma find_child_loop_eq:
  "\<forall>c \<in> set cs. c < length h \<Longrightarrow> find_child_loop h cs key = Inr (find (\<lambda>c. cfg_key (h ! c) = cstr key) cs)"
  by (induction cs) auto

lemma find_child_eq: "cfg_ok h \<Longrightarrow> a < length h \<Longrightarrow> find_child h a key = Inr (child h a (cstr key))"
proof -
  assume ok: "cfg_ok h" "a < length h"
  have "\<forall>c \<in> set (rev (cfg_children (h ! a))). c < length h" using cfg_okD [OF ok] unfolding set_rev by blast
  from find_child_loop_eq [OF this, of key] show ?thesis using ok(2) by (simp add: find_child_def child_def)
qed

declare cstr_id [simp]

lemma get_loop_eq:
  "cfg_ok h \<Longrightarrow> a < length h \<Longrightarrow> NUL \<notin> set (f @ fs) \<Longrightarrow> get_loop h a f fs = Inr (node_at h a (cut path_char f fs))"
proof (induction h a f fs rule: get_loop.induct)
  case (1 h conf f)
  then show ?case by (simp add: find_child_eq split: option.splits)
next
  case (2 h conf f x fs)
  then show ?case
    using child_SomeD [OF 2(3,4)] by (auto simp: find_child_eq split: option.splits)
qed

lemma path_text_no_NUL: "NUL \<notin> set (path_text key)"
  by (auto simp: path_text_def cstr_def dest: in_set_takeD set_takeWhileD)

lemma Config_get_eq: "cfg_ok h \<Longrightarrow> a < length h \<Longrightarrow> Config_get h a key = Inr (node_at h a (fields_of key))"
  using path_text_no_NUL by (simp add: Config_get_def fields_of_def get_loop_eq)

lemma get_str_eq: "cfg_ok h \<Longrightarrow> a < length h \<Longrightarrow> get_str h a key = Inr (val_at h a (fields_of key))"
  by (auto simp: get_str_def Config_get_eq val_at_def dest: node_at_bounds split: option.splits)

text \<open>The heap after a child has been added.\<close>

definition with_child :: "cfg_heap \<Rightarrow> nat \<Rightarrow> string \<Rightarrow> string \<Rightarrow> cfg_heap" where
  "with_child h a k v =
     h[a := (h ! a)\<lparr>cfg_children := cfg_children (h ! a) @ [length h]\<rparr>] @
     [\<lparr>cfg_parent = Some a, cfg_depth = cfg_depth (h ! a) + 1, cfg_key = k, cfg_val = v, cfg_children = []\<rparr>]"

lemma add_child_eq:
  "a < length h \<Longrightarrow> NUL \<notin> set k \<Longrightarrow> NUL \<notin> set v \<Longrightarrow> add_child h a k v = Inr (length h, with_child h a k v)"
  by (simp add: add_child_def with_child_def new_Config_def Let_def)

lemma length_with_child [simp]: "length (with_child h a k v) = Suc (length h)"
  by (simp add: with_child_def)

lemma with_child_nth:
  assumes "a < length h"
  shows "with_child h a k v ! length h = \<lparr>cfg_parent = Some a, cfg_depth = cfg_depth (h ! a) + 1, cfg_key = k, cfg_val = v, cfg_children = []\<rparr>"
    "b < length h \<Longrightarrow> with_child h a k v ! b =
       (if b = a then (h ! a)\<lparr>cfg_children := cfg_children (h ! a) @ [length h]\<rparr> else h ! b)"
  using assms by (simp_all add: with_child_def nth_append)

lemma with_child_ok:
  assumes "cfg_ok h" "a < length h"
  shows "cfg_ok (with_child h a k v)"
  unfolding cfg_ok_def
proof (intro allI impI ballI)
  fix b c assume b: "b < length (with_child h a k v)" and c: "c \<in> set (cfg_children (with_child h a k v ! b))"
  consider "b = length h" | "b < length h" "c = length h" "b = a" | "b < length h" "c \<in> set (cfg_children (h ! b))"
    using b c assms(2) by (auto simp: with_child_nth less_Suc_eq split: if_splits)
  then show "b < c \<and> c < length (with_child h a k v) \<and> cfg_parent (with_child h a k v ! c) = Some b"
  proof cases
    case 1
    then show ?thesis using c assms(2) by (simp add: with_child_nth)
  next
    case 2
    then show ?thesis using assms(2) by (simp add: with_child_nth)
  next
    case 3
    then show ?thesis using cfg_okD [OF assms(1) 3] assms(2) by (auto simp: with_child_nth)
  qed
qed

lemma find_cong_set: "(\<And>x. x \<in> set xs \<Longrightarrow> P x = Q x) \<Longrightarrow> find P xs = find Q xs"
  by (induction xs) auto

lemma child_with_child:
  assumes ok: "cfg_ok h" "a < length h" and b: "b < length h"
  shows "child (with_child h a k v) b f = (if b = a \<and> f = k then Some (length h) else child h b f)"
proof -
  have "cfg_key (with_child h a k v ! c) = cfg_key (h ! c)" if "c \<in> set (rev (cfg_children (h ! b)))" for c
    using cfg_okD [OF ok(1) b, of c] that ok(2) by (simp add: with_child_nth)
  then have "find (\<lambda>c. cfg_key (with_child h a k v ! c) = f) (rev (cfg_children (h ! b))) = child h b f"
    unfolding child_def by (intro find_cong_set) simp
  then show ?thesis using ok(2) b by (auto simp: child_def with_child_nth)
qed

lemma node_at_with_child:
  assumes ok: "cfg_ok h" "a < length h" and new: "child h a k = None"
  shows "b < length h \<Longrightarrow> node_at (with_child h a k v) b fs =
    (case node_at h b fs of Some c \<Rightarrow> Some c
     | None \<Rightarrow> if \<exists>gs. fs = gs @ [k] \<and> node_at h b gs = Some a then Some (length h) else None)"
proof (induction fs arbitrary: b)
  case (Cons f fs)
  show ?case
  proof (cases "b = a \<and> f = k")
    case True
    have "node_at (with_child h a k v) (length h) fs = (if fs = [] then Some (length h) else None)"
      using ok(2) by (cases fs) (simp_all add: child_def with_child_nth)
    moreover have "gs = []" if "fs = gs @ [k]" "node_at h a (k # gs) = Some a" for gs
      using that new by simp
    ultimately show ?thesis
      using True new child_with_child [OF ok Cons.prems, of k v f] by (auto simp: Cons_eq_append_conv)
  next
    case False
    then have c: "child (with_child h a k v) b f = child h b f" using child_with_child [OF ok Cons.prems] by auto
    show ?thesis
    proof (cases "child h b f")
      case None
      then show ?thesis using c False by (auto simp: Cons_eq_append_conv)
    next
      case (Some d)
      then show ?thesis
        using c False Cons.IH [OF child_SomeD(2) [OF ok(1) Cons.prems Some]]
        by (auto simp: Cons_eq_append_conv split: option.splits)
    qed
  qed
qed simp

text \<open>What building a path keeps: the nodes there are and the values of all paths.\<close>

definition grows :: "cfg_heap \<Rightarrow> cfg_heap \<Rightarrow> bool" where
  "grows h h' \<longleftrightarrow> cfg_ok h' \<and> length h \<le> length h' \<and>
     (\<forall>b < length h. \<forall>fs. (node_at h b fs \<noteq> None \<longrightarrow> node_at h' b fs = node_at h b fs) \<and> val_at h' b fs = val_at h b fs)"

lemma grows_refl: "cfg_ok h \<Longrightarrow> grows h h"
  by (simp add: grows_def)

lemma grows_trans: "grows h h' \<Longrightarrow> grows h' h'' \<Longrightarrow> grows h h''"
  by (auto simp: grows_def)

lemma find_or_add_grows:
  assumes ok: "cfg_ok h" "a < length h" and f: "NUL \<notin> set f"
  shows "\<exists>c h'. find_or_add h a f = Inr (c, h') \<and> grows h h' \<and> c < length h' \<and> child h' a f = Some c"
proof (cases "child h a f")
  case None
  let ?h = "with_child h a f []"
  have "val_at ?h b fs = val_at h b fs" if "b < length h" for b fs
    using node_at_with_child [OF ok None that, of "[]" fs] node_at_bounds [OF ok(1) that, of fs] ok(2)
    by (auto simp: val_at_def with_child_nth split: option.splits if_splits)
  moreover have "node_at ?h b fs = node_at h b fs" if "b < length h" "node_at h b fs \<noteq> None" for b fs
    using node_at_with_child [OF ok None that(1), of "[]" fs] that(2) by auto
  ultimately have "grows h ?h" using with_child_ok [OF ok] by (simp add: grows_def)
  moreover have "child ?h a f = Some (length h)" using child_with_child [OF ok ok(2)] by simp
  ultimately show ?thesis using ok f None by (simp add: find_or_add_def find_child_eq add_child_eq)
next
  case (Some c)
  then show ?thesis
    using child_SomeD(2) [OF ok Some] ok f by (simp add: find_or_add_def find_child_eq grows_refl)
qed

lemma build_loop_grows:
  "cfg_ok h \<Longrightarrow> a < length h \<Longrightarrow> NUL \<notin> set (f @ fs) \<Longrightarrow>
   \<exists>c h'. build_loop h a f fs = Inr (c, h') \<and> grows h h' \<and> c < length h' \<and> node_at h' a (cut path_char f fs) = Some c"
proof (induction fs arbitrary: h a f)
  case Nil
  then show ?case using find_or_add_grows [of h a f] by auto
next
  case (Cons x fs)
  show ?case
  proof (cases "path_char x")
    case False
    then show ?thesis using Cons.IH [of h a "f @ [x]"] Cons.prems by simp
  next
    case True
    obtain c h1 where c: "find_or_add h a f = Inr (c, h1)" "grows h h1" "c < length h1" "child h1 a f = Some c"
      using find_or_add_grows [of h a f] Cons.prems by auto
    have ok: "cfg_ok h1" "a < length h1" using c(2) Cons.prems(2) by (auto simp: grows_def)
    obtain d h2 where d: "build_loop h1 c [] fs = Inr (d, h2)" "grows h1 h2" "d < length h2" "node_at h2 c (cut path_char [] fs) = Some d"
      using Cons.IH [OF ok(1) c(3), of "[]"] Cons.prems(3) by auto
    have "node_at h2 a [f] = Some c" using d(2) ok(2) c(4) unfolding grows_def by (metis node_at.simps option.simps(3,5))
    then have "node_at h2 a (f # cut path_char [] fs) = Some d" using d(4) by (auto split: option.splits)
    then show ?thesis using True c(1) d(1,3) grows_trans [OF c(2) d(2)] by simp
  qed
qed

lemma node_at_same:
  assumes "\<And>b. cfg_children (h' ! b) = cfg_children (h ! b)" "\<And>b. cfg_key (h' ! b) = cfg_key (h ! b)"
  shows "node_at h' b fs = node_at h b fs"
proof (induction fs arbitrary: b)
  case (Cons f fs)
  have "child h' b f = child h b f" by (simp only: child_def assms)
  then show ?case using Cons.IH by (simp split: option.splits)
qed simp

lemma Config_set_grows:
  assumes ok: "cfg_ok h" "a < length h"
  shows "\<exists>c h'. Config_set h a key val = Inr (c, h') \<and> cfg_ok h' \<and> length h \<le> length h' \<and>
    node_at h' a (fields_of key) = Some c \<and>
    (\<forall>fs. val_at h' a fs = (if fs = fields_of key then cstr val else val_at h a fs))"
proof -
  obtain c h1 where c: "build_key_path h a key = Inr (c, h1)" "grows h h1" "c < length h1" "node_at h1 a (fields_of key) = Some c"
    using build_loop_grows [OF ok, of "[]" "path_text key"] path_text_no_NUL by (auto simp: build_key_path_def fields_of_def)
  let ?h = "h1[c := (h1 ! c)\<lparr>cfg_val := cstr val\<rparr>]"
  have ok1: "cfg_ok h1" "a < length h1" using c(2) ok(2) by (auto simp: grows_def)
  have same: "cfg_children (?h ! b) = cfg_children (h1 ! b)" "cfg_key (?h ! b) = cfg_key (h1 ! b)"
    "cfg_parent (?h ! b) = cfg_parent (h1 ! b)" for b
    using c(3) by (simp_all add: nth_list_update)
  note n = node_at_same [of ?h h1, OF same(1,2)]
  have "val_at ?h a fs = (if fs = fields_of key then cstr val else val_at h a fs)" for fs
  proof (cases "fs = fields_of key")
    case True
    then show ?thesis using c(3,4) by (simp add: val_at_def n)
  next
    case False
    then have "node_at h1 a fs \<noteq> Some c" using node_at_unique [OF ok1 _ c(4), of fs] by blast
    then have "val_at ?h a fs = val_at h1 a fs" by (auto simp: val_at_def n nth_list_update split: option.splits)
    then show ?thesis using False c(2) ok(2) by (simp add: grows_def)
  qed
  moreover have "cfg_ok ?h" using ok1(1) unfolding cfg_ok_def same length_list_update .
  ultimately show ?thesis using c n by (simp add: Config_set_def grows_def)
qed

text \<open>C30: \<open>set\<close> and \<open>get_str\<close> behave like a map from paths to values: after \<open>set(key, val)\<close> the path reads
  \<open>val\<close>, every other path reads what it read before, also where \<open>set\<close> had to create nodes on the way, and the tree stays
  well formed.  Two keys name the same path when they have the same fields between the separators.\<close>

theorem Config_set_get:
  assumes "cfg_ok h" "a < length h"
  shows "\<exists>c h'. Config_set h a key val = Inr (c, h') \<and> cfg_ok h' \<and> a < length h' \<and> Config_get h' a key = Inr (Some c) \<and>
    (\<forall>key'. get_str h' a key' = (if fields_of key' = fields_of key then Inr (cstr val) else get_str h a key'))"
proof -
  obtain c h' where "Config_set h a key val = Inr (c, h')" "cfg_ok h'" "length h \<le> length h'"
    "node_at h' a (fields_of key) = Some c" "\<forall>fs. val_at h' a fs = (if fs = fields_of key then cstr val else val_at h a fs)"
    using Config_set_grows [OF assms] by blast
  then show ?thesis using assms by (intro exI [of _ c] exI [of _ h']) (auto simp: get_str_eq Config_get_eq)
qed

theorem Config_set_get_witness:
  "\<exists>c h. Config_set [new_Config (Some ''root'') None] 0 ''proxy.php/port'' ''8088'' = Inr (c, h) \<and>
     get_str h 0 ''proxy/php.port'' = Inr ''8088'' \<and> get_str h 0 ''proxy'' = Inr ''''"
proof -
  let ?h = "[new_Config (Some ''root'') None]"
  obtain c h where h: "Config_set ?h 0 ''proxy.php/port'' ''8088'' = Inr (c, h)"
    "\<forall>key'. get_str h 0 key' = (if fields_of key' = fields_of ''proxy.php/port'' then Inr (cstr ''8088'') else get_str ?h 0 key')"
    using Config_set_get [of ?h 0 "''proxy.php/port''" "''8088''"] by auto
  have f: "fields_of ''proxy.php/port'' = [''proxy'', ''php'', ''port'']" "fields_of ''proxy/php.port'' = [''proxy'', ''php'', ''port'']"
    "fields_of ''proxy'' = [''proxy'']"
    by (simp_all add: fields_of_def path_text_def CONFIG_MAX_LINE_def path_char_def)
  have "get_str ?h 0 ''proxy'' = Inr ''''" using new_ok [of "Some ''root''" None] by (simp add: get_str_eq val_at_def f child_def) (simp add: new_Config_def)
  then show ?thesis using h(1) h(2) [rule_format, of "''proxy/php.port''"] h(2) [rule_format, of "''proxy''"]
    by (intro exI [of _ c] exI [of _ h]) (simp add: f)
qed

end
