(* ===== verification/ConfigFile.thy ===== *)
theory ConfigFile
  imports Config
begin

text \<open>
  The file format of \<open>util/config.cpp\<close>: a tree that \<open>save\<close> has written is read back by \<open>load\<close>, node by node.
  \<open>forest_ok\<close> says for which trees: keys and values without blanks at the ends and without line
  breaks, keys without separators, lines that fit the buffer, and comments before the other children of a node,
  since \<open>load\<close> attaches a comment to the node of the last line.
\<close>

section \<open>What the string functions do\<close>

text \<open>\<open>config.h\<close>: blank characters are tab, space, carriage return and line feed; lines of blanks are ignored, and blanks
  around keys and values are removed.\<close>

definition trims :: "(string \<Rightarrow> string) \<Rightarrow> bool" where
  "trims trim \<longleftrightarrow>
     (\<forall>s. \<exists>a b. s = a @ trim s @ b \<and> list_all trim_char (a @ b) \<and>
        (trim s = [] \<or> \<not> trim_char (hd (trim s)) \<and> \<not> trim_char (last (trim s))))"

definition blanks :: "(string \<Rightarrow> bool) \<Rightarrow> bool" where
  "blanks is_empty_str \<longleftrightarrow> (\<forall>s. is_empty_str s \<longleftrightarrow> list_all trim_char s)"

lemma dropWhile_all: "list_all P a \<Longrightarrow> dropWhile P (a @ s) = dropWhile P s"
  by (induction a) auto

lemma dropWhile_hd: "s = [] \<or> \<not> P (hd s) \<Longrightarrow> dropWhile P s = s"
  by (cases s) auto

lemma Trim_parts:
  assumes "list_all trim_char (a @ b)" "s = [] \<or> \<not> trim_char (hd s) \<and> \<not> trim_char (last s)"
  shows "Trim (a @ s @ b) = s"
proof -
  have ab: "list_all trim_char a" "list_all trim_char (rev b)" "list_all trim_char (rev a)" using assms(1) by simp_all
  have "rev (dropWhile trim_char (rev (a @ s @ b))) = (if s = [] then [] else a @ s)"
  proof (cases "s = []")
    case True
    then show ?thesis using dropWhile_all [OF ab(2), of "rev a"] dropWhile_all [OF ab(3), of "[]"] by simp
  next
    case False
    then have "dropWhile trim_char (rev s @ rev a) = rev s @ rev a"
      using assms(2) by (intro dropWhile_hd) (simp add: hd_append hd_rev)
    then show ?thesis using False dropWhile_all [OF ab(2), of "rev s @ rev a"] by simp
  qed
  then show ?thesis using assms(2) dropWhile_all [OF ab(1), of s] dropWhile_hd [of s trim_char] by (auto simp: Trim_eq)
qed

lemma Trim_ends: "Trim s = [] \<or> \<not> trim_char (hd (Trim s)) \<and> \<not> trim_char (last (Trim s))"
proof (cases "Trim s = []")
  case False
  let ?r = "rev (dropWhile trim_char (rev s))"
  have r: "?r \<noteq> []" using False by (metis Trim_eq dropWhile.simps(1))
  then have "\<not> trim_char (last ?r)" using hd_dropWhile [of trim_char "rev s"] by (simp add: last_rev)
  moreover have "last (dropWhile trim_char ?r) = last ?r"
    using False r by (metis Trim_eq last_appendR takeWhile_dropWhile_id)
  ultimately show ?thesis using False hd_dropWhile [of trim_char ?r] by (simp add: Trim_eq)
qed simp

lemma trims_Trim: "trims Trim"
proof -
  have "\<exists>a b. s = a @ Trim s @ b \<and> list_all trim_char (a @ b)" for s
  proof (intro exI conjI)
    let ?r = "rev (dropWhile trim_char (rev s))"
    have "s = ?r @ rev (takeWhile trim_char (rev s))"
      by (metis rev_append rev_rev_ident takeWhile_dropWhile_id)
    then show "s = takeWhile trim_char ?r @ Trim s @ rev (takeWhile trim_char (rev s))"
      by (simp add: Trim_eq flip: append_assoc)
    show "list_all trim_char (takeWhile trim_char ?r @ rev (takeWhile trim_char (rev s)))"
      by (auto simp: list_all_iff dest: set_takeWhileD)
  qed
  then show ?thesis using Trim_ends by (auto simp: trims_def)
qed

text \<open>There is only one function that trims.\<close>

lemma trims_unique: "trims trim \<Longrightarrow> trim s = Trim s"
  unfolding trims_def by (metis Trim_parts)

lemma Trim_space: "Trim v = v \<Longrightarrow> Trim (CHR '' '' # v) = v"
  using Trim_parts [of "'' ''" "[]" v] Trim_ends [of v] by (simp add: trim_char_def)

section \<open>Trees and their text\<close>

datatype ctree = CNode string string "ctree list"

fun fsize :: "ctree list \<Rightarrow> nat" where
  "fsize [] = 0"
| "fsize (CNode k v us # ts) = Suc (fsize us + fsize ts)"

text \<open>The addresses and the objects of the children of node \<open>p\<close>, from address \<open>b\<close> on, at depth \<open>d\<close>.\<close>

fun addrs :: "nat \<Rightarrow> ctree list \<Rightarrow> nat list" where
  "addrs b [] = []"
| "addrs b (CNode k v us # ts) = b # addrs (Suc (b + fsize us)) ts"

fun fcells :: "nat \<Rightarrow> int \<Rightarrow> nat \<Rightarrow> ctree list \<Rightarrow> cfg_heap" where
  "fcells p d b [] = []"
| "fcells p d b (CNode k v us # ts) =
     \<lparr>cfg_parent = Some p, cfg_depth = d, cfg_key = k, cfg_val = v, cfg_children = addrs (Suc b) us\<rparr> #
     fcells b (d + 1) (Suc b) us @ fcells p d (Suc (b + fsize us)) ts"

definition tree_heap :: "ctree list \<Rightarrow> cfg_heap" where
  "tree_heap ts =
     \<lparr>cfg_parent = None, cfg_depth = 0, cfg_key = ''root'', cfg_val = [], cfg_children = addrs 1 ts\<rparr> # fcells 0 1 1 ts"

fun ftext :: "nat \<Rightarrow> ctree list \<Rightarrow> string" where
  "ftext d [] = []"
| "ftext d (CNode k v us # ts) =
     replicate d TAB @ (if k = ''#'' then CHR ''#'' # v else k @ '': '' @ v) @ LF # ftext (Suc d) us @ ftext d ts"

definition item_ok :: "nat \<Rightarrow> string \<Rightarrow> string \<Rightarrow> bool" where
  "item_ok d k v \<longleftrightarrow>
     Trim k = k \<and> Trim v = v \<and> LF \<notin> set (k @ v) \<and> NUL \<notin> set (k @ v) \<and> list_all (\<lambda>c. \<not> is_kv_seperator c) k \<and>
     (k = [] \<or> hd k \<noteq> CHR ''#'' \<and> \<not> isspace (hd k)) \<and> d + length k + length v + 3 < CONFIG_MAX_LINE"

fun forest_ok :: "nat \<Rightarrow> bool \<Rightarrow> ctree list \<Rightarrow> bool" where
  "forest_ok d first [] = True"
| "forest_ok d first (CNode k v us # ts) =
     (if k = ''#'' then first \<and> us = [] \<and> LF \<notin> set v \<and> NUL \<notin> set v \<and> d + length v + 2 < CONFIG_MAX_LINE \<and> forest_ok d first ts
      else item_ok d k v \<and> forest_ok (Suc d) True us \<and> forest_ok d False ts)"

lemma length_fcells [simp]: "length (fcells p d b ts) = fsize ts"
  by (induction p d b ts rule: fcells.induct) auto

section \<open>Saving\<close>

lemma save_forest:
  "forest_ok d first ts \<Longrightarrow> h = pre @ fcells p (int d + 1) (length pre) ts @ post \<Longrightarrow> fsize ts \<le> n \<Longrightarrow>
   save_nodes n h (int d) (addrs (length pre) ts) = Inr (Some (ftext d ts))"
proof (induction d first ts arbitrary: pre post p n rule: forest_ok.induct)
  case (2 d first k v us ts)
  let ?x = "\<lparr>cfg_parent = Some p, cfg_depth = int d + 1, cfg_key = k, cfg_val = v, cfg_children = addrs (Suc (length pre)) us\<rparr>"
  let ?us = "fcells (length pre) (int d + 1 + 1) (Suc (length pre)) us"
    and ?ts = "fcells p (int d + 1) (Suc (length pre + fsize us)) ts"
  have h: "h = pre @ ?x # ?us @ ?ts @ post" using 2(5) by simp
  obtain m where n: "n = Suc m" "fsize us \<le> m" "fsize ts \<le> n" using 2(6) by (cases n) auto
  have us: "save_nodes m h (int d + 1) (addrs (Suc (length pre)) us) = Inr (Some (ftext (Suc d) us))"
  proof (cases "k = ''#''")
    case True
    then show ?thesis using 2(4) by simp
  next
    case False
    then show ?thesis using 2(2) [OF False, of "pre @ [?x]" "length pre" "?ts @ post" m] 2(4) n(2) h by (simp add: ac_simps)
  qed
  have ts: "save_nodes n h (int d) (addrs (Suc (length pre + fsize us)) ts) = Inr (Some (ftext d ts))"
  proof (cases "k = ''#''")
    case True
    then show ?thesis using 2(1) [OF True, of "pre @ ?x # ?us" p post n] 2(4) n(3) h by auto
  next
    case False
    then show ?thesis using 2(3) [OF False, of "pre @ ?x # ?us" p post n] 2(4) n(3) h by simp
  qed
  have "save_line (int d) ?x = replicate d TAB @ (if k = ''#'' then CHR ''#'' # v else k @ '': '' @ v) @ [LF]"
    using 2(4) by (auto simp: save_line_def is_comment_def item_ok_def split: if_splits)
  moreover have "mem_get h (length pre) = Inr ?x" using h by (simp add: nth_append)
  ultimately show ?case using us ts n(1) by simp
qed simp

section \<open>Loading\<close>

lemma fgets_line: "LF \<notin> set l \<Longrightarrow> length l + 1 < CONFIG_MAX_LINE \<Longrightarrow> fgets (l @ LF # rest) = Some (l @ [LF], rest)"
proof -
  assume l: "LF \<notin> set l" "length l + 1 < CONFIG_MAX_LINE"
  have "takeWhile (\<lambda>c. c \<noteq> LF) (l @ LF # rest) = l" using l(1) by (induction l) auto
  moreover have "min (CONFIG_MAX_LINE - 1) (Suc (length l)) = Suc (length l)" using l(2) by simp
  ultimately show ?thesis by (simp add: fgets_def Let_def)
qed

lemma load_loop_line:
  assumes "LF \<notin> set l" "NUL \<notin> set l" "length l + 1 < CONFIG_MAX_LINE" "\<not> e l" "load_line trim root l st = Inr (Some st')"
  shows "load_loop trim e root (l @ LF # rest) st = load_loop trim e root rest st'"
  using assms fgets_line [OF assms(1,3), of rest]
  by (subst load_loop.simps) (simp add: Let_def)

lemma climb_add: "climb h root (m + n) c = bindr (climb h root m c) (climb h root n)"
proof (induction m arbitrary: c)
  case (Suc m)
  show ?case by (cases "mem_get h c"; cases "cfg_parent (h ! c)") (auto simp: Suc res_iff split: option.splits)
qed simp

text \<open>Nodes keep their parents.\<close>

definition keeps :: "cfg_heap \<Rightarrow> cfg_heap \<Rightarrow> bool" where
  "keeps h h' \<longleftrightarrow> length h \<le> length h' \<and> (\<forall>b < length h. cfg_parent (h' ! b) = cfg_parent (h ! b))"

lemma climb_keeps: "keeps h h' \<Longrightarrow> climb h root n c = Inr a \<Longrightarrow> climb h' root n c = Inr a"
proof (induction n arbitrary: c)
  case (Suc n)
  show ?case
  proof (cases "c = root")
    case True
    then show ?thesis using Suc by simp
  next
    case False
    with Suc.prems(2) obtain p where p: "c < length h" "cfg_parent (h ! c) = Some p" "climb h root n p = Inr a"
      by (auto simp: res_iff split: option.splits)
    then have "c < length h'" "cfg_parent (h' ! c) = Some p" using Suc.prems(1) by (auto simp: keeps_def)
    then show ?thesis using False Suc.IH [OF Suc.prems(1) p(3)] by simp
  qed
qed simp

text \<open>The node a line with \<open>d\<close> tabs belongs to: above \<open>cfg\<close>, or \<open>cfg\<close> itself for the first of its children.\<close>

definition goes :: "cfg_heap \<Rightarrow> nat \<Rightarrow> nat \<Rightarrow> nat \<Rightarrow> nat \<Rightarrow> bool" where
  "goes h c li a d \<longleftrightarrow> d \<le> li + 1 \<and> (if d \<le> li then climb h 0 (li - d + 1) c = Inr a else c = a)"

lemma goes_keeps: "goes h c li a d \<Longrightarrow> keeps h h' \<Longrightarrow> goes h' c li a d"
  unfolding goes_def using climb_keeps [of h h' 0 "li - d + 1" c a] by meson

lemma goes_parent:
  assumes "goes h c li b (Suc d)" "b < length h" "cfg_parent (h ! b) = Some a" "b \<noteq> 0"
  shows "goes h c li a d"
proof -
  have one: "climb h 0 1 b = Inr a" using assms(2-4) by simp
  show ?thesis
  proof (cases "Suc d \<le> li")
    case True
    then have "climb h 0 (li - d) c = Inr b" using assms(1) by (simp add: goes_def Suc_diff_le [symmetric])
    then show ?thesis using True one climb_add [of h 0 "li - d" 1 c] by (simp add: goes_def)
  next
    case False
    then show ?thesis using assms(1) one by (auto simp: goes_def)
  qed
qed

lemma load_comment:
  assumes "a < length h" "NUL \<notin> set v"
  shows "load_line trim 0 (replicate d TAB @ CHR ''#'' # v) (h, a, li) = Inr (Some (with_child h a ''#'' v, a, li))"
proof -
  have "takeWhile (\<lambda>c. c = TAB) (replicate d TAB @ CHR ''#'' # v) = replicate d TAB" by (induction d) auto
  then show ?thesis using assms by (simp add: load_line_def Let_def add_child_eq)
qed

lemma load_item:
  assumes "trims trim" "item_ok d k v" "a < length h" "goes h c li a d"
  shows "load_line trim 0 (replicate d TAB @ k @ '': '' @ v) (h, c, li) = Inr (Some (with_child h a k v, length h, d))"
proof -
  let ?s = "k @ '': '' @ v"
  have no_tab: "hd ?s \<noteq> TAB" using assms(2) by (cases k) (auto simp: item_ok_def isspace_def)
  have i: "takeWhile (\<lambda>c. c = TAB) (replicate d TAB @ ?s) = replicate d TAB"
    using no_tab by (induction d) (auto simp: takeWhile_eq_Nil_iff)
  have hd: "hd ?s \<noteq> CHR ''#''" "\<not> isspace (hd ?s)" using assms(2) by (cases k; auto simp: item_ok_def isspace_def)+
  have sep: "takeWhile (\<lambda>c. \<not> is_kv_seperator c) ?s = k" "dropWhile (\<lambda>c. \<not> is_kv_seperator c) ?s = '': '' @ v"
  proof -
    have "list_all (\<lambda>c. \<not> is_kv_seperator c) k" using assms(2) by (simp add: item_ok_def)
    then show "takeWhile (\<lambda>c. \<not> is_kv_seperator c) ?s = k" "dropWhile (\<lambda>c. \<not> is_kv_seperator c) ?s = '': '' @ v"
      by (induction k) (auto simp: is_kv_seperator_def)
  qed
  have "trim k = k" "trim ('' '' @ v) = v"
    using assms(2) trims_unique [OF assms(1)] by (simp_all add: item_ok_def Trim_space)
  moreover have "(if d \<le> li then climb h 0 (li - d + 1) c else Inr c) = Inr a" "\<not> li + 1 < d"
    using assms(4) by (auto simp: goes_def)
  moreover have "add_child h a k v = Inr (length h, with_child h a k v)"
    using assms(2,3) by (intro add_child_eq) (simp_all add: item_ok_def)
  ultimately show ?thesis using i hd sep by (simp add: load_line_def Let_def)
qed

text \<open>The heap after the children \<open>ts\<close> of node \<open>a\<close> have been loaded.\<close>

definition grow :: "cfg_heap \<Rightarrow> nat \<Rightarrow> nat \<Rightarrow> ctree list \<Rightarrow> cfg_heap" where
  "grow h a d ts =
     h[a := (h ! a)\<lparr>cfg_children := cfg_children (h ! a) @ addrs (length h) ts\<rparr>] @ fcells a (int d + 1) (length h) ts"

lemma grow_Nil: "a < length h \<Longrightarrow> grow h a d [] = h"
proof -
  assume "a < length h"
  have "(h ! a)\<lparr>cfg_children := cfg_children (h ! a)\<rparr> = h ! a" by (cases "h ! a") simp
  then show ?thesis by (simp add: grow_def)
qed

lemma length_grow [simp]: "length (grow h a d ts) = length h + fsize ts"
  by (simp add: grow_def)

lemma keeps_grow: "a < length h \<Longrightarrow> keeps h (grow h a d ts)"
  by (auto simp: keeps_def grow_def nth_append nth_list_update)

lemma keeps_with_child: "a < length h \<Longrightarrow> keeps h (with_child h a k v)"
  by (auto simp: keeps_def with_child_nth)

lemma keeps_trans: "keeps h h' \<Longrightarrow> keeps h' h'' \<Longrightarrow> keeps h h''"
  by (auto simp: keeps_def)

lemma grow_Cons:
  assumes "a < length h" "cfg_depth (h ! a) = int d"
  shows "grow h a d (CNode k v us # ts) = grow (grow (with_child h a k v) (length h) (Suc d) us) a d ts"
proof -
  let ?n = "length h"
  let ?x = "\<lparr>cfg_parent = Some a, cfg_depth = int d + 1, cfg_key = k, cfg_val = v, cfg_children = addrs (Suc ?n) us\<rparr>"
  let ?h = "h[a := (h ! a)\<lparr>cfg_children := cfg_children (h ! a) @ [?n]\<rparr>]"
  have 1: "grow (with_child h a k v) ?n (Suc d) us = ?h @ ?x # fcells ?n (int d + 1 + 1) (Suc ?n) us" (is "_ = ?g")
    using assms by (simp add: grow_def with_child_def list_update_append nth_append ac_simps)
  have "?g ! a = (h ! a)\<lparr>cfg_children := cfg_children (h ! a) @ [?n]\<rparr>" using assms(1) by (simp add: nth_append)
  then show ?thesis
    unfolding 1 using assms(1) by (simp add: grow_def list_update_append)
qed

lemma load_forest:
  assumes str: "trims trim" "blanks e"
  shows "forest_ok d first ts \<Longrightarrow> a < length h \<Longrightarrow> goes h c li a d \<Longrightarrow> (first \<Longrightarrow> c = a) \<Longrightarrow> cfg_depth (h ! a) = int d \<Longrightarrow>
    \<exists>c' li'. load_loop trim e 0 (ftext d ts @ rest) (h, c, li) = load_loop trim e 0 rest (grow h a d ts, c', li') \<and>
      goes (grow h a d ts) c' li' a d"
proof (induction d first ts arbitrary: h a c li rest rule: forest_ok.induct)
  case (1 d first)
  then show ?case by (auto simp: grow_Nil)
next
  case (2 d first k v us ts)
  let ?h1 = "with_child h a k v" and ?n = "length h"
  have depth: "a < length ?h1" "cfg_depth (?h1 ! a) = int d" "cfg_depth (?h1 ! ?n) = int (Suc d)"
    using 2(5,8) by (simp_all add: with_child_nth)
  show ?case
  proof (cases "k = ''#''")
    case True
    let ?l = "replicate d TAB @ CHR ''#'' # v"
    have v: "us = []" "LF \<notin> set v" "NUL \<notin> set v" "d + length v + 2 < CONFIG_MAX_LINE" "first" "forest_ok d first ts" "c = a"
      using 2(4,7) True by auto
    have "\<not> e ?l" using str(2) by (simp add: blanks_def trim_char_def)
    then have "load_loop trim e 0 (?l @ LF # ftext d ts @ rest) (h, c, li) = load_loop trim e 0 (ftext d ts @ rest) (?h1, a, li)"
      using v load_comment [OF 2(5) v(3)] True by (intro load_loop_line) simp_all
    moreover have "goes ?h1 a li a d" using goes_keeps [OF 2(6) keeps_with_child [OF 2(5)]] v(7) by simp
    ultimately show ?thesis
      using 2(1) [OF True v(6) depth(1) _ _ depth(2), of a li rest] True v(1)
      by (simp add: grow_Cons [OF 2(5,8)] grow_Nil)
  next
    case False
    let ?l = "replicate d TAB @ k @ '': '' @ v"
    have k: "item_ok d k v" "forest_ok (Suc d) True us" "forest_ok d False ts" using 2(4) False by simp_all
    have "\<not> e ?l" using str(2) by (simp add: blanks_def trim_char_def)
    then have line: "load_loop trim e 0 (?l @ LF # ftext (Suc d) us @ ftext d ts @ rest) (h, c, li) =
        load_loop trim e 0 (ftext (Suc d) us @ ftext d ts @ rest) (?h1, ?n, d)"
      using k(1) load_item [OF str(1) k(1) 2(5,6)] by (intro load_loop_line) (simp_all add: item_ok_def)
    let ?h2 = "grow ?h1 ?n (Suc d) us"
    have "goes ?h1 ?n d ?n (Suc d)" by (simp add: goes_def)
    then obtain c2 li2 where c2: "load_loop trim e 0 (ftext (Suc d) us @ ftext d ts @ rest) (?h1, ?n, d) =
        load_loop trim e 0 (ftext d ts @ rest) (?h2, c2, li2)" "goes ?h2 c2 li2 ?n (Suc d)"
      using 2(2) [OF False k(2), of ?n ?h1 ?n d "ftext d ts @ rest"] depth(3) by auto
    have k2: "keeps h ?h2" "keeps ?h1 ?h2" using keeps_trans [OF keeps_with_child [OF 2(5)] keeps_grow] keeps_grow by simp_all
    have "cfg_parent (?h2 ! ?n) = Some a" using k2(2) 2(5) by (simp add: keeps_def with_child_nth)
    then have "goes ?h2 c2 li2 a d" using 2(5) by (intro goes_parent [OF c2(2)]) auto
    moreover have "a < length ?h2" "cfg_depth (?h2 ! a) = int d"
      using depth 2(5) by (auto simp: grow_def nth_append nth_list_update)
    ultimately obtain c3 li3 where "load_loop trim e 0 (ftext d ts @ rest) (?h2, c2, li2) = load_loop trim e 0 rest (grow ?h2 a d ts, c3, li3)"
      "goes (grow ?h2 a d ts) c3 li3 a d"
      using 2(3) [OF False k(3), of a ?h2 c2 li2 rest] by auto
    then show ?thesis using line c2(1) False by (intro exI [of _ c3] exI [of _ li3]) (simp add: grow_Cons [OF 2(5,8)])
  qed
qed

text \<open>C31: A tree written by \<open>save\<close> is read back by \<open>load\<close> as the same tree, object for object: keys, values, comments, the
  nesting and the pointers between the nodes, for every tree whose keys and values the format can hold and whose lines fit
  the buffer of \<open>CONFIG_MAX_LINE\<close> bytes, and for every \<open>trim\<close> and \<open>is_empty_str\<close> that do what \<open>config.h\<close> says.\<close>

theorem Config_save_load:
  assumes "trims trim" "blanks is_empty_str" "forest_ok 0 True ts"
  shows "\<exists>txt. Config_save (tree_heap ts) 0 = Inr (Some txt) \<and> Config_load trim is_empty_str False txt = Inr (Some (tree_heap ts))"
proof (intro exI conjI)
  let ?root = "new_Config (Some ''root'') (Some [])"
  have "save_nodes (length (tree_heap ts)) (tree_heap ts) (int 0) (addrs 1 ts) = Inr (Some (ftext 0 ts))"
    using save_forest [OF assms(3), of "tree_heap ts" "[hd (tree_heap ts)]" 0 "[]" "length (tree_heap ts)"]
    by (simp add: tree_heap_def)
  then show "Config_save (tree_heap ts) 0 = Inr (Some (ftext 0 ts))"
    by (simp add: Config_save_def tree_heap_def)
  have "goes [?root] 0 0 0 0" by (simp add: goes_def)
  then obtain c li where "load_loop trim is_empty_str 0 (ftext 0 ts) ([?root], 0, 0) = load_loop trim is_empty_str 0 [] (grow [?root] 0 0 ts, c, li)"
    using load_forest [OF assms(1,2,3), of 0 "[?root]" 0 0 "[]"] by (auto simp: new_Config_def)
  moreover have "load_loop trim is_empty_str 0 [] st = Inr (Some st)" for st by (subst load_loop.simps) (simp add: fgets_def)
  moreover have "grow [?root] 0 0 ts = tree_heap ts" by (simp add: grow_def tree_heap_def new_Config_def)
  ultimately show "Config_load trim is_empty_str False (ftext 0 ts) = Inr (Some (tree_heap ts))" by (simp add: Config_load_def)
qed

theorem Config_save_load_witness:
  "\<exists>txt. Config_save (tree_heap [CNode ''#'' '' servers'' [], CNode ''proxy'' '''' [CNode ''port'' ''8088'' []], CNode ''cgi'' ''/bin'' []]) 0 = Inr (Some txt) \<and>
     Config_load Trim (list_all trim_char) False txt =
       Inr (Some (tree_heap [CNode ''#'' '' servers'' [], CNode ''proxy'' '''' [CNode ''port'' ''8088'' []], CNode ''cgi'' ''/bin'' []]))"
  by (rule Config_save_load [OF trims_Trim])
    (simp_all add: blanks_def item_ok_def CONFIG_MAX_LINE_def Trim_eq trim_char_def is_kv_seperator_def isspace_def)

end
