(* ===== verification/LogFile.thy ===== *)
theory LogFile
  imports Prelude
begin

text \<open>
  The logger of \<open>util/log.cpp\<close>: formatting a line in a buffer of fixed size, writing it, and rotating the file when it has grown
  too large.  The files and the streams that are open on them are part of the state; a stream that has been closed or is
  NULL must not be used.  What \<open>vsnprintf\<close> makes of a message, the clock and whether \<open>fopen\<close>, \<open>fstat\<close> and \<open>rename\<close> succeed
  are parameters.  The lemmas show that a line fits the buffer and what is written, that no line is lost when the file is
  rotated at most once a second, and what happens when a rotation fails.
\<close>

section \<open>Files and streams\<close>

text \<open>A stream is one of the standard streams or open on a file; a \<open>FILE\<close> pointer is its number, \<open>None\<close> is NULL.\<close>

datatype stream = Std nat | OnFile string

record disk =
  d_files :: "string \<rightharpoonup> string"
  d_streams :: "stream option list"
  d_term :: string

definition stdin_fp :: nat where "stdin_fp = 0"
definition stdout_fp :: nat where "stdout_fp = 1"
definition stderr_fp :: nat where "stderr_fp = 2"

definition open_stream :: "disk \<Rightarrow> nat option \<Rightarrow> stream res" where
  "open_stream d f =
     (case f of
        None \<Rightarrow> Inl OutOfBounds
      | Some i \<Rightarrow> bindr (mem_get (d_streams d) i) (\<lambda>s. case s of None \<Rightarrow> Inl OutOfBounds | Some s \<Rightarrow> Inr s))"

definition file_text :: "disk \<Rightarrow> string \<Rightarrow> string" where
  "file_text d p = (case d_files d p of None \<Rightarrow> [] | Some t \<Rightarrow> t)"

definition fwrite :: "disk \<Rightarrow> nat option \<Rightarrow> string \<Rightarrow> disk res" where
  "fwrite d f t =
     bindr (open_stream d f) (\<lambda>s.
     case s of
       Std _ \<Rightarrow> Inr (d\<lparr>d_term := d_term d @ t\<rparr>)
     | OnFile p \<Rightarrow> Inr (d\<lparr>d_files := (d_files d)(p \<mapsto> file_text d p @ t)\<rparr>))"

definition fclose :: "disk \<Rightarrow> nat option \<Rightarrow> disk res" where
  "fclose d f = bindr (open_stream d f) (\<lambda>_. Inr (d\<lparr>d_streams := (d_streams d)[the f := None]\<rparr>))"

text \<open>\<open>fopen(path, "a")\<close>, when it succeeds.\<close>

definition fopen_append :: "disk \<Rightarrow> string \<Rightarrow> nat \<times> disk" where
  "fopen_append d p =
     (length (d_streams d), d\<lparr>d_files := (d_files d)(p \<mapsto> file_text d p), d_streams := d_streams d @ [Some (OnFile p)]\<rparr>)"

definition rename_file :: "disk \<Rightarrow> string \<Rightarrow> string \<Rightarrow> disk" where
  "rename_file d p q = d\<lparr>d_files := (d_files d)(q := d_files d p, p := (if p = q then d_files d p else None))\<rparr>"

section \<open>The logger\<close>

definition LEVEL_NONE :: int where "LEVEL_NONE = - 1"
definition LEVEL_FATAL :: int where "LEVEL_FATAL = 0"
definition LEVEL_ERROR :: int where "LEVEL_ERROR = 1"
definition LEVEL_WARN :: int where "LEVEL_WARN = 2"
definition LEVEL_INFO :: int where "LEVEL_INFO = 3"
definition LEVEL_DEBUG :: int where "LEVEL_DEBUG = 4"
definition LEVEL_TRACE :: int where "LEVEL_TRACE = 5"

lemmas levels = LEVEL_NONE_def LEVEL_FATAL_def LEVEL_ERROR_def LEVEL_WARN_def LEVEL_INFO_def LEVEL_DEBUG_def LEVEL_TRACE_def

record Logger =
  lg_fp :: "nat option"
  lg_filename :: string
  lg_level :: int
  lg_mutex :: bool
  lg_rotate_size :: "64 word"
  w_curr :: "64 word"
  w_total :: "64 word"

definition new_Logger :: Logger where
  "new_Logger =
     \<lparr>lg_fp = Some stdout_fp, lg_filename = [], lg_level = LEVEL_DEBUG, lg_mutex = False, lg_rotate_size = 0, w_curr = 0, w_total = 0\<rparr>"

definition level_name :: "Logger \<Rightarrow> string" where
  "level_name l =
     (if lg_level l = LEVEL_FATAL then ''fatal'' else if lg_level l = LEVEL_ERROR then ''error''
      else if lg_level l = LEVEL_WARN then ''warn'' else if lg_level l = LEVEL_INFO then ''info''
      else if lg_level l = LEVEL_DEBUG then ''debug'' else if lg_level l = LEVEL_TRACE then ''trace'' else [])"

definition get_level :: "string \<Rightarrow> int" where
  "get_level s =
     (if s = ''trace'' then LEVEL_TRACE else if s = ''debug'' then LEVEL_DEBUG else if s = ''info'' then LEVEL_INFO
      else if s = ''warn'' then LEVEL_WARN else if s = ''error'' then LEVEL_ERROR else if s = ''fatal'' then LEVEL_FATAL
      else if s = ''none'' then LEVEL_NONE else LEVEL_DEBUG)"

definition set_log_level :: "string \<Rightarrow> Logger \<Rightarrow> Logger" where
  "set_log_level s l =
     (let ss = map tolower s in
      l\<lparr>lg_level :=
          (if ss = ''fatal'' then LEVEL_FATAL else if ss = ''error'' then LEVEL_ERROR else if ss = ''warn'' then LEVEL_WARN
           else if ss = ''info'' then LEVEL_INFO else if ss = ''debug'' then LEVEL_DEBUG else if ss = ''trace'' then LEVEL_TRACE
           else LEVEL_DEBUG)\<rparr>)"

definition threadsafe :: "Logger \<Rightarrow> Logger" where
  "threadsafe l = l\<lparr>lg_mutex := True\<rparr>"

definition open_fp :: "nat option \<Rightarrow> int \<Rightarrow> bool \<Rightarrow> Logger \<Rightarrow> int \<times> Logger" where
  "open_fp fp level is_threadsafe l =
     (let l = l\<lparr>lg_fp := fp, lg_level := level\<rparr> in (0, if is_threadsafe then threadsafe l else l))"

definition PATH_MAX :: nat where "PATH_MAX = 4096"

text \<open>\<open>can_open\<close> and \<open>can_stat\<close>: whether \<open>fopen\<close> and \<open>fstat\<close> succeed.\<close>

definition open_file :: "bool \<Rightarrow> bool \<Rightarrow> string \<Rightarrow> int \<Rightarrow> bool \<Rightarrow> 64 word \<Rightarrow> Logger \<Rightarrow> disk \<Rightarrow> int \<times> Logger \<times> disk" where
  "open_file can_open can_stat filename level is_threadsafe rotate_size l d =
     (if length filename > PATH_MAX - 20 then (- 1, l, d)
      else
        let l = l\<lparr>lg_level := level, lg_rotate_size := rotate_size, lg_filename := filename\<rparr> in
        if filename = ''stdout'' then case open_fp (Some stdout_fp) level is_threadsafe l of (r, l) \<Rightarrow> (r, l, d)
        else if filename = ''stderr'' then case open_fp (Some stderr_fp) level is_threadsafe l of (r, l) \<Rightarrow> (r, l, d)
        else if \<not> can_open then (- 1, l, d)
        else case fopen_append d filename of (fp, d) \<Rightarrow>
          if \<not> can_stat then (- 1, l, d)
          else case open_fp (Some fp) level is_threadsafe (l\<lparr>w_curr := of_nat (length (file_text d filename))\<rparr>) of (r, l) \<Rightarrow> (r, l, d))"

definition close_logger :: "Logger \<Rightarrow> disk \<Rightarrow> disk res" where
  "close_logger l d = (if lg_fp l \<noteq> Some stdin_fp \<and> lg_fp l \<noteq> Some stdout_fp then fclose d (lg_fp l) else Inr d)"

section \<open>Time stamps\<close>

record tm =
  tm_year :: nat
  tm_mon :: nat
  tm_mday :: nat
  tm_hour :: nat
  tm_min :: nat
  tm_sec :: nat

text \<open>\<open>%04d\<close> and \<open>%02d\<close>.\<close>

definition pad :: "nat \<Rightarrow> nat \<Rightarrow> string" where
  "pad w n = replicate (w - length (show_nat n)) (CHR ''0'') @ show_nat n"

definition rotated_name :: "string \<Rightarrow> tm \<Rightarrow> string" where
  "rotated_name filename t =
     filename @ ''.'' @ pad 4 (tm_year t + 1900) @ pad 2 (tm_mon t + 1) @ pad 2 (tm_mday t) @ ''-'' @
     pad 2 (tm_hour t) @ pad 2 (tm_min t) @ pad 2 (tm_sec t)"

definition log_stamp :: "tm \<Rightarrow> nat \<Rightarrow> string" where
  "log_stamp t usec =
     pad 4 (tm_year t + 1900) @ ''-'' @ pad 2 (tm_mon t + 1) @ ''-'' @ pad 2 (tm_mday t) @ '' '' @
     pad 2 (tm_hour t) @ '':'' @ pad 2 (tm_min t) @ '':'' @ pad 2 (tm_sec t) @ ''.'' @ pad 3 (usec div 1000) @ '' ''"

text \<open>The path of the rotated file is built in a buffer of \<open>PATH_MAX\<close> bytes.  \<open>can_rename\<close> and \<open>can_open\<close> say whether the calls succeed.\<close>

definition rotate_log :: "bool \<Rightarrow> bool \<Rightarrow> tm \<Rightarrow> Logger \<Rightarrow> disk \<Rightarrow> (Logger \<times> disk) res" where
  "rotate_log can_rename can_open t l d =
     bindr (fclose d (lg_fp l)) (\<lambda>d.
     let newpath = rotated_name (lg_filename l) t in
     bindr (check OutOfBounds (length newpath < PATH_MAX)) (\<lambda>_.
     if \<not> can_rename \<or> d_files d (lg_filename l) = None then Inr (l, d)
     else
       let d = rename_file d (lg_filename l) newpath in
       if \<not> can_open then Inr (l\<lparr>lg_fp := None\<rparr>, d)
       else case fopen_append d (lg_filename l) of (fp, d) \<Rightarrow> Inr (l\<lparr>lg_fp := Some fp, w_curr := 0\<rparr>, d)))"

definition get_level_name :: "int \<Rightarrow> string" where
  "get_level_name level =
     (if level = LEVEL_FATAL then ''[FATAL] '' else if level = LEVEL_ERROR then ''[ERROR] ''
      else if level = LEVEL_WARN then ''[WARN ] '' else if level = LEVEL_INFO then ''[INFO ] ''
      else if level = LEVEL_DEBUG then ''[DEBUG] '' else if level = LEVEL_TRACE then ''[TRACE] '' else [])"

definition LEVEL_NAME_LEN :: nat where "LEVEL_NAME_LEN = 8"
definition LOG_BUF_LEN :: nat where "LOG_BUF_LEN = 4096"

text \<open>The line in the buffer: \<open>msg\<close> is the full text that \<open>vsnprintf\<close> formats, of which it stores what fits.\<close>

definition format_line :: "string \<Rightarrow> int \<Rightarrow> tm \<Rightarrow> nat \<Rightarrow> string \<Rightarrow> string res" where
  "format_line buf level t usec msg =
     (let stamp = log_stamp t usec in
      bindr (mem_write buf 0 (stamp @ [NUL])) (\<lambda>buf.
      let ptr = length stamp in
      bindr (mem_read (get_level_name level @ [NUL]) 0 LEVEL_NAME_LEN) (\<lambda>name.
      bindr (mem_write buf ptr name) (\<lambda>buf.
      let ptr = ptr + LEVEL_NAME_LEN; space = LOG_BUF_LEN - ptr - 10; len = length msg in
      bindr (mem_write buf ptr (take (space - 1) msg @ [NUL])) (\<lambda>buf.
      let ptr = ptr + (if len > space then space else len) in
      bindr (mem_write buf ptr [LF]) (\<lambda>buf.
      bindr (mem_write buf (ptr + 1) [NUL]) (\<lambda>buf. mem_read buf 0 (ptr + 1))))))))"

text \<open>\<open>msg\<close> is \<open>None\<close> when \<open>vsnprintf\<close> fails.  The level is compared with \<open>global_level\<close>, that of the logger of the program, whatever logger is
  written to.  The clock is read for the line, \<open>t\<close> and \<open>usec\<close>, and again by a rotation, \<open>t_rot\<close>.\<close>

definition logv :: "int \<Rightarrow> string \<Rightarrow> bool \<Rightarrow> bool \<Rightarrow> tm \<Rightarrow> nat \<Rightarrow> tm \<Rightarrow> int \<Rightarrow> string option \<Rightarrow> Logger \<Rightarrow> disk \<Rightarrow> (int \<times> Logger \<times> disk) res" where
  "logv global_level buf can_rename can_open t usec t_rot level msg l d =
     (if global_level < level then Inr (0, l, d)
      else case msg of
        None \<Rightarrow> Inr (- 1, l, d)
      | Some msg \<Rightarrow>
          bindr (format_line buf level t usec msg) (\<lambda>line.
          bindr (fwrite d (lg_fp l) line) (\<lambda>d.
          let n = of_nat (length line); l = l\<lparr>w_curr := w_curr l + n, w_total := w_total l + n\<rparr> in
          bindr (if 0 < lg_rotate_size l \<and> lg_rotate_size l < w_curr l then rotate_log can_rename can_open t_rot l d else Inr (l, d))
            (\<lambda>(l, d). Inr (int (length line), l, d)))))"

text \<open>\<open>log_write\<close> and the functions for the levels (\<open>trace\<close> to \<open>fatal\<close>) all write to the logger of the program, \<open>logger\<close>.\<close>

definition log_write :: "string \<Rightarrow> bool \<Rightarrow> bool \<Rightarrow> tm \<Rightarrow> nat \<Rightarrow> tm \<Rightarrow> int \<Rightarrow> string option \<Rightarrow> Logger \<Rightarrow> disk \<Rightarrow> (int \<times> Logger \<times> disk) res" where
  "log_write buf can_rename can_open t usec t_rot level msg logger d =
     logv (lg_level logger) buf can_rename can_open t usec t_rot level msg logger d"

section \<open>The line\<close>

text \<open>A time as \<open>localtime_r\<close> gives it, in the years that four digits can hold.\<close>

definition tm_ok :: "tm \<Rightarrow> bool" where
  "tm_ok t \<longleftrightarrow> tm_year t + 1900 < 10000 \<and> tm_mon t < 12 \<and> tm_mday t \<le> 31 \<and> tm_hour t < 24 \<and> tm_min t < 60 \<and> tm_sec t \<le> 60"

lemma length_pad: "n < 10 ^ w \<Longrightarrow> 0 < w \<Longrightarrow> length (pad w n) = w"
  using length_show_nat [of n w] by (simp add: pad_def)

lemma length_stamp: "tm_ok t \<Longrightarrow> usec < 1000000 \<Longrightarrow> length (log_stamp t usec) = 24"
  by (simp add: log_stamp_def tm_ok_def length_pad)

lemma length_rotated_name: "tm_ok t \<Longrightarrow> length (rotated_name f t) = length f + 16"
  by (simp add: rotated_name_def tm_ok_def length_pad)

definition valid_level :: "int \<Rightarrow> bool" where
  "valid_level level \<longleftrightarrow> LEVEL_FATAL \<le> level \<and> level \<le> LEVEL_TRACE"

lemma length_level_name: "valid_level level \<Longrightarrow> length (get_level_name level) = LEVEL_NAME_LEN"
  by (auto simp: valid_level_def get_level_name_def levels LEVEL_NAME_LEN_def)

text \<open>The text of a message in the line: a message that does not fit is cut, with a NUL in the place of its last character.\<close>

definition log_text :: "string \<Rightarrow> string" where
  "log_text msg = (if length msg < 4054 then msg else take 4053 msg @ [NUL])"

definition log_line :: "int \<Rightarrow> tm \<Rightarrow> nat \<Rightarrow> string \<Rightarrow> string" where
  "log_line level t usec msg = log_stamp t usec @ get_level_name level @ log_text msg @ [LF]"

lemma mem_write_end: "length a = i \<Longrightarrow> length xs \<le> length b \<Longrightarrow> mem_write (a @ b) i xs = Inr (a @ xs @ drop (length xs) b)"
  by simp

lemma mem_read_prefix: "length a = n \<Longrightarrow> mem_read (a @ b) 0 n = Inr a"
  by simp

lemma format_line_eq:
  assumes "length buf = LOG_BUF_LEN" "tm_ok t" "usec < 1000000" "valid_level level"
  shows "format_line buf level t usec msg = Inr (log_line level t usec msg)"
proof -
  let ?s = "log_stamp t usec" and ?n = "get_level_name level"
  let ?m = "take 4053 msg @ [NUL]" and ?k = "if 4054 < length msg then 4054 else length msg"
  have l: "length ?s = 24" "length ?n = 8" "length buf = 4096"
    using assms by (simp_all add: length_stamp length_level_name LEVEL_NAME_LEN_def LOG_BUF_LEN_def)
  have 1: "mem_write buf 0 (?s @ [NUL]) = Inr (?s @ NUL # drop 25 buf)" using l by simp
  have 2: "mem_read (?n @ [NUL]) 0 8 = Inr ?n" using l by simp
  have 3: "mem_write (?s @ NUL # drop 25 buf) 24 ?n = Inr ((?s @ ?n) @ drop 32 buf)"
    using mem_write_end [of ?s 24 ?n "NUL # drop 25 buf"] l by simp
  have 4: "mem_write ((?s @ ?n) @ drop 32 buf) 32 ?m = Inr ((?s @ ?n @ ?m) @ drop (length ?m) (drop 32 buf))"
    using mem_write_end [of "?s @ ?n" 32 ?m "drop 32 buf"] l by simp
  define r where "r = drop (length ?m) (drop 32 buf)"
  have r: "length r = 4064 - length ?m" using l by (simp add: r_def)
  have x: "log_text msg = take ?k (?m @ r)" "length (log_text msg) = ?k" "?k \<le> 4054" by (auto simp: log_text_def)
  define y where "y = drop ?k (?m @ r)"
  have y: "?m @ r = log_text msg @ y" unfolding x(1) y_def by (rule append_take_drop_id [symmetric])
  have ly: "length y = 4064 - ?k" by (simp add: y_def r)
  let ?t = "?s @ ?n @ log_text msg"
  have t: "(?s @ ?n @ ?m) @ r = ?t @ y" "length ?t = 32 + ?k" using y x(2) l by simp_all
  have 5: "mem_write (?t @ y) (32 + ?k) [LF] = Inr ((?t @ [LF]) @ drop 1 y)"
    using mem_write_end [OF t(2), of "[LF]" y] ly x(3) by simp
  have 6: "mem_write ((?t @ [LF]) @ drop 1 y) (33 + ?k) [NUL] = Inr ((?t @ [LF]) @ NUL # drop 2 y)"
    using mem_write_end [of "?t @ [LF]" "33 + ?k" "[NUL]" "drop 1 y"] t(2) ly x(3) by (simp add: numeral_2_eq_2)
  have 7: "mem_read ((?t @ [LF]) @ NUL # drop 2 y) 0 (33 + ?k) = Inr (log_line level t usec msg)"
    using mem_read_prefix [of "?t @ [LF]" "33 + ?k"] t(2) by (simp add: log_line_def)
  have 4: "mem_write ((?s @ ?n) @ drop 32 buf) 32 ?m = Inr (?t @ y)" unfolding 4 r_def [symmetric] t(1) ..
  have n: "24 + 8 = (32 :: nat)" "4096 - 32 - 10 = (4054 :: nat)" "4054 - 1 = (4053 :: nat)" "32 + ?k + 1 = 33 + ?k" by simp_all
  show ?thesis
    by (simp only: format_line_def Let_def LEVEL_NAME_LEN_def LOG_BUF_LEN_def l n 1 2 3 4 5 6 7 bindr_simps)
qed

section \<open>Writing and rotating\<close>

text \<open>The logger has its file open, which holds \<open>cur\<close>, and has rotated the files \<open>old\<close> away.\<close>

definition logs_to :: "Logger \<Rightarrow> disk \<Rightarrow> (string \<times> string) list \<Rightarrow> string \<Rightarrow> bool" where
  "logs_to l d old cur \<longleftrightarrow>
     open_stream d (lg_fp l) = Inr (OnFile (lg_filename l)) \<and> d_files d (lg_filename l) = Some cur \<and>
     distinct (map fst old) \<and> (\<forall>(p, t) \<in> set old. p \<noteq> lg_filename l \<and> d_files d p = Some t)"

lemma open_streamD:
  "open_stream d f = Inr s \<Longrightarrow> \<exists>i. f = Some i \<and> i < length (d_streams d) \<and> d_streams d ! i = Some s"
  by (auto simp: open_stream_def res_iff split: option.splits)

lemma open_stream_files [simp]: "open_stream (d\<lparr>d_files := fs\<rparr>) f = open_stream d f"
  by (simp add: open_stream_def cong: option.case_cong)

lemma fwrite_logs_to:
  assumes "logs_to l d old cur"
  shows "\<exists>d'. fwrite d (lg_fp l) t = Inr d' \<and> logs_to l d' old (cur @ t) \<and> length (d_streams d') = length (d_streams d)"
  using assms by (auto simp: logs_to_def fwrite_def file_text_def)

lemma rotate_logs_to:
  assumes ok: "logs_to l d old cur" and "tm_ok t" "length (lg_filename l) + 16 < PATH_MAX"
    and new: "rotated_name (lg_filename l) t \<notin> set (map fst old)"
  shows "\<exists>d'. rotate_log True True t l d = Inr (l\<lparr>lg_fp := Some (length (d_streams d)), w_curr := 0\<rparr>, d') \<and>
    logs_to (l\<lparr>lg_fp := Some (length (d_streams d)), w_curr := 0\<rparr>) d' (old @ [(rotated_name (lg_filename l) t, cur)]) []"
proof -
  let ?f = "lg_filename l" and ?q = "rotated_name (lg_filename l) t"
  have q: "?q \<noteq> ?f" "length ?q < PATH_MAX"
    using length_rotated_name [OF assms(2), of ?f] assms(3) by auto
  obtain i where i: "lg_fp l = Some i" "i < length (d_streams d)" "d_streams d ! i = Some (OnFile ?f)"
    using ok open_streamD [of d "lg_fp l"] by (auto simp: logs_to_def)
  let ?fs = "(d_files d)(?q := Some cur, ?f := Some [])"
  let ?d = "d\<lparr>d_streams := (d_streams d)[i := None] @ [Some (OnFile ?f)], d_files := ?fs\<rparr>"
  have "rotate_log True True t l d = Inr (l\<lparr>lg_fp := Some (length (d_streams d)), w_curr := 0\<rparr>, ?d)"
    using ok q i by (simp add: rotate_log_def fclose_def logs_to_def rename_file_def fopen_append_def file_text_def Let_def)
  moreover have "open_stream ?d (Some (length (d_streams d))) = Inr (OnFile ?f)"
    by (simp add: open_stream_def nth_append)
  moreover have "\<forall>(p, t) \<in> set (old @ [(?q, cur)]). p \<noteq> ?f \<and> ?fs p = Some t"
    using ok q(1) new by (force simp: logs_to_def)
  ultimately show ?thesis using ok new by (simp add: logs_to_def)
qed

lemma rotate_new_fp:
  assumes "logs_to l d old cur" "rotate_log True True t l d = Inr (l', d')"
  shows "lg_fp l' = Some (length (d_streams d))"
  using assms by (auto simp: rotate_log_def fclose_def res_iff logs_to_def rename_file_def fopen_append_def Let_def split: if_splits)

text \<open>A line to log: the buffer, the time, the time of a rotation that the line causes, the level and the message.\<close>

record log_event =
  ev_buf :: string
  ev_tm :: tm
  ev_usec :: nat
  ev_rot :: tm
  ev_level :: int
  ev_msg :: string

definition event_ok :: "log_event \<Rightarrow> bool" where
  "event_ok e \<longleftrightarrow> length (ev_buf e) = LOG_BUF_LEN \<and> tm_ok (ev_tm e) \<and> ev_usec e < 1000000 \<and> tm_ok (ev_rot e) \<and> valid_level (ev_level e)"

definition log_event_line :: "Logger \<Rightarrow> log_event \<Rightarrow> string" where
  "log_event_line l e = (if lg_level l < ev_level e then [] else log_line (ev_level e) (ev_tm e) (ev_usec e) (ev_msg e))"

definition log_one :: "log_event \<Rightarrow> Logger \<times> disk \<Rightarrow> (int \<times> Logger \<times> disk) res" where
  "log_one e s = (case s of (l, d) \<Rightarrow> log_write (ev_buf e) True True (ev_tm e) (ev_usec e) (ev_rot e) (ev_level e) (Some (ev_msg e)) l d)"

lemma log_one_step:
  assumes ok: "logs_to l d old cur" and e: "event_ok e" and len: "length (lg_filename l) + 16 < PATH_MAX"
    and new: "rotated_name (lg_filename l) (ev_rot e) \<notin> set (map fst old) \<or> (\<exists>n l' d'. log_one e (l, d) = Inr (n, l', d') \<and> lg_fp l' = lg_fp l)"
  shows "\<exists>n l' d' old' cur'. log_one e (l, d) = Inr (n, l', d') \<and> logs_to l' d' old' cur' \<and>
    lg_filename l' = lg_filename l \<and> lg_level l' = lg_level l \<and>
    concat (map snd old') @ cur' = concat (map snd old) @ cur @ log_event_line l e \<and>
    map fst old' = map fst old @ (if lg_fp l' = lg_fp l then [] else [rotated_name (lg_filename l) (ev_rot e)])"
proof (cases "lg_level l < ev_level e")
  case True
  then show ?thesis using ok by (auto simp: log_one_def log_write_def logv_def log_event_line_def)
next
  case False
  let ?line = "log_line (ev_level e) (ev_tm e) (ev_usec e) (ev_msg e)" and ?f = "lg_filename l"
  define l1 where "l1 = l\<lparr>w_curr := w_curr l + of_nat (length ?line), w_total := w_total l + of_nat (length ?line)\<rparr>"
  have l1: "lg_fp l1 = lg_fp l" "lg_filename l1 = ?f" "lg_level l1 = lg_level l" by (simp_all add: l1_def)
  obtain d1 where d1: "fwrite d (lg_fp l) ?line = Inr d1" "logs_to l d1 old (cur @ ?line)" "length (d_streams d1) = length (d_streams d)"
    using fwrite_logs_to [OF ok] by blast
  then have ok1: "logs_to l1 d1 old (cur @ ?line)" by (simp add: logs_to_def l1)
  have one: "log_one e (l, d) =
      bindr (if 0 < lg_rotate_size l1 \<and> lg_rotate_size l1 < w_curr l1 then rotate_log True True (ev_rot e) l1 d1 else Inr (l1, d1))
        (\<lambda>(l, d). Inr (int (length ?line), l, d))"
    using False e d1(1) by (simp add: log_one_def log_write_def logv_def event_ok_def format_line_eq Let_def l1_def)
  have line: "log_event_line l e = ?line" using False by (simp add: log_event_line_def)
  show ?thesis
  proof (cases "0 < lg_rotate_size l1 \<and> lg_rotate_size l1 < w_curr l1")
    case rot: True
    let ?l2 = "l1\<lparr>lg_fp := Some (length (d_streams d1)), w_curr := 0\<rparr>" and ?q = "rotated_name ?f (ev_rot e)"
    have one: "log_one e (l, d) = bindr (rotate_log True True (ev_rot e) l1 d1) (\<lambda>(l, d). Inr (int (length ?line), l, d))"
      using one by (simp only: rot if_True simp_thms)
    have fp: "lg_fp l \<noteq> Some (length (d_streams d1))" using ok d1(3) open_streamD [of d "lg_fp l"] by (auto simp: logs_to_def)
    have new': "rotated_name (lg_filename l1) (ev_rot e) \<notin> set (map fst old)"
    proof (rule ccontr)
      assume "\<not> ?thesis"
      then obtain n l' d' where l': "log_one e (l, d) = Inr (n, l', d')" "lg_fp l' = lg_fp l" using new l1(2) by metis
      then have "rotate_log True True (ev_rot e) l1 d1 = Inr (l', d')" using one by (auto simp: res_iff)
      then have "lg_fp l' = Some (length (d_streams d1))" by (rule rotate_new_fp [OF ok1])
      then show False using l'(2) fp by simp
    qed
    obtain d2 where d2: "rotate_log True True (ev_rot e) l1 d1 = Inr (?l2, d2)" "logs_to ?l2 d2 (old @ [(?q, cur @ ?line)]) []"
      using rotate_logs_to [OF ok1 _ _ new'] e len l1(2) by (auto simp: event_ok_def)
    then have "log_one e (l, d) = Inr (int (length ?line), ?l2, d2)" unfolding one by simp
    then show ?thesis using d2(2) fp l1 line
      by (intro exI [of _ "int (length ?line)"] exI [of _ ?l2] exI [of _ d2] exI [of _ "old @ [(?q, cur @ ?line)]"] exI [of _ "[]"]) simp
  next
    case False
    then have "log_one e (l, d) = Inr (int (length ?line), l1, d1)" unfolding one by (simp only: if_False bindr_simps prod.case)
    then show ?thesis using ok1 l1 line
      by (intro exI [of _ "int (length ?line)"] exI [of _ l1] exI [of _ d1] exI [of _ old] exI [of _ "cur @ ?line"]) simp
  qed
qed

lemma rotate_returns:
  assumes "logs_to l d old cur" "tm_ok t" "length (lg_filename l) + 16 < PATH_MAX"
  shows "\<exists>r. rotate_log True True t l d = Inr r"
  using assms length_rotated_name [OF assms(2), of "lg_filename l"]
  by (simp add: rotate_log_def fclose_def logs_to_def rename_file_def fopen_append_def Let_def)

lemma log_one_returns:
  assumes "logs_to l d old cur" "event_ok e" "length (lg_filename l) + 16 < PATH_MAX"
  shows "\<exists>r. log_one e (l, d) = Inr r"
proof -
  let ?line = "log_line (ev_level e) (ev_tm e) (ev_usec e) (ev_msg e)"
  let ?l = "l\<lparr>w_curr := w_curr l + of_nat (length ?line), w_total := w_total l + of_nat (length ?line)\<rparr>"
  obtain d1 where d1: "fwrite d (lg_fp l) ?line = Inr d1" "logs_to l d1 old (cur @ ?line)" using fwrite_logs_to [OF assms(1)] by blast
  then have "logs_to ?l d1 old (cur @ ?line)" by (simp add: logs_to_def)
  then obtain r where "rotate_log True True (ev_rot e) ?l d1 = Inr r"
    using rotate_returns [of ?l d1 old "cur @ ?line" "ev_rot e"] assms(2,3) by (fastforce simp: event_ok_def)
  then show ?thesis
    using d1(1) assms(2) by (simp add: log_one_def log_write_def logv_def event_ok_def format_line_eq Let_def split: prod.splits)
qed

fun log_all :: "log_event list \<Rightarrow> Logger \<times> disk \<Rightarrow> (Logger \<times> disk) res" where
  "log_all [] s = Inr s"
| "log_all (e # es) s = bindr (log_one e s) (\<lambda>(_, s). log_all es s)"

text \<open>No two rotations happen in the same second: each takes a name that is not among \<open>names\<close>.\<close>

fun fresh_rotations :: "string list \<Rightarrow> log_event list \<Rightarrow> Logger \<times> disk \<Rightarrow> bool" where
  "fresh_rotations names [] s = True"
| "fresh_rotations names (e # es) s =
     (case log_one e s of
        Inl _ \<Rightarrow> True
      | Inr (_, s') \<Rightarrow>
          if lg_fp (fst s') = lg_fp (fst s) then fresh_rotations names es s'
          else let q = rotated_name (lg_filename (fst s)) (ev_rot e) in q \<notin> set names \<and> fresh_rotations (names @ [q]) es s')"

lemma log_all_keeps:
  "logs_to l d old cur \<Longrightarrow> list_all event_ok es \<Longrightarrow> length (lg_filename l) + 16 < PATH_MAX \<Longrightarrow>
   fresh_rotations (map fst old) es (l, d) \<Longrightarrow>
   \<exists>l' d' old' cur'. log_all es (l, d) = Inr (l', d') \<and> logs_to l' d' old' cur' \<and> lg_filename l' = lg_filename l \<and>
     concat (map snd old') @ cur' = concat (map snd old) @ cur @ concat (map (log_event_line l) es)"
proof (induction es arbitrary: l d old cur)
  case (Cons e es)
  have e: "event_ok e" "list_all event_ok es" using Cons.prems(2) by simp_all
  have "rotated_name (lg_filename l) (ev_rot e) \<notin> set (map fst old) \<or> (\<exists>n l' d'. log_one e (l, d) = Inr (n, l', d') \<and> lg_fp l' = lg_fp l)
      \<or> (\<exists>x. log_one e (l, d) = Inl x)"
    using Cons.prems(4) by (auto simp: Let_def split: sum.splits if_splits)
  moreover have "\<exists>r. log_one e (l, d) = Inr r" if "rotated_name (lg_filename l) (ev_rot e) \<in> set (map fst old)"
    by (rule log_one_returns [OF Cons.prems(1) e(1) Cons.prems(3)])
  ultimately obtain n l1 d1 old1 cur1 where s: "log_one e (l, d) = Inr (n, l1, d1)" "logs_to l1 d1 old1 cur1"
    "lg_filename l1 = lg_filename l" "lg_level l1 = lg_level l"
    "concat (map snd old1) @ cur1 = concat (map snd old) @ cur @ log_event_line l e"
    "map fst old1 = map fst old @ (if lg_fp l1 = lg_fp l then [] else [rotated_name (lg_filename l) (ev_rot e)])"
    using log_one_step [OF Cons.prems(1) e(1) Cons.prems(3)] by (metis Inl_Inr_False)
  have "fresh_rotations (map fst old1) es (l1, d1)"
    using Cons.prems(4) s(1,6) by (simp add: Let_def split: if_splits)
  then obtain l' d' old' cur' where "log_all es (l1, d1) = Inr (l', d')" "logs_to l' d' old' cur'" "lg_filename l' = lg_filename l1"
    "concat (map snd old') @ cur' = concat (map snd old1) @ cur1 @ concat (map (log_event_line l1) es)"
    using Cons.IH [OF s(2) e(2)] Cons.prems(3) s(3) by auto
  moreover have "log_event_line l1 = log_event_line l" using s(4) by (simp add: log_event_line_def fun_eq_iff)
  ultimately show ?case using s(1,3,5) by (auto simp flip: append_assoc)
qed auto

section \<open>Properties\<close>

text \<open>C32: No line is lost.  When a logger has been opened on a file and any lines are logged at any levels, rotating the file as
  often as its size asks for, then every call returns and stays inside its buffer, and the rotated files in their order followed by the
  current file hold what the file held at first followed by exactly the lines of the enabled levels, in order; provided that
  the calls for files succeed and no two rotations fall into the same second (otherwise the later one replaces the file of the earlier one).\<close>

theorem log_no_line_lost:
  assumes "open_file True True filename level safe rsize l0 d0 = (0, l, d)" "filename \<noteq> ''stdout''" "filename \<noteq> ''stderr''"
    and "list_all event_ok es" "length filename \<le> PATH_MAX - 20" "fresh_rotations [] es (l, d)"
  shows "\<exists>l' d' old cur. log_all es (l, d) = Inr (l', d') \<and> distinct (map fst old) \<and>
    (\<forall>(p, t) \<in> set old. d_files d' p = Some t) \<and> d_files d' filename = Some cur \<and>
    concat (map snd old) @ cur = file_text d0 filename @ concat (map (log_event_line l) es)"
proof -
  have l: "lg_filename l = filename" "logs_to l d [] (file_text d0 filename)"
    using assms(1-3,5)
    by (auto simp: open_file_def open_fp_def threadsafe_def fopen_append_def logs_to_def open_stream_def nth_append Let_def split: if_splits)
  have "length (lg_filename l) + 16 < PATH_MAX" using assms(5) l(1) by (simp add: PATH_MAX_def)
  then obtain l' d' old cur where "log_all es (l, d) = Inr (l', d')" "logs_to l' d' old cur" "lg_filename l' = lg_filename l"
    "concat (map snd old) @ cur = file_text d0 filename @ concat (map (log_event_line l) es)"
    using log_all_keeps [OF l(2) assms(4)] assms(6) by auto
  then show ?thesis using l(1) by (intro exI [of _ l'] exI [of _ d'] exI [of _ old] exI [of _ cur]) (auto simp: logs_to_def)
qed

text \<open>A disk with one file, and a line for the witnesses.\<close>

definition sample_disk :: disk where
  "sample_disk = \<lparr>d_files = [''a.log'' \<mapsto> ''old''], d_streams = [Some (Std 0), Some (Std 1), Some (Std 2)], d_term = []\<rparr>"

definition sample_event :: log_event where
  "sample_event =
     \<lparr>ev_buf = replicate 4096 NUL, ev_tm = \<lparr>tm_year = 114, tm_mon = 5, tm_mday = 9, tm_hour = 10, tm_min = 30, tm_sec = 1\<rparr>,
      ev_usec = 5000, ev_rot = \<lparr>tm_year = 114, tm_mon = 5, tm_mday = 9, tm_hour = 10, tm_min = 30, tm_sec = 2\<rparr>, ev_level = 1, ev_msg = ''hi''\<rparr>"

lemma sample_event_ok: "event_ok sample_event"
  by (simp add: event_ok_def sample_event_def LOG_BUF_LEN_def tm_ok_def valid_level_def levels)

theorem log_no_line_lost_witness:
  "\<exists>l d l' d' old cur. open_file True True ''a.log'' 4 False 10 new_Logger sample_disk = (0, l, d) \<and>
     log_all [sample_event] (l, d) = Inr (l', d') \<and> (\<forall>(p, t) \<in> set old. d_files d' p = Some t) \<and> d_files d' ''a.log'' = Some cur \<and>
     concat (map snd old) @ cur = ''old'' @ log_event_line l sample_event"
proof -
  obtain l d where o: "open_file True True ''a.log'' 4 False 10 new_Logger sample_disk = (0, l, d)"
    by (simp add: open_file_def open_fp_def fopen_append_def PATH_MAX_def Let_def)
  have "fresh_rotations [] [sample_event] (l, d)" by (simp split: sum.splits prod.splits)
  with log_no_line_lost [OF o, of "[sample_event]"] show ?thesis
    using o sample_event_ok by (fastforce simp: PATH_MAX_def file_text_def sample_disk_def)
qed

text \<open>A rotation that fails leaves the logger with a closed stream: when the file cannot be renamed, the call that rotates still
  returns, and the next line of an enabled level is written to a \<open>FILE\<close> that has been closed.\<close>

theorem failed_rotation_uses_closed_file:
  assumes "logs_to l d old cur" "event_ok e" "event_ok e'" "length (lg_filename l) + 16 < PATH_MAX"
    and "ev_level e \<le> lg_level l" "ev_level e' \<le> lg_level l" "0 < lg_rotate_size l"
    and "lg_rotate_size l < w_curr l + of_nat (length (log_line (ev_level e) (ev_tm e) (ev_usec e) (ev_msg e)))"
  shows "\<exists>n l' d'. log_write (ev_buf e) False True (ev_tm e) (ev_usec e) (ev_rot e) (ev_level e) (Some (ev_msg e)) l d = Inr (n, l', d') \<and>
    log_one e' (l', d') = Inl OutOfBounds"
proof -
  let ?line = "log_line (ev_level e) (ev_tm e) (ev_usec e) (ev_msg e)"
  define l1 where "l1 = l\<lparr>w_curr := w_curr l + of_nat (length ?line), w_total := w_total l + of_nat (length ?line)\<rparr>"
  obtain d1 where d1: "fwrite d (lg_fp l) ?line = Inr d1" "logs_to l d1 old (cur @ ?line)" using fwrite_logs_to [OF assms(1)] by blast
  obtain i where i: "lg_fp l = Some i" "i < length (d_streams d1)" "open_stream d1 (Some i) = Inr (OnFile (lg_filename l))"
    using d1(2) open_streamD [of d1 "lg_fp l"] by (auto simp: logs_to_def)
  let ?d2 = "d1\<lparr>d_streams := (d_streams d1)[i := None]\<rparr>"
  have rot: "rotate_log False True (ev_rot e) l1 d1 = Inr (l1, ?d2)"
    using i length_rotated_name [of "ev_rot e" "lg_filename l"] assms(2,4)
    by (simp add: rotate_log_def fclose_def l1_def Let_def event_ok_def)
  have "log_write (ev_buf e) False True (ev_tm e) (ev_usec e) (ev_rot e) (ev_level e) (Some (ev_msg e)) l d = Inr (int (length ?line), l1, ?d2)"
    using assms(2,5,7,8) d1(1) rot by (simp add: log_write_def logv_def event_ok_def format_line_eq Let_def flip: l1_def)
  moreover have "open_stream ?d2 (lg_fp l1) = Inl OutOfBounds" using i(1,2) by (simp add: open_stream_def l1_def)
  then have "log_one e' (l1, ?d2) = Inl OutOfBounds"
    using assms(3,6) by (simp add: log_one_def log_write_def logv_def event_ok_def format_line_eq fwrite_def l1_def)
  ultimately show ?thesis by blast
qed

theorem failed_rotation_uses_closed_file_witness:
  "\<exists>l d n l' d'. log_write (ev_buf sample_event) False True (ev_tm sample_event) 5000 (ev_rot sample_event) 1 (Some ''hi'') l d = Inr (n, l', d') \<and>
     log_one sample_event (l', d') = Inl OutOfBounds"
proof -
  let ?d = "sample_disk\<lparr>d_streams := [Some (OnFile ''a.log'')]\<rparr>" and ?l = "new_Logger\<lparr>lg_fp := Some 0, lg_filename := ''a.log'', lg_rotate_size := 10\<rparr>"
  have l: "logs_to ?l ?d [] ''old''" by (simp add: logs_to_def sample_disk_def open_stream_def)
  have t: "tm_ok (ev_tm sample_event)" "ev_usec sample_event = 5000" "ev_level sample_event = 1" "ev_msg sample_event = ''hi''"
    by (simp_all add: sample_event_def tm_ok_def)
  have n: "length (log_line 1 (ev_tm sample_event) 5000 ''hi'') = 35"
    using length_stamp [OF t(1), of 5000] by (simp add: log_line_def log_text_def get_level_name_def levels)
  have "\<exists>n l' d'. log_write (ev_buf sample_event) False True (ev_tm sample_event) 5000 (ev_rot sample_event) 1 (Some ''hi'') ?l ?d = Inr (n, l', d') \<and>
     log_one sample_event (l', d') = Inl OutOfBounds"
    using failed_rotation_uses_closed_file [OF l sample_event_ok sample_event_ok] n
    by (simp add: t PATH_MAX_def new_Logger_def levels)
  then show ?thesis by blast
qed

end
