(* ===== verification/FileHelper.thy ===== *)
theory FileHelper
  imports SdsText
begin

text \<open>
  The class \<open>FileHelper\<close> of \<open>helper/util/file_helper.cpp\<close>.  A file is its contents and its modification time.  What
  the kernel does with a call is a parameter: a list of answers for \<open>read\<close> and \<open>write\<close>, which may be short, interrupted or
  fail (when the list is used up every call does all it is asked for), and the calls that fail.  The lemmas show that \<open>Readn\<close>
  and \<open>Writen\<close> hide short and interrupted calls, and that \<open>CopyFile\<close> is all or nothing.  Error texts are left out.
\<close>

section \<open>Files and system calls\<close>

type_synonym files = "string \<rightharpoonup> string \<times> nat"

definition text_of :: "files \<Rightarrow> string \<Rightarrow> string" where
  "text_of fs p = (case fs p of None \<Rightarrow> [] | Some (t, _) \<Rightarrow> t)"

text \<open>An answer of the kernel: the number of bytes it is ready to transfer, \<open>EINTR\<close> or \<open>EAGAIN\<close>, or another error.\<close>

datatype answer = Transfer nat | Again | Fails

fun io_call :: "answer list \<Rightarrow> answer option \<times> answer list" where
  "io_call [] = (None, [])"
| "io_call (k # ks) = (Some k, ks)"

section \<open>Reading and writing all of it\<close>

text \<open>\<open>Readn\<close>: the bytes read (\<open>None\<close> for -1) from what is left of the file, the rest and the answers not used.  An interrupted call is
  repeated with nothing read; the list of answers is finite, so that the calls are not interrupted for ever.\<close>

fun Readn_loop :: "answer list \<Rightarrow> string \<Rightarrow> nat \<Rightarrow> string \<Rightarrow> (string option) \<times> string \<times> answer list" where
  "Readn_loop [] rest nleft got = (Some (got @ take nleft rest), drop nleft rest, [])"
| "Readn_loop (k # ks) rest nleft got =
     (if nleft = 0 then (Some got, rest, k # ks)
      else case k of
        Again \<Rightarrow> Readn_loop ks rest nleft got
      | Fails \<Rightarrow> (None, rest, ks)
      | Transfer m \<Rightarrow>
          let nread = min (Suc m) (min nleft (length rest)) in
          if nread = 0 then (Some got, rest, ks)
          else Readn_loop ks (drop nread rest) (nleft - nread) (got @ take nread rest))"

definition Readn :: "answer list \<Rightarrow> string \<Rightarrow> nat \<Rightarrow> (string option) \<times> string \<times> answer list" where
  "Readn ks rest n = Readn_loop ks rest n []"

text \<open>\<open>Writen\<close>: the number of bytes written (\<open>None\<close> for -1), the contents of the file and the answers not used.\<close>

fun Writen_loop :: "answer list \<Rightarrow> string \<Rightarrow> string \<Rightarrow> nat \<Rightarrow> (nat option) \<times> string \<times> answer list" where
  "Writen_loop [] cont ptr wrote = (Some (wrote + length ptr), cont @ ptr, [])"
| "Writen_loop (k # ks) cont ptr wrote =
     (if ptr = [] then (Some wrote, cont, k # ks)
      else case k of
        Again \<Rightarrow> Writen_loop ks cont ptr wrote
      | Fails \<Rightarrow> (None, cont, ks)
      | Transfer m \<Rightarrow>
          let n = min (Suc m) (length ptr) in Writen_loop ks (cont @ take n ptr) (drop n ptr) (wrote + n))"

definition Writen :: "answer list \<Rightarrow> string \<Rightarrow> string \<Rightarrow> (nat option) \<times> string \<times> answer list" where
  "Writen ks file bytes = Writen_loop ks file bytes 0"

section \<open>Copying\<close>

definition GetFileTime :: "files \<Rightarrow> string \<Rightarrow> nat" where
  "GetFileTime fs p = (case fs p of None \<Rightarrow> 0 | Some (_, t) \<Rightarrow> t)"

definition GetFileSize :: "files \<Rightarrow> string \<Rightarrow> nat" where
  "GetFileSize fs p = length (text_of fs p)"

text \<open>\<open>snprintf(tmp_dst, 253, "%s.tmp", dst)\<close>.\<close>

definition tmp_name :: "string \<Rightarrow> string" where
  "tmp_name dst = take 252 (dst @ ''.tmp'')"

text \<open>The loop of \<open>CopyFile\<close>, with fuel: \<open>off\<close> is the position of \<open>rfd\<close>; the contents of the two files are in \<open>fs\<close>.  The result is the
  value of \<open>ret\<close>.\<close>

definition set_text :: "files \<Rightarrow> string \<Rightarrow> string \<Rightarrow> files" where
  "set_text fs p t = fs(p := map_option (\<lambda>(_, m). (t, m)) (fs p))"

fun copy_loop :: "answer list \<Rightarrow> answer list \<Rightarrow> string \<Rightarrow> string \<Rightarrow> nat \<Rightarrow> files \<Rightarrow> nat \<Rightarrow> (bool \<times> files) option" where
  "copy_loop rs ws src tmp off fs 0 = None"
| "copy_loop rs ws src tmp off fs (Suc n) =
     (case Readn rs (drop off (text_of fs src)) 4096 of (rd, _, rs) \<Rightarrow>
        case rd of
          None \<Rightarrow> Some (False, fs)
        | Some buf \<Rightarrow>
            if buf = [] then Some (True, fs)
            else case Writen ws (text_of fs tmp) buf of (wd, cont, ws) \<Rightarrow>
              if wd \<noteq> Some (length buf) then Some (False, set_text fs tmp cont)
              else copy_loop rs ws src tmp (off + length buf) (set_text fs tmp cont) n)"

text \<open>The calls that succeed: \<open>open\<close> for reading and for writing, \<open>utimes\<close> and \<open>rename\<close>.\<close>

record calls =
  ok_open_read :: bool
  ok_open_write :: bool
  ok_utimes :: bool
  ok_rename :: bool

text \<open>\<open>now\<close> is the time a new file gets.  The loop runs once for every block of the file and once more, so \<open>rounds\<close> is enough fuel.\<close>

definition rounds :: "files \<Rightarrow> string \<Rightarrow> nat" where
  "rounds fs src = Suc (length (text_of fs src))"

definition CopyFile :: "calls \<Rightarrow> answer list \<Rightarrow> answer list \<Rightarrow> nat \<Rightarrow> string \<Rightarrow> string \<Rightarrow> files \<Rightarrow> (bool \<times> files) option" where
  "CopyFile c rs ws now src dst fs =
     (let tmp = tmp_name dst; r_file_time = GetFileTime fs src in
      if r_file_time = 0 then Some (False, fs)
      else if \<not> ok_open_read c then Some (False, fs)
      else if \<not> ok_open_write c then Some (False, fs)
      else
        case copy_loop rs ws src tmp 0 (fs(tmp \<mapsto> ([], now))) (rounds fs src) of
          None \<Rightarrow> None
        | Some (ret, fs) \<Rightarrow>
            if \<not> ret then Some (False, fs)
            else if \<not> ok_utimes c then Some (False, fs)
            else
              let fs = fs(tmp \<mapsto> (text_of fs tmp, r_file_time)) in
              if \<not> ok_rename c then Some (False, fs)
              else Some (True, (fs(tmp := None))(dst := fs tmp)))"

definition FilePutContent :: "calls \<Rightarrow> answer list \<Rightarrow> nat \<Rightarrow> string \<Rightarrow> string \<Rightarrow> files \<Rightarrow> bool \<times> files" where
  "FilePutContent c ws now filename buf fs =
     (if \<not> ok_open_write c then (False, fs)
      else case Writen ws [] buf of (wsize, cont, _) \<Rightarrow>
        if wsize \<noteq> Some (length buf) then (False, fs(filename := None))
        else (True, fs(filename \<mapsto> (cont, now))))"

definition Rename :: "calls \<Rightarrow> string \<Rightarrow> string \<Rightarrow> files \<Rightarrow> bool \<times> files" where
  "Rename c p q fs =
     (if \<not> ok_rename c \<or> fs p = None then (False, fs) else (True, (fs(p := None))(q := fs p)))"

section \<open>Lines and directories\<close>

text \<open>The loop of \<open>GetFileLines\<close>: \<open>getline\<close> takes the text up to the next line feed; at the end of the file \<open>eof()\<close> holds and the
  line read last, which may be empty, is added all the same.\<close>

fun getline :: "string \<Rightarrow> string \<Rightarrow> string \<times> string option" where
  "getline acc [] = (acc, None)"
| "getline acc (c # s) = (if c = LF then (acc, Some s) else getline (acc @ [c]) s)"

lemma getline_shorter: "getline acc s = (l, Some r) \<Longrightarrow> length r < length s"
  by (induction acc s rule: getline.induct) (auto split: if_splits)

function lines_loop :: "string \<Rightarrow> string list \<Rightarrow> string list" where
  "lines_loop s file_lines =
     (case getline [] s of
        (l, None) \<Rightarrow> file_lines @ [l]
      | (l, Some r) \<Rightarrow> lines_loop r (file_lines @ [l]))"
  by pat_completeness auto
termination by (relation "measure (\<lambda>(s, ls). length s)") (auto dest: getline_shorter [OF sym])

definition GetFileLines :: "files \<Rightarrow> string option \<Rightarrow> string list \<Rightarrow> bool \<times> string list" where
  "GetFileLines fs filename file_lines =
     (case filename of
        None \<Rightarrow> (False, file_lines)
      | Some p \<Rightarrow> (case fs p of None \<Rightarrow> (False, file_lines) | Some (t, _) \<Rightarrow> (True, lines_loop t file_lines)))"

text \<open>\<open>Mkdir\<close>: the paths for which \<open>mkdir\<close> is called, in order; their results are ignored.  The position \<open>npos\<close> is \<open>None\<close>, and
  \<open>npos + 1\<close> is 0.\<close>

definition find_slash :: "string \<Rightarrow> nat \<Rightarrow> nat option" where
  "find_slash path pos = find (\<lambda>i. path ! i = CHR ''/'') [pos..<length path]"

partial_function (option) mkdir_loop :: "string \<Rightarrow> nat \<Rightarrow> string list \<Rightarrow> string list option" where
  "mkdir_loop path next_split_offset made =
     (case find_slash path (case find_slash path next_split_offset of None \<Rightarrow> 0 | Some cur \<Rightarrow> cur + 1) of
        None \<Rightarrow> Some (made @ [path])
      | Some nxt \<Rightarrow> mkdir_loop path nxt (made @ [take nxt path]))"

definition Mkdir :: "string \<Rightarrow> string list option" where
  "Mkdir path = mkdir_loop path 0 []"

section \<open>Short and interrupted calls\<close>

lemma take_drop_parts: "n \<le> m \<Longrightarrow> take n xs @ take (m - n) (drop n xs) = take m xs"
  by (metis le_add_diff_inverse take_add)

lemma Readn_loop_result:
  "Readn_loop ks rest nleft got = (r, rest', ks') \<Longrightarrow>
   (r = Some (got @ take nleft rest) \<or> r = None \<and> Fails \<in> set ks) \<and> set ks' \<subseteq> set ks"
proof (induction ks arbitrary: rest nleft got)
  case (Cons k ks)
  show ?case
  proof (cases "nleft = 0")
    case False
    show ?thesis
    proof (cases k)
      case (Transfer m)
      let ?n = "min (Suc m) (min nleft (length rest))"
      show ?thesis
      proof (cases "?n = 0")
        case True
        then have "rest = []" using False by (simp add: min_def split: if_splits)
        then show ?thesis using Cons.prems False Transfer by auto
      next
        case n: False
        have "Readn_loop (k # ks) rest nleft got =
            (if ?n = 0 then (Some got, rest, ks) else Readn_loop ks (drop ?n rest) (nleft - ?n) (got @ take ?n rest))"
          using False Transfer by (simp only: Readn_loop.simps answer.case Let_def if_False)
        then have "Readn_loop ks (drop ?n rest) (nleft - ?n) (got @ take ?n rest) = (r, rest', ks')"
          using Cons.prems unfolding if_not_P [OF n] by simp
        from Cons.IH [OF this] show ?thesis using take_drop_parts [of ?n nleft rest] by auto
      qed
    next
      case Again
      then show ?thesis using Cons.IH [of rest nleft got] Cons.prems False by auto
    next
      case Fails
      then show ?thesis using Cons.prems False by auto
    qed
  qed (use Cons.prems in auto)
qed auto

lemma Writen_loop_result:
  "Writen_loop ks cont ptr wrote = (r, cont', ks') \<Longrightarrow>
   (r = Some (wrote + length ptr) \<and> cont' = cont @ ptr \<or> r = None \<and> Fails \<in> set ks) \<and> set ks' \<subseteq> set ks"
proof (induction ks arbitrary: cont ptr wrote)
  case (Cons k ks)
  show ?case
  proof (cases "ptr = []")
    case False
    show ?thesis
    proof (cases k)
      case (Transfer m)
      then have "Writen_loop ks (cont @ take (min (Suc m) (length ptr)) ptr) (drop (min (Suc m) (length ptr)) ptr)
          (wrote + min (Suc m) (length ptr)) = (r, cont', ks')"
        using Cons.prems False by (simp add: Let_def)
      from Cons.IH [OF this] show ?thesis by auto
    next
      case Again
      then show ?thesis using Cons.IH [of cont ptr wrote] Cons.prems False by auto
    next
      case Fails
      then show ?thesis using Cons.prems False by auto
    qed
  qed (use Cons.prems in auto)
qed auto

lemmas Readn_result = Readn_loop_result [of _ _ _ "[]", folded Readn_def, simplified]
lemmas Writen_result = Writen_loop_result [of _ _ _ 0, folded Writen_def, simplified]

section \<open>The copy\<close>

lemma text_of_upd [simp]: "text_of (fs(p \<mapsto> (t, m))) q = (if q = p then t else text_of fs q)"
  by (simp add: text_of_def)

lemma copy_loop_result:
  "src \<noteq> tmp \<Longrightarrow> fs tmp = Some (take off (text_of fs src), m) \<Longrightarrow> off \<le> length (text_of fs src) \<Longrightarrow> length (text_of fs src) - off < n \<Longrightarrow>
   \<exists>ret x. copy_loop rs ws src tmp off fs n = Some (ret, fs(tmp \<mapsto> (x, m))) \<and> (ret \<longrightarrow> x = text_of fs src) \<and>
     (Fails \<notin> set (rs @ ws) \<longrightarrow> ret)"
proof (induction n arbitrary: rs ws off fs)
  case (Suc n)
  let ?t = "text_of fs src"
  obtain rd rest rs' where rd: "Readn rs (drop off ?t) 4096 = (rd, rest, rs')" by (cases "Readn rs (drop off ?t) 4096") auto
  note r = Readn_result [OF rd]
  have same: "fs(tmp \<mapsto> (take off ?t, m)) = fs" using Suc.prems(2) by (simp add: fun_eq_iff)
  show ?case
  proof (cases rd)
    case None
    then show ?thesis using rd r same by (intro exI [of _ False] exI [of _ "take off ?t"]) auto
  next
    case (Some buf)
    then have buf: "buf = take 4096 (drop off ?t)" using r by simp
    show ?thesis
    proof (cases "buf = []")
      case True
      then have "take off ?t = ?t" using buf by simp
      then show ?thesis using rd Some True same by (intro exI [of _ True] exI [of _ ?t]) simp
    next
      case False
      obtain wd cont ws' where wd: "Writen ws (text_of fs tmp) buf = (wd, cont, ws')" by (cases "Writen ws (text_of fs tmp) buf") auto
      note w = Writen_result [OF wd]
      have st: "set_text fs tmp c = fs(tmp \<mapsto> (c, m))" for c using Suc.prems(2) by (simp add: set_text_def)
      show ?thesis
      proof (cases "wd = Some (length buf)")
        case wrote: False
        then show ?thesis using rd wd Some False w by (intro exI [of _ False] exI [of _ cont]) (auto simp: st)
      next
        case True
        let ?off = "off + length buf" and ?fs = "fs(tmp \<mapsto> (cont, m))"
        have "text_of fs tmp = take off ?t" using Suc.prems(2) by (simp add: text_of_def [of fs tmp])
        then have "cont = take off ?t @ buf" using w True by simp
        moreover have "buf = take (length buf) (drop off ?t)" using buf by (metis append_eq_conv_conj append_take_drop_id)
        ultimately have cont: "cont = take ?off ?t" by (metis take_add)
        have l: "0 < length buf" "?off \<le> length ?t" using False buf Suc.prems(3) by auto
        have IH: "\<exists>ret x. copy_loop rs' ws' src tmp ?off ?fs n = Some (ret, ?fs(tmp \<mapsto> (x, m))) \<and> (ret \<longrightarrow> x = text_of ?fs src) \<and>
            (Fails \<notin> set (rs' @ ws') \<longrightarrow> ret)"
        proof (rule Suc.IH)
          have t: "text_of ?fs src = ?t" using Suc.prems(1) by simp
          show "?fs tmp = Some (take ?off (text_of ?fs src), m)" unfolding t by (simp add: cont)
          show "?off \<le> length (text_of ?fs src)" unfolding t by (rule l(2))
          show "length (text_of ?fs src) - ?off < n" unfolding t using l Suc.prems(4) by linarith
        qed (rule Suc.prems(1))
        have step: "copy_loop rs ws src tmp off fs (Suc n) = copy_loop rs' ws' src tmp ?off ?fs n"
          using rd wd Some True False by (simp add: st)
        obtain ret x where x: "copy_loop rs' ws' src tmp ?off ?fs n = Some (ret, ?fs(tmp \<mapsto> (x, m)))"
          "ret \<longrightarrow> x = text_of ?fs src" "Fails \<notin> set (rs' @ ws') \<longrightarrow> ret" using IH by blast
        have "text_of ?fs src = ?t" using Suc.prems(1) by simp
        moreover have "Fails \<notin> set (rs @ ws) \<longrightarrow> Fails \<notin> set (rs' @ ws')" using r w by auto
        ultimately show ?thesis unfolding step using x by (intro exI [of _ ret] exI [of _ x]) (simp, simp add: fun_eq_iff)
      qed
    qed
  qed
qed simp

text \<open>C33: \<open>CopyFile\<close> is all or nothing, for a target name of less than 249 characters and a source that is not the temporary file.  When the
  calls are interrupted finitely often it ends.  When it returns true the target has the contents and the time of the source, and
  the temporary file is gone; when it returns false the target is as it was; no other file but the temporary one is
  touched.  It returns true when no call fails and the time of the source is not 0 (which the code takes for an error), however
  short the reads and writes are.\<close>

theorem CopyFile_all_or_nothing:
  assumes "length dst < 249" "src \<noteq> dst @ ''.tmp''"
  shows "\<exists>ret fs'. CopyFile c rs ws now src dst fs = Some (ret, fs') \<and>
    (if ret then fs' dst = fs src \<and> fs' (dst @ ''.tmp'') = None else fs' dst = fs dst) \<and>
    (\<forall>p. p \<noteq> dst \<and> p \<noteq> dst @ ''.tmp'' \<longrightarrow> fs' p = fs p) \<and>
    (GetFileTime fs src \<noteq> 0 \<and> c = \<lparr>ok_open_read = True, ok_open_write = True, ok_utimes = True, ok_rename = True\<rparr> \<and> Fails \<notin> set (rs @ ws) \<longrightarrow> ret)"
proof (cases "GetFileTime fs src = 0 \<or> \<not> ok_open_read c \<or> \<not> ok_open_write c")
  case True
  then show ?thesis by (intro exI [of _ False] exI [of _ fs]) (auto simp: CopyFile_def Let_def)
next
  case False
  let ?tmp = "dst @ ''.tmp''" and ?t = "text_of fs src" and ?m = "GetFileTime fs src"
  have tmp: "tmp_name dst = ?tmp" using assms(1) by (simp add: tmp_name_def)
  have src: "fs src = Some (?t, ?m)" using False by (auto simp: GetFileTime_def text_of_def split: option.splits)
  let ?fs = "fs(?tmp \<mapsto> ([], now))"
  have tsrc: "text_of ?fs src = ?t" using assms(2) by simp
  obtain ret x where l: "copy_loop rs ws src ?tmp 0 ?fs (rounds fs src) = Some (ret, ?fs(?tmp \<mapsto> (x, now)))"
    "ret \<longrightarrow> x = ?t" "Fails \<notin> set (rs @ ws) \<longrightarrow> ret"
    using copy_loop_result [of src ?tmp ?fs 0 now "rounds fs src" rs ws] assms(2) by (auto simp: tsrc rounds_def)
  define g where "g = fs(?tmp \<mapsto> (x, now))"
  have g: "text_of g ?tmp = x" "g dst = fs dst" "p \<noteq> dst \<Longrightarrow> p \<noteq> ?tmp \<Longrightarrow> g p = fs p" for p
    by (simp_all add: g_def)
  have cp: "CopyFile c rs ws now src dst fs =
      (if \<not> ret then Some (False, g) else if \<not> ok_utimes c then Some (False, g)
       else if \<not> ok_rename c then Some (False, g(?tmp \<mapsto> (x, ?m))) else Some (True, g(?tmp := None, dst \<mapsto> (x, ?m))))"
    using False l(1) by (simp add: CopyFile_def tmp Let_def g_def)
  show ?thesis
  proof (cases "ret \<and> ok_utimes c \<and> ok_rename c")
    case True
    then show ?thesis using cp l(2) src g(3)
      by (intro exI [of _ True] exI [of _ "g(?tmp := None, dst \<mapsto> (x, ?m))"]) simp
  next
    case fail: False
    then have "CopyFile c rs ws now src dst fs = Some (False, g) \<or> CopyFile c rs ws now src dst fs = Some (False, g(?tmp \<mapsto> (x, ?m)))"
      using cp by auto
    moreover have "\<not> (c = \<lparr>ok_open_read = True, ok_open_write = True, ok_utimes = True, ok_rename = True\<rparr> \<and> Fails \<notin> set (rs @ ws))"
      using fail l(3) by auto
    ultimately show ?thesis using g(2,3)
      by (elim disjE; intro exI [of _ False] exI [of _ g] exI [of _ "g(?tmp \<mapsto> (x, ?m))"]) simp_all
  qed
qed

theorem CopyFile_all_or_nothing_witness:
  "\<exists>fs'. CopyFile \<lparr>ok_open_read = True, ok_open_write = True, ok_utimes = True, ok_rename = True\<rparr> [Again, Transfer 1, Again] [Transfer 0] 9
     ''a'' ''b'' [''a'' \<mapsto> (''hello'', 7), ''b'' \<mapsto> (''old'', 3)] = Some (True, fs') \<and> fs' ''b'' = Some (''hello'', 7)"
proof -
  let ?c = "\<lparr>ok_open_read = True, ok_open_write = True, ok_utimes = True, ok_rename = True\<rparr>"
    and ?fs = "[''a'' \<mapsto> (''hello'', 7), ''b'' \<mapsto> (''old'', 3)]"
  have t: "GetFileTime ?fs ''a'' \<noteq> 0" by (simp add: GetFileTime_def)
  obtain ret fs' where r: "CopyFile ?c [Again, Transfer 1, Again] [Transfer 0] 9 ''a'' ''b'' ?fs = Some (ret, fs')"
    "if ret then fs' ''b'' = ?fs ''a'' \<and> fs' (''b'' @ ''.tmp'') = None else fs' ''b'' = ?fs ''b''"
    "GetFileTime ?fs ''a'' \<noteq> 0 \<and> ?c = ?c \<and> Fails \<notin> set ([Again, Transfer 1, Again] @ [Transfer 0]) \<longrightarrow> ret"
    using CopyFile_all_or_nothing [of "''b''" "''a''" ?c "[Again, Transfer 1, Again]" "[Transfer 0]" 9 ?fs] by force
  have ret using r(3) t by simp
  then show ?thesis using r(1,2) by simp
qed

section \<open>Lines\<close>

declare lines_loop.simps [simp del]

lemma getline_parts:
  "getline acc s = (l, None) \<Longrightarrow> l = acc @ s" "getline acc s = (l, Some r) \<Longrightarrow> acc @ s = l @ LF # r"
  by (induction acc s rule: getline.induct) (auto split: if_splits)

lemma join_with_snoc: "xs \<noteq> [] \<Longrightarrow> join_with sep (xs @ [x]) = join_with sep xs @ sep @ x"
proof (induction xs)
  case (Cons a xs)
  then show ?case by (cases "xs = []") (simp_all add: join_with_def intersperse_Cons)
qed simp

lemma lines_loop_join: "join_with [LF] (lines_loop s ls) = (if ls = [] then s else join_with [LF] ls @ LF # s)"
proof (induction s ls rule: lines_loop.induct)
  case (1 s ls)
  obtain l r where g: "getline [] s = (l, r)" by (cases "getline [] s")
  show ?case
  proof (cases r)
    case None
    then have "l = s" using getline_parts(1) [of "[]" s l] g by simp
    then show ?thesis using g None join_with_snoc [of ls "[LF]" s] by (cases "ls = []") (simp_all add: lines_loop.simps [of s] join_with_def)
  next
    case (Some t)
    then have "s = l @ LF # t" using getline_parts(2) [of "[]" s l t] g by simp
    moreover have "join_with [LF] (lines_loop s ls) = join_with [LF] (ls @ [l]) @ LF # t"
      using 1 [of l r t] g Some by (simp add: lines_loop.simps [of s])
    ultimately show ?thesis using join_with_snoc [of ls "[LF]" l] by (cases "ls = []") (simp_all add: join_with_def)
  qed
qed

text \<open>The lines, joined with line feeds, are the file; in particular a file that ends in a line feed gives an empty last line.\<close>

lemma GetFileLines_join: "fs p = Some (t, m) \<Longrightarrow> \<exists>ls. GetFileLines fs (Some p) [] = (True, ls) \<and> join_with [LF] ls = t"
  by (simp add: GetFileLines_def lines_loop_join)

section \<open>Directories\<close>

definition slashes :: "string \<Rightarrow> nat \<Rightarrow> nat list" where
  "slashes path pos = filter (\<lambda>i. path ! i = CHR ''/'') [pos..<length path]"

lemma find_hd_filter: "find P xs = (case filter P xs of [] \<Rightarrow> None | x # _ \<Rightarrow> Some x)"
  by (induction xs) auto

lemma find_slash_eq: "find_slash path pos = (case slashes path pos of [] \<Rightarrow> None | i # _ \<Rightarrow> Some i)"
  by (simp add: find_slash_def slashes_def find_hd_filter)

lemma slashes_Cons:
  assumes "slashes path pos = i # is"
  shows "pos \<le> i" "i < length path" "path ! i = CHR ''/''" "slashes path (Suc i) = is"
proof -
  have i: "i \<in> set (slashes path pos)" using assms by simp
  then show le: "pos \<le> i" "i < length path" "path ! i = CHR ''/''" by (auto simp: slashes_def)
  have "[pos..<length path] = [pos..<i] @ i # [Suc i..<length path]"
    using le by (metis less_imp_le_nat le_Suc_ex upt_add_eq_append upt_conv_Cons)
  moreover have "filter (\<lambda>i. path ! i = CHR ''/'') [pos..<i] = []"
  proof (rule ccontr)
    assume "\<not> ?thesis"
    then obtain j js where j: "filter (\<lambda>i. path ! i = CHR ''/'') [pos..<i] = j # js" by (cases "filter (\<lambda>i. path ! i = CHR ''/'') [pos..<i]") auto
    then have "j \<in> set [pos..<i]" by (metis filter_is_subset list.set_intros(1) subset_code(1))
    then show False using assms j le calculation by (simp add: slashes_def)
  qed
  ultimately show "slashes path (Suc i) = is" using assms le by (simp add: slashes_def)
qed

lemma mkdir_loop_eq:
  "mkdir_loop path pos made = Some (made @ map (\<lambda>i. take i path) (tl (slashes path pos)) @ [path])"
  if "pos = 0 \<or> slashes path pos \<noteq> []"
  using that
proof (induction "length path - pos" arbitrary: pos made rule: less_induct)
  case less
  show ?case
  proof (cases "slashes path pos")
    case Nil
    then have "pos = 0" using less.prems by simp
    then show ?thesis using Nil by (simp add: mkdir_loop.simps [of path 0] find_slash_eq)
  next
    case (Cons i ss)
    note i = slashes_Cons [OF Cons]
    show ?thesis
    proof (cases ss)
      case Nil
      then show ?thesis using Cons i(4) by (simp add: mkdir_loop.simps [of path pos] find_slash_eq)
    next
      case ss: (Cons j js)
      have j: "Suc i \<le> j" "j < length path" "path ! j = CHR ''/''" "slashes path (Suc j) = js"
        using slashes_Cons [of path "Suc i" j js] i(4) ss by auto
      have sj: "slashes path j = j # js" using j(2,3,4) by (simp add: slashes_def upt_conv_Cons)
      have "mkdir_loop path pos made = mkdir_loop path j (made @ [take j path])"
        using Cons i(4) ss by (simp add: mkdir_loop.simps [of path pos] find_slash_eq)
      also have "\<dots> = Some ((made @ [take j path]) @ map (\<lambda>i. take i path) (tl (slashes path j)) @ [path])"
        using i(1) j(1,2) sj by (intro less.hyps) auto
      finally show ?thesis using Cons ss sj by simp
    qed
  qed
qed

text \<open>C34: \<open>Mkdir\<close> always ends.  It makes the directories in order from the top, but skips the text before the first slash: the
  directories made are the prefixes of the path at its second and later slashes, and the path itself.  For an absolute path these are all
  directories on the way; for a relative one the first is missing.\<close>

theorem Mkdir_exact:
  "Mkdir path = Some (map (\<lambda>i. take i path) (tl (filter (\<lambda>i. path ! i = CHR ''/'') [0..<length path])) @ [path])"
  using mkdir_loop_eq [of 0 path "[]"] by (simp add: Mkdir_def slashes_def)

end
