(* ===== verification/Memcached.thy ===== *)
theory Memcached
  imports Prelude "HOL-Library.Multiset"
begin

text \<open>
  The memcached client of \<open>helper/memcache_helper\<close>: \<open>ssMemcached.cpp\<close> over libmemcached, \<open>MemcachedCli.cpp\<close>, which opens a connection for
  every request or keeps it, and \<open>MemcachedCliPool.cpp\<close>, which chooses a server and repeats failed requests.  libmemcached and the node
  manager are not part of the repository: what they answer at each call is a parameter (\<open>lib\<close>), numbered by the
  calls made so far.  The objects of libmemcached are numbered, and one that has been freed must not be used again;
  \<open>memcached_create\<close> is taken to succeed, and a returned key to fit its buffer of \<open>MEMCACHED_MAX_KEY\<close> bytes, as libmemcached promises.
  Logging is left out; the lock of a client makes its requests steps.
\<close>

section \<open>The libraries\<close>

text \<open>An answer of \<open>memcached_fetch\<close>: the key, the value, and whether the return code is success.\<close>

type_synonym fetched = "string \<times> string \<times> bool"

record node =
  node_ip :: string
  node_port :: nat

text \<open>\<open>memcached_server_push\<close>, \<open>memcached_mget\<close> with the fetches after it, \<open>memcached_set\<close>, \<open>GetNode\<close>, and the time a request took.\<close>

record lib =
  lib_push :: "nat \<Rightarrow> string \<Rightarrow> nat \<Rightarrow> bool"
  lib_mget :: "nat \<Rightarrow> string list \<Rightarrow> (fetched list) option"
  lib_set :: "nat \<Rightarrow> string \<Rightarrow> string \<Rightarrow> bool"
  lib_node :: "nat \<Rightarrow> node option \<Rightarrow> node option"
  lib_cost :: "nat \<Rightarrow> int"

datatype mc_event = Server string nat | Behavior nat string int | Stored nat string string int "32 word" | Vote "node option" bool

record mc_world =
  mw_live :: "bool list"
  mw_calls :: nat
  mw_log :: "mc_event list"

definition mc_call :: "mc_world \<Rightarrow> nat \<times> mc_world" where
  "mc_call w = (mw_calls w, w\<lparr>mw_calls := mw_calls w + 1\<rparr>)"

definition mc_log :: "mc_event list \<Rightarrow> mc_world \<Rightarrow> mc_world" where
  "mc_log es w = w\<lparr>mw_log := mw_log w @ es\<rparr>"

section \<open>One connection\<close>

definition MAX_KEY_NUM :: nat where "MAX_KEY_NUM = 4000"
definition nValueLen :: nat where "nValueLen = 200000"

text \<open>\<open>memcached_create\<close> is taken to succeed, as the code takes it, and \<open>memcached_fetch\<close> to write a key that fits into
  \<open>return_key[MEMCACHED_MAX_KEY]\<close>, as libmemcached documents.\<close>

definition new_ssMemcached :: "mc_world \<Rightarrow> nat \<times> mc_world" where
  "new_ssMemcached w = (length (mw_live w), w\<lparr>mw_live := mw_live w @ [True]\<rparr>)"

definition use_handle :: "nat \<Rightarrow> mc_world \<Rightarrow> unit res" where
  "use_handle memc w = bindr (mem_get (mw_live w) memc) (\<lambda>live. check OutOfBounds live)"

definition destory :: "nat \<Rightarrow> mc_world \<Rightarrow> mc_world res" where
  "destory memc w = bindr (use_handle memc w) (\<lambda>_. Inr (w\<lparr>mw_live := (mw_live w)[memc := False]\<rparr>))"

definition initServer :: "lib \<Rightarrow> nat \<Rightarrow> string \<Rightarrow> nat \<Rightarrow> int \<Rightarrow> int \<Rightarrow> int \<Rightarrow> mc_world \<Rightarrow> (int \<times> mc_world) res" where
  "initServer lib memc pServerInfo nPort connTimeOutMs sendTimeOutMs recvTimeOutMs w =
     bindr (use_handle memc w) (\<lambda>_.
     case mc_call (mc_log [Server (cstr pServerInfo) nPort] w) of (i, w) \<Rightarrow>
       if \<not> lib_push lib i (cstr pServerInfo) nPort then Inr (- 1, w)
       else Inr (0, mc_log [Behavior memc ''NO_BLOCK'' 1, Behavior memc ''CONNECT_TIMEOUT'' connTimeOutMs,
                            Behavior memc ''RCV_TIMEOUT'' sendTimeOutMs, Behavior memc ''SND_TIMEOUT'' recvTimeOutMs,
                            Behavior memc ''POLL_TIMEOUT'' recvTimeOutMs] w))"

text \<open>The loop that looks for the key of an answer, from the place after the last one on and around: \<open>n\<close> steps are left.\<close>

fun find_key :: "string list \<Rightarrow> string \<Rightarrow> nat \<Rightarrow> nat \<Rightarrow> (nat option) res" where
  "find_key keys return_key index 0 = Inr None"
| "find_key keys return_key index (Suc n) =
     (let index = index mod length keys in
      bindr (mem_get keys index) (\<lambda>k.
      if cstr k = cstr return_key then Inr (Some index) else find_key keys return_key ((index + 1) mod length keys) n))"

definition stored_value :: "string \<Rightarrow> string" where
  "stored_value v = (if length v \<ge> nValueLen then take (nValueLen - 1) v else v)"

fun fetch_loop :: "string list \<Rightarrow> fetched list \<Rightarrow> nat \<Rightarrow> (string \<rightharpoonup> string) \<Rightarrow> (int \<times> (string \<rightharpoonup> string)) res" where
  "fetch_loop keys [] index kvs = Inr (0, kvs)"
| "fetch_loop keys ((return_key, return_value, ok) # fs) index kvs =
     (if \<not> ok then Inr (- 1, kvs)
      else
        bindr (find_key keys return_key index (length keys)) (\<lambda>r.
        case r of
          None \<Rightarrow> Inr (- 1, kvs)
        | Some index \<Rightarrow> bindr (mem_get keys index) (\<lambda>k. fetch_loop keys fs (index + 1) (kvs(k \<mapsto> stored_value return_value)))))"

text \<open>The arrays for the keys have \<open>MAX_KEY_NUM\<close> elements.\<close>

definition multiget :: "lib \<Rightarrow> nat \<Rightarrow> string list \<Rightarrow> (string \<rightharpoonup> string) \<Rightarrow> mc_world \<Rightarrow> (int \<times> (string \<rightharpoonup> string) \<times> mc_world) res" where
  "multiget lib memc keys kvs w =
     bindr (check OutOfBounds (length keys \<le> MAX_KEY_NUM)) (\<lambda>_.
     bindr (use_handle memc w) (\<lambda>_.
     case mc_call w of (i, w) \<Rightarrow>
       case lib_mget lib i keys of
         None \<Rightarrow> Inr (- 1, kvs, w)
       | Some fs \<Rightarrow> bindr (fetch_loop keys fs 0 kvs) (\<lambda>(ret, kvs). Inr (ret, kvs, w))))"

definition ss_set :: "lib \<Rightarrow> nat \<Rightarrow> string \<Rightarrow> string \<Rightarrow> int \<Rightarrow> 32 word \<Rightarrow> mc_world \<Rightarrow> (int \<times> mc_world) res" where
  "ss_set lib memc key val nTime flag w =
     bindr (use_handle memc w) (\<lambda>_.
     case mc_call w of (i, w) \<Rightarrow>
       if lib_set lib i key val then Inr (0, mc_log [Stored memc key val nTime flag] w) else Inr (- 1, w))"

section \<open>A client\<close>

definition kCKVCliSC :: int where "kCKVCliSC = 0"
definition kCKVCliLC :: int where "kCKVCliLC = 1"

record MemcachedCli =
  serverIp :: string
  serverPort :: nat
  connTimeOutMs :: int
  sendTimeOutMs :: int
  recvTimeOutMs :: int
  cliCType :: int
  nodePtr :: "node option"
  pCKV :: "nat option"

text \<open>The two constructors, with and without a node; \<open>serverInfo\<close>, the text for the log, is left out.  The port is a \<open>uint16_t\<close>.\<close>

definition new_MemcachedCli :: "string \<Rightarrow> nat \<Rightarrow> int \<Rightarrow> int \<Rightarrow> int \<Rightarrow> int \<Rightarrow> node option \<Rightarrow> MemcachedCli" where
  "new_MemcachedCli ip port c s r ctype node =
     \<lparr>serverIp = (if ip = [] then ''127.0.0.1'' else ip), serverPort = port mod 65536, connTimeOutMs = c, sendTimeOutMs = s,
      recvTimeOutMs = r, cliCType = ctype, nodePtr = node, pCKV = None\<rparr>"

definition Close :: "MemcachedCli \<Rightarrow> mc_world \<Rightarrow> (MemcachedCli \<times> mc_world) res" where
  "Close cli w =
     (case pCKV cli of
        None \<Rightarrow> Inr (cli, w)
      | Some memc \<Rightarrow> bindr (destory memc w) (\<lambda>w. Inr (cli\<lparr>pCKV := None\<rparr>, w)))"

definition Open :: "lib \<Rightarrow> MemcachedCli \<Rightarrow> mc_world \<Rightarrow> (bool \<times> MemcachedCli \<times> mc_world) res" where
  "Open lib cli w =
     bindr (if cliCType cli = kCKVCliSC then Close cli w else Inr (cli, w)) (\<lambda>(cli, w).
     case pCKV cli of
       Some _ \<Rightarrow> Inr (True, cli, w)
     | None \<Rightarrow>
         (case new_ssMemcached w of (memc, w) \<Rightarrow>
            let cli = cli\<lparr>pCKV := Some memc\<rparr> in
            bindr (initServer lib memc (serverIp cli) (serverPort cli) (connTimeOutMs cli) (sendTimeOutMs cli) (recvTimeOutMs cli) w) (\<lambda>(ret, w).
            if ret \<noteq> 0 then bindr (Close cli w) (\<lambda>(cli, w). Inr (False, cli, w))
            else Inr (True, cli, w))))"

text \<open>What the two requests have in common: open the connection, make the request, close it when it fails.\<close>

definition with_connection ::
    "lib \<Rightarrow> (nat \<Rightarrow> mc_world \<Rightarrow> (int \<times> 'r \<times> mc_world) res) \<Rightarrow> 'r \<Rightarrow> MemcachedCli \<Rightarrow> mc_world \<Rightarrow> (int \<times> 'r \<times> MemcachedCli \<times> mc_world) res" where
  "with_connection lib request r cli w =
     bindr (Open lib cli w) (\<lambda>(ok, cli, w).
     if \<not> ok then bindr (Close cli w) (\<lambda>(cli, w). Inr (1, r, cli, w))
     else case pCKV cli of
       None \<Rightarrow> Inl AssertFailed
     | Some memc \<Rightarrow>
         bindr (request memc w) (\<lambda>(ret, r, w).
         if ret = 0 then Inr (0, r, cli, w) else bindr (Close cli w) (\<lambda>(cli, w). Inr (1, r, cli, w))))"

definition MultiGetImpl :: "lib \<Rightarrow> string list \<Rightarrow> (string \<rightharpoonup> string) \<Rightarrow> MemcachedCli \<Rightarrow> mc_world \<Rightarrow> (int \<times> (string \<rightharpoonup> string) \<times> MemcachedCli \<times> mc_world) res" where
  "MultiGetImpl lib keys result cli w = with_connection lib (\<lambda>memc. multiget lib memc keys result) result cli w"

definition cli_MultiGet :: "lib \<Rightarrow> string list \<Rightarrow> (string \<rightharpoonup> string) \<Rightarrow> MemcachedCli \<Rightarrow> mc_world \<Rightarrow> (int \<times> (string \<rightharpoonup> string) \<times> MemcachedCli \<times> mc_world) res" where
  "cli_MultiGet lib keys result cli w =
     (if keys = [] then Inr (0, Map.empty, cli, w)
      else if MAX_KEY_NUM < length keys then Inr (1, Map.empty, cli, w)
      else MultiGetImpl lib keys result cli w)"

definition SetImpl :: "lib \<Rightarrow> string \<Rightarrow> string \<Rightarrow> int \<Rightarrow> 32 word \<Rightarrow> MemcachedCli \<Rightarrow> mc_world \<Rightarrow> (int \<times> unit \<times> MemcachedCli \<times> mc_world) res" where
  "SetImpl lib key val exptime flag cli w =
     with_connection lib (\<lambda>memc w. bindr (ss_set lib memc key val exptime flag w) (\<lambda>(ret, w). Inr (ret, (), w))) () cli w"

definition cli_Set :: "lib \<Rightarrow> string \<Rightarrow> string \<Rightarrow> int \<Rightarrow> 32 word \<Rightarrow> MemcachedCli \<Rightarrow> mc_world \<Rightarrow> (int \<times> unit \<times> MemcachedCli \<times> mc_world) res" where
  "cli_Set lib key val exptime flag cli w =
     (if key = [] then Inr (0, (), cli, w) else SetImpl lib key val exptime flag cli w)"

section \<open>The pool\<close>

record MemcachedCliPool =
  atomic_inc_index :: "64 word"
  maxRetryNum :: nat
  mp_conn :: int
  mp_send :: int
  mp_recv :: int
  serverIps :: "string list"
  serverPorts :: "nat list"
  mp_cliCType :: int
  memcachedCliPtrVec :: "MemcachedCli list"

text \<open>A new pool: the counter starts at a random number, and the kind of connection is not initialised.\<close>

definition new_MemcachedCliPool :: "64 word \<Rightarrow> int \<Rightarrow> MemcachedCliPool" where
  "new_MemcachedCliPool rnd ctype =
     \<lparr>atomic_inc_index = rnd, maxRetryNum = 1, mp_conn = 100, mp_send = 200, mp_recv = 200, serverIps = [], serverPorts = [],
      mp_cliCType = ctype, memcachedCliPtrVec = []\<rparr>"

text \<open>20 clients for every server.\<close>

definition InitLCPool :: "MemcachedCliPool \<Rightarrow> MemcachedCliPool" where
  "InitLCPool p =
     p\<lparr>memcachedCliPtrVec := memcachedCliPtrVec p @
        concat (map (\<lambda>_. concat (map (\<lambda>port. map (\<lambda>ip.
          new_MemcachedCli ip port (mp_conn p) (mp_send p) (mp_recv p) (mp_cliCType p) None) (serverIps p)) (serverPorts p))) [0..<20])\<rparr>"

definition pool_Init :: "string list \<Rightarrow> nat list \<Rightarrow> int \<Rightarrow> int \<Rightarrow> int \<Rightarrow> int \<Rightarrow> int \<Rightarrow> MemcachedCliPool \<Rightarrow> bool \<times> MemcachedCliPool" where
  "pool_Init ips ports conn_timeout_ms send_timeout_ms recv_timeout_ms max_retry_num cli_c_type p =
     (if ips = [] \<or> ports = [] then (False, p)
      else if conn_timeout_ms \<le> 0 \<or> send_timeout_ms \<le> 0 \<or> recv_timeout_ms \<le> 0 then (False, p)
      else if max_retry_num < 0 \<or> max_retry_num > 10 then (False, p)
      else
        let p = p\<lparr>serverIps := ips, serverPorts := ports, mp_conn := conn_timeout_ms, mp_send := send_timeout_ms,
                  mp_recv := recv_timeout_ms, maxRetryNum := nat max_retry_num, mp_cliCType := cli_c_type\<rparr> in
        if cli_c_type = kCKVCliSC then (True, p) else (True, InitLCPool p))"

text \<open>A client for one request: a new one, or the number of one in the pool.\<close>

datatype cli_ref = Fresh MemcachedCli | Pooled nat

definition GetGoodMemcacheCliSC :: "lib \<Rightarrow> node option \<Rightarrow> MemcachedCliPool \<Rightarrow> mc_world \<Rightarrow> cli_ref option \<times> mc_world" where
  "GetGoodMemcacheCliSC lib last_node p w =
     (case mc_call w of (i, w) \<Rightarrow>
        (map_option (\<lambda>nd. Fresh (new_MemcachedCli (node_ip nd) (node_port nd) (mp_conn p) (mp_send p) (mp_recv p) kCKVCliSC (Some nd)))
           (lib_node lib i last_node), w))"

definition fetch_and_add :: "MemcachedCliPool \<Rightarrow> nat \<times> MemcachedCliPool" where
  "fetch_and_add p = (unat (atomic_inc_index p), p\<lparr>atomic_inc_index := atomic_inc_index p + 1\<rparr>)"

text \<open>The address and the port that an index stands for.\<close>

definition server_of :: "MemcachedCliPool \<Rightarrow> nat \<Rightarrow> string \<times> nat" where
  "server_of p index =
     (serverIps p ! (index mod length (serverIps p)),
      serverPorts p ! ((index div length (serverIps p)) mod length (serverPorts p)))"

definition GetMemcacheCliSC :: "lib \<Rightarrow> node option \<Rightarrow> MemcachedCliPool \<Rightarrow> mc_world \<Rightarrow> cli_ref option \<times> MemcachedCliPool \<times> mc_world" where
  "GetMemcacheCliSC lib last_node p w =
     (case GetGoodMemcacheCliSC lib last_node p w of (cli, w) \<Rightarrow>
        if cli \<noteq> None then (cli, p, w)
        else if serverIps p = [] \<or> serverPorts p = [] then (None, p, w)
        else case fetch_and_add p of (index, p) \<Rightarrow>
          case server_of p index of (ip, port) \<Rightarrow>
            (Some (Fresh (new_MemcachedCli ip port (mp_conn p) (mp_send p) (mp_recv p) kCKVCliSC None)), p, w))"

definition GetMemcacheCliLC :: "MemcachedCliPool \<Rightarrow> mc_world \<Rightarrow> cli_ref option \<times> MemcachedCliPool \<times> mc_world" where
  "GetMemcacheCliLC p w =
     (if memcachedCliPtrVec p = [] then (None, p, w)
      else case fetch_and_add p of (index, p) \<Rightarrow> (Some (Pooled (index mod length (memcachedCliPtrVec p))), p, w))"

definition GetMemcacheCli :: "lib \<Rightarrow> node option \<Rightarrow> MemcachedCliPool \<Rightarrow> mc_world \<Rightarrow> cli_ref option \<times> MemcachedCliPool \<times> mc_world" where
  "GetMemcacheCli lib last_node p w =
     (if mp_cliCType p = kCKVCliSC then GetMemcacheCliSC lib last_node p w
      else if mp_cliCType p = kCKVCliLC then GetMemcacheCliLC p w
      else (None, p, w))"

definition ref_cli :: "MemcachedCliPool \<Rightarrow> cli_ref \<Rightarrow> MemcachedCli res" where
  "ref_cli p r = (case r of Fresh c \<Rightarrow> Inr c | Pooled i \<Rightarrow> mem_get (memcachedCliPtrVec p) i)"

text \<open>After a request: \<open>SCFree\<close> deletes the client of a short connection; one in the pool stays there.\<close>

definition SCFree :: "cli_ref \<Rightarrow> MemcachedCli \<Rightarrow> MemcachedCliPool \<Rightarrow> mc_world \<Rightarrow> (MemcachedCliPool \<times> mc_world) res" where
  "SCFree r cli p w =
     (if mp_cliCType p = kCKVCliSC then bindr (Close cli w) (\<lambda>(_, w). Inr (p, w))
      else case r of
        Fresh _ \<Rightarrow> Inr (p, w)
      | Pooled i \<Rightarrow> Inr (p\<lparr>memcachedCliPtrVec := (memcachedCliPtrVec p)[i := cli]\<rparr>, w))"

type_synonym 'r mc_request = "'r \<Rightarrow> MemcachedCli \<Rightarrow> mc_world \<Rightarrow> (int \<times> 'r \<times> MemcachedCli \<times> mc_world) res"

text \<open>The loop that \<open>MultiGet\<close> and \<open>Set\<close> share: \<open>n\<close> attempts are left, \<open>node\<close> is the node of the attempt before.\<close>

fun try_loop :: "lib \<Rightarrow> 'r mc_request \<Rightarrow> nat \<Rightarrow> node option \<Rightarrow> int \<Rightarrow> 'r \<Rightarrow> MemcachedCliPool \<Rightarrow> mc_world \<Rightarrow>
    (int \<times> 'r \<times> MemcachedCliPool \<times> mc_world) res" where
  "try_loop lib req 0 node ret r p w = Inr (ret, r, p, w)"
| "try_loop lib req (Suc n) node ret r p w =
     (case GetMemcacheCli lib node p w of (c, p, w) \<Rightarrow>
        case c of
          None \<Rightarrow> try_loop lib req n node 1 r p w
        | Some c \<Rightarrow>
            bindr (ref_cli p c) (\<lambda>cli.
            let node = nodePtr cli in
            bindr (req r cli w) (\<lambda>(ret, r, cli, w).
            bindr (SCFree c cli p w) (\<lambda>(p, w).
            if ret \<noteq> 0 then try_loop lib req n node 1 r p (mc_log [Vote node False] w)
            else
              case mc_call w of (i, w) \<Rightarrow> Inr (0, r, p, mc_log [Vote node (lib_cost lib i \<le> 50)] w)))))"

definition pool_MultiGet :: "lib \<Rightarrow> string list \<Rightarrow> (string \<rightharpoonup> string) \<Rightarrow> MemcachedCliPool \<Rightarrow> mc_world \<Rightarrow>
    (int \<times> (string \<rightharpoonup> string) \<times> MemcachedCliPool \<times> mc_world) res" where
  "pool_MultiGet lib keys result p w = try_loop lib (cli_MultiGet lib keys) (maxRetryNum p) None 1 result p w"

definition pool_Set :: "lib \<Rightarrow> string \<Rightarrow> string \<Rightarrow> int \<Rightarrow> 32 word \<Rightarrow> MemcachedCliPool \<Rightarrow> mc_world \<Rightarrow>
    (int \<times> unit \<times> MemcachedCliPool \<times> mc_world) res" where
  "pool_Set lib key val exptime flag p w = try_loop lib (\<lambda>_. cli_Set lib key val exptime flag) (maxRetryNum p) None 1 () p w"

section \<open>Connections are neither lost nor used after they are closed\<close>

definition lv :: "mc_world \<Rightarrow> nat set" where
  "lv w = {i. i < length (mw_live w) \<and> mw_live w ! i}"

abbreviation held :: "MemcachedCli \<Rightarrow> nat set" where
  "held cli \<equiv> set_option (pCKV cli)"

lemma lv_call [simp]: "mc_call w = (i, w') \<Longrightarrow> lv w' = lv w"
  by (auto simp: mc_call_def lv_def)

lemma lv_log [simp]: "lv (mc_log es w) = lv w"
  by (simp add: mc_log_def lv_def)

lemma use_handle_ok: "memc \<in> lv w \<Longrightarrow> use_handle memc w = Inr ()"
  by (simp add: use_handle_def lv_def)

lemma destory_ok: "memc \<in> lv w \<Longrightarrow> \<exists>w'. destory memc w = Inr w' \<and> lv w' = lv w - {memc}"
  by (auto simp: destory_def use_handle_ok) (auto simp: lv_def nth_list_update split: if_splits)

lemma new_ssMemcached_lv:
  "new_ssMemcached w = (memc, w') \<Longrightarrow> lv w' = insert memc (lv w) \<and> memc \<notin> lv w"
  by (auto simp: new_ssMemcached_def lv_def nth_append less_Suc_eq)

lemma initServer_ok: "memc \<in> lv w \<Longrightarrow> \<exists>ret w'. initServer lib memc ip port c s r w = Inr (ret, w') \<and> lv w' = lv w"
  by (auto simp: initServer_def use_handle_ok split: prod.splits)

lemma Close_ok:
  assumes "held cli \<subseteq> lv w"
  shows "\<exists>w'. Close cli w = Inr (cli\<lparr>pCKV := None\<rparr>, w') \<and> lv w' = lv w - held cli"
proof (cases "pCKV cli")
  case None
  then have "cli\<lparr>pCKV := None\<rparr> = cli" by simp
  then show ?thesis using None by (simp add: Close_def)
next
  case (Some memc)
  then show ?thesis using assms destory_ok [of memc w] by (auto simp: Close_def)
qed

text \<open>What a request on a client keeps: the connections that are not its own, and its kind.\<close>

definition tidy :: "MemcachedCli \<Rightarrow> mc_world \<Rightarrow> MemcachedCli \<Rightarrow> mc_world \<Rightarrow> bool" where
  "tidy cli w cli' w' \<longleftrightarrow> held cli' \<subseteq> lv w' \<and> lv w' - held cli' = lv w - held cli \<and> cliCType cli' = cliCType cli"

lemma tidy_refl: "held cli \<subseteq> lv w \<Longrightarrow> tidy cli w cli w"
  by (simp add: tidy_def)

lemma tidy_trans: "tidy cli w cli' w' \<Longrightarrow> tidy cli' w' cli'' w'' \<Longrightarrow> tidy cli w cli'' w''"
  by (simp add: tidy_def)

lemma Close_tidy: "held cli \<subseteq> lv w \<Longrightarrow> \<exists>w'. Close cli w = Inr (cli\<lparr>pCKV := None\<rparr>, w') \<and> tidy cli w (cli\<lparr>pCKV := None\<rparr>) w'"
  using Close_ok [of cli w] by (auto simp: tidy_def)

lemma Open_new:
  assumes "pCKV cli = None"
  shows "\<exists>ok cli' w'.
    (case new_ssMemcached w of (memc, w) \<Rightarrow>
       let cli = cli\<lparr>pCKV := Some memc\<rparr> in
       bindr (initServer lib memc (serverIp cli) (serverPort cli) (connTimeOutMs cli) (sendTimeOutMs cli) (recvTimeOutMs cli) w) (\<lambda>(ret, w).
       if ret \<noteq> 0 then bindr (Close cli w) (\<lambda>(cli, w). Inr (False, cli, w)) else Inr (True, cli, w))) = Inr (ok, cli', w') \<and>
    tidy cli w cli' w' \<and> (ok \<longrightarrow> pCKV cli' \<noteq> None)"
proof -
  obtain memc w1 where n: "new_ssMemcached w = (memc, w1)" by (cases "new_ssMemcached w")
  note lv = new_ssMemcached_lv [OF n]
  let ?c = "cli\<lparr>pCKV := Some memc\<rparr>"
  obtain ret w2 where i: "initServer lib memc (serverIp cli) (serverPort cli) (connTimeOutMs cli) (sendTimeOutMs cli) (recvTimeOutMs cli) w1 = Inr (ret, w2)" "lv w2 = lv w1"
    using initServer_ok [of memc w1] lv by blast
  have t: "tidy cli w ?c w2" using assms lv i(2) by (auto simp: tidy_def)
  show ?thesis
  proof (cases "ret = 0")
    case True
    then show ?thesis using n i(1) t by auto
  next
    case False
    obtain w3 where c: "Close ?c w2 = Inr (?c\<lparr>pCKV := None\<rparr>, w3)" "tidy ?c w2 (?c\<lparr>pCKV := None\<rparr>) w3"
      using Close_tidy [of ?c w2] t by (auto simp: tidy_def)
    then show ?thesis using n i(1) False tidy_trans [OF t c(2)] by auto
  qed
qed

lemma Open_tidy:
  assumes "held cli \<subseteq> lv w"
  shows "\<exists>ok cli' w'. Open lib cli w = Inr (ok, cli', w') \<and> tidy cli w cli' w' \<and> (ok \<longrightarrow> pCKV cli' \<noteq> None)"
proof -
  obtain c1 w1 where 1: "(if cliCType cli = kCKVCliSC then Close cli w else Inr (cli, w)) = Inr (c1, w1)" "tidy cli w c1 w1"
    using Close_tidy [OF assms] tidy_refl [OF assms] by (cases "cliCType cli = kCKVCliSC") auto
  show ?thesis
  proof (cases "pCKV c1")
    case (Some h)
    then show ?thesis using 1 by (auto simp: Open_def)
  next
    case None
    then show ?thesis using Open_new [OF None, of lib w1] 1 tidy_trans [OF 1(2)] by (auto simp: Open_def)
  qed
qed

text \<open>A request that uses only the connection it is given.\<close>

definition plain_request :: "(nat \<Rightarrow> mc_world \<Rightarrow> (int \<times> 'r \<times> mc_world) res) \<Rightarrow> bool" where
  "plain_request request \<longleftrightarrow> (\<forall>memc w. memc \<in> lv w \<longrightarrow> (\<exists>ret r w'. request memc w = Inr (ret, r, w') \<and> lv w' = lv w))"

lemma with_connection_tidy:
  assumes "held cli \<subseteq> lv w" "plain_request request"
  shows "\<exists>ret r' cli' w'. with_connection lib request r cli w = Inr (ret, r', cli', w') \<and> ret \<in> {0, 1} \<and> tidy cli w cli' w'"
proof -
  have close: "\<exists>c w3. Close c1 w1 = Inr (c, w3) \<and> tidy cli w c w3" if "tidy cli w c1 w1" for c1 w1
    using Close_tidy [of c1 w1] that tidy_trans [OF that] by (fastforce simp: tidy_def)
  obtain ok c1 w1 where o: "Open lib cli w = Inr (ok, c1, w1)" "tidy cli w c1 w1" "ok \<longrightarrow> pCKV c1 \<noteq> None"
    using Open_tidy [OF assms(1)] by blast
  show ?thesis
  proof (cases ok)
    case False
    then show ?thesis using o(1) close [OF o(2)] by (auto simp: with_connection_def)
  next
    case True
    then obtain memc where m: "pCKV c1 = Some memc" using o(3) by auto
    then have "memc \<in> lv w1" using o(2) by (auto simp: tidy_def)
    then obtain ret r2 w2 where q: "request memc w1 = Inr (ret, r2, w2)" "lv w2 = lv w1"
      using assms(2) unfolding plain_request_def by blast
    have t: "tidy cli w c1 w2" using o(2) q(2) by (simp add: tidy_def)
    show ?thesis
    proof (cases "ret = 0")
      case True
      then show ?thesis using o(1) \<open>ok\<close> m q(1) t by (simp add: with_connection_def)
    next
      case False
      then show ?thesis using o(1) \<open>ok\<close> m q(1) close [OF t] by (auto simp: with_connection_def)
    qed
  qed
qed

section \<open>The answers of \<open>multiget\<close>\<close>

lemma find_key_result:
  assumes "keys \<noteq> []"
  shows "\<exists>r. find_key keys k i n = Inr r \<and>
    (case r of None \<Rightarrow> \<forall>j < n. cstr (keys ! ((i + j) mod length keys)) \<noteq> cstr k
     | Some x \<Rightarrow> x < length keys \<and> cstr (keys ! x) = cstr k)"
proof (induction n arbitrary: i)
  case (Suc n)
  let ?N = "length keys" and ?i = "i mod length keys"
  have N: "0 < ?N" using assms by simp
  show ?case
  proof (cases "cstr (keys ! ?i) = cstr k")
    case True
    then show ?thesis using N by (intro exI [of _ "Some ?i"]) (simp add: Let_def)
  next
    case False
    obtain r where r: "find_key keys k ((?i + 1) mod ?N) n = Inr r"
      "case r of None \<Rightarrow> \<forall>j < n. cstr (keys ! (((?i + 1) mod ?N + j) mod ?N)) \<noteq> cstr k
       | Some x \<Rightarrow> x < ?N \<and> cstr (keys ! x) = cstr k" using Suc by blast
    have "\<forall>j < Suc n. cstr (keys ! ((i + j) mod ?N)) \<noteq> cstr k" if "r = None"
    proof (intro allI impI)
      fix j assume "j < Suc n"
      then show "cstr (keys ! ((i + j) mod ?N)) \<noteq> cstr k"
        using False r(2) that by (cases j) (auto simp: mod_simps)
    qed
    then show ?thesis using r N False by (intro exI [of _ r]) (auto simp: Let_def split: option.splits)
  qed
qed simp

lemma all_positions: "(0::nat) < N \<Longrightarrow> x < N \<Longrightarrow> \<exists>j < N. (i + j) mod N = x"
proof -
  assume N: "0 < N" "x < N"
  have i: "i mod N + (x + N - i mod N) = x + N" using mod_less_divisor [OF N(1), of i] by linarith
  have "(i + (x + N - i mod N) mod N) mod N = (i mod N + (x + N - i mod N)) mod N" by (simp add: mod_simps)
  also have "\<dots> = x" unfolding i using N(2) by simp
  finally show ?thesis using N(1) by (intro exI [of _ "(x + N - i mod N) mod N"]) simp
qed

lemma find_key_exact:
  assumes "keys \<noteq> []" "\<forall>k \<in> set keys. NUL \<notin> set k" "NUL \<notin> set k"
  shows "(if k \<in> set keys then \<exists>x. find_key keys k i (length keys) = Inr (Some x) \<and> x < length keys \<and> keys ! x = k
          else find_key keys k i (length keys) = Inr None)"
proof -
  have c: "cstr (keys ! x) = keys ! x" "cstr k = k" if "x < length keys" for x using that assms by (auto intro: cstr_id)
  obtain r where r: "find_key keys k i (length keys) = Inr r"
    "case r of None \<Rightarrow> \<forall>j < length keys. cstr (keys ! ((i + j) mod length keys)) \<noteq> cstr k
     | Some x \<Rightarrow> x < length keys \<and> cstr (keys ! x) = cstr k" using find_key_result [OF assms(1)] by blast
  show ?thesis
  proof (cases r)
    case None
    have "k \<notin> set keys"
    proof
      assume "k \<in> set keys"
      then obtain x where x: "x < length keys" "keys ! x = k" by (auto simp: in_set_conv_nth)
      then obtain j where "j < length keys" "(i + j) mod length keys = x" using all_positions [of "length keys" x i] assms(1) by auto
      then show False using r(2) None x by auto
    qed
    then show ?thesis using r(1) None by simp
  next
    case (Some x)
    then have "x < length keys" "keys ! x = k" using r(2) c by auto
    then show ?thesis using r(1) Some by auto
  qed
qed

text \<open>The answers that are taken: up to the first that failed or was not asked for.\<close>

definition accepted :: "string list \<Rightarrow> fetched list \<Rightarrow> fetched list" where
  "accepted keys fs = takeWhile (\<lambda>(k, v, ok). ok \<and> k \<in> set keys) fs"

definition answers :: "fetched list \<Rightarrow> (string \<times> string) list" where
  "answers fs = map (\<lambda>(k, v, ok). (k, take 199999 v)) fs"

lemma stored_value_take: "stored_value v = take 199999 v"
  by (simp add: stored_value_def nValueLen_def)

lemma fetch_loop_exact:
  assumes "keys \<noteq> []" "\<forall>k \<in> set keys. NUL \<notin> set k"
  shows "\<forall>(k, v, ok) \<in> set fs. NUL \<notin> set k \<Longrightarrow>
    fetch_loop keys fs i kvs = Inr (if accepted keys fs = fs then 0 else - 1, kvs ++ map_of (rev (answers (accepted keys fs))))"
proof (induction fs arbitrary: i kvs)
  case (Cons f fs)
  obtain k v ok where f: "f = (k, v, ok)" by (cases f)
  have k: "NUL \<notin> set k" "\<forall>(k, v, ok) \<in> set fs. NUL \<notin> set k" using Cons.prems f by auto
  have e: "if k \<in> set keys then \<exists>x. find_key keys k i (length keys) = Inr (Some x) \<and> x < length keys \<and> keys ! x = k
      else find_key keys k i (length keys) = Inr None" by (rule find_key_exact [OF assms k(1)])
  show ?case
  proof (cases "ok \<and> k \<in> set keys")
    case True
    then obtain x where "find_key keys k i (length keys) = Inr (Some x)" "x < length keys" "keys ! x = k" using e by auto
    then show ?thesis using True f Cons.IH [OF k(2)] by (auto simp: accepted_def answers_def stored_value_take map_add_def fun_eq_iff split: option.splits)
  next
    case False
    then show ?thesis using f e by (auto simp: accepted_def answers_def)
  qed
qed (simp add: accepted_def answers_def)

lemma fetch_loop_returns: "keys \<noteq> [] \<Longrightarrow> \<exists>r. fetch_loop keys fs i kvs = Inr r"
proof (induction fs arbitrary: i kvs)
  case (Cons f fs)
  obtain k v ok where f: "f = (k, v, ok)" by (cases f)
  obtain r where r: "find_key keys k i (length keys) = Inr r" "\<forall>x. r = Some x \<longrightarrow> x < length keys"
    using find_key_result [OF Cons.prems, of k i "length keys"] by (auto split: option.splits)
  show ?case
  proof (cases r)
    case None
    then show ?thesis using f r by simp
  next
    case (Some x)
    then show ?thesis using f r Cons.IH [OF Cons.prems] by simp
  qed
qed simp

section \<open>The pool keeps its connections\<close>

lemma multiget_plain: "keys \<noteq> [] \<Longrightarrow> length keys \<le> MAX_KEY_NUM \<Longrightarrow> plain_request (\<lambda>memc. multiget lib memc keys kvs)"
  unfolding plain_request_def
proof (intro allI impI)
  fix memc w assume k: "keys \<noteq> []" "length keys \<le> MAX_KEY_NUM" "memc \<in> lv w"
  obtain i w1 where c: "mc_call w = (i, w1)" by (cases "mc_call w")
  show "\<exists>ret r w'. multiget lib memc keys kvs w = Inr (ret, r, w') \<and> lv w' = lv w"
  proof (cases "lib_mget lib i keys")
    case None
    then show ?thesis using k c use_handle_ok [OF k(3)] lv_call [OF c] by (simp add: multiget_def)
  next
    case (Some fs)
    obtain ret m where "fetch_loop keys fs 0 kvs = Inr (ret, m)" using fetch_loop_returns [OF k(1), of fs 0 kvs] by auto
    then show ?thesis using Some k c use_handle_ok [OF k(3)] lv_call [OF c] by (simp add: multiget_def)
  qed
qed

lemma ss_set_plain: "plain_request (\<lambda>memc w. bindr (ss_set lib memc key val t flag w) (\<lambda>(ret, w). Inr (ret, (), w)))"
  unfolding plain_request_def by (auto simp: ss_set_def use_handle_ok split: prod.splits)

text \<open>A request of the pool on a client: it returns 0 or 1 and keeps the other connections.\<close>

definition tidy_request :: "'r mc_request \<Rightarrow> bool" where
  "tidy_request req \<longleftrightarrow>
     (\<forall>r cli w. held cli \<subseteq> lv w \<longrightarrow> (\<exists>ret r' cli' w'. req r cli w = Inr (ret, r', cli', w') \<and> ret \<in> {0, 1} \<and> tidy cli w cli' w'))"

lemma tidy_requestD:
  "tidy_request req \<Longrightarrow> held cli \<subseteq> lv w \<Longrightarrow> \<exists>ret r' cli' w'. req r cli w = Inr (ret, r', cli', w') \<and> ret \<in> {0, 1} \<and> tidy cli w cli' w'"
  unfolding tidy_request_def by blast

lemma cli_MultiGet_tidy: "tidy_request (cli_MultiGet lib keys)"
  unfolding tidy_request_def
  using with_connection_tidy [OF _ multiget_plain [of keys lib]] tidy_refl
  by (auto simp: cli_MultiGet_def MultiGetImpl_def)

lemma cli_Set_tidy: "tidy_request (\<lambda>_. cli_Set lib key val t flag)"
  unfolding tidy_request_def
  using with_connection_tidy [OF _ ss_set_plain] tidy_refl by (auto simp: cli_Set_def SetImpl_def)

text \<open>The invariant of the pool: the open connections are those of its clients, each with its own, and only clients that keep
  their connections are in the pool.\<close>

definition pool_tidy :: "MemcachedCliPool \<Rightarrow> mc_world \<Rightarrow> bool" where
  "pool_tidy p w \<longleftrightarrow>
     lv w = (\<Union>c \<in> set (memcachedCliPtrVec p). held c) \<and>
     (\<forall>i < length (memcachedCliPtrVec p). \<forall>j < length (memcachedCliPtrVec p).
        i \<noteq> j \<longrightarrow> held (memcachedCliPtrVec p ! i) \<inter> held (memcachedCliPtrVec p ! j) = {})"

lemma GetMemcacheCli_cases:
  assumes "GetMemcacheCli lib node p w = (r, p', w')"
  shows "lv w' = lv w" "memcachedCliPtrVec p' = memcachedCliPtrVec p" "mp_cliCType p' = mp_cliCType p" "maxRetryNum p' = maxRetryNum p"
    "r = None \<or> mp_cliCType p = kCKVCliSC \<and> (\<exists>c. r = Some (Fresh c) \<and> pCKV c = None) \<or>
     mp_cliCType p \<noteq> kCKVCliSC \<and> (\<exists>i < length (memcachedCliPtrVec p). r = Some (Pooled i))"
  using assms
  by (auto simp: GetMemcacheCli_def GetMemcacheCliSC_def GetGoodMemcacheCliSC_def GetMemcacheCliLC_def fetch_and_add_def mc_call_def lv_def
      new_MemcachedCli_def kCKVCliSC_def kCKVCliLC_def split: if_splits prod.splits option.splits)

lemma pool_tidy_update:
  assumes p: "pool_tidy p w" and i: "i < length (memcachedCliPtrVec p)" and t: "tidy (memcachedCliPtrVec p ! i) w cli w'"
  shows "pool_tidy (p\<lparr>memcachedCliPtrVec := (memcachedCliPtrVec p)[i := cli]\<rparr>) w'"
proof -
  let ?v = "memcachedCliPtrVec p"
  have others: "lv w - held (?v ! i) = (\<Union>j \<in> {..<length ?v} - {i}. held (?v ! j))"
  proof -
    have "lv w = (\<Union>j < length ?v. held (?v ! j))" using p by (auto simp: pool_tidy_def set_conv_nth)
    moreover have "held (?v ! j) \<inter> held (?v ! i) = {}" if "j < length ?v" "j \<noteq> i" for j
      using p i that by (auto simp: pool_tidy_def)
    ultimately show ?thesis using i by blast
  qed
  have l: "held cli \<subseteq> lv w'" "lv w' - held cli = (\<Union>j \<in> {..<length ?v} - {i}. held (?v ! j))"
    using t others by (auto simp: tidy_def)
  have "lv w' = held (?v[i := cli] ! i) \<union> (\<Union>j \<in> {..<length ?v} - {i}. held (?v[i := cli] ! j))"
    using l i by auto
  also have "\<dots> = (\<Union>j < length ?v. held (?v[i := cli] ! j))" using i by blast
  finally have lv: "lv w' = (\<Union>j < length ?v. held (?v[i := cli] ! j))" .
  have d: "held cli \<inter> held (?v ! j) = {}" if "j < length ?v" "j \<noteq> i" for j using l that by blast
  have "lv w' = (\<Union>c \<in> set (?v[i := cli]). held c)"
    unfolding lv by (auto simp: set_conv_nth)
  moreover have "held (?v[i := cli] ! a) \<inter> held (?v[i := cli] ! b) = {}" if "a < length ?v" "b < length ?v" "a \<noteq> b" for a b
    using p d [of a] d [of b] that i by (auto simp: pool_tidy_def nth_list_update split: if_splits)
  ultimately show ?thesis by (simp add: pool_tidy_def)
qed

lemma try_loop_tidy:
  assumes "tidy_request req"
  shows "pool_tidy p w \<Longrightarrow> ret \<in> {0, 1} \<Longrightarrow>
    \<exists>ret' r' p' w'. try_loop lib req n node ret r p w = Inr (ret', r', p', w') \<and> ret' \<in> {0, 1} \<and> pool_tidy p' w' \<and>
      length (memcachedCliPtrVec p') = length (memcachedCliPtrVec p)"
proof (induction n arbitrary: node ret r p w)
  case (Suc n)
  obtain c p1 w1 where g: "GetMemcacheCli lib node p w = (c, p1, w1)" by (cases "GetMemcacheCli lib node p w") auto
  note gc = GetMemcacheCli_cases [OF g]
  have p1: "pool_tidy p1 w1" using Suc.prems(1) gc by (simp add: pool_tidy_def)
  show ?case
  proof (cases c)
    case None
    then show ?thesis using g gc(2) Suc.IH [OF p1, of 1] by simp
  next
    case (Some ref)
    have "held (memcachedCliPtrVec p1 ! i) \<subseteq> lv w1" if "i < length (memcachedCliPtrVec p1)" for i
      using p1 nth_mem [OF that] unfolding pool_tidy_def by blast
    then have "\<exists>cli. ref_cli p1 ref = Inr cli \<and> held cli \<subseteq> lv w1"
      using gc(2,3,5) Some by (auto simp: ref_cli_def)
    then obtain cli where cli: "ref_cli p1 ref = Inr cli" "held cli \<subseteq> lv w1" by blast
    obtain ret2 r2 cli2 w2 where q: "req r cli w1 = Inr (ret2, r2, cli2, w2)" "ret2 \<in> {0, 1}" "tidy cli w1 cli2 w2"
      using tidy_requestD [OF assms cli(2)] by blast
    have "\<exists>p3 w3. SCFree ref cli2 p1 w2 = Inr (p3, w3) \<and> pool_tidy p3 w3 \<and> length (memcachedCliPtrVec p3) = length (memcachedCliPtrVec p1)"
    proof (cases "mp_cliCType p1 = kCKVCliSC")
      case True
      then have "held cli = {}" using gc(3,5) Some cli(1) by (auto simp: ref_cli_def)
      moreover obtain w3 where "Close cli2 w2 = Inr (cli2\<lparr>pCKV := None\<rparr>, w3)" "lv w3 = lv w2 - held cli2"
        using Close_ok [of cli2 w2] q(3) by (auto simp: tidy_def)
      ultimately show ?thesis using True p1 q(3) by (auto simp: SCFree_def pool_tidy_def tidy_def)
    next
      case False
      then obtain i where i: "ref = Pooled i" "i < length (memcachedCliPtrVec p1)" using gc(2,3,5) Some by auto
      then have "cli = memcachedCliPtrVec p1 ! i" using cli(1) by (simp add: ref_cli_def)
      then show ?thesis using False i pool_tidy_update [OF p1 i(2)] q(3) by (simp add: SCFree_def)
    qed
    then obtain p3 w3 where f: "SCFree ref cli2 p1 w2 = Inr (p3, w3)" "pool_tidy p3 w3"
      "length (memcachedCliPtrVec p3) = length (memcachedCliPtrVec p)" using gc(2) by auto
    have v: "pool_tidy p3 (mc_log es w3)" for es using f(2) by (simp add: pool_tidy_def)
    show ?thesis
    proof (cases "ret2 = 0")
      case True
      obtain i w4 where i: "mc_call w3 = (i, w4)" by (cases "mc_call w3")
      then have "pool_tidy p3 (mc_log es w4)" for es using f(2) by (simp add: pool_tidy_def)
      then show ?thesis using g Some cli(1) q(1) f(1,3) True i by simp
    next
      case False
      then show ?thesis using g Some cli(1) q(1) f(1,3) Suc.IH [OF v, of 1] by (simp add: Let_def)
    qed
  qed
qed simp

section \<open>Requests in a row\<close>

datatype mc_op = GetOp "string list" | SetOp string string int "32 word"

fun run_op :: "lib \<Rightarrow> mc_op \<Rightarrow> MemcachedCliPool \<Rightarrow> mc_world \<Rightarrow> (MemcachedCliPool \<times> mc_world) res" where
  "run_op lib (GetOp keys) p w = bindr (pool_MultiGet lib keys Map.empty p w) (\<lambda>(_, _, p, w). Inr (p, w))"
| "run_op lib (SetOp key val t flag) p w = bindr (pool_Set lib key val t flag p w) (\<lambda>(_, _, p, w). Inr (p, w))"

fun run_ops :: "lib \<Rightarrow> mc_op list \<Rightarrow> MemcachedCliPool \<Rightarrow> mc_world \<Rightarrow> (MemcachedCliPool \<times> mc_world) res" where
  "run_ops lib [] p w = Inr (p, w)"
| "run_ops lib (a # as) p w = bindr (run_op lib a p w) (\<lambda>(p, w). run_ops lib as p w)"

lemma run_op_tidy:
  assumes "pool_tidy p w"
  shows "\<exists>p' w'. run_op lib a p w = Inr (p', w') \<and> pool_tidy p' w' \<and> length (memcachedCliPtrVec p') = length (memcachedCliPtrVec p)"
proof (cases a)
  case (GetOp keys)
  then show ?thesis
    using try_loop_tidy [OF cli_MultiGet_tidy [of lib keys] assms, where ret = 1 and n = "maxRetryNum p" and r = Map.empty and lib = lib and node = None]
    by (auto simp: pool_MultiGet_def)
next
  case (SetOp key val t flag)
  then show ?thesis
    using try_loop_tidy [OF cli_Set_tidy [of lib key val t flag] assms, where ret = 1 and n = "maxRetryNum p" and r = "()" and lib = lib and node = None]
    by (auto simp: pool_Set_def)
qed

lemma run_ops_tidy:
  "pool_tidy p w \<Longrightarrow> \<exists>p' w'. run_ops lib as p w = Inr (p', w') \<and> pool_tidy p' w' \<and> length (memcachedCliPtrVec p') = length (memcachedCliPtrVec p)"
proof (induction as arbitrary: p w)
  case (Cons a as)
  obtain p1 w1 where 1: "run_op lib a p w = Inr (p1, w1)" "pool_tidy p1 w1" "length (memcachedCliPtrVec p1) = length (memcachedCliPtrVec p)"
    using run_op_tidy [OF Cons.prems] by blast
  then show ?case using Cons.IH [OF 1(2)] by auto
qed simp

lemma pool_tidy_card: "pool_tidy p w \<Longrightarrow> card (lv w) \<le> length (memcachedCliPtrVec p)"
proof -
  assume "pool_tidy p w"
  then have "card (lv w) \<le> (\<Sum>c \<in> set (memcachedCliPtrVec p). card (held c))"
    using card_UN_le [of "set (memcachedCliPtrVec p)" held] by (simp add: pool_tidy_def)
  also have "\<dots> \<le> (\<Sum>c \<in> set (memcachedCliPtrVec p). 1)"
  proof (intro sum_mono)
    fix c
    show "card (held c) \<le> 1" by (cases "pCKV c") auto
  qed
  also have "\<dots> \<le> length (memcachedCliPtrVec p)" by (simp add: card_length)
  finally show ?thesis .
qed

lemma pool_Init_clients:
  assumes "pool_Init ips ports c s r m t p0 = (True, p)" "memcachedCliPtrVec p0 = []"
  shows "length (memcachedCliPtrVec p) = (if t = kCKVCliSC then 0 else 20 * length ips * length ports)"
    "\<forall>cli \<in> set (memcachedCliPtrVec p). pCKV cli = None"
  using assms
  by (auto simp: pool_Init_def InitLCPool_def new_MemcachedCli_def length_concat comp_def sum_list_triv Let_def split: if_splits)

section \<open>The order of the servers\<close>

lemma map_upt_period:
  assumes "\<And>k. f (k + N) = f k"
  shows "mset (map f [i..<i + N]) = mset (map f [0..<N])"
proof (induction i)
  case (Suc i)
  have "mset (map f [i..<i + N]) + {#f (i + N)#} = {#f i#} + mset (map f [Suc i..<Suc i + N])"
    by (cases N) (auto simp: upt_rec [of i] Suc_le_eq)
  then show ?case using Suc assms [of i] by simp
qed simp

lemma map_pairs:
  "map (\<lambda>k. (xs ! (k mod length xs), ys ! (k div length xs mod length ys))) [0..<length xs * length ys]
   = concat (map (\<lambda>y. map (\<lambda>x. (x, y)) xs) ys)"
proof (cases "xs = []")
  case False
  have step: "map (\<lambda>k. (xs ! (k mod length xs), ys ! (k div length xs mod length ys))) [length xs * m..<length xs * m + length xs]
      = map (\<lambda>x. (x, ys ! m)) xs" if "m < length ys" for m
    using that False by (intro nth_equalityI) (auto simp: div_add1_eq)
  have "map (\<lambda>k. (xs ! (k mod length xs), ys ! (k div length xs mod length ys))) [0..<length xs * m]
      = concat (map (\<lambda>y. map (\<lambda>x. (x, y)) xs) (take m ys))" if "m \<le> length ys" for m
    using that
  proof (induction m)
    case (Suc m)
    have "[0..<length xs * Suc m] = [0..<length xs * m] @ [length xs * m..<length xs * m + length xs]"
      using upt_add_eq_append [of 0 "length xs * m" "length xs"] by (simp add: add.commute)
    then show ?case using Suc step [of m] by (simp add: take_Suc_conv_app_nth)
  qed simp
  from this [of "length ys"] show ?thesis by simp
qed simp

definition good_servers :: "string list \<Rightarrow> nat list \<Rightarrow> bool" where
  "good_servers ips ports \<longleftrightarrow> ips \<noteq> [] \<and> ports \<noteq> [] \<and> (\<forall>ip \<in> set ips. ip \<noteq> [] \<and> NUL \<notin> set ip) \<and> (\<forall>port \<in> set ports. port < 65536)"

lemma good_servers_nth:
  assumes "good_servers ips ports"
  shows "ips ! (k mod length ips) \<noteq> []" "cstr (ips ! (k mod length ips)) = ips ! (k mod length ips)" "ports ! (k mod length ports) < 65536"
proof -
  have "ips ! (k mod length ips) \<in> set ips" "ports ! (k mod length ports) \<in> set ports"
    using assms by (simp_all add: good_servers_def)
  then show "ips ! (k mod length ips) \<noteq> []" "cstr (ips ! (k mod length ips)) = ips ! (k mod length ips)" "ports ! (k mod length ports) < 65536"
    using assms unfolding good_servers_def by (metis, metis cstr_id, metis)
qed

text \<open>The servers that connections have been made to, in order.\<close>

definition contacted :: "mc_world \<Rightarrow> (string \<times> nat) list" where
  "contacted w = concat (map (\<lambda>e. case e of Server ip port \<Rightarrow> [(ip, port)] | _ \<Rightarrow> []) (mw_log w))"

lemma contacted_simps [simp]:
  "mc_call w = (i, w') \<Longrightarrow> contacted w' = contacted w"
  "contacted (mc_log es w) = contacted w @ concat (map (\<lambda>e. case e of Server ip port \<Rightarrow> [(ip, port)] | _ \<Rightarrow> []) es)"
  "contacted (w\<lparr>mw_live := l\<rparr>) = contacted w"
  by (auto simp: contacted_def mc_call_def mc_log_def)

lemma Close_contacted: "Close cli w = Inr (cli', w') \<Longrightarrow> contacted w' = contacted w"
  by (auto simp: Close_def destory_def res_iff split: option.splits)

lemma initServer_contacted: "initServer lib memc ip port c s r w = Inr (ret, w') \<Longrightarrow> contacted w' = contacted w @ [(cstr ip, port)]"
  by (auto simp: initServer_def res_iff split: prod.splits if_splits)

lemma Open_contacted:
  assumes "Open lib cli w = Inr (ok, cli', w')" "pCKV cli = None"
  shows "contacted w' = contacted w @ [(cstr (serverIp cli), serverPort cli)]"
proof -
  obtain memc w1 where n: "new_ssMemcached w = (memc, w1)" by (cases "new_ssMemcached w")
  have c: "contacted w1 = contacted w" using n by (auto simp: new_ssMemcached_def)
  have k: "(if cliCType cli = kCKVCliSC then Close cli w else Inr (cli, w)) = Inr (cli, w)" using assms(2) by (simp add: Close_def)
  show ?thesis using assms n c
    by (auto simp: Open_def k res_iff Let_def dest!: initServer_contacted Close_contacted split: if_splits)
qed

text \<open>A request that makes no connection of its own.\<close>

definition silent_request :: "(nat \<Rightarrow> mc_world \<Rightarrow> (int \<times> 'r \<times> mc_world) res) \<Rightarrow> bool" where
  "silent_request request \<longleftrightarrow> (\<forall>memc w ret r w'. request memc w = Inr (ret, r, w') \<longrightarrow> contacted w' = contacted w)"

lemma multiget_silent: "silent_request (\<lambda>memc. multiget lib memc keys kvs)"
  by (auto simp: silent_request_def multiget_def res_iff split: prod.splits option.splits)

lemma ss_set_silent: "silent_request (\<lambda>memc w. bindr (ss_set lib memc key val t flag w) (\<lambda>(ret, w). Inr (ret, (), w)))"
  by (auto simp: silent_request_def ss_set_def res_iff split: prod.splits if_splits)

lemma with_connection_contacted:
  assumes "with_connection lib request r cli w = Inr (ret, r', cli', w')" "pCKV cli = None" "silent_request request"
  shows "contacted w' = contacted w @ [(cstr (serverIp cli), serverPort cli)]"
proof -
  have close: "contacted w3 = contacted w2" if "bindr (Close c w2) (\<lambda>(cli, w). Inr (1, x, cli, w)) = Inr (ret, r', cli', w3)" for c w2 w3 and x :: 'a
    using that Close_contacted [of c w2] by (auto simp: res_iff)
  obtain ok c1 w1 where o: "Open lib cli w = Inr (ok, c1, w1)" using assms(1) by (auto simp: with_connection_def res_iff)
  note oc = Open_contacted [OF o assms(2)]
  show ?thesis
  proof (cases ok)
    case False
    then show ?thesis using assms(1) o oc close by (auto simp: with_connection_def)
  next
    case True
    then obtain memc ret2 r2 w2 where q: "pCKV c1 = Some memc" "request memc w1 = Inr (ret2, r2, w2)"
      using assms(1) o by (auto simp: with_connection_def res_iff split: option.splits)
    then have "contacted w2 = contacted w1" using assms(3) unfolding silent_request_def by blast
    then show ?thesis using assms(1) o oc True q close by (auto simp: with_connection_def split: if_splits)
  qed
qed

text \<open>A request of the pool that contacts its server once.\<close>

definition one_contact :: "'r mc_request \<Rightarrow> bool" where
  "one_contact req \<longleftrightarrow> (\<forall>r cli w ret r' cli' w'. pCKV cli = None \<longrightarrow> req r cli w = Inr (ret, r', cli', w') \<longrightarrow>
     contacted w' = contacted w @ [(cstr (serverIp cli), serverPort cli)])"

lemma cli_MultiGet_contact: "keys \<noteq> [] \<Longrightarrow> length keys \<le> MAX_KEY_NUM \<Longrightarrow> one_contact (cli_MultiGet lib keys)"
  using with_connection_contacted [OF _ _ multiget_silent] by (auto simp: one_contact_def cli_MultiGet_def MultiGetImpl_def)

lemma cli_Set_contact: "key \<noteq> [] \<Longrightarrow> one_contact (\<lambda>_. cli_Set lib key val t flag)"
  using with_connection_contacted [OF _ _ ss_set_silent] by (fastforce simp: one_contact_def cli_Set_def SetImpl_def)

text \<open>A pool of short connections without nodes: every client it gives out is for the next server.\<close>

definition next_index :: "nat \<Rightarrow> MemcachedCliPool \<Rightarrow> MemcachedCliPool" where
  "next_index k p = p\<lparr>atomic_inc_index := atomic_inc_index p + word_of_nat k\<rparr>"

lemma next_index_simps [simp]:
  "serverIps (next_index k p) = serverIps p" "serverPorts (next_index k p) = serverPorts p" "mp_cliCType (next_index k p) = mp_cliCType p"
  "maxRetryNum (next_index k p) = maxRetryNum p" "server_of (next_index k p) = server_of p" "next_index 0 p = p"
  "next_index j (next_index k p) = next_index (k + j) p"
  by (simp_all add: next_index_def server_of_def fun_eq_iff add.assoc)

lemma unat_next_index: "unat (atomic_inc_index p) + k < 2 ^ 64 \<Longrightarrow> unat (atomic_inc_index (next_index k p)) = unat (atomic_inc_index p) + k"
  by (simp add: next_index_def unat_word_ariths unat_of_nat take_bit_nat_eq_self)

definition rotating :: "lib \<Rightarrow> MemcachedCliPool \<Rightarrow> bool" where
  "rotating lib p \<longleftrightarrow> mp_cliCType p = kCKVCliSC \<and> good_servers (serverIps p) (serverPorts p) \<and> (\<forall>i nd. lib_node lib i nd = None)"

lemma GetMemcacheCli_next:
  assumes "rotating lib p"
  shows "\<exists>cli w'. GetMemcacheCli lib None p w = (Some (Fresh cli), next_index 1 p, w') \<and> contacted w' = contacted w \<and> pCKV cli = None \<and>
    nodePtr cli = None \<and> (cstr (serverIp cli), serverPort cli) = server_of p (unat (atomic_inc_index p))"
  using assms good_servers_nth [of "serverIps p" "serverPorts p"]
  by (auto simp: rotating_def good_servers_def GetMemcacheCli_def GetMemcacheCliSC_def GetGoodMemcacheCliSC_def mc_call_def fetch_and_add_def
      server_of_def new_MemcachedCli_def next_index_def contacted_def)

lemma try_loop_rotates:
  assumes "tidy_request req" "one_contact req"
  shows "rotating lib p \<Longrightarrow> unat (atomic_inc_index p) + n < 2 ^ 64 \<Longrightarrow>
    \<exists>ret' r' w' k. try_loop lib req n None ret r p w = Inr (ret', r', next_index k p, w') \<and> k \<le> n \<and> (0 < n \<longrightarrow> 0 < k) \<and>
      contacted w' = contacted w @ map (server_of p) [unat (atomic_inc_index p)..<unat (atomic_inc_index p) + k]"
proof (induction n arbitrary: ret r p w)
  case (Suc n)
  let ?i = "unat (atomic_inc_index p)"
  obtain cli w1 where g: "GetMemcacheCli lib None p w = (Some (Fresh cli), next_index 1 p, w1)" "contacted w1 = contacted w" "pCKV cli = None"
    "nodePtr cli = None" "(cstr (serverIp cli), serverPort cli) = server_of p ?i" using GetMemcacheCli_next [OF Suc.prems(1)] by blast
  obtain ret2 r2 cli2 w2 where q: "req r cli w1 = Inr (ret2, r2, cli2, w2)" "tidy cli w1 cli2 w2"
    using tidy_requestD [OF assms(1), of cli w1 r] g(3) by auto
  have c: "contacted w2 = contacted w @ [server_of p ?i]" using assms(2) q(1) g(2,3,5) unfolding one_contact_def by metis
  obtain w3 where w3: "Close cli2 w2 = Inr (cli2\<lparr>pCKV := None\<rparr>, w3)" using Close_ok [of cli2 w2] q(2) by (auto simp: tidy_def)
  have f: "SCFree (Fresh cli) cli2 (next_index 1 p) w2 = Inr (next_index 1 p, w3)" "contacted w3 = contacted w @ [server_of p ?i]"
    using w3 Suc.prems(1) c Close_contacted [OF w3] by (simp_all add: SCFree_def rotating_def)
  have u: "unat (atomic_inc_index (next_index 1 p)) = Suc ?i" using unat_next_index [of p 1] Suc.prems(2) by simp
  show ?case
  proof (cases "ret2 = 0")
    case True
    then show ?thesis using g(1,4) q(1) f by (intro exI [of _ 0] exI [of _ r2] exI [of _ "mc_log _ _"] exI [of _ 1]) (auto simp: ref_cli_def Let_def mc_call_def)
  next
    case False
    have "rotating lib (next_index 1 p)" "unat (atomic_inc_index (next_index 1 p)) + n < 2 ^ 64" using Suc.prems u by (simp_all add: rotating_def)
    from Suc.IH [OF this, of 1 r2 "mc_log [Vote None False] w3"] obtain ret' r' w' k where i:
      "try_loop lib req n None 1 r2 (next_index 1 p) (mc_log [Vote None False] w3) = Inr (ret', r', next_index (Suc k) p, w')" "k \<le> n"
      "contacted w' = contacted w3 @ map (server_of p) [Suc ?i..<Suc ?i + k]" unfolding u by auto
    have "try_loop lib req (Suc n) None ret r p w = Inr (ret', r', next_index (Suc k) p, w')"
      using g(1,4) q(1) f(1) i(1) False by (simp add: ref_cli_def Let_def)
    moreover have "contacted w' = contacted w @ map (server_of p) [?i..<?i + Suc k]" using i(3) f(2) by (simp add: upt_conv_Cons del: upt_Suc)
    ultimately show ?thesis using i(2) by (intro exI [of _ ret'] exI [of _ r'] exI [of _ w'] exI [of _ "Suc k"]) simp
  qed
qed (auto intro: exI [of _ 0])

text \<open>A request that is not answered without asking a server.\<close>

fun real_op :: "mc_op \<Rightarrow> bool" where
  "real_op (GetOp keys) \<longleftrightarrow> keys \<noteq> [] \<and> length keys \<le> MAX_KEY_NUM"
| "real_op (SetOp key val t flag) \<longleftrightarrow> key \<noteq> []"

lemma run_op_rotates:
  assumes "rotating lib p" "real_op a" "unat (atomic_inc_index p) + maxRetryNum p < 2 ^ 64"
  shows "\<exists>w' k. run_op lib a p w = Inr (next_index k p, w') \<and> k \<le> maxRetryNum p \<and> (0 < maxRetryNum p \<longrightarrow> 0 < k) \<and>
    contacted w' = contacted w @ map (server_of p) [unat (atomic_inc_index p)..<unat (atomic_inc_index p) + k]"
proof (cases a)
  case (GetOp keys)
  then have "one_contact (cli_MultiGet lib keys)" using assms(2) by (simp add: cli_MultiGet_contact)
  from try_loop_rotates [OF cli_MultiGet_tidy this assms(1,3), of 1 Map.empty w] show ?thesis by (auto simp: GetOp pool_MultiGet_def)
next
  case (SetOp key val t flag)
  then have "one_contact (\<lambda>_. cli_Set lib key val t flag)" using assms(2) by (simp add: cli_Set_contact)
  from try_loop_rotates [OF cli_Set_tidy this assms(1,3), of 1 "()" w] show ?thesis by (auto simp: SetOp pool_Set_def)
qed

lemma run_ops_rotates:
  "rotating lib p \<Longrightarrow> \<forall>a \<in> set ops. real_op a \<Longrightarrow> unat (atomic_inc_index p) + length ops * maxRetryNum p < 2 ^ 64 \<Longrightarrow>
    \<exists>w' k. run_ops lib ops p w = Inr (next_index k p, w') \<and> k \<le> length ops * maxRetryNum p \<and> (0 < maxRetryNum p \<longrightarrow> length ops \<le> k) \<and>
    contacted w' = contacted w @ map (server_of p) [unat (atomic_inc_index p)..<unat (atomic_inc_index p) + k]"
proof (induction ops arbitrary: p w)
  case Nil
  then show ?case by (intro exI [of _ w] exI [of _ 0]) simp
next
  case (Cons a ops)
  let ?i = "unat (atomic_inc_index p)"
  obtain w1 k1 where s: "run_op lib a p w = Inr (next_index k1 p, w1)" "k1 \<le> maxRetryNum p" "0 < maxRetryNum p \<longrightarrow> 0 < k1"
    "contacted w1 = contacted w @ map (server_of p) [?i..<?i + k1]" using run_op_rotates [OF Cons.prems(1), of a w] Cons.prems(2,3) by auto
  have u: "unat (atomic_inc_index (next_index k1 p)) = ?i + k1" using unat_next_index [of p k1] Cons.prems(3) s(2) by simp
  have "rotating lib (next_index k1 p)" "\<forall>a \<in> set ops. real_op a" "?i + k1 + length ops * maxRetryNum p < 2 ^ 64"
    using Cons.prems s(2) by (simp_all add: rotating_def)
  from Cons.IH [OF this(1,2), unfolded u next_index_simps, OF this(3), of w1] obtain w' k where
    "run_ops lib ops (next_index k1 p) w1 = Inr (next_index (k1 + k) p, w')" "k \<le> length ops * maxRetryNum p" "0 < maxRetryNum p \<longrightarrow> length ops \<le> k"
    "contacted w' = contacted w1 @ map (server_of p) [?i + k1..<?i + k1 + k]" by (elim exE conjE) (rule that)
  then show ?case using s upt_add_eq_append [of ?i "?i + k1" k] by (intro exI [of _ w'] exI [of _ "k1 + k"]) (auto simp: add.assoc)
qed

lemma server_of_period: "server_of p (k + length (serverIps p) * length (serverPorts p)) = server_of p k"
  by (cases "serverIps p = []") (simp_all add: server_of_def)

text \<open>As many indices in a row as there are pairs of an address and a port stand for every pair once.\<close>

lemma server_of_window:
  "mset (map (server_of p) [i..<i + length (serverIps p) * length (serverPorts p)]) =
    mset (concat (map (\<lambda>port. map (\<lambda>ip. (ip, port)) (serverIps p)) (serverPorts p)))"
proof -
  have s: "server_of p = (\<lambda>k. (serverIps p ! (k mod length (serverIps p)), serverPorts p ! (k div length (serverIps p) mod length (serverPorts p))))"
    by (simp add: fun_eq_iff server_of_def)
  show ?thesis unfolding map_upt_period [of "server_of p", OF server_of_period] unfolding s map_pairs ..
qed

section \<open>Properties\<close>

text \<open>C35: no connection leaks.  After \<open>Init\<close> on a new pool, every sequence of \<open>MultiGet\<close> and \<open>Set\<close> requests runs to its end whatever
  libmemcached and the node manager answer: no connection is used or freed after it has been freed, and at the end a pool of short
  connections has none open, a pool of long ones at most 20 for every pair of an address and a port.\<close>

theorem memcached_no_leak:
  assumes "pool_Init ips ports conn_ms send_ms recv_ms retries ctype (new_MemcachedCliPool rnd any) = (True, p)" "mw_live w = []"
  shows "\<exists>p' w'. run_ops lib ops p w = Inr (p', w') \<and>
    card (lv w') \<le> (if ctype = kCKVCliSC then 0 else 20 * length ips * length ports)"
proof -
  have "memcachedCliPtrVec (new_MemcachedCliPool rnd any) = []" by (simp add: new_MemcachedCliPool_def)
  note i = pool_Init_clients [OF assms(1) this]
  have "pool_tidy p w" using i(2) assms(2) by (auto simp: pool_tidy_def lv_def)
  then obtain p' w' where r: "run_ops lib ops p w = Inr (p', w')" "pool_tidy p' w'" "length (memcachedCliPtrVec p') = length (memcachedCliPtrVec p)"
    using run_ops_tidy by blast
  then show ?thesis using pool_tidy_card [OF r(2)] i(1) by auto
qed

definition mc_demo_lib :: lib where
  "mc_demo_lib = \<lparr>lib_push = (\<lambda>i ip port. i \<noteq> 0), lib_mget = (\<lambda>i ks. Some [(hd ks, ''v'', True)]), lib_set = (\<lambda>i k v. True),
     lib_node = (\<lambda>i nd. None), lib_cost = (\<lambda>i. 60)\<rparr>"

theorem memcached_no_leak_witness:
  "\<exists>p' w'. run_ops mc_demo_lib [SetOp ''k'' ''v'' 3000 0, GetOp [''k'', ''l'']]
      (snd (pool_Init [''10.0.0.1'', ''10.0.0.2''] [11211] 100 200 200 2 0 (new_MemcachedCliPool 1 0))) \<lparr>mw_live = [], mw_calls = 0, mw_log = []\<rparr> = Inr (p', w') \<and>
    card (lv w') \<le> 0"
  using memcached_no_leak [of "[''10.0.0.1'', ''10.0.0.2'']" "[11211]" 100 200 200 2 0 1 0
      "snd (pool_Init [''10.0.0.1'', ''10.0.0.2''] [11211] 100 200 200 2 0 (new_MemcachedCliPool 1 0))"
      "\<lparr>mw_live = [], mw_calls = 0, mw_log = []\<rparr>" mc_demo_lib "[SetOp ''k'' ''v'' 3000 0, GetOp [''k'', ''l'']]"]
  by (simp add: pool_Init_def new_MemcachedCliPool_def kCKVCliSC_def Let_def)

text \<open>C36: what \<open>multiget\<close> answers, for at most 4000 keys without a NUL character.  Every value that the library returns is filed under the key it
  belongs to, however the answers are ordered and wherever the search for the key starts, cut to its first 199999 bytes; the request fails exactly
  when \<open>memcached_mget\<close> fails, an answer failed or an answer names a key that was not asked for, and then the values before that answer are kept.\<close>

theorem multiget_exact:
  assumes "keys \<noteq> []" "length keys \<le> 4000" "\<forall>k \<in> set keys. NUL \<notin> set k" "memc \<in> lv w"
    "\<And>fs. lib_mget lib (mw_calls w) keys = Some fs \<Longrightarrow> \<forall>(k, v, ok) \<in> set fs. NUL \<notin> set k"
  shows "multiget lib memc keys kvs w =
    Inr (case lib_mget lib (mw_calls w) keys of
        None \<Rightarrow> (- 1, kvs, w\<lparr>mw_calls := mw_calls w + 1\<rparr>)
      | Some fs \<Rightarrow>
          (if \<forall>(k, v, ok) \<in> set fs. ok \<and> k \<in> set keys then 0 else - 1,
           kvs ++ map_of (rev (map (\<lambda>(k, v, ok). (k, take 199999 v)) (takeWhile (\<lambda>(k, v, ok). ok \<and> k \<in> set keys) fs))),
           w\<lparr>mw_calls := mw_calls w + 1\<rparr>))"
proof (cases "lib_mget lib (mw_calls w) keys")
  case None
  then show ?thesis using assms(2) use_handle_ok [OF assms(4)] by (simp add: multiget_def mc_call_def MAX_KEY_NUM_def)
next
  case (Some fs)
  then show ?thesis using assms(2) use_handle_ok [OF assms(4)] fetch_loop_exact [OF assms(1,3) assms(5) [OF Some], of 0 kvs]
    by (auto simp: multiget_def mc_call_def MAX_KEY_NUM_def accepted_def answers_def takeWhile_eq_all_conv)
qed

theorem multiget_exact_witness:
  "multiget (mc_demo_lib\<lparr>lib_mget := (\<lambda>i ks. Some [(''b'', ''2'', True), (''a'', ''1'', True), (''x'', ''9'', True)])\<rparr>) 0
      [''a'', ''b'', ''c''] Map.empty \<lparr>mw_live = [True], mw_calls = 0, mw_log = []\<rparr> =
    Inr (- 1, [''a'' \<mapsto> ''1'', ''b'' \<mapsto> ''2''], \<lparr>mw_live = [True], mw_calls = 1, mw_log = []\<rparr>)"
  using multiget_exact [of "[''a'', ''b'', ''c'']" 0 "\<lparr>mw_live = [True], mw_calls = 0, mw_log = []\<rparr>"
      "mc_demo_lib\<lparr>lib_mget := (\<lambda>i ks. Some [(''b'', ''2'', True), (''a'', ''1'', True), (''x'', ''9'', True)])\<rparr>" Map.empty]
  by (simp add: lv_def fun_upd_twist)

text \<open>C37: the servers take turns.  A pool of short connections that knows no node sends every attempt of its requests, the attempts after a
  failure included, to the server that follows the one before in the round of all pairs of an address and a port: after any sequence of requests
  the connections made are those of consecutive indices, at least one for every request and at most the number of attempts allowed, and
  as many connections in a row as there are pairs go to every pair exactly once.\<close>

theorem server_rotation:
  assumes "pool_Init ips ports conn_ms send_ms recv_ms retries 0 (new_MemcachedCliPool rnd any) = (True, p)" "good_servers ips ports"
    "\<And>i nd. lib_node lib i nd = None" "\<forall>a \<in> set ops. real_op a" "unat rnd + length ops * nat retries < 2 ^ 64"
  shows "\<exists>p' w' cs. run_ops lib ops p w = Inr (p', w') \<and> contacted w' = contacted w @ cs \<and>
    length cs \<le> length ops * nat retries \<and> (0 < retries \<longrightarrow> length ops \<le> length cs) \<and>
    (\<forall>j. j + length ips * length ports \<le> length cs \<longrightarrow>
      mset (take (length ips * length ports) (drop j cs)) = mset (concat (map (\<lambda>port. map (\<lambda>ip. (ip, port)) ips) ports)))"
proof -
  have p: "serverIps p = ips" "serverPorts p = ports" "mp_cliCType p = kCKVCliSC" "maxRetryNum p = nat retries" "atomic_inc_index p = rnd"
    using assms(1) by (auto simp: pool_Init_def new_MemcachedCliPool_def kCKVCliSC_def Let_def split: if_splits)
  have "rotating lib p" using assms(2,3) p by (simp add: rotating_def)
  from run_ops_rotates [OF this assms(4), of w] assms(5) obtain w' k where r: "run_ops lib ops p w = Inr (next_index k p, w')"
    "k \<le> length ops * nat retries" "0 < retries \<longrightarrow> length ops \<le> k" "contacted w' = contacted w @ map (server_of p) [unat rnd..<unat rnd + k]"
    unfolding p by auto
  have "mset (take (length ips * length ports) (drop j (map (server_of p) [unat rnd..<unat rnd + k]))) =
      mset (concat (map (\<lambda>port. map (\<lambda>ip. (ip, port)) ips) ports))" if "j + length ips * length ports \<le> k" for j
    using server_of_window [of p "unat rnd + j"] that unfolding p by (simp add: drop_map take_map)
  then show ?thesis using r
    by (intro exI [of _ "next_index k p"] exI [of _ w'] exI [of _ "map (server_of p) [unat rnd..<unat rnd + k]"]) simp
qed

theorem server_rotation_witness:
  "\<exists>p' w' cs. run_ops mc_demo_lib [SetOp ''k'' ''v'' 3000 0, GetOp [''k'', ''l'']]
      (snd (pool_Init [''10.0.0.1'', ''10.0.0.2''] [11211] 100 200 200 2 0 (new_MemcachedCliPool 1 0))) \<lparr>mw_live = [], mw_calls = 0, mw_log = []\<rparr> = Inr (p', w') \<and>
    contacted w' = cs \<and> 2 \<le> length cs \<and> mset (take 2 cs) = {#(''10.0.0.1'', 11211), (''10.0.0.2'', 11211)#}"
proof -
  let ?w = "\<lparr>mw_live = [], mw_calls = 0, mw_log = []\<rparr>" and ?ops = "[SetOp ''k'' ''v'' 3000 0, GetOp [''k'', ''l'']]"
  let ?p = "snd (pool_Init [''10.0.0.1'', ''10.0.0.2''] [11211] 100 200 200 2 0 (new_MemcachedCliPool 1 0))"
  have "pool_Init [''10.0.0.1'', ''10.0.0.2''] [11211] 100 200 200 2 0 (new_MemcachedCliPool 1 0) = (True, ?p)"
    "good_servers [''10.0.0.1'', ''10.0.0.2''] [11211]" "\<And>i nd. lib_node mc_demo_lib i nd = None" "\<forall>a \<in> set ?ops. real_op a"
    "unat (1 :: 64 word) + length ?ops * nat 2 < 2 ^ 64"
    by (simp_all add: pool_Init_def Let_def good_servers_def mc_demo_lib_def MAX_KEY_NUM_def kCKVCliSC_def)
  from server_rotation [OF this, of ?w] obtain p' w' cs where r: "run_ops mc_demo_lib ?ops ?p ?w = Inr (p', w')" "contacted w' = contacted ?w @ cs"
    "2 \<le> length cs" "\<forall>j. j + 2 \<le> length cs \<longrightarrow> mset (take 2 (drop j cs)) = {#(''10.0.0.1'', 11211), (''10.0.0.2'', 11211)#}" by (auto simp: numeral_2_eq_2)
  then show ?thesis using r(4) [THEN spec, of 0] by (intro exI [of _ p'] exI [of _ w'] exI [of _ cs]) (simp add: contacted_def)
qed

end
