(* ===== verification/EventQueue.thy ===== *)
theory EventQueue
  imports Prelude
begin

text \<open>
  The queue of an \<open>EventThread\<close> (\<open>helper/event_thread_pool/EventThread.cpp\<close>).  \<open>AddTask\<close> may be called by any thread; it changes the queue under
  the lock and, when the queue was empty, sends a byte through a pipe after it has released the lock.  The thread waits in the event loop for
  bytes in that pipe and in the one of \<open>Stop\<close>, takes the whole queue and runs it.  The pieces between two points where another
  thread can come in are the steps of a transition relation.  The event loop is the one of libevent with level-triggered read events: a handler is
  called when its pipe has bytes, one handler at a time, in any order.
\<close>

section \<open>Systems that come to rest\<close>

text \<open>Steps that keep a condition and make a measure smaller: every run is bounded, and every maximal run ends in a state without a step.\<close>

locale draining =
  fixes step :: "'s \<Rightarrow> 's \<Rightarrow> bool" and keeps :: "'s \<Rightarrow> bool" and weight :: "'s \<Rightarrow> nat"
  assumes kept: "keeps s \<Longrightarrow> step s s' \<Longrightarrow> keeps s'"
    and lighter: "keeps s \<Longrightarrow> step s s' \<Longrightarrow> weight s' < weight s"
begin

lemma runs_keep: "step\<^sup>*\<^sup>* s s' \<Longrightarrow> keeps s \<Longrightarrow> keeps s'"
  by (induction rule: rtranclp_induct) (auto intro: kept)

lemma runs_bounded: "(step ^^ k) s s' \<Longrightarrow> keeps s \<Longrightarrow> k + weight s' \<le> weight s"
proof (induction k arbitrary: s')
  case (Suc k)
  then obtain m where m: "(step ^^ k) s m" "step m s'" by auto
  have "keeps m" using runs_keep m(1) Suc.prems(2) by (blast intro: relpowp_imp_rtranclp)
  then show ?case using lighter [OF _ m(2)] Suc.IH [OF m(1)] Suc.prems(2) by simp
qed simp

lemma comes_to_rest: "keeps s \<Longrightarrow> \<exists>s'. step\<^sup>*\<^sup>* s s' \<and> (\<forall>s''. \<not> step s' s'')"
proof (induction "weight s" arbitrary: s rule: less_induct)
  case less
  show ?case
  proof (cases "\<exists>t. step s t")
    case True
    then obtain t where t: "step s t" by blast
    then show ?thesis using less(1) [OF lighter [OF less(2) t] kept [OF less(2) t]] converse_rtranclp_into_rtranclp [of step s t] by blast
  qed blast
qed

end

section \<open>The queue\<close>

text \<open>Where the thread is: in the event loop, before the swap of \<open>HandleTask\<close>, in its loop, at the test of \<open>HandleStop\<close>, or behind the loop.  The flag tells
  whether \<open>HandleTask\<close> has been called by \<open>HandleStop\<close>.\<close>

datatype ev_pc = Waiting | Handle bool | Running bool | StopTest | Ended

text \<open>The members \<open>tasks_\<close>, \<open>queue_size_\<close> and \<open>running_\<close>; the bytes in the two pipes; the calls of \<open>AddTask\<close> that have yet to send their byte; the
  local vector \<open>tasks\<close> of \<open>HandleTask\<close>, from the next task on; and, as a record of what happened, the tasks accepted and the tasks run.\<close>

record 'a evq =
  eq_tasks :: "'a list"
  eq_size :: nat
  eq_running :: bool
  eq_pipe :: nat
  eq_stop :: nat
  eq_notifiers :: nat
  eq_pc :: ev_pc
  eq_batch :: "'a list"
  eq_accepted :: "'a list"
  eq_done :: "'a list"

definition kDefaultQueueSize :: nat where "kDefaultQueueSize = 100000"

text \<open>The limit that \<open>Init\<close> sets, and the state after \<open>Init\<close> and \<open>Start\<close>.\<close>

definition init_queue_size :: "int \<Rightarrow> nat" where
  "init_queue_size queue_size = (if queue_size > 0 then nat queue_size else kDefaultQueueSize)"

definition evq_start :: "int \<Rightarrow> 'a evq" where
  "evq_start queue_size = \<lparr>eq_tasks = [], eq_size = init_queue_size queue_size, eq_running = True, eq_pipe = 0, eq_stop = 0, eq_notifiers = 0,
     eq_pc = Waiting, eq_batch = [], eq_accepted = [], eq_done = []\<rparr>"

text \<open>\<open>AddTask\<close> between lock and unlock: its result and \<open>need_notify\<close>.\<close>

definition AddTask_locked :: "'a \<Rightarrow> 'a evq \<Rightarrow> bool \<times> bool \<times> 'a evq" where
  "AddTask_locked task s =
     (let pushed = s\<lparr>eq_tasks := eq_tasks s @ [task], eq_accepted := eq_accepted s @ [task]\<rparr> in
      if eq_tasks s = [] then (True, True, pushed)
      else if length (eq_tasks s) \<ge> eq_size s then (False, False, s)
      else (True, False, pushed))"

definition evq_add :: "'a \<Rightarrow> 'a evq \<Rightarrow> 'a evq" where
  "evq_add task s =
     (case AddTask_locked task s of (_, need_notify, s) \<Rightarrow> if need_notify then s\<lparr>eq_notifiers := eq_notifiers s + 1\<rparr> else s)"

definition evq_Stop :: "'a evq \<Rightarrow> 'a evq" where
  "evq_Stop s = (if eq_running s then s\<lparr>eq_running := False, eq_stop := eq_stop s + 1\<rparr> else s)"

definition HandleTask_swap :: "bool \<Rightarrow> 'a evq \<Rightarrow> 'a evq" where
  "HandleTask_swap stopping s = s\<lparr>eq_batch := eq_tasks s, eq_tasks := [], eq_pc := Running stopping\<rparr>"

text \<open>One round of the loop of \<open>HandleTask\<close>, or its end.\<close>

definition HandleTask_loop :: "bool \<Rightarrow> 'a evq \<Rightarrow> 'a evq" where
  "HandleTask_loop stopping s =
     (case eq_batch s of
        t # ts \<Rightarrow> s\<lparr>eq_batch := ts, eq_done := eq_done s @ [t]\<rparr>
      | [] \<Rightarrow> s\<lparr>eq_pc := (if stopping then StopTest else Waiting)\<rparr>)"

text \<open>The test of the loop of \<open>HandleStop\<close>, which does not take the lock, and \<open>event_base_loopbreak\<close> behind it.\<close>

definition HandleStop_test :: "'a evq \<Rightarrow> 'a evq" where
  "HandleStop_test s = s\<lparr>eq_pc := (if eq_tasks s \<noteq> [] then Handle True else Ended)\<rparr>"

text \<open>What the thread does, and the bytes that calls of \<open>AddTask\<close> have yet to send.  \<open>Notify\<close> does not look at the result of \<open>send\<close>, which fails when the
  pipe is full.  A handler reads up to 128 bytes.\<close>

inductive worker_step :: "'a evq \<Rightarrow> 'a evq \<Rightarrow> bool" where
  notify: "0 < eq_notifiers s \<Longrightarrow> worker_step s (s\<lparr>eq_notifiers := eq_notifiers s - 1, eq_pipe := eq_pipe s + 1\<rparr>)"
| notify_full: "0 < eq_notifiers s \<Longrightarrow> 0 < eq_pipe s \<Longrightarrow> worker_step s (s\<lparr>eq_notifiers := eq_notifiers s - 1\<rparr>)"
| recv: "eq_pc s = Waiting \<Longrightarrow> 0 < k \<Longrightarrow> k \<le> 128 \<Longrightarrow> k \<le> eq_pipe s \<Longrightarrow> worker_step s (s\<lparr>eq_pipe := eq_pipe s - k, eq_pc := Handle False\<rparr>)"
| recv_stop: "eq_pc s = Waiting \<Longrightarrow> 0 < k \<Longrightarrow> k \<le> 128 \<Longrightarrow> k \<le> eq_stop s \<Longrightarrow> worker_step s (s\<lparr>eq_stop := eq_stop s - k, eq_pc := StopTest\<rparr>)"
| swap: "eq_pc s = Handle b \<Longrightarrow> worker_step s (HandleTask_swap b s)"
| loop: "eq_pc s = Running b \<Longrightarrow> worker_step s (HandleTask_loop b s)"
| stop: "eq_pc s = StopTest \<Longrightarrow> worker_step s (HandleStop_test s)"

inductive evq_step :: "'a evq \<Rightarrow> 'a evq \<Rightarrow> bool" where
  work: "worker_step s s' \<Longrightarrow> evq_step s s'"
| add: "evq_step s (evq_add t s)"
| stop: "evq_step s (evq_Stop s)"

definition evq_reach :: "int \<Rightarrow> 'a evq \<Rightarrow> bool" where
  "evq_reach queue_size s \<longleftrightarrow> evq_step\<^sup>*\<^sup>* (evq_start queue_size) s"

section \<open>The invariant\<close>

definition stopping :: "ev_pc \<Rightarrow> bool" where
  "stopping pc \<longleftrightarrow> pc \<in> {StopTest, Handle True, Running True, Ended}"

definition running :: "ev_pc \<Rightarrow> bool" where
  "running pc \<longleftrightarrow> (\<exists>b. pc = Running b)"

lemma pc_simps [simp]:
  "stopping StopTest" "stopping Ended" "\<not> stopping Waiting" "stopping (Handle b) = b" "stopping (Running b) = b"
  "\<not> running StopTest" "\<not> running Ended" "\<not> running Waiting" "\<not> running (Handle b)" "running (Running b)"
  by (auto simp: stopping_def running_def)

text \<open>No task is lost, repeated or overtaken; the queue is bounded; and when it is not empty, the thread is on its way to it, or a byte is in
  the pipe or about to be sent.\<close>

definition evq_ok :: "'a evq \<Rightarrow> bool" where
  "evq_ok s \<longleftrightarrow>
     eq_accepted s = eq_done s @ eq_batch s @ eq_tasks s \<and> 0 < eq_size s \<and> length (eq_tasks s) \<le> eq_size s \<and>
     (running (eq_pc s) \<or> eq_batch s = []) \<and> (eq_pc s = Handle True \<longrightarrow> eq_tasks s \<noteq> []) \<and>
     (eq_tasks s \<noteq> [] \<longrightarrow> eq_pc s \<in> {Waiting, Running False} \<longrightarrow> 0 < eq_pipe s \<or> 0 < eq_notifiers s) \<and>
     (eq_running s \<or> 0 < eq_stop s \<or> stopping (eq_pc s))"

lemma evq_start_ok: "evq_ok (evq_start n)"
  by (simp add: evq_ok_def evq_start_def init_queue_size_def kDefaultQueueSize_def)

lemma worker_step_ok: "worker_step s s' \<Longrightarrow> evq_ok s \<Longrightarrow> evq_ok s'"
  by (induction rule: worker_step.induct)
    (auto simp: evq_ok_def HandleTask_swap_def HandleTask_loop_def HandleStop_test_def split: list.splits)

lemma evq_add_ok: "evq_ok s \<Longrightarrow> evq_ok (evq_add t s)"
  by (auto simp: evq_ok_def evq_add_def AddTask_locked_def Let_def)

lemma evq_Stop_ok: "evq_ok s \<Longrightarrow> evq_ok (evq_Stop s)"
  by (auto simp: evq_ok_def evq_Stop_def)

lemma evq_reach_ok: "evq_reach n s \<Longrightarrow> evq_ok s"
  unfolding evq_reach_def
proof (induction rule: rtranclp_induct)
  case (step s s')
  from step(2,3) show ?case by cases (auto intro: worker_step_ok evq_add_ok evq_Stop_ok)
qed (rule evq_start_ok)

section \<open>The thread empties its queue\<close>

fun pc_weight :: "ev_pc \<Rightarrow> nat" where
  "pc_weight Waiting = 0"
| "pc_weight (Handle b) = (if b then 1 else 2)"
| "pc_weight (Running b) = (if b then 3 else 1)"
| "pc_weight StopTest = 2"
| "pc_weight Ended = 0"

definition evq_weight :: "'a evq \<Rightarrow> nat" where
  "evq_weight s = 4 * eq_notifiers s + 3 * eq_pipe s + 3 * eq_stop s + 5 * length (eq_tasks s) + length (eq_batch s) + pc_weight (eq_pc s)"

text \<open>The thread leaves the loop only when it has seen an empty queue.\<close>

definition evq_drains :: "'a evq \<Rightarrow> bool" where
  "evq_drains s \<longleftrightarrow> evq_ok s \<and> (eq_pc s = Ended \<longrightarrow> eq_tasks s = [])"

lemma worker_step_drains: "worker_step s s' \<Longrightarrow> evq_drains s \<Longrightarrow> evq_drains s'"
  unfolding evq_drains_def
  by (auto dest: worker_step_ok)
    (auto elim!: worker_step.cases simp: HandleTask_swap_def HandleTask_loop_def HandleStop_test_def split: list.splits if_splits)

lemma worker_step_lighter: "worker_step s s' \<Longrightarrow> evq_drains s \<Longrightarrow> evq_weight s' < evq_weight s"
  by (induction rule: worker_step.induct)
    (auto simp: evq_drains_def evq_ok_def evq_weight_def HandleTask_swap_def HandleTask_loop_def HandleStop_test_def neq_Nil_conv split: list.splits)

interpretation et: draining worker_step evq_drains evq_weight
  by unfold_locales (auto intro: worker_step_drains worker_step_lighter)

lemma at_rest:
  assumes "evq_drains s" "\<forall>s'. \<not> worker_step s s'"
  shows "eq_done s = eq_accepted s" "\<not> eq_running s \<Longrightarrow> eq_pc s = Ended"
proof -
  note no = assms(2) [rule_format]
  have n: "eq_notifiers s = 0" using no notify [of s] by blast
  have w: "eq_pipe s = 0" "eq_stop s = 0" if "eq_pc s = Waiting"
    using no recv [OF that, of 1] recv_stop [OF that, of 1] by (cases "eq_pipe s"; cases "eq_stop s"; auto)+
  have pc: "eq_pc s = Waiting \<or> eq_pc s = Ended"
    using no swap [of s] loop [of s] worker_step.stop [of s] by (cases "eq_pc s") auto
  show "eq_done s = eq_accepted s" "\<not> eq_running s \<Longrightarrow> eq_pc s = Ended"
    using assms(1) pc n w by (auto simp: evq_drains_def evq_ok_def)
qed

lemma worker_step_accepted: "worker_step s s' \<Longrightarrow> eq_accepted s' = eq_accepted s \<and> eq_running s' = eq_running s"
  by (induction rule: worker_step.induct) (auto simp: HandleTask_swap_def HandleTask_loop_def HandleStop_test_def split: list.splits)

lemma worker_steps_accepted: "worker_step\<^sup>*\<^sup>* s s' \<Longrightarrow> eq_accepted s' = eq_accepted s \<and> eq_running s' = eq_running s"
  by (induction rule: rtranclp_induct) (auto dest: worker_step_accepted)

lemma evq_step_ended: "evq_step s s' \<Longrightarrow> eq_pc s = Ended \<Longrightarrow> eq_pc s' = Ended \<and> eq_done s' = eq_done s"
  by (auto elim!: evq_step.cases worker_step.cases simp: evq_add_def AddTask_locked_def evq_Stop_def Let_def)

lemma evq_steps_ended: "evq_step\<^sup>*\<^sup>* s s' \<Longrightarrow> eq_pc s = Ended \<Longrightarrow> eq_pc s' = Ended \<and> eq_done s' = eq_done s"
  by (induction rule: rtranclp_induct) (auto dest: evq_step_ended)

lemma evq_step_size: "evq_step s s' \<Longrightarrow> eq_size s' = eq_size s"
  by (auto elim!: evq_step.cases worker_step.cases
      simp: evq_add_def AddTask_locked_def evq_Stop_def HandleTask_swap_def HandleTask_loop_def HandleStop_test_def Let_def split: list.splits)

lemma evq_reach_size: "evq_reach n s \<Longrightarrow> eq_size s = init_queue_size n"
  unfolding evq_reach_def by (induction rule: rtranclp_induct) (auto dest: evq_step_size simp: evq_start_def)

lemma evq_reach_step: "evq_reach n s \<Longrightarrow> evq_step s s' \<Longrightarrow> evq_reach n s'"
  unfolding evq_reach_def by (rule rtranclp.rtrancl_into_rtrancl)

lemmas evq_reach_add = evq_reach_step [OF _ add]
lemmas evq_reach_Stop = evq_reach_step [OF _ evq_step.stop]

lemma evq_reach_start: "evq_reach n (evq_start n)"
  by (simp add: evq_reach_def)

section \<open>Properties\<close>

text \<open>C39: whatever the threads do, the tasks that have been run, the ones in the vector of \<open>HandleTask\<close> and the ones in the queue are, in this
  order, exactly the tasks that \<open>AddTask\<close> has accepted: none is lost, run twice or overtaken.  The queue never holds more than the limit given to \<open>Init\<close>, and
  \<open>AddTask\<close> refuses a task only when it is full.\<close>

theorem event_tasks_in_order:
  assumes "evq_reach queue_size s"
  shows "eq_accepted s = eq_done s @ eq_batch s @ eq_tasks s \<and> length (eq_tasks s) \<le> init_queue_size queue_size \<and>
    (fst (AddTask_locked t s) \<longleftrightarrow> length (eq_tasks s) < init_queue_size queue_size) \<and>
    eq_accepted (evq_add t s) = eq_accepted s @ (if fst (AddTask_locked t s) then [t] else [])"
  using evq_reach_ok [OF assms] evq_reach_size [OF assms]
  by (auto simp: evq_ok_def AddTask_locked_def evq_add_def Let_def)

theorem event_tasks_in_order_witness:
  "eq_accepted (evq_add (2::nat) (evq_add 1 (evq_start 1))) = [1]"
proof -
  have "evq_reach 1 (evq_add (1::nat) (evq_start 1))" by (intro evq_reach_add evq_reach_start)
  from event_tasks_in_order [OF this, of 2] show ?thesis
    by (simp add: evq_start_def evq_add_def AddTask_locked_def init_queue_size_def Let_def)
qed

text \<open>C38: no wake-up is lost.  From every state that the threads can reach while the event loop runs, if no task is added any more, the thread and the
  calls of \<open>AddTask\<close> that have yet to send their byte make a bounded number of steps, and when they come to rest every accepted task has been run; if \<open>Stop\<close> has
  been called, the thread has ended, so that \<open>pthread_join\<close> returns.\<close>

theorem event_thread_drains:
  assumes "evq_reach queue_size s" "eq_pc s \<noteq> Ended"
  shows "(\<forall>k s'. (worker_step ^^ k) s s' \<longrightarrow> k \<le> evq_weight s) \<and>
    (\<exists>s'. worker_step\<^sup>*\<^sup>* s s' \<and> (\<forall>s''. \<not> worker_step s' s'')) \<and>
    (\<forall>s'. worker_step\<^sup>*\<^sup>* s s' \<and> (\<forall>s''. \<not> worker_step s' s'') \<longrightarrow>
       eq_done s' = eq_accepted s \<and> (\<not> eq_running s \<longrightarrow> eq_pc s' = Ended))"
proof -
  have d: "evq_drains s" using assms evq_reach_ok by (auto simp: evq_drains_def)
  have "eq_done s' = eq_accepted s \<and> (\<not> eq_running s \<longrightarrow> eq_pc s' = Ended)"
    if "worker_step\<^sup>*\<^sup>* s s'" "\<forall>s''. \<not> worker_step s' s''" for s'
    using at_rest [OF et.runs_keep [OF that(1) d] that(2)] worker_steps_accepted [OF that(1)] by simp
  then show ?thesis using et.runs_bounded [OF _ d] et.comes_to_rest [OF d] by fastforce
qed

theorem event_thread_drains_witness:
  "\<exists>s'. worker_step\<^sup>*\<^sup>* (evq_Stop (evq_add (7::nat) (evq_start 10))) s' \<and> eq_done s' = [7] \<and> eq_pc s' = Ended"
proof -
  let ?s = "evq_Stop (evq_add (7::nat) (evq_start 10))"
  have "evq_reach 10 (evq_add (7::nat) (evq_start 10))" by (intro evq_reach_add evq_reach_start)
  then have r: "evq_reach 10 ?s" by (rule evq_reach_Stop)
  have s: "eq_pc ?s \<noteq> Ended" "eq_accepted ?s = [7]" "\<not> eq_running ?s"
    by (simp_all add: evq_start_def evq_add_def evq_Stop_def AddTask_locked_def Let_def)
  from event_thread_drains [OF r s(1)] s(2,3) show ?thesis by fastforce
qed

text \<open>After the end of the event loop \<open>AddTask\<close> still accepts tasks, which are never run: neither \<open>AddTask\<close> nor the test of the pool for
  \<open>started\<close> is ordered with \<open>Stop\<close>.\<close>

theorem event_stop_loses_task:
  assumes "evq_reach queue_size s" "eq_pc s = Ended" "eq_tasks s = []" "evq_step\<^sup>*\<^sup>* (evq_add t s) s'"
  shows "fst (AddTask_locked t s) \<and> last (eq_accepted (evq_add t s)) = t \<and> eq_done s' = eq_done s"
  using evq_steps_ended [OF assms(4)] assms(2,3) by (simp add: evq_add_def AddTask_locked_def Let_def)

theorem event_stop_loses_task_witness:
  "\<exists>s. evq_reach 10 s \<and> fst (AddTask_locked (7::nat) s) \<and> last (eq_accepted (evq_add 7 s)) = 7 \<and>
     (\<forall>s'. evq_step\<^sup>*\<^sup>* (evq_add 7 s) s' \<longrightarrow> eq_done s' = [])"
proof -
  define s0 where "s0 = evq_Stop (evq_start 10 :: nat evq)"
  define s1 where "s1 = s0\<lparr>eq_stop := eq_stop s0 - 1, eq_pc := StopTest\<rparr>"
  define s2 where "s2 = HandleStop_test s1"
  have 0: "evq_reach 10 s0" unfolding s0_def by (intro evq_reach_Stop evq_reach_start)
  have 1: "worker_step s0 s1" unfolding s1_def by (rule recv_stop) (simp_all add: s0_def evq_start_def evq_Stop_def)
  have 2: "worker_step s1 s2" unfolding s2_def by (rule worker_step.stop) (simp add: s1_def)
  have r: "evq_reach 10 s2" by (rule evq_reach_step [OF evq_reach_step [OF 0 work [OF 1]] work [OF 2]])
  have s: "eq_pc s2 = Ended" "eq_tasks s2 = []" "eq_done s2 = []"
    by (simp_all add: s2_def s1_def s0_def HandleStop_test_def evq_start_def evq_Stop_def)
  from event_stop_loses_task [OF r s(1,2), of 7] s(3) r show ?thesis by (intro exI [of _ s2]) auto
qed

end
