(* ===== verification/EventPool.thy ===== *)
theory EventPool
  imports EventQueue
begin

text \<open>
  The objects around the queue of an event thread: \<open>EventWatcher.cpp\<close>, the parts of \<open>EventThread.cpp\<close> that create and release them, and
  \<open>EventThreadPool.cpp\<close>.  libevent is not part of the repository: whether its calls succeed is a parameter, numbered by the calls made so far, and
  the calls with an effect are recorded in a list.  The theorems are about that list.
\<close>

section \<open>The libraries\<close>

text \<open>\<open>event_base_new_with_config\<close>, \<open>evutil_socketpair\<close>, \<open>evutil_make_socket_nonblocking\<close>, \<open>event_add\<close>; and what the memory of a new watcher holds: whether
  \<open>event_initialized\<close> is true of its event, and \<open>pipe_[1]\<close>, which the constructor does not clear.\<close>

record el_lib =
  el_base :: "nat \<Rightarrow> bool"
  el_pair :: "nat \<Rightarrow> (int \<times> int) option"
  el_nonblock :: "nat \<Rightarrow> int \<Rightarrow> bool"
  el_add :: "nat \<Rightarrow> bool"
  el_junk_event :: "nat \<Rightarrow> bool"
  el_junk_pipe :: "nat \<Rightarrow> int"

datatype ev_call = BaseNew nat | BaseFree nat | SocketPair int int | EventAssign nat nat int | EventAdd nat | EventDel nat
  | CloseFd int | Send int | ThreadCreate nat | ThreadDetach nat | ThreadJoin nat

record ev_world =
  ew_calls :: nat
  ew_log :: "ev_call list"

definition ev_call :: "ev_world \<Rightarrow> nat \<times> ev_world" where
  "ev_call w = (ew_calls w, w\<lparr>ew_calls := ew_calls w + 1\<rparr>)"

definition ev_log :: "ev_call list \<Rightarrow> ev_world \<Rightarrow> ev_world" where
  "ev_log es w = w\<lparr>ew_log := ew_log w @ es\<rparr>"

section \<open>Watchers\<close>

text \<open>The \<open>struct event\<close> of a watcher: not initialised, cleared, or assigned to a base.\<close>

datatype ev_event = Junk bool | Cleared | Assigned nat

fun event_initialized :: "ev_event \<Rightarrow> bool" where
  "event_initialized (Junk b) = b"
| "event_initialized Cleared = False"
| "event_initialized (Assigned b) = True"

record PipedEventWatcher =
  wt_id :: nat
  wt_base :: nat
  wt_event :: ev_event
  pipe0 :: int
  pipe1 :: int

definition new_PipedEventWatcher :: "el_lib \<Rightarrow> nat \<Rightarrow> ev_world \<Rightarrow> PipedEventWatcher \<times> ev_world" where
  "new_PipedEventWatcher lib base w =
     (case ev_call w of (i, w) \<Rightarrow>
        (\<lparr>wt_id = i, wt_base = base, wt_event = Junk (el_junk_event lib i), pipe0 = 0, pipe1 = el_junk_pipe lib i\<rparr>, w))"

definition wt_Cancel :: "PipedEventWatcher \<Rightarrow> ev_world \<Rightarrow> PipedEventWatcher \<times> ev_world" where
  "wt_Cancel h w = (h\<lparr>wt_event := Cleared\<rparr>, if event_initialized (wt_event h) then ev_log [EventDel (wt_id h)] w else w)"

definition wt_DoClose :: "PipedEventWatcher \<Rightarrow> ev_world \<Rightarrow> PipedEventWatcher \<times> ev_world" where
  "wt_DoClose h w = (if pipe0 h \<noteq> 0 then (h\<lparr>pipe0 := 0, pipe1 := 0\<rparr>, ev_log [CloseFd (pipe0 h), CloseFd (pipe1 h)] w) else (h, w))"

definition wt_Close :: "PipedEventWatcher \<Rightarrow> ev_world \<Rightarrow> PipedEventWatcher \<times> ev_world" where
  "wt_Close h w = (case wt_Cancel h w of (h, w) \<Rightarrow> wt_DoClose h w)"

definition make_nonblocking :: "el_lib \<Rightarrow> int \<Rightarrow> ev_world \<Rightarrow> bool \<times> ev_world" where
  "make_nonblocking lib fd w = (case ev_call w of (i, w) \<Rightarrow> (el_nonblock lib i fd, w))"

definition wt_DoInit :: "el_lib \<Rightarrow> PipedEventWatcher \<Rightarrow> ev_world \<Rightarrow> (bool \<times> PipedEventWatcher \<times> ev_world) res" where
  "wt_DoInit lib h w =
     bindr (check AssertFailed (pipe0 h = 0)) (\<lambda>_.
     case ev_call w of (i, w) \<Rightarrow>
       case el_pair lib i of
         None \<Rightarrow> Inr (False, wt_Close h w)
       | Some (a, b) \<Rightarrow>
           let h = h\<lparr>pipe0 := a, pipe1 := b\<rparr>; w = ev_log [SocketPair a b] w in
           case make_nonblocking lib a w of (ok, w) \<Rightarrow>
             if \<not> ok then Inr (False, wt_Close h w)
             else case make_nonblocking lib b w of (ok, w) \<Rightarrow>
               if \<not> ok then Inr (False, wt_Close h w)
               else Inr (True, h\<lparr>wt_event := Assigned (wt_base h)\<rparr>, ev_log [EventAssign (wt_id h) (wt_base h) b] w))"

text \<open>\<open>event_base_set\<close> names the base that the event has already.\<close>

definition wt_Init :: "el_lib \<Rightarrow> PipedEventWatcher \<Rightarrow> ev_world \<Rightarrow> (bool \<times> PipedEventWatcher \<times> ev_world) res" where
  "wt_Init lib h w = wt_DoInit lib h w"

definition wt_Watch :: "el_lib \<Rightarrow> PipedEventWatcher \<Rightarrow> ev_world \<Rightarrow> bool \<times> ev_world" where
  "wt_Watch lib h w = (case ev_call w of (i, w) \<Rightarrow> if el_add lib i then (True, ev_log [EventAdd (wt_id h)] w) else (False, w))"

definition wt_Notify :: "PipedEventWatcher \<Rightarrow> ev_world \<Rightarrow> ev_world" where
  "wt_Notify h w = ev_log [Send (pipe0 h)] w"

text \<open>The condition \<open>Init() && Watch()\<close> of a new watcher; the watcher stays where it is stored when it fails.\<close>

definition open_watcher :: "el_lib \<Rightarrow> nat \<Rightarrow> ev_world \<Rightarrow> (bool \<times> PipedEventWatcher \<times> ev_world) res" where
  "open_watcher lib base w =
     (case new_PipedEventWatcher lib base w of (h, w) \<Rightarrow>
        bindr (wt_Init lib h w) (\<lambda>(ok, h, w).
        if \<not> ok then Inr (False, h, w) else case wt_Watch lib h w of (ok, w) \<Rightarrow> Inr (ok, h, w)))"

section \<open>Threads\<close>

record EventThread =
  et_id :: nat
  et_queue_size :: int
  et_base :: "nat option"
  et_task_watcher :: "PipedEventWatcher option"
  et_running :: bool
  et_stop_watcher :: "PipedEventWatcher option"
  et_detach :: bool

definition new_EventThread :: "bool \<Rightarrow> ev_world \<Rightarrow> EventThread \<times> ev_world" where
  "new_EventThread detach w =
     (case ev_call w of (i, w) \<Rightarrow>
        (\<lparr>et_id = i, et_queue_size = int kDefaultQueueSize, et_base = None, et_task_watcher = None, et_running = False, et_stop_watcher = None,
          et_detach = detach\<rparr>, w))"

definition et_Close :: "EventThread \<Rightarrow> ev_world \<Rightarrow> EventThread \<times> ev_world" where
  "et_Close t w = (case et_base t of None \<Rightarrow> (t, w) | Some b \<Rightarrow> (t\<lparr>et_base := None\<rparr>, ev_log [BaseFree b] w))"

definition et_Init :: "el_lib \<Rightarrow> int \<Rightarrow> EventThread \<Rightarrow> ev_world \<Rightarrow> (bool \<times> EventThread \<times> ev_world) res" where
  "et_Init lib queue_size t w =
     bindr (check AssertFailed (et_base t = None)) (\<lambda>_.
     bindr (check AssertFailed (\<not> et_running t)) (\<lambda>_.
     let t = (if queue_size > 0 then t\<lparr>et_queue_size := queue_size\<rparr> else t) in
     case ev_call w of (b, w) \<Rightarrow>
       if \<not> el_base lib b then Inr (False, t, w)
       else
         let t = t\<lparr>et_base := Some b\<rparr>; w = ev_log [BaseNew b] w in
         bindr (open_watcher lib b w) (\<lambda>(ok, h, w).
         let t = t\<lparr>et_task_watcher := Some h\<rparr> in
         if \<not> ok then Inr (False, et_Close t w) else Inr (True, t, w))))"

definition et_Start :: "el_lib \<Rightarrow> EventThread \<Rightarrow> ev_world \<Rightarrow> (bool \<times> EventThread \<times> ev_world) res" where
  "et_Start lib t w =
     (case et_base t of
        None \<Rightarrow> Inl AssertFailed
      | Some b \<Rightarrow>
          bindr (check AssertFailed (\<not> et_running t)) (\<lambda>_.
          bindr (open_watcher lib b w) (\<lambda>(ok, h, w).
          let t = t\<lparr>et_stop_watcher := Some h\<rparr> in
          if \<not> ok then Inr (False, t, w)
          else Inr (True, t\<lparr>et_running := True\<rparr>, ev_log (ThreadCreate (et_id t) # (if et_detach t then [ThreadDetach (et_id t)] else [])) w))))"

definition et_Stop :: "EventThread \<Rightarrow> ev_world \<Rightarrow> (EventThread \<times> ev_world) res" where
  "et_Stop t w =
     (if et_running t then
        case et_stop_watcher t of
          None \<Rightarrow> Inl OutOfBounds
        | Some h \<Rightarrow> Inr (t\<lparr>et_running := False\<rparr>, ev_log [ThreadJoin (et_id t)] (wt_Notify h w))
      else Inr (t, w))"

text \<open>The destructors: \<open>reset\<close> runs \<open>~EventWatcher\<close>, which cancels the event but does not close the pipe.\<close>

definition et_destroy :: "EventThread \<Rightarrow> ev_world \<Rightarrow> ev_world" where
  "et_destroy t w =
     (let w = (case et_task_watcher t of None \<Rightarrow> w | Some h \<Rightarrow> (case wt_Close h w of (h, w) \<Rightarrow> snd (wt_Cancel h w))) in
      case et_stop_watcher t of None \<Rightarrow> w | Some h \<Rightarrow> snd (wt_Cancel h w))"

section \<open>The pool\<close>

definition g_max_task_in_queue :: int where "g_max_task_in_queue = 10000"

record EventThreadPool =
  numThreads :: nat
  started :: bool
  next_thread :: "64 word"
  eventThreadPtrVec :: "EventThread option list"

definition new_EventThreadPool :: "nat \<Rightarrow> EventThreadPool" where
  "new_EventThreadPool n = \<lparr>numThreads = n mod 65536, started = False, next_thread = 0, eventThreadPtrVec = []\<rparr>"

definition destroy_ptr :: "EventThread option \<Rightarrow> ev_world \<Rightarrow> ev_world" where
  "destroy_ptr t w = (case t of None \<Rightarrow> w | Some t \<Rightarrow> et_destroy t w)"

text \<open>The loop of \<open>Start\<close>: \<open>n\<close> threads are left.  A thread that could not be started is deleted on return, and so is one that is replaced.\<close>

fun start_loop :: "el_lib \<Rightarrow> nat \<Rightarrow> nat \<Rightarrow> EventThread option list \<Rightarrow> ev_world \<Rightarrow> (bool \<times> EventThread option list \<times> ev_world) res" where
  "start_loop lib i 0 vec w = Inr (True, vec, w)"
| "start_loop lib i (Suc n) vec w =
     (case new_EventThread False w of (t, w) \<Rightarrow>
        bindr (et_Init lib g_max_task_in_queue t w) (\<lambda>(ok, t, w).
        if \<not> ok then Inr (False, vec, et_destroy t w)
        else bindr (et_Start lib t w) (\<lambda>(ok, t, w).
        if \<not> ok then Inr (False, vec, et_destroy t w)
        else bindr (mem_get vec i) (\<lambda>old. start_loop lib (i + 1) n (vec[i := Some t]) (destroy_ptr old w)))))"

definition vec_resize :: "nat \<Rightarrow> EventThread option list \<Rightarrow> EventThread option list" where
  "vec_resize n vec = take n vec @ replicate (n - length vec) None"

definition evpool_Start :: "el_lib \<Rightarrow> EventThreadPool \<Rightarrow> ev_world \<Rightarrow> (bool \<times> EventThreadPool \<times> ev_world) res" where
  "evpool_Start lib p w =
     (if started p then Inr (True, p, w)
      else if numThreads p \<le> 0 then Inr (False, p, w)
      else bindr (start_loop lib 0 (numThreads p) (vec_resize (numThreads p) (eventThreadPtrVec p))
                    (fold destroy_ptr (drop (numThreads p) (eventThreadPtrVec p)) w)) (\<lambda>(ok, vec, w).
           Inr (ok, p\<lparr>eventThreadPtrVec := vec, started := ok\<rparr>, w)))"

text \<open>The number of the thread, or NULL.\<close>

definition GetNextEventThread :: "EventThreadPool \<Rightarrow> nat option \<times> EventThreadPool" where
  "GetNextEventThread p =
     (if numThreads p = 0 \<or> eventThreadPtrVec p = [] then (None, p)
      else if \<not> started p then (None, p)
      else (Some (unat (next_thread p) mod length (eventThreadPtrVec p)), p\<lparr>next_thread := next_thread p + 1\<rparr>))"

text \<open>The queue of a thread that has been started: it is empty and has the limit that \<open>Init\<close> has left in \<open>queue_size_\<close>.  The queues of the threads are
  kept beside the pool.\<close>

definition thread_queue :: "EventThread option \<Rightarrow> 'a evq" where
  "thread_queue t = (evq_start 0)\<lparr>eq_size := (case t of None \<Rightarrow> 0 | Some t \<Rightarrow> nat (et_queue_size t))\<rparr>"

definition pool_queues :: "EventThreadPool \<Rightarrow> 'a evq list" where
  "pool_queues p = map thread_queue (eventThreadPtrVec p)"

definition evpool_AddTask :: "'a \<Rightarrow> EventThreadPool \<Rightarrow> 'a evq list \<Rightarrow> (bool \<times> EventThreadPool \<times> 'a evq list) res" where
  "evpool_AddTask task p qs =
     (case GetNextEventThread p of
        (None, p) \<Rightarrow> Inr (False, p, qs)
      | (Some i, p) \<Rightarrow>
          bindr (mem_get (eventThreadPtrVec p) i) (\<lambda>t.
          if t = None then Inr (False, p, qs)
          else bindr (mem_get qs i) (\<lambda>q. Inr (fst (AddTask_locked task q), p, qs[i := evq_add task q]))))"

fun stop_loop :: "EventThread option list \<Rightarrow> ev_world \<Rightarrow> (EventThread option list \<times> ev_world) res" where
  "stop_loop [] w = Inr ([], w)"
| "stop_loop (None # vec) w = bindr (stop_loop vec w) (\<lambda>(vec, w). Inr (None # vec, w))"
| "stop_loop (Some t # vec) w =
     bindr (et_Stop t w) (\<lambda>(t, w).
     case et_Close t w of (t, w) \<Rightarrow> bindr (stop_loop vec w) (\<lambda>(vec, w). Inr (Some t # vec, w)))"

definition evpool_Stop :: "EventThreadPool \<Rightarrow> ev_world \<Rightarrow> (EventThreadPool \<times> ev_world) res" where
  "evpool_Stop p w =
     bindr (stop_loop (eventThreadPtrVec p) w) (\<lambda>(vec, w). Inr (p\<lparr>started := False, eventThreadPtrVec := []\<rparr>, fold destroy_ptr vec w))"

section \<open>Starting\<close>

lemma ev_log_log [simp]: "ev_log es (ev_log ds w) = ev_log (ds @ es) w" "ev_log [] w = w" "ew_log (ev_log es w) = ew_log w @ es"
  by (simp_all add: ev_log_def)

lemma open_watcher_returns: "\<exists>ok h w'. open_watcher lib b w = Inr (ok, h, w') \<and> (ok \<longrightarrow> wt_event h = Assigned b)"
  by (auto simp: open_watcher_def new_PipedEventWatcher_def wt_Init_def wt_DoInit_def wt_Close_def wt_Cancel_def wt_DoClose_def make_nonblocking_def
      wt_Watch_def ev_call_def Let_def split: option.splits)

text \<open>A thread that runs: its queue has the limit of the pool, and its events belong to its base.\<close>

definition et_live :: "EventThread \<Rightarrow> bool" where
  "et_live t \<longleftrightarrow> et_running t \<and> et_queue_size t = 10000 \<and>
     (case (et_base t, et_task_watcher t, et_stop_watcher t) of
        (Some b, Some h, Some s) \<Rightarrow> wt_event h = Assigned b \<and> wt_event s = Assigned b
      | _ \<Rightarrow> False)"

lemma et_liveD:
  "et_live t \<Longrightarrow> \<exists>b h s. et_base t = Some b \<and> et_task_watcher t = Some h \<and> et_stop_watcher t = Some s \<and>
    wt_event h = Assigned b \<and> wt_event s = Assigned b \<and> et_running t"
  by (auto simp: et_live_def split: option.splits)

lemma et_Init_returns:
  assumes "et_base t = None" "\<not> et_running t"
  shows "\<exists>ok t' w'. et_Init lib n t w = Inr (ok, t', w') \<and>
    (ok \<longrightarrow> \<not> et_running t' \<and> (0 < n \<longrightarrow> et_queue_size t' = n) \<and> (\<exists>b h. et_base t' = Some b \<and> et_task_watcher t' = Some h \<and> wt_event h = Assigned b))"
proof -
  let ?b = "ew_calls w" and ?w = "ev_log [BaseNew (ew_calls w)] (w\<lparr>ew_calls := ew_calls w + 1\<rparr>)"
  obtain ok h w' where "open_watcher lib ?b ?w = Inr (ok, h, w')" "ok \<longrightarrow> wt_event h = Assigned ?b"
    using open_watcher_returns by blast
  then show ?thesis using assms by (auto simp: et_Init_def ev_call_def Let_def et_Close_def)
qed

lemma et_Start_returns:
  assumes "et_base t = Some b" "et_task_watcher t = Some h" "wt_event h = Assigned b" "\<not> et_running t" "et_queue_size t = 10000"
  shows "\<exists>ok t' w'. et_Start lib t w = Inr (ok, t', w') \<and> (ok \<longrightarrow> et_live t')"
proof -
  obtain ok h' w' where "open_watcher lib b w = Inr (ok, h', w')" "ok \<longrightarrow> wt_event h' = Assigned b"
    using open_watcher_returns by blast
  then show ?thesis using assms by (auto simp: et_Start_def Let_def et_live_def)
qed

lemma new_EventThread_fresh: "new_EventThread d w = (t, w') \<Longrightarrow> et_base t = None \<and> \<not> et_running t"
  by (auto simp: new_EventThread_def ev_call_def)

lemma start_loop_returns:
  "length vec = i + n \<Longrightarrow> \<exists>ok vec' w'. start_loop lib i n vec w = Inr (ok, vec', w') \<and> length vec' = length vec \<and> take i vec' = take i vec \<and>
     (ok \<longrightarrow> (\<exists>ts. drop i vec' = map Some ts \<and> (\<forall>t \<in> set ts. et_live t)))"
proof (induction n arbitrary: i vec w)
  case 0
  then show ?case by (auto intro: exI [of _ "[]"])
next
  case (Suc n)
  obtain t0 w0 where 0: "new_EventThread False w = (t0, w0)" by (cases "new_EventThread False w")
  obtain ok1 t1 w1 where 1: "et_Init lib g_max_task_in_queue t0 w0 = Inr (ok1, t1, w1)"
    "ok1 \<longrightarrow> \<not> et_running t1 \<and> (0 < g_max_task_in_queue \<longrightarrow> et_queue_size t1 = g_max_task_in_queue) \<and> (\<exists>b h. et_base t1 = Some b \<and> et_task_watcher t1 = Some h \<and> wt_event h = Assigned b)"
    using et_Init_returns new_EventThread_fresh [OF 0] by blast
  show ?case
  proof (cases ok1)
    case False
    then show ?thesis using 0 1(1) by auto
  next
    case True
    then obtain ok2 t2 w2 where 2: "et_Start lib t1 w1 = Inr (ok2, t2, w2)" "ok2 \<longrightarrow> et_live t2"
      using 1(2) et_Start_returns by (fastforce simp: g_max_task_in_queue_def)
    show ?thesis
    proof (cases ok2)
      case False
      then show ?thesis using 0 1(1) 2(1) True by auto
    next
      case ok: True
      have i: "i < length vec" using Suc.prems by simp
      obtain ok vec' w' where 3: "start_loop lib (Suc i) n (vec[i := Some t2]) (destroy_ptr (vec ! i) w2) = Inr (ok, vec', w')"
        "length vec' = length vec" "take (Suc i) vec' = take (Suc i) (vec[i := Some t2])"
        "ok \<longrightarrow> (\<exists>ts. drop (Suc i) vec' = map Some ts \<and> (\<forall>t \<in> set ts. et_live t))"
        using Suc.IH [of "vec[i := Some t2]" "Suc i" "destroy_ptr (vec ! i) w2"] Suc.prems by auto
      have v: "take i vec' = take i vec" "vec' ! i = Some t2"
        using arg_cong [OF 3(3), of "take i"] arg_cong [OF 3(3), of "\<lambda>xs. xs ! i"] i 3(2) by (simp_all add: min_def)
      then have d: "drop i vec' = Some t2 # drop (Suc i) vec'" using i 3(2) by (simp add: Cons_nth_drop_Suc [symmetric])
      have "\<exists>ts. drop i vec' = map Some ts \<and> (\<forall>t \<in> set ts. et_live t)" if "ok"
      proof -
        obtain ts where "drop (Suc i) vec' = map Some ts" "\<forall>t \<in> set ts. et_live t" using 3(4) \<open>ok\<close> by blast
        then show ?thesis using d 2(2) \<open>ok2\<close> by (intro exI [of _ "t2 # ts"]) simp
      qed
      moreover have "start_loop lib i (Suc n) vec w = Inr (ok, vec', w')" using 0 1(1) 2(1) True ok i 3(1) by simp
      ultimately show ?thesis using v(1) 3(2) by blast
    qed
  qed
qed

lemma evpool_Start_new:
  "\<exists>ok p w'. evpool_Start lib (new_EventThreadPool n) w = Inr (ok, p, w') \<and> started p = ok \<and> next_thread p = 0 \<and> numThreads p = n mod 65536 \<and>
     (ok \<longrightarrow> 0 < n mod 65536 \<and> (\<exists>ts. eventThreadPtrVec p = map Some ts \<and> length ts = n mod 65536 \<and> (\<forall>t \<in> set ts. et_live t)))"
proof (cases "n mod 65536 = 0")
  case True
  then show ?thesis by (auto simp: evpool_Start_def new_EventThreadPool_def)
next
  case False
  define v where "v = vec_resize (n mod 65536) []"
  have v: "length v = 0 + n mod 65536" by (simp add: v_def vec_resize_def)
  from start_loop_returns [OF v, of lib w] show ?thesis
    using False v by (auto simp: evpool_Start_def new_EventThreadPool_def v_def [symmetric])
qed

text \<open>When no call of the libraries fails, \<open>Start\<close> succeeds.\<close>

definition el_good :: "el_lib \<Rightarrow> bool" where
  "el_good lib \<longleftrightarrow> (\<forall>i. el_base lib i \<and> el_add lib i \<and> el_pair lib i \<noteq> None \<and> (\<forall>fd. el_nonblock lib i fd))"

lemma open_watcher_good: "el_good lib \<Longrightarrow> \<exists>h w'. open_watcher lib b w = Inr (True, h, w')"
  by (auto simp: el_good_def open_watcher_def new_PipedEventWatcher_def wt_Init_def wt_DoInit_def make_nonblocking_def wt_Watch_def ev_call_def Let_def
      split: option.splits)

lemma et_Init_good:
  assumes "el_good lib" "et_base t = None" "\<not> et_running t"
  shows "\<exists>t' w' b. et_Init lib n t w = Inr (True, t', w') \<and> et_base t' = Some b \<and> \<not> et_running t'"
proof -
  have "el_base lib i" for i using assms(1) by (simp add: el_good_def)
  then show ?thesis
    using assms(2,3) open_watcher_good [OF assms(1), of "ew_calls w" "ev_log [BaseNew (ew_calls w)] (w\<lparr>ew_calls := ew_calls w + 1\<rparr>)"]
    by (auto simp: et_Init_def ev_call_def Let_def)
qed

lemma et_Start_good: "el_good lib \<Longrightarrow> et_base t = Some b \<Longrightarrow> \<not> et_running t \<Longrightarrow> \<exists>t' w'. et_Start lib t w = Inr (True, t', w')"
  using open_watcher_good [of lib b w] by (auto simp: et_Start_def Let_def)

lemma start_loop_good:
  assumes "el_good lib"
  shows "i + n \<le> length vec \<Longrightarrow> \<exists>vec' w'. start_loop lib i n vec w = Inr (True, vec', w')"
proof (induction n arbitrary: i vec w)
  case (Suc n)
  obtain t0 w0 where 0: "new_EventThread False w = (t0, w0)" by (cases "new_EventThread False w")
  obtain t1 w1 b where 1: "et_Init lib g_max_task_in_queue t0 w0 = Inr (True, t1, w1)" "et_base t1 = Some b" "\<not> et_running t1"
    using et_Init_good [OF assms] new_EventThread_fresh [OF 0] by blast
  obtain t2 w2 where 2: "et_Start lib t1 w1 = Inr (True, t2, w2)" using et_Start_good [OF assms 1(2,3)] by blast
  show ?case using 0 1(1) 2 Suc.prems Suc.IH [of "i + 1" "vec[i := Some t2]" "destroy_ptr (vec ! i) w2"] by simp
qed simp

lemma evpool_Start_good:
  assumes "el_good lib" "0 < n mod 65536"
  shows "\<exists>p w'. evpool_Start lib (new_EventThreadPool n) w = Inr (True, p, w')"
proof -
  define v where "v = vec_resize (n mod 65536) []"
  have v: "0 + n mod 65536 \<le> length v" by (simp add: v_def vec_resize_def)
  from start_loop_good [OF assms(1) v, of w] show ?thesis
    using assms(2) by (auto simp: evpool_Start_def new_EventThreadPool_def v_def [symmetric])
qed

section \<open>Stopping\<close>

text \<open>The calls that stop a thread, and those that delete it.\<close>

definition stop_calls :: "EventThread \<Rightarrow> ev_call list" where
  "stop_calls t =
     (case (et_base t, et_stop_watcher t) of (Some b, Some s) \<Rightarrow> [Send (pipe0 s), ThreadJoin (et_id t), BaseFree b] | _ \<Rightarrow> [])"

definition delete_calls :: "EventThread \<Rightarrow> ev_call list" where
  "delete_calls t =
     (case (et_task_watcher t, et_stop_watcher t) of
        (Some h, Some s) \<Rightarrow> EventDel (wt_id h) # (if pipe0 h \<noteq> 0 then [CloseFd (pipe0 h), CloseFd (pipe1 h)] else []) @ [EventDel (wt_id s)]
      | _ \<Rightarrow> [])"

lemma stop_loop_live:
  "\<forall>t \<in> set ts. et_live t \<Longrightarrow>
     stop_loop (map Some ts) w = Inr (map (\<lambda>t. Some (t\<lparr>et_running := False, et_base := None\<rparr>)) ts, ev_log (concat (map stop_calls ts)) w)"
proof (induction ts arbitrary: w)
  case (Cons t ts)
  then obtain b h s where "et_base t = Some b" "et_stop_watcher t = Some s" "et_running t" using et_liveD [of t] by auto
  then show ?case using Cons by (simp add: et_Stop_def wt_Notify_def et_Close_def stop_calls_def)
qed simp

lemma destroy_live: "et_live t \<Longrightarrow> destroy_ptr (Some (t\<lparr>et_running := False, et_base := None\<rparr>)) w = ev_log (delete_calls t) w"
  by (auto dest!: et_liveD simp: destroy_ptr_def et_destroy_def delete_calls_def wt_Close_def wt_Cancel_def wt_DoClose_def Let_def)

lemma fold_destroy_live:
  "\<forall>t \<in> set ts. et_live t \<Longrightarrow>
     fold destroy_ptr (map (\<lambda>t. Some (t\<lparr>et_running := False, et_base := None\<rparr>)) ts) w = ev_log (concat (map delete_calls ts)) w"
  by (induction ts arbitrary: w) (simp_all add: destroy_live)

section \<open>A burst of tasks\<close>

fun add_tasks :: "'a list \<Rightarrow> EventThreadPool \<Rightarrow> 'a evq list \<Rightarrow> (bool list \<times> EventThreadPool \<times> 'a evq list) res" where
  "add_tasks [] p qs = Inr ([], p, qs)"
| "add_tasks (t # ts) p qs = bindr (evpool_AddTask t p qs) (\<lambda>(ok, p, qs). bindr (add_tasks ts p qs) (\<lambda>(oks, p, qs). Inr (ok # oks, p, qs)))"

text \<open>Every \<open>n\<close>-th task, from place \<open>i\<close> on.\<close>

definition every :: "nat \<Rightarrow> nat \<Rightarrow> 'a list \<Rightarrow> 'a list" where
  "every n i xs = map ((!) xs) (filter (\<lambda>k. k mod n = i) [0..<length xs])"

lemma every_snoc: "every n i (xs @ [x]) = every n i xs @ (if length xs mod n = i then [x] else [])"
  by (auto simp: every_def nth_append intro!: map_cong)

lemma shifted_mod: "r < (n::nat) \<Longrightarrow> i < n \<Longrightarrow> (r + (n - i)) mod n = 0 \<longleftrightarrow> r = i"
proof -
  assume h: "r < n" "i < n"
  consider "r < i" | "r = i" | "i < r" by linarith
  then show ?thesis
  proof cases
    case 1
    then have "r + (n - i) < n" using h by linarith
    then show ?thesis using 1 h by simp
  next
    case 3
    have e: "r + (n - i) = (r - i) + n" using 3 h by linarith
    have "(r + (n - i)) mod n = r - i" unfolding e mod_add_self2 using h(1) by (intro mod_less) linarith
    then show ?thesis using 3 by simp
  qed (use h in simp)
qed

lemma length_every: "i < n \<Longrightarrow> length (every n i xs) = (length xs + (n - 1 - i)) div n"
proof (induction xs rule: rev_induct)
  case Nil
  then show ?case by (simp add: every_def)
next
  case (snoc x xs)
  let ?m = "length xs + (n - 1 - i)"
  have "Suc ?m mod n = 0 \<longleftrightarrow> length xs mod n = i"
  proof -
    have e: "Suc ?m = length xs + (n - i)" using snoc.prems by simp
    have "Suc ?m mod n = (length xs mod n + (n - i)) mod n" unfolding e by (rule mod_add_left_eq [symmetric])
    moreover have "length xs mod n < n" using snoc.prems by simp
    ultimately show ?thesis using snoc.prems shifted_mod by simp
  qed
  then show ?case using snoc by (simp add: every_snoc div_Suc)
qed

lemma length_every_next: "0 < n \<Longrightarrow> length (every n (length xs mod n) xs) = length xs div n"
proof -
  assume n: "0 < n"
  have "length xs + (n - 1 - length xs mod n) = length xs div n * n + (n - 1)"
    using div_mult_mod_eq [of "length xs" n] mod_less_divisor [OF n, of "length xs"] by linarith
  moreover have "(length xs div n * n + (n - 1)) div n = length xs div n" using n by (intro div_nat_eqI) (simp_all add: mult.commute)
  ultimately show ?thesis using n by (simp only: length_every mod_less_divisor)
qed

lemma add_tasks_snoc:
  "add_tasks (xs @ [x]) p qs =
     bindr (add_tasks xs p qs) (\<lambda>(oks, p, qs). bindr (evpool_AddTask x p qs) (\<lambda>(ok, p, qs). Inr (oks @ [ok], p, qs)))"
proof (induction xs arbitrary: p qs)
  case Nil
  then show ?case by (cases "evpool_AddTask x p qs") auto
next
  case (Cons t xs)
  then show ?case by (cases "evpool_AddTask t p qs") (auto simp: bindr_def split: sum.splits)
qed

text \<open>A started pool with one queue per thread.\<close>

definition ready :: "nat \<Rightarrow> EventThreadPool \<Rightarrow> bool" where
  "ready n p \<longleftrightarrow> started p \<and> 0 < n \<and> numThreads p = n \<and> length (eventThreadPtrVec p) = n \<and> None \<notin> set (eventThreadPtrVec p)"

lemma evpool_AddTask_ready:
  assumes "ready n p" "length qs = n" "unat (next_thread p) mod n = i" "length (eq_tasks (qs ! i)) < eq_size (qs ! i)"
  shows "evpool_AddTask t p qs = Inr (True, p\<lparr>next_thread := next_thread p + 1\<rparr>, qs[i := evq_add t (qs ! i)]) \<and>
    eq_tasks (evq_add t (qs ! i)) = eq_tasks (qs ! i) @ [t] \<and> eq_size (evq_add t (qs ! i)) = eq_size (qs ! i)"
proof -
  have i: "i < n" using assms(1,3) by (auto simp: ready_def)
  then have "eventThreadPtrVec p ! i \<in> set (eventThreadPtrVec p)" using assms(1) by (simp add: ready_def)
  then have "eventThreadPtrVec p ! i \<noteq> None" using assms(1) unfolding ready_def by metis
  moreover have "eventThreadPtrVec p \<noteq> []" using assms(1) by (auto simp: ready_def)
  ultimately show ?thesis using assms i
    by (auto simp: evpool_AddTask_def GetNextEventThread_def ready_def AddTask_locked_def evq_add_def Let_def)
qed

lemma add_tasks_ready:
  assumes p: "ready n p" "next_thread p = 0" "n \<le> 65536"
    and q0: "length qs0 = n" "\<forall>i < n. eq_tasks (qs0 ! i) = [] \<and> eq_size (qs0 ! i) = 10000"
  shows "length xs \<le> 10000 * n \<Longrightarrow> \<exists>qs. add_tasks xs p qs0 =
      Inr (replicate (length xs) True, p\<lparr>next_thread := word_of_nat (length xs)\<rparr>, qs) \<and>
    length qs = n \<and> (\<forall>i < n. eq_tasks (qs ! i) = every n i xs \<and> eq_size (qs ! i) = 10000)"
proof (induction xs rule: rev_induct)
  case Nil
  have "p\<lparr>next_thread := 0\<rparr> = p" using p(2) by simp
  then show ?case using q0 by (simp add: every_def)
next
  case (snoc x xs)
  let ?L = "length xs" and ?p = "p\<lparr>next_thread := word_of_nat (length xs)\<rparr>"
  have n: "0 < n" using p(1) by (simp add: ready_def)
  obtain qs where q: "add_tasks xs p qs0 = Inr (replicate ?L True, ?p, qs)"
    "length qs = n" "\<forall>i < n. eq_tasks (qs ! i) = every n i xs \<and> eq_size (qs ! i) = 10000" using snoc by auto
  have r: "ready n ?p" using p(1) by (simp add: ready_def)
  have "?L < 2 ^ 64" using snoc.prems p(3) by simp
  then have u: "unat (next_thread ?p) mod n = ?L mod n" by (simp add: unat_of_nat take_bit_nat_eq_self)
  have i: "?L mod n < n" using n by simp
  have "?L div n < 10000" using snoc.prems n by (simp add: less_mult_imp_div_less)
  then have l: "length (eq_tasks (qs ! (?L mod n))) < eq_size (qs ! (?L mod n))" using q(3) i length_every_next [OF n, of xs] by simp
  from evpool_AddTask_ready [OF r q(2) u l, of x] show ?case
    using q i by (auto simp: add_tasks_snoc every_snoc nth_list_update replicate_append_same add.commute)
qed

section \<open>Properties\<close>

text \<open>C40: the pool deals out its tasks in turn.  \<open>Start\<close> of a new pool returns whatever libevent answers, and succeeds when no call fails; when it succeeds, every thread has a queue
  for 10000 tasks, a burst of up to 10000 tasks for every thread is accepted entirely, and the queue of thread \<open>i\<close> holds the tasks \<open>i\<close>, \<open>i + n\<close>, \<open>i + 2 * n\<close> and so on, in this order.\<close>

theorem event_pool_deals_in_turn:
  fixes xs :: "'a list"
  assumes "0 < n" "n < 65536"
  shows "\<exists>ok p w'. evpool_Start lib (new_EventThreadPool n) w = Inr (ok, p, w') \<and> (el_good lib \<longrightarrow> ok) \<and>
    (ok \<longrightarrow> length (pool_queues p :: 'a evq list) = n \<and> (\<forall>q \<in> set (pool_queues p :: 'a evq list). eq_size q = 10000 \<and> eq_tasks q = [])) \<and>
    (ok \<longrightarrow> length xs \<le> 10000 * n \<longrightarrow>
      (\<exists>qs. add_tasks xs p (pool_queues p) =
          Inr (replicate (length xs) True, p\<lparr>next_thread := word_of_nat (length xs)\<rparr>, qs) \<and>
        length qs = n \<and> (\<forall>i < n. eq_tasks (qs ! i) = every n i xs)))"
proof -
  obtain ok p w' where p: "evpool_Start lib (new_EventThreadPool n) w = Inr (ok, p, w')" "started p = ok" "next_thread p = 0" "numThreads p = n mod 65536"
    "ok \<longrightarrow> (\<exists>ts. eventThreadPtrVec p = map Some ts \<and> length ts = n mod 65536 \<and> (\<forall>t \<in> set ts. et_live t))"
    using evpool_Start_new [of lib n w] by blast
  have "ready n p \<and> length (pool_queues p :: 'a evq list) = n \<and>
      (\<forall>i < n. eq_tasks (pool_queues p ! i :: 'a evq) = [] \<and> eq_size (pool_queues p ! i :: 'a evq) = 10000)" if ok
    using p(2,4,5) that assms by (auto simp: ready_def pool_queues_def thread_queue_def evq_start_def et_live_def dest!: nth_mem)
  moreover from this have "\<forall>q \<in> set (pool_queues p :: 'a evq list). eq_size q = 10000 \<and> eq_tasks q = []" if ok using that by (auto simp: in_set_conv_nth)
  moreover have "ok" if "el_good lib" using evpool_Start_good [OF that, of n w] p(1) assms by auto
  ultimately show ?thesis using p(1,3) add_tasks_ready [of n p "pool_queues p" xs] assms(2) by auto
qed

definition ev_demo_lib :: el_lib where
  "ev_demo_lib = \<lparr>el_base = (\<lambda>_. True), el_pair = (\<lambda>i. Some (int i, int i + 1)), el_nonblock = (\<lambda>_ _. True), el_add = (\<lambda>_. True),
     el_junk_event = (\<lambda>_. False), el_junk_pipe = (\<lambda>_. 0)\<rparr>"

definition ev_demo_world :: ev_world where
  "ev_demo_world = \<lparr>ew_calls = 0, ew_log = []\<rparr>"

lemma ev_demo_good: "el_good ev_demo_lib"
  by (simp add: el_good_def ev_demo_lib_def)

lemma ev_demo_started: "\<exists>p w'. evpool_Start ev_demo_lib (new_EventThreadPool 2) ev_demo_world = Inr (True, p, w')"
  using evpool_Start_good [OF ev_demo_good] by simp

theorem event_pool_deals_in_turn_witness:
  "\<exists>p w' qs. evpool_Start ev_demo_lib (new_EventThreadPool 2) ev_demo_world = Inr (True, p, w') \<and>
     add_tasks [10, 11, 12 :: nat] p (pool_queues p) =
       Inr ([True, True, True], p\<lparr>next_thread := 3\<rparr>, qs) \<and> eq_tasks (qs ! 0) = [10, 12] \<and> eq_tasks (qs ! 1) = [11]"
proof -
  obtain p w' where p: "evpool_Start ev_demo_lib (new_EventThreadPool 2) ev_demo_world = Inr (True, p, w')" using ev_demo_started by blast
  have e: "every 2 0 [10, 11, 12 :: nat] = [10, 12]" "every 2 1 [10, 11, 12 :: nat] = [11]" by (simp_all add: every_def)
  from event_pool_deals_in_turn [of 2 ev_demo_lib ev_demo_world "[10, 11, 12 :: nat]"] p e show ?thesis
    by (auto simp: numeral_3_eq_3)
qed

text \<open>The order in which a pool is taken down.  \<open>Stop\<close> wakes and joins every thread of a started pool and frees its base; then the
  threads are deleted, and only now the events that were assigned to these bases are removed with \<open>event_del\<close>, and the pipe of the tasks is closed.  The pipe of
  \<open>Stop\<close> is not.\<close>

theorem event_pool_Stop_order:
  assumes "evpool_Start lib (new_EventThreadPool n) w = Inr (True, p, w1)"
  shows "\<exists>ts p2 w2. eventThreadPtrVec p = map Some ts \<and> length ts = n mod 65536 \<and> evpool_Stop p w1 = Inr (p2, w2) \<and> \<not> started p2 \<and>
    eventThreadPtrVec p2 = [] \<and> ew_log w2 = ew_log w1 @ concat (map stop_calls ts) @ concat (map delete_calls ts) \<and>
    (\<forall>t \<in> set ts. \<exists>b h s. et_base t = Some b \<and> et_task_watcher t = Some h \<and> et_stop_watcher t = Some s \<and>
       wt_event h = Assigned b \<and> wt_event s = Assigned b \<and>
       stop_calls t = [Send (pipe0 s), ThreadJoin (et_id t), BaseFree b] \<and>
       delete_calls t = EventDel (wt_id h) # (if pipe0 h \<noteq> 0 then [CloseFd (pipe0 h), CloseFd (pipe1 h)] else []) @ [EventDel (wt_id s)])"
proof -
  obtain ts where ts: "eventThreadPtrVec p = map Some ts" "length ts = n mod 65536" "\<forall>t \<in> set ts. et_live t"
    using evpool_Start_new [of lib n w] assms by auto
  have "\<exists>b h s. et_base t = Some b \<and> et_task_watcher t = Some h \<and> et_stop_watcher t = Some s \<and>
       wt_event h = Assigned b \<and> wt_event s = Assigned b \<and>
       stop_calls t = [Send (pipe0 s), ThreadJoin (et_id t), BaseFree b] \<and>
       delete_calls t = EventDel (wt_id h) # (if pipe0 h \<noteq> 0 then [CloseFd (pipe0 h), CloseFd (pipe1 h)] else []) @ [EventDel (wt_id s)]"
    if "t \<in> set ts" for t
    using et_liveD [of t] ts(3) that by (auto simp: stop_calls_def delete_calls_def)
  then show ?thesis using ts(1,2) stop_loop_live [OF ts(3), of w1] fold_destroy_live [OF ts(3)]
    by (intro exI [of _ ts]) (simp add: evpool_Stop_def)
qed

theorem event_pool_Stop_order_witness:
  "\<exists>p w1 p2 w2 ts. evpool_Start ev_demo_lib (new_EventThreadPool 2) ev_demo_world = Inr (True, p, w1) \<and> evpool_Stop p w1 = Inr (p2, w2) \<and>
     length ts = 2 \<and> ew_log w2 = ew_log w1 @ concat (map stop_calls ts) @ concat (map delete_calls ts)"
proof -
  obtain p w1 where p: "evpool_Start ev_demo_lib (new_EventThreadPool 2) ev_demo_world = Inr (True, p, w1)" using ev_demo_started by blast
  from event_pool_Stop_order [OF p] p show ?thesis by auto
qed

end
