(* ===== verification/Spec2Isabelle.thy ===== *)
theory Spec2Isabelle
  imports AsyncPubsub MultiHash Base64Class Checksum MurmurHash MsgQueue ConfigFile LogFile FileHelper Memcached EventPool
begin

text \<open>
  A verification library for the code of this repository: the Redis client \<open>hiredis\<close> under
  \<open>src/helper/redis_helper/hiredis-0.11.0\<close>, the connection pool and the hash client that the
  repository builds on it (\<open>src/helper/redis_helper\<close>), the memcached client of \<open>src/helper/memcache_helper\<close>, the event threads of
  \<open>src/helper/event_thread_pool\<close>, and the self-contained utilities of
  \<open>src/util\<close> and \<open>src/helper/util\<close>.

  \<^bold>\<open>How C is read.\<close>  \<open>Prelude\<close> fixes it for all theories.  A memory block is the list of its
  bytes; \<open>mem_get\<close>, \<open>mem_read\<close> and \<open>mem_write\<close> check every access, so a result \<open>Inr\<close> says that no
  access left its block and no \<open>assert\<close> failed; \<open>Inl NoMem\<close> is the NULL of a failed
  allocation.  \<open>malloc\<close> is a parameter that returns memory with arbitrary contents (\<open>alloc_ok\<close>) or fails; it is a function of the size, so requests of the same
  size succeed or fail alike.  Theorems about whole sessions assume that no allocation fails (\<open>\<not> may_fail\<close>).  Integer conversions and wrap-around are written out.  System calls take
  their results from a record of the operating system (\<open>Conn.world\<close>), so every theorem about input
  and output holds for all ways in which the kernel can split, delay or refuse it.

  \<^bold>\<open>The parts and how they interact.\<close>
  \<^item> \<open>sds.c\<close>, dynamic strings: \<open>Sds\<close> (header, growing, appending), \<open>SdsText\<close> (numbers, trimming,
    ranges, splitting, joining), \<open>SdsRepr\<close> (quoting and reading of argument lines), \<open>SdsFmt\<close>
    (\<open>sdscatfmt\<close>).  All buffers of the client are sds strings; the locale \<open>growable_buffer\<close> is what the
    others rely on.
  \<^item> \<open>dict.c\<close>, the hash table of the subscriptions: \<open>Dict\<close>, with the locales \<open>dict_type_laws\<close> (what
    the functions of a \<open>dictType\<close> must satisfy) and \<open>keyed_store\<close> (a table refines a finite map).
  \<^item> \<open>read.c\<close>, the protocol reader: \<open>Reader\<close> is the code with its task stack, \<open>Reply\<close> the reply
    objects of \<open>hiredis.c\<close> that it builds through its function table, \<open>Protocol\<close> an abstract
    incremental parser, \<open>ReaderRefine\<close> the simulation between them and the locale \<open>reply_source\<close>
    that the connections use.
  \<^item> \<open>hiredis.c\<close>: \<open>Command\<close> (the formatters of commands), \<open>Context\<close> (the blocking
    connection); \<open>net.c\<close>: \<open>Net\<close> over the record of \<open>Conn\<close>.
  \<^item> \<open>async.c\<close>: \<open>CallbackList\<close> (the linked callback lists, locale \<open>callback_queue\<close>), \<open>Async\<close> (all
    handlers), \<open>AsyncProps\<close> (freeing), \<open>AsyncCommand\<close> (sending), \<open>AsyncReplies\<close> (one run of callbacks), \<open>AsyncSession\<close> (sending, writing and
    reading over many events) and \<open>AsyncPubsub\<close> (subscriptions).  What a callback
    does is a parameter: each invocation is answered by a list of further calls on the context.  Freeing is shown for arbitrary callbacks; the runs for
    callbacks that send commands other than subscriptions and MONITOR, disconnect and free the context (\<open>polite\<close>, with a bound on the bytes).
  \<^item> \<open>RedisConnPool.cpp\<close>: \<open>ConnPool\<close>; \<open>RedisCliPool.cpp\<close> and \<open>RedisCliPoolImpl.cpp\<close>: \<open>CliPool\<close> and
    \<open>CliPoolProps\<close>; \<open>MultiHashRedisCliPool.cpp\<close>: \<open>CliPool\<close> and \<open>MultiHash\<close>.  They call the functions of
    \<open>hiredis.c\<close> and \<open>net.c\<close> as modelled, not a specification of them.
  \<^item> \<open>ssMemcached.cpp\<close>, \<open>MemcachedCli.cpp\<close> and \<open>MemcachedCliPool.cpp\<close>: \<open>Memcached\<close>.  libmemcached and the node
    manager are a parameter that answers every call.
  \<^item> \<open>EventThread.cpp\<close>, \<open>EventWatcher.cpp\<close> and \<open>EventThreadPool.cpp\<close>: \<open>EventQueue\<close> (the queue of a thread, as a transition relation, with the
    locale \<open>draining\<close>) and \<open>EventPool\<close> (the objects around it and the pool).  Whether the calls of libevent succeed is a parameter.
  \<^item> Utilities: \<open>util/base64.cc\<close> in \<open>Base64\<close>, \<open>helper/util/base64.cpp\<close> in \<open>Base64Class\<close>,
    \<open>util/crc\<close> in \<open>Checksum\<close> (locale \<open>reflected_poly\<close>, used for both polynomials),
    \<open>util/murmurhash.cc\<close> in \<open>MurmurHash\<close>, \<open>util/msg_queue.h\<close> in \<open>MsgQueue\<close>,
    \<open>helper/util/string_helper.cpp\<close> in \<open>StringHelper\<close>, \<open>util/config.cpp\<close> in \<open>Config\<close> (the tree and its paths) and
    \<open>ConfigFile\<close> (its file format), \<open>util/log.cpp\<close> in \<open>LogFile\<close>, \<open>helper/util/file_helper.cpp\<close> in \<open>FileHelper\<close>;
    \<open>WordBytes\<close> has the words that are read from memory.

  \<^bold>\<open>What is shown.\<close>
  \<^item> Strings: every operation keeps the layout of the block, and has the effect on the bytes that its
    comment promises; splitting and joining, quoting and reading, printing and reading numbers are
    inverse to each other.
  \<^item> Reader: it delivers exactly the replies of the protocol however the input is cut, reports
    violations, and leaves no object behind.  Together with the formatters: a request is read back as its
    arguments.
  \<^item> Connections: a session of commands on a blocking or asynchronous context sends exactly the requests
    and hands each reply to its command or callback, in order and whatever commands the callbacks send, and messages reach the callback of their channel; a closed connection is an error that stays;
    every pending callback runs exactly once when a context is freed; no socket is lost in an attempt to
    connect, except where \<open>net.c\<close> retries with \<open>SO_REUSEADDR\<close>.
  \<^item> Pool and client: the counts of the pool are right under every sequence of borrowing and returning, and the hash
    commands return what the server answered; several hashes at once are the sequence of single calls.
  \<^item> Memcached: requests neither leak connections nor use closed ones, values are filed under their keys, cut to the size of the buffer, and the
    requests of a pool, each retry included, take its servers in turn.
  \<^item> Event threads: accepted tasks are run exactly once and in order under every interleaving, no wake-up is lost, \<open>Stop\<close> empties the queue first, and
    the pool deals out its tasks in turn.
  \<^item> Utilities: the codecs are inverse, the tables compute the remainders of their polynomials, the hash
    functions separate nearby keys, queues keep the order and lose no wake-up, the
    loops over strings end exactly where they should, a configuration is a map from paths to values and survives
    saving and loading, the logger loses no line when it rotates its file, as long as its calls succeed and no two rotations fall into one second, and a copied file is
    complete or not there.
  \<^item> Where the code does not do this, a theorem gives the behaviour it has: formats that end in the middle of a
    conversion, a message for an unknown channel, a NULL connection, a reply freed twice, shifted
    fields, a decoder that writes behind its buffer, a NULL message, an empty pattern, a log file that cannot be renamed, a relative path,
    a task added to a thread that has ended, events deleted after their base.

  \<^bold>\<open>Loops and fuel.\<close>  Loops whose end is visible from their arguments are structural or have a measure.  The
  loops of a blocking connection (\<open>write_all\<close>, \<open>read_reply\<close>) consume the results of the operating system and give
  \<open>None\<close> when these are used up, that is, when the call blocks for ever.  Fuel is used where the end depends on a
  data structure, and is chosen so that it suffices: \<open>process_loop\<close> has a round for every byte of input, since each reply takes bytes from
  the buffer; the loops of \<open>__redisAsyncFree\<close> a round for every cell of the heap, since each frees one; \<open>freeReplyObject\<close> the length of the
  heap, since a tree is not deeper; an iteration over a table one round more than it has entries.  The theorems about
  these functions show that a result is reached.  \<open>ReplaceAll\<close> and \<open>Split\<close>, which need not end, are partial functions, with a theorem
  for each side; the loop of \<open>Mkdir\<close> is one that always ends.  \<open>copy_loop\<close> has a round for every byte of the file and one more.  Threads are interleavings of steps that hold the lock (\<open>pool_state\<close>, \<open>mq_reach\<close>, \<open>evq_step\<close>).

  \<^bold>\<open>Not modelled.\<close>  The release of memory where nothing depends on it, log output, the text that \<open>printf\<close> gives for one
  conversion and \<open>rand()\<close> (parameters), and the test programs.  Outside the library: wrappers of libraries that the
  repository does not contain (zlib, thrift, json-cpp), generated code, the
  vendored \<open>city.cpp\<close>, wrappers of single system calls (files, shared memory, semaphores, processes), and the
  demonstration programs.
\<close>

section \<open>Commands and replies\<close>

text \<open>A formatted command is itself a reply: an array of bulk strings.\<close>

lemma encode_command: "encode (RArray (map RString args)) = resp_command args"
  by (simp add: resp_command_def resp_bulk_def [abs_def] comp_def)

lemma command_encodable:
  assumes "length (resp_command args) \<le> 2147483647"
  shows "encodable (RArray (map RString args))"
proof -
  have a: "length a \<le> length (concat (map resp_bulk as))" if "a \<in> set as" for a as
    using that by (induction as) (auto simp: resp_bulk_def)
  have "length args \<le> length (concat (map resp_bulk args))" by (induction args) (auto simp: resp_bulk_def)
  with assms a [of _ args] show ?thesis by (fastforce simp: resp_command_def)
qed

lemma command_nesting: "nesting (RArray (map RString args)) \<le> 8"
  by (simp add: nesting.simps)

text \<open>C2: the two directions of the client fit together: the request that \<open>redisFormatCommandArgv\<close> builds from
  arguments of arbitrary bytes is read back by the protocol reader, however the bytes are cut on the way, as an
  array of bulk strings with exactly these arguments.\<close>

theorem command_roundtrip:
  assumes al: "alloc_ok al" "\<not> may_fail al" and r: "redisReaderCreateWithFunctions al (defaultFunctions al) = Some r"
    and ls: "length ls = length argv" "\<forall>j < length argv. ls ! j \<le> length (argv ! j)"
    and ds: "concat ds = resp_command (map2 take ls argv)" "ds \<noteq> []" "last ds \<noteq> []" "length (concat ds) \<le> 2146434047"
  shows "redisFormatCommandArgv al True (length argv) argv (Some ls) = Inr (int (length (concat ds)), Some (concat ds @ [NUL])) \<and>
    (\<exists>r' h' a. feed_chunks (reader_feed al) reader_get (r, h) ds =
       Inr (replicate (length ds - 1) None @ [Some (ObjAddr a)], (r', h')) \<and>
     view_reply (reply_size (RArray (map RString (map2 take ls argv)))) h' a = Some (RArray (map RString (map2 take ls argv))))"
proof
  let ?args = "map2 take ls argv"
  have m: "map arg_bytes (zip argv ls) = ?args" using ls(1) by (intro nth_equalityI) simp_all
  have "\<forall>(a, l) \<in> set (zip argv ls). l \<le> length a" using ls by (auto simp: set_zip)
  from redisFormatCommandArgv_spec [OF al arg_vector_lens [OF ls(1)] _ this] ls(1) ds(4)
  show "redisFormatCommandArgv al True (length argv) argv (Some ls) = Inr (int (length (concat ds)), Some (concat ds @ [NUL]))"
    unfolding m ds(1) by simp
  have "encodable (RArray (map RString ?args))" using ds(1,4) by (intro command_encodable) simp
  then show "\<exists>r' h' a. feed_chunks (reader_feed al) reader_get (r, h) ds =
      Inr (replicate (length ds - 1) None @ [Some (ObjAddr a)], (r', h')) \<and>
    view_reply (reply_size (RArray (map RString ?args))) h' a = Some (RArray (map RString ?args))"
    using reader_parses_chunks_spec [OF al r _ command_nesting, of ?args ds h] ds unfolding encode_command by metis
qed

theorem command_roundtrip_witness:
  "\<exists>r cmd r' h' a. redisReaderCreateWithFunctions (fill_alloc NUL) (defaultFunctions (fill_alloc NUL)) = Some r \<and>
    redisFormatCommandArgv (fill_alloc NUL) True 2 [''GET'', ''k'' @ CRLF] (Some [3, 3]) = Inr (22, Some (cmd @ [NUL])) \<and>
    feed_chunks (reader_feed (fill_alloc NUL)) reader_get (r, []) [cmd] = Inr ([Some (ObjAddr a)], (r', h')) \<and>
    view_reply 3 h' a = Some (RArray [RString ''GET'', RString (''k'' @ CRLF)])"
proof -
  let ?argv = "[''GET'', ''k'' @ CRLF]" and ?ds = "[resp_command (map2 take [3, 3] [''GET'', ''k'' @ CRLF])]"
  obtain r where r: "redisReaderCreateWithFunctions (fill_alloc NUL) (defaultFunctions (fill_alloc NUL)) = Some r"
    using create_exists by blast
  have c: "length (concat ?ds) = 22" by code_simp
  have l: "\<forall>j < length ?argv. [3, 3] ! j \<le> length (?argv ! j)" by (simp add: less_Suc_eq)
  have v: "map RString (map2 take [3, 3] ?argv) = [RString ''GET'', RString (''k'' @ CRLF)]"
    "reply_size (RArray [RString ''GET'', RString (''k'' @ CRLF)]) = 3" "length ?argv = 2" "length ?ds - 1 = 0" by simp_all
  have "concat ?ds = resp_command (map2 take [3, 3] ?argv)" "length [3::nat, 3] = length ?argv" "?ds \<noteq> []" "last ?ds \<noteq> []"
    "length (concat ?ds) \<le> 2146434047" using c by auto
  from command_roundtrip [OF fill_alloc_ok fill_alloc_never_fails r this(2) l this(1,3,4,5), of "[]"] r
  show ?thesis unfolding c v by auto
qed

end
